(* ===== verification/Prelude.thy ===== *)
theory Prelude
  imports Main "HOL-Library.Word"
begin

text \<open>
  Shared ground of the development: the machine types of the 64-bit build (\<open>ARCH_BITS == 64\<close>, where
  \<open>uintptr_t\<close>, \<open>size_t\<close> and \<open>testword_t\<close> are 64 bits wide), the collections the component theories
  add their facts to, and the lemmas on lists and words that several components use.

  \<^item> \<open>guard_simps\<close>: rewrite rules that turn a C guard on machine words into one on naturals;
  \<^item> \<open>array_simps\<close>: reads and writes of fixed-size C arrays kept as lists;
  \<^item> \<open>pow2_simps\<close>: closed powers of two used for page and block sizes.
\<close>

unbundle bit_operations_syntax

type_synonym u8 = "8 word"
type_synonym u16 = "16 word"
type_synonym u32 = "32 word"
type_synonym u64 = "64 word"

named_theorems guard_simps
named_theorems array_simps
named_theorems pow2_simps

section \<open>Words\<close>

lemma word_less_Suc_unat:
  fixes p pe :: "'a::len word"
  assumes "p < pe"
  shows "unat (p + 1) = Suc (unat p)"
proof -
  have "unat p < unat pe" and "unat pe < 2 ^ LENGTH('a)"
    using assms by (simp_all add: word_less_nat_alt)
  then have "Suc (unat p) < 2 ^ LENGTH('a)" by linarith
  then show ?thesis by (simp add: unat_word_ariths)
qed

lemma word_interval_insert:
  fixes p pe :: "'a::len word"
  assumes "p < pe"
  shows "{p..pe} = insert p {p + 1..pe}"
proof -
  have "p \<le> x \<longleftrightarrow> x = p \<or> p + 1 \<le> x" for x
    by (auto simp: word_le_nat_alt word_less_Suc_unat [OF assms] word_unat_eq_iff)
  then show ?thesis using assms inc_le [OF assms] by auto
qed

lemma word_dist_less:
  fixes p pe :: "'a::len word"
  assumes "p < pe"
  shows "unat pe - unat (p + 1) < unat pe - unat p"
  using assms by (simp add: word_less_Suc_unat word_less_nat_alt)

lemma two_power_word_inj:
  assumes "(2::'a::len word) ^ i = 2 ^ j" "i \<le> LENGTH('a)" "j \<le> LENGTH('a)"
  shows "i = j"
proof (rule ccontr)
  assume ne: "i \<noteq> j"
  define k where "k = min i j"
  have "k < LENGTH('a)" and "k = i \<or> k = j" using ne assms(2,3) by (auto simp: k_def)
  moreover have "bit ((2::'a word) ^ i) k = bit ((2::'a word) ^ j) k" using assms(1) by simp
  ultimately show False using ne by (auto simp: bit_exp_iff)
qed

lemma word_bits_eqI:
  fixes a b :: "'a::len word"
  assumes "\<And>n. n < LENGTH('a) \<Longrightarrow> bit a n = bit b n"
  shows "a = b"
  using assms by (rule bit_word_eqI)

lemma masked_eq_iff:
  fixes a b m :: "'a::len word"
  shows "(a XOR b) AND m = 0 \<longleftrightarrow> (\<forall>n < LENGTH('a). bit m n \<longrightarrow> bit a n = bit b n)"
  by (auto simp: bit_eq_iff bit_simps)

lemma two_power_u64_inj: "(2::u64) ^ i = 2 ^ j \<Longrightarrow> i \<le> 64 \<Longrightarrow> j \<le> 64 \<Longrightarrow> i = j"
  using two_power_word_inj [where 'a = 64, of i j] by simp

lemma and_one_zero_iff: "(m::u64) AND 1 = 0 \<longleftrightarrow> \<not> bit m 0"
  by (simp add: and_one_eq bit_0 even_iff_mod_2_eq_zero)

lemma unat_power2_u64: "unat ((2::u64) ^ k) = 2 ^ k mod 2 ^ 64"
proof -
  have "(2::u64) ^ k = of_nat (2 ^ k)" by simp
  then show ?thesis by (simp only: unat_of_nat) simp
qed

lemma unat_of_nat_small: "n < 2 ^ LENGTH('a) \<Longrightarrow> unat (of_nat n :: 'a::len word) = n"
  by (simp add: unat_of_nat)

lemma unat_pred: "0 < unat w \<Longrightarrow> unat (w - 1) = unat w - 1" for w :: "'a::len word"
  using unat_sub [of 1 w] by (simp add: word_le_nat_alt Suc_le_eq)

lemma unat_u64_less: "unat (w :: u64) < 2 ^ 64"
proof -
  have "unat w < 2 ^ LENGTH(64)" by (rule unsigned_less)
  then show ?thesis by simp
qed

lemma unat_ucast_small: "unat w < 2 ^ LENGTH('b) \<Longrightarrow> unat (ucast w :: 'b::len word) = unat w" for w :: "'a::len word"
  by (simp add: unsigned_ucast_eq take_bit_nat_eq_self)

lemma unat_shift: "unat (drop_bit n w) = unat w div 2 ^ n" for w :: "'a::len word"
proof -
  have "unat (drop_bit n w) = drop_bit n (unat w)" by (rule unat_drop_bit_eq)
  then show ?thesis by (simp only: drop_bit_eq_div)
qed

lemma unat_push_page: "unat a < 2 ^ 52 \<Longrightarrow> unat (push_bit 12 a) = unat a * 4096" for a :: u64
  by (simp add: push_bit_eq_mult unat_word_ariths)

section \<open>Lists as fixed-size arrays\<close>

lemma length_foldl_update:
  "length (foldl (\<lambda>xs i. xs[f i := g xs i]) xs is) = length xs"
  by (induction "is" arbitrary: xs) auto

lemma take_update_beyond [array_simps]: "n \<le> i \<Longrightarrow> take n (xs[i := x]) = take n xs"
  by simp

lemma nth_list_update_if [array_simps]:
  "i < length xs \<Longrightarrow> xs[j := x] ! i = (if j = i then x else xs ! i)"
  by (simp add: nth_list_update)

lemma set_take_Cons_drop: "set (take i xs @ x # drop i xs) = insert x (set xs)"
  by (metis Un_insert_right append_take_drop_id list.simps(15) set_append)

lemma sorted_take_drop:
  assumes "sorted xs"
  shows "sorted (take k xs @ drop (k + j) xs)"
proof -
  have "xs = take k xs @ take j (drop k xs) @ drop (k + j) xs"
    by (metis append_take_drop_id drop_drop add.commute)
  then have "sorted (take k xs @ take j (drop k xs) @ drop (k + j) xs)" using assms by simp
  then show ?thesis by (auto simp: sorted_append)
qed

end
