(* ===== verification/Settings.thy ===== *)
theory Settings
  imports Prelude
begin

text \<open>
  The enumerations of \<open>app/config.h\<close> and the size constants of \<open>system/memsize.h\<close>,
  \<open>system/vmem.h\<close>, \<open>system/pmem.h\<close> and \<open>boot/boot.h\<close>. C compares enumerators as
  integers (\<open>error_mode >= ERROR_MODE_BADRAM\<close>, \<open>power_save < POWER_SAVE_HIGH\<close>), so the two enumerations that
  the code compares are made linear orders by the position of their constructors.
\<close>

section \<open>Enumerations\<close>

datatype cpu_mode_t = PAR | SEQ | ONE

datatype error_mode_t =
    ERROR_MODE_NONE
  | ERROR_MODE_SUMMARY
  | ERROR_MODE_ADDRESS
  | ERROR_MODE_BADRAM
  | ERROR_MODE_MEMMAP
  | ERROR_MODE_PAGES

datatype power_save_t = POWER_SAVE_OFF | POWER_SAVE_LOW | POWER_SAVE_HIGH

fun error_mode_code :: "error_mode_t \<Rightarrow> nat" where
  "error_mode_code ERROR_MODE_NONE = 0"
| "error_mode_code ERROR_MODE_SUMMARY = 1"
| "error_mode_code ERROR_MODE_ADDRESS = 2"
| "error_mode_code ERROR_MODE_BADRAM = 3"
| "error_mode_code ERROR_MODE_MEMMAP = 4"
| "error_mode_code ERROR_MODE_PAGES = 5"

fun power_save_code :: "power_save_t \<Rightarrow> nat" where
  "power_save_code POWER_SAVE_OFF = 0"
| "power_save_code POWER_SAVE_LOW = 1"
| "power_save_code POWER_SAVE_HIGH = 2"

lemma error_mode_code_inj: "error_mode_code m = error_mode_code n \<Longrightarrow> m = n"
  by (cases m; cases n) auto

lemma power_save_code_inj: "power_save_code m = power_save_code n \<Longrightarrow> m = n"
  by (cases m; cases n) auto

instantiation error_mode_t :: linorder
begin

definition less_eq_error_mode_t :: "error_mode_t \<Rightarrow> error_mode_t \<Rightarrow> bool" where
  "less_eq_error_mode_t m n \<longleftrightarrow> error_mode_code m \<le> error_mode_code n"

definition less_error_mode_t :: "error_mode_t \<Rightarrow> error_mode_t \<Rightarrow> bool" where
  "less_error_mode_t m n \<longleftrightarrow> error_mode_code m < error_mode_code n"

instance
  by standard (auto simp: less_eq_error_mode_t_def less_error_mode_t_def intro: error_mode_code_inj)

end

instantiation power_save_t :: linorder
begin

definition less_eq_power_save_t :: "power_save_t \<Rightarrow> power_save_t \<Rightarrow> bool" where
  "less_eq_power_save_t m n \<longleftrightarrow> power_save_code m \<le> power_save_code n"

definition less_power_save_t :: "power_save_t \<Rightarrow> power_save_t \<Rightarrow> bool" where
  "less_power_save_t m n \<longleftrightarrow> power_save_code m < power_save_code n"

instance
  by standard (auto simp: less_eq_power_save_t_def less_power_save_t_def intro: power_save_code_inj)

end

lemma badram_modes:
  "ERROR_MODE_BADRAM \<le> m \<longleftrightarrow> m = ERROR_MODE_BADRAM \<or> m = ERROR_MODE_MEMMAP \<or> m = ERROR_MODE_PAGES"
  by (cases m) (simp_all add: less_eq_error_mode_t_def)

section \<open>Sizes\<close>

abbreviation PAGE_SHIFT :: nat where "PAGE_SHIFT \<equiv> 12"
abbreviation PAGE_SIZE :: u64 where "PAGE_SIZE \<equiv> 0x1000"

definition KB :: nat where "KB = 10"
definition MB :: nat where "MB = 20"
definition GB :: nat where "GB = 30"
definition TB :: nat where "TB = 40"

text \<open>
  \<open>PAGE_C\<close> shifts left in both branches, as the macro does: for units above a page it counts
  pages; for units below a page (never used by the code) it does not.
\<close>

definition PAGE_C :: "u64 \<Rightarrow> nat \<Rightarrow> u64" where
  "PAGE_C sz units =
     (if units < PAGE_SHIFT then push_bit (PAGE_SHIFT - units) sz else push_bit (units - PAGE_SHIFT) sz)"

definition SIZE_C :: "u64 \<Rightarrow> nat \<Rightarrow> u64" where
  "SIZE_C sz units = push_bit units sz"

definition VM_PINNED_SIZE :: u64 where "VM_PINNED_SIZE = PAGE_C 2 GB"
definition VM_WINDOW_SIZE :: u64 where "VM_WINDOW_SIZE = PAGE_C 1 GB"

definition MAX_MEM_SEGMENTS :: nat where "MAX_MEM_SEGMENTS = 128"
definition E820_MAP_SIZE :: nat where "E820_MAP_SIZE = 128"

lemma unit_sizes: "KB = 10" "MB = 20" "GB = 30" "TB = 40"
  by (simp_all add: KB_def MB_def GB_def TB_def)

lemma page_counts [pow2_simps]:
  "PAGE_C 1 GB = 0x40000" "PAGE_C 2 GB = 0x80000" "PAGE_C 3 GB = 0xC0000" "PAGE_C 4 GB = 0x100000"
  "PAGE_C 64 GB = 0x1000000" "PAGE_C 1 MB = 0x100" "PAGE_C 256 MB = 0x10000"
  by (simp_all add: PAGE_C_def unit_sizes)

lemma window_sizes [pow2_simps]: "VM_PINNED_SIZE = 0x80000" "VM_WINDOW_SIZE = 0x40000"
  by (simp_all add: VM_PINNED_SIZE_def VM_WINDOW_SIZE_def page_counts)

end
