(* ===== verification/Badram.thy ===== *)
theory Badram
  imports Settings
begin

text \<open>
  \<open>app/badram.c\<close>: the fault record of the BadRAM, memmap and pages reporting modes. The record is a fixed
  array \<open>patterns\<close> of \<open>PATTERNS_SIZE\<close> entries of which the first \<open>num_patterns\<close> are in use; every
  operation below is the C function of the same name on that array, with \<open>error_mode\<close> as an argument.

  In BadRAM mode an entry is an address and a mask (a set bit of the mask is compared), in the memmap and
  pages modes a lower and an upper address. The locale \<open>fault_cover\<close> states what the record needs from
  \<open>combine\<close> and \<open>combi_cost\<close>; it is interpreted for both readings of an entry.
\<close>

section \<open>State\<close>

record pattern_t =
  p_addr :: u64
  p_mask :: u64

record badram_state =
  patterns :: "pattern_t list"
  num_patterns :: nat

definition MAX_PATTERNS :: nat where "MAX_PATTERNS = 20"
definition PATTERNS_SIZE :: nat where "PATTERNS_SIZE = MAX_PATTERNS + 1"
definition DEFAULT_MASK :: u64 where "DEFAULT_MASK = push_bit 3 (- 1)"
definition SIZEOF_UINTPTR :: u64 where "SIZEOF_UINTPTR = 8"
definition UINT64_MAX :: u64 where "UINT64_MAX = - 1"

definition zero_pattern :: pattern_t where
  "zero_pattern = \<lparr>p_addr = 0, p_mask = 0\<rparr>"

abbreviation entry :: "badram_state \<Rightarrow> nat \<Rightarrow> pattern_t" where
  "entry s i \<equiv> patterns s ! i"

definition live :: "badram_state \<Rightarrow> pattern_t list" where
  "live s = take (num_patterns s) (patterns s)"

section \<open>Combining entries\<close>

definition COMBINE_MASK :: "u64 \<Rightarrow> u64 \<Rightarrow> u64 \<Rightarrow> u64 \<Rightarrow> u64" where
  "COMBINE_MASK a b c d = ((b AND d) AND NOT (a XOR c))"

definition combine :: "error_mode_t \<Rightarrow> u64 \<Rightarrow> u64 \<Rightarrow> u64 \<Rightarrow> u64 \<Rightarrow> pattern_t" where
  "combine mode addr1 mask1 addr2 mask2 =
     (if mode = ERROR_MODE_BADRAM
      then let m = COMBINE_MASK addr1 mask1 addr2 mask2
           in \<lparr>p_addr = (addr1 OR addr2) AND m, p_mask = m\<rparr>
      else \<lparr>p_addr = (if addr1 < addr2 then addr1 else addr2),
            p_mask = (if mask1 > mask2 then mask1 else mask2)\<rparr>)"

text \<open>The loop of \<open>addresses\<close>: \<open>i\<close> more bits to look at, the counter doubles at every clear bit.\<close>

fun addresses_loop :: "nat \<Rightarrow> u64 \<Rightarrow> u64 \<Rightarrow> u64" where
  "addresses_loop 0 ctr m = ctr"
| "addresses_loop (Suc i) ctr m =
     addresses_loop i (if m AND 1 = 0 then ctr + ctr else ctr) (drop_bit 1 m)"

definition addresses :: "u64 \<Rightarrow> u64" where
  "addresses m = addresses_loop 64 1 m"

definition combi_cost :: "error_mode_t \<Rightarrow> u64 \<Rightarrow> u64 \<Rightarrow> u64 \<Rightarrow> u64 \<Rightarrow> u64" where
  "combi_cost mode addr1 mask1 addr2 mask2 =
     (let c = combine mode addr1 mask1 addr2 mask2
      in if mode = ERROR_MODE_BADRAM then addresses (p_mask c) - addresses mask1
         else (p_mask c - p_addr c) - (mask1 - addr1))"

abbreviation pair_cost :: "error_mode_t \<Rightarrow> pattern_t \<Rightarrow> pattern_t \<Rightarrow> u64" where
  "pair_cost mode p q \<equiv> combi_cost mode (p_addr p) (p_mask p) (p_addr q) (p_mask q)"

abbreviation pair_combine :: "error_mode_t \<Rightarrow> pattern_t \<Rightarrow> pattern_t \<Rightarrow> pattern_t" where
  "pair_combine mode p q \<equiv> combine mode (p_addr p) (p_mask p) (p_addr q) (p_mask q)"

section \<open>The array operations\<close>

fun cheapest_loop :: "error_mode_t \<Rightarrow> pattern_t list \<Rightarrow> nat list \<Rightarrow> u64 \<times> int \<Rightarrow> u64 \<times> int" where
  "cheapest_loop mode ps [] acc = acc"
| "cheapest_loop mode ps (i # is) (min_cost, merge_idx) =
     (let tmp_cost = pair_cost mode (ps ! i) (ps ! (i + 1))
      in cheapest_loop mode ps is (if tmp_cost \<le> min_cost then (tmp_cost, int i) else (min_cost, merge_idx)))"

definition cheapest_pair :: "error_mode_t \<Rightarrow> badram_state \<Rightarrow> int" where
  "cheapest_pair mode s =
     snd (cheapest_loop mode (patterns s) [0..<num_patterns s - 1] (UINT64_MAX, -1))"

text \<open>
  The two loops that move entries: \<open>shift_down\<close> copies entry \<open>i + 2\<close> to \<open>i\<close> for \<open>i\<close> upwards from \<open>idx\<close>,
  \<open>shift_up\<close> copies entry \<open>i\<close> to \<open>i + 1\<close> for \<open>i\<close> downwards to \<open>idx\<close>.
\<close>

definition shift_down :: "nat \<Rightarrow> nat \<Rightarrow> pattern_t list \<Rightarrow> pattern_t list" where
  "shift_down idx m ps = foldl (\<lambda>ps i. ps[i := ps ! (i + 2)]) ps [idx..<m]"

definition shift_up :: "nat \<Rightarrow> nat \<Rightarrow> pattern_t list \<Rightarrow> pattern_t list" where
  "shift_up idx n ps = foldl (\<lambda>ps i. ps[i + 1 := ps ! i]) ps (rev [idx..<n])"

definition remove_pair :: "nat \<Rightarrow> badram_state \<Rightarrow> badram_state" where
  "remove_pair idx s =
     (let n = num_patterns s;
          ps = shift_down idx (n - 2) (patterns s)
      in \<lparr>patterns = ps[n - 1 := zero_pattern, n - 2 := zero_pattern], num_patterns = n - 2\<rparr>)"

definition combined_pattern :: "error_mode_t \<Rightarrow> nat \<Rightarrow> nat \<Rightarrow> badram_state \<Rightarrow> pattern_t" where
  "combined_pattern mode idx1 idx2 s = pair_combine mode (entry s idx1) (entry s idx2)"

definition insert_at :: "pattern_t \<Rightarrow> nat \<Rightarrow> badram_state \<Rightarrow> badram_state" where
  "insert_at pattern idx s =
     (let n = num_patterns s;
          ps = shift_up idx n (patterns s)
      in \<lparr>patterns = ps[idx := pattern], num_patterns = n + 1\<rparr>)"

definition normalise :: "error_mode_t \<Rightarrow> pattern_t \<Rightarrow> pattern_t" where
  "normalise mode p = (if mode = ERROR_MODE_BADRAM then p\<lparr>p_addr := p_addr p AND p_mask p\<rparr> else p)"

definition insert_index :: "u64 \<Rightarrow> badram_state \<Rightarrow> nat" where
  "insert_index a s =
     (case find (\<lambda>i. a < p_addr (entry s i)) [0..<num_patterns s] of
        None \<Rightarrow> num_patterns s | Some i \<Rightarrow> i)"

definition insert_sorted :: "error_mode_t \<Rightarrow> pattern_t \<Rightarrow> badram_state \<Rightarrow> badram_state" where
  "insert_sorted mode pattern s =
     (let p = normalise mode pattern in insert_at p (insert_index (p_addr p) s) s)"

section \<open>The public functions\<close>

definition badram_init :: "badram_state \<Rightarrow> badram_state" where
  "badram_init s =
     s\<lparr>num_patterns := 0,
       patterns := foldl (\<lambda>ps i. ps[i := zero_pattern]) (patterns s) [0..<PATTERNS_SIZE]\<rparr>"

text \<open>The entry that \<open>badram_insert\<close> makes for a fault: the byte address of the page and offset.\<close>

definition fault_addr :: "u64 \<Rightarrow> u64 \<Rightarrow> u64" where
  "fault_addr page offset = push_bit PAGE_SHIFT page + offset"

definition fault_pattern :: "error_mode_t \<Rightarrow> u64 \<Rightarrow> u64 \<Rightarrow> pattern_t" where
  "fault_pattern mode page offset =
     (let a = fault_addr page offset
      in \<lparr>p_addr = a, p_mask = (if mode = ERROR_MODE_BADRAM then DEFAULT_MASK else a)\<rparr>)"

text \<open>
  The first loop of \<open>badram_insert\<close>, over the indices still to look at: \<open>None\<close> when it runs to its end,
  the returned flag and the record when it returns early.
\<close>

fun badram_scan :: "error_mode_t \<Rightarrow> pattern_t \<Rightarrow> badram_state \<Rightarrow> nat list \<Rightarrow> (bool \<times> badram_state) option" where
  "badram_scan mode p s [] = None"
| "badram_scan mode p s (i # is) =
     (let cost = pair_cost mode (entry s i) p
      in if cost = 0 then Some (False, s)
         else if cost = SIZEOF_UINTPTR
           then Some (True, s\<lparr>patterns := (patterns s)[i := pair_combine mode (entry s i) p]\<rparr>)
         else badram_scan mode p s is)"

definition badram_insert :: "error_mode_t \<Rightarrow> u64 \<Rightarrow> u64 \<Rightarrow> badram_state \<Rightarrow> bool \<times> badram_state" where
  "badram_insert mode page offset s =
     (let p = fault_pattern mode page offset
      in case badram_scan mode p s [0..<num_patterns s] of
           Some r \<Rightarrow> r
         | None \<Rightarrow>
             (let s1 = insert_sorted mode p s
              in if num_patterns s1 > MAX_PATTERNS
                 then let merge_idx = nat (cheapest_pair mode s1);
                          combined = combined_pattern mode merge_idx (merge_idx + 1) s1
                      in (True, insert_sorted mode combined (remove_pair merge_idx s1))
                 else (True, s1)))"

section \<open>The number of addresses of a mask\<close>

primrec clear_bits :: "nat \<Rightarrow> u64 \<Rightarrow> nat" where
  "clear_bits 0 m = 0"
| "clear_bits (Suc i) m = (if m AND 1 = 0 then 1 else 0) + clear_bits i (drop_bit 1 m)"

lemma addresses_loop_eq: "addresses_loop i ctr m = ctr * 2 ^ clear_bits i m"
proof (induction i arbitrary: ctr m)
  case 0
  then show ?case by simp
next
  case (Suc i)
  show ?case
    by (simp add: Suc.IH ac_simps)
qed

lemma clear_bits_le: "clear_bits i m \<le> i"
  by (induction i arbitrary: m) (auto intro: le_SucI)

lemma clear_bits_mono:
  assumes "\<And>n. n < i \<Longrightarrow> bit m n \<Longrightarrow> bit m' n"
  shows "clear_bits i m' \<le> clear_bits i m \<and>
    (clear_bits i m' = clear_bits i m \<longrightarrow> (\<forall>n < i. bit m n = bit m' n))"
  using assms
proof (induction i arbitrary: m m')
  case 0
  then show ?case by simp
next
  case (Suc i)
  have step: "clear_bits i (drop_bit 1 m') \<le> clear_bits i (drop_bit 1 m) \<and>
    (clear_bits i (drop_bit 1 m') = clear_bits i (drop_bit 1 m) \<longrightarrow>
      (\<forall>n < i. bit (drop_bit 1 m) n = bit (drop_bit 1 m') n))"
    by (rule Suc.IH) (use Suc.prems in \<open>auto simp: bit_simps\<close>)
  have hd: "bit m 0 \<Longrightarrow> bit m' 0" using Suc.prems [of 0] by simp
  have split: "(\<forall>n < Suc i. bit m n = bit m' n) \<longleftrightarrow>
      bit m 0 = bit m' 0 \<and> (\<forall>n < i. bit m (Suc n) = bit m' (Suc n))"
    by (auto simp: less_Suc_eq_0_disj)
  show ?case
    using step hd by (auto simp: and_one_zero_iff split bit_simps)
qed

lemma addresses_eq: "addresses m = 2 ^ clear_bits 64 m"
  by (simp add: addresses_def addresses_loop_eq)

lemma addresses_eq_submask:
  assumes "addresses m = addresses m'" "\<And>n. bit m n \<Longrightarrow> bit m' n"
  shows "m = m'"
proof -
  have "clear_bits 64 m' = clear_bits 64 m"
    using assms(1) by (intro two_power_u64_inj) (simp_all only: addresses_eq clear_bits_le)
  then have "\<forall>n < 64. bit m n = bit m' n"
    using clear_bits_mono [of 64 m m'] assms(2) by blast
  then show ?thesis by (intro bit_word_eqI) simp
qed

section \<open>The array operations on the live entries\<close>

lemma shift_up_length [simp]: "length (shift_up idx n ps) = length ps"
proof -
  have "length (foldl (\<lambda>ps i. ps[i + 1 := ps ! i]) ps is) = length ps" for "is"
    by (induction "is" arbitrary: ps) auto
  then show ?thesis by (simp only: shift_up_def)
qed

lemma shift_down_length [simp]: "length (shift_down idx m ps) = length ps"
proof -
  have "length (foldl (\<lambda>ps i. ps[i := ps ! (i + 2)]) ps is) = length ps" for "is"
    by (induction "is" arbitrary: ps) auto
  then show ?thesis by (simp only: shift_down_def)
qed

lemma shift_up_Suc:
  "shift_up idx (Suc n) ps = (if idx \<le> n then shift_up idx n (ps[Suc n := ps ! n]) else ps)"
  by (simp add: shift_up_def)

lemma shift_down_Suc:
  "shift_down idx (Suc m) ps =
    (if idx \<le> m then (shift_down idx m ps)[m := shift_down idx m ps ! (m + 2)] else ps)"
  by (simp add: shift_down_def)

lemma shift_up_nth:
  assumes "n < length ps" "idx \<le> n" "j < length ps"
  shows "shift_up idx n ps ! j = (if idx < j \<and> j \<le> n then ps ! (j - 1) else ps ! j)"
  using assms
proof (induction n arbitrary: ps)
  case 0
  then show ?case by (simp add: shift_up_def)
next
  case (Suc n)
  show ?case
  proof (cases "idx = Suc n")
    case True
    then show ?thesis by (auto simp: shift_up_Suc)
  next
    case False
    let ?ps = "ps[Suc n := ps ! n]"
    have "shift_up idx n ?ps ! j = (if idx < j \<and> j \<le> n then ?ps ! (j - 1) else ?ps ! j)"
      using Suc.prems False by (intro Suc.IH) auto
    then show ?thesis
      using Suc.prems False by (auto simp: shift_up_Suc nth_list_update)
  qed
qed

lemma shift_down_nth:
  assumes "m + 2 \<le> length ps" "j < length ps"
  shows "shift_down idx m ps ! j = (if idx \<le> j \<and> j < m then ps ! (j + 2) else ps ! j)"
  using assms
proof (induction m arbitrary: j)
  case 0
  then show ?case by (simp add: shift_down_def)
next
  case (Suc m)
  then show ?case by (auto simp: shift_down_Suc nth_list_update less_Suc_eq)
qed

lemma length_live: "num_patterns s \<le> length (patterns s) \<Longrightarrow> length (live s) = num_patterns s"
  by (simp add: live_def)

lemma live_insert_at:
  assumes "num_patterns s < length (patterns s)" "idx \<le> num_patterns s"
  shows "live (insert_at p idx s) = take idx (live s) @ p # drop idx (live s)"
proof (rule nth_equalityI)
  show "length (live (insert_at p idx s)) = length (take idx (live s) @ p # drop idx (live s))"
    using assms by (simp add: live_def insert_at_def Let_def)
next
  fix j
  assume "j < length (live (insert_at p idx s))"
  then have "j \<le> num_patterns s"
    by (simp add: live_def insert_at_def Let_def)
  then show "live (insert_at p idx s) ! j = (take idx (live s) @ p # drop idx (live s)) ! j"
    using assms shift_up_nth [of "num_patterns s" "patterns s" idx j]
    by (auto simp: live_def insert_at_def Let_def nth_list_update nth_append nth_Cons'
        min_def)
qed

lemma live_remove_pair:
  assumes "num_patterns s \<le> length (patterns s)" "idx + 2 \<le> num_patterns s"
  shows "live (remove_pair idx s) = take idx (live s) @ drop (idx + 2) (live s)"
proof (rule nth_equalityI)
  show "length (live (remove_pair idx s)) = length (take idx (live s) @ drop (idx + 2) (live s))"
    using assms by (simp add: live_def remove_pair_def Let_def)
next
  fix j
  assume "j < length (live (remove_pair idx s))"
  then have "j < num_patterns s - 2"
    by (simp add: live_def remove_pair_def Let_def)
  then show "live (remove_pair idx s) ! j = (take idx (live s) @ drop (idx + 2) (live s)) ! j"
    using assms shift_down_nth [of "num_patterns s - 2" "patterns s" j idx]
    by (auto simp: live_def remove_pair_def Let_def nth_list_update nth_append min_def
        add.commute)
qed

lemma length_patterns_insert_at [simp]: "length (patterns (insert_at p idx s)) = length (patterns s)"
  by (simp add: insert_at_def Let_def)

lemma length_patterns_remove_pair [simp]: "length (patterns (remove_pair idx s)) = length (patterns s)"
  by (simp add: remove_pair_def Let_def)

lemma num_patterns_insert_at [simp]: "num_patterns (insert_at p idx s) = Suc (num_patterns s)"
  by (simp add: insert_at_def Let_def)

lemma num_patterns_remove_pair [simp]: "num_patterns (remove_pair idx s) = num_patterns s - 2"
  by (simp add: remove_pair_def Let_def)

lemma insert_index_le: "insert_index a s \<le> num_patterns s"
  by (auto simp: insert_index_def find_Some_iff split: option.split)

lemma live_update:
  "live (s\<lparr>patterns := (patterns s)[i := p]\<rparr>) = (live s)[i := p]"
  by (simp add: live_def take_update_swap)

lemma live_nth: "i < num_patterns s \<Longrightarrow> live s ! i = entry s i"
  by (simp add: live_def)

lemma live_insert_sorted:
  assumes "num_patterns s < length (patterns s)"
  shows "live (insert_sorted mode p s) =
    take (insert_index (p_addr (normalise mode p)) s) (live s) @
    normalise mode p # drop (insert_index (p_addr (normalise mode p)) s) (live s)"
  using assms by (simp add: insert_sorted_def Let_def live_insert_at insert_index_le)

lemma set_live_insert_sorted:
  assumes "num_patterns s < length (patterns s)"
  shows "set (live (insert_sorted mode p s)) = insert (normalise mode p) (set (live s))"
  using assms by (simp add: live_insert_sorted set_take_Cons_drop del: set_append)

lemma insert_sorted_sizes [simp]:
  "num_patterns (insert_sorted mode p s) = Suc (num_patterns s)"
  "length (patterns (insert_sorted mode p s)) = length (patterns s)"
  by (simp_all add: insert_sorted_def Let_def)

section \<open>The cheapest pair\<close>

lemma cheapest_loop_min:
  assumes "cheapest_loop mode ps is (m0, j0) = (m, j)"
  shows "m \<le> m0 \<and> (\<forall>i \<in> set is. m \<le> pair_cost mode (ps ! i) (ps ! (i + 1))) \<and>
    ((m, j) = (m0, j0) \<or> (\<exists>i \<in> set is. j = int i \<and> m = pair_cost mode (ps ! i) (ps ! (i + 1))))"
  using assms
proof (induction "is" arbitrary: m0 j0)
  case Nil
  then show ?case by simp
next
  case (Cons i "is")
  let ?c = "pair_cost mode (ps ! i) (ps ! (i + 1))"
  show ?case
  proof (cases "?c \<le> m0")
    case True
    with Cons.prems have "cheapest_loop mode ps is (?c, int i) = (m, j)" by (simp add: Let_def)
    from Cons.IH [OF this] True show ?thesis by auto
  next
    case False
    with Cons.prems have "cheapest_loop mode ps is (m0, j0) = (m, j)" by (simp add: Let_def)
    from Cons.IH [OF this] False show ?thesis by (auto simp: not_le)
  qed
qed

lemma cheapest_pair_range:
  assumes "2 \<le> num_patterns s"
  shows "\<exists>i < num_patterns s - 1. cheapest_pair mode s = int i \<and>
    (\<forall>k < num_patterns s - 1.
       pair_cost mode (entry s i) (entry s (i + 1)) \<le> pair_cost mode (entry s k) (entry s (k + 1)))"
proof -
  let ?is = "[0..<num_patterns s - 1]"
  have upt: "?is = 0 # [1..<num_patterns s - 1]" using assms by (simp add: upt_conv_Cons)
  let ?c = "pair_cost mode (entry s 0) (entry s 1)"
  have all_le: "w \<le> UINT64_MAX" for w by (simp add: UINT64_MAX_def)
  obtain m j where mj: "cheapest_loop mode (patterns s) ?is (UINT64_MAX, -1) = (m, j)" by fastforce
  then have rest: "cheapest_loop mode (patterns s) [1..<num_patterns s - 1] (?c, 0) = (m, j)"
    by (simp only: upt cheapest_loop.simps Let_def all_le if_True) simp
  have "\<exists>i \<in> set ?is. j = int i \<and> m = pair_cost mode (entry s i) (entry s (i + 1))"
    unfolding upt using cheapest_loop_min [OF rest] by (auto simp del: set_upt)
  moreover have "\<forall>k \<in> set ?is. m \<le> pair_cost mode (entry s k) (entry s (k + 1))"
    using cheapest_loop_min [OF mj] by blast
  ultimately show ?thesis
    using mj by (auto simp: cheapest_pair_def)
qed

lemma entry_in_live:
  assumes "i < num_patterns s" "num_patterns s \<le> length (patterns s)"
  shows "entry s i \<in> set (live s)"
  using assms nth_mem [of i "live s"] by (simp add: live_nth length_live)

section \<open>What an entry covers\<close>

definition pattern_covers :: "error_mode_t \<Rightarrow> pattern_t \<Rightarrow> u64 \<Rightarrow> bool" where
  "pattern_covers mode p a \<longleftrightarrow>
     (if mode = ERROR_MODE_BADRAM then (a XOR p_addr p) AND p_mask p = 0
      else p_addr p \<le> a \<and> a \<le> p_mask p)"

definition pattern_ok :: "error_mode_t \<Rightarrow> pattern_t \<Rightarrow> bool" where
  "pattern_ok mode p \<longleftrightarrow>
     (if mode = ERROR_MODE_BADRAM then p_addr p AND NOT (p_mask p) = 0 else p_addr p \<le> p_mask p)"

definition covered :: "error_mode_t \<Rightarrow> badram_state \<Rightarrow> u64 \<Rightarrow> bool" where
  "covered mode s a \<longleftrightarrow> (\<exists>p \<in> set (live s). pattern_covers mode p a)"

definition badram_inv :: "error_mode_t \<Rightarrow> badram_state \<Rightarrow> bool" where
  "badram_inv mode s \<longleftrightarrow>
     length (patterns s) = PATTERNS_SIZE \<and> num_patterns s \<le> MAX_PATTERNS \<and>
     (\<forall>p \<in> set (live s). pattern_ok mode p)"

text \<open>
  The contract between the record and the two ways of reading an entry. \<open>fit\<close> holds of the entries that
  may be handed to \<open>combine\<close>, \<open>wf\<close> of the entries that are stored, \<open>cov\<close> is what an entry covers.
\<close>

locale fault_cover =
  fixes mode :: error_mode_t
    and fit :: "pattern_t \<Rightarrow> bool"
    and wf :: "pattern_t \<Rightarrow> bool"
    and cov :: "pattern_t \<Rightarrow> u64 \<Rightarrow> bool"
  assumes wf_fit: "wf p \<Longrightarrow> fit p"
    and combine_wf: "fit p \<Longrightarrow> fit q \<Longrightarrow> wf (pair_combine mode p q)"
    and combine_left: "fit p \<Longrightarrow> fit q \<Longrightarrow> cov p a \<Longrightarrow> cov (pair_combine mode p q) a"
    and combine_right: "fit p \<Longrightarrow> fit q \<Longrightarrow> cov q a \<Longrightarrow> cov (pair_combine mode p q) a"
    and free_merge: "fit p \<Longrightarrow> fit q \<Longrightarrow> pair_cost mode p q = 0 \<Longrightarrow> cov q a \<Longrightarrow> cov p a"
    and normalise_wf: "fit p \<Longrightarrow> wf (normalise mode p)"
    and normalise_cov: "cov (normalise mode p) a = cov p a"
    and fault_fit: "fit (fault_pattern mode page offset)"
    and fault_cov: "cov (fault_pattern mode page offset) (fault_addr page offset)"
begin

lemma scan_ignored:
  assumes "badram_scan mode p s is = Some (False, s')"
  shows "s' = s \<and> (\<exists>i \<in> set is. pair_cost mode (entry s i) p = 0)"
  using assms by (induction "is") (auto simp: Let_def split: if_splits)

lemma scan_merged:
  assumes "badram_scan mode p s is = Some (True, s')"
  shows "\<exists>i \<in> set is. s' = s\<lparr>patterns := (patterns s)[i := pair_combine mode (entry s i) p]\<rparr>"
  using assms by (induction "is") (auto simp: Let_def split: if_splits)

lemma merge_in_place:
  assumes ok: "\<forall>q \<in> set (live s). wf q" and i: "i < num_patterns s" "num_patterns s \<le> length (patterns s)"
    and p: "fit p"
    and s': "s' = s\<lparr>patterns := (patterns s)[i := pair_combine mode (entry s i) p]\<rparr>"
  shows "(\<forall>q \<in> set (live s'). wf q) \<and>
    (\<forall>a. (\<exists>q \<in> set (live s). cov q a) \<or> cov p a \<longrightarrow> (\<exists>q \<in> set (live s'). cov q a))"
proof -
  let ?c = "pair_combine mode (entry s i) p"
  have len: "length (live s) = num_patterns s" using i by (simp add: length_live)
  have live': "live s' = (live s)[i := ?c]" by (simp add: s' live_update)
  have old: "entry s i \<in> set (live s)" using i by (rule entry_in_live)
  then have fit_i: "fit (entry s i)" using ok wf_fit by blast
  have c_in: "?c \<in> set (live s')" using i len by (simp add: live' set_update_memI)
  have "wf ?c" using fit_i p by (rule combine_wf)
  then have wfs: "\<forall>q \<in> set (live s'). wf q"
    using ok set_update_subset_insert [of "live s" i ?c] by (auto simp: live')
  have "\<exists>q \<in> set (live s'). cov q a" if q: "q \<in> set (live s)" and cq: "cov q a" for q a
  proof -
    obtain j where "j < length (live s)" "live s ! j = q"
      using q unfolding in_set_conv_nth by blast
    then have j: "j < num_patterns s" "q = live s ! j" by (simp_all add: len)
    show ?thesis
    proof (cases "j = i")
      case True
      then have "cov ?c a" using cq j i combine_left [OF fit_i p] by (simp add: live_nth)
      then show ?thesis using c_in by blast
    next
      case False
      then have "(live s)[i := ?c] ! j = q" and "j < length ((live s)[i := ?c])" using j len by simp_all
      then have "q \<in> set (live s')" unfolding live' using nth_mem by metis
      then show ?thesis using cq by blast
    qed
  qed
  moreover have "\<exists>q \<in> set (live s'). cov q a" if "cov p a" for a
    using c_in combine_right [OF fit_i p that] by blast
  ultimately show ?thesis using wfs by blast
qed

lemma forced_merge:
  assumes ok: "\<forall>q \<in> set (live s). wf q" and n: "2 \<le> num_patterns s" "num_patterns s \<le> length (patterns s)"
    and k: "k = nat (cheapest_pair mode s)"
    and s': "s' = insert_sorted mode (combined_pattern mode k (k + 1) s) (remove_pair k s)"
  shows "num_patterns s' = num_patterns s - 1 \<and> length (patterns s') = length (patterns s) \<and>
    (\<forall>q \<in> set (live s'). wf q) \<and>
    (\<forall>a. (\<exists>q \<in> set (live s). cov q a) \<longrightarrow> (\<exists>q \<in> set (live s'). cov q a))"
proof -
  obtain i where "i < num_patterns s - 1" "cheapest_pair mode s = int i"
    using cheapest_pair_range [OF n(1)] by blast
  then have k1: "k + 1 < num_patterns s" using k by simp
  let ?c = "pair_combine mode (entry s k) (entry s (k + 1))"
  have len: "length (live s) = num_patterns s" using n by (simp add: length_live)
  have fits: "fit (live s ! j)" "wf (live s ! j)" if "j < num_patterns s" for j
    using that ok len wf_fit nth_mem by metis+
  have ends: "entry s k = live s ! k" "entry s (k + 1) = live s ! (k + 1)"
    using k1 by (simp_all add: live_nth)
  have fit_c: "fit ?c" unfolding ends using fits k1 by (intro wf_fit [OF combine_wf]) simp_all
  have live': "set (live s') = insert (normalise mode ?c) (set (take k (live s) @ drop (k + 2) (live s)))"
    using n k1 by (simp add: s' set_live_insert_sorted combined_pattern_def live_remove_pair)
  have wfs: "\<forall>q \<in> set (live s'). wf q"
    unfolding live' using ok normalise_wf [OF fit_c] by (auto dest: in_set_takeD in_set_dropD)
  have "\<exists>q \<in> set (live s'). cov q a" if q: "q \<in> set (live s)" and cq: "cov q a" for q a
  proof -
    obtain j where "j < length (live s)" "live s ! j = q"
      using q unfolding in_set_conv_nth by blast
    then have j: "j < num_patterns s" "q = live s ! j" by (simp_all add: len)
    consider "j = k \<or> j = k + 1" | "j < k" | "k + 2 \<le> j" by linarith
    then show ?thesis
    proof cases
      case 1
      then have "cov ?c a"
        unfolding ends using cq j k1 fits by (auto intro: combine_left combine_right)
      then show ?thesis by (auto simp: live' normalise_cov)
    next
      case 2
      then have "q \<in> set (take k (live s))" using j len by (auto simp: in_set_conv_nth intro!: exI [of _ j])
      then show ?thesis using cq by (auto simp: live')
    next
      case 3
      then have "q = drop (k + 2) (live s) ! (j - (k + 2))" "j - (k + 2) < length (drop (k + 2) (live s))"
        using j len by (simp_all add: le_add_diff_inverse del: add_2_eq_Suc')
      then have "q \<in> set (drop (k + 2) (live s))" using nth_mem by metis
      then show ?thesis using cq by (auto simp: live')
    qed
  qed
  then show ?thesis using wfs n k1 by (auto simp: s')
qed

lemma insert_keeps_faults:
  assumes ok: "\<forall>q \<in> set (live s). wf q"
    and sz: "length (patterns s) = PATTERNS_SIZE" "num_patterns s \<le> MAX_PATTERNS"
    and ins: "badram_insert mode page offset s = (changed, s')"
  shows "length (patterns s') = PATTERNS_SIZE \<and> num_patterns s' \<le> MAX_PATTERNS \<and>
    (\<forall>q \<in> set (live s'). wf q) \<and>
    (\<forall>a. (\<exists>q \<in> set (live s). cov q a) \<or> a = fault_addr page offset \<longrightarrow> (\<exists>q \<in> set (live s'). cov q a))"
proof -
  let ?p = "fault_pattern mode page offset"
  have szs: "num_patterns s < length (patterns s)" "num_patterns s \<le> length (patterns s)"
    using sz by (simp_all add: PATTERNS_SIZE_def)
  show ?thesis
  proof (cases "badram_scan mode ?p s [0..<num_patterns s]")
    case (Some r)
    then have r: "r = (changed, s')" using ins by (simp add: badram_insert_def Let_def)
    show ?thesis
    proof (cases changed)
      case True
      then obtain i where "i < num_patterns s"
        "s' = s\<lparr>patterns := (patterns s)[i := pair_combine mode (entry s i) ?p]\<rparr>"
        using scan_merged [of ?p s "[0..<num_patterns s]" s'] Some r by auto
      then show ?thesis
        using merge_in_place [OF ok _ szs(2) fault_fit, of i s'] sz fault_cov by auto
    next
      case False
      then obtain i where i: "i < num_patterns s" "pair_cost mode (entry s i) ?p = 0" and s': "s' = s"
        using scan_ignored [of ?p s "[0..<num_patterns s]" s'] Some r by auto
      have e: "entry s i \<in> set (live s)"
        using i(1) szs(2) by (rule entry_in_live)
      then have "cov (entry s i) (fault_addr page offset)"
        using i ok by (blast intro: free_merge wf_fit fault_fit fault_cov)
      then show ?thesis using e ok sz s' by auto
    qed
  next
    case None
    let ?s1 = "insert_sorted mode ?p s"
    have live1: "set (live ?s1) = insert (normalise mode ?p) (set (live s))"
      using szs by (simp add: set_live_insert_sorted)
    have ok1: "\<forall>q \<in> set (live ?s1). wf q"
      using ok normalise_wf [OF fault_fit] by (auto simp: live1)
    have cov1: "(\<exists>q \<in> set (live s). cov q a) \<or> a = fault_addr page offset \<longrightarrow> (\<exists>q \<in> set (live ?s1). cov q a)" for a
      using fault_cov by (auto simp: live1 normalise_cov)
    show ?thesis
    proof (cases "num_patterns ?s1 > MAX_PATTERNS")
      case True
      define k where "k = nat (cheapest_pair mode ?s1)"
      have s': "s' = insert_sorted mode (combined_pattern mode k (k + 1) ?s1) (remove_pair k ?s1)"
        using ins None True by (simp add: badram_insert_def Let_def k_def)
      have "2 \<le> num_patterns ?s1" "num_patterns ?s1 \<le> length (patterns ?s1)"
        using True sz by (auto simp: MAX_PATTERNS_def PATTERNS_SIZE_def)
      from forced_merge [OF ok1 this k_def s'] show ?thesis
        using cov1 sz by auto
    next
      case False
      then have "s' = ?s1" using ins None by (simp add: badram_insert_def Let_def)
      then show ?thesis using False ok1 cov1 sz by auto
    qed
  qed
qed

end

definition pattern_fit :: "error_mode_t \<Rightarrow> pattern_t \<Rightarrow> bool" where
  "pattern_fit mode p \<longleftrightarrow> mode = ERROR_MODE_BADRAM \<or> p_addr p \<le> p_mask p"

lemma combine_mask_bits:
  "bit (COMBINE_MASK a b c d) n \<longleftrightarrow> n < 64 \<and> bit b n \<and> bit d n \<and> bit a n = bit c n"
  by (auto simp: COMBINE_MASK_def bit_simps dest: bit_imp_le_length)

lemma badram_free_merge:
  assumes "addresses (COMBINE_MASK a1 m1 a2 m2) = addresses m1" "(a XOR a2) AND m2 = 0"
  shows "(a XOR a1) AND m1 = 0"
proof -
  have "COMBINE_MASK a1 m1 a2 m2 = m1"
    using assms(1) by (rule addresses_eq_submask) (simp add: combine_mask_bits)
  then have "bit m2 n \<and> bit a1 n = bit a2 n" if "bit m1 n" for n
    using that combine_mask_bits [of a1 m1 a2 m2 n] by simp
  then show ?thesis using assms(2) by (auto simp: masked_eq_iff)
qed

lemma interval_free_merge:
  fixes lo hi a1 m1 :: u64
  assumes "(hi - lo) - (m1 - a1) = 0" "lo \<le> a1" "a1 \<le> m1" "m1 \<le> hi"
  shows "lo = a1 \<and> hi = m1"
proof -
  have "hi - lo = m1 - a1" using assms(1) by simp
  moreover have "lo \<le> hi" using assms by simp
  ultimately have "unat hi - unat lo = unat m1 - unat a1"
    using assms(3) by (metis unat_sub)
  then show ?thesis
    using assms by (auto simp: word_le_nat_alt word_unat_eq_iff)
qed

lemma fault_cover_mode:
  "fault_cover mode (pattern_fit mode) (pattern_ok mode) (pattern_covers mode)"
proof (cases "mode = ERROR_MODE_BADRAM")
  case True
  show ?thesis
  proof
    fix p q a
    assume "pair_cost mode p q = 0" "pattern_covers mode q a"
    then show "pattern_covers mode p a"
      using True badram_free_merge [of "p_addr p" "p_mask p" "p_addr q" "p_mask q" a]
      by (simp add: pattern_covers_def combi_cost_def combine_def Let_def)
  next
    fix p q
    show "pattern_ok mode (pair_combine mode p q)"
      using True by (simp add: pattern_ok_def combine_def Let_def and.assoc)
  qed (use True in \<open>auto simp: pattern_fit_def pattern_covers_def pattern_ok_def normalise_def
        fault_pattern_def combine_def Let_def and.assoc masked_eq_iff combine_mask_bits bit_simps\<close>)
next
  case False
  show ?thesis
  proof
    fix p q a
    assume fit: "pattern_fit mode p" "pattern_fit mode q" and free: "pair_cost mode p q = 0"
      and q: "pattern_covers mode q a"
    let ?c = "pair_combine mode p q"
    have bounds: "p_addr ?c \<le> p_addr p" "p_mask p \<le> p_mask ?c" "p_addr ?c \<le> p_addr q" "p_mask q \<le> p_mask ?c"
      using False by (auto simp: combine_def)
    then have "p_addr ?c = p_addr p \<and> p_mask ?c = p_mask p"
      using fit(1) free False
      by (intro interval_free_merge) (simp_all add: combi_cost_def Let_def pattern_fit_def)
    then show "pattern_covers mode p a"
      using bounds q False by (auto simp: pattern_covers_def)
  qed (use False in \<open>auto simp: pattern_fit_def pattern_covers_def pattern_ok_def normalise_def
        fault_pattern_def combine_def Let_def\<close>)
qed

interpretation faults: fault_cover mode "pattern_fit mode" "pattern_ok mode" "pattern_covers mode" for mode
  by (rule fault_cover_mode)


text \<open>A sequence of reports, as \<open>common_err\<close> makes them.\<close>

definition badram_run :: "error_mode_t \<Rightarrow> (u64 \<times> u64) list \<Rightarrow> badram_state \<Rightarrow> badram_state" where
  "badram_run mode fs s = foldl (\<lambda>s (page, offset). snd (badram_insert mode page offset s)) s fs"

lemma insert_step:
  assumes "badram_inv mode s"
  shows "badram_inv mode (snd (badram_insert mode page offset s)) \<and>
    (\<forall>a. covered mode s a \<or> a = fault_addr page offset \<longrightarrow>
       covered mode (snd (badram_insert mode page offset s)) a)"
proof -
  obtain c s' where "badram_insert mode page offset s = (c, s')" by fastforce
  then show ?thesis
    using faults.insert_keeps_faults [of s mode page offset c s'] assms
    by (simp add: badram_inv_def covered_def)
qed

lemma run_step:
  assumes "badram_inv mode s"
  shows "badram_inv mode (badram_run mode fs s) \<and>
    (\<forall>a. covered mode s a \<or> (\<exists>(page, offset) \<in> set fs. a = fault_addr page offset) \<longrightarrow>
       covered mode (badram_run mode fs s) a)"
  using assms
proof (induction fs arbitrary: s)
  case Nil
  then show ?case by (simp add: badram_run_def)
next
  case (Cons f fs)
  obtain page offset where f: "f = (page, offset)" by fastforce
  let ?s = "snd (badram_insert mode page offset s)"
  have run: "badram_run mode (f # fs) s = badram_run mode fs ?s" by (simp add: badram_run_def f)
  show ?case
    using insert_step [OF Cons.prems, of page offset] Cons.IH [of ?s] unfolding run by (auto simp: f)
qed

lemma init_zeroes:
  assumes "length ps = PATTERNS_SIZE"
  shows "foldl (\<lambda>ps i. ps[i := zero_pattern]) ps [0..<PATTERNS_SIZE] = replicate PATTERNS_SIZE zero_pattern"
proof -
  have "foldl (\<lambda>ps i. ps[i := x]) ps [0..<n] = replicate n x @ drop n ps"
    if "n \<le> length ps" for n and x :: pattern_t and ps
    using that
  proof (induction n)
    case 0
    then show ?case by simp
  next
    case (Suc n)
    then show ?case
      by (simp add: list_update_append replicate_append_same Cons_nth_drop_Suc [symmetric])
  qed
  from this [of PATTERNS_SIZE ps zero_pattern] assms show ?thesis by simp
qed

lemma badram_init_inv: "length (patterns s) = PATTERNS_SIZE \<Longrightarrow> badram_inv mode (badram_init s)"
  by (simp add: badram_inv_def badram_init_def init_zeroes live_def)

lemma clear_bits_card: "clear_bits i m = card {n. n < i \<and> \<not> bit m n}"
proof (induction i arbitrary: m)
  case 0
  then show ?case by simp
next
  case (Suc i)
  have "{n. n < Suc i \<and> \<not> bit m n} =
      (if bit m 0 then {} else {0}) \<union> Suc ` {n. n < i \<and> \<not> bit m (Suc n)}"
    by (auto simp: less_Suc_eq_0_disj)
  moreover have "card ((if bit m 0 then {} else {0}) \<union> Suc ` {n. n < i \<and> \<not> bit m (Suc n)}) =
      (if bit m 0 then 0 else 1) + card {n. n < i \<and> \<not> bit m (Suc n)}"
    by (subst card_Un_disjoint) (auto simp: card_image)
  ultimately show ?case
    by (simp add: and_one_zero_iff Suc.IH bit_drop_bit_eq)
qed

lemma card_masked:
  fixes b m :: u64
  shows "card {a. (a XOR b) AND m = 0} = 2 ^ clear_bits 64 m"
proof -
  let ?S = "{n. n < 64 \<and> \<not> bit m n}"
  let ?f = "\<lambda>a. {n. n < 64 \<and> bit (a XOR b) n}"
  let ?g = "\<lambda>T. b XOR horner_sum of_bool 2 (map (\<lambda>n. n \<in> T) [0..<64])"
  have "bij_betw ?f {a. (a XOR b) AND m = 0} (Pow ?S)"
  proof (rule bij_betw_byWitness [where f' = ?g])
    show "\<forall>a \<in> {a. (a XOR b) AND m = 0}. ?g (?f a) = a"
      by (auto intro!: bit_word_eqI simp: bit_simps bit_horner_sum_bit_word_iff)
    show "\<forall>T \<in> Pow ?S. ?f (?g T) = T"
      by (auto simp: bit_simps bit_horner_sum_bit_word_iff)
    show "?f ` {a. (a XOR b) AND m = 0} \<subseteq> Pow ?S"
      by (auto simp: masked_eq_iff bit_simps)
    show "?g ` Pow ?S \<subseteq> {a. (a XOR b) AND m = 0}"
      by (auto simp: masked_eq_iff bit_simps bit_horner_sum_bit_word_iff)
  qed
  then have "card {a. (a XOR b) AND m = 0} = card (Pow ?S)" by (rule bij_betw_same_card)
  then show ?thesis by (simp add: card_Pow clear_bits_card)
qed

end
