(* ===== verification/Badram_Spec.thy ===== *)
theory Badram_Spec
  imports Badram
begin

text \<open>
  What \<open>app/badram.c\<close> promises: its record as a plain list of entries (\<open>spec_insert\<close>), the refinement of
  the array program to that list, the order of the entries in the interval modes, and the properties of
  the component.
\<close>

section \<open>The record as a list: the specification and its refinement\<close>

definition spec_insert_sorted :: "error_mode_t \<Rightarrow> pattern_t \<Rightarrow> pattern_t list \<Rightarrow> pattern_t list" where
  "spec_insert_sorted mode p xs =
     (let q = normalise mode p; before = (\<lambda>x. \<not> p_addr q < p_addr x)
      in takeWhile before xs @ q # dropWhile before xs)"

fun spec_scan :: "error_mode_t \<Rightarrow> pattern_t \<Rightarrow> pattern_t list \<Rightarrow> (bool \<times> pattern_t list) option" where
  "spec_scan mode p [] = None"
| "spec_scan mode p (x # xs) =
     (if pair_cost mode x p = 0 then Some (False, x # xs)
      else if pair_cost mode x p = SIZEOF_UINTPTR then Some (True, pair_combine mode x p # xs)
      else map_option (apsnd (Cons x)) (spec_scan mode p xs))"

definition spec_cheapest :: "error_mode_t \<Rightarrow> pattern_t list \<Rightarrow> nat" where
  "spec_cheapest mode xs = nat (snd (cheapest_loop mode xs [0..<length xs - 1] (UINT64_MAX, -1)))"

definition spec_insert :: "error_mode_t \<Rightarrow> u64 \<Rightarrow> u64 \<Rightarrow> pattern_t list \<Rightarrow> bool \<times> pattern_t list" where
  "spec_insert mode page offset xs =
     (let p = fault_pattern mode page offset
      in case spec_scan mode p xs of
           Some r \<Rightarrow> r
         | None \<Rightarrow>
             (let ys = spec_insert_sorted mode p xs
              in if length ys > MAX_PATTERNS
                 then let k = spec_cheapest mode ys
                      in (True, spec_insert_sorted mode (pair_combine mode (ys ! k) (ys ! (k + 1)))
                                  (take k ys @ drop (k + 2) ys))
                 else (True, ys)))"

lemma insert_index_hit:
  assumes "insert_index a s < num_patterns s"
  shows "a < p_addr (entry s (insert_index a s))"
proof (cases "find (\<lambda>i. a < p_addr (entry s i)) [0..<num_patterns s]")
  case None
  then show ?thesis using assms unfolding insert_index_def by simp
next
  case (Some i)
  then have "insert_index a s = i" by (simp add: insert_index_def)
  moreover have "a < p_addr (entry s i)" using Some by (auto simp: find_Some_iff)
  ultimately show ?thesis by simp
qed

lemma insert_index_takeWhile:
  assumes "num_patterns s \<le> length (patterns s)"
  shows "takeWhile (\<lambda>x. \<not> a < p_addr x) (live s) = take (insert_index a s) (live s)"
proof (rule takeWhile_eq_take_P_nth)
  fix i
  assume i: "i < insert_index a s" "i < length (live s)"
  then show "\<not> a < p_addr (live s ! i)"
    using assms
    by (auto simp: insert_index_def find_None_iff find_Some_iff live_nth length_live split: option.splits)
next
  assume i: "insert_index a s < length (live s)"
  then have "insert_index a s < num_patterns s" using assms by (simp add: length_live)
  then show "\<not> \<not> a < p_addr (live s ! insert_index a s)"
    using insert_index_hit [of a s] by (simp add: live_nth)
qed

lemma insert_sorted_refines:
  assumes "num_patterns s < length (patterns s)"
  shows "live (insert_sorted mode p s) = spec_insert_sorted mode p (live s)"
proof -
  let ?a = "p_addr (normalise mode p)"
  have tw: "takeWhile (\<lambda>x. \<not> ?a < p_addr x) (live s) = take (insert_index ?a s) (live s)"
    using assms by (intro insert_index_takeWhile) simp
  moreover have "dropWhile (\<lambda>x. \<not> ?a < p_addr x) (live s) = drop (insert_index ?a s) (live s)"
    using tw assms insert_index_le [of ?a s]
    by (simp add: dropWhile_eq_drop length_live)
  ultimately show ?thesis
    using assms by (simp add: live_insert_sorted spec_insert_sorted_def Let_def)
qed

lemma scan_refines:
  assumes "k \<le> num_patterns s" "num_patterns s \<le> length (patterns s)"
  shows "map_option (apsnd live) (badram_scan mode p s [k..<num_patterns s]) =
    map_option (apsnd (append (take k (live s)))) (spec_scan mode p (drop k (live s)))"
  using assms
proof (induction "num_patterns s - k" arbitrary: k)
  case 0
  then show ?case by (simp add: length_live)
next
  case (Suc n)
  then have k: "k < num_patterns s" by simp
  have dr: "drop k (live s) = entry s k # drop (Suc k) (live s)"
    using k Suc.prems(2) by (simp add: Cons_nth_drop_Suc [symmetric] length_live live_nth)
  have tk: "take (Suc k) (live s) = take k (live s) @ [entry s k]"
    using k Suc.prems(2) by (simp add: take_Suc_conv_app_nth length_live live_nth)
  have upd: "(live s)[k := x] = take k (live s) @ x # drop (Suc k) (live s)" for x
    using k Suc.prems(2) by (simp add: upd_conv_take_nth_drop length_live)
  have "live s = take k (live s) @ entry s k # drop (Suc k) (live s)"
    by (metis append_take_drop_id dr)
  moreover have "map_option (apsnd live) (badram_scan mode p s [Suc k..<num_patterns s]) =
      map_option (apsnd (append (take (Suc k) (live s)))) (spec_scan mode p (drop (Suc k) (live s)))"
    using Suc k by (intro Suc.hyps(1)) simp_all
  ultimately show ?case
    unfolding upt_conv_Cons [OF k] dr
    by (auto simp: Let_def live_update upd tk option.map_comp comp_def apsnd_def map_prod_def
        intro!: option.map_cong)
qed

lemma cheapest_loop_live:
  assumes "\<forall>i \<in> set is. i + 1 < num_patterns s"
  shows "cheapest_loop mode (patterns s) is acc = cheapest_loop mode (live s) is acc"
  using assms
  by (induction mode "patterns s" "is" acc rule: cheapest_loop.induct) (auto simp: Let_def live_nth)

lemma cheapest_refines:
  assumes "num_patterns s \<le> length (patterns s)"
  shows "nat (cheapest_pair mode s) = spec_cheapest mode (live s)"
proof -
  have "cheapest_loop mode (patterns s) [0..<num_patterns s - 1] (UINT64_MAX, -1) =
      cheapest_loop mode (live s) [0..<num_patterns s - 1] (UINT64_MAX, -1)"
    by (rule cheapest_loop_live) auto
  then show ?thesis
    using assms by (simp add: cheapest_pair_def spec_cheapest_def length_live)
qed

lemma insert_refines_list:
  assumes "badram_inv mode s"
  shows "apsnd live (badram_insert mode page offset s) = spec_insert mode page offset (live s)"
proof -
  let ?p = "fault_pattern mode page offset"
  let ?s1 = "insert_sorted mode ?p s"
  have sz: "num_patterns s < length (patterns s)" "num_patterns s \<le> length (patterns s)"
    using assms by (simp_all add: badram_inv_def PATTERNS_SIZE_def)
  have scan: "map_option (apsnd live) (badram_scan mode ?p s [0..<num_patterns s]) =
      spec_scan mode ?p (live s)"
  proof -
    have "apsnd ((@) []) = (id :: bool \<times> pattern_t list \<Rightarrow> _)" by (auto simp: fun_eq_iff)
    then show ?thesis using scan_refines [of 0 s mode ?p] sz by (simp add: option.map_id)
  qed
  have s1: "live ?s1 = spec_insert_sorted mode ?p (live s)"
    using sz by (simp add: insert_sorted_refines)
  have len1: "length (live ?s1) = num_patterns ?s1" using sz by (simp add: length_live)
  have merge: "live (insert_sorted mode (combined_pattern mode k (k + 1) ?s1) (remove_pair k ?s1)) =
      spec_insert_sorted mode (pair_combine mode (live ?s1 ! k) (live ?s1 ! (k + 1)))
        (take k (live ?s1) @ drop (k + 2) (live ?s1))"
    if "k = nat (cheapest_pair mode ?s1)" "num_patterns ?s1 > MAX_PATTERNS" for k
  proof -
    have "2 \<le> num_patterns ?s1" using that(2) by (simp add: MAX_PATTERNS_def)
    then obtain i where "i < num_patterns ?s1 - 1" "cheapest_pair mode ?s1 = int i"
      using cheapest_pair_range by blast
    then have k1: "k + 1 < num_patterns ?s1" using that(1) by simp
    then have "entry ?s1 k = live ?s1 ! k" "entry ?s1 (k + 1) = live ?s1 ! (k + 1)"
      by (simp_all only: live_nth)
    moreover have "live (insert_sorted mode c (remove_pair k ?s1)) =
        spec_insert_sorted mode c (take k (live ?s1) @ drop (k + 2) (live ?s1))" for c
      using sz k1 by (simp only: insert_sorted_refines live_remove_pair) (simp add: insert_sorted_refines live_remove_pair)
    ultimately show ?thesis by (simp only: combined_pattern_def)
  qed
  have k: "nat (cheapest_pair mode ?s1) = spec_cheapest mode (live ?s1)"
    using sz by (intro cheapest_refines) simp
  show ?thesis
  proof (cases "badram_scan mode ?p s [0..<num_patterns s]")
    case (Some r)
    then have "spec_scan mode ?p (live s) = Some (apsnd live r)" using scan by simp
    then show ?thesis using Some by (simp add: badram_insert_def spec_insert_def Let_def)
  next
    case None
    then have none: "spec_scan mode ?p (live s) = None" using scan by simp
    have "apsnd live (badram_insert mode page offset s) =
        (if length (live ?s1) > MAX_PATTERNS
         then (True, live (insert_sorted mode
             (combined_pattern mode (nat (cheapest_pair mode ?s1)) (nat (cheapest_pair mode ?s1) + 1) ?s1)
             (remove_pair (nat (cheapest_pair mode ?s1)) ?s1)))
         else (True, live ?s1))"
      using None by (simp add: badram_insert_def Let_def len1)
    also have "\<dots> = spec_insert mode page offset (live s)"
      unfolding spec_insert_def Let_def none s1 [symmetric] option.case k [symmetric]
      using merge [OF refl] len1 by (simp only: split: if_split) auto
    finally show ?thesis .
  qed
qed

section \<open>Order of the entries in the interval modes\<close>

definition lowers :: "pattern_t list \<Rightarrow> u64 list" where
  "lowers xs = map p_addr xs"

definition aligned_interval :: "pattern_t \<Rightarrow> bool" where
  "aligned_interval p \<longleftrightarrow> p_addr p \<le> p_mask p \<and> unat (p_addr p) mod 8 = 0"

lemma interval_cost_below:
  assumes "mode \<noteq> ERROR_MODE_BADRAM" "p_addr x \<le> p_mask x" "p_addr p = p_mask p" "p_addr p < p_addr x"
  shows "pair_cost mode x p = p_addr x - p_addr p"
proof -
  have "p_addr p < p_mask x" using assms(2,4) by (rule order.strict_trans2 [rotated])
  moreover have "\<not> p_addr x < p_addr p" using assms(4) by simp
  ultimately show ?thesis using assms by (simp add: combi_cost_def combine_def Let_def)
qed

lemma interval_addr:
  assumes "mode \<noteq> ERROR_MODE_BADRAM"
  shows "p_addr (pair_combine mode x p) = min (p_addr x) (p_addr p)"
    "p_mask (pair_combine mode x p) = max (p_mask x) (p_mask p)"
  using assms by (auto simp: combine_def min_def max_def)

lemma aligned_combine:
  assumes "mode \<noteq> ERROR_MODE_BADRAM" "aligned_interval x" "aligned_interval p"
  shows "aligned_interval (pair_combine mode x p)"
  using assms(2,3) by (auto simp: aligned_interval_def interval_addr [OF assms(1)] min_def max_def)

lemma aligned_gap:
  fixes a x y :: u64
  assumes "unat a mod 8 = 0" "unat x mod 8 = 0" "a < x" "x \<le> y" "y - a = 8"
  shows "x - a = 8"
proof -
  have "a < y" using assms(3,4) by simp
  then have "unat y - unat a = 8" using assms(5) unat_sub [of a y] by simp
  then have "unat x - unat a = 8"
    using assms(1-4) by (simp add: word_less_nat_alt word_le_nat_alt) presburger
  then have "unat (x - a) = unat (8::u64)" using assms(3) by (simp add: unat_sub order.strict_implies_order)
  then show ?thesis by (simp only: word_unat_eq_iff)
qed

lemma spec_scan_lowers:
  assumes "mode \<noteq> ERROR_MODE_BADRAM" "p_addr p = p_mask p" "unat (p_addr p) mod 8 = 0"
    and "sorted (lowers xs)" "\<forall>x \<in> set xs. aligned_interval x"
    and "spec_scan mode p xs = Some (b, ys)"
  shows "sorted (lowers ys) \<and> (\<forall>y \<in> set ys. aligned_interval y) \<and>
    (\<forall>y \<in> set ys. y \<in> set xs \<or> (\<exists>x \<in> set xs. pair_cost mode x p = 8 \<and> y = pair_combine mode x p))"
  using assms(4-6)
proof (induction xs arbitrary: ys)
  case Nil
  then show ?case by simp
next
  case (Cons x xs)
  note mode = assms(1)
  have x: "aligned_interval x" using Cons.prems by simp
  have tail: "sorted (lowers xs)" "\<forall>z \<in> set xs. aligned_interval z" "\<forall>z \<in> set xs. p_addr x \<le> p_addr z"
    using Cons.prems by (auto simp: lowers_def)
  consider "pair_cost mode x p = 0" | "pair_cost mode x p = 8"
    | "pair_cost mode x p \<noteq> 0" "pair_cost mode x p \<noteq> 8" by blast
  then show ?case
  proof cases
    case 1
    then have "ys = x # xs" using Cons.prems by simp
    then show ?thesis using Cons.prems by simp
  next
    case 2
    then have ys: "ys = pair_combine mode x p # xs" using Cons.prems by (simp add: SIZEOF_UINTPTR_def)
    have "aligned_interval (pair_combine mode x p)"
      using x assms(2,3) by (intro aligned_combine mode) (simp_all add: aligned_interval_def)
    then show ?thesis
      using tail 2 by (auto simp: ys lowers_def interval_addr [OF mode] min.coboundedI1)
  next
    case 3
    then obtain zs where zs: "spec_scan mode p xs = Some (b, zs)" "ys = x # zs"
      using Cons.prems by (auto simp: SIZEOF_UINTPTR_def)
    note IH = Cons.IH [OF tail(1,2) zs(1)]
    have "p_addr x \<le> p_addr y" if y: "y \<in> set zs" for y
    proof -
      from IH y consider "y \<in> set xs"
        | z where "z \<in> set xs" "pair_cost mode z p = 8" "y = pair_combine mode z p" by blast
      then show ?thesis
      proof cases
        case 1
        then show ?thesis using tail by blast
      next
        case (2 z)
        have xz: "p_addr x \<le> p_addr z" using 2 tail by blast
        have "p_addr x \<le> p_addr p"
        proof (rule ccontr)
          assume "\<not> p_addr x \<le> p_addr p"
          then have lt: "p_addr p < p_addr x" "p_addr p < p_addr z" using xz by auto
          have "p_addr z - p_addr p = 8"
            using 2 tail(2) lt interval_cost_below [OF mode _ assms(2), of z]
            by (auto simp: aligned_interval_def)
          then have "p_addr x - p_addr p = 8"
            using x by (intro aligned_gap [OF assms(3) _ lt(1) xz]) (simp_all add: aligned_interval_def)
          then show False
            using 3 lt x interval_cost_below [OF mode _ assms(2), of x] by (auto simp: aligned_interval_def)
        qed
        then show ?thesis using xz 2 by (simp add: interval_addr [OF mode])
      qed
    qed
    then show ?thesis using IH x zs(2) by (auto simp: lowers_def)
  qed
qed

lemma spec_insert_sorted_lowers:
  assumes "sorted (lowers xs)"
  shows "sorted (lowers (spec_insert_sorted mode p xs))"
proof -
  let ?q = "normalise mode p"
  let ?b = "\<lambda>x. \<not> p_addr ?q < p_addr x"
  have "\<forall>x \<in> set (dropWhile ?b xs). p_addr ?q \<le> p_addr x"
    using assms
  proof (induction xs)
    case (Cons x xs)
    then show ?case by (auto simp: lowers_def)
  qed simp
  moreover have "sorted (lowers (takeWhile ?b xs @ dropWhile ?b xs))"
    using assms by simp
  ultimately show ?thesis
    by (auto simp: spec_insert_sorted_def Let_def lowers_def sorted_append simp del: takeWhile_dropWhile_id
        dest: set_takeWhileD intro: order.trans)
qed

lemma spec_insert_sorted_set:
  "set (spec_insert_sorted mode p xs) = insert (normalise mode p) (set xs)"
  unfolding spec_insert_sorted_def Let_def
  by (metis Un_insert_right list.simps(15) set_append takeWhile_dropWhile_id)

lemma length_spec_insert_sorted: "length (spec_insert_sorted mode p xs) = Suc (length xs)"
  unfolding spec_insert_sorted_def Let_def
  by (metis add_Suc_right length_Cons length_append takeWhile_dropWhile_id)

lemma spec_insert_lowers:
  assumes mode: "mode \<noteq> ERROR_MODE_BADRAM" and a: "unat (fault_addr page offset) mod 8 = 0"
    and xs: "sorted (lowers xs)" "\<forall>x \<in> set xs. aligned_interval x"
  shows "sorted (lowers (snd (spec_insert mode page offset xs))) \<and>
    (\<forall>y \<in> set (snd (spec_insert mode page offset xs)). aligned_interval y)"
proof -
  let ?p = "fault_pattern mode page offset"
  have p: "p_addr ?p = p_mask ?p" "unat (p_addr ?p) mod 8 = 0" "aligned_interval ?p"
    using mode a by (simp_all add: fault_pattern_def Let_def aligned_interval_def)
  have norm: "normalise mode q = q" for q using mode by (simp add: normalise_def)
  show ?thesis
  proof (cases "spec_scan mode ?p xs")
    case (Some r)
    then show ?thesis
      using spec_scan_lowers [OF mode p(1,2) xs, of "fst r" "snd r"] by (simp add: spec_insert_def Let_def)
  next
    case None
    define ys where "ys = spec_insert_sorted mode ?p xs"
    have ys: "sorted (lowers ys)" "\<forall>y \<in> set ys. aligned_interval y"
      using xs p by (auto simp: ys_def spec_insert_sorted_lowers spec_insert_sorted_set norm)
    show ?thesis
    proof (cases "length ys > MAX_PATTERNS")
      case True
      define k where "k = spec_cheapest mode ys"
      let ?s = "\<lparr>patterns = ys, num_patterns = length ys\<rparr>"
      have "2 \<le> num_patterns ?s" using True by (simp add: MAX_PATTERNS_def)
      from cheapest_pair_range [OF this, of mode]
      obtain i where "i < length ys - 1" "cheapest_pair mode ?s = int i" by auto
      then have k: "k + 1 < length ys"
        by (simp add: k_def spec_cheapest_def cheapest_pair_def)
      let ?zs = "take k ys @ drop (k + 2) ys"
      have "sorted (lowers ?zs)"
        using sorted_take_drop [OF ys(1), of k 2] by (simp add: lowers_def take_map drop_map)
      moreover have "\<forall>z \<in> set ?zs. aligned_interval z"
        using ys(2) by (auto dest: in_set_takeD in_set_dropD)
      moreover have "aligned_interval (pair_combine mode (ys ! k) (ys ! (k + 1)))"
        using ys(2) k by (intro aligned_combine mode) simp_all
      moreover have "snd (spec_insert mode page offset xs) =
          spec_insert_sorted mode (pair_combine mode (ys ! k) (ys ! (k + 1))) ?zs"
        using None True by (simp add: spec_insert_def Let_def ys_def k_def)
      ultimately show ?thesis
        using norm by (simp add: spec_insert_sorted_lowers spec_insert_sorted_set)
    next
      case False
      then show ?thesis using None ys by (simp add: spec_insert_def Let_def ys_def [symmetric])
    qed
  qed
qed

section \<open>Properties\<close>

definition badram_start :: badram_state where
  "badram_start = \<lparr>patterns = replicate PATTERNS_SIZE zero_pattern, num_patterns = 0\<rparr>"

primrec spec_run :: "error_mode_t \<Rightarrow> (u64 \<times> u64) list \<Rightarrow> pattern_t list \<Rightarrow> pattern_t list" where
  "spec_run mode [] xs = xs"
| "spec_run mode (f # fs) xs = spec_run mode fs (snd (spec_insert mode (fst f) (snd f) xs))"

lemma badram_start_inv: "badram_inv mode badram_start"
  by (simp add: badram_inv_def badram_start_def live_def)

lemma live_init [simp]: "live (badram_init s) = []" "live badram_start = []"
  by (simp_all add: live_def badram_init_def badram_start_def)

lemma badram_run_refines:
  assumes "badram_inv mode s"
  shows "live (badram_run mode fs s) = spec_run mode fs (live s)"
  using assms
proof (induction fs arbitrary: s)
  case Nil
  then show ?case by (simp add: badram_run_def)
next
  case (Cons f fs)
  obtain page offset where f: "f = (page, offset)" by fastforce
  let ?s = "snd (badram_insert mode page offset s)"
  have "live ?s = snd (spec_insert mode page offset (live s))"
    using insert_refines_list [OF Cons.prems, of page offset] by (metis snd_apsnd)
  then show ?case
    using Cons.IH [of ?s] insert_step [OF Cons.prems, of page offset]
    by (simp add: f badram_run_def)
qed

lemma spec_run_lowers:
  assumes "mode \<noteq> ERROR_MODE_BADRAM" "\<forall>(page, offset) \<in> set fs. unat (fault_addr page offset) mod 8 = 0"
    and "sorted (lowers xs)" "\<forall>x \<in> set xs. aligned_interval x"
  shows "sorted (lowers (spec_run mode fs xs)) \<and> (\<forall>x \<in> set (spec_run mode fs xs). aligned_interval x)"
  using assms(2-)
proof (induction fs arbitrary: xs)
  case Nil
  then show ?case by simp
next
  case (Cons f fs)
  obtain page offset where f: "f = (page, offset)" by fastforce
  then have "unat (fault_addr page offset) mod 8 = 0" using Cons.prems(1) by simp
  note step = spec_insert_lowers [OF assms(1) this Cons.prems(2,3)]
  show ?case using Cons.IH [OF _ step [THEN conjunct1] step [THEN conjunct2]] Cons.prems(1) by (simp add: f)
qed

text \<open>
  C1: Whatever sequence of faults is reported after \<open>badram_init\<close>, in any reporting mode, the record stays
  within its array and well formed, and the entries that \<open>badram_display\<close> prints cover every reported
  address: neither the in-place merge nor the forced merge of a full record loses a fault.
\<close>
theorem badram_run_covers:
  assumes "length (patterns s) = PATTERNS_SIZE"
  shows "badram_inv mode (badram_run mode fs (badram_init s)) \<and>
    (\<forall>(page, offset) \<in> set fs. covered mode (badram_run mode fs (badram_init s)) (fault_addr page offset))"
  using run_step [OF badram_init_inv [OF assms], of mode fs] by auto

theorem badram_run_covers_witness:
  "covered ERROR_MODE_BADRAM
     (badram_run ERROR_MODE_BADRAM [(0x12, 0x40), (0x12, 0x48)] (badram_init badram_start)) 0x12048"
  using badram_run_covers [of badram_start ERROR_MODE_BADRAM "[(0x12, 0x40), (0x12, 0x48)]"]
  by (simp add: badram_start_def fault_addr_def)

text \<open>
  When \<open>badram_insert\<close> answers false it has left the record alone and the address was already covered, so
  a report that is not displayed carries no news.
\<close>
theorem badram_insert_ignored:
  assumes "badram_inv mode s" "badram_insert mode page offset s = (False, s')"
  shows "s' = s \<and> covered mode s (fault_addr page offset)"
proof -
  have "s' = s"
    using assms(2) faults.scan_ignored [of mode "fault_pattern mode page offset" s "[0..<num_patterns s]" s']
    by (auto simp: badram_insert_def Let_def split: option.splits if_splits)
  then show ?thesis
    using insert_step [OF assms(1), of page offset] assms(2) by simp
qed

theorem badram_insert_ignored_witness:
  "\<exists>s'. badram_insert ERROR_MODE_MEMMAP 1 8 (badram_run ERROR_MODE_MEMMAP [(1, 8)] badram_start) = (False, s') \<and>
     s' = badram_run ERROR_MODE_MEMMAP [(1, 8)] badram_start"
proof -
  let ?s = "badram_run ERROR_MODE_MEMMAP [(1, 8)] badram_start"
  have "badram_insert ERROR_MODE_MEMMAP 1 8 ?s = (False, ?s)"
    by (simp add: badram_run_def badram_insert_def badram_start_def fault_pattern_def fault_addr_def Let_def
        insert_sorted_def normalise_def insert_at_def insert_index_def combi_cost_def combine_def shift_up_def
        MAX_PATTERNS_def PATTERNS_SIZE_def upt_rec numeral_eq_Suc)
  moreover have "badram_inv ERROR_MODE_MEMMAP ?s"
    using run_step [OF badram_start_inv] by blast
  ultimately show ?thesis using badram_insert_ignored by blast
qed

text \<open>
  C21: The array program of \<open>badram_insert\<close> (scan with early return, sorted insertion by shifting, removal of
  the cheapest pair by shifting back) implements the list operation \<open>spec_insert\<close> on the entries in use.
\<close>
theorem badram_insert_refines:
  assumes "badram_inv mode s"
  shows "apsnd live (badram_insert mode page offset s) = spec_insert mode page offset (live s)"
  using assms by (rule insert_refines_list)

theorem badram_insert_refines_witness:
  "live (snd (badram_insert ERROR_MODE_PAGES 2 0x10 badram_start)) = [\<lparr>p_addr = 0x2010, p_mask = 0x2010\<rparr>]"
proof -
  have "apsnd live (badram_insert ERROR_MODE_PAGES 2 0x10 badram_start) = spec_insert ERROR_MODE_PAGES 2 0x10 []"
    using badram_insert_refines [OF badram_start_inv] by simp
  also have "\<dots> = (True, [\<lparr>p_addr = 0x2010, p_mask = 0x2010\<rparr>])"
    by (simp add: spec_insert_def spec_insert_sorted_def fault_pattern_def fault_addr_def normalise_def MAX_PATTERNS_def Let_def)
  finally show ?thesis by (metis snd_apsnd snd_conv)
qed

text \<open>
  In the memmap and pages modes the entries stay in ascending order of their lower address, for word
  aligned faults: the assumption that \<open>cheapest_pair\<close> and \<open>insert_sorted\<close> state in their comments holds there.
\<close>
theorem badram_interval_sorted:
  assumes "mode \<noteq> ERROR_MODE_BADRAM"
    and "\<forall>(page, offset) \<in> set fs. unat (fault_addr page offset) mod 8 = 0"
  shows "sorted (map p_addr (live (badram_run mode fs badram_start)))"
  using spec_run_lowers [OF assms, of "[]"] badram_run_refines [OF badram_start_inv, of mode fs]
  by (simp add: lowers_def)

theorem badram_interval_sorted_witness:
  "sorted (map p_addr (live (badram_run ERROR_MODE_MEMMAP [(0, 0x18), (0, 0x20), (0, 0)] badram_start)))"
  by (rule badram_interval_sorted) (simp_all add: fault_addr_def)

text \<open>
  In BadRAM mode it does not hold: the merge in place can lower an address below its left neighbour's.
\<close>
lemma badram_mode_unsorted:
  "map p_addr (live (badram_run ERROR_MODE_BADRAM [(0, 0x18), (0, 0x20), (0, 0)] badram_start)) = [0x18, 0]"
proof -
  have "map p_addr (spec_run ERROR_MODE_BADRAM [(0, 0x18), (0, 0x20), (0, 0)] []) = [0x18, 0]" by code_simp
  then show ?thesis using badram_run_refines [OF badram_start_inv, of ERROR_MODE_BADRAM] by simp
qed

text \<open>
  The doubling loop of \<open>addresses\<close> returns the number of addresses that agree with any given one under
  the mask, modulo \<open>2 ^ 64\<close>: the mask 0 matches all \<open>2 ^ 64\<close> addresses and its count wraps to 0.
\<close>
theorem addresses_counts:
  "unat (addresses m) = card {a. (a XOR b) AND m = 0} mod 2 ^ 64"
  by (simp only: card_masked addresses_eq unat_power2_u64)

text \<open>
  With two entries or more \<open>cheapest_pair\<close> returns the index of a neighbouring pair, never -1, and no
  neighbouring pair is cheaper to merge.
\<close>
theorem cheapest_pair_minimal:
  assumes "2 \<le> num_patterns s"
  shows "\<exists>i < num_patterns s - 1. cheapest_pair mode s = int i \<and>
    (\<forall>k < num_patterns s - 1. pair_cost mode (entry s i) (entry s (i + 1)) \<le> pair_cost mode (entry s k) (entry s (k + 1)))"
  using assms by (rule cheapest_pair_range)

theorem cheapest_pair_minimal_witness:
  "\<exists>i < 1. cheapest_pair ERROR_MODE_PAGES
     \<lparr>patterns = [\<lparr>p_addr = 0, p_mask = 0\<rparr>, \<lparr>p_addr = 8, p_mask = 8\<rparr>], num_patterns = 2\<rparr> = int i"
  using cheapest_pair_minimal
    [of "\<lparr>patterns = [\<lparr>p_addr = 0, p_mask = 0\<rparr>, \<lparr>p_addr = 8, p_mask = 8\<rparr>], num_patterns = 2\<rparr>" ERROR_MODE_PAGES]
  by simp

end
