(* ===== verification/Pmem.thy ===== *)
theory Pmem
  imports Settings "HOL-Library.Multiset"
begin

text \<open>
  \<open>system/pmem.c\<close>: the map of usable physical memory, made from the BIOS e820 map. \<open>sanitize_e820_map\<close>
  removes the overlaps by a sweep over the sorted start and end points, \<open>init_pm_map\<close> keeps the usable
  entries as page ranges, \<open>sort_pm_map\<close> sorts them. The C arrays are lists of their full length; the
  change points are sorted by value where C sorts an array of pointers to them, and a pointer to an entry of
  the original map is its index.
\<close>

section \<open>Data\<close>

definition E820_NONE :: u32 where "E820_NONE = 0"
definition E820_RAM :: u32 where "E820_RAM = 1"
definition E820_RESERVED :: u32 where "E820_RESERVED = 2"
definition E820_ACPI :: u32 where "E820_ACPI = 3"
definition E820_NVS :: u32 where "E820_NVS = 4"

record e820_entry_t =
  ent_addr :: u64
  ent_size :: u64
  ent_type :: u32

record pm_map_t =
  pm_start :: u64
  pm_end :: u64

record change_member =
  cp_entry :: nat
  cp_start :: bool
  cp_addr :: u64

definition RESERVED_MEM_START :: u64 where "RESERVED_MEM_START = 0x0a0000"
definition RESERVED_MEM_END :: u64 where "RESERVED_MEM_END = 0x100000"

text \<open>The first byte above an entry, as \<open>addr + size\<close> of the code (it may wrap).\<close>

definition ent_end :: "e820_entry_t \<Rightarrow> u64" where
  "ent_end e = ent_addr e + ent_size e"

section \<open>Removing the overlaps\<close>

definition unreasonable :: "e820_entry_t list \<Rightarrow> bool" where
  "unreasonable orig \<longleftrightarrow> list_ex (\<lambda>e. ent_end e < ent_addr e) orig"

definition change_points :: "e820_entry_t list \<Rightarrow> change_member list" where
  "change_points orig =
     concat (map (\<lambda>i. [\<lparr>cp_entry = i, cp_start = True, cp_addr = ent_addr (orig ! i)\<rparr>,
                       \<lparr>cp_entry = i, cp_start = False, cp_addr = ent_end (orig ! i)\<rparr>])
       [0..<length orig])"

text \<open>The swap condition: \<open>cur\<close> has to come before \<open>prev\<close>.\<close>

definition goes_before :: "change_member \<Rightarrow> change_member \<Rightarrow> bool" where
  "goes_before cur prev \<longleftrightarrow>
     cp_addr cur < cp_addr prev \<or> cp_addr cur = cp_addr prev \<and> cp_start cur \<and> \<not> cp_start prev"

text \<open>
  One pass of the \<open>for\<close> loop, over neighbours \<open>i - 1\<close> and \<open>i\<close> for \<open>i\<close> upwards from 1: after the comparison
  the element at \<open>i\<close> is the next \<open>i - 1\<close>. The flag is \<open>still_changing\<close>.
\<close>

fun sort_pass :: "change_member list \<Rightarrow> change_member list \<times> bool" where
  "sort_pass (x # y # zs) =
     (if goes_before y x
      then (y # fst (sort_pass (x # zs)), True)
      else (x # fst (sort_pass (y # zs)), snd (sort_pass (y # zs))))"
| "sort_pass xs = (xs, False)"

primrec inversions :: "change_member list \<Rightarrow> nat" where
  "inversions [] = 0"
| "inversions (x # xs) = length (filter (\<lambda>y. goes_before y x) xs) + inversions xs"

definition cp_key :: "change_member \<Rightarrow> nat" where
  "cp_key c = 2 * unat (cp_addr c) + (if cp_start c then 0 else 1)"

lemma goes_before_key: "goes_before y x \<longleftrightarrow> cp_key y < cp_key x"
  by (auto simp: goes_before_def cp_key_def word_less_nat_alt word_unat_eq_iff)

lemma sort_pass_length [simp]: "length (fst (sort_pass xs)) = length xs"
  by (induction xs rule: sort_pass.induct) auto

lemma sort_pass_filter: "length (filter P (fst (sort_pass xs))) = length (filter P xs)"
  by (induction xs rule: sort_pass.induct) (auto simp: Let_def)

lemma sort_pass_inversions:
  "inversions (fst (sort_pass xs)) \<le> inversions xs \<and>
   (snd (sort_pass xs) \<longrightarrow> inversions (fst (sort_pass xs)) < inversions xs)"
proof (induction xs rule: sort_pass.induct)
  case (1 x y zs)
  then show ?case
    by (auto simp: sort_pass_filter goes_before_key)
qed auto

function sort_change_points :: "change_member list \<Rightarrow> change_member list" where
  "sort_change_points xs =
     (if snd (sort_pass xs) then sort_change_points (fst (sort_pass xs)) else fst (sort_pass xs))"
  by pat_completeness auto
termination
  by (relation "measure inversions") (use sort_pass_inversions in auto)

declare sort_change_points.simps [simp del]

record sweep_state =
  new_map :: "e820_entry_t list"
  new_map_entries :: nat
  overlap_list :: "nat list"
  last_addr :: u64
  last_type :: u32

text \<open>
  \<open>overlap_list\<close> holds the entries in use of the C array: an entry is removed by overwriting it with the
  last one and dropping the last.
\<close>

definition track_overlap :: "change_member \<Rightarrow> nat list \<Rightarrow> nat list" where
  "track_overlap c os =
     (if cp_start c then os @ [cp_entry c]
      else butlast (map (\<lambda>i. if i = cp_entry c then last os else i) os))"

definition overlap_type :: "e820_entry_t list \<Rightarrow> nat list \<Rightarrow> u32" where
  "overlap_type orig os =
     foldl (\<lambda>t i. if ent_type (orig ! i) > t then ent_type (orig ! i) else t) E820_NONE os"

definition close_entry :: "u64 \<Rightarrow> sweep_state \<Rightarrow> sweep_state" where
  "close_entry addr st =
     (if last_type st \<noteq> E820_NONE
      then let n = new_map_entries st; sz = addr - last_addr st
           in st\<lparr>new_map := (new_map st)[n := (new_map st ! n)\<lparr>ent_size := sz\<rparr>],
                 new_map_entries := (if sz \<noteq> 0 then n + 1 else n)\<rparr>
      else st)"

definition open_entry :: "u64 \<Rightarrow> u32 \<Rightarrow> sweep_state \<Rightarrow> sweep_state" where
  "open_entry addr current_type st =
     (let n = new_map_entries st
      in (if current_type \<noteq> E820_NONE
          then st\<lparr>new_map := (new_map st)[n := (new_map st ! n)\<lparr>ent_addr := addr, ent_type := current_type\<rparr>],
                  last_addr := addr, last_type := current_type\<rparr>
          else st\<lparr>last_type := current_type\<rparr>))"

fun sweep_loop :: "e820_entry_t list \<Rightarrow> change_member list \<Rightarrow> sweep_state \<Rightarrow> sweep_state" where
  "sweep_loop orig [] st = st"
| "sweep_loop orig (c # cs) st =
     (let st1 = st\<lparr>overlap_list := track_overlap c (overlap_list st)\<rparr>;
          current_type = overlap_type orig (overlap_list st1)
      in if current_type \<noteq> last_type st1
         then let st2 = close_entry (cp_addr c) st1
              in if new_map_entries st2 \<ge> E820_MAP_SIZE then st2
                 else sweep_loop orig cs (open_entry (cp_addr c) current_type st2)
         else sweep_loop orig cs st1)"

definition sweep_start :: "e820_entry_t list \<Rightarrow> sweep_state" where
  "sweep_start arr =
     \<lparr>new_map = arr, new_map_entries = 0, overlap_list = [], last_addr = 0, last_type = E820_NONE\<rparr>"

text \<open>\<open>arr\<close> is the uninitialised array \<open>new_map\<close> that the caller passes in; the result is the array and the count.\<close>

definition sanitize_e820_map :: "e820_entry_t list \<Rightarrow> e820_entry_t list \<Rightarrow> e820_entry_t list \<times> nat" where
  "sanitize_e820_map arr orig =
     (if unreasonable orig then (arr, 0)
      else let st = sweep_loop orig (sort_change_points (change_points orig)) (sweep_start arr)
           in (new_map st, new_map_entries st))"

section \<open>Page ranges\<close>

definition usable_type :: "u32 \<Rightarrow> bool" where
  "usable_type t \<longleftrightarrow> t = E820_RAM \<or> t = E820_ACPI"

text \<open>The trimming of \<open>init_pm_map\<close> around 640 KB .. 1 MB; \<open>None\<close> is its \<open>continue\<close>.\<close>

definition trim_reserved :: "u64 \<Rightarrow> u64 \<Rightarrow> (u64 \<times> u64) option" where
  "trim_reserved start end =
     (if start > RESERVED_MEM_START \<and> start < RESERVED_MEM_END
      then if end < RESERVED_MEM_END then None
           else Some (RESERVED_MEM_END,
             if end > RESERVED_MEM_START \<and> end < RESERVED_MEM_END then RESERVED_MEM_START else end)
      else Some (start, if end > RESERVED_MEM_START \<and> end < RESERVED_MEM_END then RESERVED_MEM_START else end))"

definition page_range :: "u64 \<times> u64 \<Rightarrow> pm_map_t" where
  "page_range r =
     \<lparr>pm_start = drop_bit PAGE_SHIFT (fst r + PAGE_SIZE - 1), pm_end = drop_bit PAGE_SHIFT (snd r)\<rparr>"

record pm_state =
  pm_map :: "pm_map_t list"
  pm_map_size :: nat
  num_pm_pages :: u64

definition add_range :: "pm_map_t \<Rightarrow> pm_state \<Rightarrow> pm_state" where
  "add_range r s =
     (let n = pm_map_size s;
          m = (pm_map s)[n := r];
          s1 = s\<lparr>pm_map := m, num_pm_pages := num_pm_pages s + (pm_end r - pm_start r)\<rparr>
      in if n > 0 \<and> pm_start r = pm_end (m ! (n - 1))
         then s1\<lparr>pm_map := m[n - 1 := (m ! (n - 1))\<lparr>pm_end := pm_end r\<rparr>]\<rparr>
         else s1\<lparr>pm_map_size := n + 1\<rparr>)"

definition init_step :: "e820_entry_t \<Rightarrow> pm_state \<Rightarrow> pm_state" where
  "init_step e s =
     (if usable_type (ent_type e)
      then case trim_reserved (ent_addr e) (ent_end e) of
             None \<Rightarrow> s
           | Some r \<Rightarrow> add_range (page_range r) s
      else s)"

definition init_pm_map :: "e820_entry_t list \<Rightarrow> nat \<Rightarrow> pm_state \<Rightarrow> pm_state" where
  "init_pm_map e820_map e820_entries s =
     fold init_step (take e820_entries e820_map) (s\<lparr>pm_map_size := 0\<rparr>)"

text \<open>The inner loop of the insertion sort moves larger entries up by one and stops at the place of the candidate.\<close>

fun sift_down :: "pm_map_t \<Rightarrow> nat \<Rightarrow> pm_map_t list \<Rightarrow> pm_map_t list" where
  "sift_down candidate 0 m = m[0 := candidate]"
| "sift_down candidate (Suc j) m =
     (if pm_start (m ! j) > pm_start candidate
      then sift_down candidate j (m[Suc j := m ! j])
      else m[Suc j := candidate])"

definition sort_pm_map :: "pm_state \<Rightarrow> pm_state" where
  "sort_pm_map s =
     s\<lparr>pm_map := fold (\<lambda>i m. sift_down (m ! i) i m) [1..<pm_map_size s] (pm_map s)\<rparr>"

text \<open>
  \<open>pmem_init\<close>: \<open>e820_entries\<close> and \<open>boot_map\<close> are the boot parameters, \<open>arr\<close> the uninitialised local array.
\<close>

definition pmem_init :: "e820_entry_t list \<Rightarrow> nat \<Rightarrow> e820_entry_t list \<Rightarrow> pm_state \<Rightarrow> pm_state" where
  "pmem_init arr e820_entries boot_map s =
     (let n = (if e820_entries > E820_MAP_SIZE then E820_MAP_SIZE else e820_entries);
          (sanitized, m) = sanitize_e820_map arr (take n boot_map)
      in sort_pm_map (init_pm_map sanitized m (s\<lparr>num_pm_pages := 0\<rparr>)))"

end
