(* ===== verification/Pmem_Map.thy ===== *)
theory Pmem_Map
  imports Pmem
begin

text \<open>
  The properties of \<open>system/pmem.c\<close>: the exchange sort of the change points ends and sorts; the sweep keeps the
  type of every address (\<open>type_at\<close>) and leaves no overlap; \<open>init_pm_map\<close> keeps the whole pages of the usable
  entries in order; the insertion sort sorts, and finds a sanitized map already sorted.
\<close>

section \<open>Sorting the change points\<close>

lemma sort_pass_mset: "mset (fst (sort_pass xs)) = mset xs"
  by (induction xs rule: sort_pass.induct) auto

lemma sort_pass_done:
  "\<not> snd (sort_pass xs) \<Longrightarrow> fst (sort_pass xs) = xs \<and> sorted (map cp_key xs)"
proof (induction xs rule: sort_pass.induct)
  case (1 x y zs)
  then show ?case by (auto simp: goes_before_key split: if_splits)
qed auto

lemma sort_change_points_correct:
  "mset (sort_change_points xs) = mset xs \<and> sorted (map cp_key (sort_change_points xs))"
proof (induction xs rule: sort_change_points.induct)
  case (1 xs)
  show ?case
  proof (cases "snd (sort_pass xs)")
    case True
    with 1 show ?thesis by (simp add: sort_change_points.simps [of xs] sort_pass_mset)
  next
    case False
    then show ?thesis
      using sort_pass_done [of xs] by (simp add: sort_change_points.simps [of xs])
  qed
qed

section \<open>The type of an address\<close>

definition ent_covers :: "e820_entry_t \<Rightarrow> u64 \<Rightarrow> bool" where
  "ent_covers e a \<longleftrightarrow> ent_addr e \<le> a \<and> a < ent_end e"

definition type_at :: "e820_entry_t list \<Rightarrow> u64 \<Rightarrow> u32" where
  "type_at es a = foldl (\<lambda>t e. if ent_covers e a \<and> ent_type e > t then ent_type e else t) E820_NONE es"

definition top_type :: "u32 set \<Rightarrow> u32" where
  "top_type T = Max (insert E820_NONE T)"

lemma none_least [simp]: "E820_NONE \<le> t"
  by (simp add: E820_NONE_def)

lemma top_type_empty [simp]: "top_type {} = E820_NONE"
  by (simp add: top_type_def)

lemma top_type_insert: "finite T \<Longrightarrow> top_type (insert t T) = max t (top_type T)"
  unfolding top_type_def by (subst insert_commute, subst Max_insert) auto

lemma Max_insert_max: "finite S \<Longrightarrow> Max (insert (max t x) S) = Max (insert t (insert x S))" for t x :: u32
  by (cases "S = {}") (simp_all add: max.assoc)

lemma foldl_top:
  "foldl (\<lambda>t x. if P x \<and> f x > t then f x else t) t0 xs = Max (insert t0 (f ` {x \<in> set xs. P x}))"
  for f :: "'a \<Rightarrow> u32"
proof (induction xs arbitrary: t0)
  case Nil
  then show ?case by simp
next
  case (Cons x xs)
  have step: "(if P x \<and> f x > t0 then f x else t0) = (if P x then max t0 (f x) else t0)"
    by (auto simp: max_def)
  have "{y \<in> set (x # xs). P y} = (if P x then insert x {y \<in> set xs. P y} else {y \<in> set xs. P y})" by auto
  then show ?case
    by (simp only: foldl_Cons Cons.IH step) (simp add: Max_insert_max)
qed

lemma overlap_type_top: "overlap_type orig os = top_type ((\<lambda>i. ent_type (orig ! i)) ` set os)"
  using foldl_top [of "\<lambda>_. True" "\<lambda>i. ent_type (orig ! i)" E820_NONE os]
  by (simp add: overlap_type_def top_type_def)

lemma type_at_top: "type_at es a = top_type (ent_type ` {e \<in> set es. ent_covers e a})"
  using foldl_top [of "\<lambda>e. ent_covers e a" ent_type E820_NONE es] by (simp add: type_at_def top_type_def)

section \<open>The entries open at a change point\<close>

definition start_of :: "e820_entry_t list \<Rightarrow> nat \<Rightarrow> change_member" where
  "start_of orig i = \<lparr>cp_entry = i, cp_start = True, cp_addr = ent_addr (orig ! i)\<rparr>"

definition end_of :: "e820_entry_t list \<Rightarrow> nat \<Rightarrow> change_member" where
  "end_of orig i = \<lparr>cp_entry = i, cp_start = False, cp_addr = ent_end (orig ! i)\<rparr>"

definition open_after :: "e820_entry_t list \<Rightarrow> change_member list \<Rightarrow> nat set" where
  "open_after orig P = {i. start_of orig i \<in> set P \<and> end_of orig i \<notin> set P}"

lemma cp_inj [simp]:
  "start_of orig i = start_of orig j \<longleftrightarrow> i = j" "end_of orig i = end_of orig j \<longleftrightarrow> i = j"
  "start_of orig i \<noteq> end_of orig j" "end_of orig j \<noteq> start_of orig i"
  by (auto simp: start_of_def end_of_def)

lemma change_points_map:
  "change_points orig = concat (map (\<lambda>i. [start_of orig i, end_of orig i]) [0..<length orig])"
  by (simp add: change_points_def start_of_def end_of_def)

lemma set_change_points: "set (change_points orig) = (\<Union>i < length orig. {start_of orig i, end_of orig i})"
  by (auto simp: change_points_map)

lemma distinct_change_points: "distinct (change_points orig)"
proof -
  have "distinct (concat (map (\<lambda>i. [start_of orig i, end_of orig i]) [0..<n]))" for n
    by (induction n) (auto simp: start_of_def end_of_def)
  then show ?thesis by (simp add: change_points_map)
qed

lemma remove_swap_last:
  assumes "distinct os" "i \<in> set os"
  shows "distinct (butlast (map (\<lambda>j. if j = i then last os else j) os)) \<and>
    set (butlast (map (\<lambda>j. if j = i then last os else j) os)) = set os - {i}"
proof -
  have "os \<noteq> []" using assms by auto
  then obtain ys y where os: "os = ys @ [y]" by (cases os rule: rev_cases) auto
  show ?thesis
    using assms by (auto simp: os butlast_append distinct_map inj_on_def)
qed

lemma start_before_end:
  assumes "\<not> unreasonable orig" "i < length orig"
  shows "cp_key (start_of orig i) < cp_key (end_of orig i)"
proof -
  have "ent_addr (orig ! i) \<le> ent_end (orig ! i)"
    using assms by (auto simp: unreasonable_def list_ex_iff not_less)
  then show ?thesis by (simp add: cp_key_def start_of_def end_of_def word_le_nat_alt)
qed

lemma track_overlap_open:
  assumes sane: "\<not> unreasonable orig"
    and all: "mset (P @ c # R) = mset (change_points orig)" "sorted (map cp_key (P @ c # R))"
    and os: "distinct os" "set os = open_after orig P"
  shows "distinct (track_overlap c os) \<and> set (track_overlap c os) = open_after orig (P @ [c])"
proof -
  have dist: "distinct (P @ c # R)"
    using all(1) distinct_change_points mset_eq_imp_distinct_iff by metis
  have sets: "set (P @ c # R) = (\<Union>i < length orig. {start_of orig i, end_of orig i})"
    using all(1) set_change_points mset_eq_setD by metis
  then obtain i where i: "i < length orig" "c = start_of orig i \<or> c = end_of orig i" by auto
  from i(2) show ?thesis
  proof
    assume c: "c = start_of orig i"
    have "end_of orig i \<notin> set P"
      using all(2) start_before_end [OF sane i(1)] by (auto simp: c sorted_append)
    moreover have "start_of orig i \<notin> set P" using dist c by auto
    ultimately have "open_after orig (P @ [c]) = insert i (open_after orig P)" "i \<notin> open_after orig P"
      by (auto simp: open_after_def c)
    then show ?thesis using os by (simp add: track_overlap_def c start_of_def)
  next
    assume c: "c = end_of orig i"
    have "start_of orig i \<in> set (P @ c # R)" using sets i(1) by blast
    then have "start_of orig i \<in> set P"
      using all(2) start_before_end [OF sane i(1)] by (auto simp: c sorted_append)
    moreover have "end_of orig i \<notin> set P" using dist c by auto
    ultimately have "open_after orig (P @ [c]) = open_after orig P - {i}" "i \<in> open_after orig P"
      by (auto simp: open_after_def c)
    then show ?thesis using os remove_swap_last [of os i] by (simp add: track_overlap_def c end_of_def)
  qed
qed

section \<open>The sweep\<close>

definition done_map :: "sweep_state \<Rightarrow> e820_entry_t list" where
  "done_map st = take (new_map_entries st) (new_map st)"

definition out_type :: "sweep_state \<Rightarrow> u64 \<Rightarrow> u32" where
  "out_type st a =
     (if last_type st \<noteq> E820_NONE \<and> last_addr st \<le> a then last_type st else type_at (done_map st) a)"

definition processed_type :: "e820_entry_t list \<Rightarrow> change_member list \<Rightarrow> u64 \<Rightarrow> u32" where
  "processed_type orig P a =
     top_type ((\<lambda>i. ent_type (orig ! i)) `
       {i. start_of orig i \<in> set P \<and> ent_addr (orig ! i) \<le> a \<and>
           (end_of orig i \<in> set P \<longrightarrow> a < ent_end (orig ! i))})"

definition separated :: "e820_entry_t list \<Rightarrow> bool" where
  "separated es \<longleftrightarrow> sorted_wrt (\<lambda>e f. ent_end e \<le> ent_addr f) es \<and>
     (\<forall>e \<in> set es. ent_addr e < ent_end e \<and> ent_type e \<noteq> E820_NONE)"

definition sweep_inv :: "e820_entry_t list \<Rightarrow> change_member list \<Rightarrow> change_member list \<Rightarrow> sweep_state \<Rightarrow> bool" where
  "sweep_inv orig P R st \<longleftrightarrow>
     length (new_map st) = E820_MAP_SIZE \<and> new_map_entries st < E820_MAP_SIZE \<and>
     distinct (overlap_list st) \<and> set (overlap_list st) = open_after orig P \<and>
     last_type st = overlap_type orig (overlap_list st) \<and>
     separated (done_map st) \<and>
     (\<forall>e \<in> set (done_map st). \<forall>c \<in> set R. ent_end e \<le> cp_addr c) \<and>
     (last_type st \<noteq> E820_NONE \<longrightarrow>
        ent_addr (new_map st ! new_map_entries st) = last_addr st \<and>
        ent_type (new_map st ! new_map_entries st) = last_type st \<and>
        (\<forall>c \<in> set R. last_addr st \<le> cp_addr c) \<and>
        (\<forall>e \<in> set (done_map st). ent_end e \<le> last_addr st)) \<and>
     (\<forall>a. out_type st a = processed_type orig P a)"

lemma type_at_snoc:
  "type_at (es @ [e]) a = (if ent_covers e a then max (type_at es a) (ent_type e) else type_at es a)"
  by (auto simp: type_at_def max_def)

lemma type_at_beyond: "\<forall>e \<in> set es. ent_end e \<le> a \<Longrightarrow> type_at es a = E820_NONE"
proof -
  assume "\<forall>e \<in> set es. ent_end e \<le> a"
  then have "{e \<in> set es. ent_covers e a} = {}" by (auto simp: ent_covers_def not_less)
  then show ?thesis unfolding type_at_top by (simp only:) simp
qed

lemma processed_step:
  assumes sane: "\<not> unreasonable orig"
    and all: "mset (P @ c # R) = mset (change_points orig)" "sorted (map cp_key (P @ c # R))"
  shows "processed_type orig (P @ [c]) a =
    (if a < cp_addr c then processed_type orig P a
     else top_type ((\<lambda>i. ent_type (orig ! i)) ` open_after orig (P @ [c])))"
proof -
  have dist: "distinct (P @ c # R)"
    using all(1) distinct_change_points mset_eq_imp_distinct_iff by metis
  have "set (P @ c # R) = (\<Union>i < length orig. {start_of orig i, end_of orig i})"
    using all(1) set_change_points mset_eq_setD by metis
  then obtain i where i: "i < length orig" "c = start_of orig i \<or> c = end_of orig i" by auto
  have le: "cp_addr x \<le> cp_addr c" if "x \<in> set (P @ [c])" for x
  proof -
    have "cp_key x \<le> cp_key c" using that all(2) by (auto simp: sorted_append)
    then show ?thesis by (auto simp: cp_key_def word_le_nat_alt split: if_splits)
  qed
  have starts: "ent_addr (orig ! j) \<le> cp_addr c" if "start_of orig j \<in> set (P @ [c])" for j
    using le [OF that] by (simp add: start_of_def)
  have ends: "ent_end (orig ! j) \<le> cp_addr c" if "end_of orig j \<in> set (P @ [c])" for j
    using le [OF that] by (simp add: end_of_def)
  have new: "c \<notin> set P" using dist by auto
  let ?S = "\<lambda>Q. {j. start_of orig j \<in> set Q \<and> ent_addr (orig ! j) \<le> a \<and>
           (end_of orig j \<in> set Q \<longrightarrow> a < ent_end (orig ! j))}"
  show ?thesis
  proof (cases "a < cp_addr c")
    case True
    have "?S (P @ [c]) = ?S P"
      using i(2) True new by (auto simp: start_of_def [of orig i] end_of_def [of orig i] not_le)
        (auto simp: start_of_def end_of_def)
    then show ?thesis using True by (simp add: processed_type_def)
  next
    case False
    then have "?S (P @ [c]) = open_after orig (P @ [c])"
      using starts ends by (fastforce simp: open_after_def)
    then show ?thesis using False by (simp add: processed_type_def)
  qed
qed

lemma open_entry_done [simp]: "done_map (open_entry addr cur st) = done_map st"
  by (simp add: done_map_def open_entry_def Let_def)

lemma close_entry_done:
  assumes "new_map_entries st < length (new_map st)"
    and "last_type st \<noteq> E820_NONE \<Longrightarrow> ent_addr (new_map st ! new_map_entries st) = last_addr st \<and>
      ent_type (new_map st ! new_map_entries st) = last_type st"
  shows "done_map (close_entry addr st) =
    (if last_type st = E820_NONE \<or> addr = last_addr st then done_map st
     else done_map st @ [\<lparr>ent_addr = last_addr st, ent_size = addr - last_addr st, ent_type = last_type st\<rparr>])"
  using assms by (auto simp: done_map_def close_entry_def Let_def take_Suc_conv_app_nth)

lemma boundary_step:
  assumes n: "new_map_entries st < length (new_map st)"
    and pend: "last_type st \<noteq> E820_NONE \<Longrightarrow> ent_addr (new_map st ! new_map_entries st) = last_addr st \<and>
      ent_type (new_map st ! new_map_entries st) = last_type st \<and> last_addr st \<le> addr \<and>
      (\<forall>e \<in> set (done_map st). ent_end e \<le> last_addr st)"
    and sep: "separated (done_map st)"
    and before: "\<forall>e \<in> set (done_map st). ent_end e \<le> addr"
    and st': "st' = open_entry addr cur (close_entry addr st)"
  shows "separated (done_map st') \<and> (\<forall>e \<in> set (done_map st'). ent_end e \<le> addr) \<and>
    (\<forall>a. out_type st' a = (if a < addr then out_type st a else cur))"
proof -
  let ?e = "\<lparr>ent_addr = last_addr st, ent_size = addr - last_addr st, ent_type = last_type st\<rparr>"
  have d: "done_map st' = (if last_type st = E820_NONE \<or> addr = last_addr st then done_map st else done_map st @ [?e])"
    using close_entry_done [OF n] pend by (simp add: st')
  have ends: "ent_end ?e = addr" by (simp add: ent_end_def)
  have sep': "separated (done_map st')"
    using sep pend ends by (auto simp: d separated_def sorted_wrt_append)
  moreover have ends': "\<forall>e \<in> set (done_map st'). ent_end e \<le> addr"
    using before ends by (auto simp: d)
  moreover have "out_type st' a = (if a < addr then out_type st a else cur)" for a
  proof (cases "a < addr")
    case False
    then have "type_at (done_map st') a = E820_NONE" using ends' by (intro type_at_beyond) force
    then show ?thesis
      using False by (auto simp: out_type_def st' open_entry_def Let_def)
  next
    case True
    have t: "out_type st' a = type_at (done_map st') a"
      using True by (auto simp: out_type_def st' open_entry_def Let_def)
    show ?thesis
    proof (cases "last_type st \<noteq> E820_NONE \<and> last_addr st \<le> a")
      case True
      then have "type_at (done_map st) a = E820_NONE"
        using pend by (intro type_at_beyond) force
      moreover have "out_type st a = last_type st" using True by (simp add: out_type_def)
      ultimately show ?thesis
        using True \<open>a < addr\<close> unfolding t d by (auto simp: type_at_snoc ent_covers_def ends max_def)
    next
      case False
      then have "out_type st a = type_at (done_map st) a" by (auto simp: out_type_def)
      then show ?thesis
        using True False unfolding t d by (auto simp: type_at_snoc ent_covers_def)
    qed
  qed
  ultimately show ?thesis by blast
qed

lemma sweep_step:
  assumes sane: "\<not> unreasonable orig"
    and all: "mset (P @ c # R) = mset (change_points orig)" "sorted (map cp_key (P @ c # R))"
    and inv: "sweep_inv orig P (c # R) st"
    and st1: "st1 = st\<lparr>overlap_list := track_overlap c (overlap_list st)\<rparr>"
    and cur: "cur = overlap_type orig (overlap_list st1)"
    and st2: "st2 = (if cur \<noteq> last_type st1 then open_entry (cp_addr c) cur (close_entry (cp_addr c) st1) else st1)"
    and room: "new_map_entries st2 < E820_MAP_SIZE"
  shows "sweep_inv orig (P @ [c]) R st2"
proof -
  have os: "distinct (overlap_list st1)" "set (overlap_list st1) = open_after orig (P @ [c])"
    using track_overlap_open [OF sane all, of "overlap_list st"] inv by (simp_all add: sweep_inv_def st1)
  have curP: "cur = top_type ((\<lambda>i. ent_type (orig ! i)) ` open_after orig (P @ [c]))"
    by (simp add: cur overlap_type_top os)
  have later: "cp_addr c \<le> cp_addr d" if "d \<in> set R" for d
  proof -
    have "cp_key c \<le> cp_key d" using that all(2) by (auto simp: sorted_append)
    then show ?thesis by (auto simp: cp_key_def word_le_nat_alt split: if_splits)
  qed
  have same: "new_map st1 = new_map st" "new_map_entries st1 = new_map_entries st" "last_type st1 = last_type st"
    "last_addr st1 = last_addr st" "done_map st1 = done_map st" "out_type st1 = out_type st"
    by (auto simp: st1 done_map_def out_type_def fun_eq_iff)
  show ?thesis
  proof (cases "cur = last_type st1")
    case True
    have "out_type st a = processed_type orig (P @ [c]) a" for a
    proof (cases "a < cp_addr c")
      case True
      then show ?thesis using inv by (simp add: processed_step [OF sane all] sweep_inv_def)
    next
      case False
      then have "type_at (done_map st) a = E820_NONE"
        using inv by (intro type_at_beyond) (force simp: sweep_inv_def)
      moreover have "last_type st \<noteq> E820_NONE \<longrightarrow> last_addr st \<le> a"
        using inv False by (auto simp: sweep_inv_def)
      ultimately show ?thesis
        using False True by (auto simp: processed_step [OF sane all] curP [symmetric] out_type_def same)
    qed
    then show ?thesis
      using inv os True by (auto simp: sweep_inv_def st2 same cur)
  next
    case False
    have fields: "overlap_list st2 = overlap_list st1" "last_type st2 = cur" "length (new_map st2) = length (new_map st)"
      "cur \<noteq> E820_NONE \<Longrightarrow> last_addr st2 = cp_addr c"
      using False by (simp_all add: st2 open_entry_def close_entry_def Let_def same)
    have slot: "cur \<noteq> E820_NONE \<Longrightarrow> ent_addr (new_map st2 ! new_map_entries st2) = cp_addr c \<and>
        ent_type (new_map st2 ! new_map_entries st2) = cur"
      using False room inv by (auto simp: st2 open_entry_def Let_def close_entry_def same sweep_inv_def)
    have st2': "st2 = open_entry (cp_addr c) cur (close_entry (cp_addr c) st1)" using False by (simp add: st2)
    have bnd: "separated (done_map st2) \<and> (\<forall>e \<in> set (done_map st2). ent_end e \<le> cp_addr c) \<and>
        (\<forall>a. out_type st2 a = (if a < cp_addr c then out_type st1 a else cur))"
      using inv by (intro boundary_step [OF _ _ _ _ st2']) (auto simp: sweep_inv_def same)
    have "out_type st2 a = processed_type orig (P @ [c]) a" for a
      using bnd inv by (simp add: processed_step [OF sane all] curP [symmetric] same sweep_inv_def)
    moreover have "\<forall>e \<in> set (done_map st2). \<forall>d \<in> set R. ent_end e \<le> cp_addr d"
      using bnd later order.trans by blast
    moreover have "length (new_map st2) = E820_MAP_SIZE" using inv fields by (simp add: sweep_inv_def)
    ultimately show ?thesis
      unfolding sweep_inv_def using bnd os fields slot room later by (simp add: cur)
  qed
qed

lemma sweep_loop_inv:
  assumes "\<not> unreasonable orig"
    and "mset (P @ R) = mset (change_points orig)" "sorted (map cp_key (P @ R))"
    and "sweep_inv orig P R st" "new_map_entries (sweep_loop orig R st) < E820_MAP_SIZE"
  shows "sweep_inv orig (P @ R) [] (sweep_loop orig R st)"
  using assms(2-)
proof (induction R arbitrary: P st)
  case Nil
  then show ?case by simp
next
  case (Cons c R)
  define st1 where "st1 = st\<lparr>overlap_list := track_overlap c (overlap_list st)\<rparr>"
  define cur where "cur = overlap_type orig (overlap_list st1)"
  define st2 where "st2 = (if cur \<noteq> last_type st1 then open_entry (cp_addr c) cur (close_entry (cp_addr c) st1) else st1)"
  have entries: "new_map_entries (open_entry a t s) = new_map_entries s" for a t s
    by (simp add: open_entry_def Let_def)
  have loop: "sweep_loop orig (c # R) st = sweep_loop orig R st2" and room: "new_map_entries st2 < E820_MAP_SIZE"
    using Cons.prems(3,4)
    by (auto simp: Let_def st1_def [symmetric] cur_def [symmetric] st2_def entries sweep_inv_def split: if_splits)
      (auto simp: st1_def)
  have "sweep_inv orig (P @ [c]) R st2"
    using Cons.prems(1-3) room by (intro sweep_step [OF assms(1) _ _ _ st1_def cur_def st2_def]) simp_all
  then show ?case
    using Cons.IH [of "P @ [c]" st2] Cons.prems unfolding loop by (simp del: sweep_loop.simps)
qed

text \<open>
  The sweep that fills the table stops there. What it has written is right up to the end of the last entry.
\<close>

lemma processed_below:
  assumes sane: "\<not> unreasonable orig"
    and all: "mset (P @ c # R) = mset (change_points orig)" "sorted (map cp_key (P @ c # R))" and a: "a < cp_addr c"
  shows "processed_type orig P a = type_at orig a"
proof -
  have members: "set (P @ c # R) = (\<Union>i < length orig. {start_of orig i, end_of orig i})"
    using all(1) set_change_points mset_eq_setD by metis
  have later: "a < cp_addr d" if "d \<in> set (c # R)" for d
  proof -
    have "cp_key c \<le> cp_key d" using that all(2) by (auto simp: sorted_append)
    then have "cp_addr c \<le> cp_addr d" by (auto simp: cp_key_def word_le_nat_alt split: if_splits)
    then show ?thesis using a by simp
  qed
  have mem: "start_of orig i \<in> set P \<or> start_of orig i \<in> set (c # R)" "end_of orig i \<in> set P \<or> end_of orig i \<in> set (c # R)"
    if "i < length orig" for i
    using members that by auto
  have "start_of orig i \<in> set P" if "i < length orig" "ent_addr (orig ! i) \<le> a" for i
    using mem(1) [OF that(1)] that(2) later [of "start_of orig i"] by (auto simp del: list.set simp: start_of_def)
  moreover have "a < ent_end (orig ! i)" if "i < length orig" "end_of orig i \<notin> set P" for i
    using mem(2) [OF that(1)] that(2) later [of "end_of orig i"] by (simp add: end_of_def del: list.set)
  moreover have "i < length orig" if "start_of orig i \<in> set P" for i
  proof -
    have "start_of orig i \<in> set (P @ c # R)" using that by simp
    then show ?thesis unfolding members by simp
  qed
  ultimately have "{i. start_of orig i \<in> set P \<and> ent_addr (orig ! i) \<le> a \<and> (end_of orig i \<in> set P \<longrightarrow> a < ent_end (orig ! i))} =
      {i. i < length orig \<and> ent_covers (orig ! i) a}"
    by (auto simp: ent_covers_def)
  then have "processed_type orig P a = top_type ((\<lambda>i. ent_type (orig ! i)) ` {i. i < length orig \<and> ent_covers (orig ! i) a})"
    by (simp add: processed_type_def)
  also have "(\<lambda>i. ent_type (orig ! i)) ` {i. i < length orig \<and> ent_covers (orig ! i) a} = ent_type ` {e \<in> set orig. ent_covers e a}"
    by (auto simp: in_set_conv_nth image_iff)
  finally show ?thesis by (simp add: type_at_top)
qed

definition full_table :: "e820_entry_t list \<Rightarrow> sweep_state \<Rightarrow> bool" where
  "full_table orig st \<longleftrightarrow>
     new_map_entries st = E820_MAP_SIZE \<and> length (new_map st) = E820_MAP_SIZE \<and> separated (done_map st) \<and>
     (\<forall>a < ent_end (last (done_map st)). type_at (done_map st) a = type_at orig a)"

lemma full_step:
  assumes sane: "\<not> unreasonable orig"
    and all: "mset (P @ c # R) = mset (change_points orig)" "sorted (map cp_key (P @ c # R))"
    and inv: "sweep_inv orig P (c # R) st"
    and st2: "st2 = close_entry (cp_addr c) (st\<lparr>overlap_list := os\<rparr>)" and full: "new_map_entries st2 \<ge> E820_MAP_SIZE"
  shows "full_table orig st2"
proof -
  let ?st1 = "st\<lparr>overlap_list := os\<rparr>"
  have same: "done_map ?st1 = done_map st" "out_type ?st1 = out_type st" by (auto simp: done_map_def out_type_def fun_eq_iff)
  have n: "new_map_entries st < length (new_map st)" "length (new_map st) = E820_MAP_SIZE" using inv by (simp_all add: sweep_inv_def)
  have bnd: "separated (done_map st2)" "out_type (open_entry (cp_addr c) E820_NONE st2) a = out_type st a" if "a < cp_addr c" for a
    using inv boundary_step [of ?st1 "cp_addr c" "open_entry (cp_addr c) E820_NONE st2" E820_NONE] that n(1)
    by (auto simp: sweep_inv_def same st2)
  have sep: "separated (done_map st2)"
    using inv boundary_step [of ?st1 "cp_addr c" "open_entry (cp_addr c) E820_NONE st2" E820_NONE] n(1)
    by (auto simp: sweep_inv_def same st2)
  have grown: "new_map_entries st2 = Suc (new_map_entries st)" "last_type st \<noteq> E820_NONE" "cp_addr c \<noteq> last_addr st"
    using full n by (auto simp: st2 close_entry_def Let_def split: if_splits)
  then have "done_map st2 =
      done_map st @ [\<lparr>ent_addr = last_addr st, ent_size = cp_addr c - last_addr st, ent_type = last_type st\<rparr>]"
    using close_entry_done [of ?st1 "cp_addr c"] inv n(1) by (auto simp: st2 same sweep_inv_def)
  then have last: "ent_end (last (done_map st2)) = cp_addr c" by (simp add: ent_end_def)
  have "type_at (done_map st2) a = type_at orig a" if a: "a < cp_addr c" for a
  proof -
    have "type_at (done_map st2) a = out_type st a"
      using bnd(2) [OF a] by (simp add: out_type_def [of "open_entry (cp_addr c) E820_NONE st2"]) (simp add: open_entry_def Let_def done_map_def)
    also have "\<dots> = type_at orig a" using inv processed_below [OF sane all a] by (simp add: sweep_inv_def)
    finally show ?thesis .
  qed
  moreover have "new_map_entries st2 = E820_MAP_SIZE" using grown(1) full n by simp
  moreover have "length (new_map st2) = E820_MAP_SIZE" using n(2) by (simp add: st2 close_entry_def Let_def)
  ultimately show ?thesis using sep last by (simp add: full_table_def)
qed

lemma sweep_loop_full:
  assumes "\<not> unreasonable orig"
    and "mset (P @ R) = mset (change_points orig)" "sorted (map cp_key (P @ R))"
    and "sweep_inv orig P R st" "new_map_entries (sweep_loop orig R st) \<ge> E820_MAP_SIZE"
  shows "full_table orig (sweep_loop orig R st)"
  using assms(2-)
proof (induction R arbitrary: P st)
  case Nil
  then show ?case by (simp add: sweep_inv_def)
next
  case (Cons c R)
  define st1 where "st1 = st\<lparr>overlap_list := track_overlap c (overlap_list st)\<rparr>"
  define cur where "cur = overlap_type orig (overlap_list st1)"
  define st2 where "st2 = (if cur \<noteq> last_type st1 then open_entry (cp_addr c) cur (close_entry (cp_addr c) st1) else st1)"
  have entries: "new_map_entries (open_entry a t s) = new_map_entries s" for a t s
    by (simp add: open_entry_def Let_def)
  show ?case
  proof (cases "new_map_entries st2 < E820_MAP_SIZE")
    case True
    have loop: "sweep_loop orig (c # R) st = sweep_loop orig R st2"
      using True by (auto simp: Let_def st1_def [symmetric] cur_def [symmetric] st2_def entries)
    have "sweep_inv orig (P @ [c]) R st2"
      using Cons.prems(1-3) True by (intro sweep_step [OF assms(1) _ _ _ st1_def cur_def st2_def]) simp_all
    then show ?thesis
      using Cons.IH [of "P @ [c]" st2] Cons.prems unfolding loop by (simp del: sweep_loop.simps)
  next
    case False
    have "new_map_entries st1 < E820_MAP_SIZE" using Cons.prems(3) by (simp add: sweep_inv_def st1_def)
    then have ne: "cur \<noteq> last_type st1" using False by (auto simp: st2_def)
    then have over: "new_map_entries (close_entry (cp_addr c) st1) \<ge> E820_MAP_SIZE" using False by (simp add: st2_def entries)
    have "sweep_loop orig (c # R) st = close_entry (cp_addr c) st1"
      using ne over by (simp add: Let_def st1_def [symmetric] cur_def [symmetric])
    moreover have "full_table orig (close_entry (cp_addr c) st1)"
      using full_step [OF assms(1) Cons.prems(1-3) _ over] by (simp add: st1_def)
    ultimately show ?thesis by simp
  qed
qed

lemma sweep_loop_count: "new_map_entries (sweep_loop orig R st) \<le> new_map_entries st + length R"
proof (induction orig R st rule: sweep_loop.induct)
  case (2 orig c cs st)
  have "new_map_entries (close_entry a s) \<le> Suc (new_map_entries s)" for a s
    by (simp add: close_entry_def Let_def)
  from this [of "cp_addr c" "st\<lparr>overlap_list := track_overlap c (overlap_list st)\<rparr>"] 2 show ?case
    by (fastforce simp: Let_def open_entry_def intro: order.trans)
qed simp

lemma sweep_starts: "length arr = E820_MAP_SIZE \<Longrightarrow> sweep_inv orig [] cs (sweep_start arr)"
  by (simp add: sweep_inv_def sweep_start_def open_after_def overlap_type_def done_map_def
      separated_def out_type_def processed_type_def type_at_def E820_MAP_SIZE_def)

lemma sanitize_correct:
  assumes arr: "length arr = E820_MAP_SIZE" and sane: "\<not> unreasonable orig"
    and res: "sanitize_e820_map arr orig = (m, n)" and room: "n < E820_MAP_SIZE"
  shows "n \<le> length m \<and> separated (take n m) \<and> (\<forall>a. type_at (take n m) a = type_at orig a)"
proof -
  let ?cs = "sort_change_points (change_points orig)"
  define st where "st = sweep_loop orig ?cs (sweep_start arr)"
  have st: "m = new_map st" "n = new_map_entries st"
    using res sane by (simp_all add: sanitize_e820_map_def st_def Let_def)
  have ms: "mset ([] @ ?cs) = mset (change_points orig)" "sorted (map cp_key ([] @ ?cs))"
    using sort_change_points_correct [of "change_points orig"] by simp_all
  note start = sweep_starts [OF arr, of orig ?cs]
  have inv: "sweep_inv orig ([] @ ?cs) [] st"
    unfolding st_def by (rule sweep_loop_inv [OF sane ms start]) (use room st in \<open>simp add: st_def\<close>)
  have members: "set ?cs = (\<Union>i < length orig. {start_of orig i, end_of orig i})"
    using ms(1) set_change_points mset_eq_setD by (metis append_Nil)
  then have "open_after orig ?cs = {}" by (auto simp: open_after_def)
  then have last: "last_type st = E820_NONE"
    using inv by (simp add: sweep_inv_def overlap_type_top)
  have "type_at (take n m) a = type_at orig a" for a
  proof -
    have "type_at (take n m) a = processed_type orig ?cs a"
      using inv last by (simp add: sweep_inv_def st out_type_def done_map_def)
    also have "{i. start_of orig i \<in> set ?cs \<and> ent_addr (orig ! i) \<le> a \<and>
        (end_of orig i \<in> set ?cs \<longrightarrow> a < ent_end (orig ! i))} = {i. i < length orig \<and> ent_covers (orig ! i) a}"
      by (auto simp: members ent_covers_def)
    then have "processed_type orig ?cs a = top_type ((\<lambda>i. ent_type (orig ! i)) ` {i. i < length orig \<and> ent_covers (orig ! i) a})"
      by (simp add: processed_type_def)
    also have "(\<lambda>i. ent_type (orig ! i)) ` {i. i < length orig \<and> ent_covers (orig ! i) a} =
        ent_type ` {e \<in> set orig. ent_covers e a}"
      by (auto simp: in_set_conv_nth image_iff)
    finally show ?thesis by (simp add: type_at_top)
  qed
  then show ?thesis using inv by (auto simp: sweep_inv_def st done_map_def)
qed

lemma sanitize_room:
  assumes "length orig < 64" "sanitize_e820_map arr orig = (m, n)"
  shows "n < E820_MAP_SIZE"
proof -
  let ?cs = "sort_change_points (change_points orig)"
  have "mset ?cs = mset (change_points orig)" using sort_change_points_correct by blast
  then have "length ?cs = length (change_points orig)" by (metis size_mset)
  also have "\<dots> = 2 * length orig"
    by (simp add: change_points_def length_concat comp_def sum_list_triv)
  finally have "length ?cs = 2 * length orig" .
  then show ?thesis
    using assms sweep_loop_count [of orig ?cs "sweep_start arr"]
    by (auto simp: sanitize_e820_map_def Let_def sweep_start_def E820_MAP_SIZE_def split: if_splits)
qed

lemma sanitize_full:
  assumes arr: "length arr = E820_MAP_SIZE" and sane: "\<not> unreasonable orig"
    and res: "sanitize_e820_map arr orig = (m, n)" and full: "n \<ge> E820_MAP_SIZE"
  shows "n = E820_MAP_SIZE \<and> n \<le> length m \<and> separated (take n m) \<and>
    (\<forall>a < ent_end (last (take n m)). type_at (take n m) a = type_at orig a)"
proof -
  let ?cs = "sort_change_points (change_points orig)"
  have ms: "mset ([] @ ?cs) = mset (change_points orig)" "sorted (map cp_key ([] @ ?cs))"
    using sort_change_points_correct [of "change_points orig"] by simp_all
  have st: "m = new_map (sweep_loop orig ?cs (sweep_start arr))" "n = new_map_entries (sweep_loop orig ?cs (sweep_start arr))"
    using res sane by (simp_all add: sanitize_e820_map_def Let_def)
  have "full_table orig (sweep_loop orig ?cs (sweep_start arr))"
    using full st by (intro sweep_loop_full [OF sane ms sweep_starts [OF arr]]) simp
  from this [unfolded full_table_def done_map_def, folded st] show ?thesis by auto
qed

lemma separated_ends:
  assumes "separated es" "e \<in> set es"
  shows "ent_end e \<le> ent_end (last es)"
proof -
  obtain ys l where es: "es = ys @ [l]" using assms(2) by (cases es rule: rev_cases) auto
  have "ent_end e \<le> ent_addr l" if "e \<in> set ys" using assms(1) that by (auto simp: separated_def es sorted_wrt_append)
  moreover have "ent_addr l \<le> ent_end l" using assms(1) by (auto simp: separated_def es intro: less_imp_le)
  ultimately show ?thesis using assms(2) es by (auto intro: order.trans)
qed

text \<open>In every case the new map has no entry that the original one does not justify.\<close>

lemma sanitize_honest:
  assumes arr: "length arr = E820_MAP_SIZE" and sane: "\<not> unreasonable orig" and res: "sanitize_e820_map arr orig = (m, n)"
  shows "n \<le> E820_MAP_SIZE \<and> n \<le> length m \<and> separated (take n m) \<and>
    (\<forall>a. type_at (take n m) a \<noteq> E820_NONE \<longrightarrow> type_at orig a = type_at (take n m) a)"
proof (cases "n < E820_MAP_SIZE")
  case True
  then show ?thesis using sanitize_correct [OF arr sane res] by simp
next
  case False
  then have "E820_MAP_SIZE \<le> n" by simp
  note f = sanitize_full [OF arr sane res this]
  have "a < ent_end (last (take n m))" if "type_at (take n m) a \<noteq> E820_NONE" for a
  proof (rule ccontr)
    assume "\<not> a < ent_end (last (take n m))"
    then have "\<forall>e \<in> set (take n m). ent_end e \<le> a" using separated_ends [of "take n m"] f by force
    then show False using that type_at_beyond by blast
  qed
  then have "\<forall>a. type_at (take n m) a \<noteq> E820_NONE \<longrightarrow> type_at orig a = type_at (take n m) a" using f by metis
  then show ?thesis using f by (elim conjE) (intro conjI, simp_all)
qed

section \<open>Page ranges\<close>

definition live_map :: "pm_state \<Rightarrow> pm_map_t list" where
  "live_map s = take (pm_map_size s) (pm_map s)"

abbreviation first_page :: "pm_map_t \<Rightarrow> nat" where
  "first_page r \<equiv> unat (pm_start r)"
abbreviation end_page :: "pm_map_t \<Rightarrow> nat" where
  "end_page r \<equiv> unat (pm_end r)"

definition add_range_list :: "pm_map_t \<Rightarrow> pm_map_t list \<Rightarrow> pm_map_t list" where
  "add_range_list r xs =
     (if xs \<noteq> [] \<and> pm_start r = pm_end (last xs)
      then butlast xs @ [(last xs)\<lparr>pm_end := pm_end r\<rparr>] else xs @ [r])"

lemma add_range_live:
  assumes "pm_map_size s < length (pm_map s)"
  shows "live_map (add_range r s) = add_range_list r (live_map s) \<and>
    length (pm_map (add_range r s)) = length (pm_map s) \<and>
    pm_map_size (add_range r s) \<le> Suc (pm_map_size s) \<and>
    num_pm_pages (add_range r s) = num_pm_pages s + (pm_end r - pm_start r)"
proof (cases "pm_map_size s")
  case 0
  then show ?thesis
    using assms by (auto simp: live_map_def add_range_def Let_def add_range_list_def take_Suc_conv_app_nth)
next
  case (Suc k)
  let ?m = "pm_map s"
  have lv: "live_map s = take k ?m @ [?m ! k]" and k: "k < length ?m" "Suc k < length ?m"
    using Suc assms by (simp_all add: live_map_def take_Suc_conv_app_nth)
  show ?thesis
    using k Suc
    by (auto simp: lv add_range_list_def) 
      (auto simp: live_map_def add_range_def Let_def take_Suc_conv_app_nth)
qed

definition in_pages :: "pm_map_t list \<Rightarrow> nat \<Rightarrow> bool" where
  "in_pages xs p \<longleftrightarrow> (\<exists>r \<in> set xs. first_page r \<le> p \<and> p < end_page r)"

definition chained :: "nat \<Rightarrow> pm_map_t list \<Rightarrow> bool" where
  "chained L xs \<longleftrightarrow>
     sorted_wrt (\<lambda>r q. end_page r \<le> first_page q \<and> first_page r \<le> first_page q) xs \<and>
     (\<forall>r \<in> set xs. end_page r * 4096 \<le> L \<and> (end_page r < first_page r \<longrightarrow> end_page r * 4096 < L) \<and> first_page r * 4096 < L + 4096)"

lemma add_range_list_correct:
  assumes ch: "chained L xs" and a: "L \<le> a" "a \<le> b"
    and r: "first_page r = (a + 4095) div 4096" "end_page r = b div 4096"
  shows "chained b (add_range_list r xs) \<and>
    (\<forall>p. in_pages (add_range_list r xs) p \<longleftrightarrow> in_pages xs p \<or> a \<le> p * 4096 \<and> (p + 1) * 4096 \<le> b)"
proof -
  have r_in: "first_page r \<le> p \<and> p < end_page r \<longleftrightarrow> a \<le> p * 4096 \<and> (p + 1) * 4096 \<le> b" for p
  proof -
    have "(a + 4095) div 4096 \<le> p \<longleftrightarrow> a \<le> p * 4096"
      using div_less_iff_less_mult [of 4096 "a + 4095" "Suc p"] by (simp add: less_Suc_eq_le algebra_simps)
    moreover have "p < b div 4096 \<longleftrightarrow> (p + 1) * 4096 \<le> b"
      using less_eq_div_iff_mult_less_eq [of 4096 "Suc p" b] by (simp add: Suc_le_eq algebra_simps)
    ultimately show ?thesis unfolding r by blast
  qed
  have Sr: "first_page r * 4096 \<le> a + 4095" "a < first_page r * 4096 + 1"
    using div_times_less_eq_dividend [of "a + 4095" 4096] dividend_less_times_div [of 4096 "a + 4095"] r(1)
    by (simp_all add: algebra_simps)
  have Er: "end_page r * 4096 \<le> b" "b < end_page r * 4096 + 4096"
    using div_times_less_eq_dividend [of b 4096] dividend_less_times_div [of 4096 b] r(2)
    by (simp_all add: algebra_simps)
  have r_ok: "end_page r * 4096 \<le> b" "end_page r < first_page r \<Longrightarrow> end_page r * 4096 < b" "first_page r * 4096 < b + 4096"
    using Sr Er a(2) by linarith+
  have old: "end_page q * 4096 \<le> b" "end_page q < first_page q \<Longrightarrow> end_page q * 4096 < b" "first_page q * 4096 < b + 4096"
    "end_page q \<le> first_page r" "first_page q \<le> first_page r" if "q \<in> set xs" for q
  proof -
    have q: "end_page q * 4096 \<le> L" "end_page q < first_page q \<Longrightarrow> end_page q * 4096 < L" "first_page q * 4096 < L + 4096"
      using ch that by (auto simp: chained_def)
    then show "end_page q * 4096 \<le> b" "end_page q < first_page q \<Longrightarrow> end_page q * 4096 < b" "first_page q * 4096 < b + 4096"
      using a by linarith+
    show "end_page q \<le> first_page r" "first_page q \<le> first_page r" unfolding r(1) using q(1,3) a(1) by (simp_all add: less_eq_div_iff_mult_less_eq)
  qed
  show ?thesis
  proof (cases "xs \<noteq> [] \<and> pm_start r = pm_end (last xs)")
    case False
    then have "add_range_list r xs = xs @ [r]" by (auto simp: add_range_list_def)
    then show ?thesis
      using ch old r_ok r_in by (auto simp: chained_def sorted_wrt_append in_pages_def)
  next
    case True
    then obtain ys l where xs: "xs = ys @ [l]" by (cases xs rule: rev_cases) auto
    have eq: "first_page r = end_page l" using True xs by simp
    have l: "end_page l * 4096 \<le> L" "end_page l < first_page l \<Longrightarrow> end_page l * 4096 < L" using ch xs by (auto simp: chained_def)
    have le: "first_page l \<le> end_page l" "first_page r \<le> end_page r"
    proof -
      show "first_page l \<le> end_page l"
      proof (rule ccontr)
        assume "\<not> first_page l \<le> end_page l"
        then have "end_page l * 4096 < a" using l a(1) by simp
        then show False using eq Sr by linarith
      qed
      have "a \<le> end_page l * 4096" using eq Sr by linarith
      then have "a = end_page l * 4096" using l(1) a(1) by simp
      then show "first_page r \<le> end_page r" using Sr Er a(2) eq by linarith
    qed
    let ?l = "l\<lparr>pm_end := pm_end r\<rparr>"
    have res: "add_range_list r xs = ys @ [?l]" using True xs by (simp add: add_range_list_def)
    have "first_page ?l \<le> p \<and> p < end_page ?l \<longleftrightarrow> first_page l \<le> p \<and> p < end_page l \<or> first_page r \<le> p \<and> p < end_page r" for p
      using le eq by auto
    then have "\<forall>p. in_pages (ys @ [?l]) p \<longleftrightarrow> in_pages xs p \<or> a \<le> p * 4096 \<and> (p + 1) * 4096 \<le> b"
      using r_in by (simp add: in_pages_def xs) blast
    moreover have "chained b (ys @ [?l])"
      using ch old [unfolded xs] r_ok le(2) eq order.trans [OF le(1), of "end_page r"] not_le
      by (auto simp: chained_def sorted_wrt_append xs)
    ultimately show ?thesis by (simp add: res)
  qed
qed

text \<open>The byte range that is left of an entry, and the whole pages inside a range.\<close>

definition usable_range :: "e820_entry_t \<Rightarrow> (u64 \<times> u64) option" where
  "usable_range e = (if usable_type (ent_type e) then trim_reserved (ent_addr e) (ent_end e) else None)"

definition whole_page :: "u64 \<times> u64 \<Rightarrow> nat \<Rightarrow> bool" where
  "whole_page r p \<longleftrightarrow> unat (fst r) \<le> p * 4096 \<and> (p + 1) * 4096 \<le> unat (snd r)"

definition usable_page :: "e820_entry_t list \<Rightarrow> nat \<Rightarrow> bool" where
  "usable_page es p \<longleftrightarrow> (\<exists>e \<in> set es. \<exists>r. usable_range e = Some r \<and> whole_page r p)"

text \<open>Entries that end below the last page of the address space: rounding a start up does not wrap.\<close>

definition below_top :: "e820_entry_t \<Rightarrow> bool" where
  "below_top e \<longleftrightarrow> unat (ent_end e) < 2 ^ 64 - 4096"

lemma page_range_bounds:
  assumes "unat a < 2 ^ 64 - 4096"
  shows "first_page (page_range (a, b)) = (unat a + 4095) div 4096" "end_page (page_range (a, b)) = unat b div 4096"
proof -
  have "a + PAGE_SIZE - 1 = a + 0xFFF" by simp
  moreover have "unat (a + 0xFFF) = unat a + 4095"
    using assms by (simp add: unat_word_ariths)
  ultimately show "first_page (page_range (a, b)) = (unat a + 4095) div 4096"
    unfolding page_range_def by (simp only: pm_map_t.simps fst_conv unat_drop_bit_eq) (simp add: drop_bit_eq_div)
  show "end_page (page_range (a, b)) = unat b div 4096"
    unfolding page_range_def by (simp only: pm_map_t.simps snd_conv unat_drop_bit_eq) (simp add: drop_bit_eq_div)
qed

lemma trim_bounds:
  assumes "trim_reserved s e = Some (a, b)" "s \<le> e"
  shows "s \<le> a \<and> a \<le> b \<and> b \<le> e"
  using assms by (auto simp: trim_reserved_def RESERVED_MEM_START_def RESERVED_MEM_END_def not_less split: if_splits)

lemma init_step_live:
  assumes "pm_map_size s < length (pm_map s)"
  shows "live_map (init_step e s) =
      (case usable_range e of None \<Rightarrow> live_map s | Some r \<Rightarrow> add_range_list (page_range r) (live_map s)) \<and>
    length (pm_map (init_step e s)) = length (pm_map s) \<and>
    pm_map_size (init_step e s) \<le> Suc (pm_map_size s) \<and>
    num_pm_pages (init_step e s) = num_pm_pages s +
      (case usable_range e of None \<Rightarrow> 0 | Some r \<Rightarrow> pm_end (page_range r) - pm_start (page_range r))"
  using add_range_live [OF assms]
  by (auto simp: init_step_def usable_range_def split: option.split)

lemma chained_weaken: "chained L xs \<Longrightarrow> L \<le> M \<Longrightarrow> chained M xs"
  by (force simp: chained_def)

lemma init_step_correct:
  assumes room: "pm_map_size s < length (pm_map s)"
    and ch: "chained L (live_map s)"
    and e: "L \<le> unat (ent_addr e)" "ent_addr e < ent_end e" "below_top e"
  shows "chained (unat (ent_end e)) (live_map (init_step e s)) \<and>
    (\<forall>p. in_pages (live_map (init_step e s)) p \<longleftrightarrow> in_pages (live_map s) p \<or> usable_page [e] p)"
proof (cases "usable_range e")
  case None
  have "L \<le> unat (ent_end e)" using e by (simp add: word_less_nat_alt)
  then show ?thesis
    using None init_step_live [OF room, of e] chained_weaken [OF ch] by (simp add: usable_page_def)
next
  case (Some r)
  obtain a b where r: "r = (a, b)" by fastforce
  have tr: "trim_reserved (ent_addr e) (ent_end e) = Some (a, b)"
    using Some r by (simp add: usable_range_def split: if_splits)
  have b: "ent_addr e \<le> a" "a \<le> b" "b \<le> ent_end e"
    using trim_bounds [OF tr] e(2) by simp_all
  have a: "unat a < 2 ^ 64 - 4096" using b e(3) by (simp add: below_top_def word_le_nat_alt)
  have live: "live_map (init_step e s) = add_range_list (page_range (a, b)) (live_map s)"
    using init_step_live [OF room, of e] Some r by simp
  have "chained (unat b) (add_range_list (page_range (a, b)) (live_map s)) \<and>
      (\<forall>p. in_pages (add_range_list (page_range (a, b)) (live_map s)) p \<longleftrightarrow>
         in_pages (live_map s) p \<or> unat a \<le> p * 4096 \<and> (p + 1) * 4096 \<le> unat b)"
    using e(1) b by (intro add_range_list_correct [OF ch _ _ page_range_bounds [OF a]])
      (simp_all add: word_le_nat_alt)
  then show ?thesis
    using b(3) chained_weaken Some r unfolding live
    by (auto simp: usable_page_def whole_page_def word_le_nat_alt)
qed

lemma fold_init_correct:
  assumes "pm_map_size s + length es \<le> length (pm_map s)" "chained L (live_map s)"
    and "separated es" "\<forall>e \<in> set es. L \<le> unat (ent_addr e)" "\<forall>e \<in> set es. below_top e"
  shows "(\<exists>M. chained M (live_map (fold init_step es s))) \<and>
    length (pm_map (fold init_step es s)) = length (pm_map s) \<and>
    pm_map_size (fold init_step es s) \<le> pm_map_size s + length es \<and>
    (\<forall>p. in_pages (live_map (fold init_step es s)) p \<longleftrightarrow> in_pages (live_map s) p \<or> usable_page es p)"
  using assms
proof (induction es arbitrary: s L)
  case Nil
  then show ?case by (auto simp: usable_page_def)
next
  case (Cons e es)
  let ?s = "init_step e s"
  have room: "pm_map_size s < length (pm_map s)" using Cons.prems(1) by simp
  have e: "L \<le> unat (ent_addr e)" "ent_addr e < ent_end e" "below_top e"
    using Cons.prems by (auto simp: separated_def)
  note step = init_step_correct [OF room Cons.prems(2) e] and sizes = init_step_live [OF room, of e]
  have "\<forall>f \<in> set es. unat (ent_end e) \<le> unat (ent_addr f)"
    using Cons.prems(3) by (auto simp: separated_def word_le_nat_alt)
  then have "(\<exists>M. chained M (live_map (fold init_step es ?s))) \<and>
    length (pm_map (fold init_step es ?s)) = length (pm_map ?s) \<and>
    pm_map_size (fold init_step es ?s) \<le> pm_map_size ?s + length es \<and>
    (\<forall>p. in_pages (live_map (fold init_step es ?s)) p \<longleftrightarrow> in_pages (live_map ?s) p \<or> usable_page es p)"
    using Cons.prems step sizes by (intro Cons.IH [of _ "unat (ent_end e)"]) (auto simp: separated_def)
  then show ?case
    using step sizes by (auto simp: usable_page_def)
qed

section \<open>Sorting the map\<close>

lemma sift_down_length [simp]: "length (sift_down c j m) = length m"
  by (induction c j m rule: sift_down.induct) auto

lemma sift_down_correct:
  assumes "j < length m"
  shows "mset (take (Suc j) (sift_down c j m)) = add_mset c (mset (take j m)) \<and>
    drop (Suc j) (sift_down c j m) = drop (Suc j) m \<and>
    (sorted (map pm_start (take j m)) \<longrightarrow> sorted (map pm_start (take (Suc j) (sift_down c j m))))"
  using assms
proof (induction c j m rule: sift_down.induct)
  case (1 c m)
  then show ?case by (cases m) auto
next
  case (2 c j m)
  show ?case
  proof (cases "pm_start (m ! j) > pm_start c")
    case True
    let ?m = "m[Suc j := m ! j]"
    let ?r = "sift_down c j ?m"
    have IH: "mset (take (Suc j) ?r) = add_mset c (mset (take j ?m))" "drop (Suc j) ?r = drop (Suc j) ?m"
      "sorted (map pm_start (take j ?m)) \<Longrightarrow> sorted (map pm_start (take (Suc j) ?r))"
      using 2 True by auto
    have "?r ! Suc j = m ! j"
      using IH(2) 2(2) by (metis hd_drop_conv_nth length_list_update nth_list_update_eq sift_down_length)
    then have tk: "take (Suc (Suc j)) ?r = take (Suc j) ?r @ [m ! j]"
      using 2(2) by (simp add: take_Suc_conv_app_nth [of "Suc j"])
    have tkm: "take (Suc j) m = take j m @ [m ! j]"
      using 2(2) by (simp add: take_Suc_conv_app_nth)
    have "drop (Suc (Suc j)) ?r = drop (Suc (Suc j)) m"
      using IH(2) by (metis drop_Suc drop_update_cancel lessI tl_drop)
    moreover have "sorted (map pm_start (take (Suc (Suc j)) ?r))" if so: "sorted (map pm_start (take (Suc j) m))"
    proof -
      have "\<forall>x \<in> set (take j m). pm_start x \<le> pm_start (m ! j)" and sj: "sorted (map pm_start (take j m))"
        using so by (auto simp: tkm sorted_append)
      moreover have "set (take (Suc j) ?r) = insert c (set (take j m))"
        using IH(1) by (metis take_update_cancel order_refl le_SucI set_mset_add_mset_insert set_mset_mset)
      ultimately show ?thesis
        using IH(3) True unfolding tk by (auto simp: sorted_append)
    qed
    ultimately show ?thesis using True IH(1) by (simp add: tk tkm)
  next
    case False
    have tkm: "take (Suc j) m = take j m @ [m ! j]" "take (Suc (Suc j)) (m[Suc j := c]) = take j m @ [m ! j, c]"
      using 2(2) by (simp_all add: take_Suc_conv_app_nth)
    have "sorted (map pm_start (take j m @ [m ! j, c]))" if "sorted (map pm_start (take j m @ [m ! j]))"
      using that False by (auto simp: sorted_append)
    then show ?thesis using False tkm by simp
  qed
qed

lemma sort_pm_map_correct:
  assumes "pm_map_size s \<le> length (pm_map s)"
  shows "mset (live_map (sort_pm_map s)) = mset (live_map s) \<and>
    sorted (map pm_start (live_map (sort_pm_map s))) \<and> pm_map_size (sort_pm_map s) = pm_map_size s \<and>
    num_pm_pages (sort_pm_map s) = num_pm_pages s \<and> length (pm_map (sort_pm_map s)) = length (pm_map s)"
proof -
  define f where "f = (\<lambda>i m. sift_down (m ! i) i m)"
  have "length (fold f [1..<k] m) = length m \<and> drop k (fold f [1..<k] m) = drop k m \<and>
      mset (take k (fold f [1..<k] m)) = mset (take k m) \<and> sorted (map pm_start (take k (fold f [1..<k] m)))"
    if "k \<le> length m" for k m
    using that
  proof (induction k)
    case 0
    then show ?case by simp
  next
    case (Suc k)
    show ?case
    proof (cases k)
      case 0
      then show ?thesis using Suc.prems by (cases m) auto
    next
      case (Suc k')
      let ?m = "fold f [1..<k] m"
      have IH: "length ?m = length m" "drop k ?m = drop k m" "mset (take k ?m) = mset (take k m)"
        "sorted (map pm_start (take k ?m))"
        using Suc.IH Suc.prems by auto
      have k: "k < length m" using Suc.prems by simp
      have kth: "?m ! k = m ! k" using IH(1,2) k by (metis hd_drop_conv_nth)
      have step: "fold f [1..<Suc k] m = sift_down (m ! k) k ?m"
      proof -
        have "[1..<Suc k] = [1..<k] @ [k]" using Suc by (intro upt_Suc_append) simp
        moreover have "f k x = sift_down (x ! k) k x" for x by (simp add: f_def)
        ultimately show ?thesis by (simp only: fold_append fold_simps comp_apply kth)
      qed
      have "drop (Suc k) ?m = drop (Suc k) m" using IH(2) by (metis drop_Suc tl_drop)
      then show ?thesis
        using sift_down_correct [of k ?m "m ! k"] IH k unfolding step
        by (simp add: take_Suc_conv_app_nth)
    qed
  qed
  from this [OF assms] show ?thesis
    by (simp add: sort_pm_map_def live_map_def f_def)
qed

lemma sift_down_in_place:
  assumes "j < length m" "sorted (map pm_start (take (Suc j) m))"
  shows "sift_down (m ! j) j m = m"
proof (cases j)
  case (Suc k)
  then have "pm_start (m ! k) \<le> pm_start (m ! j)"
    using assms sorted_nth_mono [OF assms(2), of k j] by simp
  then have "\<not> pm_start (m ! j) < pm_start (m ! k)" by simp
  then show ?thesis using Suc by simp
qed simp

lemma sort_pm_map_sorted:
  assumes "pm_map_size s \<le> length (pm_map s)" "sorted (map pm_start (live_map s))"
  shows "sort_pm_map s = s"
proof -
  define f where "f = (\<lambda>i m. sift_down (m ! i) i m)"
  have "fold f [1..<k] (pm_map s) = pm_map s" if "k \<le> pm_map_size s" for k
    using that
  proof (induction k)
    case (Suc k)
    have "take (Suc k) (map pm_start (live_map s)) = map pm_start (take (Suc k) (pm_map s))"
      using Suc.prems by (simp add: live_map_def take_map min_absorb1)
    then have "sorted (map pm_start (take (Suc k) (pm_map s)))" by (metis assms(2) sorted_wrt_take)
    then have fk: "f k (pm_map s) = pm_map s"
      using Suc.prems assms(1) by (simp add: f_def sift_down_in_place)
    show ?case
    proof (cases "1 \<le> k")
      case True
      then have "[1..<Suc k] = [1..<k] @ [k]" by (rule upt_Suc_append)
      then show ?thesis using Suc fk by simp
    qed simp
  qed simp
  from this [of "pm_map_size s"] show ?thesis by (simp add: sort_pm_map_def f_def)
qed

lemma chained_sorted: "chained L xs \<Longrightarrow> sorted (map pm_start xs)"
  by (auto simp: chained_def sorted_map word_le_nat_alt elim: sorted_wrt_mono_rel [rotated])

lemma live_map_cong: "pm_map_size s = pm_map_size t \<Longrightarrow> pm_map s = pm_map t \<Longrightarrow> live_map s = live_map t"
  by (simp add: live_map_def)

lemma init_pm_map_correct:
  assumes "length es \<le> length (pm_map s)" "separated es" "\<forall>e \<in> set es. below_top e"
  shows "(\<exists>M. chained M (live_map (init_pm_map es (length es) s))) \<and>
    length (pm_map (init_pm_map es (length es) s)) = length (pm_map s) \<and>
    pm_map_size (init_pm_map es (length es) s) \<le> length es \<and>
    (\<forall>p. in_pages (live_map (init_pm_map es (length es) s)) p \<longleftrightarrow> usable_page es p)"
proof -
  let ?s = "s\<lparr>pm_map_size := 0\<rparr>"
  have "live_map ?s = []" by (simp add: live_map_def)
  then have "chained 0 (live_map ?s)" by (simp add: chained_def)
  then show ?thesis
    using fold_init_correct [of ?s es 0] assms \<open>live_map ?s = []\<close>
    by (auto simp: init_pm_map_def in_pages_def)
qed

lemma init_pm_map_take: "n \<le> length m \<Longrightarrow> init_pm_map m n s = init_pm_map (take n m) (length (take n m)) s"
  by (simp add: init_pm_map_def)

lemma separated_type_at:
  assumes "separated es" "e \<in> set es" "ent_covers e a"
  shows "type_at es a = ent_type e"
proof -
  have "f = e" if f: "f \<in> set es" "ent_covers f a" for f
  proof (rule ccontr)
    assume ne: "f \<noteq> e"
    obtain i j where ij: "i < length es" "es ! i = e" "j < length es" "es ! j = f"
      using assms(2) f(1) by (auto simp: in_set_conv_nth)
    then have "i < j \<or> j < i" using ne by (metis linorder_neqE_nat)
    then have "ent_end e \<le> ent_addr f \<or> ent_end f \<le> ent_addr e"
      using assms(1) ij sorted_wrt_nth_less [of "\<lambda>e f. ent_end e \<le> ent_addr f" es]
      unfolding separated_def by metis
    then show False using f(2) assms(3) unfolding ent_covers_def by (meson leD le_less_trans order.strict_trans1)
  qed
  then have "{f \<in> set es. ent_covers f a} = {e}" using assms(2,3) by blast
  then show ?thesis by (simp only: type_at_top) (simp add: top_type_def max_def)
qed

lemma usable_page_bytes:
  assumes "separated es" "usable_page es p" "unat a div 4096 = p"
  shows "usable_type (type_at es a)"
proof -
  obtain e r where e: "e \<in> set es" "usable_range e = Some r" "whole_page r p"
    using assms(2) by (auto simp: usable_page_def)
  have tr: "trim_reserved (ent_addr e) (ent_end e) = Some (fst r, snd r)" "usable_type (ent_type e)"
    using e(2) by (simp_all add: usable_range_def split: if_splits)
  have "ent_addr e \<le> ent_end e" using assms(1) e(1) by (auto simp: separated_def intro: less_imp_le)
  then have b: "ent_addr e \<le> fst r" "snd r \<le> ent_end e" using trim_bounds [OF tr(1)] by simp_all
  have "p * 4096 \<le> unat a" "unat a < (p + 1) * 4096"
    using assms(3) div_times_less_eq_dividend [of "unat a" 4096] dividend_less_times_div [of 4096 "unat a"]
    by (simp_all add: algebra_simps)
  then have "unat (fst r) \<le> unat a" "unat a < unat (snd r)"
    using e(3) by (simp_all add: whole_page_def)
  then have "ent_covers e a" using b by (simp add: ent_covers_def word_le_nat_alt word_less_nat_alt)
  then show ?thesis using separated_type_at [OF assms(1) e(1)] tr(2) by simp
qed

text \<open>The entries of the boot map that \<open>pmem_init\<close> looks at.\<close>

definition boot_entries :: "nat \<Rightarrow> e820_entry_t list \<Rightarrow> e820_entry_t list" where
  "boot_entries n boot = take (min n E820_MAP_SIZE) boot"

lemma pmem_init_steps:
  assumes arr: "length arr = E820_MAP_SIZE"
  shows "\<exists>es. separated es \<and> length es \<le> E820_MAP_SIZE \<and>
    (\<forall>a. type_at es a \<noteq> E820_NONE \<longrightarrow> type_at (boot_entries n boot) a = type_at es a) \<and>
    pmem_init arr n boot s = sort_pm_map (init_pm_map es (length es) (s\<lparr>num_pm_pages := 0\<rparr>))"
proof -
  obtain m k where mk: "sanitize_e820_map arr (boot_entries n boot) = (m, k)" by fastforce
  have n: "(if n > E820_MAP_SIZE then E820_MAP_SIZE else n) = min n E820_MAP_SIZE" by simp
  have p: "pmem_init arr n boot s = sort_pm_map (init_pm_map m k (s\<lparr>num_pm_pages := 0\<rparr>))"
    using mk by (simp only: pmem_init_def n Let_def boot_entries_def split: prod.split) simp
  show ?thesis
  proof (cases "unreasonable (boot_entries n boot)")
    case True
    then have "k = 0" using mk by (simp add: sanitize_e820_map_def)
    then show ?thesis using p by (intro exI [of _ "[]"]) (simp add: separated_def type_at_def init_pm_map_def)
  next
    case False
    note res = sanitize_honest [OF arr False mk]
    have "pmem_init arr n boot s = sort_pm_map (init_pm_map (take k m) (length (take k m)) (s\<lparr>num_pm_pages := 0\<rparr>))"
      unfolding p using res init_pm_map_take by metis
    then show ?thesis using res by (intro exI [of _ "take k m"]) auto
  qed
qed

lemma below_top_transfer:
  assumes "separated es" "\<forall>a. type_at es a \<noteq> E820_NONE \<longrightarrow> type_at boot a = type_at es a" "\<forall>e \<in> set boot. below_top e"
  shows "\<forall>e \<in> set es. below_top e"
proof
  fix e
  assume e: "e \<in> set es"
  let ?a = "ent_end e - 1"
  have ne: "ent_addr e < ent_end e" "ent_type e \<noteq> E820_NONE" using assms(1) e by (auto simp: separated_def)
  then have a: "unat ?a = unat (ent_end e) - 1" "0 < unat (ent_end e)"
    using unat_pred [of "ent_end e"] by (simp_all add: word_less_nat_alt)
  then have "ent_covers e ?a"
    using ne(1) by (simp add: ent_covers_def word_le_nat_alt word_less_nat_alt)
  then have "type_at boot ?a \<noteq> E820_NONE"
    using assms(2) separated_type_at [OF assms(1) e] ne(2) by simp
  then have "{f \<in> set boot. ent_covers f ?a} \<noteq> {}" by (metis image_empty top_type_empty type_at_top)
  then obtain f where "f \<in> set boot" "ent_covers f ?a" by blast
  then show "below_top e"
    using a assms(3) by (force simp: below_top_def ent_covers_def word_less_nat_alt)
qed

section \<open>The page count\<close>

definition no_fragment :: "e820_entry_t \<Rightarrow> bool" where
  "no_fragment e \<longleftrightarrow> (\<forall>r. usable_range e = Some r \<longrightarrow> first_page (page_range r) \<le> end_page (page_range r))"

definition total_pages :: "pm_map_t list \<Rightarrow> nat" where
  "total_pages xs = sum_list (map (\<lambda>r. end_page r - first_page r) xs)"

lemma total_pages_le:
  assumes "sorted_wrt (\<lambda>r q. end_page r \<le> first_page q) xs" "\<forall>r \<in> set xs. first_page r \<le> end_page r \<and> end_page r \<le> M"
  shows "total_pages xs \<le> M"
  using assms
proof (induction xs arbitrary: M rule: rev_induct)
  case Nil
  then show ?case by (simp add: total_pages_def)
next
  case (snoc r xs)
  then have "total_pages xs \<le> first_page r" by (intro snoc.IH) (auto simp: sorted_wrt_append)
  moreover have "first_page r \<le> end_page r" "end_page r \<le> M" using snoc.prems by simp_all
  ultimately show ?case by (simp add: total_pages_def)
qed

lemma page_width:
  assumes "first_page r \<le> end_page r"
  shows "pm_end r - pm_start r = of_nat (end_page r - first_page r)"
  using assms by (simp add: of_nat_diff)

lemma add_range_list_pages:
  assumes "\<forall>q \<in> set xs. first_page q \<le> end_page q" "first_page r \<le> end_page r"
  shows "total_pages (add_range_list r xs) = total_pages xs + (end_page r - first_page r) \<and>
    (\<forall>q \<in> set (add_range_list r xs). first_page q \<le> end_page q)"
proof (cases "xs \<noteq> [] \<and> pm_start r = pm_end (last xs)")
  case True
  then obtain ys l where xs: "xs = ys @ [l]" by (cases xs rule: rev_cases) auto
  then have "end_page l = first_page r" "first_page l \<le> end_page l" using True assms(1) by auto
  then show ?thesis using True assms xs by (auto simp: add_range_list_def total_pages_def)
next
  case False
  then have "add_range_list r xs = xs @ [r]" by (auto simp: add_range_list_def)
  then show ?thesis using assms by (auto simp: total_pages_def)
qed

lemma fold_init_pages:
  assumes "pm_map_size s + length es \<le> length (pm_map s)" "\<forall>q \<in> set (live_map s). first_page q \<le> end_page q"
    and "\<forall>e \<in> set es. no_fragment e" "num_pm_pages s = of_nat (total_pages (live_map s))"
  shows "num_pm_pages (fold init_step es s) = of_nat (total_pages (live_map (fold init_step es s))) \<and>
    (\<forall>q \<in> set (live_map (fold init_step es s)). first_page q \<le> end_page q)"
  using assms
proof (induction es arbitrary: s)
  case (Cons e es)
  let ?s = "init_step e s"
  have room: "pm_map_size s < length (pm_map s)" using Cons.prems(1) by simp
  note step = init_step_live [OF room, of e]
  have "num_pm_pages ?s = of_nat (total_pages (live_map ?s)) \<and> (\<forall>q \<in> set (live_map ?s). first_page q \<le> end_page q)"
  proof (cases "usable_range e")
    case None
    then show ?thesis using step Cons.prems by simp
  next
    case (Some r)
    then have "first_page (page_range r) \<le> end_page (page_range r)" using Cons.prems(3) unfolding no_fragment_def by (meson list.set_intros(1))
    note pages = add_range_list_pages [OF Cons.prems(2) this]
    have "num_pm_pages ?s = of_nat (total_pages (live_map s)) + of_nat (end_page (page_range r) - first_page (page_range r))"
      using step Cons.prems(4) Some page_width [OF \<open>first_page (page_range r) \<le> end_page (page_range r)\<close>] by simp
    also have "\<dots> = of_nat (total_pages (live_map ?s))"
      using step Some pages by (simp only: option.case of_nat_add)
    finally show ?thesis using step Some pages by simp
  qed
  then have "num_pm_pages (fold init_step es ?s) = of_nat (total_pages (live_map (fold init_step es ?s))) \<and>
    (\<forall>q \<in> set (live_map (fold init_step es ?s)). first_page q \<le> end_page q)"
    using Cons.prems step by (intro Cons.IH) simp_all
  then show ?case by simp
qed simp

lemma chained_pages_bound:
  assumes "chained L xs" "\<forall>r \<in> set xs. first_page r \<le> end_page r"
  shows "total_pages xs < 2 ^ 64"
proof -
  have "end_page r \<le> 2 ^ 64 - 1" for r using unat_u64_less [of "pm_end r"] by simp
  then have "total_pages xs \<le> 2 ^ 64 - 1"
    using assms by (intro total_pages_le) (auto simp: chained_def elim: sorted_wrt_mono_rel [rotated])
  then show ?thesis by simp
qed

lemma init_pm_map_counts:
  assumes "length es \<le> length (pm_map s)" "separated es" "\<forall>e \<in> set es. below_top e"
    and "\<forall>e \<in> set es. no_fragment e" "num_pm_pages s = 0"
  shows "unat (num_pm_pages (init_pm_map es (length es) s)) = total_pages (live_map (init_pm_map es (length es) s))"
proof -
  let ?s = "s\<lparr>pm_map_size := 0\<rparr>" and ?t = "init_pm_map es (length es) s"
  have empty: "live_map ?s = []" by (simp add: live_map_def)
  then have t: "num_pm_pages ?t = of_nat (total_pages (live_map ?t)) \<and> (\<forall>q \<in> set (live_map ?t). first_page q \<le> end_page q)"
    using fold_init_pages [of ?s es] assms by (simp add: init_pm_map_def total_pages_def)
  obtain M where "chained M (live_map ?t)" using init_pm_map_correct [OF assms(1-3)] by blast
  then show ?thesis using chained_pages_bound t by (simp add: unat_of_nat_small)
qed

lemma pmem_init_map:
  assumes "length arr = E820_MAP_SIZE" "length (pm_map s) = MAX_MEM_SEGMENTS" "\<forall>e \<in> set (boot_entries n boot). below_top e"
  shows "\<exists>es M. separated es \<and> (\<forall>a. type_at es a \<noteq> E820_NONE \<longrightarrow> type_at (boot_entries n boot) a = type_at es a) \<and>
    chained M (live_map (pmem_init arr n boot s)) \<and>
    (\<forall>p. in_pages (live_map (pmem_init arr n boot s)) p \<longleftrightarrow> usable_page es p)"
proof -
  obtain es where es: "separated es" "length es \<le> E820_MAP_SIZE"
    "\<forall>a. type_at es a \<noteq> E820_NONE \<longrightarrow> type_at (boot_entries n boot) a = type_at es a"
    "pmem_init arr n boot s = sort_pm_map (init_pm_map es (length es) (s\<lparr>num_pm_pages := 0\<rparr>))"
    using pmem_init_steps [OF assms(1)] by blast
  let ?t = "init_pm_map es (length es) (s\<lparr>num_pm_pages := 0\<rparr>)"
  have len: "length es \<le> length (pm_map (s\<lparr>num_pm_pages := 0\<rparr>))"
    using es(2) assms(2) by (simp add: E820_MAP_SIZE_def MAX_MEM_SEGMENTS_def)
  note init = init_pm_map_correct [OF len es(1) below_top_transfer [OF es(1,3) assms(3)]]
  then obtain M where M: "chained M (live_map ?t)" by blast
  have same: "pmem_init arr n boot s = ?t"
    unfolding es(4) using init len chained_sorted [OF M] by (intro sort_pm_map_sorted) simp_all
  show ?thesis using es(1,3) M init unfolding same by blast
qed

section \<open>Properties\<close>

definition example_map :: "e820_entry_t list" where
  "example_map = [\<lparr>ent_addr = 0x100000, ent_size = 0x300000, ent_type = E820_RAM\<rparr>,
     \<lparr>ent_addr = 0x200000, ent_size = 0x1000, ent_type = E820_RESERVED\<rparr>]"

definition empty_array :: "e820_entry_t list" where
  "empty_array = replicate E820_MAP_SIZE \<lparr>ent_addr = 0, ent_size = 0, ent_type = E820_NONE\<rparr>"

definition pm_boot :: pm_state where
  "pm_boot = \<lparr>pm_map = replicate MAX_MEM_SEGMENTS \<lparr>pm_start = 0, pm_end = 0\<rparr>, pm_map_size = 0, num_pm_pages = 0\<rparr>"

lemma example_map_sane: "\<not> unreasonable example_map" "length example_map = 2"
  by (simp_all add: unreasonable_def example_map_def ent_end_def)

lemma start_sizes: "length empty_array = E820_MAP_SIZE" "length (pm_map pm_boot) = MAX_MEM_SEGMENTS"
  by (simp_all add: empty_array_def pm_boot_def)

text \<open>
  C25: The sweep of \<open>sanitize_e820_map\<close>, for every map that fits its arrays (up to 128 entries, overlapping in any way). A map
  with an entry that wraps around is refused: the new map is empty. Otherwise the new map is sorted, free of overlaps
  and of empty entries, and gives every address the largest type that the original entries give it; when it fills the
  table this holds up to the end of its last entry, and with fewer than 64 entries it cannot fill it.
\<close>
theorem sanitize_keeps_types:
  assumes "length arr = E820_MAP_SIZE" "length orig \<le> E820_MAP_SIZE" "sanitize_e820_map arr orig = (m, n)"
  shows "if unreasonable orig then n = 0
    else n \<le> E820_MAP_SIZE \<and> n \<le> length m \<and> separated (take n m) \<and>
      (\<forall>a. n < E820_MAP_SIZE \<or> a < ent_end (last (take n m)) \<longrightarrow> type_at (take n m) a = type_at orig a) \<and>
      (length orig < 64 \<longrightarrow> n < E820_MAP_SIZE)"
proof (cases "unreasonable orig")
  case True
  then show ?thesis using assms(3) by (simp add: sanitize_e820_map_def)
next
  case False
  then show ?thesis
    using sanitize_honest [OF assms(1) False assms(3)] sanitize_correct [OF assms(1) False assms(3)]
      sanitize_full [OF assms(1) False assms(3)] sanitize_room [OF _ assms(3)] by force
qed

theorem sanitize_keeps_types_witness:
  "\<exists>m n. sanitize_e820_map empty_array example_map = (m, n) \<and> type_at (take n m) 0x200800 = E820_RESERVED"
proof -
  obtain m n where mn: "sanitize_e820_map empty_array example_map = (m, n)" by fastforce
  then have "type_at (take n m) 0x200800 = type_at example_map 0x200800"
    using sanitize_keeps_types [of empty_array example_map m n] example_map_sane start_sizes by (simp add: E820_MAP_SIZE_def)
  also have "\<dots> = E820_RESERVED"
    by (simp add: type_at_def example_map_def ent_covers_def ent_end_def E820_NONE_def E820_RAM_def E820_RESERVED_def)
  finally show ?thesis using mn by blast
qed

text \<open>
  The loop that exchanges neighbouring change points until nothing moves ends, and leaves a permutation in
  ascending order, starts before ends at the same address.
\<close>
theorem change_points_sorted:
  "mset (sort_change_points xs) = mset xs \<and>
   sorted_wrt (\<lambda>x y. \<not> goes_before y x) (sort_change_points xs)"
  using sort_change_points_correct [of xs] by (simp add: goes_before_key sorted_map not_less)

text \<open>
  C3: Only usable memory is ever tested: after \<open>pmem_init\<close> on a boot map of any length and content, of which it looks at
  the first 128 entries, every byte of every page of the map has RAM or ACPI type in the boot map, whatever entries
  overlap it, also when the sanitised map fills its table and when the map is refused as unreasonable. The condition is
  that no entry ends in the last page of the 64-bit address space (rounding its start up to a page would wrap around).
\<close>
theorem pmem_init_only_usable:
  assumes "length arr = E820_MAP_SIZE" "length (pm_map s) = MAX_MEM_SEGMENTS" "\<forall>e \<in> set (boot_entries n boot). below_top e"
    and "in_pages (live_map (pmem_init arr n boot s)) (unat a div 4096)"
  shows "usable_type (type_at (boot_entries n boot) a)"
proof -
  obtain es where es: "separated es" "\<forall>a. type_at es a \<noteq> E820_NONE \<longrightarrow> type_at (boot_entries n boot) a = type_at es a"
      "usable_page es (unat a div 4096)"
    using pmem_init_map [OF assms(1-3)] assms(4) by blast
  have "usable_type (type_at es a)" by (rule usable_page_bytes [OF es(1,3) refl])
  then show ?thesis using es(2) by (auto simp: usable_type_def E820_RAM_def E820_ACPI_def E820_NONE_def)
qed

theorem pmem_init_only_usable_witness:
  "\<not> in_pages (live_map (pmem_init empty_array 2 example_map pm_boot)) 0x200"
proof
  assume "in_pages (live_map (pmem_init empty_array 2 example_map pm_boot)) 0x200"
  then have "usable_type (type_at (boot_entries 2 example_map) 0x200000)"
    using start_sizes
    by (intro pmem_init_only_usable [of empty_array pm_boot 2])
      (auto simp: below_top_def example_map_def ent_end_def boot_entries_def E820_MAP_SIZE_def)
  then show False
    by (simp add: boot_entries_def E820_MAP_SIZE_def type_at_def example_map_def ent_covers_def ent_end_def E820_NONE_def E820_RAM_def E820_RESERVED_def
        E820_ACPI_def usable_type_def)
qed

text \<open>
  After \<open>pmem_init\<close> the map is in ascending order and no entry reaches into a later one: the order that
  \<open>heap_init\<close> and \<open>setup_vm_map\<close> rely on when they walk it.
\<close>
theorem pmem_init_ordered:
  assumes "length arr = E820_MAP_SIZE" "length (pm_map s) = MAX_MEM_SEGMENTS" "\<forall>e \<in> set (boot_entries n boot). below_top e"
  shows "sorted_wrt (\<lambda>r q. pm_start r \<le> pm_start q \<and> pm_end r \<le> pm_start q) (live_map (pmem_init arr n boot s))"
proof -
  obtain M where "chained M (live_map (pmem_init arr n boot s))"
    using pmem_init_map [OF assms] by blast
  then show ?thesis
    by (auto simp: chained_def word_le_nat_alt elim: sorted_wrt_mono_rel [rotated])
qed

theorem pmem_init_ordered_witness:
  "sorted_wrt (\<lambda>r q. pm_start r \<le> pm_start q \<and> pm_end r \<le> pm_start q)
     (live_map (pmem_init empty_array 2 example_map pm_boot))"
  using start_sizes
  by (intro pmem_init_ordered) (auto simp: below_top_def example_map_def ent_end_def boot_entries_def E820_MAP_SIZE_def)

text \<open>
  \<open>init_pm_map\<close> keeps exactly the whole pages of the trimmed usable entries, joining neighbours, for any sorted list
  of entries without overlaps that fits \<open>pm_map\<close> and of which none ends in the last page of the 64-bit space. And
  \<open>num_pm_pages\<close> is their number, if besides no usable entry is a fragment strictly inside one page: such an entry adds
  no page but takes one off the count (see \<open>fragment_count_wraps\<close>).
\<close>
theorem init_pm_map_pages:
  assumes "length es \<le> length (pm_map s)" "separated es" "\<forall>e \<in> set es. below_top e"
  shows "(\<forall>p. in_pages (live_map (init_pm_map es (length es) s)) p \<longleftrightarrow> usable_page es p) \<and>
    ((\<forall>e \<in> set es. no_fragment e) \<and> num_pm_pages s = 0 \<longrightarrow>
      unat (num_pm_pages (init_pm_map es (length es) s)) = total_pages (live_map (init_pm_map es (length es) s)))"
  using init_pm_map_correct [OF assms(1-3)] init_pm_map_counts [OF assms(1-3)] by blast

theorem init_pm_map_pages_witness:
  "unat (num_pm_pages (init_pm_map [\<lparr>ent_addr = 0x1000, ent_size = 0x2000, ent_type = E820_RAM\<rparr>] 1 pm_boot)) = 2"
proof -
  let ?es = "[\<lparr>ent_addr = 0x1000, ent_size = 0x2000, ent_type = E820_RAM\<rparr>]"
  have "\<forall>e \<in> set ?es. no_fragment e"
    by (auto simp: no_fragment_def usable_range_def usable_type_def trim_reserved_def ent_end_def page_range_def
        RESERVED_MEM_START_def RESERVED_MEM_END_def)
  then have "unat (num_pm_pages (init_pm_map ?es (length ?es) pm_boot)) = total_pages (live_map (init_pm_map ?es (length ?es) pm_boot))"
    by (intro init_pm_map_pages [THEN conjunct2, THEN mp])
      (auto simp: pm_boot_def MAX_MEM_SEGMENTS_def separated_def below_top_def ent_end_def E820_RAM_def E820_NONE_def)
  also have "\<dots> = 2"
    by code_simp
  finally show ?thesis by simp
qed

text \<open>
  With such a fragment the count fails: a usable entry inside one page becomes a range that ends before it starts,
  and the page count drops by one (here below zero).
\<close>
lemma fragment_count_wraps:
  "let s = init_pm_map [\<lparr>ent_addr = 0x1100, ent_size = 0x200, ent_type = E820_RAM\<rparr>] 1 pm_boot
   in num_pm_pages s = - 1 \<and> live_map s = [\<lparr>pm_start = 2, pm_end = 1\<rparr>]"
  by code_simp

text \<open>An entry that spans the reserved range is kept whole: page 0xA0 (640 KB) is in the map.\<close>

lemma spanning_entry_keeps_reserved:
  "in_pages (live_map (init_pm_map [\<lparr>ent_addr = 0, ent_size = 0x200000, ent_type = E820_RAM\<rparr>] 1 pm_boot)) 0xA0"
  by code_simp

end
