(* ===== verification/Heap.thy ===== *)
theory Heap
  imports Pmem_Map
begin

text \<open>
  \<open>system/heap.c\<close>: two heaps that hand out pages from the top of a segment of the physical memory map, by
  moving the end of that segment down. The heaps are a function of the heap type, the place of the program
  (the linker symbols \<open>_start\<close> and \<open>_end\<close>) is an argument of \<open>heap_init\<close>. A segment number is an \<open>int\<close>, -1
  for a heap without one.
\<close>

section \<open>Model\<close>

datatype heap_type_t = HEAP_TYPE_LM_1 | HEAP_TYPE_HM_1

record heap_t =
  h_segment :: int
  h_start :: u64
  h_end :: u64

record heap_state =
  heap_pm :: pm_state
  heaps :: "heap_type_t \<Rightarrow> heap_t"

definition no_heap :: heap_t where
  "no_heap = \<lparr>h_segment = - 1, h_start = 0, h_end = 0\<rparr>"

definition heaps_start :: "heap_type_t \<Rightarrow> heap_t" where
  "heaps_start = (\<lambda>_. no_heap)"

definition num_pages :: "u64 \<Rightarrow> u64" where
  "num_pages sz = drop_bit PAGE_SHIFT (sz + PAGE_SIZE - 1)"

definition segment_end :: "heap_state \<Rightarrow> heap_type_t \<Rightarrow> u64" where
  "segment_end s h = pm_end (pm_map (heap_pm s) ! nat (h_segment (heaps s h)))"

definition set_segment_end :: "heap_type_t \<Rightarrow> u64 \<Rightarrow> heap_state \<Rightarrow> heap_state" where
  "set_segment_end h e s =
     (let i = nat (h_segment (heaps s h)); m = pm_map (heap_pm s)
      in s\<lparr>heap_pm := (heap_pm s)\<lparr>pm_map := m[i := (m ! i)\<lparr>pm_end := e\<rparr>]\<rparr>\<rparr>)"

definition alloc_addr :: "heap_state \<Rightarrow> heap_type_t \<Rightarrow> u64 \<Rightarrow> u64 \<Rightarrow> u64" where
  "alloc_addr s h sz alignment =
     (segment_end s h - num_pages sz) AND NOT (drop_bit PAGE_SHIFT (alignment - 1))"

definition heap_alloc :: "heap_type_t \<Rightarrow> u64 \<Rightarrow> u64 \<Rightarrow> heap_state \<Rightarrow> u64 \<times> heap_state" where
  "heap_alloc h sz alignment s =
     (if h_segment (heaps s h) < 0 then (0, s)
      else let addr = alloc_addr s h sz alignment
           in if addr < h_start (heaps s h) then (0, s)
              else (push_bit PAGE_SHIFT addr, set_segment_end h addr s))"

definition heap_mark :: "heap_type_t \<Rightarrow> heap_state \<Rightarrow> u64" where
  "heap_mark h s = (if h_segment (heaps s h) < 0 then 0 else segment_end s h)"

definition heap_rewind :: "heap_type_t \<Rightarrow> u64 \<Rightarrow> heap_state \<Rightarrow> heap_state" where
  "heap_rewind h mark s =
     (if h_segment (heaps s h) \<ge> 0 \<and> mark > segment_end s h \<and> mark \<le> h_end (heaps s h)
      then set_segment_end h mark s else s)"

text \<open>
  \<open>heap_init\<close> of the x86 builds. The scan state is the heaps and \<open>max_segment_size\<close>; the loop ends at the first
  segment that reaches above the heap limit.
\<close>

definition low_memory_heap :: u64 where "low_memory_heap = PAGE_C 1 MB"
definition heap_limit :: u64 where "heap_limit = PAGE_C 4 GB"

lemma heap_limits [pow2_simps]: "low_memory_heap = 0x100" "heap_limit = 0x100000"
  by (simp_all add: low_memory_heap_def heap_limit_def page_counts)

definition try_heap_start :: "u64 \<Rightarrow> u64 \<Rightarrow> pm_map_t \<Rightarrow> u64" where
  "try_heap_start program_start program_end r =
     (if program_start \<ge> pm_start r \<and> program_end \<le> pm_end r then program_end else pm_start r)"

definition scan_segment ::
  "u64 \<Rightarrow> u64 \<Rightarrow> nat \<Rightarrow> pm_map_t \<Rightarrow> (heap_type_t \<Rightarrow> heap_t) \<times> u64 \<Rightarrow> (heap_type_t \<Rightarrow> heap_t) \<times> u64" where
  "scan_segment program_start program_end i r acc =
     (let (hs, max_segment_size) = acc;
          st = try_heap_start program_start program_end r;
          segment_size = pm_end r - st;
          h = \<lparr>h_segment = int i, h_start = st, h_end = pm_end r\<rparr>
      in if segment_size \<ge> max_segment_size
         then ((if pm_end r \<le> low_memory_heap then hs(HEAP_TYPE_LM_1 := h) else hs)(HEAP_TYPE_HM_1 := h), segment_size)
         else (hs, max_segment_size))"

fun scan_heaps ::
  "u64 \<Rightarrow> u64 \<Rightarrow> nat \<Rightarrow> pm_map_t list \<Rightarrow> (heap_type_t \<Rightarrow> heap_t) \<times> u64 \<Rightarrow> (heap_type_t \<Rightarrow> heap_t) \<times> u64" where
  "scan_heaps ps pe i [] acc = acc"
| "scan_heaps ps pe i (r # rs) acc =
     (if pm_end r \<le> heap_limit then scan_heaps ps pe (i + 1) rs (scan_segment ps pe i r acc) else acc)"

definition heap_init :: "u64 \<Rightarrow> u64 \<Rightarrow> heap_state \<Rightarrow> heap_state" where
  "heap_init start_addr end_addr s =
     (let program_start = drop_bit PAGE_SHIFT start_addr;
          program_end = program_start + num_pages (end_addr - start_addr)
      in s\<lparr>heaps := fst (scan_heaps program_start program_end 0 (live_map (heap_pm s)) (heaps s, 0))\<rparr>)"

section \<open>Allocation\<close>

text \<open>A heap that may be used: its segment exists and its free part lies between its bounds.\<close>

definition heap_ok :: "heap_type_t \<Rightarrow> heap_state \<Rightarrow> bool" where
  "heap_ok h s \<longleftrightarrow>
     (h_segment (heaps s h) \<ge> 0 \<longrightarrow>
        nat (h_segment (heaps s h)) < length (pm_map (heap_pm s)) \<and>
        h_start (heaps s h) \<le> segment_end s h \<and> segment_end s h \<le> h_end (heaps s h) \<and>
        unat (h_end (heaps s h)) < 2 ^ 52)"

text \<open>A request whose size does not reach below page 0: the subtraction in \<open>heap_alloc\<close> does not wrap.\<close>

definition request_ok :: "heap_type_t \<Rightarrow> u64 \<Rightarrow> u64 \<Rightarrow> heap_state \<Rightarrow> bool" where
  "request_ok h sz alignment s \<longleftrightarrow>
     (\<exists>k < 64. alignment = 2 ^ k) \<and> unat sz < 2 ^ 64 - 4096 \<and> num_pages sz \<le> segment_end s h"

definition used_pages :: "u64 \<Rightarrow> nat" where
  "used_pages sz = (unat sz + 4095) div 4096"

lemma num_pages_used: "unat sz < 2 ^ 64 - 4096 \<Longrightarrow> unat (num_pages sz) = used_pages sz"
proof -
  assume "unat sz < 2 ^ 64 - 4096"
  then have "unat (sz + 0xFFF) = unat sz + 4095" by (simp add: unat_word_ariths)
  moreover have "sz + PAGE_SIZE - 1 = sz + 0xFFF" by simp
  ultimately show ?thesis
    unfolding num_pages_def used_pages_def by (simp only: unat_drop_bit_eq) (simp add: drop_bit_eq_div)
qed

lemma mask_le: "a AND b \<le> a" for a b :: u64
  by (rule word_and_le2)

lemma set_segment_end_simps [simp]:
  "heaps (set_segment_end h e s) = heaps s"
  "length (pm_map (heap_pm (set_segment_end h e s))) = length (pm_map (heap_pm s))"
  "pm_map_size (heap_pm (set_segment_end h e s)) = pm_map_size (heap_pm s)"
  by (simp_all add: set_segment_end_def Let_def)

lemma segment_end_set:
  "nat (h_segment (heaps s h)) < length (pm_map (heap_pm s)) \<Longrightarrow> segment_end (set_segment_end h e s) h = e"
  by (simp add: segment_end_def set_segment_end_def Let_def)

lemma set_segment_end_twice:
  assumes "nat (h_segment (heaps s h)) < length (pm_map (heap_pm s))"
  shows "set_segment_end h e (set_segment_end h f s) = set_segment_end h e s"
  using assms by (simp add: set_segment_end_def Let_def)

lemma set_segment_end_same:
  "nat (h_segment (heaps s h)) < length (pm_map (heap_pm s)) \<Longrightarrow> set_segment_end h (segment_end s h) s = s"
  by (simp add: set_segment_end_def segment_end_def Let_def)

lemma alignment_mask:
  assumes "k < 64"
  shows "drop_bit PAGE_SHIFT ((2::u64) ^ k - 1) = mask (k - 12)"
proof -
  have "(2::u64) ^ k - 1 = mask k" by (simp add: mask_eq_exp_minus_1)
  then show ?thesis
    using assms by (simp only:) (rule bit_word_eqI, auto simp: bit_simps)
qed

lemma aligned_after_mask:
  fixes a :: u64
  shows "2 ^ k dvd unat (a AND NOT (mask (k - 12))) * 4096"
proof -
  have "take_bit (k - 12) (a AND NOT (mask (k - 12))) = 0"
    by (rule bit_word_eqI) (auto simp: bit_simps)
  then have "take_bit (k - 12) (unat (a AND NOT (mask (k - 12)))) = 0"
    by (metis unat_0 unsigned_take_bit_eq)
  then have "2 ^ (k - 12) dvd unat (a AND NOT (mask (k - 12)))"
    by (simp only: take_bit_eq_mod mod_eq_0_iff_dvd)
  then have "2 ^ (k - 12) * 4096 dvd unat (a AND NOT (mask (k - 12))) * 4096"
    by (rule mult_dvd_mono) simp
  moreover have "(2::nat) ^ k dvd 2 ^ (k - 12) * 2 ^ 12"
    unfolding power_add [symmetric] by (rule le_imp_power_dvd) simp
  ultimately show ?thesis by (simp add: dvd_trans)
qed

text \<open>
  The contract of a heap that moves a top down: \<open>top\<close> and \<open>base\<close> bound its free pages, an allocation takes
  its block from just below the top, a failed one changes nothing, and rewinding to a mark restores the
  state in which the mark was taken.
\<close>

locale descending_heap =
  fixes ok :: "'s \<Rightarrow> bool"
    and base :: "'s \<Rightarrow> u64"
    and top :: "'s \<Rightarrow> u64"
    and limit :: "'s \<Rightarrow> u64"
    and fits :: "'r \<Rightarrow> 's \<Rightarrow> bool"
    and pages :: "'r \<Rightarrow> nat"
    and alloc :: "'r \<Rightarrow> 's \<Rightarrow> u64 option \<times> 's"
    and rewind :: "u64 \<Rightarrow> 's \<Rightarrow> 's"
  assumes alloc_block: "ok s \<Longrightarrow> fits r s \<Longrightarrow> alloc r s = (Some a, s') \<Longrightarrow>
      base s \<le> a \<and> unat a + pages r \<le> unat (top s) \<and> top s' = a \<and> base s' = base s \<and> limit s' = limit s \<and> ok s'"
    and alloc_none: "alloc r s = (None, s') \<Longrightarrow> s' = s"
    and top_limit: "ok s \<Longrightarrow> top s \<le> limit s"
    and rewind_top: "rewind (top s) s = s"
    and rewind_alloc: "ok s \<Longrightarrow> fits r s \<Longrightarrow> alloc r s = (Some a, s') \<Longrightarrow> top s \<le> m \<Longrightarrow> m \<le> limit s \<Longrightarrow>
      rewind m s' = rewind m s"
begin

fun alloc_all :: "'r list \<Rightarrow> 's \<Rightarrow> (u64 \<times> nat) list \<times> 's" where
  "alloc_all [] s = ([], s)"
| "alloc_all (r # rs) s =
     (case alloc r s of
        (Some a, s') \<Rightarrow> apfst (Cons (a, pages r)) (alloc_all rs s')
      | (None, s') \<Rightarrow> alloc_all rs s')"

fun all_fit :: "'r list \<Rightarrow> 's \<Rightarrow> bool" where
  "all_fit [] s \<longleftrightarrow> True"
| "all_fit (r # rs) s \<longleftrightarrow> fits r s \<and> all_fit rs (snd (alloc r s))"

lemma alloc_all_blocks:
  assumes "ok s" "all_fit rs s" "alloc_all rs s = (bs, t)"
  shows "sorted_wrt (\<lambda>(a, n) (b, m). unat b + m \<le> unat a) bs \<and>
    (\<forall>(a, n) \<in> set bs. base s \<le> a \<and> unat a + n \<le> unat (top s)) \<and> ok t"
  using assms
proof (induction rs arbitrary: s bs)
  case (Cons r rs)
  obtain x s' where al: "alloc r s = (x, s')" by fastforce
  show ?case
  proof (cases x)
    case None
    then show ?thesis using Cons al alloc_none [of r s s'] by simp
  next
    case (Some a)
    obtain cs where cs: "alloc_all rs s' = (cs, t)" "bs = (a, pages r) # cs"
      using Cons.prems(3) al Some by (auto simp: apfst_def map_prod_def split: prod.splits)
    have blk: "base s \<le> a" "unat a + pages r \<le> unat (top s)" "top s' = a" "base s' = base s" "ok s'"
      using alloc_block [of s r a s'] Cons.prems al Some by simp_all
    have IH: "sorted_wrt (\<lambda>(a, n) (b, m). unat b + m \<le> unat a) cs"
      "\<forall>(b, n) \<in> set cs. base s \<le> b \<and> unat b + n \<le> unat a" "ok t"
      using Cons.IH [OF blk(5) _ cs(1)] Cons.prems(2) al blk by simp_all
    have "\<forall>(b, n) \<in> set cs. unat b + n \<le> unat (top s)" using IH(2) blk(2) by fastforce
    then show ?thesis using IH blk cs(2) by auto
  qed
qed auto

lemma alloc_all_rewind:
  assumes "ok s" "all_fit rs s" "alloc_all rs s = (bs, t)" "top s \<le> m" "m \<le> limit s"
  shows "rewind m t = rewind m s"
  using assms
proof (induction rs arbitrary: s bs)
  case (Cons r rs)
  obtain x s' where al: "alloc r s = (x, s')" by fastforce
  show ?case
  proof (cases x)
    case None
    then show ?thesis using Cons al alloc_none [of r s s'] by simp
  next
    case (Some a)
    obtain cs where cs: "alloc_all rs s' = (cs, t)"
      using Cons.prems(3) al Some by (auto simp: apfst_def map_prod_def split: prod.splits)
    have blk: "unat a + pages r \<le> unat (top s)" "top s' = a" "limit s' = limit s" "ok s'"
      using alloc_block [of s r a s'] Cons.prems al Some by simp_all
    have "top s' \<le> m" using blk(1,2) Cons.prems(4) by (simp add: word_le_nat_alt)
    then have "rewind m t = rewind m s'"
      using Cons.IH [OF blk(4) _ cs] Cons.prems(2,5) al blk(3) by simp
    then show ?thesis using rewind_alloc [of s r a s' m] Cons.prems al Some by simp
  qed
qed simp

lemma mark_rewind:
  assumes "ok s" "all_fit rs s" "alloc_all rs s = (bs, t)"
  shows "rewind (top s) t = s"
  using alloc_all_rewind [OF assms _ top_limit [OF assms(1)]] rewind_top by simp

end

section \<open>The heaps of the program\<close>

definition alloc_pages :: "heap_type_t \<Rightarrow> u64 \<times> u64 \<Rightarrow> heap_state \<Rightarrow> u64 option \<times> heap_state" where
  "alloc_pages h r s =
     (if h_segment (heaps s h) < 0 \<or> alloc_addr s h (fst r) (snd r) < h_start (heaps s h) then (None, s)
      else (Some (alloc_addr s h (fst r) (snd r)), set_segment_end h (alloc_addr s h (fst r) (snd r)) s))"

lemma heap_alloc_pages:
  "heap_alloc h sz alignment s =
    apfst (\<lambda>x. case x of None \<Rightarrow> 0 | Some a \<Rightarrow> push_bit PAGE_SHIFT a) (alloc_pages h (sz, alignment) s)"
  by (simp add: heap_alloc_def alloc_pages_def Let_def)

definition heap_top :: "heap_type_t \<Rightarrow> heap_state \<Rightarrow> u64" where
  "heap_top h s = (if h_segment (heaps s h) < 0 then 0 else segment_end s h)"

lemma heap_mark_top: "heap_mark h s = heap_top h s"
  by (simp add: heap_mark_def heap_top_def)

lemma alloc_addr_bounds:
  assumes "request_ok h sz al s"
  shows "unat (alloc_addr s h sz al) + used_pages sz \<le> unat (segment_end s h)"
proof -
  have "alloc_addr s h sz al \<le> segment_end s h - num_pages sz"
    unfolding alloc_addr_def by (rule mask_le)
  moreover have "unat (segment_end s h - num_pages sz) = unat (segment_end s h) - used_pages sz"
    "used_pages sz \<le> unat (segment_end s h)"
    using assms num_pages_used [of sz] by (simp_all add: request_ok_def unat_sub word_le_nat_alt)
  ultimately show ?thesis by (simp add: word_le_nat_alt)
qed

lemma heap_ok_alloc:
  assumes "heap_ok h s" "request_ok h sz al s" "alloc_pages h (sz, al) s = (Some a, s')"
  shows "a = alloc_addr s h sz al \<and> s' = set_segment_end h a s \<and> h_segment (heaps s h) \<ge> 0 \<and>
    h_start (heaps s h) \<le> a \<and> unat a + used_pages sz \<le> unat (segment_end s h) \<and> heap_ok h s'"
proof -
  have a: "a = alloc_addr s h sz al" "s' = set_segment_end h a s" "h_segment (heaps s h) \<ge> 0" "h_start (heaps s h) \<le> a"
    using assms(3) by (auto simp: alloc_pages_def split: if_splits)
  have b: "unat a + used_pages sz \<le> unat (segment_end s h)"
    using alloc_addr_bounds [OF assms(2)] a(1) by simp
  have "nat (h_segment (heaps s h)) < length (pm_map (heap_pm s))"
    using assms(1) a(3) by (simp add: heap_ok_def)
  then have "heap_ok h s'"
    using assms(1) a b segment_end_set [of s h a] by (auto simp: heap_ok_def word_le_nat_alt)
  then show ?thesis using a b by simp
qed

lemma descending_heap_model:
  "descending_heap (heap_ok h) (\<lambda>s. h_start (heaps s h)) (heap_top h)
     (\<lambda>s. if h_segment (heaps s h) < 0 then 0 else h_end (heaps s h))
     (\<lambda>r. request_ok h (fst r) (snd r)) (\<lambda>r. used_pages (fst r)) (alloc_pages h) (heap_rewind h)"
proof
  fix s s' and r :: "u64 \<times> u64" and a
  assume ok: "heap_ok h s" and fit: "request_ok h (fst r) (snd r) s" and al: "alloc_pages h r s = (Some a, s')"
  have al': "alloc_pages h (fst r, snd r) s = (Some a, s')" using al by simp
  note facts = heap_ok_alloc [OF ok fit al']
  have seg: "nat (h_segment (heaps s h)) < length (pm_map (heap_pm s))" using ok facts by (simp add: heap_ok_def)
  then have top': "heap_top h s' = a" using facts by (auto simp: heap_top_def segment_end_set)
  show "h_start (heaps s h) \<le> a \<and> unat a + used_pages (fst r) \<le> unat (heap_top h s) \<and> heap_top h s' = a \<and>
      h_start (heaps s' h) = h_start (heaps s h) \<and>
      (if h_segment (heaps s' h) < 0 then 0 else h_end (heaps s' h)) =
      (if h_segment (heaps s h) < 0 then 0 else h_end (heaps s h)) \<and> heap_ok h s'"
    using facts top' by (auto simp: heap_top_def)
  fix m
  assume m: "heap_top h s \<le> m" "m \<le> (if h_segment (heaps s h) < 0 then 0 else h_end (heaps s h))"
  have le: "a \<le> segment_end s h" unfolding word_le_nat_alt using facts by linarith
  show "heap_rewind h m s' = heap_rewind h m s"
  proof (cases "m = segment_end s h")
    case True
    then have "heap_rewind h m s = s" by (simp add: heap_rewind_def)
    moreover have "heap_rewind h m s' = s"
    proof (cases "a < m")
      case True
      then show ?thesis
        using facts m seg \<open>m = segment_end s h\<close>
        by (auto simp: heap_rewind_def segment_end_set set_segment_end_twice set_segment_end_same)
    next
      case False
      then have "a = segment_end s h" using le True by simp
      then show ?thesis using facts seg True by (auto simp: heap_rewind_def segment_end_set set_segment_end_same)
    qed
    ultimately show ?thesis by simp
  next
    case False
    then have "segment_end s h < m" "a < m" using m(1) facts le by (auto simp: heap_top_def split: if_splits)
    then show ?thesis
      using facts m seg by (auto simp: heap_rewind_def segment_end_set set_segment_end_twice)
  qed
next
  fix s s' and r :: "u64 \<times> u64"
  assume "alloc_pages h r s = (None, s')"
  then show "s' = s" by (auto simp: alloc_pages_def split: if_splits)
next
  fix s
  assume "heap_ok h s"
  then show "heap_top h s \<le> (if h_segment (heaps s h) < 0 then 0 else h_end (heaps s h))"
    by (auto simp: heap_ok_def heap_top_def)
next
  fix s
  show "heap_rewind h (heap_top h s) s = s"
    by (auto simp: heap_rewind_def heap_top_def)
qed

interpretation heap: descending_heap "heap_ok h" "\<lambda>s. h_start (heaps s h)" "heap_top h"
  "\<lambda>s. if h_segment (heaps s h) < 0 then 0 else h_end (heaps s h)"
  "\<lambda>r. request_ok h (fst r) (snd r)" "\<lambda>r. used_pages (fst r)" "alloc_pages h" "heap_rewind h" for h
  by (rule descending_heap_model)

section \<open>The choice of the segments\<close>

abbreviation free_size :: "u64 \<Rightarrow> u64 \<Rightarrow> pm_map_t \<Rightarrow> u64" where
  "free_size ps pe r \<equiv> pm_end r - try_heap_start ps pe r"

definition heap_at :: "u64 \<Rightarrow> u64 \<Rightarrow> pm_map_t list \<Rightarrow> heap_t \<Rightarrow> nat \<Rightarrow> bool" where
  "heap_at ps pe rs h i \<longleftrightarrow>
     i < length rs \<and> h = \<lparr>h_segment = int i, h_start = try_heap_start ps pe (rs ! i), h_end = pm_end (rs ! i)\<rparr>"

definition scan_inv :: "u64 \<Rightarrow> u64 \<Rightarrow> pm_map_t list \<Rightarrow> nat \<Rightarrow> (heap_type_t \<Rightarrow> heap_t) \<times> u64 \<Rightarrow> bool" where
  "scan_inv ps pe rs n acc \<longleftrightarrow>
     n \<le> length rs \<and> (\<forall>j < n. pm_end (rs ! j) \<le> heap_limit \<and> free_size ps pe (rs ! j) \<le> snd acc) \<and>
     (if n = 0 then acc = (heaps_start, 0)
      else \<exists>i < n. heap_at ps pe rs (fst acc HEAP_TYPE_HM_1) i \<and> free_size ps pe (rs ! i) = snd acc) \<and>
     (fst acc HEAP_TYPE_LM_1 = no_heap \<and> (\<forall>j < n. low_memory_heap < pm_end (rs ! j)) \<or>
      (\<exists>i < n. heap_at ps pe rs (fst acc HEAP_TYPE_LM_1) i \<and> pm_end (rs ! i) \<le> low_memory_heap \<and>
         (\<forall>j < n. pm_end (rs ! j) \<le> low_memory_heap \<longrightarrow> free_size ps pe (rs ! j) \<le> free_size ps pe (rs ! i))))"

lemma scan_segment_inv:
  assumes inv: "scan_inv ps pe rs n acc" and n: "n < length rs" "pm_end (rs ! n) \<le> heap_limit"
    and ord: "sorted (map pm_end rs)"
  shows "scan_inv ps pe rs (Suc n) (scan_segment ps pe n (rs ! n) acc)"
proof -
  obtain hs ms where acc: "acc = (hs, ms)" by fastforce
  let ?r = "rs ! n"
  have ends: "j < n \<Longrightarrow> pm_end (rs ! j) \<le> pm_end ?r" for j
    using sorted_nth_mono [OF ord, of j n] n(1) by simp
  show ?thesis
  proof (cases "free_size ps pe ?r \<ge> ms")
    case True
    let ?h = "\<lparr>h_segment = int n, h_start = try_heap_start ps pe ?r, h_end = pm_end ?r\<rparr>"
    have sizes: "j < Suc n \<Longrightarrow> free_size ps pe (rs ! j) \<le> free_size ps pe ?r" for j
      using inv True by (auto simp: scan_inv_def acc less_Suc_eq intro: order.trans)
    have at: "heap_at ps pe rs ?h n" using n(1) by (simp add: heap_at_def)
    have lims: "j < Suc n \<Longrightarrow> pm_end (rs ! j) \<le> heap_limit" for j
      using inv n(2) by (auto simp: scan_inv_def less_Suc_eq)
    show ?thesis
    proof (cases "pm_end ?r \<le> low_memory_heap")
      case low: True
      then show ?thesis
        using True at sizes lims n(1) by (auto simp: scan_inv_def scan_segment_def acc Let_def intro!: exI [of _ n])
    next
      case high: False
      have "hs HEAP_TYPE_LM_1 = no_heap \<and> (\<forall>j < Suc n. low_memory_heap < pm_end (rs ! j)) \<or>
        (\<exists>i < Suc n. heap_at ps pe rs (hs HEAP_TYPE_LM_1) i \<and> pm_end (rs ! i) \<le> low_memory_heap \<and>
         (\<forall>j < Suc n. pm_end (rs ! j) \<le> low_memory_heap \<longrightarrow> free_size ps pe (rs ! j) \<le> free_size ps pe (rs ! i)))"
        using inv high unfolding scan_inv_def acc by (auto simp: less_Suc_eq not_le)
      then show ?thesis
        using True high at sizes lims n(1) by (auto simp: scan_inv_def scan_segment_def acc Let_def intro!: exI [of _ n])
    qed
  next
    case False
    then have ms: "scan_segment ps pe n ?r acc = acc" by (simp add: scan_segment_def acc Let_def)
    have n0: "n \<noteq> 0"
    proof
      assume "n = 0"
      then have "ms = 0" using inv by (simp add: scan_inv_def acc)
      then show False using False by simp
    qed
    then obtain k where k: "k < n" "heap_at ps pe rs (hs HEAP_TYPE_HM_1) k" "free_size ps pe (rs ! k) = ms"
      using inv by (auto simp: scan_inv_def acc)
    have lims: "pm_end (rs ! j) \<le> heap_limit \<and> free_size ps pe (rs ! j) \<le> ms" if "j < Suc n" for j
      using inv n(2) False that by (auto simp: scan_inv_def acc less_Suc_eq)
    have low: "hs HEAP_TYPE_LM_1 = no_heap \<and> (\<forall>j < Suc n. low_memory_heap < pm_end (rs ! j)) \<or>
        (\<exists>i < Suc n. heap_at ps pe rs (hs HEAP_TYPE_LM_1) i \<and> pm_end (rs ! i) \<le> low_memory_heap \<and>
         (\<forall>j < Suc n. pm_end (rs ! j) \<le> low_memory_heap \<longrightarrow> free_size ps pe (rs ! j) \<le> free_size ps pe (rs ! i)))"
    proof (cases "pm_end ?r \<le> low_memory_heap")
      case True
      then have all_low: "pm_end (rs ! j) \<le> low_memory_heap" if "j < n" for j
        using ends [OF that] by (rule order.trans [rotated])
      then have "\<not> (\<forall>j < n. low_memory_heap < pm_end (rs ! j))" using n0 by fastforce
      then obtain i where i: "i < n" "heap_at ps pe rs (hs HEAP_TYPE_LM_1) i" "pm_end (rs ! i) \<le> low_memory_heap"
        "\<forall>j < n. pm_end (rs ! j) \<le> low_memory_heap \<longrightarrow> free_size ps pe (rs ! j) \<le> free_size ps pe (rs ! i)"
        using inv unfolding scan_inv_def acc by auto
      have "ms \<le> free_size ps pe (rs ! i)" using i(4) k(1,3) all_low by auto
      then have "free_size ps pe (rs ! j) \<le> free_size ps pe (rs ! i)" if "j < Suc n" for j
        using lims [OF that] by (auto intro: order.trans)
      then show ?thesis using i by (intro disjI2 exI [of _ i]) simp
    next
      case False
      then show ?thesis using inv unfolding scan_inv_def acc by (auto simp: less_Suc_eq not_le)
    qed
    have hm: "\<exists>i < Suc n. heap_at ps pe rs (hs HEAP_TYPE_HM_1) i \<and> free_size ps pe (rs ! i) = ms"
      using k by (intro exI [of _ k]) simp
    show ?thesis
      unfolding ms unfolding scan_inv_def acc fst_conv snd_conv using lims low hm n(1) by simp
  qed
qed

lemma scan_heaps_inv:
  assumes "scan_inv ps pe rs n acc" "sorted (map pm_end rs)"
  shows "\<exists>m. scan_inv ps pe rs m (scan_heaps ps pe n (drop n rs) acc) \<and>
    (m = length rs \<or> m < length rs \<and> heap_limit < pm_end (rs ! m))"
  using assms
proof (induction "length rs - n" arbitrary: n acc)
  case 0
  then have "n = length rs" by (simp add: scan_inv_def)
  then show ?case using 0(2) by (intro exI [of _ n]) simp
next
  case (Suc k)
  then have n: "n < length rs" by simp
  then have dr: "drop n rs = rs ! n # drop (Suc n) rs" by (simp add: Cons_nth_drop_Suc)
  show ?case
  proof (cases "pm_end (rs ! n) \<le> heap_limit")
    case True
    have "\<exists>m. scan_inv ps pe rs m (scan_heaps ps pe (Suc n) (drop (Suc n) rs) (scan_segment ps pe n (rs ! n) acc)) \<and>
      (m = length rs \<or> m < length rs \<and> heap_limit < pm_end (rs ! m))"
      using Suc.hyps(2) n True by (intro Suc.hyps(1) scan_segment_inv Suc.prems) simp_all
    then show ?thesis using True by (simp add: dr)
  next
    case False
    then show ?thesis using n Suc.prems(1) by (intro exI [of _ n]) (simp add: dr)
  qed
qed

section \<open>Properties\<close>

text \<open>The map of which the heaps take their segments: in order, without empty or inverted entries below.\<close>

definition map_ok :: "pm_state \<Rightarrow> bool" where
  "map_ok s \<longleftrightarrow> pm_map_size s \<le> length (pm_map s) \<and> sorted_wrt (\<lambda>r q. pm_end r \<le> pm_start q) (live_map s) \<and>
     (\<forall>r \<in> set (live_map s). pm_start r \<le> pm_end r)"

lemma map_ok_ends: "map_ok s \<Longrightarrow> sorted (map pm_end (live_map s))"
proof -
  assume ok: "map_ok s"
  have "sorted_wrt (\<lambda>r q. pm_end r \<le> pm_end q) (live_map s)"
    by (rule sorted_wrt_mono_rel [of _ "\<lambda>r q. pm_end r \<le> pm_start q"])
      (use ok in \<open>auto simp: map_ok_def intro: order.trans\<close>)
  then show ?thesis by (simp add: sorted_map)
qed

definition program_pages :: "u64 \<Rightarrow> u64 \<Rightarrow> u64 \<times> u64" where
  "program_pages a b = (drop_bit PAGE_SHIFT a, drop_bit PAGE_SHIFT a + num_pages (b - a))"

lemma heap_init_scan:
  assumes "map_ok (heap_pm s)" "heaps s = heaps_start" "program_pages a b = (ps, pe)"
  shows "\<exists>m. scan_inv ps pe (live_map (heap_pm s)) m (heaps (heap_init a b s), snd (scan_heaps ps pe 0 (live_map (heap_pm s)) (heaps s, 0))) \<and>
    (m = length (live_map (heap_pm s)) \<or> m < length (live_map (heap_pm s)) \<and> heap_limit < pm_end (live_map (heap_pm s) ! m)) \<and>
    heap_pm (heap_init a b s) = heap_pm s"
proof -
  let ?rs = "live_map (heap_pm s)"
  have "scan_inv ps pe ?rs 0 (heaps s, 0)" by (simp add: scan_inv_def assms(2) heaps_start_def)
  from scan_heaps_inv [OF this map_ok_ends [OF assms(1)]] show ?thesis
    using assms(3) by (auto simp: heap_init_def program_pages_def Let_def)
qed



definition small_pm :: pm_state where
  "small_pm = \<lparr>pm_map = [\<lparr>pm_start = 1, pm_end = 0x9F\<rparr>, \<lparr>pm_start = 0x100, pm_end = 0x8000\<rparr>],
     pm_map_size = 2, num_pm_pages = 0x7F9E\<rparr>"

definition small_heap :: heap_state where
  "small_heap = \<lparr>heap_pm = small_pm, heaps = heaps_start\<rparr>"

lemma small_heap_ok:
  "map_ok (heap_pm small_heap)" "heaps small_heap = heaps_start" "program_pages 0x100000 0x130000 = (0x100, 0x130)"
  by (simp_all add: map_ok_def small_heap_def small_pm_def live_map_def program_pages_def num_pages_def)

lemma small_heap_live [simp]:
  "live_map (heap_pm small_heap) = [\<lparr>pm_start = 1, pm_end = 0x9F\<rparr>, \<lparr>pm_start = 0x100, pm_end = 0x8000\<rparr>]"
  by (simp add: small_heap_def small_pm_def live_map_def)

lemma small_heap_init:
  "heaps (heap_init 0x100000 0x130000 small_heap) HEAP_TYPE_HM_1 = \<lparr>h_segment = 1, h_start = 0x130, h_end = 0x8000\<rparr>"
  "heaps (heap_init 0x100000 0x130000 small_heap) HEAP_TYPE_LM_1 = \<lparr>h_segment = 0, h_start = 1, h_end = 0x9F\<rparr>"
  "heap_pm (heap_init 0x100000 0x130000 small_heap) = small_pm"
  by (simp_all add: heap_init_def small_heap_def small_pm_def live_map_def num_pages_def
      scan_segment_def try_heap_start_def pow2_simps Let_def heaps_start_def)


text \<open>
  \<open>heap_init\<close> gives each heap a largest segment: no segment below the first one that reaches over 4 GB has more
  free pages than the high heap's, and none of those below 1 MB more than the low heap's.
\<close>
theorem heap_init_largest:
  assumes "map_ok (heap_pm s)" "heaps s = heaps_start" "program_pages a b = (ps, pe)"
    and "j < length (live_map (heap_pm s))" "\<forall>i \<le> j. pm_end (live_map (heap_pm s) ! i) \<le> heap_limit"
  shows "free_size ps pe (live_map (heap_pm s) ! j) \<le>
      h_end (heaps (heap_init a b s) HEAP_TYPE_HM_1) - h_start (heaps (heap_init a b s) HEAP_TYPE_HM_1) \<and>
    (pm_end (live_map (heap_pm s) ! j) \<le> low_memory_heap \<longrightarrow> free_size ps pe (live_map (heap_pm s) ! j) \<le>
      h_end (heaps (heap_init a b s) HEAP_TYPE_LM_1) - h_start (heaps (heap_init a b s) HEAP_TYPE_LM_1))"
proof -
  let ?rs = "live_map (heap_pm s)" and ?s = "heap_init a b s"
  obtain m ms where m: "scan_inv ps pe ?rs m (heaps ?s, ms)"
    "m = length ?rs \<or> m < length ?rs \<and> heap_limit < pm_end (?rs ! m)"
    using heap_init_scan [OF assms(1-3)] by blast
  then have j: "j < m" using assms(4,5) by (metis leD not_le_imp_less)
  then show ?thesis
    using m(1) by (auto simp: scan_inv_def heap_at_def not_le [symmetric])
qed

theorem heap_init_largest_witness:
  "0x8000 - 0x130 \<le> h_end (heaps (heap_init 0x100000 0x130000 small_heap) HEAP_TYPE_HM_1) -
     h_start (heaps (heap_init 0x100000 0x130000 small_heap) HEAP_TYPE_HM_1)"
  using heap_init_largest [OF small_heap_ok, of 1]
  by (simp add: small_heap_init)

text \<open>What one allocation does.\<close>

lemma heap_alloc_result:
  assumes "heap_ok h s" "request_ok h sz (2 ^ k) s" "k < 64" "heap_alloc h sz (2 ^ k) s = (p, s')"
  shows "(p = 0 \<and> s' = s) \<or>
    (2 ^ k dvd unat p \<and> unat (h_start (heaps s h)) * 4096 \<le> unat p \<and>
     unat p + unat sz \<le> unat (heap_top h s) * 4096 \<and> unat p = unat (heap_top h s') * 4096 \<and> heap_ok h s')"
proof -
  obtain x t where al: "alloc_pages h (sz, 2 ^ k) s = (x, t)" by fastforce
  show ?thesis
  proof (cases x)
    case None
    then show ?thesis using al assms(4) heap.alloc_none [of h "(sz, 2 ^ k)" s t] by (simp add: heap_alloc_pages)
  next
    case (Some a)
    have a: "p = push_bit PAGE_SHIFT a" "s' = t" using al assms(4) Some by (simp_all add: heap_alloc_pages)
    note facts = heap_ok_alloc [OF assms(1,2) al [unfolded Some]]
    have seg: "nat (h_segment (heaps s h)) < length (pm_map (heap_pm s))"
      and ends: "unat (segment_end s h) < 2 ^ 52"
      using assms(1) facts by (auto simp: heap_ok_def word_le_nat_alt)
    have top: "heap_top h t = a" "heap_top h s = segment_end s h"
      using facts seg by (auto simp: heap_top_def segment_end_set)
    have "unat a < 2 ^ 52" using facts ends by linarith
    then have p: "unat p = unat a * 4096" unfolding a by (rule unat_push_page)
    have "2 ^ k dvd unat a * 4096"
    proof -
      have "a = (segment_end s h - num_pages sz) AND NOT (mask (k - 12))"
        using facts by (simp add: alloc_addr_def alignment_mask [OF assms(3)])
      then show ?thesis by (simp only: aligned_after_mask)
    qed
    moreover have "unat a * 4096 + unat sz \<le> unat (segment_end s h) * 4096"
    proof -
      have "unat sz \<le> used_pages sz * 4096"
        using dividend_less_times_div [of 4096 "unat sz + 4095"] by (simp add: used_pages_def algebra_simps)
      moreover have "(unat a + used_pages sz) * 4096 \<le> unat (segment_end s h) * 4096"
      proof (rule mult_le_mono1)
        show "unat a + used_pages sz \<le> unat (segment_end s h)" using facts by blast
      qed
      ultimately show ?thesis by (simp add: algebra_simps)
    qed
    ultimately show ?thesis
      using facts top by (auto simp: p a(2) word_le_nat_alt)
  qed
qed

text \<open>
  C35: \<open>heap_alloc\<close>, for a request whose alignment is a power of two and whose pages are not more than the page number where the
  segment ends (for a larger one the subtraction wraps around, see \<open>heap_alloc_wraps\<close>): either the result is 0 and nothing
  changes, or the block is aligned as asked, holds the size and lies in the free part of the segment, which shrinks to
  end below it.
\<close>
theorem heap_alloc_block:
  assumes "heap_ok h s" "request_ok h sz (2 ^ k) s" "k < 64" "heap_alloc h sz (2 ^ k) s = (p, s')"
  shows "(p = 0 \<and> s' = s) \<or>
    (2 ^ k dvd unat p \<and> unat (h_start (heaps s h)) * 4096 \<le> unat p \<and>
     unat p + unat sz \<le> unat (heap_top h s) * 4096 \<and> unat p = unat (heap_top h s') * 4096 \<and> heap_ok h s')"
  by (rule heap_alloc_result [OF assms])

theorem heap_alloc_block_witness:
  "2 ^ 14 dvd unat (fst (heap_alloc HEAP_TYPE_HM_1 0x5000 (2 ^ 14) (heap_init 0x100000 0x130000 small_heap)))"
proof -
  let ?s = "heap_init 0x100000 0x130000 small_heap"
  have top: "segment_end ?s HEAP_TYPE_HM_1 = 0x8000"
    by (simp add: segment_end_def small_heap_init small_pm_def)
  have "heap_ok HEAP_TYPE_HM_1 ?s"
    by (simp add: heap_ok_def small_heap_init top) (simp add: small_pm_def)
  moreover have "request_ok HEAP_TYPE_HM_1 0x5000 (2 ^ 14) ?s"
    unfolding request_ok_def top by (intro conjI exI [of _ 14]) (simp_all add: num_pages_def)
  ultimately show ?thesis
    using heap_alloc_block [of HEAP_TYPE_HM_1 ?s "0x5000" 14 "fst (heap_alloc HEAP_TYPE_HM_1 0x5000 (2 ^ 14) ?s)"]
    by (cases "heap_alloc HEAP_TYPE_HM_1 0x5000 (2 ^ 14) ?s") auto
qed

text \<open>Several calls of \<open>heap_alloc\<close>, with the blocks (address and size) that were granted, and the requests that do not wrap.\<close>

fun heap_allocs :: "heap_type_t \<Rightarrow> (u64 \<times> u64) list \<Rightarrow> heap_state \<Rightarrow> (u64 \<times> u64) list \<times> heap_state" where
  "heap_allocs h [] s = ([], s)"
| "heap_allocs h ((sz, alignment) # rs) s =
     (let (p, s1) = heap_alloc h sz alignment s; (blocks, t) = heap_allocs h rs s1
      in (if p = 0 then blocks else (p, sz) # blocks, t))"

fun requests_ok :: "heap_type_t \<Rightarrow> (u64 \<times> u64) list \<Rightarrow> heap_state \<Rightarrow> bool" where
  "requests_ok h [] s = True"
| "requests_ok h ((sz, alignment) # rs) s =
     (request_ok h sz alignment s \<and> requests_ok h rs (snd (heap_alloc h sz alignment s)))"

lemma heap_alloc_state: "snd (heap_alloc h sz alignment s) = snd (alloc_pages h (sz, alignment) s)"
  by (simp add: heap_alloc_pages)

lemma heap_allocs_state: "snd (heap_allocs h rs s) = snd (heap.alloc_all h rs s)"
proof (induction rs arbitrary: s)
  case (Cons r rs)
  obtain sz alignment where r: "r = (sz, alignment)" by (cases r)
  obtain x t where al: "alloc_pages h r s = (x, t)" by fastforce
  then have t: "snd (heap_alloc h sz alignment s) = t" using heap_alloc_state [of h sz alignment s] r by simp
  have "snd (heap_allocs h (r # rs) s) = snd (heap_allocs h rs t)" using t by (simp add: r split_def Let_def)
  also have "\<dots> = snd (heap.alloc_all h (r # rs) s)" using Cons.IH [of t] al by (cases x) simp_all
  finally show ?case .
qed simp

lemma requests_fit: "requests_ok h rs s \<Longrightarrow> heap.all_fit h rs s"
  by (induction h rs s rule: requests_ok.induct) (simp_all add: heap_alloc_state)

lemma heap_alloc_start: "h_start (heaps (snd (heap_alloc h sz alignment s)) h) = h_start (heaps s h)"
  by (simp add: heap_alloc_def Let_def)

lemma heap_allocs_blocks:
  assumes "heap_ok h s" "requests_ok h rs s" "heap_allocs h rs s = (blocks, t)"
  shows "sorted_wrt (\<lambda>(p, n) (q, m). unat q + unat m \<le> unat p) blocks \<and>
    (\<forall>(p, n) \<in> set blocks. unat (h_start (heaps s h)) * 4096 \<le> unat p \<and> unat p + unat n \<le> unat (heap_top h s) * 4096)"
  using assms
proof (induction h rs s arbitrary: blocks rule: heap_allocs.induct)
  case (2 h sz alignment rs s)
  obtain p s1 where a: "heap_alloc h sz alignment s = (p, s1)" by fastforce
  obtain bs where bs: "heap_allocs h rs s1 = (bs, t)" "blocks = (if p = 0 then bs else (p, sz) # bs)"
    using 2(4) a by (cases "heap_allocs h rs s1") auto
  obtain k where k: "alignment = 2 ^ k" "k < 64" using 2(3) by (auto simp: request_ok_def)
  have res: "(p = 0 \<and> s1 = s) \<or> (unat (h_start (heaps s h)) * 4096 \<le> unat p \<and>
      unat p + unat sz \<le> unat (heap_top h s) * 4096 \<and> unat p = unat (heap_top h s1) * 4096 \<and> heap_ok h s1)"
    using heap_alloc_result [OF 2(2) _ k(2) a [unfolded k(1)]] 2(3) k(1) by auto
  then have ok: "heap_ok h s1" "unat (heap_top h s1) \<le> unat (heap_top h s)" using 2(2) by auto
  have IH: "sorted_wrt (\<lambda>(p, n) (q, m). unat q + unat m \<le> unat p) bs"
      "\<forall>(q, m) \<in> set bs. unat (h_start (heaps s h)) * 4096 \<le> unat q \<and> unat q + unat m \<le> unat (heap_top h s1) * 4096"
    using 2(1) [OF a [symmetric] refl ok(1) _ bs(1)] 2(3) a heap_alloc_start [of h sz alignment s] by auto
  show ?case
  proof (cases "p = 0")
    case True
    then show ?thesis using IH ok(2) bs(2) by force
  next
    case False
    then show ?thesis using IH ok(2) bs(2) res by force
  qed
qed simp

text \<open>
  C36: Any sequence of calls of \<open>heap_alloc\<close> (none of which asks for more pages than the end of the segment) returns blocks that do
  not overlap, each below those before it and inside the free part of the heap; and \<open>heap_rewind\<close> to the \<open>heap_mark\<close> taken
  before them gives exactly the state in which the mark was taken.
\<close>
theorem heap_allocations_disjoint:
  assumes "heap_ok h s" "requests_ok h rs s" "heap_allocs h rs s = (blocks, t)"
  shows "sorted_wrt (\<lambda>(p, n) (q, m). unat q + unat m \<le> unat p) blocks \<and>
    (\<forall>(p, n) \<in> set blocks. unat (h_start (heaps s h)) * 4096 \<le> unat p \<and> unat p + unat n \<le> unat (heap_top h s) * 4096) \<and>
    heap_rewind h (heap_mark h s) t = s"
proof -
  obtain bs where "heap.alloc_all h rs s = (bs, t)" using heap_allocs_state [of h rs s] assms(3) by (metis prod.collapse snd_conv)
  from heap.mark_rewind [OF assms(1) requests_fit [OF assms(2)] this] heap_allocs_blocks [OF assms]
  show ?thesis by (simp add: heap_mark_top)
qed

theorem heap_allocations_disjoint_witness:
  "heap_rewind HEAP_TYPE_LM_1 (heap_mark HEAP_TYPE_LM_1 (heap_init 0x100000 0x130000 small_heap))
     (snd (heap_alloc HEAP_TYPE_LM_1 0x200 64 (heap_init 0x100000 0x130000 small_heap))) =
   heap_init 0x100000 0x130000 small_heap"
proof -
  let ?s = "heap_init 0x100000 0x130000 small_heap"
  have top: "segment_end ?s HEAP_TYPE_LM_1 = 0x9F"
    by (simp add: segment_end_def small_heap_init small_pm_def)
  have ok: "heap_ok HEAP_TYPE_LM_1 ?s"
    by (simp add: heap_ok_def small_heap_init top) (simp add: small_pm_def)
  have fit: "requests_ok HEAP_TYPE_LM_1 [(0x200, 64)] ?s"
    unfolding requests_ok.simps request_ok_def top by (intro conjI exI [of _ 6]) (simp_all add: num_pages_def)
  obtain bs t where bt: "heap_allocs HEAP_TYPE_LM_1 [(0x200, 64)] ?s = (bs, t)" by fastforce
  then have "t = snd (heap_alloc HEAP_TYPE_LM_1 0x200 64 ?s)" by (auto simp: split_def Let_def)
  then show ?thesis using heap_allocations_disjoint [OF ok fit bt] by simp
qed

text \<open>
  \<open>request_ok\<close> is needed: a request of more pages than the segment end leaves (here 2 MB from a heap of 632 KB)
  wraps below page 0, is not below the heap start, and is granted at an address above all memory.
\<close>
lemma heap_alloc_wraps:
  "fst (heap_alloc HEAP_TYPE_LM_1 0x200000 64 (heap_init 0x100000 0x130000 small_heap)) = 0xFFFFFFFFFFE9F000"
  by (simp add: heap_alloc_def alloc_addr_def segment_end_def small_heap_init small_pm_def num_pages_def Let_def)

end
