(* ===== verification/Vmem.thy ===== *)
theory Vmem
  imports Settings
begin

text \<open>
  \<open>system/x86/vmem.c\<close>: the window through which the tests reach physical memory above 2 GB, and the device
  regions mapped above it. Virtual memory is 4 GB in 2 MB pages: the first 2 GB are identity mapped, the
  page directory \<open>pd2\<close> maps the third GB (the window), \<open>pd3\<close> the fourth (256 device pages, then the identity).
  Loading the page directory base register is not modelled: the tables are read as they stand.
\<close>

section \<open>Model\<close>

record cpu_paging =
  has_lm :: bool
  has_pae :: bool

record vmem_state =
  pd2 :: "u64 list"
  pd3 :: "u64 list"
  device_pages_used :: nat
  mapped_window :: u64

abbreviation VM_PAGE_SHIFT :: nat where "VM_PAGE_SHIFT \<equiv> 21"

definition VM_WINDOW_START :: u64 where "VM_WINDOW_START = SIZE_C 2 GB"
definition VM_REGION_START :: u64 where "VM_REGION_START = VM_WINDOW_START + SIZE_C 1 GB"

definition vm_start :: vmem_state where
  "vm_start =
     \<lparr>pd2 = map (\<lambda>i. VM_WINDOW_START + push_bit VM_PAGE_SHIFT (of_nat i) + 0x83) [0..<512],
      pd3 = map (\<lambda>i. VM_REGION_START + push_bit VM_PAGE_SHIFT (of_nat i) + 0x83) [0..<512],
      device_pages_used = 0, mapped_window = 2\<rparr>"







definition map_window :: "cpu_paging \<Rightarrow> u64 \<Rightarrow> vmem_state \<Rightarrow> bool \<times> vmem_state" where
  "map_window cpu start_page s =
     (let window = drop_bit (30 - PAGE_SHIFT) start_page
      in if window < 2 then (True, s)
         else if \<not> has_pae cpu
           then (if window < 4 then (True, s\<lparr>mapped_window := window\<rparr>) else (False, s))
         else if \<not> has_lm cpu \<and> start_page \<ge> PAGE_C 64 GB then (False, s)
         else (True, s\<lparr>pd2 := map (\<lambda>i. push_bit 30 window + push_bit VM_PAGE_SHIFT (of_nat i) + 0x83) [0..<512],
                       mapped_window := window\<rparr>))"

definition first_word_mapping :: "u64 \<Rightarrow> u64" where
  "first_word_mapping page =
     (if page < PAGE_C 2 GB then push_bit PAGE_SHIFT page
      else push_bit PAGE_SHIFT (PAGE_C 2 GB + page mod PAGE_C 1 GB))"

definition last_word_mapping :: "u64 \<Rightarrow> u64 \<Rightarrow> u64" where
  "last_word_mapping page word_size = first_word_mapping page + (PAGE_SIZE - word_size)"

definition page_of :: "vmem_state \<Rightarrow> u64 \<Rightarrow> u64" where
  "page_of s addr =
     (let page = drop_bit PAGE_SHIFT addr
      in if page \<ge> PAGE_C 2 GB
         then page mod PAGE_C 1 GB + push_bit (30 - PAGE_SHIFT) (mapped_window s)
         else page)"

section \<open>What the tables map\<close>

text \<open>
  The physical address that the page tables give a virtual address below 4 GB: a directory entry names a 2 MB
  page by its upper bits (its lower ones are flags).
\<close>

definition entry_base :: "u64 \<Rightarrow> nat" where
  "entry_base e = unat e div 2 ^ 21 * 2 ^ 21"

definition phys_addr :: "vmem_state \<Rightarrow> nat \<Rightarrow> nat" where
  "phys_addr s v =
     (if v < 2 ^ 31 then v
      else if v < 2 ^ 31 + 2 ^ 30 then entry_base (pd2 s ! ((v - 2 ^ 31) div 2 ^ 21)) + v mod 2 ^ 21
      else entry_base (pd3 s ! ((v - (2 ^ 31 + 2 ^ 30)) div 2 ^ 21)) + v mod 2 ^ 21)"


lemma unat_push_exact:
  assumes "unat a * 2 ^ n < 2 ^ 64"
  shows "unat (push_bit n (a :: u64)) = unat a * 2 ^ n"
  using assms by (simp add: push_bit_eq_mult unat_word_ariths unat_power2_u64 mod_mult_right_eq)

lemma entry_base_value:
  assumes "unat e = w * 2 ^ 30 + i * 2 ^ 21 + 0x83"
  shows "entry_base e = w * 2 ^ 30 + i * 2 ^ 21"
proof -
  have div: "(131 + k * 2097152) div 2097152 = k" for k :: nat by simp
  have "unat e = 131 + (w * 512 + i) * 2097152" unfolding assms by simp
  then have "unat e div 2 ^ 21 = w * 512 + i" using div [of "w * 512 + i"] by simp
  then show ?thesis by (simp add: entry_base_def algebra_simps)
qed

lemma window_entry:
  assumes "unat w < 2 ^ 34" "i < 512"
  shows "unat (push_bit 30 (w :: u64) + push_bit 21 (of_nat i) + 0x83) = unat w * 2 ^ 30 + i * 2 ^ 21 + 0x83"
proof -
  have "unat (push_bit 30 w) = unat w * 2 ^ 30" using assms by (intro unat_push_exact) simp
  moreover have "unat (push_bit 21 (of_nat i :: u64)) = i * 2 ^ 21"
    using assms unat_push_exact [of "of_nat i" 21] by (simp add: unat_of_nat)
  ultimately show ?thesis using assms by (simp add: unat_word_ariths)
qed

lemma first_word_unat:
  assumes "unat p < 2 ^ 52"
  shows "unat (first_word_mapping p) =
    (if unat p < 2 ^ 19 then unat p * 4096 else (2 ^ 19 + unat p mod 2 ^ 18) * 4096)"
proof (cases "unat p < 2 ^ 19")
  case True
  then show ?thesis
    using unat_push_page [of p] by (simp add: first_word_mapping_def page_counts word_less_nat_alt)
next
  case False
  have "unat (0x80000 + p mod 0x40000) = 2 ^ 19 + unat p mod 2 ^ 18"
    by (simp add: unat_word_ariths unat_mod_distrib)
  then show ?thesis
    using False unat_push_page [of "0x80000 + p mod 0x40000"]
    by (simp add: first_word_mapping_def page_counts word_less_nat_alt)
qed

section \<open>The window\<close>

lemma window_split:
  fixes p :: nat
  assumes "o1 < 4096"
  shows "((2 ^ 19 + p mod 2 ^ 18) * 4096 + o1 - 2 ^ 31) div 2 ^ 21 = p mod 2 ^ 18 div 512"
    "((2 ^ 19 + p mod 2 ^ 18) * 4096 + o1) mod 2 ^ 21 = p mod 512 * 4096 + o1"
    "p div 2 ^ 18 * 2 ^ 30 + p mod 2 ^ 18 div 512 * 2 ^ 21 + (p mod 512 * 4096 + o1) = p * 4096 + o1"
    "(2 ^ 19 + p mod 2 ^ 18) * 4096 + o1 < 2 ^ 31 + 2 ^ 30" "p mod 2 ^ 18 div 512 < 512"
proof -
  define m where "m = p mod 2 ^ 18"
  define a b where "a = m div 512" and "b = m mod 512"
  have m: "m = 512 * a + b" "b < 512" by (simp_all add: a_def b_def)
  have "m < 2 ^ 18" by (simp add: m_def)
  then have a: "a < 512" using m by simp
  have pb: "p mod 512 = b" by (simp add: b_def m_def mod_mod_cancel)
  have p: "p = p div 2 ^ 18 * 2 ^ 18 + m" unfolding m_def by (rule div_mult_mod_eq [symmetric])
  have low: "b * 4096 + o1 < 2097152" using m(2) assms by simp
  have s: "m * 4096 + o1 = a * 2097152 + (b * 4096 + o1)" using m(1) by simp
  show "((2 ^ 19 + p mod 2 ^ 18) * 4096 + o1 - 2 ^ 31) div 2 ^ 21 = p mod 2 ^ 18 div 512"
  proof -
    have "(2 ^ 19 + m) * 4096 + o1 - 2 ^ 31 = m * 4096 + o1" by simp
    also have "\<dots> = b * 4096 + o1 + a * 2097152" using s by simp
    also have "\<dots> div 2097152 = a" using low by auto
    finally show ?thesis by (simp add: m_def a_def)
  qed
  have "(2 ^ 19 + m) * 4096 + o1 = (1024 + a) * 2097152 + (b * 4096 + o1)" using s by simp
  then have "((2 ^ 19 + m) * 4096 + o1) mod 2097152 = b * 4096 + o1" using low by (simp only: mod_mult_self3) simp
  then show "((2 ^ 19 + p mod 2 ^ 18) * 4096 + o1) mod 2 ^ 21 = p mod 512 * 4096 + o1"
    unfolding m_def [symmetric] pb by simp
  show "p div 2 ^ 18 * 2 ^ 30 + p mod 2 ^ 18 div 512 * 2 ^ 21 + (p mod 512 * 4096 + o1) = p * 4096 + o1"
    using p s unfolding m_def [symmetric] a_def [symmetric] pb by simp
  show "(2 ^ 19 + p mod 2 ^ 18) * 4096 + o1 < 2 ^ 31 + 2 ^ 30"
    using \<open>m < 2 ^ 18\<close> assms by (simp add: m_def)
  show "p mod 2 ^ 18 div 512 < 512" using a by (simp add: a_def m_def)
qed

lemma map_window_pd2:
  assumes "has_pae cpu" "map_window cpu q s = (True, s')" "unat q < 2 ^ 52" "2 ^ 19 \<le> unat q"
  shows "mapped_window s' = drop_bit 18 q \<and>
    (\<forall>i < 512. entry_base (pd2 s' ! i) = unat q div 2 ^ 18 * 2 ^ 30 + i * 2 ^ 21) \<and> pd3 s' = pd3 s \<and>
    device_pages_used s' = device_pages_used s"
proof -
  let ?w = "drop_bit 18 q"
  have w: "unat ?w = unat q div 2 ^ 18" by (rule unat_shift)
  have "2 \<le> unat ?w" using assms(4) div_le_mono [of "2 ^ 19" "unat q" "2 ^ 18"] by (simp add: w)
  then have "\<not> ?w < 2" by (simp add: word_less_nat_alt)
  then have s': "s' = s\<lparr>pd2 := map (\<lambda>i. push_bit 30 ?w + push_bit VM_PAGE_SHIFT (of_nat i) + 0x83) [0..<512], mapped_window := ?w\<rparr>"
    using assms(1,2) by (auto simp: map_window_def Let_def split: if_splits)
  have "unat ?w < 2 ^ 34" using assms(3) by (simp add: w less_mult_imp_div_less)
  then have "entry_base (pd2 s' ! i) = unat ?w * 2 ^ 30 + i * 2 ^ 21" if "i < 512" for i
    using that by (simp add: s' entry_base_value [OF window_entry])
  then show ?thesis by (simp add: s' w)
qed

text \<open>The page tables undo \<open>first_word_mapping\<close> inside the mapped window, and so does \<open>page_of\<close>.\<close>

lemma window_page:
  assumes "has_pae cpu" "map_window cpu q s = (True, s')" "unat q < 2 ^ 52" "unat p < 2 ^ 52" "n < 4096"
    and "p < PAGE_C 2 GB \<or> drop_bit 18 p = drop_bit 18 q"
  shows "phys_addr s' (unat (first_word_mapping p) + n) = unat p * 4096 + n \<and>
    page_of s' (first_word_mapping p + of_nat n) = p"
proof (cases "unat p < 2 ^ 19")
  case True
  then have f: "unat (first_word_mapping p) = unat p * 4096" using first_word_unat [OF assms(4)] by simp
  have sum: "unat (first_word_mapping p + of_nat n) = unat p * 4096 + n"
    using f assms(5) True by (simp add: unat_word_ariths unat_of_nat)
  have "unat (drop_bit 12 (first_word_mapping p + of_nat n)) = unat p"
    using assms(5) by (simp only: unat_shift sum) simp
  then have "drop_bit 12 (first_word_mapping p + of_nat n) = p" by (simp only: word_unat_eq_iff)
  then show ?thesis
    using True assms(5) by (simp add: f phys_addr_def page_of_def Let_def page_counts word_le_nat_alt)
next
  case False
  then have same: "drop_bit 18 p = drop_bit 18 q"
    using assms(6) by (simp add: page_counts word_less_nat_alt)
  then have divs: "unat p div 2 ^ 18 = unat q div 2 ^ 18"
    by (metis unat_shift)
  have q: "2 ^ 19 \<le> unat q"
  proof (rule ccontr)
    assume "\<not> 2 ^ 19 \<le> unat q"
    then have "unat q div 2 ^ 18 < 2" by (simp add: less_mult_imp_div_less)
    moreover have "2 \<le> unat p div 2 ^ 18" using False div_le_mono [of "2 ^ 19" "unat p" "2 ^ 18"] by simp
    ultimately show False using divs by simp
  qed
  note win = map_window_pd2 [OF assms(1-3) q]
  have f: "unat (first_word_mapping p) = (2 ^ 19 + unat p mod 2 ^ 18) * 4096"
    using first_word_unat [OF assms(4)] False by simp
  note split = window_split [OF assms(5), of "unat p"]
  let ?v = "(2 ^ 19 + unat p mod 2 ^ 18) * 4096 + n"
  have ge: "\<not> ?v < 2 ^ 31" by simp
  have "phys_addr s' ?v = entry_base (pd2 s' ! (unat p mod 2 ^ 18 div 512)) + (unat p mod 512 * 4096 + n)"
    unfolding phys_addr_def using ge split(4) by (simp only: if_False if_True split(1,2))
  also have "\<dots> = unat p div 2 ^ 18 * 2 ^ 30 + unat p mod 2 ^ 18 div 512 * 2 ^ 21 + (unat p mod 512 * 4096 + n)"
    using win split(5) by (simp only: divs)
  finally have phys: "phys_addr s' ?v = unat p * 4096 + n" by (simp only: split(3))
  have sum: "unat (first_word_mapping p + of_nat n) = ?v"
    using f assms(5) split(4) by (simp add: unat_word_ariths unat_of_nat)
  let ?g = "drop_bit 12 (first_word_mapping p + of_nat n)"
  have g: "unat ?g = 2 ^ 19 + unat p mod 2 ^ 18"
    using assms(5) by (simp only: unat_shift sum) simp
  have "unat (?g mod 0x40000 + push_bit 18 (mapped_window s')) = unat p"
  proof -
    have "unat (?g mod 0x40000) = unat p mod 2 ^ 18" 
    proof -
      have "(2 ^ 19 + unat p mod 2 ^ 18) mod 2 ^ 18 = unat p mod 2 ^ (18 :: nat)"
        using mod_mult_self3 [of 2 "2 ^ 18" "unat p mod 2 ^ 18"] by simp
      then show ?thesis by (simp add: unat_mod_distrib g)
    qed
    moreover have "unat (push_bit 18 (mapped_window s')) = unat p div 2 ^ 18 * 2 ^ 18"
      using win assms(4) divs unat_push_exact [of "drop_bit 18 q" 18]
      by (simp add: unat_shift)
    ultimately show ?thesis using assms(4) by (simp add: unat_word_ariths)
  qed
  then have "page_of s' (first_word_mapping p + of_nat n) = p"
    using g by (simp add: page_of_def Let_def page_counts word_le_nat_alt word_unat_eq_iff)
  then show ?thesis using phys f by simp
qed

text \<open>
  C34: After \<open>map_window\<close> on any page of a 1 GB window, \<open>first_word_mapping\<close> of every page of that window (and of
  every page below 2 GB) is a virtual address that the page tables map to that physical page, and \<open>page_of\<close>
  turns any address inside it back into the page number.
\<close>
theorem window_roundtrip:
  assumes "has_pae cpu" "map_window cpu q s = (True, s')" "unat q < 2 ^ 52" "unat p < 2 ^ 52" "n < 4096"
    and "p < PAGE_C 2 GB \<or> drop_bit 18 p = drop_bit 18 q"
  shows "phys_addr s' (unat (first_word_mapping p) + n) = unat p * 4096 + n \<and>
    page_of s' (first_word_mapping p + of_nat n) = p"
  by (rule window_page [OF assms])

text \<open>The processor of the witness: a 64-bit one, long mode and PAE.\<close>

theorem window_roundtrip_witness:
  "phys_addr (snd (map_window \<lparr>has_lm = True, has_pae = True\<rparr> 0x140000 vm_start))
     (unat (first_word_mapping 0x155555) + 0x123) = 0x155555123"
  using window_roundtrip [of "\<lparr>has_lm = True, has_pae = True\<rparr>" "0x140000" vm_start
      "snd (map_window \<lparr>has_lm = True, has_pae = True\<rparr> 0x140000 vm_start)" "0x155555" "0x123"]
  by (simp add: map_window_def Let_def)

section \<open>Device regions\<close>













end
