(* ===== verification/Test_Engine.thy ===== *)
theory Test_Engine
  imports Settings
begin

text \<open>
  What the memory tests of \<open>tests/\<close> share: the segment map they walk, the loops that visit a range of test
  words in blocks of \<open>SPIN_SIZE\<close> with a tick after each block, upwards and downwards, the bail-out after a
  tick, and \<open>calculate_chunk\<close>.

  A pointer to a test word is 8-byte aligned; it is kept as its word index (61 bits), so that \<open>p++\<close>, the
  comparison of pointers and the signed difference \<open>end - pe\<close> are the operations of that word type. A loop
  body works on a state of any type. The global \<open>bail\<close> flag is read only after \<open>do_tick\<close>: it is an argument, a
  function of the number of \<open>do_tick\<close> calls made so far. \<open>test_addr\<close> and the display are not modelled.
\<close>

section \<open>Pointers and segments\<close>

type_synonym ptr = "61 word"

definition byte_addr :: "ptr \<Rightarrow> u64" where
  "byte_addr p = push_bit 3 (ucast p)"

definition word_ptr :: "u64 \<Rightarrow> ptr" where
  "word_ptr a = ucast (drop_bit 3 a)"

definition SPIN_SIZE :: ptr where "SPIN_SIZE = push_bit 27 1"

record vm_map_t =
  pm_base_addr :: u64
  vm_start :: ptr
  vm_end :: ptr
  proximity_domain_idx :: u32

section \<open>The block loops\<close>

record 's scan_state =
  work :: 's
  ticks :: nat
  tick_calls :: nat

definition do_tick :: "'s scan_state \<Rightarrow> 's scan_state" where
  "do_tick st = st\<lparr>tick_calls := tick_calls st + 1\<rparr>"

definition next_up :: "ptr \<Rightarrow> ptr \<Rightarrow> ptr \<times> bool" where
  "next_up pe e = (if word_sle SPIN_SIZE (e - pe) then (pe + (SPIN_SIZE - 1), False) else (e, True))"

definition next_down :: "ptr \<Rightarrow> ptr \<Rightarrow> ptr \<times> bool" where
  "next_down ps s = (if word_sle SPIN_SIZE (ps - s) then (ps - (SPIN_SIZE - 1), False) else (s, True))"

text \<open>\<open>do { body(p); } while (p++ < pe);\<close> and its downward twin, with the pointer they leave.\<close>

function up_words :: "(ptr \<Rightarrow> 's \<Rightarrow> 's) \<Rightarrow> ptr \<Rightarrow> ptr \<Rightarrow> 's \<Rightarrow> ptr \<times> 's" where
  "up_words body p pe w =
     (if p < pe then up_words body (p + 1) pe (body p w) else (p + 1, body p w))"
  by pat_completeness auto
termination
  by (relation "measure (\<lambda>(_, p, pe, _). unat pe - unat p)") (auto intro: word_dist_less)

function down_words :: "(ptr \<Rightarrow> 's \<Rightarrow> 's) \<Rightarrow> ptr \<Rightarrow> ptr \<Rightarrow> 's \<Rightarrow> ptr \<times> 's" where
  "down_words body p ps w =
     (if p > ps then down_words body (p - 1) ps (body p w) else (p - 1, body p w))"
  by pat_completeness auto
termination
proof (relation "measure (\<lambda>(_, p, _, _). unat p)")
  fix p ps :: ptr
  assume "ps < p"
  then have "0 < unat p" by (simp add: word_less_nat_alt)
  then show "\<And>body w. ((body, p - 1, ps, body p w), body, p, ps, w) \<in> measure (\<lambda>(_, p, _, _). unat p)"
    using unat_pred [of p] by simp
qed auto

declare up_words.simps [simp del] down_words.simps [simp del]

lemma sint_ptr_small: "uint (d :: ptr) < 2 ^ 60 \<Longrightarrow> sint d = uint d"
  using order.trans [OF _ uint_ge_0, of "- (2 ^ 60)" d] by (simp add: sint_uint signed_take_bit_int_eq_self_iff)

lemma uint_ptr_nonneg: "0 \<le> sint (d :: ptr) \<Longrightarrow> uint d = sint d"
proof -
  assume "0 \<le> sint d"
  moreover have "sint d < 2 ^ 60" using sint_lt [of d] by simp
  ultimately show ?thesis by (simp add: uint_sint take_bit_int_eq_self_iff)
qed

lemma spin_uint: "uint SPIN_SIZE = 2 ^ 27" "sint SPIN_SIZE = 2 ^ 27"
  by (simp_all add: SPIN_SIZE_def sint_ptr_small)

lemma spin_steps:
  fixes d :: ptr
  assumes "word_sle SPIN_SIZE d"
  shows "nat (sint (d - SPIN_SIZE)) < nat (sint d)"
proof -
  have d: "2 ^ 27 \<le> sint d" using assms by (simp add: word_sle_eq spin_uint)
  then have u: "uint d = sint d" by (intro uint_ptr_nonneg) simp
  have lt: "sint d < 2 ^ 60" using sint_lt [of d] by simp
  have "uint (d - SPIN_SIZE) = (sint d - 2 ^ 27) mod 2 ^ 61"
    by (simp only: uint_word_ariths(2) spin_uint u) simp
  then have "uint (d - SPIN_SIZE) = sint d - 2 ^ 27" using d lt by simp
  then have "sint (d - SPIN_SIZE) = sint d - 2 ^ 27"
    using lt sint_ptr_small [of "d - SPIN_SIZE"] by simp
  then show ?thesis using d by simp
qed

lemma next_up_measure:
  assumes nx: "(pe1, at_end) = next_up pe e" and go: "\<not> (at_end \<or> pe1 + 1 = 0)"
  shows "nat (sint (e - (pe1 + 1))) < nat (sint (e - pe))"
proof -
  from nx go
  have "word_sle SPIN_SIZE (e - pe)" "pe1 = pe + (SPIN_SIZE - 1)"
    by (auto simp: next_up_def split: if_splits)
  then show ?thesis
    using spin_steps [of "e - pe"] by (simp add: algebra_simps)
qed

text \<open>
  The loop over blocks. \<open>blk p pe\<close> is the inner loop over one block, it returns the pointer that the next
  block starts from. A CPU number below 0 is the dummy run that only counts ticks.
\<close>

function up_scan ::
  "int \<Rightarrow> (nat \<Rightarrow> bool) \<Rightarrow> (ptr \<Rightarrow> ptr \<Rightarrow> 's \<Rightarrow> ptr \<times> 's) \<Rightarrow> ptr \<Rightarrow> ptr \<Rightarrow> ptr \<Rightarrow> 's scan_state \<Rightarrow> bool \<times> 's scan_state"
where
  "up_scan cpu bail blk p pe e st =
     (let (pe1, at_end) = next_up pe e;
          st1 = st\<lparr>ticks := ticks st + 1\<rparr>
      in if cpu < 0
         then (if at_end \<or> pe1 + 1 = 0 then (False, st1) else up_scan cpu bail blk p (pe1 + 1) e st1)
         else (let (p1, w) = blk p pe1 (work st1);
                   st2 = do_tick (st1\<lparr>work := w\<rparr>)
               in if bail (tick_calls st2) then (True, st2)
                  else if at_end \<or> pe1 + 1 = 0 then (False, st2)
                  else up_scan cpu bail blk p1 (pe1 + 1) e st2))"
  by pat_completeness auto
termination
proof (relation "measure (\<lambda>(_, _, _, _, pe, e, _). nat (sint (e - pe)))")
  show "((cpu, bail, blk, p, x + 1, e, st1), cpu, bail, blk, p, pe, e, st)
      \<in> measure (\<lambda>(_, _, _, _, pe, e, _). nat (sint (e - pe)))"
    if "a = next_up pe e" "(x, y) = a" "\<not> (y \<or> x + 1 = 0)"
    for cpu bail blk p pe e st st1 a x y
    using next_up_measure [of x y pe e] that by simp
  show "((cpu, bail, blk, xa, x + 1, e, st2), cpu, bail, blk, p, pe, e, st)
      \<in> measure (\<lambda>(_, _, _, _, pe, e, _). nat (sint (e - pe)))"
    if "a = next_up pe e" "(x, y) = a" "\<not> (y \<or> x + 1 = 0)"
    for cpu bail blk p pe e st st2 xa a x y
    using next_up_measure [of x y pe e] that by simp
qed auto

function down_scan ::
  "int \<Rightarrow> (nat \<Rightarrow> bool) \<Rightarrow> (ptr \<Rightarrow> ptr \<Rightarrow> 's \<Rightarrow> ptr \<times> 's) \<Rightarrow> ptr \<Rightarrow> ptr \<Rightarrow> ptr \<Rightarrow> 's scan_state \<Rightarrow> bool \<times> 's scan_state"
where
  "down_scan cpu bail blk p ps s st =
     (let (ps1, at_start) = next_down ps s;
          st1 = st\<lparr>ticks := ticks st + 1\<rparr>
      in if cpu < 0
         then (if at_start \<or> ps1 - 1 = 0 then (False, st1) else down_scan cpu bail blk p (ps1 - 1) s st1)
         else (let (p1, w) = blk p ps1 (work st1);
                   st2 = do_tick (st1\<lparr>work := w\<rparr>)
               in if bail (tick_calls st2) then (True, st2)
                  else if at_start \<or> ps1 - 1 = 0 then (False, st2)
                  else down_scan cpu bail blk p1 (ps1 - 1) s st2))"
  by pat_completeness auto
termination
proof (relation "measure (\<lambda>(_, _, _, _, ps, s, _). nat (sint (ps - s)))")
  have key: "nat (sint (ps1 - 1 - s)) < nat (sint (ps - s))"
    if nx: "(ps1, at_start) = next_down ps s" and go: "\<not> (at_start \<or> ps1 - 1 = 0)" for ps s ps1 at_start
  proof -
    from nx go
    have far: "word_sle SPIN_SIZE (ps - s)" and ps1: "ps1 = ps - (SPIN_SIZE - 1)"
      by (auto simp: next_down_def split: if_splits)
    have "ps1 - 1 - s = ps - s - SPIN_SIZE" by (simp add: ps1)
    from spin_steps [OF far, folded this] show ?thesis .
  qed
  show "((cpu, bail, blk, p, x - 1, s, st1), cpu, bail, blk, p, ps, s, st)
      \<in> measure (\<lambda>(_, _, _, _, ps, s, _). nat (sint (ps - s)))"
    if "a = next_down ps s" "(x, y) = a" "\<not> (y \<or> x - 1 = 0)"
    for cpu bail blk p ps s st st1 a x y
    using key [of x y ps s] that by simp
  show "((cpu, bail, blk, xa, x - 1, s, st2), cpu, bail, blk, p, ps, s, st)
      \<in> measure (\<lambda>(_, _, _, _, ps, s, _). nat (sint (ps - s)))"
    if "a = next_down ps s" "(x, y) = a" "\<not> (y \<or> x - 1 = 0)"
    for cpu bail blk p ps s st st2 xa a x y
    using key [of x y ps s] that by simp
qed auto

declare up_scan.simps [simp del] down_scan.simps [simp del]

text \<open>\<open>SKIP_RANGE\<close>: the ticks of a range that is too small, without counting them in \<open>ticks\<close>.\<close>

fun skip_ticks :: "(nat \<Rightarrow> bool) \<Rightarrow> nat \<Rightarrow> 's scan_state \<Rightarrow> bool \<times> 's scan_state" where
  "skip_ticks bail 0 st = (False, st)"
| "skip_ticks bail (Suc n) st =
     (if bail (tick_calls (do_tick st)) then (True, do_tick st) else skip_ticks bail n (do_tick st))"

definition SKIP_RANGE :: "int \<Rightarrow> (nat \<Rightarrow> bool) \<Rightarrow> nat \<Rightarrow> 's scan_state \<Rightarrow> bool \<times> 's scan_state" where
  "SKIP_RANGE cpu bail n st = (if cpu \<ge> 0 then skip_ticks bail n st else (False, st))"

text \<open>A loop over segments (or over iterations), left when one of them bails out.\<close>

fun for_each :: "('a \<Rightarrow> 's scan_state \<Rightarrow> bool \<times> 's scan_state) \<Rightarrow> 'a list \<Rightarrow> 's scan_state \<Rightarrow> bool \<times> 's scan_state" where
  "for_each f [] st = (False, st)"
| "for_each f (x # xs) st =
     (let (bailed, st1) = f x st in if bailed then (True, st1) else for_each f xs st1)"

definition and_then ::
  "('s scan_state \<Rightarrow> bool \<times> 's scan_state) \<Rightarrow> ('s scan_state \<Rightarrow> bool \<times> 's scan_state) \<Rightarrow> 's scan_state \<Rightarrow> bool \<times> 's scan_state"
where
  "and_then f g st = (let (bailed, st1) = f st in if bailed then (True, st1) else g st1)"

section \<open>Chunks\<close>

definition round_down :: "u64 \<Rightarrow> u64 \<Rightarrow> u64" where
  "round_down val align_size = val AND NOT (align_size - 1)"

definition round_up :: "u64 \<Rightarrow> u64 \<Rightarrow> u64" where
  "round_up val align_size = (val + (align_size - 1)) AND NOT (align_size - 1)"

record chunk_config =
  num_active_cpus :: nat
  enable_numa :: bool
  chunk_index :: "nat \<Rightarrow> nat"
  used_cpus_in_proximity_domain :: "u32 \<Rightarrow> nat"
  cpu_proximity_domain :: "nat \<Rightarrow> u32"

definition chunk_bounds :: "ptr \<Rightarrow> ptr \<Rightarrow> nat \<Rightarrow> nat \<Rightarrow> u64 \<Rightarrow> ptr \<times> ptr" where
  "chunk_bounds seg_start seg_end num_cpus idx chunk_align =
     (let segment_size = ucast (seg_end - seg_start + 1) * 8;
          chunk_size = round_down (segment_size div of_nat num_cpus) chunk_align;
          s = word_ptr (byte_addr seg_start + chunk_size * of_nat idx);
          e = word_ptr (byte_addr s + chunk_size) - 1
      in (s, if e > seg_end then seg_end else e))"

definition calculate_chunk :: "chunk_config \<Rightarrow> int \<Rightarrow> vm_map_t \<Rightarrow> u64 \<Rightarrow> ptr \<times> ptr" where
  "calculate_chunk cfg my_cpu seg chunk_align =
     (let cpu = nat (if my_cpu < 0 then 0 else my_cpu)
      in if num_active_cpus cfg = 1 then (vm_start seg, vm_end seg)
         else if enable_numa cfg
           then (let dom = cpu_proximity_domain cfg cpu
                 in if dom = proximity_domain_idx seg
                    then chunk_bounds (vm_start seg) (vm_end seg) (used_cpus_in_proximity_domain cfg dom) (chunk_index cfg cpu) chunk_align
                    else (1, 0))
         else chunk_bounds (vm_start seg) (vm_end seg) (num_active_cpus cfg) (chunk_index cfg cpu) chunk_align)"

end
