(* ===== verification/Test_Scan.thy ===== *)
theory Test_Scan
  imports Test_Engine
begin

text \<open>
  Facts about the shared loops of \<open>Test_Engine\<close>: a scan upwards or downwards runs its body over every word of the
  range exactly once in order (\<open>scanned\<close>), takes one tick per block of \<open>SPIN_SIZE\<close> words whether it is a dummy
  run or not, and \<open>calculate_chunk\<close> divides a segment into disjoint chunks.
\<close>

section \<open>The words that a scan visits\<close>

lemma unat_ptr_less: "unat (p :: ptr) < 2 ^ 61"
proof -
  have "unat p < 2 ^ LENGTH(61)" by (rule unsigned_less)
  then show ?thesis by simp
qed

definition words :: "ptr \<Rightarrow> ptr \<Rightarrow> ptr list" where
  "words a b = map (\<lambda>k. a + of_nat k) [0..<Suc (unat b - unat a)]"

lemma words_single: "words a a = [a]"
  by (simp add: words_def)

lemma length_words: "length (words a b) = Suc (unat b - unat a)"
  by (simp add: words_def)

lemma words_Cons:
  assumes "a < b"
  shows "words a b = a # words (a + 1) b"
proof -
  have "unat (a + 1) = Suc (unat a)" using assms by (rule word_less_Suc_unat)
  moreover have "unat a < unat b" using assms by (simp add: word_less_nat_alt)
  ultimately have "Suc (unat b - unat a) = Suc (Suc (unat b - unat (a + 1)))" by simp
  then show ?thesis
    unfolding words_def by (simp only: upt_conv_Cons [of 0] map_Suc_upt [symmetric] list.map) (simp add: comp_def)
qed

lemma set_words:
  assumes "a \<le> b"
  shows "set (words a b) = {a..b}"
proof
  show "set (words a b) \<subseteq> {a..b}"
  proof
    fix x
    assume "x \<in> set (words a b)"
    then obtain k where k: "k \<le> unat b - unat a" "x = a + of_nat k" by (auto simp: words_def less_Suc_eq_le simp del: upt_Suc)
    have "unat a + k < 2 ^ 61" using k(1) assms unat_ptr_less [of b] by (simp add: word_le_nat_alt)
    then have "unat x = unat a + k" using k(2) by (simp add: unat_word_ariths unat_of_nat)
    then show "x \<in> {a..b}" using k(1) assms by (simp add: word_le_nat_alt)
  qed
  show "{a..b} \<subseteq> set (words a b)"
  proof
    fix x
    assume "x \<in> {a..b}"
    then have x: "unat a \<le> unat x" "unat x \<le> unat b" by (simp_all add: word_le_nat_alt)
    have "x = a + of_nat (unat x - unat a)" using x by (simp add: of_nat_diff)
    then show "x \<in> set (words a b)" using x by (auto simp: words_def simp del: upt_Suc intro!: image_eqI [of _ _ "unat x - unat a"])
  qed
qed

lemma distinct_words: "distinct (words a b)"
proof -
  have "inj_on (\<lambda>k. a + of_nat k) {0..<Suc (unat b - unat a)}"
  proof (rule inj_onI)
    fix j k
    assume j: "j \<in> {0..<Suc (unat b - unat a)}" "k \<in> {0..<Suc (unat b - unat a)}" "a + of_nat j = a + of_nat k"
    then have "unat (of_nat j :: ptr) = unat (of_nat k :: ptr)" "j < 2 ^ 61" "k < 2 ^ 61"
      using unat_ptr_less [of b] by auto
    then show "j = k" by (simp add: unat_of_nat)
  qed
  then show ?thesis by (simp add: words_def distinct_map del: upt_Suc)
qed

lemma words_append:
  assumes "a \<le> m" "m < b"
  shows "words a b = words a m @ words (m + 1) b"
proof -
  have u: "unat a \<le> unat m" "unat m < unat b" using assms by (simp_all add: word_le_nat_alt word_less_nat_alt)
  have m1: "unat (m + 1) = Suc (unat m)" using assms(2) by (rule word_less_Suc_unat)
  let ?j = "Suc (unat m - unat a)" and ?n = "Suc (unat b - unat (m + 1))"
  have len: "Suc (unat b - unat a) = ?j + ?n" using u m1 by simp
  have "[0..<?j + ?n] = [0..<?j] @ [?j..<?j + ?n]" by (rule upt_add_eq_append) simp
  then have "words a b = map (\<lambda>k. a + of_nat k) [0..<?j] @ map (\<lambda>k. a + of_nat k) [?j..<?j + ?n]"
    unfolding words_def len by (simp only: map_append)
  moreover have "map (\<lambda>k. a + of_nat k) [?j..<?j + ?n] = words (m + 1) b"
  proof (rule nth_equalityI)
    show "length (map (\<lambda>k. a + of_nat k) [?j..<?j + ?n]) = length (words (m + 1) b)" by (simp add: words_def del: upt_Suc)
    fix i
    assume i: "i < length (map (\<lambda>k. a + of_nat k) [?j..<?j + ?n])"
    have "a + of_nat (?j + i) = m + 1 + of_nat i"
      using u(1) by (simp add: of_nat_diff)
    then show "map (\<lambda>k. a + of_nat k) [?j..<?j + ?n] ! i = words (m + 1) b ! i"
      using i by (simp add: words_def del: upt_Suc)
  qed
  ultimately show ?thesis by (simp add: words_def)
qed

lemma up_words_fold:
  assumes "p \<le> pe"
  shows "up_words body p pe w = (pe + 1, fold body (words p pe) w)"
  using assms
proof (induction body p pe w rule: up_words.induct)
  case (1 body p pe w)
  show ?case
  proof (cases "p < pe")
    case True
    then have "p + 1 \<le> pe" by (rule inc_le)
    then show ?thesis using 1 True by (simp add: up_words.simps [of body p pe w] words_Cons)
  next
    case False
    then have "p = pe" using "1.prems" by simp
    then show ?thesis by (simp add: up_words.simps [of body pe pe w] words_single)
  qed
qed

lemma words_snoc:
  assumes "a < b"
  shows "words a b = words a (b - 1) @ [b]"
proof -
  have "0 < unat b" using assms by (simp add: word_less_nat_alt)
  then have "unat (b - 1) = unat b - 1" by (rule unat_pred)
  then have "a \<le> b - 1" "b - 1 < b" using assms by (simp_all add: word_le_nat_alt word_less_nat_alt)
  from words_append [OF this] show ?thesis by (simp add: words_single)
qed

lemma down_words_fold:
  assumes "ps \<le> p"
  shows "down_words body p ps w = (ps - 1, fold body (rev (words ps p)) w)"
  using assms
proof (induction body p ps w rule: down_words.induct)
  case (1 body p ps w)
  show ?case
  proof (cases "p > ps")
    case True
    have "0 < unat p" using True by (simp add: word_less_nat_alt)
    then have "unat (p - 1) = unat p - 1" by (rule unat_pred)
    then have "ps \<le> p - 1" using True by (simp add: word_le_nat_alt word_less_nat_alt)
    then show ?thesis using 1 True by (simp add: down_words.simps [of body p ps w] words_snoc)
  next
    case False
    then have "p = ps" using "1.prems" by simp
    then show ?thesis by (simp add: down_words.simps [of body ps ps w] words_single)
  qed
qed

section \<open>Scans\<close>

text \<open>A range that a scan may run over: in order, and not half of the address space.\<close>

definition scan_range :: "ptr \<Rightarrow> ptr \<Rightarrow> bool" where
  "scan_range s e \<longleftrightarrow> 0 < s \<and> s \<le> e \<and> unat e - unat s < 2 ^ 60"

definition blocks :: "ptr \<Rightarrow> ptr \<Rightarrow> nat" where
  "blocks s e = (unat e - unat s) div 2 ^ 27 + 1"

text \<open>
  A loop over the words \<open>ws\<close> that may have bailed out on the way: the body ran over a prefix, over all of them
  when it did not bail out.
\<close>

definition scanned :: "('a \<Rightarrow> 's \<Rightarrow> 's) \<Rightarrow> 'a list \<Rightarrow> bool \<Rightarrow> 's \<Rightarrow> 's \<Rightarrow> bool" where
  "scanned body ws bailed w w' \<longleftrightarrow>
     (\<exists>n. w' = fold body (take n ws) w \<and> (\<not> bailed \<longrightarrow> length ws \<le> n))"

lemma scanned_all: "scanned body ws False w w' \<longleftrightarrow> w' = fold body ws w"
proof -
  have "fold body ws w = fold body (take (length ws) ws) w" by simp
  then show ?thesis unfolding scanned_def by (metis order_refl take_all)
qed

lemma scanned_Nil: "scanned body [] b w w' \<longleftrightarrow> w' = w"
  by (auto simp: scanned_def)

lemma scanned_append:
  assumes "scanned body ws1 False w w1" "scanned body ws2 b w1 w2"
  shows "scanned body (ws1 @ ws2) b w w2"
proof -
  obtain n where "w2 = fold body (take n ws2) w1" "\<not> b \<longrightarrow> length ws2 \<le> n"
    using assms(2) by (auto simp: scanned_def)
  then show ?thesis
    using assms(1) by (auto simp: scanned_def scanned_all intro!: exI [of _ "length ws1 + n"])
qed

lemma scanned_more:
  assumes "scanned body ws1 True w w1"
  shows "scanned body (ws1 @ ws2) True w w1"
proof -
  obtain n where n: "w1 = fold body (take n ws1) w" using assms by (auto simp: scanned_def)
  have "take (min n (length ws1)) (ws1 @ ws2) = take n ws1" by (simp add: min_def)
  then show ?thesis using n unfolding scanned_def by metis
qed

lemma scanned_bailed: "scanned body ws False w w1 \<Longrightarrow> scanned body ws True w w1"
  by (auto simp: scanned_def)

definition word_block :: "(ptr \<Rightarrow> ptr \<Rightarrow> 's \<Rightarrow> ptr \<times> 's) \<Rightarrow> (ptr \<Rightarrow> 's \<Rightarrow> 's) \<Rightarrow> bool" where
  "word_block blk body \<longleftrightarrow> (\<forall>p pe w. p \<le> pe \<longrightarrow> blk p pe w = (pe + 1, fold body (words p pe) w))"

lemma word_block_up: "word_block (up_words body) body"
  by (simp add: word_block_def up_words_fold)

lemma sint_gap:
  assumes "(s::ptr) \<le> e" "unat e - unat s < 2 ^ 60"
  shows "word_sle SPIN_SIZE (e - s) \<longleftrightarrow> 2 ^ 27 \<le> unat e - unat s"
proof -
  have u: "unat (e - s) = unat e - unat s" using assms(1) by (rule unat_sub)
  then have "uint (e - s) = int (unat e - unat s)" by (metis uint_nat)
  moreover from this have "sint (e - s) = int (unat e - unat s)"
    using assms(2) sint_ptr_small [of "e - s"] by simp
  ultimately show ?thesis by (auto simp: word_sle_eq spin_uint)
qed

lemma spin_unat: "unat SPIN_SIZE = 2 ^ 27"
  by (simp add: SPIN_SIZE_def)

lemma next_up_far:
  assumes "scan_range pe e" "2 ^ 27 \<le> unat e - unat pe"
  shows "next_up pe e = (pe + (SPIN_SIZE - 1), False)" "pe \<le> pe + (SPIN_SIZE - 1)" "pe + (SPIN_SIZE - 1) < e"
    "scan_range (pe + SPIN_SIZE) e" "blocks pe e = Suc (blocks (pe + SPIN_SIZE) e)" "pe + SPIN_SIZE \<noteq> 0"
proof -
  have le: "pe \<le> e" "unat e - unat pe < 2 ^ 60" using assms(1) by (simp_all add: scan_range_def)
  show "next_up pe e = (pe + (SPIN_SIZE - 1), False)"
    using assms(2) sint_gap [OF le] by (simp add: next_up_def)
  have eb: "unat e < 2 ^ 61" by (rule unat_ptr_less)
  have spin1: "unat (SPIN_SIZE - 1) = 2 ^ 27 - 1" by (simp add: unat_pred spin_unat)
  have u1: "unat (pe + (SPIN_SIZE - 1)) = unat pe + (2 ^ 27 - 1)"
    using assms(2) eb spin1 by (simp add: unat_word_ariths)
  have u2: "unat (pe + SPIN_SIZE) = unat pe + 2 ^ 27"
    using assms(2) eb spin_unat by (simp add: unat_word_ariths)
  show "pe \<le> pe + (SPIN_SIZE - 1)" "pe + (SPIN_SIZE - 1) < e"
    using u1 assms(2) by (simp_all add: word_le_nat_alt word_less_nat_alt)
  show "scan_range (pe + SPIN_SIZE) e"
    using u2 assms le by (auto simp: scan_range_def word_le_nat_alt word_less_nat_alt)
  have "unat e - unat pe = (unat e - unat (pe + SPIN_SIZE)) + 1 * 2 ^ 27" using u2 assms(2) by simp
  then show "blocks pe e = Suc (blocks (pe + SPIN_SIZE) e)"
    unfolding blocks_def by (simp only: div_mult_self1 power_not_zero) simp
  show "pe + SPIN_SIZE \<noteq> 0" using u2 by (metis add_is_0 power_not_zero unat_0 zero_neq_numeral)
qed

lemma next_up_near:
  assumes "scan_range pe e" "\<not> 2 ^ 27 \<le> unat e - unat pe"
  shows "next_up pe e = (e, True)" "blocks pe e = 1"
  using assms sint_gap [of pe e] by (simp_all add: next_up_def scan_range_def blocks_def)

lemma up_scan_words:
  assumes "scan_range pe e" "word_block blk body" "0 \<le> cpu"
  shows "scanned body (words pe e) (fst (up_scan cpu bail blk pe pe e st)) (work st)
    (work (snd (up_scan cpu bail blk pe pe e st)))"
  using assms(1)
proof (induction "blocks pe e" arbitrary: pe st)
  case 0
  then show ?case by (simp add: blocks_def)
next
  case (Suc k)
  have le: "pe \<le> e" using Suc.prems by (simp add: scan_range_def)
  show ?case
  proof (cases "2 ^ 27 \<le> unat e - unat pe")
    case False
    note near = next_up_near [OF Suc.prems False]
    show ?thesis
      using assms(2,3) le
      by (simp add: up_scan.simps [of cpu bail blk pe pe e st] near Let_def word_block_def do_tick_def scanned_all
          scanned_bailed)
  next
    case True
    note far = next_up_far [OF Suc.prems True]
    let ?pe1 = "pe + (SPIN_SIZE - 1)"
    have pe2: "?pe1 + 1 = pe + SPIN_SIZE" by simp
    let ?st1 = "do_tick (st\<lparr>ticks := ticks st + 1, work := fold body (words pe ?pe1) (work st)\<rparr>)"
    have split: "words pe e = words pe ?pe1 @ words (pe + SPIN_SIZE) e"
      using words_append [OF far(2,3)] by (simp only: pe2)
    have scan: "up_scan cpu bail blk pe pe e st =
        (if bail (tick_calls ?st1) then (True, ?st1) else up_scan cpu bail blk (pe + SPIN_SIZE) (pe + SPIN_SIZE) e ?st1)"
      using assms(2,3) far(1,2,6)
      by (simp add: up_scan.simps [of cpu bail blk pe pe e st] Let_def word_block_def pe2 [simplified])
    have first: "scanned body (words pe ?pe1) False (work st) (work ?st1)"
      by (simp add: scanned_all do_tick_def)
    show ?thesis
    proof (cases "bail (tick_calls ?st1)")
      case True
      then show ?thesis
        unfolding scan split using scanned_more [OF scanned_bailed [OF first]] by simp
    next
      case False
      have "k = blocks (pe + SPIN_SIZE) e" using Suc.hyps(2) far(5) by simp
      then have "scanned body (words (pe + SPIN_SIZE) e)
          (fst (up_scan cpu bail blk (pe + SPIN_SIZE) (pe + SPIN_SIZE) e ?st1)) (work ?st1)
          (work (snd (up_scan cpu bail blk (pe + SPIN_SIZE) (pe + SPIN_SIZE) e ?st1)))"
        using far(4) by (rule Suc.hyps(1))
      then show ?thesis
        unfolding scan split using scanned_append [OF first] False by simp
    qed
  qed
qed


definition word_block_down :: "(ptr \<Rightarrow> ptr \<Rightarrow> 's \<Rightarrow> ptr \<times> 's) \<Rightarrow> (ptr \<Rightarrow> 's \<Rightarrow> 's) \<Rightarrow> bool" where
  "word_block_down blk body \<longleftrightarrow> (\<forall>p ps w. ps \<le> p \<longrightarrow> blk p ps w = (ps - 1, fold body (rev (words ps p)) w))"

lemma word_block_down_words: "word_block_down (down_words body) body"
  by (simp add: word_block_down_def down_words_fold)

lemma next_down_far:
  assumes "scan_range s ps" "2 ^ 27 \<le> unat ps - unat s"
  shows "next_down ps s = (ps - (SPIN_SIZE - 1), False)" "s < ps - (SPIN_SIZE - 1)" "ps - (SPIN_SIZE - 1) \<le> ps"
    "scan_range s (ps - SPIN_SIZE)" "blocks s ps = Suc (blocks s (ps - SPIN_SIZE))" "ps - SPIN_SIZE \<noteq> 0"
proof -
  have le: "s \<le> ps" "unat ps - unat s < 2 ^ 60" "0 < unat s"
    using assms(1) by (simp_all add: scan_range_def word_less_nat_alt)
  show "next_down ps s = (ps - (SPIN_SIZE - 1), False)"
    using assms(2) sint_gap [OF le(1,2)] by (simp add: next_down_def)
  have spin1: "unat (SPIN_SIZE - 1) = 2 ^ 27 - 1" by (simp add: unat_pred spin_unat)
  have u1: "unat (ps - (SPIN_SIZE - 1)) = unat ps - (2 ^ 27 - 1)"
    using unat_sub [of "SPIN_SIZE - 1" ps] assms(2) spin1 by (simp add: word_le_nat_alt)
  have u2: "unat (ps - SPIN_SIZE) = unat ps - 2 ^ 27"
    using unat_sub [of SPIN_SIZE ps] assms(2) spin_unat by (simp add: word_le_nat_alt)
  show "s < ps - (SPIN_SIZE - 1)" "ps - (SPIN_SIZE - 1) \<le> ps"
    using u1 assms(2) by (auto simp: word_le_nat_alt word_less_nat_alt)
  show "scan_range s (ps - SPIN_SIZE)"
    using u2 assms le by (auto simp: scan_range_def word_le_nat_alt word_less_nat_alt)
  have "unat ps - unat s = (unat (ps - SPIN_SIZE) - unat s) + 1 * 2 ^ 27" using u2 assms(2) by simp
  then show "blocks s ps = Suc (blocks s (ps - SPIN_SIZE))"
    unfolding blocks_def by (simp only: div_mult_self1 power_not_zero) simp
  show "ps - SPIN_SIZE \<noteq> 0"
  proof
    assume "ps - SPIN_SIZE = 0"
    then have "unat (ps - SPIN_SIZE) = 0" by simp
    then show False using u2 le(3) assms(2) by simp
  qed
qed

lemma next_down_near:
  assumes "scan_range s ps" "\<not> 2 ^ 27 \<le> unat ps - unat s"
  shows "next_down ps s = (s, True)" "blocks s ps = 1"
  using assms sint_gap [of s ps] by (simp_all add: next_down_def scan_range_def blocks_def)

lemma down_scan_words:
  assumes "scan_range s ps" "word_block_down blk body" "0 \<le> cpu"
  shows "scanned body (rev (words s ps)) (fst (down_scan cpu bail blk ps ps s st)) (work st)
    (work (snd (down_scan cpu bail blk ps ps s st)))"
  using assms(1)
proof (induction "blocks s ps" arbitrary: ps st)
  case 0
  then show ?case by (simp add: blocks_def)
next
  case (Suc k)
  have le: "s \<le> ps" using Suc.prems by (simp add: scan_range_def)
  show ?case
  proof (cases "2 ^ 27 \<le> unat ps - unat s")
    case False
    note near = next_down_near [OF Suc.prems False]
    show ?thesis
      using assms(2,3) le
      by (simp add: down_scan.simps [of cpu bail blk ps ps s st] near Let_def word_block_down_def do_tick_def scanned_all
          scanned_bailed)
  next
    case True
    note far = next_down_far [OF Suc.prems True]
    let ?ps1 = "ps - (SPIN_SIZE - 1)"
    have ps2: "?ps1 - 1 = ps - SPIN_SIZE" by simp
    let ?st1 = "do_tick (st\<lparr>ticks := ticks st + 1, work := fold body (rev (words ?ps1 ps)) (work st)\<rparr>)"
    have pred: "s \<le> ps - SPIN_SIZE" "ps - SPIN_SIZE < ps"
    proof -
      show "s \<le> ps - SPIN_SIZE" using far(4) by (simp add: scan_range_def)
      have "0 < unat ?ps1" using far(2) by (simp add: word_less_nat_alt)
      then have "unat (ps - SPIN_SIZE) < unat ?ps1" using unat_pred [of ?ps1] ps2 by simp
      then show "ps - SPIN_SIZE < ps" using far(3) by (simp add: word_less_nat_alt word_le_nat_alt)
    qed
    have "words s ps = words s (ps - SPIN_SIZE) @ words (ps - SPIN_SIZE + 1) ps"
      using pred by (rule words_append)
    moreover have "ps - SPIN_SIZE + 1 = ?ps1" by (simp add: algebra_simps)
    ultimately have split: "rev (words s ps) = rev (words ?ps1 ps) @ rev (words s (ps - SPIN_SIZE))"
      by simp
    have scan: "down_scan cpu bail blk ps ps s st =
        (if bail (tick_calls ?st1) then (True, ?st1) else down_scan cpu bail blk (ps - SPIN_SIZE) (ps - SPIN_SIZE) s ?st1)"
      using assms(2,3) far(1,3,6)
      by (simp add: down_scan.simps [of cpu bail blk ps ps s st] Let_def word_block_down_def ps2 [simplified])
    have first: "scanned body (rev (words ?ps1 ps)) False (work st) (work ?st1)"
      by (simp add: scanned_all do_tick_def)
    show ?thesis
    proof (cases "bail (tick_calls ?st1)")
      case True
      then show ?thesis
        unfolding scan split using scanned_more [OF scanned_bailed [OF first]] by simp
    next
      case False
      have "k = blocks s (ps - SPIN_SIZE)" using Suc.hyps(2) far(5) by simp
      then have "scanned body (rev (words s (ps - SPIN_SIZE)))
          (fst (down_scan cpu bail blk (ps - SPIN_SIZE) (ps - SPIN_SIZE) s ?st1)) (work ?st1)
          (work (snd (down_scan cpu bail blk (ps - SPIN_SIZE) (ps - SPIN_SIZE) s ?st1)))"
        using far(4) by (rule Suc.hyps(1))
      then show ?thesis
        unfolding scan split using scanned_append [OF first] False by simp
    qed
  qed
qed

section \<open>Ticks\<close>

lemma up_scan_ticks:
  assumes "scan_range pe e" "\<And>k. \<not> bail k"
  shows "\<not> fst (up_scan cpu bail blk p pe e st) \<and>
    ticks (snd (up_scan cpu bail blk p pe e st)) = ticks st + blocks pe e \<and>
    tick_calls (snd (up_scan cpu bail blk p pe e st)) = tick_calls st + (if cpu < 0 then 0 else blocks pe e) \<and>
    (cpu < 0 \<longrightarrow> work (snd (up_scan cpu bail blk p pe e st)) = work st)"
  using assms(1)
proof (induction "blocks pe e" arbitrary: p pe st)
  case 0
  then show ?case by (simp add: blocks_def)
next
  case (Suc k)
  show ?case
  proof (cases "2 ^ 27 \<le> unat e - unat pe")
    case False
    note near = next_up_near [OF Suc.prems False]
    show ?thesis
      using assms(2) by (auto simp: up_scan.simps [of cpu bail blk p pe e st] near Let_def do_tick_def split: prod.split)
  next
    case True
    note far = next_up_far [OF Suc.prems True]
    have pe2: "pe + (SPIN_SIZE - 1) + 1 = pe + SPIN_SIZE" by simp
    have k: "k = blocks (pe + SPIN_SIZE) e" using Suc.hyps(2) far(5) by simp
    show ?thesis
      using Suc.hyps(1) [OF k far(4)] assms(2) far(6) k Suc.hyps(2)
      by (simp add: up_scan.simps [of cpu bail blk p pe e st] far(1) Let_def pe2 [simplified] do_tick_def split: prod.split)
  qed
qed

lemma down_scan_ticks:
  assumes "scan_range s ps" "\<And>k. \<not> bail k"
  shows "\<not> fst (down_scan cpu bail blk p ps s st) \<and>
    ticks (snd (down_scan cpu bail blk p ps s st)) = ticks st + blocks s ps \<and>
    tick_calls (snd (down_scan cpu bail blk p ps s st)) = tick_calls st + (if cpu < 0 then 0 else blocks s ps) \<and>
    (cpu < 0 \<longrightarrow> work (snd (down_scan cpu bail blk p ps s st)) = work st)"
  using assms(1)
proof (induction "blocks s ps" arbitrary: p ps st)
  case 0
  then show ?case by (simp add: blocks_def)
next
  case (Suc k)
  show ?case
  proof (cases "2 ^ 27 \<le> unat ps - unat s")
    case False
    note near = next_down_near [OF Suc.prems False]
    show ?thesis
      using assms(2) by (auto simp: down_scan.simps [of cpu bail blk p ps s st] near Let_def do_tick_def split: prod.split)
  next
    case True
    note far = next_down_far [OF Suc.prems True]
    have ps2: "ps - (SPIN_SIZE - 1) - 1 = ps - SPIN_SIZE" by simp
    have k: "k = blocks s (ps - SPIN_SIZE)" using Suc.hyps(2) far(5) by simp
    show ?thesis
      using Suc.hyps(1) [OF k far(4)] assms(2) far(6) k Suc.hyps(2)
      by (simp add: down_scan.simps [of cpu bail blk p ps s st] far(1) Let_def ps2 [simplified] do_tick_def split: prod.split)
  qed
qed

section \<open>Chunks\<close>

lemma unat_byte_addr: "unat (byte_addr p) = unat p * 8"
proof -
  have "unat (ucast p :: u64) = unat p" using unat_ptr_less [of p] by (simp add: unat_ucast_small)
  moreover have "unat p * 8 < 2 ^ 64" using unat_ptr_less [of p] by simp
  ultimately show ?thesis by (simp add: byte_addr_def push_bit_eq_mult unat_word_ariths)
qed

lemma unat_word_ptr: "unat (word_ptr a) = unat a div 8"
proof -
  have "unat (drop_bit 3 a) = unat a div 8" using unat_shift [of 3 a] by simp
  moreover have "unat a div 8 < 2 ^ 61" using unat_u64_less [of a] by (simp add: less_mult_imp_div_less)
  ultimately show ?thesis by (simp add: word_ptr_def unat_ucast_small)
qed

lemma unat_round_down:
  assumes "k < 64"
  shows "unat (round_down x (2 ^ k)) = unat x div 2 ^ k * 2 ^ k"
proof -
  have "(2::u64) ^ k - 1 = mask k" by (simp add: mask_eq_exp_minus_1)
  then have "round_down x (2 ^ k) = push_bit k (drop_bit k x)"
    unfolding round_down_def by (simp only:) (rule bit_word_eqI, auto simp: bit_simps)
  moreover have "unat (drop_bit k x) * 2 ^ k < 2 ^ 64"
    unfolding unat_shift using unat_u64_less [of x] div_times_less_eq_dividend [of "unat x" "2 ^ k"]
    by (rule le_less_trans [rotated])
  then have "unat (push_bit k (drop_bit k x)) = unat (drop_bit k x) * 2 ^ k"
    by (simp add: push_bit_eq_mult unat_word_ariths unat_power2_u64 mod_mult_right_eq)
  ultimately show ?thesis by (simp only: unat_shift)
qed

text \<open>The number of words of a segment, and of a chunk when it is divided among \<open>n\<close> CPUs.\<close>

definition seg_words :: "ptr \<Rightarrow> ptr \<Rightarrow> nat" where
  "seg_words s e = unat e - unat s + 1"

definition chunk_words :: "ptr \<Rightarrow> ptr \<Rightarrow> nat \<Rightarrow> nat \<Rightarrow> nat" where
  "chunk_words s e n k = seg_words s e * 8 div n div 2 ^ k * 2 ^ k div 8"

lemma chunk_words_bytes:
  assumes "3 \<le> k"
  shows "chunk_words s e n k * 8 = seg_words s e * 8 div n div 2 ^ k * 2 ^ k"
proof -
  have "(8::nat) dvd 2 ^ k" using le_imp_power_dvd [OF assms, of "2::nat"] by simp
  then show ?thesis by (simp add: chunk_words_def)
qed

lemma chunk_words_total:
  assumes "3 \<le> k" "0 < n"
  shows "n * chunk_words s e n k \<le> seg_words s e"
    "(seg_words s e - n * chunk_words s e n k) * 8 < n * 2 ^ k"
proof -
  let ?b = "seg_words s e * 8 div n"
  have c: "chunk_words s e n k * 8 \<le> ?b" "?b < chunk_words s e n k * 8 + 2 ^ k"
    unfolding chunk_words_bytes [OF assms(1)]
    using dividend_less_times_div [of "2 ^ k" ?b] by (simp_all add: algebra_simps)
  have n: "n * ?b \<le> seg_words s e * 8" "seg_words s e * 8 < n * ?b + n"
    using dividend_less_times_div [of n "seg_words s e * 8"] assms(2) by (simp_all add: algebra_simps)
  have "n * (chunk_words s e n k * 8) \<le> n * ?b" using c(1) by (rule mult_le_mono2)
  then have "n * (chunk_words s e n k * 8) \<le> seg_words s e * 8" using n(1) by (rule order.trans)
  then have "(n * chunk_words s e n k) * 8 \<le> seg_words s e * 8" by (simp only: mult.assoc)
  then show le: "n * chunk_words s e n k \<le> seg_words s e" by (rule mult_right_le_imp_le) simp
  have "n * ?b + n \<le> n * (chunk_words s e n k * 8 + 2 ^ k)"
    using c(2) mult_le_mono2 [of "?b + 1" "chunk_words s e n k * 8 + 2 ^ k" n] by simp
  then have "seg_words s e * 8 < n * (chunk_words s e n k * 8) + n * 2 ^ k"
    using n(2) by (simp add: algebra_simps)
  then show "(seg_words s e - n * chunk_words s e n k) * 8 < n * 2 ^ k"
    using le by (simp add: algebra_simps)
qed

lemma chunk_size_value:
  assumes "s \<le> e" "unat e - unat s < 2 ^ 60" "0 < n" "n < 2 ^ 32" "3 \<le> k" "k < 32"
  shows "unat (round_down ((ucast (e - s + 1) * 8 :: u64) div of_nat n) (2 ^ k)) = chunk_words s e n k * 8"
proof -
  have W: "unat (e - s + 1) = seg_words s e"
  proof -
    have "unat (e - s) = unat e - unat s" using assms(1) by (rule unat_sub)
    then show ?thesis using assms(2) by (simp add: unat_word_ariths seg_words_def)
  qed
  have size: "unat (ucast (e - s + 1) * 8 :: u64) = seg_words s e * 8"
  proof -
    have "unat (ucast (e - s + 1) :: u64) = seg_words s e"
      using W unat_ptr_less [of "e - s + 1"] by (simp add: unat_ucast_small)
    moreover have "seg_words s e * 8 < 2 ^ 64" using assms(2) by (simp add: seg_words_def)
    ultimately show ?thesis by (simp add: unat_word_ariths)
  qed
  have nn: "unat (of_nat n :: u64) = n" using assms(4) by (intro unat_of_nat_small) simp
  show ?thesis using assms(5,6) by (simp add: unat_round_down unat_div_distrib size nn chunk_words_bytes)
qed

lemma chunk_bounds_exact:
  assumes s: "s \<le> e" "unat e - unat s < 2 ^ 60" and n: "0 < n" "n < 2 ^ 32" "idx < n" and k: "3 \<le> k" "k < 32"
    and c: "0 < chunk_words s e n k" and r: "chunk_bounds s e n idx (2 ^ k) = (a, b)"
  shows "unat a = unat s + idx * chunk_words s e n k \<and> unat b = unat a + chunk_words s e n k - 1 \<and> b \<le> e"
proof -
  let ?c = "chunk_words s e n k" and ?W = "seg_words s e"
  have total: "(idx + 1) * ?c \<le> ?W"
  proof -
    have "(idx + 1) * ?c \<le> n * ?c" using n(3) by (intro mult_le_mono1) simp
    then show ?thesis using chunk_words_total(1) [OF k(1) n(1)] by (rule order.trans)
  qed
  have se: "unat s \<le> unat e" using s(1) by (simp add: word_le_nat_alt)
  have eb: "unat e < 2 ^ 61" by (rule unat_ptr_less)
  define C where "C = round_down ((ucast (e - s + 1) * 8 :: u64) div of_nat n) (2 ^ k)"
  have C: "unat C = ?c * 8" unfolding C_def using s n(1,2) k by (rule chunk_size_value)
  have small: "unat s * 8 + (idx + 1) * (?c * 8) \<le> unat s * 8 + ?W * 8" using total by simp
  have top: "unat s * 8 + ?W * 8 \<le> 2 ^ 64" using se eb by (simp add: seg_words_def)
  have "idx * (?c * 8) + ?c * 8 = (idx + 1) * (?c * 8)" by simp
  then have lim: "unat s * 8 + idx * (?c * 8) + ?c * 8 \<le> 2 ^ 64" using small top by linarith
  have pos: "0 < ?c * 8" using c by simp
  have Ci: "unat (C * of_nat idx) = idx * (?c * 8)"
  proof -
    have "unat (of_nat idx :: u64) = idx" using n by (intro unat_of_nat_small) simp
    moreover have "?c * 8 * idx = idx * (?c * 8)" by (simp only: mult.commute)
    moreover have "idx * (?c * 8) < 2 ^ 64" using lim pos by linarith
    ultimately show ?thesis by (simp add: unat_word_ariths C)
  qed
  have "unat s * 8 + idx * (?c * 8) < 2 ^ 64" using lim pos by linarith
  then have A: "unat (byte_addr s + C * of_nat idx) = unat s * 8 + idx * (?c * 8)"
    by (simp only: unat_word_ariths(1) unat_byte_addr Ci) simp
  define a' where "a' = word_ptr (byte_addr s + C * of_nat idx)"
  have a': "unat a' = unat s + idx * ?c"
  proof -
    have "(unat s * 8 + idx * (?c * 8)) div 8 = unat s + idx * ?c" by (simp add: algebra_simps)
    then show ?thesis by (simp add: a'_def unat_word_ptr A)
  qed
  have up: "unat a' + ?c \<le> unat s + ?W" using total by (simp add: a' algebra_simps)
  have B: "unat (byte_addr a' + C) = (unat a' * 8 + ?c * 8) mod 2 ^ 64"
    by (simp only: unat_word_ariths(1) unat_byte_addr C) simp
  have b': "unat (word_ptr (byte_addr a' + C) - 1) = unat a' + ?c - 1"
  proof (cases "unat a' + ?c < 2 ^ 61")
    case True
    then have "unat (byte_addr a' + C) = (unat a' + ?c) * 8" unfolding B by simp
    then have "unat (word_ptr (byte_addr a' + C)) = unat a' + ?c" by (simp add: unat_word_ptr)
    then show ?thesis using unat_pred [of "word_ptr (byte_addr a' + C)"] c by simp
  next
    case False
    then have eq: "unat a' + ?c = 2 ^ 61" using up se eb by (simp add: seg_words_def)
    then have "unat a' * 8 + ?c * 8 = 2 ^ 64" by simp
    then have "unat (byte_addr a' + C) = 0" unfolding B by simp
    then have "word_ptr (byte_addr a' + C) = 0" by (simp add: word_unat_eq_iff unat_word_ptr)
    then show ?thesis using eq by (simp add: unsigned_minus_1_eq_mask mask_eq_exp_minus_1)
  qed
  have "word_ptr (byte_addr a' + C) - 1 \<le> e"
    using b' up c se by (simp add: word_le_nat_alt seg_words_def)
  then have "a = a'" "b = word_ptr (byte_addr a' + C) - 1"
    using r by (auto simp: chunk_bounds_def Let_def C_def [symmetric] a'_def [symmetric])
  then show ?thesis using a' b' \<open>word_ptr (byte_addr a' + C) - 1 \<le> e\<close> by simp
qed

lemma chunk_bounds_empty:
  assumes "s \<le> e" "unat e - unat s < 2 ^ 60" "0 < n" "n < 2 ^ 32" "3 \<le> k" "k < 32" "0 < s"
    and c: "chunk_words s e n k = 0" and r: "chunk_bounds s e n idx (2 ^ k) = (a, b)"
  shows "b < a"
proof -
  define C where "C = round_down ((ucast (e - s + 1) * 8 :: u64) div of_nat n) (2 ^ k)"
  have "unat C = 0" unfolding C_def using chunk_size_value [OF assms(1-6)] c by simp
  then have C: "C = 0" by (simp add: word_unat_eq_iff)
  have round: "word_ptr (byte_addr p) = p" for p by (simp add: word_unat_eq_iff unat_word_ptr unat_byte_addr)
  have "0 < unat s" using assms(7) by (simp add: word_less_nat_alt)
  then have "s - 1 < s" using unat_pred [of s] by (simp add: word_less_nat_alt)
  moreover have "chunk_bounds s e n idx (2 ^ k) = (s, if s - 1 > e then e else s - 1)"
    by (simp add: chunk_bounds_def Let_def C_def [symmetric] C round)
  then have "a = s" "b = (if s - 1 > e then e else s - 1)" using r by simp_all
  ultimately show ?thesis using assms(1) by (auto split: if_splits)
qed

section \<open>Properties\<close>

lemma chunk_words_mem:
  assumes "s \<le> e" "unat e - unat s < 2 ^ 60" "0 < n" "n < 2 ^ 32" "idx < n" "3 \<le> k" "k < 32" "0 < s"
    and r: "chunk_bounds s e n idx (2 ^ k) = (a, b)"
  shows "a \<le> p \<and> p \<le> b \<longleftrightarrow>
    unat s + idx * chunk_words s e n k \<le> unat p \<and> unat p < unat s + (idx + 1) * chunk_words s e n k"
proof (cases "chunk_words s e n k = 0")
  case True
  then show ?thesis using chunk_bounds_empty [OF assms(1-4,6-8) True r] by auto
next
  case False
  then show ?thesis
    using chunk_bounds_exact [OF assms(1-7) _ r] by (auto simp: word_le_nat_alt)
qed

text \<open>
  C16: When a segment is divided among \<open>n\<close> CPUs no word is in two chunks and every chunk lies in the segment, so
  the CPUs never touch each other's words; the words in no chunk are the last ones, fewer than
  \<open>n\<close> alignment units of them.
\<close>
theorem chunks_partition:
  assumes "s \<le> e" "unat e - unat s < 2 ^ 60" "0 < s" "0 < n" "n < 2 ^ 32" "3 \<le> k" "k < 32"
    and "\<forall>i < n. chunk_bounds s e n i (2 ^ k) = (cs i, ce i)"
  shows "(\<forall>i < n. \<forall>j < n. i \<noteq> j \<longrightarrow> {cs i..ce i} \<inter> {cs j..ce j} = {}) \<and>
    (\<Union>i < n. {cs i..ce i}) = {p. s \<le> p \<and> unat p < unat s + n * chunk_words s e n k} \<and>
    n * chunk_words s e n k \<le> seg_words s e \<and> (seg_words s e - n * chunk_words s e n k) * 8 < n * 2 ^ k"
proof -
  let ?c = "chunk_words s e n k"
  have mem: "p \<in> {cs i..ce i} \<longleftrightarrow> unat s + i * ?c \<le> unat p \<and> unat p < unat s + (i + 1) * ?c" if "i < n" for i p
    using chunk_words_mem [OF assms(1,2,4,5) that assms(6,7,3)] assms(8) that by simp
  have disj: "{cs i..ce i} \<inter> {cs j..ce j} = {}" if ij: "i < n" "j < n" "i < j" for i j
  proof -
    have "(i + 1) * ?c \<le> j * ?c" using ij(3) by (intro mult_le_mono1) simp
    show ?thesis
    proof (rule equals0I)
      fix p
      assume "p \<in> {cs i..ce i} \<inter> {cs j..ce j}"
      then have "unat p < unat s + (i + 1) * ?c" "unat s + j * ?c \<le> unat p"
        using mem [OF ij(1), of p] mem [OF ij(2), of p] by blast+
      then show False using \<open>(i + 1) * ?c \<le> j * ?c\<close> by linarith
    qed
  qed
  then have "\<forall>i < n. \<forall>j < n. i \<noteq> j \<longrightarrow> {cs i..ce i} \<inter> {cs j..ce j} = {}"
    by (metis inf_commute linorder_neqE_nat)
  moreover have "(\<Union>i < n. {cs i..ce i}) = {p. s \<le> p \<and> unat p < unat s + n * ?c}"
  proof (intro set_eqI iffI)
    fix p
    assume "p \<in> (\<Union>i < n. {cs i..ce i})"
    then obtain i where i: "i < n" "unat s + i * ?c \<le> unat p" "unat p < unat s + (i + 1) * ?c" using mem by auto
    have "(i + 1) * ?c \<le> n * ?c" using i(1) by (intro mult_le_mono1) simp
    then show "p \<in> {p. s \<le> p \<and> unat p < unat s + n * ?c}" using i by (simp add: word_le_nat_alt)
  next
    fix p
    assume p: "p \<in> {p. s \<le> p \<and> unat p < unat s + n * ?c}"
    then have pos: "unat s \<le> unat p" "unat p - unat s < n * ?c" by (auto simp: word_le_nat_alt)
    define i where "i = (unat p - unat s) div ?c"
    have c: "0 < ?c" using pos(2) by (cases "?c = 0") auto
    have "i < n" unfolding i_def using pos(2) by (simp add: less_mult_imp_div_less)
    moreover have "i * ?c \<le> unat p - unat s" "unat p - unat s < (i + 1) * ?c"
      unfolding i_def using dividend_less_times_div [OF c, of "unat p - unat s"] by (simp_all add: algebra_simps)
    then have "unat s + i * ?c \<le> unat p \<and> unat p < unat s + (i + 1) * ?c" using pos(1) by linarith
    ultimately show "p \<in> (\<Union>i < n. {cs i..ce i})" using mem by blast
  qed
  ultimately show ?thesis using chunk_words_total [OF assms(6,4)] by simp
qed

theorem chunks_partition_witness:
  "{fst (chunk_bounds 0x1000 0x10FF 2 0 (2 ^ 3))..snd (chunk_bounds 0x1000 0x10FF 2 0 (2 ^ 3))} \<inter>
   {fst (chunk_bounds 0x1000 0x10FF 2 1 (2 ^ 3))..snd (chunk_bounds 0x1000 0x10FF 2 1 (2 ^ 3))} = {}"
proof -
  have "\<forall>i < 2. chunk_bounds 0x1000 0x10FF 2 i (2 ^ 3) =
      (fst (chunk_bounds 0x1000 0x10FF 2 i (2 ^ 3)), snd (chunk_bounds 0x1000 0x10FF 2 i (2 ^ 3)))"
    by simp
  note parts = chunks_partition [OF _ _ _ _ _ _ _ this, THEN conjunct1, rule_format, of 0 1]
  show ?thesis by (rule parts) (simp_all add: word_le_nat_alt)
qed

end
