(* ===== verification/Mem_Tests.thy ===== *)
theory Mem_Tests
  imports Test_Engine
begin

text \<open>
  The memory tests of \<open>tests/\<close>: own address, moving inversions (fixed, walking and random patterns) and bit
  fade, with the errors they report. The RAM is outside the program: its two operations are an argument
  (\<open>ram_ops\<close>), and the contract they are assumed to meet is the locale \<open>ram_contract\<close> of \<open>Mem_Tests_Spec\<close>.
  One CPU is followed; the test words are those of the 64-bit build. \<open>flush_caches\<close> waits on a barrier and
  flushes the caches, it does not change what the RAM holds.
\<close>

section \<open>State\<close>

record 'm ram_ops =
  read_word :: "ptr \<Rightarrow> 'm \<Rightarrow> u64"
  write_word :: "ptr \<Rightarrow> u64 \<Rightarrow> 'm \<Rightarrow> 'm"

datatype test_error =
  Data_Error (error_at: ptr) (error_good: u64) (error_bad: u64) (use_for_badram: bool)
| Addr_Error (error_at: ptr) (error_addr2: ptr) (error_good: u64) (error_bad: u64)

text \<open>\<open>pattern\<close> is the running pattern (or generator state) of the tests that have one.\<close>

record 'm test_state =
  memory :: 'm
  reports :: "test_error list"
  pattern :: u64

type_synonym 'm test_run = "'m test_state scan_state \<Rightarrow> bool \<times> 'm test_state scan_state"

definition data_error :: "ptr \<Rightarrow> u64 \<Rightarrow> u64 \<Rightarrow> bool \<Rightarrow> 'm test_state \<Rightarrow> 'm test_state" where
  "data_error p good bad badram w = w\<lparr>reports := Data_Error p good bad badram # reports w\<rparr>"

definition expect_word :: "'m ram_ops \<Rightarrow> ptr \<Rightarrow> u64 \<Rightarrow> 'm test_state \<Rightarrow> 'm test_state" where
  "expect_word ram p expect w =
     (let actual = read_word ram p (memory w)
      in if actual \<noteq> expect then data_error p expect actual True w else w)"

definition put_word :: "'m ram_ops \<Rightarrow> ptr \<Rightarrow> u64 \<Rightarrow> 'm test_state \<Rightarrow> 'm test_state" where
  "put_word ram p v w = w\<lparr>memory := write_word ram p v (memory w)\<rparr>"

text \<open>The loops over a whole segment, and over the chunk of a segment that belongs to this CPU.\<close>

definition over_segment ::
  "int \<Rightarrow> (nat \<Rightarrow> bool) \<Rightarrow> (ptr \<Rightarrow> ptr \<Rightarrow> 'm test_state \<Rightarrow> ptr \<times> 'm test_state) \<Rightarrow> vm_map_t \<Rightarrow> 'm test_run"
where
  "over_segment cpu bail blk seg st = up_scan cpu bail blk (vm_start seg) (vm_start seg) (vm_end seg) st"

definition up_chunk ::
  "chunk_config \<Rightarrow> int \<Rightarrow> (nat \<Rightarrow> bool) \<Rightarrow> (ptr \<Rightarrow> ptr \<Rightarrow> 'm test_state \<Rightarrow> ptr \<times> 'm test_state) \<Rightarrow> vm_map_t \<Rightarrow> 'm test_run"
where
  "up_chunk cfg cpu bail blk seg st =
     (let (s, e) = calculate_chunk cfg cpu seg 8
      in if e < s then SKIP_RANGE cpu bail 1 st else up_scan cpu bail blk s s e st)"

definition down_chunk ::
  "chunk_config \<Rightarrow> int \<Rightarrow> (nat \<Rightarrow> bool) \<Rightarrow> (ptr \<Rightarrow> ptr \<Rightarrow> 'm test_state \<Rightarrow> ptr \<times> 'm test_state) \<Rightarrow> vm_map_t \<Rightarrow> 'm test_run"
where
  "down_chunk cfg cpu bail blk seg st =
     (let (s, e) = calculate_chunk cfg cpu seg 8
      in if e < s then SKIP_RANGE cpu bail 1 st else down_scan cpu bail blk e e s st)"

section \<open>Own address\<close>

definition own_fill :: "'m ram_ops \<Rightarrow> u64 \<Rightarrow> int \<Rightarrow> (nat \<Rightarrow> bool) \<Rightarrow> vm_map_t list \<Rightarrow> 'm test_run" where
  "own_fill ram offset cpu bail segs =
     for_each (over_segment cpu bail (up_words (\<lambda>p. put_word ram p (byte_addr p + offset)))) segs"

definition own_check :: "'m ram_ops \<Rightarrow> u64 \<Rightarrow> int \<Rightarrow> (nat \<Rightarrow> bool) \<Rightarrow> vm_map_t list \<Rightarrow> 'm test_run" where
  "own_check ram offset cpu bail segs =
     for_each (over_segment cpu bail (up_words (\<lambda>p. expect_word ram p (byte_addr p + offset)))) segs"

text \<open>\<open>test_own_addr1\<close> starts the check also when the fill bailed out.\<close>

definition test_own_addr1 :: "'m ram_ops \<Rightarrow> int \<Rightarrow> (nat \<Rightarrow> bool) \<Rightarrow> vm_map_t list \<Rightarrow> 'm test_run" where
  "test_own_addr1 ram cpu bail segs st =
     own_check ram 0 cpu bail segs (snd (own_fill ram 0 cpu bail segs st))"

definition own_addr_offset :: "u64 \<Rightarrow> u64" where
  "own_addr_offset pm_base =
     (let offset = pm_base div VM_WINDOW_SIZE * VM_WINDOW_SIZE;
          offset1 = (if offset \<ge> VM_PINNED_SIZE then offset - VM_PINNED_SIZE else 0)
      in offset1 * PAGE_SIZE)"

definition test_own_addr2 :: "'m ram_ops \<Rightarrow> int \<Rightarrow> (nat \<Rightarrow> bool) \<Rightarrow> vm_map_t list \<Rightarrow> int \<Rightarrow> 'm test_run" where
  "test_own_addr2 ram cpu bail segs stage st =
     (let offset = own_addr_offset (pm_base_addr (hd segs))
      in if stage = 0 then own_fill ram offset cpu bail segs st
         else if stage = 1 then own_check ram offset cpu bail segs st
         else (False, st))"

section \<open>Moving inversions, fixed pattern\<close>

text \<open>The fill of the x86-64 build: \<open>rep stosq\<close> of \<open>pe - p + 1\<close> words; the next block starts at \<open>pe\<close> again.\<close>

primrec stosq :: "'m ram_ops \<Rightarrow> nat \<Rightarrow> ptr \<Rightarrow> u64 \<Rightarrow> 'm test_state \<Rightarrow> 'm test_state" where
  "stosq ram 0 p v w = w"
| "stosq ram (Suc n) p v w = stosq ram n (p + 1) v (put_word ram p v w)"

definition stosq_block :: "'m ram_ops \<Rightarrow> u64 \<Rightarrow> ptr \<Rightarrow> ptr \<Rightarrow> 'm test_state \<Rightarrow> ptr \<times> 'm test_state" where
  "stosq_block ram v p pe w = (let n = scast (pe - p) + (1 :: u64) in (pe, stosq ram (unat n) p v w))"

definition replace_word :: "'m ram_ops \<Rightarrow> u64 \<Rightarrow> u64 \<Rightarrow> ptr \<Rightarrow> 'm test_state \<Rightarrow> 'm test_state" where
  "replace_word ram good new p w = put_word ram p new (expect_word ram p good w)"

definition mov_inv_fixed_round ::
  "'m ram_ops \<Rightarrow> chunk_config \<Rightarrow> int \<Rightarrow> (nat \<Rightarrow> bool) \<Rightarrow> vm_map_t list \<Rightarrow> u64 \<Rightarrow> u64 \<Rightarrow> 'm test_run"
where
  "mov_inv_fixed_round ram cfg cpu bail segs pattern1 pattern2 =
     and_then (for_each (up_chunk cfg cpu bail (up_words (replace_word ram pattern1 pattern2))) segs)
       (for_each (down_chunk cfg cpu bail (down_words (replace_word ram pattern2 pattern1))) (rev segs))"

definition test_mov_inv_fixed ::
  "'m ram_ops \<Rightarrow> chunk_config \<Rightarrow> int \<Rightarrow> (nat \<Rightarrow> bool) \<Rightarrow> vm_map_t list \<Rightarrow> int \<Rightarrow> u64 \<Rightarrow> u64 \<Rightarrow> 'm test_run"
where
  "test_mov_inv_fixed ram cfg cpu bail segs iterations pattern1 pattern2 =
     and_then (for_each (up_chunk cfg cpu bail (stosq_block ram pattern1)) segs)
       (for_each (\<lambda>_. mov_inv_fixed_round ram cfg cpu bail segs pattern1 pattern2) [0..<nat iterations])"

section \<open>Moving inversions, walking pattern\<close>

definition rotate_left :: "u64 \<Rightarrow> u64" where
  "rotate_left x = or (push_bit 1 x) (drop_bit 63 x)"

definition rotate_right :: "u64 \<Rightarrow> u64" where
  "rotate_right x = or (drop_bit 1 x) (push_bit 63 x)"

definition walk1_pattern :: "nat \<Rightarrow> bool \<Rightarrow> u64" where
  "walk1_pattern offset inverted =
     (let pat = push_bit offset 1 in if inverted then NOT pat else pat)"

definition set_pattern :: "u64 \<Rightarrow> 'm test_run" where
  "set_pattern x st = (False, st\<lparr>work := (work st)\<lparr>pattern := x\<rparr>\<rparr>)"

definition invert_pattern :: "'m test_run" where
  "invert_pattern st = (False, st\<lparr>work := (work st)\<lparr>pattern := NOT (pattern (work st))\<rparr>\<rparr>)"

definition walk1_fill :: "'m ram_ops \<Rightarrow> ptr \<Rightarrow> 'm test_state \<Rightarrow> 'm test_state" where
  "walk1_fill ram p w = (put_word ram p (pattern w) w)\<lparr>pattern := rotate_left (pattern w)\<rparr>"

definition walk1_up :: "'m ram_ops \<Rightarrow> ptr \<Rightarrow> 'm test_state \<Rightarrow> 'm test_state" where
  "walk1_up ram p w =
     (let expect = pattern w
      in (put_word ram p (NOT expect) (expect_word ram p expect w))\<lparr>pattern := rotate_left expect\<rparr>)"

definition walk1_down :: "'m ram_ops \<Rightarrow> ptr \<Rightarrow> 'm test_state \<Rightarrow> 'm test_state" where
  "walk1_down ram p w =
     (let expect = rotate_right (pattern w)
      in put_word ram p (NOT expect) (expect_word ram p expect (w\<lparr>pattern := expect\<rparr>)))"

definition walk1_round ::
  "'m ram_ops \<Rightarrow> chunk_config \<Rightarrow> int \<Rightarrow> (nat \<Rightarrow> bool) \<Rightarrow> vm_map_t list \<Rightarrow> nat \<Rightarrow> bool \<Rightarrow> 'm test_run"
where
  "walk1_round ram cfg cpu bail segs offset inverted =
     and_then (set_pattern (walk1_pattern offset inverted))
       (and_then (for_each (up_chunk cfg cpu bail (up_words (walk1_up ram))) segs)
         (and_then invert_pattern
           (for_each (down_chunk cfg cpu bail (down_words (walk1_down ram))) (rev segs))))"

definition test_mov_inv_walk1 ::
  "'m ram_ops \<Rightarrow> chunk_config \<Rightarrow> int \<Rightarrow> (nat \<Rightarrow> bool) \<Rightarrow> vm_map_t list \<Rightarrow> int \<Rightarrow> nat \<Rightarrow> bool \<Rightarrow> 'm test_run"
where
  "test_mov_inv_walk1 ram cfg cpu bail segs iterations offset inverted =
     and_then (set_pattern (walk1_pattern offset inverted))
       (and_then (for_each (up_chunk cfg cpu bail (up_words (walk1_fill ram))) segs)
         (for_each (\<lambda>_. walk1_round ram cfg cpu bail segs offset inverted) [0..<nat iterations]))"

section \<open>Moving inversions, random pattern\<close>

definition prsg :: "u64 \<Rightarrow> u64" where
  "prsg s0 =
     (let s1 = xor s0 (push_bit 13 s0);
          s2 = xor s1 (drop_bit 7 s1)
      in xor s2 (push_bit 17 s2))"

definition random_fill :: "'m ram_ops \<Rightarrow> ptr \<Rightarrow> 'm test_state \<Rightarrow> 'm test_state" where
  "random_fill ram p w =
     (let x = prsg (pattern w) in put_word ram p x (w\<lparr>pattern := x\<rparr>))"

definition random_check :: "'m ram_ops \<Rightarrow> u64 \<Rightarrow> ptr \<Rightarrow> 'm test_state \<Rightarrow> 'm test_state" where
  "random_check ram invert p w =
     (let x = prsg (pattern w); expect = xor x invert
      in put_word ram p (NOT expect) (expect_word ram p expect (w\<lparr>pattern := x\<rparr>)))"

definition random_pass ::
  "'m ram_ops \<Rightarrow> chunk_config \<Rightarrow> int \<Rightarrow> (nat \<Rightarrow> bool) \<Rightarrow> vm_map_t list \<Rightarrow> u64 \<Rightarrow> u64 \<Rightarrow> 'm test_run"
where
  "random_pass ram cfg cpu bail segs seed invert =
     and_then (set_pattern seed) (for_each (up_chunk cfg cpu bail (up_words (random_check ram invert))) segs)"

text \<open>\<open>source\<close> is the time stamp counter, or \<open>1 + pass_num\<close> on a CPU without one.\<close>

definition test_mov_inv_random ::
  "'m ram_ops \<Rightarrow> chunk_config \<Rightarrow> int \<Rightarrow> (nat \<Rightarrow> bool) \<Rightarrow> vm_map_t list \<Rightarrow> u64 \<Rightarrow> 'm test_run"
where
  "test_mov_inv_random ram cfg cpu bail segs source =
     (let seed = source * 0x87654321
      in and_then (set_pattern seed)
          (and_then (for_each (up_chunk cfg cpu bail (up_words (random_fill ram))) segs)
            (for_each (random_pass ram cfg cpu bail segs seed) [0, NOT 0])))"

section \<open>Bit fade\<close>

definition fade_mix :: "u64 \<Rightarrow> u64" where
  "fade_mix x0 =
     (let x1 = xor x0 (drop_bit 30 x0);
          x2 = x1 * 0xbf58476d1ce4e5b9;
          x3 = xor x2 (drop_bit 27 x2);
          x4 = x3 * 0x94d049bb133111eb
      in xor x4 (drop_bit 31 x4))"

definition fade_seed :: "u64 \<Rightarrow> u64" where
  "fade_seed pass_num = fade_mix ((1 + pass_num) * 0x9e3779b97f4a7c15)"

definition fade_word :: "u64 \<Rightarrow> u64 \<Rightarrow> nat \<Rightarrow> ptr \<Rightarrow> u64" where
  "fade_word pm_base pass_num round p =
     (let invert = (if odd round then NOT 0 else 0)
      in if round \<ge> 2
         then xor (fade_mix (xor (byte_addr p + own_addr_offset pm_base) (fade_seed pass_num))) invert
         else invert)"

definition fade_fill ::
  "'m ram_ops \<Rightarrow> chunk_config \<Rightarrow> int \<Rightarrow> (nat \<Rightarrow> bool) \<Rightarrow> vm_map_t list \<Rightarrow> u64 \<Rightarrow> nat \<Rightarrow> 'm test_run"
where
  "fade_fill ram cfg cpu bail segs pass_num round =
     for_each (up_chunk cfg cpu bail (up_words (\<lambda>p. put_word ram p (fade_word (pm_base_addr (hd segs)) pass_num round p)))) segs"

definition fade_check ::
  "'m ram_ops \<Rightarrow> chunk_config \<Rightarrow> int \<Rightarrow> (nat \<Rightarrow> bool) \<Rightarrow> vm_map_t list \<Rightarrow> u64 \<Rightarrow> nat \<Rightarrow> 'm test_run"
where
  "fade_check ram cfg cpu bail segs pass_num round =
     for_each (up_chunk cfg cpu bail (up_words (\<lambda>p. expect_word ram p (fade_word (pm_base_addr (hd segs)) pass_num round p)))) segs"

text \<open>One tick per second; \<open>sleep\<close> itself, on the master CPU, has no effect on the state.\<close>

primrec fade_delay :: "int \<Rightarrow> (nat \<Rightarrow> bool) \<Rightarrow> nat \<Rightarrow> 'm test_run" where
  "fade_delay cpu bail 0 st = (False, st)"
| "fade_delay cpu bail (Suc n) st =
     (let st1 = st\<lparr>ticks := ticks st + 1\<rparr>
      in if cpu < 0 then fade_delay cpu bail n st1
         else if bail (tick_calls (do_tick st1)) then (True, do_tick st1)
         else fade_delay cpu bail n (do_tick st1))"

text \<open>\<open>last_stage\<close> is the static of the function, \<open>-1\<close> before the first call; the new value is returned.\<close>

definition test_bit_fade ::
  "'m ram_ops \<Rightarrow> chunk_config \<Rightarrow> int \<Rightarrow> (nat \<Rightarrow> bool) \<Rightarrow> vm_map_t list \<Rightarrow> u64 \<Rightarrow> int \<Rightarrow> nat \<Rightarrow> int \<Rightarrow>
    'm test_state scan_state \<Rightarrow> (bool \<times> 'm test_state scan_state) \<times> int"
where
  "test_bit_fade ram cfg cpu bail segs pass_num last_stage stage sleep_secs st =
     (let round = stage div 3;
          res = (if stage mod 3 = 0 then fade_fill ram cfg cpu bail segs pass_num round st
                 else if stage mod 3 = 1
                   then (if int stage \<noteq> last_stage then fade_delay cpu bail (nat sleep_secs) st else (False, st))
                 else fade_check ram cfg cpu bail segs pass_num round st)
      in (res, int stage))"

end
