(* ===== verification/Ram_Contract.thy ===== *)
theory Ram_Contract
  imports Mem_Tests Test_Scan
begin

text \<open>
  What the test loops do to RAM. Runs over several segments, with the string-store fill; the contract of the RAM
  (\<open>ram_contract\<close>, \<open>cell_ram\<close>), which cells a pass reads wrongly, a Hoare-style rule for runs that may bail out
  (\<open>triple\<close>), and for each test the set of cells that it finds.
\<close>

section \<open>Runs over several segments\<close>

lemma for_each_scanned:
  assumes "\<And>x st. x \<in> set xs \<Longrightarrow> scanned body (ws x) (fst (f x st)) (work st) (work (snd (f x st)))"
  shows "scanned body (concat (map ws xs)) (fst (for_each f xs st)) (work st) (work (snd (for_each f xs st)))"
  using assms
proof (induction xs arbitrary: st)
  case Nil
  then show ?case by (simp add: scanned_Nil)
next
  case (Cons x xs)
  obtain b st1 where f: "f x st = (b, st1)" by fastforce
  have here: "scanned body (ws x) b (work st) (work st1)" using Cons.prems [of x st] f by simp
  have rest: "scanned body (concat (map ws xs)) (fst (for_each f xs st1)) (work st1) (work (snd (for_each f xs st1)))"
    using Cons.prems by (intro Cons.IH) simp
  show ?case
  proof (cases b)
    case True
    then show ?thesis using scanned_more [of body "ws x" "work st" "work st1"] here f by simp
  next
    case False
    then show ?thesis using scanned_append [of body "ws x" "work st" "work st1"] here rest f by simp
  qed
qed

text \<open>
  A weaker notion for the string-store fill, which writes one word of a block again in the next: the words that
  the body ran over are those of \<open>A\<close>, in some order.
\<close>

definition covered :: "(ptr \<Rightarrow> 's \<Rightarrow> 's) \<Rightarrow> ptr set \<Rightarrow> bool \<Rightarrow> 's \<Rightarrow> 's \<Rightarrow> bool" where
  "covered body A bailed w w' \<longleftrightarrow>
     (\<exists>ws. w' = fold body ws w \<and> set ws \<subseteq> A \<and> (\<not> bailed \<longrightarrow> set ws = A))"

lemma coveredI:
  "w' = fold body ws w \<Longrightarrow> set ws \<subseteq> A \<Longrightarrow> (\<not> bailed \<Longrightarrow> set ws = A) \<Longrightarrow> covered body A bailed w w'"
  by (auto simp: covered_def)

lemma covered_append:
  assumes "covered body A False w w1" "covered body B b w1 w2"
  shows "covered body (A \<union> B) b w w2"
proof -
  obtain ws1 ws2 where "w1 = fold body ws1 w" "set ws1 = A" "w2 = fold body ws2 w1" "set ws2 \<subseteq> B"
      "\<not> b \<longrightarrow> set ws2 = B"
    using assms by (auto simp: covered_def)
  then show ?thesis by (intro coveredI [of _ _ "ws1 @ ws2"]) auto
qed

lemma covered_more: "covered body A True w w1 \<Longrightarrow> A \<subseteq> B \<Longrightarrow> covered body B True w w1"
  by (auto simp: covered_def)

lemma for_each_covered:
  assumes "\<And>x st. x \<in> set xs \<Longrightarrow> covered body (ws x) (fst (f x st)) (work st) (work (snd (f x st)))"
  shows "covered body (\<Union>x \<in> set xs. ws x) (fst (for_each f xs st)) (work st) (work (snd (for_each f xs st)))"
  using assms
proof (induction xs arbitrary: st)
  case Nil
  then show ?case by (simp add: covered_def)
next
  case (Cons x xs)
  obtain b st1 where f: "f x st = (b, st1)" by fastforce
  have here: "covered body (ws x) b (work st) (work st1)" using Cons.prems [of x st] f by simp
  have rest: "covered body (\<Union>x \<in> set xs. ws x) (fst (for_each f xs st1)) (work st1) (work (snd (for_each f xs st1)))"
    using Cons.prems by (intro Cons.IH) simp
  show ?case
  proof (cases b)
    case True
    then show ?thesis using covered_more [of body "ws x" "work st" "work st1"] here f by simp
  next
    case False
    then show ?thesis using covered_append [of body "ws x" "work st" "work st1"] here rest f by simp
  qed
qed

lemma skip_ticks_work: "work (snd (skip_ticks bail n st)) = work st"
  by (induction n arbitrary: st) (simp_all add: do_tick_def)

lemma SKIP_RANGE_work: "work (snd (SKIP_RANGE cpu bail n st)) = work st"
  by (simp add: SKIP_RANGE_def skip_ticks_work)

section \<open>The words of a chunk\<close>

definition chunk_list :: "chunk_config \<Rightarrow> int \<Rightarrow> vm_map_t \<Rightarrow> ptr list" where
  "chunk_list cfg cpu seg = (let (s, e) = calculate_chunk cfg cpu seg 8 in if e < s then [] else words s e)"

definition chunk_ok :: "chunk_config \<Rightarrow> int \<Rightarrow> vm_map_t \<Rightarrow> bool" where
  "chunk_ok cfg cpu seg \<longleftrightarrow> (let (s, e) = calculate_chunk cfg cpu seg 8 in s \<le> e \<longrightarrow> scan_range s e)"

definition chunk_all :: "chunk_config \<Rightarrow> int \<Rightarrow> vm_map_t list \<Rightarrow> ptr list" where
  "chunk_all cfg cpu segs = concat (map (chunk_list cfg cpu) segs)"

lemma up_chunk_scanned:
  assumes "chunk_ok cfg cpu seg" "0 \<le> cpu"
  shows "scanned body (chunk_list cfg cpu seg) (fst (up_chunk cfg cpu bail (up_words body) seg st))
    (work st) (work (snd (up_chunk cfg cpu bail (up_words body) seg st)))"
proof -
  obtain s e where c: "calculate_chunk cfg cpu seg 8 = (s, e)" by fastforce
  show ?thesis
  proof (cases "e < s")
    case True
    then show ?thesis using c by (simp add: up_chunk_def chunk_list_def scanned_Nil SKIP_RANGE_work)
  next
    case False
    then have "scan_range s e" using assms(1) c by (simp add: chunk_ok_def)
    from up_scan_words [OF this word_block_up assms(2)] show ?thesis
      using False c by (simp add: up_chunk_def chunk_list_def)
  qed
qed

lemma down_chunk_scanned:
  assumes "chunk_ok cfg cpu seg" "0 \<le> cpu"
  shows "scanned body (rev (chunk_list cfg cpu seg)) (fst (down_chunk cfg cpu bail (down_words body) seg st))
    (work st) (work (snd (down_chunk cfg cpu bail (down_words body) seg st)))"
proof -
  obtain s e where c: "calculate_chunk cfg cpu seg 8 = (s, e)" by fastforce
  show ?thesis
  proof (cases "e < s")
    case True
    then show ?thesis using c by (simp add: down_chunk_def chunk_list_def scanned_Nil SKIP_RANGE_work)
  next
    case False
    then have "scan_range s e" using assms(1) c by (simp add: chunk_ok_def)
    from down_scan_words [OF this word_block_down_words assms(2)] show ?thesis
      using False c by (simp add: down_chunk_def chunk_list_def)
  qed
qed

lemma up_pass_scanned:
  assumes "\<forall>seg \<in> set segs. chunk_ok cfg cpu seg" "0 \<le> cpu"
  shows "scanned body (chunk_all cfg cpu segs)
    (fst (for_each (up_chunk cfg cpu bail (up_words body)) segs st)) (work st)
    (work (snd (for_each (up_chunk cfg cpu bail (up_words body)) segs st)))"
  unfolding chunk_all_def using assms by (intro for_each_scanned up_chunk_scanned) auto

lemma down_pass_scanned:
  assumes "\<forall>seg \<in> set segs. chunk_ok cfg cpu seg" "0 \<le> cpu"
  shows "scanned body (rev (chunk_all cfg cpu segs))
    (fst (for_each (down_chunk cfg cpu bail (down_words body)) (rev segs) st)) (work st)
    (work (snd (for_each (down_chunk cfg cpu bail (down_words body)) (rev segs) st)))"
proof -
  have "rev (chunk_all cfg cpu segs) = concat (map (\<lambda>seg. rev (chunk_list cfg cpu seg)) (rev segs))"
    by (simp add: chunk_all_def rev_concat rev_map comp_def)
  then show ?thesis using assms by (simp only:) (intro for_each_scanned down_chunk_scanned, auto)
qed

lemma segment_scanned:
  assumes "\<forall>seg \<in> set segs. scan_range (vm_start seg) (vm_end seg)" "0 \<le> cpu"
  shows "scanned body (concat (map (\<lambda>seg. words (vm_start seg) (vm_end seg)) segs))
    (fst (for_each (over_segment cpu bail (up_words body)) segs st)) (work st)
    (work (snd (for_each (over_segment cpu bail (up_words body)) segs st)))"
proof (rule for_each_scanned)
  fix seg st
  assume "seg \<in> set segs"
  then have "scan_range (vm_start seg) (vm_end seg)" using assms(1) by blast
  then show "scanned body (words (vm_start seg) (vm_end seg)) (fst (over_segment cpu bail (up_words body) seg st))
      (work st) (work (snd (over_segment cpu bail (up_words body) seg st)))"
    unfolding over_segment_def by (rule up_scan_words [OF _ word_block_up assms(2)])
qed

section \<open>The string-store fill\<close>

lemma stosq_fold:
  assumes "unat p + n \<le> 2 ^ 61" "0 < n"
  shows "stosq ram n p v w = fold (\<lambda>q. put_word ram q v) (words p (p + of_nat (n - 1))) w"
  using assms
proof (induction n arbitrary: p w)
  case 0
  then show ?case by simp
next
  case (Suc n)
  show ?case
  proof (cases "n = 0")
    case True
    then show ?thesis by (simp add: words_single)
  next
    case False
    have un: "unat (of_nat n :: ptr) = n" using Suc.prems by (simp add: unat_of_nat)
    have sum: "unat (p + of_nat n) = unat p + n" using Suc.prems un by (simp add: unat_word_ariths)
    then have lt: "p < p + of_nat n" using False by (simp add: word_less_nat_alt)
    have p1: "unat (p + 1) = Suc (unat p)" using lt by (rule word_less_Suc_unat)
    have e: "p + 1 + of_nat (n - 1) = p + of_nat n" using False by (simp add: of_nat_diff)
    have "stosq ram n (p + 1) v (put_word ram p v w) =
        fold (\<lambda>q. put_word ram q v) (words (p + 1) (p + of_nat n)) (put_word ram p v w)"
      unfolding e [symmetric] using Suc.prems p1 False by (intro Suc.IH) simp_all
    then show ?thesis using lt by (simp add: words_Cons)
  qed
qed

lemma stosq_block_fold:
  assumes "p \<le> pe" "unat pe - unat p < 2 ^ 60"
  shows "stosq_block ram v p pe w = (pe, fold (\<lambda>q. put_word ram q v) (words p pe) w)"
proof -
  let ?d = "unat pe - unat p"
  have d: "unat (pe - p) = ?d" using assms(1) by (rule unat_sub)
  have "uint (pe - p) = int ?d" by (simp only: d [symmetric] uint_nat)
  moreover have "int ?d < 2 ^ 60" using of_nat_less_iff [where 'a = int, THEN iffD2, OF assms(2)] by simp
  ultimately have s: "sint (pe - p) = int ?d" using sint_ptr_small [of "pe - p"] by simp
  have "(scast (pe - p) :: u64) + 1 = of_nat (Suc ?d)" by (simp add: scast_eq s add.commute)
  moreover have "Suc ?d < 2 ^ 64" using assms(2) by simp
  then have "unat (of_nat (Suc ?d) :: u64) = Suc ?d" by (intro unat_of_nat_small) simp
  ultimately have n: "unat (scast (pe - p) + (1 :: u64)) = Suc ?d" by (simp only:)
  have le: "unat p \<le> unat pe" using assms(1) by (simp add: word_le_nat_alt)
  have "p + of_nat ?d = pe" using le by (simp add: of_nat_diff)
  moreover have "unat p + Suc ?d \<le> 2 ^ 61" using le unat_ptr_less [of pe] by simp
  ultimately show ?thesis
    unfolding stosq_block_def Let_def n by (subst stosq_fold) simp_all
qed

lemma up_scan_stosq:
  assumes "scan_range pe e" "p = pe \<or> p + 1 = pe \<and> p < pe" "0 \<le> cpu"
  shows "covered (\<lambda>q. put_word ram q v) {p..e} (fst (up_scan cpu bail (stosq_block ram v) p pe e st)) (work st)
    (work (snd (up_scan cpu bail (stosq_block ram v) p pe e st)))"
  using assms(1,2)
proof (induction "blocks pe e" arbitrary: p pe st)
  case 0
  then show ?case by (simp add: blocks_def)
next
  case (Suc k)
  have le: "pe \<le> e" "unat e - unat pe < 2 ^ 60" using Suc.prems by (simp_all add: scan_range_def)
  have ppe: "p \<le> pe" "unat pe \<le> Suc (unat p)"
    using Suc.prems(2) word_less_Suc_unat [of p pe] by auto
  show ?case
  proof (cases "2 ^ 27 \<le> unat e - unat pe")
    case False
    note near = next_up_near [OF Suc.prems(1) False]
    have pe: "p \<le> e" "unat e - unat p < 2 ^ 60" using ppe le False by (auto simp: word_le_nat_alt)
    have "up_scan cpu bail (stosq_block ram v) p pe e st =
        (bail (Suc (tick_calls st)),
         st\<lparr>ticks := ticks st + 1, work := fold (\<lambda>q. put_word ram q v) (words p e) (work st), tick_calls := Suc (tick_calls st)\<rparr>)"
      using assms(3) by (simp add: up_scan.simps [of cpu bail _ p pe e st] near(1) Let_def do_tick_def stosq_block_fold [OF pe])
    then show ?thesis using set_words [OF pe(1)] by (simp only:) (rule coveredI [of _ _ "words p e"], simp_all)
  next
    case True
    note far = next_up_far [OF Suc.prems(1) True]
    let ?q = "pe + (SPIN_SIZE - 1)"
    have spin1: "unat (SPIN_SIZE - 1) = 2 ^ 27 - 1" by (simp add: unat_pred spin_unat)
    have q: "unat ?q = unat pe + (2 ^ 27 - 1)"
      using True unat_ptr_less [of e] spin1 by (simp add: unat_word_ariths)
    have pq: "p \<le> ?q" "unat ?q - unat p < 2 ^ 60" using ppe q by (auto simp: word_le_nat_alt)
    have q1: "?q + 1 = pe + SPIN_SIZE" by simp
    let ?f = "\<lambda>x. put_word ram x v"
    let ?st1 = "do_tick (st\<lparr>ticks := ticks st + 1, work := fold ?f (words p ?q) (work st)\<rparr>)"
    have scan: "up_scan cpu bail (stosq_block ram v) p pe e st =
        (if bail (tick_calls ?st1) then (True, ?st1)
         else up_scan cpu bail (stosq_block ram v) ?q (pe + SPIN_SIZE) e ?st1)"
      using assms(3) far(6) q1
      by (simp add: up_scan.simps [of cpu bail _ p pe e st] far(1) Let_def stosq_block_fold [OF pq] q1 [simplified])
    have sub: "{p..?q} \<subseteq> {p..e}" using far(3) by auto
    have first: "covered ?f {p..?q} False (work st) (work ?st1)"
      using set_words [OF pq(1)] by (intro coveredI [of _ _ "words p ?q"]) (simp_all add: do_tick_def)
    show ?thesis
    proof (cases "bail (tick_calls ?st1)")
      case True
      have "covered ?f {p..e} True (work st) (work ?st1)"
        using set_words [OF pq(1)] sub by (intro coveredI [of _ _ "words p ?q"]) (simp_all add: do_tick_def)
      then show ?thesis unfolding scan using True by simp
    next
      case False
      have k: "k = blocks (pe + SPIN_SIZE) e" using Suc.hyps(2) far(5) by simp
      have "?q < pe + SPIN_SIZE" using far(3) q1 word_less_Suc_unat [of ?q e] by (simp add: word_less_nat_alt)
      then have "covered ?f {?q..e} (fst (up_scan cpu bail (stosq_block ram v) ?q (pe + SPIN_SIZE) e ?st1)) (work ?st1)
          (work (snd (up_scan cpu bail (stosq_block ram v) ?q (pe + SPIN_SIZE) e ?st1)))"
        using q1 by (intro Suc.hyps(1) [OF k far(4)]) simp
      from covered_append [OF first this] have "covered ?f ({p..?q} \<union> {?q..e})
          (fst (up_scan cpu bail (stosq_block ram v) ?q (pe + SPIN_SIZE) e ?st1)) (work st)
          (work (snd (up_scan cpu bail (stosq_block ram v) ?q (pe + SPIN_SIZE) e ?st1)))" .
      moreover have "{p..?q} \<union> {?q..e} = {p..e}" using pq(1) far(3) by auto
      ultimately show ?thesis unfolding scan using False by simp
    qed
  qed
qed

lemma fill_pass_covered:
  assumes "\<forall>seg \<in> set segs. chunk_ok cfg cpu seg" "0 \<le> cpu"
  shows "covered (\<lambda>q. put_word ram q v) (set (chunk_all cfg cpu segs))
    (fst (for_each (up_chunk cfg cpu bail (stosq_block ram v)) segs st)) (work st)
    (work (snd (for_each (up_chunk cfg cpu bail (stosq_block ram v)) segs st)))"
proof -
  have seg: "covered (\<lambda>q. put_word ram q v) (set (chunk_list cfg cpu seg))
      (fst (up_chunk cfg cpu bail (stosq_block ram v) seg st)) (work st)
      (work (snd (up_chunk cfg cpu bail (stosq_block ram v) seg st)))"
    if "seg \<in> set segs" for seg st
  proof -
    obtain s e where c: "calculate_chunk cfg cpu seg 8 = (s, e)" by fastforce
    show ?thesis
    proof (cases "e < s")
      case True
      then show ?thesis using c by (simp add: up_chunk_def chunk_list_def SKIP_RANGE_work covered_def)
    next
      case False
      then have "scan_range s e" using assms(1) c that by (auto simp: chunk_ok_def)
      from up_scan_stosq [OF this _ assms(2), of s] show ?thesis
        using False c set_words [of s e] by (simp add: up_chunk_def chunk_list_def)
    qed
  qed
  have "set (chunk_all cfg cpu segs) = (\<Union>seg \<in> set segs. set (chunk_list cfg cpu seg))"
    by (simp add: chunk_all_def)
  then show ?thesis using for_each_covered [OF seg] by simp
qed

section \<open>The contract of the RAM\<close>

text \<open>
  A word is read back from the last cell written. Two addresses may select the same cell (\<open>dec\<close>: the address
  decoder), and a cell may hold something else than was written to it (\<open>g\<close>: stuck bits); sound RAM has an
  injective \<open>dec\<close> and an identity \<open>g\<close>. \<open>cell_ram\<close> is RAM whose decoder is sound.
\<close>

locale ram_contract =
  fixes ram :: "'m ram_ops" and dec :: "ptr \<Rightarrow> ptr" and g :: "ptr \<Rightarrow> u64 \<Rightarrow> u64"
  assumes read_write:
    "read_word ram q (write_word ram p v m) = (if dec q = dec p then g (dec p) v else read_word ram q m)"
begin

lemma read_put [simp]:
  "read_word ram q (memory (put_word ram p v w)) = (if dec q = dec p then g (dec p) v else read_word ram q (memory w))"
  by (simp add: put_word_def read_write)

lemma fill_const:
  "read_word ram q (memory (fold (\<lambda>p. put_word ram p v) ws w)) =
   (if dec q \<in> dec ` set ws then g (dec q) v else read_word ram q (memory w))"
  by (induction ws arbitrary: w) auto

lemma fill_last:
  "read_word ram q (memory (fold (\<lambda>p. put_word ram p (f p)) ws w)) =
   (case find (\<lambda>p. dec p = dec q) (rev ws) of None \<Rightarrow> read_word ram q (memory w) | Some p \<Rightarrow> g (dec q) (f p))"
  by (induction ws rule: rev_induct) auto

end

lemma put_word_simps [simp]:
  "reports (put_word ram p v w) = reports w" "pattern (put_word ram p v w) = pattern w"
  by (simp_all add: put_word_def)

lemma expect_word_simps [simp]:
  "memory (expect_word ram p v w) = memory w" "pattern (expect_word ram p v w) = pattern w"
  "reports (expect_word ram p v w) =
   (if read_word ram p (memory w) \<noteq> v then [Data_Error p v (read_word ram p (memory w)) True] else []) @ reports w"
  by (simp_all add: expect_word_def data_error_def Let_def)

lemma fill_reports [simp]: "reports (fold (\<lambda>p. put_word ram p (f p)) ws w) = reports w"
  by (induction ws arbitrary: w) simp_all

lemma check_fold:
  "memory (fold (\<lambda>p. expect_word ram p (f p)) ws w) = memory w"
  "set (reports (fold (\<lambda>p. expect_word ram p (f p)) ws w)) =
   set (reports w) \<union> {Data_Error p (f p) (read_word ram p (memory w)) True | p. p \<in> set ws \<and> read_word ram p (memory w) \<noteq> f p}"
proof (induction ws arbitrary: w)
  case Nil
  {
    case 1
    then show ?case by simp
  next
    case 2
    then show ?case by simp
  }
next
  case (Cons p ws)
  {
    case 1
    then show ?case using Cons.IH(1) by simp
  next
    case 2
    then show ?case using Cons.IH(2) by (auto split: if_splits)
  }
qed

text \<open>The general forms of the bodies that have a running pattern.\<close>

definition store_next :: "'m ram_ops \<Rightarrow> (u64 \<Rightarrow> u64) \<Rightarrow> (u64 \<Rightarrow> u64) \<Rightarrow> ptr \<Rightarrow> 'm test_state \<Rightarrow> 'm test_state" where
  "store_next ram n s p w = (put_word ram p (n (pattern w)) w)\<lparr>pattern := s (pattern w)\<rparr>"

definition visit ::
  "'m ram_ops \<Rightarrow> (u64 \<Rightarrow> u64) \<Rightarrow> (u64 \<Rightarrow> u64) \<Rightarrow> (u64 \<Rightarrow> u64) \<Rightarrow> ptr \<Rightarrow> 'm test_state \<Rightarrow> 'm test_state"
where
  "visit ram ex n s p w =
     (put_word ram p (n (pattern w)) (expect_word ram p (ex (pattern w)) w))\<lparr>pattern := s (pattern w)\<rparr>"

lemma bodies_visit:
  "replace_word ram good new = visit ram (\<lambda>_. good) (\<lambda>_. new) id"
  "walk1_up ram = visit ram id NOT rotate_left"
  "walk1_down ram = visit ram rotate_right (\<lambda>x. NOT (rotate_right x)) rotate_right"
  "random_check ram invert = visit ram (\<lambda>x. xor (prsg x) invert) (\<lambda>x. NOT (xor (prsg x) invert)) prsg"
  by (rule ext, rule ext, simp add: replace_word_def walk1_up_def walk1_down_def random_check_def visit_def Let_def
      put_word_def expect_word_def data_error_def)+

lemma bodies_store:
  "walk1_fill ram = store_next ram id rotate_left"
  "random_fill ram = store_next ram prsg prsg"
  by (rule ext, rule ext, simp add: walk1_fill_def random_fill_def store_next_def Let_def put_word_def)+

lemma funpow_shift: "(s ^^ i) (s x) = (s ^^ Suc i) x" for s :: "'a \<Rightarrow> 'a"
  by (simp add: funpow_swap1)

lemma store_fold_simps:
  "pattern (fold (store_next ram n s) ws w) = (s ^^ length ws) (pattern w)"
  "reports (fold (store_next ram n s) ws w) = reports w"
  by (induction ws arbitrary: w) (simp_all add: store_next_def funpow_shift del: funpow.simps)

lemma visit_fold_pattern: "pattern (fold (visit ram ex n s) ws w) = (s ^^ length ws) (pattern w)"
  by (induction ws arbitrary: w) (simp_all add: visit_def funpow_shift del: funpow.simps)

locale cell_ram = ram_contract ram "\<lambda>p. p" g for ram :: "'m ram_ops" and g :: "ptr \<Rightarrow> u64 \<Rightarrow> u64"
begin

lemma visit_fold_other: "q \<notin> set ws \<Longrightarrow> read_word ram q (memory (fold (visit ram ex n s) ws w)) = read_word ram q (memory w)"
  by (induction ws arbitrary: w) (simp_all add: visit_def)

lemma visit_fold_nth:
  "distinct ws \<Longrightarrow> i < length ws \<Longrightarrow>
   read_word ram (ws ! i) (memory (fold (visit ram ex n s) ws w)) = g (ws ! i) (n ((s ^^ i) (pattern w)))"
proof (induction ws arbitrary: w i)
  case Nil
  then show ?case by simp
next
  case (Cons p ws)
  show ?case
  proof (cases i)
    case 0
    then show ?thesis using Cons.prems by (simp add: visit_fold_other) (simp add: visit_def)
  next
    case (Suc j)
    have "pattern (visit ram ex n s p w) = s (pattern w)" by (simp add: visit_def)
    then show ?thesis using Suc Cons.prems Cons.IH [of j "visit ram ex n s p w"] by (simp add: funpow_shift del: funpow.simps)
  qed
qed

lemma visit_fold_reports:
  "distinct ws \<Longrightarrow> set (reports (fold (visit ram ex n s) ws w)) = set (reports w) \<union>
    {Data_Error (ws ! i) (ex ((s ^^ i) (pattern w))) (read_word ram (ws ! i) (memory w)) True | i.
      i < length ws \<and> read_word ram (ws ! i) (memory w) \<noteq> ex ((s ^^ i) (pattern w))}"
proof (induction ws arbitrary: w)
  case Nil
  then show ?case by simp
next
  case (Cons p ws)
  let ?w = "visit ram ex n s p w"
  have pat: "pattern ?w = s (pattern w)" by (simp add: visit_def)
  have rd: "read_word ram (ws ! i) (memory ?w) = read_word ram (ws ! i) (memory w)" if "i < length ws" for i
  proof -
    have "ws ! i \<noteq> p" using Cons.prems that by (metis distinct.simps(2) nth_mem)
    then show ?thesis by (simp add: visit_def)
  qed
  have tail: "{Data_Error (ws ! i) (ex ((s ^^ i) (pattern ?w))) (read_word ram (ws ! i) (memory ?w)) True | i.
        i < length ws \<and> read_word ram (ws ! i) (memory ?w) \<noteq> ex ((s ^^ i) (pattern ?w))} =
      {Data_Error ((p # ws) ! Suc i) (ex ((s ^^ Suc i) (pattern w))) (read_word ram ((p # ws) ! Suc i) (memory w)) True | i.
        i < length ws \<and> read_word ram ((p # ws) ! Suc i) (memory w) \<noteq> ex ((s ^^ Suc i) (pattern w))}"
    unfolding pat funpow_shift using rd by (intro Collect_cong) (auto simp del: funpow.simps)
  have head: "set (reports ?w) = set (reports w) \<union>
      (if read_word ram p (memory w) \<noteq> ex (pattern w)
       then {Data_Error p (ex (pattern w)) (read_word ram p (memory w)) True} else {})"
    by (auto simp: visit_def)
  have split: "{F i | i. i < length (p # ws) \<and> P i} = (if P 0 then {F 0} else {}) \<union> {F (Suc i) | i. i < length ws \<and> P (Suc i)}"
    for F :: "nat \<Rightarrow> test_error" and P
    by (auto simp: less_Suc_eq_0_disj)
  have "set (reports (fold (visit ram ex n s) (p # ws) w)) = set (reports ?w) \<union>
      {Data_Error (ws ! i) (ex ((s ^^ i) (pattern ?w))) (read_word ram (ws ! i) (memory ?w)) True | i.
        i < length ws \<and> read_word ram (ws ! i) (memory ?w) \<noteq> ex ((s ^^ i) (pattern ?w))}"
    using Cons.prems Cons.IH [of ?w] by simp
  also have "\<dots> = set (reports w) \<union>
    {Data_Error ((p # ws) ! i) (ex ((s ^^ i) (pattern w))) (read_word ram ((p # ws) ! i) (memory w)) True | i.
      i < length (p # ws) \<and> read_word ram ((p # ws) ! i) (memory w) \<noteq> ex ((s ^^ i) (pattern w))}"
    unfolding tail head split by (simp add: Un_assoc)
  finally show ?case .
qed

lemma store_fold_other: "q \<notin> set ws \<Longrightarrow> read_word ram q (memory (fold (store_next ram n s) ws w)) = read_word ram q (memory w)"
  by (induction ws arbitrary: w) (simp_all add: store_next_def)

lemma store_fold_nth:
  "distinct ws \<Longrightarrow> i < length ws \<Longrightarrow>
   read_word ram (ws ! i) (memory (fold (store_next ram n s) ws w)) = g (ws ! i) (n ((s ^^ i) (pattern w)))"
proof (induction ws arbitrary: w i)
  case Nil
  then show ?case by simp
next
  case (Cons p ws)
  show ?case
  proof (cases i)
    case 0
    then show ?thesis using Cons.prems by (simp add: store_fold_other) (simp add: store_next_def)
  next
    case (Suc j)
    have "pattern (store_next ram n s p w) = s (pattern w)" by (simp add: store_next_def)
    then show ?thesis using Suc Cons.prems Cons.IH [of j "store_next ram n s p w"] by (simp add: funpow_shift del: funpow.simps)
  qed
qed

end

section \<open>The RAM with given faults\<close>

definition faulty_ram :: "(ptr \<Rightarrow> ptr) \<Rightarrow> (ptr \<Rightarrow> u64 \<Rightarrow> u64) \<Rightarrow> (ptr \<Rightarrow> u64) ram_ops" where
  "faulty_ram dec g = \<lparr>read_word = \<lambda>p m. m p, write_word = \<lambda>p v m q. if dec q = dec p then g (dec p) v else m q\<rparr>"

interpretation faulty: ram_contract "faulty_ram dec g" dec g for dec g
  by unfold_locales (simp add: faulty_ram_def)

interpretation cells: cell_ram "faulty_ram (\<lambda>p. p) g" g for g
  by unfold_locales

section \<open>Rules for runs\<close>

text \<open>Started in \<open>P\<close>, the run ends in \<open>Q\<close>, or in \<open>R\<close> when it bails out.\<close>

definition triple :: "('s \<Rightarrow> bool) \<Rightarrow> ('s scan_state \<Rightarrow> bool \<times> 's scan_state) \<Rightarrow> ('s \<Rightarrow> bool) \<Rightarrow> ('s \<Rightarrow> bool) \<Rightarrow> bool" where
  "triple P f Q R \<longleftrightarrow>
     (\<forall>st. P (work st) \<longrightarrow> (if fst (f st) then R (work (snd (f st))) else Q (work (snd (f st)))))"

lemma tripleI:
  "(\<And>st. P (work st) \<Longrightarrow> if fst (f st) then R (work (snd (f st))) else Q (work (snd (f st)))) \<Longrightarrow> triple P f Q R"
  by (simp add: triple_def)

lemma tripleD:
  "triple P f Q R \<Longrightarrow> P (work st) \<Longrightarrow> if fst (f st) then R (work (snd (f st))) else Q (work (snd (f st)))"
  by (simp add: triple_def)

lemma triple_and_then: "triple P f Q R \<Longrightarrow> triple Q g S R \<Longrightarrow> triple P (and_then f g) S R"
  by (auto simp: triple_def and_then_def Let_def split: prod.splits if_splits)
     (metis fst_conv snd_conv)+

lemma triple_weaken: "triple P f Q R \<Longrightarrow> (\<And>w. P' w \<Longrightarrow> P w) \<Longrightarrow> (\<And>w. Q w \<Longrightarrow> Q' w) \<Longrightarrow> (\<And>w. R w \<Longrightarrow> R' w) \<Longrightarrow> triple P' f Q' R'"
  by (auto simp: triple_def split: if_splits)

lemma for_each_Cons: "for_each f (x # xs) = and_then (f x) (for_each f xs)"
  by (rule ext) (simp add: and_then_def)

lemma triple_Nil: "triple P (for_each f []) P R"
  by (simp add: triple_def)

lemma triple_loop: "(\<And>x. x \<in> set xs \<Longrightarrow> triple P (f x) P R) \<Longrightarrow> triple P (for_each f xs) P R"
proof (induction xs)
  case Nil
  show ?case by (rule triple_Nil)
next
  case (Cons x xs)
  have "triple P (f x) P R" "triple P (for_each f xs) P R"
    using Cons.prems Cons.IH by simp_all
  then show ?case unfolding for_each_Cons by (rule triple_and_then)
qed

lemma triple_rounds:
  assumes "triple P f Q R" "triple Q f Q R" "xs \<noteq> []"
  shows "triple P (for_each (\<lambda>_. f) xs) Q R"
proof -
  obtain x ys where "xs = x # ys" using assms(3) by (cases xs) auto
  moreover have "triple Q (for_each (\<lambda>_. f) ys) Q R" using assms(2) by (rule triple_loop)
  ultimately show ?thesis using triple_and_then [OF assms(1)] by (simp add: for_each_Cons)
qed

lemma triple_set_pattern: "(\<And>w. P w \<Longrightarrow> Q (w\<lparr>pattern := x\<rparr>)) \<Longrightarrow> triple P (set_pattern x) Q R"
  by (simp add: triple_def set_pattern_def)

lemma triple_invert_pattern: "(\<And>w. P w \<Longrightarrow> Q (w\<lparr>pattern := NOT (pattern w)\<rparr>)) \<Longrightarrow> triple P invert_pattern Q R"
  by (simp add: triple_def invert_pattern_def)

section \<open>Passes over cells\<close>

definition errors_at :: "'m test_state \<Rightarrow> ptr set" where
  "errors_at w = error_at ` set (reports w)"

lemma errors_at_pattern [simp]: "errors_at (w\<lparr>pattern := x\<rparr>) = errors_at w"
  by (simp add: errors_at_def)

definition bad_cells :: "(ptr \<Rightarrow> u64 \<Rightarrow> u64) \<Rightarrow> ptr set \<Rightarrow> (ptr \<Rightarrow> u64) \<Rightarrow> ptr set" where
  "bad_cells g A x = {p \<in> A. g p (x p) \<noteq> x p}"

lemma bad_cells_mono: "A \<subseteq> B \<Longrightarrow> bad_cells g A x \<subseteq> bad_cells g B x"
  by (auto simp: bad_cells_def)

context cell_ram begin

definition holds :: "ptr set \<Rightarrow> (ptr \<Rightarrow> u64) \<Rightarrow> 'm test_state \<Rightarrow> bool" where
  "holds A x w \<longleftrightarrow> (\<forall>p \<in> A. read_word ram p (memory w) = g p (x p))"

lemma holds_pattern [simp]: "holds A x (w\<lparr>pattern := v\<rparr>) = holds A x w"
  by (simp add: holds_def)

lemma visit_pass:
  assumes "distinct ws" "holds (set ws) x w"
    and pat: "\<And>i. i < length ws \<Longrightarrow> ex ((s ^^ i) (pattern w)) = x (ws ! i) \<and> n ((s ^^ i) (pattern w)) = y (ws ! i)"
  shows "holds (set ws) y (fold (visit ram ex n s) ws w)"
    "errors_at (fold (visit ram ex n s) ws w) = errors_at w \<union> bad_cells g (set ws) x"
proof -
  show "holds (set ws) y (fold (visit ram ex n s) ws w)"
    unfolding holds_def
  proof
    fix p
    assume "p \<in> set ws"
    then obtain i where "i < length ws" "p = ws ! i" by (metis in_set_conv_nth)
    then show "read_word ram p (memory (fold (visit ram ex n s) ws w)) = g p (y p)"
      using visit_fold_nth [OF assms(1)] pat by simp
  qed
  have rd: "read_word ram (ws ! i) (memory w) = g (ws ! i) (x (ws ! i))" if "i < length ws" for i
    using assms(2) that by (simp add: holds_def)
  have "errors_at (fold (visit ram ex n s) ws w) = errors_at w \<union>
      {ws ! i | i. i < length ws \<and> read_word ram (ws ! i) (memory w) \<noteq> ex ((s ^^ i) (pattern w))}"
    unfolding errors_at_def visit_fold_reports [OF assms(1)] by (auto simp: image_Un image_iff) force
  also have "{ws ! i | i. i < length ws \<and> read_word ram (ws ! i) (memory w) \<noteq> ex ((s ^^ i) (pattern w))} =
      {ws ! i | i. i < length ws \<and> g (ws ! i) (x (ws ! i)) \<noteq> x (ws ! i)}"
    using rd pat by (intro Collect_cong) metis
  also have "\<dots> = bad_cells g (set ws) x"
    by (auto simp: bad_cells_def in_set_conv_nth)
  finally show "errors_at (fold (visit ram ex n s) ws w) = errors_at w \<union> bad_cells g (set ws) x" .
qed

lemma scanned_visit:
  assumes "distinct ws" "holds (set ws) x w"
    and pat: "\<And>i. i < length ws \<Longrightarrow> ex ((s ^^ i) (pattern w)) = x (ws ! i) \<and> n ((s ^^ i) (pattern w)) = y (ws ! i)"
    and sc: "scanned (visit ram ex n s) ws b w w'"
  shows "if b then errors_at w' \<subseteq> errors_at w \<union> bad_cells g (set ws) x
    else holds (set ws) y w' \<and> errors_at w' = errors_at w \<union> bad_cells g (set ws) x \<and> pattern w' = (s ^^ length ws) (pattern w)"
proof (cases b)
  case True
  obtain k where w': "w' = fold (visit ram ex n s) (take k ws) w" using sc by (auto simp: scanned_def)
  have "set (take k ws) \<subseteq> set ws" by (rule set_take_subset)
  then have h: "holds (set (take k ws)) x w" using assms(2) by (auto simp: holds_def)
  have "errors_at w' = errors_at w \<union> bad_cells g (set (take k ws)) x"
    unfolding w' using assms(1) h pat by (intro visit_pass) simp_all
  moreover have "bad_cells g (set (take k ws)) x \<subseteq> bad_cells g (set ws) x"
    by (intro bad_cells_mono set_take_subset)
  ultimately show ?thesis using True by auto
next
  case False
  then have w': "w' = fold (visit ram ex n s) ws w" using sc by (simp add: scanned_all)
  show ?thesis
    using visit_pass [OF assms(1-3)] False w' by (simp add: visit_fold_pattern)
qed

lemma scanned_store:
  assumes "distinct ws" "\<And>i. i < length ws \<Longrightarrow> n ((s ^^ i) (pattern w)) = y (ws ! i)"
    and sc: "scanned (store_next ram n s) ws b w w'"
  shows "errors_at w' = errors_at w \<and> (\<not> b \<longrightarrow> holds (set ws) y w')"
proof -
  obtain k where w': "w' = fold (store_next ram n s) (take k ws) w" and k: "\<not> b \<longrightarrow> length ws \<le> k"
    using sc by (auto simp: scanned_def)
  have "holds (set ws) y w'" if "\<not> b"
    unfolding holds_def
  proof
    fix p
    assume "p \<in> set ws"
    then obtain i where "i < length ws" "p = ws ! i" by (metis in_set_conv_nth)
    then show "read_word ram p (memory w') = g p (y p)"
      using store_fold_nth [OF assms(1)] assms(2) w' k that by simp
  qed
  then show ?thesis by (simp add: w' errors_at_def store_fold_simps)
qed

text \<open>
  A round of two passes, up with the words \<open>x\<close> expected and \<open>y\<close> left behind, down with the two exchanged.
\<close>

lemma triple_up:
  assumes "distinct (chunk_all cfg cpu segs)" "\<forall>seg \<in> set segs. chunk_ok cfg cpu seg" "0 \<le> cpu"
    and "\<And>i. i < length (chunk_all cfg cpu segs) \<Longrightarrow>
      ex ((s ^^ i) v) = x (chunk_all cfg cpu segs ! i) \<and> n ((s ^^ i) v) = y (chunk_all cfg cpu segs ! i)"
  shows "triple (\<lambda>w. holds (set (chunk_all cfg cpu segs)) x w \<and> errors_at w = E \<and> pattern w = v)
    (for_each (up_chunk cfg cpu bail (up_words (visit ram ex n s))) segs)
    (\<lambda>w. holds (set (chunk_all cfg cpu segs)) y w \<and> errors_at w = E \<union> bad_cells g (set (chunk_all cfg cpu segs)) x \<and>
      pattern w = (s ^^ length (chunk_all cfg cpu segs)) v)
    (\<lambda>w. errors_at w \<subseteq> E \<union> bad_cells g (set (chunk_all cfg cpu segs)) x)"
proof (rule tripleI, elim conjE)
  fix st :: "'m test_state scan_state"
  assume st: "holds (set (chunk_all cfg cpu segs)) x (work st)" "errors_at (work st) = E" "pattern (work st) = v"
  show "if fst (for_each (up_chunk cfg cpu bail (up_words (visit ram ex n s))) segs st)
    then errors_at (work (snd (for_each (up_chunk cfg cpu bail (up_words (visit ram ex n s))) segs st)))
      \<subseteq> E \<union> bad_cells g (set (chunk_all cfg cpu segs)) x
    else holds (set (chunk_all cfg cpu segs)) y (work (snd (for_each (up_chunk cfg cpu bail (up_words (visit ram ex n s))) segs st))) \<and>
      errors_at (work (snd (for_each (up_chunk cfg cpu bail (up_words (visit ram ex n s))) segs st))) =
        E \<union> bad_cells g (set (chunk_all cfg cpu segs)) x \<and>
      pattern (work (snd (for_each (up_chunk cfg cpu bail (up_words (visit ram ex n s))) segs st))) =
        (s ^^ length (chunk_all cfg cpu segs)) v"
    using scanned_visit [OF assms(1) st(1) _ up_pass_scanned [OF assms(2,3)], of ex s n y bail] st(2,3) assms(4)
    by (simp split: if_splits)
qed

lemma triple_down:
  assumes "distinct (chunk_all cfg cpu segs)" "\<forall>seg \<in> set segs. chunk_ok cfg cpu seg" "0 \<le> cpu"
    and "\<And>i. i < length (chunk_all cfg cpu segs) \<Longrightarrow>
      ex ((s ^^ i) v) = x (rev (chunk_all cfg cpu segs) ! i) \<and> n ((s ^^ i) v) = y (rev (chunk_all cfg cpu segs) ! i)"
  shows "triple (\<lambda>w. holds (set (chunk_all cfg cpu segs)) x w \<and> errors_at w = E \<and> pattern w = v)
    (for_each (down_chunk cfg cpu bail (down_words (visit ram ex n s))) (rev segs))
    (\<lambda>w. holds (set (chunk_all cfg cpu segs)) y w \<and> errors_at w = E \<union> bad_cells g (set (chunk_all cfg cpu segs)) x)
    (\<lambda>w. errors_at w \<subseteq> E \<union> bad_cells g (set (chunk_all cfg cpu segs)) x)"
proof (rule tripleI, elim conjE)
  fix st :: "'m test_state scan_state"
  assume st: "holds (set (chunk_all cfg cpu segs)) x (work st)" "errors_at (work st) = E" "pattern (work st) = v"
  have d: "distinct (rev (chunk_all cfg cpu segs))" using assms(1) by simp
  have h: "holds (set (rev (chunk_all cfg cpu segs))) x (work st)" using st(1) by simp
  show "if fst (for_each (down_chunk cfg cpu bail (down_words (visit ram ex n s))) (rev segs) st)
    then errors_at (work (snd (for_each (down_chunk cfg cpu bail (down_words (visit ram ex n s))) (rev segs) st)))
      \<subseteq> E \<union> bad_cells g (set (chunk_all cfg cpu segs)) x
    else holds (set (chunk_all cfg cpu segs)) y (work (snd (for_each (down_chunk cfg cpu bail (down_words (visit ram ex n s))) (rev segs) st))) \<and>
      errors_at (work (snd (for_each (down_chunk cfg cpu bail (down_words (visit ram ex n s))) (rev segs) st))) =
        E \<union> bad_cells g (set (chunk_all cfg cpu segs)) x"
    using scanned_visit [OF d h _ down_pass_scanned [OF assms(2,3)], of ex s n y bail] st(2,3) assms(4)
    by (simp split: if_splits)
qed

end

lemma triple_any_pattern: "(\<And>v. triple (\<lambda>w. P w \<and> pattern w = v) f Q R) \<Longrightarrow> triple P f Q R"
  unfolding triple_def by blast

context cell_ram begin

lemma triple_fill:
  assumes "\<forall>seg \<in> set segs. chunk_ok cfg cpu seg" "0 \<le> cpu"
  shows "triple (\<lambda>w. errors_at w = E) (for_each (up_chunk cfg cpu bail (stosq_block ram v)) segs)
    (\<lambda>w. holds (set (chunk_all cfg cpu segs)) (\<lambda>_. v) w \<and> errors_at w = E) (\<lambda>w. errors_at w = E)"
proof (rule tripleI)
  fix st :: "'m test_state scan_state"
  assume st: "errors_at (work st) = E"
  let ?r = "for_each (up_chunk cfg cpu bail (stosq_block ram v)) segs st"
  obtain ws where ws: "work (snd ?r) = fold (\<lambda>q. put_word ram q v) ws (work st)"
      "\<not> fst ?r \<longrightarrow> set ws = set (chunk_all cfg cpu segs)"
    using fill_pass_covered [OF assms, of ram v bail st] by (auto simp: covered_def)
  have "errors_at (work (snd ?r)) = E" using st by (simp add: ws(1) errors_at_def)
  moreover have "holds (set (chunk_all cfg cpu segs)) (\<lambda>_. v) (work (snd ?r))" if "\<not> fst ?r"
    using ws(2) that by (simp add: ws(1) holds_def fill_const)
  ultimately show "if fst ?r then errors_at (work (snd ?r)) = E
      else holds (set (chunk_all cfg cpu segs)) (\<lambda>_. v) (work (snd ?r)) \<and> errors_at (work (snd ?r)) = E"
    by simp
qed

lemma triple_store:
  assumes "distinct (chunk_all cfg cpu segs)" "\<forall>seg \<in> set segs. chunk_ok cfg cpu seg" "0 \<le> cpu"
    and "\<And>i. i < length (chunk_all cfg cpu segs) \<Longrightarrow> n ((s ^^ i) v) = y (chunk_all cfg cpu segs ! i)"
  shows "triple (\<lambda>w. errors_at w = E \<and> pattern w = v) (for_each (up_chunk cfg cpu bail (up_words (store_next ram n s))) segs)
    (\<lambda>w. holds (set (chunk_all cfg cpu segs)) y w \<and> errors_at w = E) (\<lambda>w. errors_at w = E)"
proof (rule tripleI, elim conjE)
  fix st :: "'m test_state scan_state"
  assume st: "errors_at (work st) = E" "pattern (work st) = v"
  let ?r = "for_each (up_chunk cfg cpu bail (up_words (store_next ram n s))) segs st"
  show "if fst ?r then errors_at (work (snd ?r)) = E
      else holds (set (chunk_all cfg cpu segs)) y (work (snd ?r)) \<and> errors_at (work (snd ?r)) = E"
    using scanned_store [OF assms(1) _ up_pass_scanned [OF assms(2,3)], of n s st y bail] st assms(4) by auto
qed

text \<open>Repeating a round that finds the cells \<open>F\<close> and leaves the words as they were.\<close>

lemma triple_repeat:
  assumes "\<And>E. triple (\<lambda>w. holds A x w \<and> errors_at w = E) r
      (\<lambda>w. holds A x w \<and> errors_at w = E \<union> F) (\<lambda>w. errors_at w \<subseteq> E \<union> F)"
  shows "triple (\<lambda>w. holds A x w \<and> errors_at w = {}) (for_each (\<lambda>_. r) xs)
    (\<lambda>w. errors_at w = (if xs = [] then {} else F)) (\<lambda>w. errors_at w \<subseteq> F)"
proof (cases "xs = []")
  case True
  then show ?thesis by (simp add: triple_def)
next
  case False
  have "triple (\<lambda>w. holds A x w \<and> errors_at w = {}) r (\<lambda>w. holds A x w \<and> errors_at w = F) (\<lambda>w. errors_at w \<subseteq> F)"
    using assms [of "{}"] by simp
  moreover have "triple (\<lambda>w. holds A x w \<and> errors_at w = F) r (\<lambda>w. holds A x w \<and> errors_at w = F) (\<lambda>w. errors_at w \<subseteq> F)"
    using assms [of F] by simp
  ultimately have "triple (\<lambda>w. holds A x w \<and> errors_at w = {}) (for_each (\<lambda>_. r) xs)
      (\<lambda>w. holds A x w \<and> errors_at w = F) (\<lambda>w. errors_at w \<subseteq> F)"
    using False by (rule triple_rounds)
  then show ?thesis by (rule triple_weaken) (use False in simp_all)
qed

lemma triple_fixed_round:
  assumes "distinct (chunk_all cfg cpu segs)" "\<forall>seg \<in> set segs. chunk_ok cfg cpu seg" "0 \<le> cpu"
  defines "A \<equiv> set (chunk_all cfg cpu segs)"
  shows "triple (\<lambda>w. holds A (\<lambda>_. a) w \<and> errors_at w = E) (mov_inv_fixed_round ram cfg cpu bail segs a b)
    (\<lambda>w. holds A (\<lambda>_. a) w \<and> errors_at w = E \<union> (bad_cells g A (\<lambda>_. a) \<union> bad_cells g A (\<lambda>_. b)))
    (\<lambda>w. errors_at w \<subseteq> E \<union> (bad_cells g A (\<lambda>_. a) \<union> bad_cells g A (\<lambda>_. b)))"
proof -
  let ?Ea = "E \<union> bad_cells g A (\<lambda>_. a)" and ?Eab = "E \<union> (bad_cells g A (\<lambda>_. a) \<union> bad_cells g A (\<lambda>_. b))"
  have up: "triple (\<lambda>w. holds A (\<lambda>_. a) w \<and> errors_at w = E)
      (for_each (up_chunk cfg cpu bail (up_words (replace_word ram a b))) segs)
      (\<lambda>w. holds A (\<lambda>_. b) w \<and> errors_at w = ?Ea) (\<lambda>w. errors_at w \<subseteq> ?Eab)"
    unfolding bodies_visit A_def
    by (rule triple_any_pattern,
        rule triple_weaken [OF triple_up [OF assms(1-3), where x = "\<lambda>_. a" and y = "\<lambda>_. b" and E = E]]) auto
  have down: "triple (\<lambda>w. holds A (\<lambda>_. b) w \<and> errors_at w = ?Ea)
      (for_each (down_chunk cfg cpu bail (down_words (replace_word ram b a))) (rev segs))
      (\<lambda>w. holds A (\<lambda>_. a) w \<and> errors_at w = ?Eab) (\<lambda>w. errors_at w \<subseteq> ?Eab)"
    unfolding bodies_visit A_def
    by (rule triple_any_pattern,
        rule triple_weaken [OF triple_down [OF assms(1-3), where x = "\<lambda>_. b" and y = "\<lambda>_. a" and E = "E \<union> bad_cells g (set (chunk_all cfg cpu segs)) (\<lambda>_. a)"]]) auto
  show ?thesis unfolding mov_inv_fixed_round_def by (rule triple_and_then [OF up down])
qed

lemma triple_fixed:
  fixes a b :: u64
  assumes "distinct (chunk_all cfg cpu segs)" "\<forall>seg \<in> set segs. chunk_ok cfg cpu seg" "0 \<le> cpu"
  defines "F \<equiv> bad_cells g (set (chunk_all cfg cpu segs)) (\<lambda>_. a) \<union> bad_cells g (set (chunk_all cfg cpu segs)) (\<lambda>_. b)"
  shows "triple (\<lambda>w. errors_at w = {}) (test_mov_inv_fixed ram cfg cpu bail segs iterations a b)
    (\<lambda>w. errors_at w = (if iterations \<le> 0 then {} else F)) (\<lambda>w. errors_at w \<subseteq> F)"
proof -
  have fill: "triple (\<lambda>w. errors_at w = {}) (for_each (up_chunk cfg cpu bail (stosq_block ram a)) segs)
      (\<lambda>w. holds (set (chunk_all cfg cpu segs)) (\<lambda>_. a) w \<and> errors_at w = {}) (\<lambda>w. errors_at w \<subseteq> F)"
    by (rule triple_weaken [OF triple_fill [OF assms(2,3)]]) auto
  have "triple (\<lambda>w. holds (set (chunk_all cfg cpu segs)) (\<lambda>_. a) w \<and> errors_at w = {})
      (for_each (\<lambda>_. mov_inv_fixed_round ram cfg cpu bail segs a b) [0..<nat iterations])
      (\<lambda>w. errors_at w = (if [0..<nat iterations] = [] then {} else F)) (\<lambda>w. errors_at w \<subseteq> F)"
    unfolding F_def by (rule triple_repeat) (rule triple_fixed_round [OF assms(1-3)])
  from triple_and_then [OF fill this] show ?thesis by (simp add: test_mov_inv_fixed_def)
qed

end

section \<open>Running patterns\<close>

lemma high_bit: "64 \<le> n \<Longrightarrow> \<not> bit (x :: u64) n"
  using bit_imp_le_length [of x n] by auto

lemma bit_rotate_left: "n < 64 \<Longrightarrow> bit (rotate_left x) n = bit x (if n = 0 then 63 else n - 1)"
  unfolding rotate_left_def by (simp only: bit_or_iff bit_push_bit_iff bit_drop_bit_eq comp_def)
     (auto simp: high_bit)

lemma bit_rotate_right: "n < 64 \<Longrightarrow> bit (rotate_right x) n = bit x (if n = 63 then 0 else Suc n)"
  unfolding rotate_right_def by (simp only: bit_or_iff bit_push_bit_iff bit_drop_bit_eq comp_def)
     (auto simp: high_bit)

lemma rotate_right_left: "rotate_right (rotate_left x) = x"
  by (rule bit_word_eqI) (simp add: bit_rotate_left bit_rotate_right)

lemma rotate_right_not: "rotate_right (NOT x) = NOT (rotate_right x)"
  by (rule bit_word_eqI) (simp add: bit_rotate_right bit_not_iff)

lemma rotate_back:
  "k \<le> N \<Longrightarrow> (rotate_right ^^ k) (NOT ((rotate_left ^^ N) v)) = NOT ((rotate_left ^^ (N - k)) v)"
proof (induction k)
  case 0
  then show ?case by simp
next
  case (Suc k)
  then obtain j where j: "N - k = Suc j" "N - Suc k = j" by (metis Suc_diff_Suc Suc_le_lessD)
  have "(rotate_right ^^ Suc k) (NOT ((rotate_left ^^ N) v)) = rotate_right (NOT ((rotate_left ^^ (N - k)) v))"
    using Suc by simp
  then show ?case by (simp add: j rotate_right_not rotate_right_left)
qed

text \<open>The word that belongs to each address when the \<open>i\<close>-th word of \<open>ws\<close> gets \<open>f i\<close>.\<close>

definition assigned :: "ptr list \<Rightarrow> (nat \<Rightarrow> u64) \<Rightarrow> ptr \<Rightarrow> u64" where
  "assigned ws f p = the (map_of (zip ws (map f [0..<length ws])) p)"

lemma assigned_nth: "distinct ws \<Longrightarrow> i < length ws \<Longrightarrow> assigned ws f (ws ! i) = f i"
  by (simp add: assigned_def map_of_zip_nth)

lemma bad_assigned:
  "distinct ws \<Longrightarrow> bad_cells g (set ws) (assigned ws f) = {ws ! i | i. i < length ws \<and> g (ws ! i) (f i) \<noteq> f i}"
  by (auto simp: bad_cells_def in_set_conv_nth assigned_nth)

lemma bad_assigned_not:
  "distinct ws \<Longrightarrow> bad_cells g (set ws) (\<lambda>p. NOT (assigned ws f p)) =
    {ws ! i | i. i < length ws \<and> g (ws ! i) (NOT (f i)) \<noteq> NOT (f i)}"
  by (auto simp: bad_cells_def in_set_conv_nth assigned_nth)

context cell_ram begin

lemma triple_walk1_round:
  fixes offset :: nat and inverted :: bool
  assumes "distinct (chunk_all cfg cpu segs)" "\<forall>seg \<in> set segs. chunk_ok cfg cpu seg" "0 \<le> cpu"
  defines "A \<equiv> set (chunk_all cfg cpu segs)"
    and "x \<equiv> assigned (chunk_all cfg cpu segs) (\<lambda>i. (rotate_left ^^ i) (walk1_pattern offset inverted))"
  shows "triple (\<lambda>w. holds A x w \<and> errors_at w = E) (walk1_round ram cfg cpu bail segs offset inverted)
    (\<lambda>w. holds A x w \<and> errors_at w = E \<union> (bad_cells g A x \<union> bad_cells g A (\<lambda>p. NOT (x p))))
    (\<lambda>w. errors_at w \<subseteq> E \<union> (bad_cells g A x \<union> bad_cells g A (\<lambda>p. NOT (x p))))"
proof -
  let ?v = "walk1_pattern offset inverted" and ?W = "chunk_all cfg cpu segs"
  let ?N = "length ?W"
  let ?Ea = "E \<union> bad_cells g A x" and ?Eab = "E \<union> (bad_cells g A x \<union> bad_cells g A (\<lambda>p. NOT (x p)))"
  have init: "triple (\<lambda>w. holds A x w \<and> errors_at w = E) (set_pattern ?v)
      (\<lambda>w. holds A x w \<and> errors_at w = E \<and> pattern w = ?v) (\<lambda>w. errors_at w \<subseteq> ?Eab)"
    by (rule triple_set_pattern) simp
  have up: "triple (\<lambda>w. holds A x w \<and> errors_at w = E \<and> pattern w = ?v)
      (for_each (up_chunk cfg cpu bail (up_words (walk1_up ram))) segs)
      (\<lambda>w. holds A (\<lambda>p. NOT (x p)) w \<and> errors_at w = ?Ea \<and> pattern w = (rotate_left ^^ ?N) ?v)
      (\<lambda>w. errors_at w \<subseteq> ?Eab)"
    unfolding bodies_visit A_def
    by (rule triple_weaken [OF triple_up [OF assms(1-3), where x = x and y = "\<lambda>p. NOT (x p)" and E = E]])
      (auto simp: x_def assigned_nth [OF assms(1)])
  have flip: "triple (\<lambda>w. holds A (\<lambda>p. NOT (x p)) w \<and> errors_at w = ?Ea \<and> pattern w = (rotate_left ^^ ?N) ?v)
      invert_pattern
      (\<lambda>w. holds A (\<lambda>p. NOT (x p)) w \<and> errors_at w = ?Ea \<and> pattern w = NOT ((rotate_left ^^ ?N) ?v))
      (\<lambda>w. errors_at w \<subseteq> ?Eab)"
    by (rule triple_invert_pattern) simp
  have unrot: "rotate_right ((rotate_right ^^ i) (NOT ((rotate_left ^^ ?N) ?v))) = NOT (x (rev ?W ! i))" if "i < ?N" for i
  proof -
    have "rotate_right ((rotate_right ^^ i) (NOT ((rotate_left ^^ ?N) ?v))) = NOT ((rotate_left ^^ (?N - Suc i)) ?v)"
      using rotate_back [of "Suc i" ?N ?v] that by simp
    moreover have "x (rev ?W ! i) = (rotate_left ^^ (?N - Suc i)) ?v"
      using that by (simp add: rev_nth x_def assigned_nth [OF assms(1)])
    ultimately show ?thesis by simp
  qed
  have down: "triple (\<lambda>w. holds A (\<lambda>p. NOT (x p)) w \<and> errors_at w = ?Ea \<and> pattern w = NOT ((rotate_left ^^ ?N) ?v))
      (for_each (down_chunk cfg cpu bail (down_words (walk1_down ram))) (rev segs))
      (\<lambda>w. holds A x w \<and> errors_at w = ?Eab) (\<lambda>w. errors_at w \<subseteq> ?Eab)"
    unfolding bodies_visit A_def
    by (rule triple_weaken [OF triple_down [OF assms(1-3), where x = "\<lambda>p. NOT (x p)" and y = x
            and E = "E \<union> bad_cells g (set (chunk_all cfg cpu segs)) x"]])
      (auto simp: unrot)
  show ?thesis
    unfolding walk1_round_def by (rule triple_and_then [OF init triple_and_then [OF up triple_and_then [OF flip down]]])
qed

lemma triple_walk1:
  fixes offset :: nat and inverted :: bool
  assumes "distinct (chunk_all cfg cpu segs)" "\<forall>seg \<in> set segs. chunk_ok cfg cpu seg" "0 \<le> cpu"
  defines "x \<equiv> assigned (chunk_all cfg cpu segs) (\<lambda>i. (rotate_left ^^ i) (walk1_pattern offset inverted))"
  defines "F \<equiv> bad_cells g (set (chunk_all cfg cpu segs)) x \<union> bad_cells g (set (chunk_all cfg cpu segs)) (\<lambda>p. NOT (x p))"
  shows "triple (\<lambda>w. errors_at w = {}) (test_mov_inv_walk1 ram cfg cpu bail segs iterations offset inverted)
    (\<lambda>w. errors_at w = (if iterations \<le> 0 then {} else F)) (\<lambda>w. errors_at w \<subseteq> F)"
proof -
  let ?v = "walk1_pattern offset inverted"
  have init: "triple (\<lambda>w. errors_at w = {}) (set_pattern ?v) (\<lambda>w. errors_at w = {} \<and> pattern w = ?v) (\<lambda>w. errors_at w \<subseteq> F)"
    by (rule triple_set_pattern) simp
  have fill: "triple (\<lambda>w. errors_at w = {} \<and> pattern w = ?v) (for_each (up_chunk cfg cpu bail (up_words (walk1_fill ram))) segs)
      (\<lambda>w. holds (set (chunk_all cfg cpu segs)) x w \<and> errors_at w = {}) (\<lambda>w. errors_at w \<subseteq> F)"
    unfolding bodies_store
    by (rule triple_weaken [OF triple_store [OF assms(1-3), where y = x]]) (auto simp: x_def assigned_nth [OF assms(1)])
  have "triple (\<lambda>w. holds (set (chunk_all cfg cpu segs)) x w \<and> errors_at w = {})
      (for_each (\<lambda>_. walk1_round ram cfg cpu bail segs offset inverted) [0..<nat iterations])
      (\<lambda>w. errors_at w = (if [0..<nat iterations] = [] then {} else F)) (\<lambda>w. errors_at w \<subseteq> F)"
    unfolding F_def x_def by (rule triple_repeat) (rule triple_walk1_round [OF assms(1-3)])
  from triple_and_then [OF init triple_and_then [OF fill this]] show ?thesis by (simp add: test_mov_inv_walk1_def)
qed

lemma triple_random_pass:
  fixes seed invert :: u64
  assumes "distinct (chunk_all cfg cpu segs)" "\<forall>seg \<in> set segs. chunk_ok cfg cpu seg" "0 \<le> cpu"
  defines "A \<equiv> set (chunk_all cfg cpu segs)"
    and "x \<equiv> assigned (chunk_all cfg cpu segs) (\<lambda>i. xor ((prsg ^^ Suc i) seed) invert)"
  shows "triple (\<lambda>w. holds A x w \<and> errors_at w = E) (random_pass ram cfg cpu bail segs seed invert)
    (\<lambda>w. holds A (\<lambda>p. NOT (x p)) w \<and> errors_at w = E \<union> bad_cells g A x) (\<lambda>w. errors_at w \<subseteq> E \<union> bad_cells g A x)"
proof -
  have init: "triple (\<lambda>w. holds A x w \<and> errors_at w = E) (set_pattern seed)
      (\<lambda>w. holds A x w \<and> errors_at w = E \<and> pattern w = seed) (\<lambda>w. errors_at w \<subseteq> E \<union> bad_cells g A x)"
    by (rule triple_set_pattern) simp
  have up: "triple (\<lambda>w. holds A x w \<and> errors_at w = E \<and> pattern w = seed)
      (for_each (up_chunk cfg cpu bail (up_words (random_check ram invert))) segs)
      (\<lambda>w. holds A (\<lambda>p. NOT (x p)) w \<and> errors_at w = E \<union> bad_cells g A x) (\<lambda>w. errors_at w \<subseteq> E \<union> bad_cells g A x)"
    unfolding bodies_visit A_def
    by (rule triple_weaken [OF triple_up [OF assms(1-3), where x = x and y = "\<lambda>p. NOT (x p)" and E = E]])
      (auto simp: x_def assigned_nth [OF assms(1)])
  show ?thesis unfolding random_pass_def by (rule triple_and_then [OF init up])
qed

lemma triple_random:
  fixes source :: u64
  assumes "distinct (chunk_all cfg cpu segs)" "\<forall>seg \<in> set segs. chunk_ok cfg cpu seg" "0 \<le> cpu"
  defines "x \<equiv> assigned (chunk_all cfg cpu segs) (\<lambda>i. (prsg ^^ Suc i) (source * 0x87654321))"
  defines "F \<equiv> bad_cells g (set (chunk_all cfg cpu segs)) x \<union> bad_cells g (set (chunk_all cfg cpu segs)) (\<lambda>p. NOT (x p))"
  shows "triple (\<lambda>w. errors_at w = {}) (test_mov_inv_random ram cfg cpu bail segs source)
    (\<lambda>w. errors_at w = F) (\<lambda>w. errors_at w \<subseteq> F)"
proof -
  let ?W = "chunk_all cfg cpu segs" and ?seed = "source * 0x87654321"
  let ?A = "set ?W" and ?nx = "\<lambda>p. NOT (x p)"
  have init: "triple (\<lambda>w. errors_at w = {}) (set_pattern ?seed) (\<lambda>w. errors_at w = {} \<and> pattern w = ?seed) (\<lambda>w. errors_at w \<subseteq> F)"
    by (rule triple_set_pattern) simp
  have fill: "triple (\<lambda>w. errors_at w = {} \<and> pattern w = ?seed) (for_each (up_chunk cfg cpu bail (up_words (random_fill ram))) segs)
      (\<lambda>w. holds ?A x w \<and> errors_at w = {}) (\<lambda>w. errors_at w \<subseteq> F)"
    unfolding bodies_store
    by (rule triple_weaken [OF triple_store [OF assms(1-3), where y = x]]) (auto simp: x_def assigned_nth [OF assms(1)])
  have x1: "assigned ?W (\<lambda>i. xor ((prsg ^^ Suc i) ?seed) 0) = x" by (simp add: x_def)
  have agree: "holds ?A (assigned ?W (\<lambda>i. xor ((prsg ^^ Suc i) ?seed) (NOT 0))) w = holds ?A ?nx w"
    "bad_cells g ?A (assigned ?W (\<lambda>i. xor ((prsg ^^ Suc i) ?seed) (NOT 0))) = bad_cells g ?A ?nx" for w
    using assigned_nth [OF assms(1)]
    by (auto simp: holds_def bad_cells_def x_def in_set_conv_nth simp del: funpow.simps)
  have p0: "triple (\<lambda>w. holds ?A x w \<and> errors_at w = {}) (random_pass ram cfg cpu bail segs ?seed 0)
      (\<lambda>w. holds ?A ?nx w \<and> errors_at w = bad_cells g ?A x) (\<lambda>w. errors_at w \<subseteq> F)"
    using triple_random_pass [OF assms(1-3), of ?seed 0 "{}" bail] unfolding x1
    by (rule triple_weaken) (auto simp: F_def)
  have p1: "triple (\<lambda>w. holds ?A ?nx w \<and> errors_at w = bad_cells g ?A x) (random_pass ram cfg cpu bail segs ?seed (NOT 0))
      (\<lambda>w. errors_at w = F) (\<lambda>w. errors_at w \<subseteq> F)"
    using triple_random_pass [OF assms(1-3), of ?seed "NOT 0" "bad_cells g ?A x" bail] unfolding agree
    by (rule triple_weaken) (auto simp: F_def)
  have "triple (\<lambda>w. errors_at w = F) (for_each (random_pass ram cfg cpu bail segs ?seed) []) (\<lambda>w. errors_at w = F) (\<lambda>w. errors_at w \<subseteq> F)"
    by (rule triple_Nil [THEN triple_weaken]) auto
  from triple_and_then [OF p0 triple_and_then [OF p1 this]]
  have passes: "triple (\<lambda>w. holds ?A x w \<and> errors_at w = {}) (for_each (random_pass ram cfg cpu bail segs ?seed) [0, NOT 0])
      (\<lambda>w. errors_at w = F) (\<lambda>w. errors_at w \<subseteq> F)"
    by (simp only: for_each_Cons)
  from triple_and_then [OF init triple_and_then [OF fill passes]] show ?thesis
    by (simp add: test_mov_inv_random_def Let_def)
qed

end

end
