(* ===== verification/Mem_Tests_Spec.thy ===== *)
theory Mem_Tests_Spec
  imports Ram_Contract
begin

text \<open>
  The properties of the memory tests: which faults each of them finds, that none is reported on sound cells, and
  the ticks of the dry run.
\<close>

section \<open>Aliasing addresses\<close>


lemma find_rev_last:
  assumes "distinct ws" "i < length ws"
  shows "find (\<lambda>p. d p = d (ws ! i)) (rev ws) = Some (ws ! i) \<longleftrightarrow> \<not> (\<exists>j. i < j \<and> j < length ws \<and> d (ws ! j) = d (ws ! i))"
  using assms
proof (induction ws rule: rev_induct)
  case Nil
  then show ?case by simp
next
  case (snoc y ws)
  show ?case
  proof (cases "i = length ws")
    case True
    then show ?thesis by simp
  next
    case False
    then have i: "i < length ws" using snoc.prems by simp
    have ne: "ws ! i \<noteq> y" using snoc.prems i by auto
    show ?thesis
    proof (cases "d y = d (ws ! i)")
      case True
      then show ?thesis using i ne by (auto simp: nth_append intro!: exI [of _ "length ws"])
    next
      case False
      have "(\<exists>j. i < j \<and> j < length (ws @ [y]) \<and> d ((ws @ [y]) ! j) = d (ws ! i)) \<longleftrightarrow>
          (\<exists>j. i < j \<and> j < length ws \<and> d (ws ! j) = d (ws ! i))"
        using False by (auto simp: nth_append less_Suc_eq)
      then show ?thesis using snoc i False by (simp add: nth_append)
    qed
  qed
qed

context ram_contract begin

lemma own_addr_fold:
  fixes ws :: "ptr list" and off :: u64 and w :: "'m test_state"
  assumes "distinct ws" "\<And>p v. g p v = v"
  defines "w1 \<equiv> fold (\<lambda>p. put_word ram p (byte_addr p + off)) ws w"
  shows "errors_at (fold (\<lambda>p. expect_word ram p (byte_addr p + off)) ws w1) =
    errors_at w \<union> {ws ! i | i. i < length ws \<and> (\<exists>j. i < j \<and> j < length ws \<and> dec (ws ! j) = dec (ws ! i))}"
proof -
  have inj: "byte_addr p + off = byte_addr q + off \<longleftrightarrow> p = q" for p q
  proof -
    have "byte_addr p = byte_addr q \<longleftrightarrow> p = q"
      using unat_byte_addr [of p] unat_byte_addr [of q] by (metis mult_right_cancel word_unat_eq_iff zero_neq_numeral)
    then show ?thesis by simp
  qed
  have wrong: "read_word ram (ws ! i) (memory w1) \<noteq> byte_addr (ws ! i) + off \<longleftrightarrow>
      (\<exists>j. i < j \<and> j < length ws \<and> dec (ws ! j) = dec (ws ! i))" if i: "i < length ws" for i
  proof -
    have "find (\<lambda>p. dec p = dec (ws ! i)) (rev ws) \<noteq> None" using nth_mem [OF i] by (auto simp: find_None_iff)
    then obtain p where p: "find (\<lambda>p. dec p = dec (ws ! i)) (rev ws) = Some p" by auto
    then have "read_word ram (ws ! i) (memory w1) = byte_addr p + off"
      using fill_last [of "ws ! i" "\<lambda>p. byte_addr p + off" ws w] by (simp add: w1_def assms(2))
    then show ?thesis using find_rev_last [OF assms(1) i, of dec] p inj by auto
  qed
  have "errors_at (fold (\<lambda>p. expect_word ram p (byte_addr p + off)) ws w1) =
      errors_at w1 \<union> {p. p \<in> set ws \<and> read_word ram p (memory w1) \<noteq> byte_addr p + off}"
    unfolding errors_at_def check_fold by (auto simp: image_Un image_iff) (metis test_error.sel(1))
  also have "errors_at w1 = errors_at w" by (simp add: w1_def errors_at_def)
  also have "{p. p \<in> set ws \<and> read_word ram p (memory w1) \<noteq> byte_addr p + off} =
      {ws ! i | i. i < length ws \<and> read_word ram (ws ! i) (memory w1) \<noteq> byte_addr (ws ! i) + off}"
    by (auto simp: in_set_conv_nth)
  also have "\<dots> = {ws ! i | i. i < length ws \<and> (\<exists>j. i < j \<and> j < length ws \<and> dec (ws ! j) = dec (ws ! i))}"
    using wrong by blast
  finally show ?thesis .
qed

end

lemma for_each_quiet:
  assumes "\<And>x st. x \<in> set xs \<Longrightarrow> \<not> fst (f x st)"
  shows "\<not> fst (for_each f xs st)"
  using assms by (induction xs arbitrary: st) (auto simp: Let_def split: prod.splits, metis fst_conv)


section \<open>Properties\<close>


text \<open>
  The hypotheses of the next properties: the ranges of this CPU can be scanned, and no word is in two of them.
\<close>

definition chunks_ok :: "chunk_config \<Rightarrow> int \<Rightarrow> vm_map_t list \<Rightarrow> bool" where
  "chunks_ok cfg cpu segs \<longleftrightarrow>
     0 \<le> cpu \<and> (\<forall>seg \<in> set segs. chunk_ok cfg cpu seg) \<and> distinct (chunk_all cfg cpu segs)"

text \<open>
  C4: The fixed-pattern moving inversions report only words whose cell does not hold one of the two patterns, also
  when the run is abandoned half-way; a run of at least one iteration that is not abandoned reports every such word.
\<close>
theorem mov_inv_fixed_finds_faults:
  assumes "chunks_ok cfg cpu segs" "reports (work st) = []"
    and "test_mov_inv_fixed (faulty_ram (\<lambda>p. p) g) cfg cpu bail segs iterations a b st = (bailed, st')"
  shows "errors_at (work st') \<subseteq> {p \<in> set (chunk_all cfg cpu segs). g p a \<noteq> a \<or> g p b \<noteq> b} \<and>
    (\<not> bailed \<and> 0 < iterations \<longrightarrow>
      errors_at (work st') = {p \<in> set (chunk_all cfg cpu segs). g p a \<noteq> a \<or> g p b \<noteq> b})"
proof -
  have F: "bad_cells g A (\<lambda>_. a) \<union> bad_cells g A (\<lambda>_. b) = {p \<in> A. g p a \<noteq> a \<or> g p b \<noteq> b}" for A
    by (auto simp: bad_cells_def)
  have "distinct (chunk_all cfg cpu segs)" "\<forall>seg \<in> set segs. chunk_ok cfg cpu seg" "0 \<le> cpu"
    using assms(1) by (simp_all add: chunks_ok_def)
  from tripleD [OF cells.triple_fixed [OF this, of g bail iterations a b], of st] show ?thesis
    using assms(2,3) by (auto simp: F errors_at_def split: if_splits)
qed

text \<open>
  C29: The walking-pattern moving inversions, where the pattern of the \<open>i\<close>-th word is the first one rotated \<open>i\<close>
  times: they report exactly the words whose cell does not hold its pattern or its complement.
\<close>
theorem mov_inv_walk1_finds_faults:
  assumes "chunks_ok cfg cpu segs" "reports (work st) = []"
    and "test_mov_inv_walk1 (faulty_ram (\<lambda>p. p) g) cfg cpu bail segs iterations offset inverted st = (bailed, st')"
  shows "let W = chunk_all cfg cpu segs; x = (\<lambda>i. (rotate_left ^^ i) (walk1_pattern offset inverted));
      F = {W ! i | i. i < length W \<and> (g (W ! i) (x i) \<noteq> x i \<or> g (W ! i) (NOT (x i)) \<noteq> NOT (x i))}
    in errors_at (work st') \<subseteq> F \<and> (\<not> bailed \<and> 0 < iterations \<longrightarrow> errors_at (work st') = F)"
proof -
  let ?W = "chunk_all cfg cpu segs" and ?x = "\<lambda>i. (rotate_left ^^ i) (walk1_pattern offset inverted)"
  have ok: "distinct ?W" "\<forall>seg \<in> set segs. chunk_ok cfg cpu seg" "0 \<le> cpu"
    using assms(1) by (simp_all add: chunks_ok_def)
  have F: "bad_cells g (set ?W) (assigned ?W ?x) \<union> bad_cells g (set ?W) (\<lambda>p. NOT (assigned ?W ?x p)) =
      {?W ! i | i. i < length ?W \<and> (g (?W ! i) (?x i) \<noteq> ?x i \<or> g (?W ! i) (NOT (?x i)) \<noteq> NOT (?x i))}"
    unfolding bad_assigned [OF ok(1)] bad_assigned_not [OF ok(1)] by blast
  from tripleD [OF cells.triple_walk1 [OF ok, of g bail iterations offset inverted], of st, unfolded F] show ?thesis
    using assms(2,3) by (auto simp: Let_def errors_at_def split: if_splits)
qed

text \<open>
  C30: The random-pattern moving inversions: with the \<open>i\<close>-th word's pattern the \<open>i\<close>-th output of the generator
  started from the seed, they report exactly the words whose cell does not hold its pattern or its complement.
\<close>
theorem mov_inv_random_finds_faults:
  assumes "chunks_ok cfg cpu segs" "reports (work st) = []"
    and "test_mov_inv_random (faulty_ram (\<lambda>p. p) g) cfg cpu bail segs source st = (bailed, st')"
  shows "let W = chunk_all cfg cpu segs; x = (\<lambda>i. (prsg ^^ Suc i) (source * 0x87654321));
      F = {W ! i | i. i < length W \<and> (g (W ! i) (x i) \<noteq> x i \<or> g (W ! i) (NOT (x i)) \<noteq> NOT (x i))}
    in errors_at (work st') \<subseteq> F \<and> (\<not> bailed \<longrightarrow> errors_at (work st') = F)"
proof -
  let ?W = "chunk_all cfg cpu segs" and ?x = "\<lambda>i. (prsg ^^ Suc i) (source * 0x87654321)"
  have ok: "distinct ?W" "\<forall>seg \<in> set segs. chunk_ok cfg cpu seg" "0 \<le> cpu"
    using assms(1) by (simp_all add: chunks_ok_def)
  have F: "bad_cells g (set ?W) (assigned ?W ?x) \<union> bad_cells g (set ?W) (\<lambda>p. NOT (assigned ?W ?x p)) =
      {?W ! i | i. i < length ?W \<and> (g (?W ! i) (?x i) \<noteq> ?x i \<or> g (?W ! i) (NOT (?x i)) \<noteq> NOT (?x i))}"
    unfolding bad_assigned [OF ok(1)] bad_assigned_not [OF ok(1)] by blast
  from tripleD [OF cells.triple_random [OF ok, of g bail source], of st, unfolded F] show ?thesis
    using assms(2,3) by (auto simp: Let_def errors_at_def simp del: funpow.simps split: if_splits)
qed

subsection \<open>A segment of four words with one stuck bit\<close>

definition four_words :: "vm_map_t list" where
  "four_words = [\<lparr>pm_base_addr = 1, vm_start = 0x200, vm_end = 0x203, proximity_domain_idx = 0\<rparr>]"

definition one_cpu :: chunk_config where
  "one_cpu = \<lparr>num_active_cpus = 1, enable_numa = False, chunk_index = \<lambda>_. 0,
     used_cpus_in_proximity_domain = \<lambda>_. 1, cpu_proximity_domain = \<lambda>_. 0\<rparr>"

definition stuck_cell :: "ptr \<Rightarrow> u64 \<Rightarrow> u64" where
  "stuck_cell p v = (if p = 0x201 then or v 4 else v)"

definition blank_state :: "(ptr \<Rightarrow> u64) test_state scan_state" where
  "blank_state = \<lparr>work = \<lparr>memory = \<lambda>_. 0, reports = [], pattern = 0\<rparr>, ticks = 0, tick_calls = 0\<rparr>"

lemma four_words_range: "scan_range 0x200 (0x203 :: ptr)"
  by (simp add: scan_range_def)

lemma four_words_chunk: "chunk_all one_cpu 0 four_words = [0x200, 0x201, 0x202, 0x203]"
  by (simp add: chunk_all_def chunk_list_def calculate_chunk_def one_cpu_def four_words_def words_Cons words_single)

lemma four_words_ok: "chunks_ok one_cpu 0 four_words"
  unfolding chunks_ok_def four_words_chunk
  by (simp add: chunk_ok_def calculate_chunk_def one_cpu_def four_words_def four_words_range)


lemma blank_reports: "reports (work blank_state) = []"
  by (simp add: blank_state_def)

theorem mov_inv_fixed_finds_faults_witness:
  "errors_at (work (snd (test_mov_inv_fixed (faulty_ram (\<lambda>p. p) stuck_cell) one_cpu 0 (\<lambda>_. False) four_words 1 0 (NOT 0) blank_state)))
    \<subseteq> {p \<in> set (chunk_all one_cpu 0 four_words). stuck_cell p 0 \<noteq> 0 \<or> stuck_cell p (NOT 0) \<noteq> NOT 0} \<and>
   {p \<in> set (chunk_all one_cpu 0 four_words). stuck_cell p 0 \<noteq> 0 \<or> stuck_cell p (NOT 0) \<noteq> NOT 0} = {0x201}"
proof (rule conjI)
  show "errors_at (work (snd (test_mov_inv_fixed (faulty_ram (\<lambda>p. p) stuck_cell) one_cpu 0 (\<lambda>_. False) four_words 1 0 (NOT 0) blank_state)))
    \<subseteq> {p \<in> set (chunk_all one_cpu 0 four_words). stuck_cell p 0 \<noteq> 0 \<or> stuck_cell p (NOT 0) \<noteq> NOT 0}"
    using mov_inv_fixed_finds_faults [OF four_words_ok blank_reports prod.collapse [symmetric]] by blast
  show "{p \<in> set (chunk_all one_cpu 0 four_words). stuck_cell p 0 \<noteq> 0 \<or> stuck_cell p (NOT 0) \<noteq> NOT 0} = {0x201}"
    unfolding four_words_chunk by (auto simp: stuck_cell_def)
qed

context cell_ram begin

lemma fill_each:
  "read_word ram q (memory (fold (\<lambda>p. put_word ram p (f p)) ws w)) = (if q \<in> set ws then g q (f q) else read_word ram q (memory w))"
  by (induction ws rule: rev_induct) simp_all

end

lemma chunk_quiet:
  assumes "chunk_ok cfg cpu seg" "\<forall>k. \<not> bail k"
  shows "\<not> fst (up_chunk cfg cpu bail blk seg st)"
proof -
  obtain s e where c: "calculate_chunk cfg cpu seg 8 = (s, e)" by fastforce
  show ?thesis
  proof (cases "e < s")
    case True
    then show ?thesis using c assms(2) by (simp add: up_chunk_def SKIP_RANGE_def)
  next
    case False
    then have "scan_range s e" using assms(1) c by (simp add: chunk_ok_def)
    from up_scan_ticks [OF this, of bail] have "\<not> fst (up_scan cpu bail blk s s e st)" using assms(2) by blast
    then show ?thesis using False c by (simp add: up_chunk_def)
  qed
qed

lemma up_pass_fold:
  assumes "chunks_ok cfg cpu segs" "\<forall>k. \<not> bail k"
  shows "work (snd (for_each (up_chunk cfg cpu bail (up_words body)) segs st)) = fold body (chunk_all cfg cpu segs) (work st)"
proof -
  have "\<not> fst (for_each (up_chunk cfg cpu bail (up_words body)) segs st)"
    using assms by (intro for_each_quiet chunk_quiet) (auto simp: chunks_ok_def)
  then show ?thesis
    using up_pass_scanned [of segs cfg cpu body bail st] assms(1) by (simp add: chunks_ok_def scanned_all)
qed

lemma fade_delay_result:
  assumes "\<forall>k. \<not> bail k"
  shows "work (snd (fade_delay cpu bail n st)) = work st \<and>
    ticks (snd (fade_delay cpu bail n st)) = ticks st + n \<and>
    tick_calls (snd (fade_delay cpu bail n st)) = tick_calls st + (if cpu < 0 then 0 else n)"
  using assms by (induction n arbitrary: st) (simp_all add: do_tick_def Let_def)

text \<open>
  C38: A round of the bit-fade test: after the fill, the pause of \<open>sleep_secs\<close> ticks and any decay of the cells
  during it, the check reports exactly the words that no longer hold what the fill wrote.
\<close>
theorem bit_fade_round:
  assumes "chunks_ok cfg cpu segs" "\<forall>k. \<not> bail k" "reports (work st) = []"
    and "test_bit_fade (faulty_ram (\<lambda>p. p) g) cfg cpu bail segs pass_num l0 (3 * round) secs st = ((b1, s1), l1)"
    and "test_bit_fade (faulty_ram (\<lambda>p. p) g) cfg cpu bail segs pass_num l1 (3 * round + 1) secs s1 = ((b2, s2), l2)"
    and "test_bit_fade (faulty_ram (\<lambda>p. p) g) cfg cpu bail segs pass_num l2 (3 * round + 2) secs
      (s2\<lparr>work := (work s2)\<lparr>memory := \<lambda>p. decay p (memory (work s2) p)\<rparr>\<rparr>) = ((b3, s3), l3)"
  shows "errors_at (work s3) = {p \<in> set (chunk_all cfg cpu segs).
      decay p (g p (fade_word (pm_base_addr (hd segs)) pass_num round p)) \<noteq> fade_word (pm_base_addr (hd segs)) pass_num round p} \<and>
    tick_calls s2 = tick_calls s1 + nat secs \<and> l3 = int (3 * round + 2)"
proof -
  let ?ram = "faulty_ram (\<lambda>p. p) g" and ?W = "chunk_all cfg cpu segs"
  let ?f = "fade_word (pm_base_addr (hd segs)) pass_num round"
  have m: "3 * round mod 3 = 0" "3 * round div 3 = round" "(3 * round + 1) mod 3 = 1" "(3 * round + 2) mod 3 = 2"
    "(3 * round + 2) div 3 = round" by presburger+
  have r1: "s1 = snd (fade_fill ?ram cfg cpu bail segs pass_num round st)" "l1 = int (3 * round)"
    using assms(4) by (simp_all add: test_bit_fade_def m Let_def)
  have w1: "work s1 = fold (\<lambda>p. put_word ?ram p (?f p)) ?W (work st)"
    unfolding r1 fade_fill_def by (rule up_pass_fold [OF assms(1,2)])
  have r2: "s2 = snd (fade_delay cpu bail (nat secs) s1)"
    using assms(5) r1(2) m(3) by (auto simp: test_bit_fade_def Let_def)
  have d: "work s2 = work s1 \<and> tick_calls s2 = tick_calls s1 + (if cpu < 0 then 0 else nat secs)"
    unfolding r2 using fade_delay_result [OF assms(2)] by blast
  let ?w2 = "(work s2)\<lparr>memory := \<lambda>p. decay p (memory (work s2) p)\<rparr>"
  have r3: "s3 = snd (fade_check ?ram cfg cpu bail segs pass_num round (s2\<lparr>work := ?w2\<rparr>))" "l3 = int (3 * round + 2)"
    using assms(6) m(4,5) by (auto simp: test_bit_fade_def Let_def)
  have w3: "work s3 = fold (\<lambda>p. expect_word ?ram p (?f p)) ?W ?w2"
    unfolding r3 fade_check_def using up_pass_fold [OF assms(1,2), of _ "s2\<lparr>work := ?w2\<rparr>"] by simp
  have mem: "read_word ?ram p (memory ?w2) = decay p (g p (?f p))" if "p \<in> set ?W" for p
    using that cells.fill_each [of g p ?f ?W "work st"] d w1 by (simp add: faulty_ram_def)
  have "set (reports ?w2) = {}" using d w1 assms(3) by simp
  then have "errors_at (work s3) = {p. p \<in> set ?W \<and> read_word ?ram p (memory ?w2) \<noteq> ?f p}"
    unfolding errors_at_def w3 check_fold by (auto simp: image_iff) (metis test_error.sel(1))
  also have "\<dots> = {p \<in> set ?W. decay p (g p (?f p)) \<noteq> ?f p}" using mem by auto
  finally show ?thesis using d assms(1) r3(2) by (simp add: chunks_ok_def)
qed

text \<open>The ticks of a run over whole segments.\<close>

lemma for_each_ticks:
  assumes "\<And>x st. x \<in> set xs \<Longrightarrow> \<not> fst (f x st) \<and> ticks (snd (f x st)) = ticks st + n x \<and>
    tick_calls (snd (f x st)) = tick_calls st + c x"
  shows "\<not> fst (for_each f xs st) \<and> ticks (snd (for_each f xs st)) = ticks st + sum_list (map n xs) \<and>
    tick_calls (snd (for_each f xs st)) = tick_calls st + sum_list (map c xs)"
  using assms
proof (induction xs arbitrary: st)
  case Nil
  then show ?case by simp
next
  case (Cons x xs)
  obtain b st1 where f: "f x st = (b, st1)" by fastforce
  have here: "\<not> b" "ticks st1 = ticks st + n x" "tick_calls st1 = tick_calls st + c x"
    using Cons.prems [of x st] f by auto
  have "\<not> fst (for_each f xs st1) \<and> ticks (snd (for_each f xs st1)) = ticks st1 + sum_list (map n xs) \<and>
      tick_calls (snd (for_each f xs st1)) = tick_calls st1 + sum_list (map c xs)"
    using Cons.prems by (intro Cons.IH) simp
  then show ?case using here f by simp
qed

lemma segments_ticks:
  assumes "\<forall>seg \<in> set segs. scan_range (vm_start seg) (vm_end seg)" "\<forall>k. \<not> bail k"
  defines "n \<equiv> sum_list (map (\<lambda>seg. blocks (vm_start seg) (vm_end seg)) segs)"
  shows "ticks (snd (for_each (over_segment cpu bail blk) segs st)) = ticks st + n \<and>
    tick_calls (snd (for_each (over_segment cpu bail blk) segs st)) = tick_calls st + (if cpu < 0 then 0 else n)"
proof -
  let ?n = "\<lambda>seg. blocks (vm_start seg) (vm_end seg)"
  let ?c = "\<lambda>seg. if cpu < 0 then 0 else ?n seg"
  have step: "\<not> fst (over_segment cpu bail blk seg s) \<and> ticks (snd (over_segment cpu bail blk seg s)) = ticks s + ?n seg \<and>
      tick_calls (snd (over_segment cpu bail blk seg s)) = tick_calls s + ?c seg" if "seg \<in> set segs" for seg s
  proof -
    have "scan_range (vm_start seg) (vm_end seg)" using assms(1) that by blast
    from up_scan_ticks [OF this, of bail] assms(2) show ?thesis unfolding over_segment_def by blast
  qed
  have c: "sum_list (map ?c segs) = (if cpu < 0 then 0 else sum_list (map ?n segs))"
    by (induction segs) simp_all
  have "\<not> fst (for_each (over_segment cpu bail blk) segs st) \<and>
      ticks (snd (for_each (over_segment cpu bail blk) segs st)) = ticks st + sum_list (map ?n segs) \<and>
      tick_calls (snd (for_each (over_segment cpu bail blk) segs st)) = tick_calls st + sum_list (map ?c segs)"
    by (rule for_each_ticks) (rule step)
  then show ?thesis unfolding c n_def by blast
qed

text \<open>
  The dry run with no CPU predicts the progress bar: it counts as many ticks as the real own-address test
  reports when it runs to its end, one per block and pass, and touches neither the memory nor the error log.
\<close>
theorem own_addr1_ticks:
  assumes "\<forall>seg \<in> set segs. scan_range (vm_start seg) (vm_end seg)" "\<forall>k. \<not> bail k" "0 \<le> cpu"
    and "test_own_addr1 ram (- 1) bail segs st = (b0, dry)" "test_own_addr1 ram cpu bail segs st = (b1, real)"
  shows "ticks dry = ticks real \<and> tick_calls real - tick_calls st = ticks real - ticks st \<and>
    ticks real = ticks st + 2 * sum_list (map (\<lambda>seg. blocks (vm_start seg) (vm_end seg)) segs) \<and>
    tick_calls dry = tick_calls st"
proof -
  let ?n = "sum_list (map (\<lambda>seg. blocks (vm_start seg) (vm_end seg)) segs)"
  have own: "ticks (snd (test_own_addr1 ram c bail segs st)) = ticks st + 2 * ?n \<and>
      tick_calls (snd (test_own_addr1 ram c bail segs st)) = tick_calls st + (if c < 0 then 0 else 2 * ?n)" for c
  proof -
    define s1 where "s1 = snd (own_fill ram 0 c bail segs st)"
    have s1: "ticks s1 = ticks st + ?n \<and> tick_calls s1 = tick_calls st + (if c < 0 then 0 else ?n)"
      unfolding s1_def own_fill_def by (rule segments_ticks [OF assms(1,2)])
    have "ticks (snd (own_check ram 0 c bail segs s1)) = ticks s1 + ?n \<and>
        tick_calls (snd (own_check ram 0 c bail segs s1)) = tick_calls s1 + (if c < 0 then 0 else ?n)"
      unfolding own_check_def by (rule segments_ticks [OF assms(1,2)])
    then show ?thesis using s1 unfolding test_own_addr1_def s1_def [symmetric] by simp
  qed
  show ?thesis using own [of "- 1"] own [of cpu] assms(3-5) by simp
qed

subsection \<open>Witnesses\<close>

lemma four_words_segments: "\<forall>seg \<in> set four_words. scan_range (vm_start seg) (vm_end seg)"
  by (simp add: four_words_def four_words_range)



theorem mov_inv_walk1_finds_faults_witness:
  "errors_at (work (snd (test_mov_inv_walk1 (faulty_ram (\<lambda>p. p) stuck_cell) one_cpu 0 (\<lambda>_. False) four_words 1 0 False blank_state)))
    \<subseteq> {0x200, 0x201, 0x202, 0x203}"
proof -
  have "errors_at (work (snd (test_mov_inv_walk1 (faulty_ram (\<lambda>p. p) stuck_cell) one_cpu 0 (\<lambda>_. False) four_words 1 0 False blank_state)))
    \<subseteq> set (chunk_all one_cpu 0 four_words)"
    by (rule order.trans [OF mov_inv_walk1_finds_faults
          [OF four_words_ok blank_reports prod.collapse [symmetric], unfolded Let_def, THEN conjunct1]]) auto
  then show ?thesis by (simp add: four_words_chunk)
qed

theorem mov_inv_random_finds_faults_witness:
  "errors_at (work (snd (test_mov_inv_random (faulty_ram (\<lambda>p. p) stuck_cell) one_cpu 0 (\<lambda>_. False) four_words 1 blank_state)))
    \<subseteq> {0x200, 0x201, 0x202, 0x203}"
proof -
  have "errors_at (work (snd (test_mov_inv_random (faulty_ram (\<lambda>p. p) stuck_cell) one_cpu 0 (\<lambda>_. False) four_words 1 blank_state)))
    \<subseteq> set (chunk_all one_cpu 0 four_words)"
    by (rule order.trans [OF mov_inv_random_finds_faults
          [OF four_words_ok blank_reports prod.collapse [symmetric], unfolded Let_def, THEN conjunct1]]) auto
  then show ?thesis by (simp add: four_words_chunk)
qed

text \<open>The last bit of word \<open>0x202\<close> fades from 1 to 0 in the round of solid ones.\<close>

definition fading :: "ptr \<Rightarrow> u64 \<Rightarrow> u64" where
  "fading p v = (if p = 0x202 then and v (NOT 1) else v)"

definition fade_stage :: "int \<Rightarrow> nat \<Rightarrow> (ptr \<Rightarrow> u64) test_state scan_state \<Rightarrow> (bool \<times> (ptr \<Rightarrow> u64) test_state scan_state) \<times> int" where
  "fade_stage l n st = test_bit_fade (faulty_ram (\<lambda>p. p) (\<lambda>_ v. v)) one_cpu 0 (\<lambda>_. False) four_words 0 l n 1 st"

definition fade_filled :: "(ptr \<Rightarrow> u64) test_state scan_state" where
  "fade_filled = snd (fst (fade_stage (- 1) (3 * 1) blank_state))"

definition fade_waited :: "(ptr \<Rightarrow> u64) test_state scan_state" where
  "fade_waited = snd (fst (fade_stage (int (3 * 1)) (3 * 1 + 1) fade_filled))"

definition fade_checked :: "(ptr \<Rightarrow> u64) test_state scan_state" where
  "fade_checked = snd (fst (fade_stage (int (3 * 1 + 1)) (3 * 1 + 2)
    (fade_waited\<lparr>work := (work fade_waited)\<lparr>memory := \<lambda>p. fading p (memory (work fade_waited) p)\<rparr>\<rparr>)))"

lemma fade_stage_result:
  "test_bit_fade (faulty_ram (\<lambda>p. p) (\<lambda>_ v. v)) one_cpu 0 (\<lambda>_. False) four_words 0 l n 1 st =
    ((fst (fst (fade_stage l n st)), snd (fst (fade_stage l n st))), int n)"
  by (simp add: fade_stage_def test_bit_fade_def Let_def)

theorem bit_fade_round_witness:
  "errors_at (work fade_checked) = {0x202}"
proof -
  have fill: "fade_word (pm_base_addr (hd four_words)) 0 1 p = NOT 0" for p by (simp add: fade_word_def)
  have quiet: "\<forall>k. \<not> (\<lambda>_. False) (k::nat)" by simp
  note runs = fade_stage_result [of "- 1" "3 * 1" blank_state, folded fade_filled_def]
    fade_stage_result [of "int (3 * 1)" "3 * 1 + 1" fade_filled, folded fade_waited_def]
    fade_stage_result [of "int (3 * 1 + 1)" "3 * 1 + 2", where st = "fade_waited\<lparr>work := (work fade_waited)\<lparr>memory :=
      \<lambda>p. fading p (memory (work fade_waited) p)\<rparr>\<rparr>", folded fade_checked_def]
  show ?thesis
    using bit_fade_round [where decay = fading and round = 1 and g = "\<lambda>_ v. v" and bail = "\<lambda>_. False",
        OF four_words_ok quiet blank_reports runs, THEN conjunct1]
    unfolding fill four_words_chunk by (auto simp: fading_def)
qed

theorem own_addr1_ticks_witness:
  "ticks (snd (test_own_addr1 (faulty_ram (\<lambda>p. p) (\<lambda>_ v. v)) (- 1) (\<lambda>_. False) four_words blank_state)) = 2"
proof -
  have "blocks (0x200 :: ptr) 0x203 = 1" by (simp add: blocks_def)
  then show ?thesis
    using own_addr1_ticks [OF four_words_segments _ order.refl prod.collapse [symmetric] prod.collapse [symmetric],
        of "\<lambda>_. False" "faulty_ram (\<lambda>p. p) (\<lambda>_ v. v)" blank_state]
    by (simp add: four_words_def blank_state_def)
qed

end
