(* ===== verification/Bytes.thy ===== *)
theory Bytes
  imports Prelude
begin

text \<open>
  Byte buffers: little-endian fields read from and written into a list of bytes, as \<open>memcpy\<close> between a buffer
  and an integer does on a little-endian machine.
\<close>

definition le16 :: "u8 list \<Rightarrow> nat \<Rightarrow> u16" where
  "le16 bs i = or (ucast (bs ! i)) (push_bit 8 (ucast (bs ! (i + 1))))"

definition le32 :: "u8 list \<Rightarrow> nat \<Rightarrow> u32" where
  "le32 bs i = or (or (ucast (bs ! i)) (push_bit 8 (ucast (bs ! (i + 1)))))
    (or (push_bit 16 (ucast (bs ! (i + 2)))) (push_bit 24 (ucast (bs ! (i + 3)))))"

definition le64 :: "u8 list \<Rightarrow> nat \<Rightarrow> u64" where
  "le64 bs i = or (ucast (le32 bs i)) (push_bit 32 (ucast (le32 bs (i + 4))))"

definition bytes16 :: "u16 \<Rightarrow> u8 list" where
  "bytes16 v = [ucast v, ucast (drop_bit 8 v)]"

definition bytes32 :: "u32 \<Rightarrow> u8 list" where
  "bytes32 v = [ucast v, ucast (drop_bit 8 v), ucast (drop_bit 16 v), ucast (drop_bit 24 v)]"

text \<open>\<open>memcpy(buf + off, xs, length xs)\<close>.\<close>

definition put_bytes :: "nat \<Rightarrow> u8 list \<Rightarrow> u8 list \<Rightarrow> u8 list" where
  "put_bytes off xs buf = take off buf @ xs @ drop (off + length xs) buf"

text \<open>\<open>n\<close> bytes from offset \<open>off\<close>, as \<open>memcmp\<close> compares them.\<close>

definition get_bytes :: "nat \<Rightarrow> nat \<Rightarrow> u8 list \<Rightarrow> u8 list" where
  "get_bytes off n buf = take n (drop off buf)"

lemma length_bytes [simp]: "length (bytes16 v) = 2" "length (bytes32 w) = 4"
  by (simp_all add: bytes16_def bytes32_def)

lemma length_put_bytes [simp]: "off + length xs \<le> length buf \<Longrightarrow> length (put_bytes off xs buf) = length buf"
  by (simp add: put_bytes_def)

lemma nth_put_bytes:
  assumes "off + length xs \<le> length buf" "i < length buf"
  shows "put_bytes off xs buf ! i = (if off \<le> i \<and> i < off + length xs then xs ! (i - off) else buf ! i)"
proof (cases "i < off + length xs")
  case True
  then show ?thesis using assms by (auto simp: put_bytes_def nth_append min_def)
next
  case False
  then have "drop (off + length xs) buf ! (i - off - length xs) = buf ! i"
    using assms by simp
  moreover have "\<not> i - off < length xs" "\<not> i < off" using False by auto
  ultimately show ?thesis using False assms by (simp add: put_bytes_def nth_append min_def)
qed

lemma get_put_bytes: "off + length xs \<le> length buf \<Longrightarrow> get_bytes off (length xs) (put_bytes off xs buf) = xs"
  by (simp add: get_bytes_def put_bytes_def)

lemma get_put_bytes_other:
  assumes "off + length xs \<le> length buf" "j + n \<le> off \<or> off + length xs \<le> j" "j + n \<le> length buf"
  shows "get_bytes j n (put_bytes off xs buf) = get_bytes j n buf"
proof (rule nth_equalityI)
  show "length (get_bytes j n (put_bytes off xs buf)) = length (get_bytes j n buf)"
    using assms(1) by (simp add: get_bytes_def)
  fix i
  assume "i < length (get_bytes j n (put_bytes off xs buf))"
  then have "i < n" "j + i < length buf" using assms(1,3) by (auto simp: get_bytes_def)
  then show "get_bytes j n (put_bytes off xs buf) ! i = get_bytes j n buf ! i"
    using assms by (auto simp: get_bytes_def nth_put_bytes)
qed

lemma get_bytes_le: "i + 2 \<le> length bs \<Longrightarrow> le16 bs i = le16 (get_bytes i 2 bs) 0"
  "i + 4 \<le> length bs \<Longrightarrow> le32 bs i = le32 (get_bytes i 4 bs) 0"
  by (simp_all add: le16_def le32_def get_bytes_def)

lemma le16_bytes: "le16 (bytes16 v) 0 = v"
  unfolding le16_def bytes16_def by (rule bit_word_eqI) (auto simp: bit_simps)

lemma le32_bytes: "le32 (bytes32 v) 0 = v"
  unfolding le32_def bytes32_def
proof (rule bit_word_eqI)
  fix n :: nat
  assume n: "n < LENGTH(32)"
  consider "n < 8" | k where "n = 8 + k" "k < 8" | k where "n = 16 + k" "k < 8" | k where "n = 24 + k" "k < 8"
  proof -
    have "n = 8 + (n - 8) \<and> n - 8 < 8 \<or> n = 16 + (n - 16) \<and> n - 16 < 8 \<or> n = 24 + (n - 24) \<and> n - 24 < 8" if "\<not> n < 8"
      using n that by auto
    then show thesis using that by blast
  qed
  then show "bit (or (or (ucast ([ucast v, ucast (drop_bit 8 v), ucast (drop_bit 16 v), ucast (drop_bit 24 v :: u32)] ! 0 :: u8))
       (push_bit 8 (ucast ([ucast v, ucast (drop_bit 8 v), ucast (drop_bit 16 v), ucast (drop_bit 24 v)] ! (0 + 1) :: u8))))
     (or (push_bit 16 (ucast ([ucast v, ucast (drop_bit 8 v), ucast (drop_bit 16 v), ucast (drop_bit 24 v)] ! (0 + 2) :: u8)))
       (push_bit 24 (ucast ([ucast v, ucast (drop_bit 8 v), ucast (drop_bit 16 v), ucast (drop_bit 24 v)] ! (0 + 3) :: u8)))) :: u32) n =
    bit v n"
    by cases (auto simp: bit_simps)
qed

lemma le16_put [simp]: "off + 2 \<le> length buf \<Longrightarrow> le16 (put_bytes off (bytes16 v) buf) off = v"
  using get_put_bytes [of off "bytes16 v" buf] by (simp add: get_bytes_le(1) le16_bytes)

lemma le32_put [simp]: "off + 4 \<le> length buf \<Longrightarrow> le32 (put_bytes off (bytes32 v) buf) off = v"
  using get_put_bytes [of off "bytes32 v" buf] by (simp add: get_bytes_le(2) le32_bytes)

lemma le16_put_other:
  "off + length xs \<le> length buf \<Longrightarrow> i + 2 \<le> off \<or> off + length xs \<le> i \<Longrightarrow> i + 2 \<le> length buf \<Longrightarrow>
    le16 (put_bytes off xs buf) i = le16 buf i"
  by (simp add: get_bytes_le(1) get_put_bytes_other)

lemma le32_put_other:
  "off + length xs \<le> length buf \<Longrightarrow> i + 4 \<le> off \<or> off + length xs \<le> i \<Longrightarrow> i + 4 \<le> length buf \<Longrightarrow>
    le32 (put_bytes off xs buf) i = le32 buf i"
  by (simp add: get_bytes_le(2) get_put_bytes_other)

text \<open>Strings of the program as bytes.\<close>

definition char_byte :: "char \<Rightarrow> u8" where
  "char_byte c = of_nat (of_char c)"

definition str_bytes :: "string \<Rightarrow> u8 list" where
  "str_bytes s = map char_byte s"

end
