(* ===== verification/Usb_Msd.thy ===== *)
theory Usb_Msd
  imports Bytes
begin

text \<open>
  The USB mass storage driver of \<open>system/usbmsd.c\<close>: SCSI commands in bulk-only transport wrappers. The host
  controller driver is reached through its method table (\<open>hcd_methods_t\<close>); its state is the type \<open>'d\<close> and its
  methods are an argument (\<open>hcd_methods\<close>). A transfer into a buffer returns the contents that the buffer has
  afterwards. Delays have no effect on the model.
\<close>

section \<open>USB objects\<close>

record usb_ep_t =
  driver_data :: u64
  device_speed :: u8
  device_id :: u8
  interface_num :: u8
  endpoint_num :: u8
  max_packet_size :: u16
  interval :: u8

record usb_setup_pkt_t =
  pkt_type :: u8
  pkt_request :: u8
  pkt_value :: u16
  pkt_index :: u16
  pkt_length :: u16

text \<open>\<open>build_setup_packet\<close> takes \<open>int\<close>s and stores them in the fields of the packet.\<close>

definition build_setup_packet :: "int \<Rightarrow> int \<Rightarrow> int \<Rightarrow> int \<Rightarrow> int \<Rightarrow> usb_setup_pkt_t" where
  "build_setup_packet type request value index len =
     \<lparr>pkt_type = of_int type, pkt_request = of_int request, pkt_value = of_int value,
      pkt_index = of_int index, pkt_length = of_int len\<rparr>"

record 'd hcd_methods =
  setup_request :: "usb_ep_t \<Rightarrow> usb_setup_pkt_t \<Rightarrow> 'd \<Rightarrow> bool \<times> 'd"
  get_data_request :: "usb_ep_t \<Rightarrow> usb_setup_pkt_t \<Rightarrow> u8 list \<Rightarrow> 'd \<Rightarrow> bool \<times> u8 list \<times> 'd"
  bulk_out :: "usb_ep_t \<Rightarrow> u8 list \<Rightarrow> 'd \<Rightarrow> bool \<times> 'd"
  bulk_in :: "usb_ep_t \<Rightarrow> u8 list \<Rightarrow> 'd \<Rightarrow> bool \<times> u8 list \<times> 'd"
  reset_bulk_ep :: "(usb_ep_t \<Rightarrow> int \<Rightarrow> 'd \<Rightarrow> bool \<times> 'd) option"
  configure_bulk_ep :: "(usb_ep_t \<Rightarrow> int \<Rightarrow> bool \<Rightarrow> 'd \<Rightarrow> bool \<times> u64 \<times> 'd) option"

record usb_msd_t =
  ep0 :: usb_ep_t
  ep_in :: usb_ep_t
  ep_out :: usb_ep_t
  tag :: u32
  block_count :: u64
  block_size :: u32
  use_16 :: bool

section \<open>Command and status wrappers\<close>

definition CBW_SIGNATURE :: u32 where "CBW_SIGNATURE = 0x43425355"
definition CSW_SIGNATURE :: u32 where "CSW_SIGNATURE = 0x53425355"

record usb_cbw_t =
  cbw_signature :: u32
  cbw_tag :: u32
  data_transfer_length :: u32
  cbw_flags :: u8
  cbw_lun :: u8
  cb_length :: u8
  cb :: "u8 list"

record usb_csw_t =
  csw_signature :: u32
  csw_tag :: u32
  data_residue :: u32
  csw_status :: u8

text \<open>The packed structures as the bytes that go over the wire.\<close>

definition cbw_bytes :: "usb_cbw_t \<Rightarrow> u8 list" where
  "cbw_bytes w = bytes32 (cbw_signature w) @ bytes32 (cbw_tag w) @ bytes32 (data_transfer_length w) @
     [cbw_flags w, cbw_lun w, cb_length w] @ cb w"

definition csw_of :: "u8 list \<Rightarrow> usb_csw_t" where
  "csw_of bs = \<lparr>csw_signature = le32 bs 0, csw_tag = le32 bs 4, data_residue = le32 bs 8, csw_status = bs ! 12\<rparr>"

section \<open>Transport\<close>

definition msd_clear_stall :: "'d hcd_methods \<Rightarrow> usb_msd_t \<Rightarrow> usb_ep_t \<Rightarrow> bool \<Rightarrow> 'd \<Rightarrow> bool \<times> 'd" where
  "msd_clear_stall hcd msd ep is_in d =
     (let pkt = build_setup_packet 2 1 0 (uint (or (endpoint_num ep) (if is_in then 0x80 else 0))) 0;
          (ok, d1) = setup_request hcd (ep0 msd) pkt d
      in if \<not> ok then (False, d1)
         else case reset_bulk_ep hcd of
                None \<Rightarrow> (True, d1)
              | Some reset \<Rightarrow> reset ep (2 * uint (endpoint_num ep) + (if is_in then 1 else 0)) d1)"

definition msd_reset_recovery :: "'d hcd_methods \<Rightarrow> usb_msd_t \<Rightarrow> 'd \<Rightarrow> bool \<times> 'd" where
  "msd_reset_recovery hcd msd d =
     (let pkt = build_setup_packet 0x21 0xFF 0 (uint (interface_num (ep_in msd))) 0;
          (ok, d1) = setup_request hcd (ep0 msd) pkt d
      in if \<not> ok then (False, d1)
         else let (ok1, d2) = msd_clear_stall hcd msd (ep_in msd) True d1;
                  (ok2, d3) = msd_clear_stall hcd msd (ep_out msd) False d2
              in (ok2 \<and> ok1, d3))"

datatype bot_data = No_Data | Data_In "u8 list" | Data_Out "u8 list"

fun data_len :: "bot_data \<Rightarrow> nat" where
  "data_len No_Data = 0"
| "data_len (Data_In buf) = length buf"
| "data_len (Data_Out bs) = length bs"

fun data_buffer :: "bot_data \<Rightarrow> u8 list" where
  "data_buffer No_Data = []"
| "data_buffer (Data_In buf) = buf"
| "data_buffer (Data_Out bs) = bs"

definition make_cbw :: "usb_msd_t \<Rightarrow> u8 list \<Rightarrow> bot_data \<Rightarrow> usb_cbw_t" where
  "make_cbw msd cdb dat =
     \<lparr>cbw_signature = CBW_SIGNATURE, cbw_tag = tag msd, data_transfer_length = of_nat (data_len dat),
      cbw_flags = (case dat of Data_In _ \<Rightarrow> 0x80 | _ \<Rightarrow> 0), cbw_lun = 0, cb_length = of_nat (length cdb),
      cb = cdb @ replicate (16 - length cdb) 0\<rparr>"

definition data_phase :: "'d hcd_methods \<Rightarrow> usb_msd_t \<Rightarrow> bot_data \<Rightarrow> 'd \<Rightarrow> bool \<times> u8 list \<times> 'd" where
  "data_phase hcd msd dat d =
     (if data_len dat > 0
      then case dat of
             Data_In buf \<Rightarrow>
               (let (ok, buf1, d1) = bulk_in hcd (ep_in msd) buf d
                in (ok, buf1, if ok then d1 else snd (msd_clear_stall hcd msd (ep_in msd) True d1)))
           | _ \<Rightarrow>
               (let (ok, d1) = bulk_out hcd (ep_out msd) (data_buffer dat) d
                in (ok, data_buffer dat, if ok then d1 else snd (msd_clear_stall hcd msd (ep_out msd) False d1)))
      else (True, data_buffer dat, d))"

text \<open>The status wrapper, with one more attempt after a stall; \<open>None\<close> when the transport is broken.\<close>

definition receive_csw :: "'d hcd_methods \<Rightarrow> usb_msd_t \<Rightarrow> 'd \<Rightarrow> usb_csw_t option \<times> 'd" where
  "receive_csw hcd msd d =
     (let (ok, bs, d1) = bulk_in hcd (ep_in msd) (replicate 13 0) d
      in if ok then (Some (csw_of bs), d1)
         else let (cleared, d2) = msd_clear_stall hcd msd (ep_in msd) True d1
              in if \<not> cleared then (None, d2)
                 else let (ok2, bs2, d3) = bulk_in hcd (ep_in msd) bs d2
                      in if ok2 then (Some (csw_of bs2), d3) else (None, d3))"

definition msd_bot_command ::
  "'d hcd_methods \<Rightarrow> u8 list \<Rightarrow> bot_data \<Rightarrow> usb_msd_t \<Rightarrow> 'd \<Rightarrow> bool \<times> u8 list \<times> usb_msd_t \<times> 'd"
where
  "msd_bot_command hcd cdb dat msd0 d0 =
     (let cbw = make_cbw msd0 cdb dat;
          msd = msd0\<lparr>tag := tag msd0 + 1\<rparr>;
          (sent, d1) = bulk_out hcd (ep_out msd) (cbw_bytes cbw) d0
      in if \<not> sent then (False, data_buffer dat, msd, snd (msd_reset_recovery hcd msd d1))
         else let (data_ok, buf, d2) = data_phase hcd msd dat d1;
                  (reply, d3) = receive_csw hcd msd d2
              in case reply of
                   None \<Rightarrow> (False, buf, msd, snd (msd_reset_recovery hcd msd d3))
                 | Some csw \<Rightarrow>
                     if csw_signature csw \<noteq> CSW_SIGNATURE \<or> csw_tag csw \<noteq> cbw_tag cbw \<or> csw_status csw = 2
                     then (False, buf, msd, snd (msd_reset_recovery hcd msd d3))
                     else (data_ok \<and> csw_status csw = 0, buf, msd, d3))"

section \<open>Commands\<close>

definition valid_block_size :: "u32 \<Rightarrow> bool" where
  "valid_block_size sz \<longleftrightarrow> sz = 512 \<or> sz = 1024 \<or> sz = 2048 \<or> sz = 4096"

text \<open>The big-endian bytes of a number, as the commands carry them.\<close>

definition be_bytes :: "nat \<Rightarrow> 'a::len word \<Rightarrow> u8 list" where
  "be_bytes n v = map (\<lambda>i. ucast (drop_bit (8 * i) v)) (rev [0..<n])"

definition be_value :: "u8 list \<Rightarrow> 'a::len word" where
  "be_value bs = fold (\<lambda>b v. or (push_bit 8 v) (ucast b)) bs 0"

definition read_capacity_16 :: "'d hcd_methods \<Rightarrow> usb_msd_t \<Rightarrow> 'd \<Rightarrow> bool \<times> usb_msd_t \<times> 'd" where
  "read_capacity_16 hcd msd d =
     (let (ok, cap, msd1, d1) = msd_bot_command hcd
            ([0x9E, 0x10] @ replicate 8 0 @ [0, 0, 0, 32, 0, 0]) (Data_In (replicate 32 0)) msd d
      in if \<not> ok then (False, msd1, d1)
         else let msd2 = msd1\<lparr>block_count := be_value (take 8 cap) + 1, block_size := be_value (take 4 (drop 8 cap))\<rparr>
              in (valid_block_size (block_size msd2), msd2, d1))"

text \<open>The five attempts of TEST UNIT READY; \<open>False\<close> when the last one fails.\<close>

primrec test_unit_ready :: "'d hcd_methods \<Rightarrow> nat \<Rightarrow> usb_msd_t \<Rightarrow> 'd \<Rightarrow> bool \<times> usb_msd_t \<times> 'd" where
  "test_unit_ready hcd 0 msd d = (False, msd, d)"
| "test_unit_ready hcd (Suc retries) msd d =
     (let (ok, _, msd1, d1) = msd_bot_command hcd (replicate 6 0) No_Data msd d
      in if ok then (True, msd1, d1) else test_unit_ready hcd retries msd1 d1)"

definition msd_init :: "'d hcd_methods \<Rightarrow> usb_msd_t \<Rightarrow> 'd \<Rightarrow> bool \<times> usb_msd_t \<times> 'd" where
  "msd_init hcd msd0 d0 =
     (let (ready, msd1, d1) = test_unit_ready hcd 5 (msd0\<lparr>use_16 := False\<rparr>) d0
      in if \<not> ready then (False, msd1, d1)
         else let (ok, cap, msd2, d2) = msd_bot_command hcd (0x25 # replicate 9 0) (Data_In (replicate 8 0)) msd1 d1
              in if \<not> ok
                 then let (ok16, msd3, d3) = read_capacity_16 hcd msd2 d2
                      in if \<not> ok16 then (False, msd3, d3) else (True, msd3\<lparr>use_16 := True\<rparr>, d3)
                 else let last_lba = be_value (take 4 cap) :: u32;
                          msd3 = msd2\<lparr>block_size := be_value (take 4 (drop 4 cap))\<rparr>
                      in if \<not> valid_block_size (block_size msd3) then (False, msd3, d2)
                         else if last_lba = 0xFFFFFFFF
                              then let (ok16, msd4, d4) = read_capacity_16 hcd msd3 d2
                                   in if \<not> ok16 then (False, msd4, d4) else (True, msd4\<lparr>use_16 := True\<rparr>, d4)
                              else (True, msd3\<lparr>block_count := ucast last_lba + 1\<rparr>, d2))"

definition rw_cdb :: "u8 \<Rightarrow> u8 \<Rightarrow> usb_msd_t \<Rightarrow> u64 \<Rightarrow> u32 \<Rightarrow> u8 list" where
  "rw_cdb op16 op10 msd lba count =
     (if use_16 msd \<or> drop_bit 32 lba \<noteq> 0
      then [op16, 0] @ be_bytes 8 lba @ be_bytes 4 count @ [0, 0]
      else [op10, 0] @ be_bytes 4 lba @ [0] @ be_bytes 2 count @ [0])"

text \<open>The buffer that the caller passes has \<open>count * block_size\<close> bytes.\<close>

definition msd_read_sectors ::
  "'d hcd_methods \<Rightarrow> u64 \<Rightarrow> u32 \<Rightarrow> u8 list \<Rightarrow> usb_msd_t \<Rightarrow> 'd \<Rightarrow> bool \<times> u8 list \<times> usb_msd_t \<times> 'd"
where
  "msd_read_sectors hcd lba count buf msd d =
     msd_bot_command hcd (rw_cdb 0x88 0x28 msd lba count) (Data_In buf) msd d"

definition msd_write_sectors ::
  "'d hcd_methods \<Rightarrow> u64 \<Rightarrow> u32 \<Rightarrow> u8 list \<Rightarrow> usb_msd_t \<Rightarrow> 'd \<Rightarrow> bool \<times> u8 list \<times> usb_msd_t \<times> 'd"
where
  "msd_write_sectors hcd lba count buf msd d =
     msd_bot_command hcd (rw_cdb 0x8A 0x2A msd lba count) (Data_Out buf) msd d"

end
