(* ===== verification/Fat32.thy ===== *)
theory Fat32
  imports Usb_Msd
begin

text \<open>
  The FAT16/FAT32 writer of \<open>system/fat32.c\<close> that saves reports on a USB drive. The disk is reached through two
  operations on blocks (\<open>disk_ops\<close>), which \<open>msd_disk\<close> provides from \<open>usbmsd.c\<close>; the file system object holds
  the geometry of the mounted volume, the one sector buffer and the state of the disk.

  The four functions that walk the root directory have the same two loops, over the sectors of the fixed root
  area or over the cluster chain of a FAT32 root; they are \<open>walk_dir\<close>, with what a function does to a sector as
  its argument. \<open>goto scan_done\<close> and \<open>return\<close> leave the walk, \<open>break\<close> leaves the loop over the sectors.
\<close>

section \<open>The file system object\<close>

record 'd disk_ops =
  read_block :: "u32 \<Rightarrow> u8 list \<Rightarrow> 'd \<Rightarrow> bool \<times> u8 list \<times> 'd"
  write_block :: "u32 \<Rightarrow> u8 list \<Rightarrow> 'd \<Rightarrow> bool \<times> 'd"
  disk_block_size :: u32

definition msd_disk :: "'d hcd_methods \<Rightarrow> u32 \<Rightarrow> (usb_msd_t \<times> 'd) disk_ops" where
  "msd_disk hcd bsize =
     \<lparr>read_block = \<lambda>lba buf (msd, d). (let (ok, buf1, msd1, d1) = msd_read_sectors hcd (ucast lba) 1 buf msd d in (ok, buf1, msd1, d1)),
      write_block = \<lambda>lba buf (msd, d). (let (ok, _, msd1, d1) = msd_write_sectors hcd (ucast lba) 1 buf msd d in (ok, msd1, d1)),
      disk_block_size = bsize\<rparr>"

record 'd fat32_fs =
  disk :: 'd
  partition_lba :: u32
  bytes_per_sector :: u32
  sectors_per_cluster :: u8
  reserved_sectors :: u16
  num_fats :: u8
  fat_type :: u8
  sectors_per_fat :: u32
  root_cluster :: u32
  root_dir_lba :: u32
  root_dir_sectors :: u16
  max_cluster :: u32
  fat_start_lba :: u32
  data_start_lba :: u32
  sector_buf :: "u8 list"

definition eoc_value :: "'d fat32_fs \<Rightarrow> u32" where
  "eoc_value fs = (if fat_type fs = 16 then 0xFFFF else 0x0FFFFFFF)"

definition is_valid_cluster :: "'d fat32_fs \<Rightarrow> u32 \<Rightarrow> bool" where
  "is_valid_cluster fs cluster \<longleftrightarrow> cluster \<ge> 2 \<and> cluster < max_cluster fs"

definition is_fat_partition :: "u8 \<Rightarrow> bool" where
  "is_fat_partition type \<longleftrightarrow> type = 0x04 \<or> type = 0x06 \<or> type = 0x0E \<or> type = 0x0B \<or> type = 0x0C"

definition cluster_to_lba :: "'d fat32_fs \<Rightarrow> u32 \<Rightarrow> u32" where
  "cluster_to_lba fs cluster = data_start_lba fs + (cluster - 2) * ucast (sectors_per_cluster fs)"

definition read_raw :: "'d disk_ops \<Rightarrow> u32 \<Rightarrow> 'd fat32_fs \<Rightarrow> bool \<times> 'd fat32_fs" where
  "read_raw dev lba fs =
     (let (ok, buf, d) = read_block dev lba (sector_buf fs) (disk fs) in (ok, fs\<lparr>sector_buf := buf, disk := d\<rparr>))"

definition read_sector :: "'d disk_ops \<Rightarrow> u32 \<Rightarrow> 'd fat32_fs \<Rightarrow> bool \<times> 'd fat32_fs" where
  "read_sector dev lba fs = read_raw dev (partition_lba fs + lba) fs"

definition write_sector :: "'d disk_ops \<Rightarrow> u32 \<Rightarrow> 'd fat32_fs \<Rightarrow> bool \<times> 'd fat32_fs" where
  "write_sector dev lba fs =
     (let (ok, d) = write_block dev (partition_lba fs + lba) (sector_buf fs) (disk fs) in (ok, fs\<lparr>disk := d\<rparr>))"

section \<open>The allocation table\<close>

definition entry_sector :: "'d fat32_fs \<Rightarrow> u32 \<Rightarrow> u32" where
  "entry_sector fs cluster = (cluster * (if fat_type fs = 32 then 4 else 2)) div bytes_per_sector fs"

definition entry_offset :: "'d fat32_fs \<Rightarrow> u32 \<Rightarrow> nat" where
  "entry_offset fs cluster = unat ((cluster * (if fat_type fs = 32 then 4 else 2)) mod bytes_per_sector fs)"

definition fat_read_entry :: "'d disk_ops \<Rightarrow> u32 \<Rightarrow> 'd fat32_fs \<Rightarrow> u32 \<times> 'd fat32_fs" where
  "fat_read_entry dev cluster fs =
     (let (ok, fs1) = read_sector dev (fat_start_lba fs + entry_sector fs cluster) fs
      in if fat_type fs = 32
         then (if \<not> ok then (0x0FFFFFFF, fs1)
               else (and (le32 (sector_buf fs1) (entry_offset fs cluster)) 0x0FFFFFFF, fs1))
         else (if \<not> ok then (0xFFFF, fs1)
               else (ucast (le16 (sector_buf fs1) (entry_offset fs cluster)), fs1)))"

definition put_entry :: "'d fat32_fs \<Rightarrow> u32 \<Rightarrow> u32 \<Rightarrow> u8 list \<Rightarrow> u8 list" where
  "put_entry fs cluster v buf =
     (if fat_type fs = 32
      then put_bytes (entry_offset fs cluster)
             (bytes32 (or (and (le32 buf (entry_offset fs cluster)) 0xF0000000) (and v 0x0FFFFFFF))) buf
      else put_bytes (entry_offset fs cluster) (bytes16 (ucast v)) buf)"

text \<open>The loop over the copies of the table.\<close>

primrec write_copies :: "'d disk_ops \<Rightarrow> u32 \<Rightarrow> u32 \<Rightarrow> nat \<Rightarrow> nat \<Rightarrow> 'd fat32_fs \<Rightarrow> bool \<times> 'd fat32_fs" where
  "write_copies dev cluster v fat 0 fs = (True, fs)"
| "write_copies dev cluster v fat (Suc n) fs =
     (let lba = fat_start_lba fs + of_nat fat * sectors_per_fat fs + entry_sector fs cluster;
          (ok, fs1) = read_sector dev lba fs
      in if \<not> ok then (False, fs1)
         else let (ok2, fs2) = write_sector dev lba (fs1\<lparr>sector_buf := put_entry fs cluster v (sector_buf fs1)\<rparr>)
              in if \<not> ok2 then (False, fs2) else write_copies dev cluster v (fat + 1) n fs2)"

definition fat_write_entry :: "'d disk_ops \<Rightarrow> u32 \<Rightarrow> u32 \<Rightarrow> 'd fat32_fs \<Rightarrow> bool \<times> 'd fat32_fs" where
  "fat_write_entry dev cluster v fs = write_copies dev cluster v 0 (unat (num_fats fs)) fs"

lemma read_sector_geometry [simp]:
  "max_cluster (snd (read_sector dev lba fs)) = max_cluster fs"
  by (simp add: read_sector_def read_raw_def Let_def split: prod.split)

lemma fat_read_entry_max [simp]: "max_cluster (snd (fat_read_entry dev c fs)) = max_cluster fs"
  using read_sector_geometry [of dev "fat_start_lba fs + entry_sector fs c" fs]
  by (cases "read_sector dev (fat_start_lba fs + entry_sector fs c) fs") (simp add: fat_read_entry_def)

function alloc_from :: "'d disk_ops \<Rightarrow> u32 \<Rightarrow> 'd fat32_fs \<Rightarrow> u32 \<times> 'd fat32_fs" where
  "alloc_from dev cluster fs =
     (if cluster < max_cluster fs
      then let (entry, fs1) = fat_read_entry dev cluster fs
           in if entry = 0
              then let (ok, fs2) = fat_write_entry dev cluster (eoc_value fs1) fs1
                   in if \<not> ok then (0, fs2) else (cluster, fs2)
              else alloc_from dev (cluster + 1) fs1
      else (0, fs))"
  by pat_completeness auto

termination
proof (relation "measure (\<lambda>(_, c, fs). unat (max_cluster fs) - unat c)")
  show "((dev, c + 1, y), dev, c, fs) \<in> measure (\<lambda>(_, c, fs). unat (max_cluster fs) - unat c)"
    if "c < max_cluster fs" "a = fat_read_entry dev c fs" "(x, y) = a" for dev c fs a x y
  proof -
    have "max_cluster y = max_cluster fs" using that(2,3) fat_read_entry_max [of dev c fs] by (metis snd_conv)
    then show ?thesis using that(1) word_less_Suc_unat [OF that(1)] by (simp add: word_less_nat_alt)
  qed
qed auto

declare alloc_from.simps [simp del]

definition fat_alloc_cluster :: "'d disk_ops \<Rightarrow> 'd fat32_fs \<Rightarrow> u32 \<times> 'd fat32_fs" where
  "fat_alloc_cluster dev fs = alloc_from dev 2 fs"

text \<open>The first argument is the number of links that may still be followed.\<close>

primrec free_links :: "'d disk_ops \<Rightarrow> nat \<Rightarrow> u32 \<Rightarrow> 'd fat32_fs \<Rightarrow> 'd fat32_fs" where
  "free_links dev 0 cluster fs = fs"
| "free_links dev (Suc n) cluster fs =
     (if is_valid_cluster fs cluster
      then let (next_cluster, fs1) = fat_read_entry dev cluster fs;
               (ok, fs2) = fat_write_entry dev cluster 0 fs1
           in if \<not> ok then fs2 else free_links dev n next_cluster fs2
      else fs)"

definition fat_free_chain :: "'d disk_ops \<Rightarrow> u32 \<Rightarrow> 'd fat32_fs \<Rightarrow> 'd fat32_fs" where
  "fat_free_chain dev first_cluster fs = free_links dev (unat (max_cluster fs)) first_cluster fs"

section \<open>The root directory\<close>

datatype 'r step = Go_On | Leave_Sectors | Finish 'r

primrec walk_sectors ::
  "(u32 \<Rightarrow> 'd fat32_fs \<Rightarrow> 'r step \<times> 'd fat32_fs) \<Rightarrow> u32 list \<Rightarrow> 'd fat32_fs \<Rightarrow> 'r option \<times> 'd fat32_fs"
where
  "walk_sectors h [] fs = (None, fs)"
| "walk_sectors h (lba # lbas) fs =
     (case h lba fs of
        (Go_On, fs1) \<Rightarrow> walk_sectors h lbas fs1
      | (Leave_Sectors, fs1) \<Rightarrow> (None, fs1)
      | (Finish r, fs1) \<Rightarrow> (Some r, fs1))"

definition cluster_sectors :: "'d fat32_fs \<Rightarrow> u32 \<Rightarrow> u32 list" where
  "cluster_sectors fs cluster = map (\<lambda>s. cluster_to_lba fs cluster + of_nat s) [0..<unat (sectors_per_cluster fs)]"

primrec walk_chain ::
  "'d disk_ops \<Rightarrow> (u32 \<Rightarrow> 'd fat32_fs \<Rightarrow> 'r step \<times> 'd fat32_fs) \<Rightarrow> nat \<Rightarrow> u32 \<Rightarrow> 'd fat32_fs \<Rightarrow> 'r option \<times> 'd fat32_fs"
where
  "walk_chain dev h 0 cluster fs = (None, fs)"
| "walk_chain dev h (Suc n) cluster fs =
     (if is_valid_cluster fs cluster
      then case walk_sectors h (cluster_sectors fs cluster) fs of
             (Some r, fs1) \<Rightarrow> (Some r, fs1)
           | (None, fs1) \<Rightarrow> (let (next_cluster, fs2) = fat_read_entry dev cluster fs1 in walk_chain dev h n next_cluster fs2)
      else (None, fs))"

definition walk_dir ::
  "'d disk_ops \<Rightarrow> (u32 \<Rightarrow> 'd fat32_fs \<Rightarrow> 'r step \<times> 'd fat32_fs) \<Rightarrow> 'd fat32_fs \<Rightarrow> 'r option \<times> 'd fat32_fs"
where
  "walk_dir dev h fs =
     (if fat_type fs \<noteq> 32
      then walk_sectors h (map (\<lambda>s. root_dir_lba fs + of_nat s) [0..<unat (root_dir_sectors fs)]) fs
      else walk_chain dev h (unat (max_cluster fs)) (root_cluster fs) fs)"

text \<open>The offsets of the 32-byte entries of a sector.\<close>

definition entry_offsets :: "'d fat32_fs \<Rightarrow> nat list" where
  "entry_offsets fs = map (\<lambda>k. 32 * k) [0..<unat (bytes_per_sector fs) div 32]"

definition entry_free :: "u8 list \<Rightarrow> nat \<Rightarrow> bool" where
  "entry_free buf off \<longleftrightarrow> buf ! off = 0 \<or> buf ! off = 0xE5"

definition free_entry_step :: "'d disk_ops \<Rightarrow> u32 \<Rightarrow> 'd fat32_fs \<Rightarrow> (u32 \<times> nat) option step \<times> 'd fat32_fs" where
  "free_entry_step dev lba fs =
     (let (ok, fs1) = read_sector dev lba fs
      in if \<not> ok then (Finish None, fs1)
         else case find (entry_free (sector_buf fs1)) (entry_offsets fs1) of
                None \<Rightarrow> (Go_On, fs1)
              | Some off \<Rightarrow> (Finish (Some (lba, off)), fs1))"

definition find_free_dir_entry :: "'d disk_ops \<Rightarrow> 'd fat32_fs \<Rightarrow> (u32 \<times> nat) option \<times> 'd fat32_fs" where
  "find_free_dir_entry dev fs =
     (let (r, fs1) = walk_dir dev (free_entry_step dev) fs in (case r of None \<Rightarrow> None | Some x \<Rightarrow> x, fs1))"

text \<open>
  The search for a name in a sector: \<open>End_Mark\<close> when an entry says that there are no more, \<open>Match\<close> with the
  offset of the entry. Deleted entries, volume labels and subdirectories are skipped.
\<close>

datatype name_search = End_Mark | Match nat | No_Match

primrec find_name :: "u8 list \<Rightarrow> u8 list \<Rightarrow> nat list \<Rightarrow> name_search" where
  "find_name name buf [] = No_Match"
| "find_name name buf (off # offs) =
     (if buf ! off = 0 then End_Mark
      else if buf ! off = 0xE5 then find_name name buf offs
      else if and (buf ! (off + 11)) 0x18 \<noteq> 0 then find_name name buf offs
      else if get_bytes off 11 buf = take 11 name then Match off
      else find_name name buf offs)"

definition entry_cluster :: "u8 list \<Rightarrow> nat \<Rightarrow> u32" where
  "entry_cluster buf off =
     or (or (or (ucast (buf ! (off + 26))) (push_bit 8 (ucast (buf ! (off + 27)))))
       (push_bit 16 (ucast (buf ! (off + 20))))) (push_bit 24 (ucast (buf ! (off + 21))))"

definition find_file_step :: "'d disk_ops \<Rightarrow> u8 list \<Rightarrow> u32 \<Rightarrow> 'd fat32_fs \<Rightarrow> (u32 \<times> u32) option step \<times> 'd fat32_fs" where
  "find_file_step dev name lba fs =
     (let (ok, fs1) = read_sector dev lba fs
      in if \<not> ok then (Finish None, fs1)
         else case find_name name (sector_buf fs1) (entry_offsets fs1) of
                End_Mark \<Rightarrow> (Finish None, fs1)
              | No_Match \<Rightarrow> (Go_On, fs1)
              | Match off \<Rightarrow> (Finish (Some (entry_cluster (sector_buf fs1) off, le32 (sector_buf fs1) (off + 28))), fs1))"

definition find_file_dir_entry :: "'d disk_ops \<Rightarrow> u8 list \<Rightarrow> 'd fat32_fs \<Rightarrow> (u32 \<times> u32) option \<times> 'd fat32_fs" where
  "find_file_dir_entry dev name fs =
     (let (r, fs1) = walk_dir dev (find_file_step dev name) fs in (case r of None \<Rightarrow> None | Some x \<Rightarrow> x, fs1))"

definition delete_step :: "'d disk_ops \<Rightarrow> u8 list \<Rightarrow> u32 \<Rightarrow> 'd fat32_fs \<Rightarrow> bool step \<times> 'd fat32_fs" where
  "delete_step dev name lba fs =
     (let (ok, fs1) = read_sector dev lba fs
      in if \<not> ok then (Finish False, fs1)
         else case find_name name (sector_buf fs1) (entry_offsets fs1) of
                End_Mark \<Rightarrow> (Finish False, fs1)
              | No_Match \<Rightarrow> (Go_On, fs1)
              | Match off \<Rightarrow>
                  (let first_cluster = entry_cluster (sector_buf fs1) off;
                       (ok2, fs2) = write_sector dev lba (fs1\<lparr>sector_buf := (sector_buf fs1)[off := 0xE5]\<rparr>)
                   in if \<not> ok2 then (Finish False, fs2)
                      else (Finish True, if first_cluster \<noteq> 0 then fat_free_chain dev first_cluster fs2 else fs2)))"

definition fat32_delete_file :: "'d disk_ops \<Rightarrow> u8 list \<Rightarrow> 'd fat32_fs \<Rightarrow> bool \<times> 'd fat32_fs" where
  "fat32_delete_file dev name fs =
     (let (r, fs1) = walk_dir dev (delete_step dev name) fs in (case r of None \<Rightarrow> False | Some x \<Rightarrow> x, fs1))"

section \<open>Writing a file\<close>

text \<open>
  The clusters of a new file: \<open>n\<close> more to allocate, with the first cluster and the last one so far (0 for none).
  The result says whether all were allocated and chained, and which cluster is the first one.
\<close>

primrec alloc_chain ::
  "'d disk_ops \<Rightarrow> nat \<Rightarrow> u32 \<Rightarrow> u32 \<Rightarrow> 'd fat32_fs \<Rightarrow> bool \<times> u32 \<times> 'd fat32_fs"
where
  "alloc_chain dev 0 first_cluster prev_cluster fs = (True, first_cluster, fs)"
| "alloc_chain dev (Suc n) first_cluster prev_cluster fs =
     (let (cluster, fs1) = fat_alloc_cluster dev fs
      in if cluster = 0 then (False, first_cluster, fs1)
         else let first1 = (if first_cluster = 0 then cluster else first_cluster)
              in if prev_cluster \<noteq> 0
                 then let (ok, fs2) = fat_write_entry dev prev_cluster cluster fs1
                      in if \<not> ok then (False, first1, fs2) else alloc_chain dev n first1 cluster fs2
                 else alloc_chain dev n first1 cluster fs1)"

text \<open>
  The data of one cluster, sector by sector; the remaining bytes are the list \<open>src\<close>. The result is the rest of
  the data, \<open>None\<close> when a write failed.
\<close>

primrec write_cluster :: "'d disk_ops \<Rightarrow> u32 list \<Rightarrow> u8 list \<Rightarrow> 'd fat32_fs \<Rightarrow> u8 list option \<times> 'd fat32_fs" where
  "write_cluster dev [] src fs = (Some src, fs)"
| "write_cluster dev (lba # lbas) src fs =
     (if src = [] then (Some [], fs)
      else let bps = unat (bytes_per_sector fs);
               to_write = (if length src < bps then length src else bps);
               buf = (if to_write < bps then put_bytes 0 (replicate bps 0) (sector_buf fs) else sector_buf fs);
               (ok, fs1) = write_sector dev lba (fs\<lparr>sector_buf := put_bytes 0 (take to_write src) buf\<rparr>)
           in if \<not> ok then (None, fs1) else write_cluster dev lbas (drop to_write src) fs1)"

text \<open>
  \<open>while (remaining > 0 && is_valid_cluster(fs, cluster))\<close>, with fuel: a pass takes at least one byte when a
  cluster has sectors and a sector has bytes, so the length of the data is enough.
\<close>

primrec write_clusters :: "'d disk_ops \<Rightarrow> nat \<Rightarrow> u32 \<Rightarrow> u8 list \<Rightarrow> 'd fat32_fs \<Rightarrow> u8 list option \<times> 'd fat32_fs" where
  "write_clusters dev 0 cluster src fs = (Some src, fs)"
| "write_clusters dev (Suc n) cluster src fs =
     (if src \<noteq> [] \<and> is_valid_cluster fs cluster
      then case write_cluster dev (cluster_sectors fs cluster) src fs of
             (None, fs1) \<Rightarrow> (None, fs1)
           | (Some rest, fs1) \<Rightarrow>
               (let (next_cluster, fs2) = fat_read_entry dev cluster fs1 in write_clusters dev n next_cluster rest fs2)
      else (Some src, fs))"

definition dir_entry :: "u8 list \<Rightarrow> u32 \<Rightarrow> u32 \<Rightarrow> u8 list" where
  "dir_entry name first_cluster fsize =
     take 11 name @ [0x20] @ replicate 8 0 @
     [ucast (drop_bit 16 first_cluster), ucast (drop_bit 24 first_cluster)] @ replicate 4 0 @
     [ucast first_cluster, ucast (drop_bit 8 first_cluster)] @ bytes32 fsize"

definition write_dir_entry :: "'d disk_ops \<Rightarrow> u8 list \<Rightarrow> u32 \<Rightarrow> u32 \<Rightarrow> 'd fat32_fs \<Rightarrow> bool \<times> 'd fat32_fs" where
  "write_dir_entry dev name first_cluster fsize fs =
     (case find_free_dir_entry dev fs of
        (None, fs1) \<Rightarrow> (False, fs1)
      | (Some (lba, off), fs1) \<Rightarrow>
          (let (ok, fs2) = read_sector dev lba fs1
           in if \<not> ok then (False, fs2)
              else write_sector dev lba (fs2\<lparr>sector_buf := put_bytes off (dir_entry name first_cluster fsize) (sector_buf fs2)\<rparr>)))"

definition undo_write :: "'d disk_ops \<Rightarrow> u32 \<Rightarrow> 'd fat32_fs \<Rightarrow> bool \<times> 'd fat32_fs" where
  "undo_write dev first_cluster fs =
     (False, if first_cluster \<noteq> 0 then fat_free_chain dev first_cluster fs else fs)"

text \<open>The data is a list of bytes, of fewer than \<open>2^32\<close>; its length is the argument \<open>size\<close>.\<close>

definition fat32_write_file :: "'d disk_ops \<Rightarrow> u8 list \<Rightarrow> u8 list \<Rightarrow> 'd fat32_fs \<Rightarrow> bool \<times> 'd fat32_fs" where
  "fat32_write_file dev name dat fs =
     (if dat = [] then (False, fs)
      else let fsize = of_nat (length dat) :: u32;
               cluster_size = ucast (sectors_per_cluster fs) * bytes_per_sector fs;
               num_clusters = (fsize + cluster_size - 1) div cluster_size;
               (allocated, first_cluster, fs1) = alloc_chain dev (unat num_clusters) 0 0 fs
           in if \<not> allocated then undo_write dev first_cluster fs1
              else case write_clusters dev (length dat) first_cluster dat fs1 of
                     (None, fs2) \<Rightarrow> undo_write dev first_cluster fs2
                   | (Some rest, fs2) \<Rightarrow>
                       if rest \<noteq> [] then undo_write dev first_cluster fs2
                       else let (ok, fs3) = write_dir_entry dev name first_cluster fsize fs2
                            in if \<not> ok then undo_write dev first_cluster fs3 else (True, fs3))"

section \<open>Reading a file\<close>

text \<open>\<open>None\<close> stands for the return of an unreadable sector; the bytes read are appended to \<open>dst\<close>.\<close>

primrec read_cluster ::
  "'d disk_ops \<Rightarrow> u32 list \<Rightarrow> nat \<Rightarrow> u8 list \<Rightarrow> 'd fat32_fs \<Rightarrow> (nat \<times> u8 list) option \<times> 'd fat32_fs"
where
  "read_cluster dev [] remaining dst fs = (Some (remaining, dst), fs)"
| "read_cluster dev (lba # lbas) remaining dst fs =
     (if remaining = 0 then (Some (remaining, dst), fs)
      else let (ok, fs1) = read_sector dev lba fs
           in if \<not> ok then (None, fs1)
              else let bps = unat (bytes_per_sector fs1);
                       to_read = (if remaining < bps then remaining else bps)
                   in read_cluster dev lbas (remaining - to_read) (dst @ take to_read (sector_buf fs1)) fs1)"

primrec read_clusters ::
  "'d disk_ops \<Rightarrow> nat \<Rightarrow> u32 \<Rightarrow> nat \<Rightarrow> u8 list \<Rightarrow> 'd fat32_fs \<Rightarrow> u8 list option \<times> 'd fat32_fs"
where
  "read_clusters dev 0 cluster remaining dst fs = (Some dst, fs)"
| "read_clusters dev (Suc n) cluster remaining dst fs =
     (if remaining > 0 \<and> is_valid_cluster fs cluster
      then case read_cluster dev (cluster_sectors fs cluster) remaining dst fs of
             (None, fs1) \<Rightarrow> (None, fs1)
           | (Some (remaining1, dst1), fs1) \<Rightarrow>
               (let (next_cluster, fs2) = fat_read_entry dev cluster fs1
                in read_clusters dev n next_cluster remaining1 dst1 fs2)
      else (Some dst, fs))"

text \<open>
  The result: whether the call succeeded, the bytes placed in the buffer and the size stored in \<open>out_size\<close> when
  the file was found. \<open>data_given\<close> is \<open>data != NULL\<close>.
\<close>

definition fat32_read_file ::
  "'d disk_ops \<Rightarrow> u8 list \<Rightarrow> bool \<Rightarrow> u32 \<Rightarrow> 'd fat32_fs \<Rightarrow> (bool \<times> u8 list \<times> u32 option) \<times> 'd fat32_fs"
where
  "fat32_read_file dev name data_given max_size fs =
     (case find_file_dir_entry dev name fs of
        (None, fs1) \<Rightarrow> ((False, [], None), fs1)
      | (Some (first_cluster, file_size), fs1) \<Rightarrow>
          if file_size = 0 then ((True, [], Some file_size), fs1)
          else if \<not> data_given \<or> max_size = 0 then ((False, [], Some file_size), fs1)
          else let remaining = unat (if file_size > max_size then max_size else file_size)
               in case read_clusters dev remaining first_cluster remaining [] fs1 of
                    (None, fs2) \<Rightarrow> ((False, [], Some file_size), fs2)
                  | (Some dst, fs2) \<Rightarrow> ((True, dst, Some file_size), fs2))"

section \<open>The name of the next report\<close>

definition check_dir_entry :: "u8 list \<Rightarrow> nat \<Rightarrow> bool list \<Rightarrow> bool list" where
  "check_dir_entry buf off used =
     (if get_bytes off 6 buf = str_bytes ''MT86P_'' \<and> get_bytes (off + 8) 3 buf = str_bytes ''TXT''
      then let tens = uint (buf ! (off + 6)) - 48; ones = uint (buf ! (off + 7)) - 48
           in if tens \<ge> 0 \<and> tens \<le> 9 \<and> ones \<ge> 0 \<and> ones \<le> 9
              then let num = tens * 10 + ones
                   in if num \<ge> 1 \<and> num \<le> 99 then used[nat num := True] else used
              else used
      else used)"

text \<open>The entries of a sector: the marks, and whether the end of the directory was met.\<close>

primrec mark_used :: "u8 list \<Rightarrow> nat list \<Rightarrow> bool list \<Rightarrow> bool \<times> bool list" where
  "mark_used buf [] used = (False, used)"
| "mark_used buf (off # offs) used =
     (if buf ! off = 0 then (True, used)
      else if buf ! off = 0xE5 then mark_used buf offs used
      else mark_used buf offs (check_dir_entry buf off used))"

text \<open>The marks travel with the state of the disk, so that the walk can be the same as above.\<close>

definition used_disk :: "'d disk_ops \<Rightarrow> ('d \<times> bool list) disk_ops" where
  "used_disk dev =
     \<lparr>read_block = \<lambda>lba buf (d, u). (let (ok, buf1, d1) = read_block dev lba buf d in (ok, buf1, d1, u)),
      write_block = \<lambda>lba buf (d, u). (let (ok, d1) = write_block dev lba buf d in (ok, d1, u)),
      disk_block_size = disk_block_size dev\<rparr>"

definition next_name_step ::
  "'d disk_ops \<Rightarrow> u32 \<Rightarrow> ('d \<times> bool list) fat32_fs \<Rightarrow> unit step \<times> ('d \<times> bool list) fat32_fs"
where
  "next_name_step dev lba fs =
     (let (ok, fs1) = read_sector (used_disk dev) lba fs
      in if \<not> ok then (Leave_Sectors, fs1)
         else let (at_end, used) = mark_used (sector_buf fs1) (entry_offsets fs1) (snd (disk fs1));
                  fs2 = fs1\<lparr>disk := (fst (disk fs1), used)\<rparr>
              in if at_end then (Finish (), fs2) else (Go_On, fs2))"

definition with_disk :: "'e \<Rightarrow> 'd fat32_fs \<Rightarrow> 'e fat32_fs" where
  "with_disk e fs =
     \<lparr>disk = e, partition_lba = partition_lba fs, bytes_per_sector = bytes_per_sector fs,
      sectors_per_cluster = sectors_per_cluster fs, reserved_sectors = reserved_sectors fs,
      num_fats = num_fats fs, fat_type = fat_type fs, sectors_per_fat = sectors_per_fat fs,
      root_cluster = root_cluster fs, root_dir_lba = root_dir_lba fs, root_dir_sectors = root_dir_sectors fs,
      max_cluster = max_cluster fs, fat_start_lba = fat_start_lba fs, data_start_lba = data_start_lba fs,
      sector_buf = sector_buf fs\<rparr>"

definition report_name :: "nat \<Rightarrow> u8 list" where
  "report_name n = str_bytes ''MT86P_'' @ [of_nat (48 + n div 10), of_nat (48 + n mod 10)] @ str_bytes ''TXT''"

definition fat32_next_filename :: "'d disk_ops \<Rightarrow> 'd fat32_fs \<Rightarrow> u8 list option \<times> 'd fat32_fs" where
  "fat32_next_filename dev fs =
     (let (_, fs1) = walk_dir (used_disk dev) (next_name_step dev) (with_disk (disk fs, replicate 100 False) fs);
          used = snd (disk fs1)
      in (case find (\<lambda>n. \<not> used ! n) [1..<100] of None \<Rightarrow> None | Some n \<Rightarrow> Some (report_name n),
          with_disk (fst (disk fs1)) fs1))"

section \<open>Mounting\<close>

text \<open>The common fields of the boot sector, and the regions of the volume.\<close>

definition bpb_sizes :: "u8 list \<Rightarrow> 'd fat32_fs \<Rightarrow> 'd fat32_fs" where
  "bpb_sizes buf fs =
     fs\<lparr>bytes_per_sector := ucast (le16 buf 11), sectors_per_cluster := buf ! 13, reserved_sectors := le16 buf 14,
        num_fats := buf ! 16\<rparr>"

definition bpb_layout :: "u8 list \<Rightarrow> 'd fat32_fs \<Rightarrow> 'd fat32_fs" where
  "bpb_layout buf fs0 =
     (let spf16 = le16 buf 22; spf32 = le32 buf 36; root_entry_count = le16 buf 17;
          fs = fs0\<lparr>sectors_per_fat := (if spf16 \<noteq> 0 then ucast spf16 else spf32)\<rparr>;
          fs = fs\<lparr>root_dir_sectors := ucast ((ucast root_entry_count * 32 + (bytes_per_sector fs - 1)) div bytes_per_sector fs)\<rparr>;
          fs = fs\<lparr>fat_start_lba := ucast (reserved_sectors fs)\<rparr>;
          fs = fs\<lparr>root_dir_lba := fat_start_lba fs + ucast (num_fats fs) * sectors_per_fat fs\<rparr>
      in fs\<lparr>data_start_lba := root_dir_lba fs + ucast (root_dir_sectors fs)\<rparr>)"

definition bpb_total :: "u8 list \<Rightarrow> u32" where
  "bpb_total buf = (if le16 buf 19 \<noteq> 0 then ucast (le16 buf 19) else le32 buf 32)"

text \<open>The fields that \<open>parse_fat_bpb\<close> stores are kept also when it fails later.\<close>

definition parse_fat_bpb :: "'d disk_ops \<Rightarrow> 'd fat32_fs \<Rightarrow> bool \<times> 'd fat32_fs" where
  "parse_fat_bpb dev fs0 =
     (let buf = sector_buf fs0
      in if buf ! 510 \<noteq> 0x55 \<or> buf ! 511 \<noteq> 0xAA then (False, fs0)
         else let fs = bpb_sizes buf fs0
      in if bytes_per_sector fs = 0 \<or> sectors_per_cluster fs = 0 then (False, fs)
         else if bytes_per_sector fs \<noteq> disk_block_size dev then (False, fs)
         else if le16 buf 22 = 0 \<and> le32 buf 36 = 0 then (False, fs)
         else let fs = bpb_layout buf fs
      in if bpb_total buf = 0 then (False, fs)
         else if bpb_total buf \<le> data_start_lba fs then (False, fs)
         else let count_clusters = (bpb_total buf - data_start_lba fs) div ucast (sectors_per_cluster fs)
      in if count_clusters < 4085 then (False, fs)
         else let fs = fs\<lparr>fat_type := (if count_clusters < 65525 then 16 else 32), max_cluster := count_clusters + 2\<rparr>
      in if fat_type fs = 32
         then (if le16 buf 17 \<noteq> 0 then (False, fs) else (True, fs\<lparr>root_cluster := le32 buf 44\<rparr>))
         else (if le16 buf 17 = 0 then (False, fs) else (True, fs\<lparr>root_cluster := 0\<rparr>)))"

definition gpt_signature :: "u8 list" where
  "gpt_signature = str_bytes ''EFI PART''"

definition gpt_basic_data_guid :: "u8 list" where
  "gpt_basic_data_guid = [0xA2, 0xA0, 0xD0, 0xEB, 0xE5, 0xB9, 0x33, 0x44, 0x87, 0xC0, 0x68, 0xB6, 0xB7, 0x26, 0x99, 0xC7]"

text \<open>The shift of the block size: \<open>while ((1u << bs_shift) < block_size) bs_shift++\<close>.\<close>

definition block_shift :: "u32 \<Rightarrow> nat" where
  "block_shift bsize = (case find (\<lambda>k. bsize \<le> push_bit k 1) [0..<32] of None \<Rightarrow> 32 | Some k \<Rightarrow> k)"

text \<open>One entry of the partition table of a GPT disk; the second argument is the loaded sector, if one is loaded.\<close>

definition gpt_entry ::
  "'d disk_ops \<Rightarrow> u64 \<Rightarrow> u32 \<Rightarrow> nat \<Rightarrow> u32 option \<times> 'd fat32_fs \<Rightarrow> bool option \<times> u32 option \<times> 'd fat32_fs"
where
  "gpt_entry dev entry_lba entry_size i = (\<lambda>(loaded, fs).
     (let byte_off = of_nat i * ucast entry_size :: u64;
          sector = ucast (entry_lba + drop_bit (block_shift (disk_block_size dev)) byte_off) :: u32;
          offset = and (ucast byte_off) (disk_block_size dev - 1) :: u32
      in if offset + 40 > disk_block_size dev then (None, loaded, fs)
         else let (ok, fs1) = (if loaded \<noteq> Some sector then read_raw dev sector fs else (True, fs))
      in if \<not> ok then (Some False, loaded, fs1)
         else let buf = sector_buf fs1; off = unat offset
      in if get_bytes off 16 buf \<noteq> gpt_basic_data_guid then (None, Some sector, fs1)
         else let start_lba = le64 buf (off + 32)
      in if start_lba = 0 \<or> start_lba > 0xFFFFFFFF then (None, Some sector, fs1)
         else let (ok2, fs2) = read_raw dev (ucast start_lba) (fs1\<lparr>partition_lba := ucast start_lba\<rparr>)
      in if \<not> ok2 then (None, None, fs2)
         else let (good, fs3) = parse_fat_bpb dev fs2
      in if good then (Some True, None, fs3) else (None, None, fs3)))"

primrec gpt_scan ::
  "'d disk_ops \<Rightarrow> u64 \<Rightarrow> u32 \<Rightarrow> nat \<Rightarrow> nat \<Rightarrow> u32 option \<times> 'd fat32_fs \<Rightarrow> bool \<times> 'd fat32_fs"
where
  "gpt_scan dev entry_lba entry_size i 0 st = (False, snd st)"
| "gpt_scan dev entry_lba entry_size i (Suc n) st =
     (case gpt_entry dev entry_lba entry_size i st of
        (Some found, _, fs1) \<Rightarrow> (found, fs1)
      | (None, st1) \<Rightarrow> gpt_scan dev entry_lba entry_size (i + 1) n st1)"

text \<open>The entry is read from the sector buffer as it is when its turn comes.\<close>

primrec mbr_scan :: "'d disk_ops \<Rightarrow> nat list \<Rightarrow> 'd fat32_fs \<Rightarrow> bool \<times> 'd fat32_fs" where
  "mbr_scan dev [] fs = (False, fs)"
| "mbr_scan dev (i # is) fs =
     (let entry = 446 + i * 16; buf = sector_buf fs
      in if \<not> is_fat_partition (buf ! (entry + 4)) then mbr_scan dev is fs
         else let part_lba = le32 buf (entry + 8)
      in if part_lba = 0 then mbr_scan dev is fs
         else let (ok, fs1) = read_raw dev part_lba (fs\<lparr>partition_lba := part_lba\<rparr>)
      in if \<not> ok then mbr_scan dev is fs1
         else let (good, fs2) = parse_fat_bpb dev fs1
      in if good then (True, fs2) else mbr_scan dev is fs2)"

text \<open>\<open>fs\<close> holds the disk and the buffer that the caller passes; its other fields are what was there before.\<close>

definition fat32_mount :: "'d disk_ops \<Rightarrow> 'd fat32_fs \<Rightarrow> bool \<times> 'd fat32_fs" where
  "fat32_mount dev fs0 =
     (let (ok, fs1) = read_raw dev 0 (fs0\<lparr>partition_lba := 0\<rparr>)
      in if \<not> ok then (False, fs1)
         else let (good, fs2) = parse_fat_bpb dev fs1; buf = sector_buf fs2
      in if good then (True, fs2)
         else if buf ! 510 \<noteq> 0x55 \<or> buf ! 511 \<noteq> 0xAA then (False, fs2)
         else if list_ex (\<lambda>i. buf ! (446 + i * 16 + 4) = 0xEE) [0, 1, 2, 3]
         then let (ok2, fs3) = read_raw dev 1 fs2; hdr = sector_buf fs3
              in if \<not> ok2 then (False, fs3)
                 else if get_bytes 0 8 hdr \<noteq> gpt_signature then (False, fs3)
                 else let entry_lba = le64 hdr 72; entry_count = le32 hdr 80; entry_size = le32 hdr 84
                      in if entry_size < 128 \<or> entry_count = 0 then (False, fs3)
                         else gpt_scan dev entry_lba entry_size 0 (unat entry_count) (None, fs3)
         else let (ok2, fs3) = read_raw dev 0 fs2
              in if \<not> ok2 then (False, fs3) else mbr_scan dev [0, 1, 2, 3] fs3)"

end
