(* ===== verification/Fat32_Table.thy ===== *)
theory Fat32_Table
  imports Fat32
begin

text \<open>
  The allocation table of the FAT writer: the interface of a disk (locale \<open>block_store\<close>), the geometry of a
  well-formed volume, the table as a map from clusters to entries, allocation of chains, and where the data of a
  cluster lies. The lemmas are proved inside the locale, for every disk that keeps what is written to it.
\<close>

section \<open>Disks\<close>

text \<open>
  What the writer relies on: a read never changes the disk and, when it succeeds, delivers the block; a write that
  succeeds replaces one block; a write that fails may damage that block and no other.
\<close>

locale block_store =
  fixes dev :: "'d disk_ops" and content :: "'d \<Rightarrow> u32 \<Rightarrow> u8 list"
  assumes read_law: "read_block dev lba buf d = (ok, buf1, d1) \<Longrightarrow>
      content d1 = content d \<and> (ok \<longrightarrow> buf1 = content d lba) \<and>
      (length buf = length (content d lba) \<longrightarrow> length buf1 = length buf)"
    and write_law: "write_block dev lba buf d = (ok, d1) \<Longrightarrow>
      (ok \<longrightarrow> content d1 lba = buf) \<and> (length buf = length (content d lba) \<longrightarrow> length (content d1 lba) = length buf) \<and>
      (\<forall>x. x \<noteq> lba \<longrightarrow> content d1 x = content d x)"

text \<open>Operations change the buffer and the disk of the file system object, never its geometry.\<close>

definition same_volume :: "'d fat32_fs \<Rightarrow> 'd fat32_fs \<Rightarrow> bool" where
  "same_volume fs fs1 \<longleftrightarrow> fs1 = fs\<lparr>disk := disk fs1, sector_buf := sector_buf fs1\<rparr>"

lemma same_volume_refl [simp]: "same_volume fs fs"
  by (simp add: same_volume_def)

lemma same_volume_trans: "same_volume fs fs1 \<Longrightarrow> same_volume fs1 fs2 \<Longrightarrow> same_volume fs fs2"
  unfolding same_volume_def by (metis (no_types, lifting) fat32_fs.surjective fat32_fs.update_convs(1,15))

lemma same_volume_buf: "same_volume fs (fs\<lparr>sector_buf := b\<rparr>)"
  by (simp add: same_volume_def)

lemma same_geometry:
  assumes "same_volume fs fs1"
  shows "partition_lba fs1 = partition_lba fs" "bytes_per_sector fs1 = bytes_per_sector fs"
    "sectors_per_cluster fs1 = sectors_per_cluster fs" "num_fats fs1 = num_fats fs" "fat_type fs1 = fat_type fs"
    "sectors_per_fat fs1 = sectors_per_fat fs" "root_cluster fs1 = root_cluster fs" "root_dir_lba fs1 = root_dir_lba fs"
    "root_dir_sectors fs1 = root_dir_sectors fs" "max_cluster fs1 = max_cluster fs" "fat_start_lba fs1 = fat_start_lba fs"
    "data_start_lba fs1 = data_start_lba fs" "entry_sector fs1 = entry_sector fs" "entry_offset fs1 = entry_offset fs"
    "eoc_value fs1 = eoc_value fs" "is_valid_cluster fs1 = is_valid_cluster fs" "cluster_sectors fs1 = cluster_sectors fs"
    "put_entry fs1 = put_entry fs" "entry_offsets fs1 = entry_offsets fs"
proof -
  obtain d b where fs1: "fs1 = fs\<lparr>disk := d, sector_buf := b\<rparr>" using assms unfolding same_volume_def by blast
  show "partition_lba fs1 = partition_lba fs" "bytes_per_sector fs1 = bytes_per_sector fs"
    "sectors_per_cluster fs1 = sectors_per_cluster fs" "num_fats fs1 = num_fats fs" "fat_type fs1 = fat_type fs"
    "sectors_per_fat fs1 = sectors_per_fat fs" "root_cluster fs1 = root_cluster fs" "root_dir_lba fs1 = root_dir_lba fs"
    "root_dir_sectors fs1 = root_dir_sectors fs" "max_cluster fs1 = max_cluster fs" "fat_start_lba fs1 = fat_start_lba fs"
    "data_start_lba fs1 = data_start_lba fs" "entry_sector fs1 = entry_sector fs" "entry_offset fs1 = entry_offset fs"
    "eoc_value fs1 = eoc_value fs" "is_valid_cluster fs1 = is_valid_cluster fs" "cluster_sectors fs1 = cluster_sectors fs"
    "put_entry fs1 = put_entry fs" "entry_offsets fs1 = entry_offsets fs"
    unfolding fs1 by (simp_all add: fun_eq_iff entry_sector_def entry_offset_def eoc_value_def is_valid_cluster_def
        cluster_sectors_def cluster_to_lba_def put_entry_def entry_offsets_def)
qed

text \<open>The geometry that a well-formed volume has.\<close>

definition entry_size :: "'d fat32_fs \<Rightarrow> nat" where
  "entry_size fs = (if fat_type fs = 32 then 4 else 2)"

definition volume_ok :: "'d fat32_fs \<Rightarrow> bool" where
  "volume_ok fs \<longleftrightarrow>
     (fat_type fs = 16 \<or> fat_type fs = 32) \<and> 0 < num_fats fs \<and> 0 < sectors_per_cluster fs \<and>
     64 \<le> bytes_per_sector fs \<and> bytes_per_sector fs \<le> 4096 \<and> unat (bytes_per_sector fs) mod 32 = 0 \<and>
     unat (fat_start_lba fs) + unat (num_fats fs) * unat (sectors_per_fat fs) \<le> unat (root_dir_lba fs) \<and>
     unat (root_dir_lba fs) + unat (root_dir_sectors fs) \<le> unat (data_start_lba fs) \<and>
     unat (data_start_lba fs) + (unat (max_cluster fs) - 2) * unat (sectors_per_cluster fs) \<le> 2 ^ 32 \<and>
     2 \<le> max_cluster fs \<and> unat (max_cluster fs) * entry_size fs \<le> unat (sectors_per_fat fs) * unat (bytes_per_sector fs) \<and>
     max_cluster fs \<le> (if fat_type fs = 32 then 0x0FFFFFF7 else 0xFFF7)"

context block_store begin

definition sector :: "'d fat32_fs \<Rightarrow> u32 \<Rightarrow> u8 list" where
  "sector fs lba = content (disk fs) (partition_lba fs + lba)"

definition sized :: "'d fat32_fs \<Rightarrow> bool" where
  "sized fs \<longleftrightarrow> 0 < bytes_per_sector fs \<and> length (sector_buf fs) = unat (bytes_per_sector fs) \<and>
     (\<forall>lba. length (sector fs lba) = unat (bytes_per_sector fs))"

lemma sector_buf_update [simp]: "sector (fs\<lparr>sector_buf := b\<rparr>) = sector fs"
  by (simp add: sector_def fun_eq_iff)

lemma read_sector_result:
  assumes "read_sector dev lba fs = (ok, fs1)"
  shows "same_volume fs fs1" "sector fs1 = sector fs" "ok \<Longrightarrow> sector_buf fs1 = sector fs lba"
proof -
  obtain buf d where r: "read_block dev (partition_lba fs + lba) (sector_buf fs) (disk fs) = (ok, buf, d)"
      "fs1 = fs\<lparr>sector_buf := buf, disk := d\<rparr>"
    using assms by (auto simp: read_sector_def read_raw_def Let_def split: prod.splits)
  show "same_volume fs fs1" by (simp add: same_volume_def r(2))
  show "sector fs1 = sector fs" "ok \<Longrightarrow> sector_buf fs1 = sector fs lba"
    using read_law [OF r(1)] by (simp_all add: r(2) sector_def fun_eq_iff)
qed

lemma write_sector_result:
  assumes "write_sector dev lba fs = (ok, fs1)"
  shows "same_volume fs fs1" "\<And>x. x \<noteq> lba \<Longrightarrow> sector fs1 x = sector fs x" "ok \<Longrightarrow> sector fs1 lba = sector_buf fs"
    "length (sector_buf fs) = length (sector fs lba) \<Longrightarrow> length (sector fs1 lba) = length (sector_buf fs)" "sector_buf fs1 = sector_buf fs"
proof -
  obtain d where r: "write_block dev (partition_lba fs + lba) (sector_buf fs) (disk fs) = (ok, d)" "fs1 = fs\<lparr>disk := d\<rparr>"
    using assms by (auto simp: write_sector_def Let_def split: prod.splits)
  show "same_volume fs fs1" by (simp add: same_volume_def r(2))
  show "\<And>x. x \<noteq> lba \<Longrightarrow> sector fs1 x = sector fs x" "ok \<Longrightarrow> sector fs1 lba = sector_buf fs"
    "length (sector_buf fs) = length (sector fs lba) \<Longrightarrow> length (sector fs1 lba) = length (sector_buf fs)" "sector_buf fs1 = sector_buf fs"
    using write_law [OF r(1)] by (simp_all add: r(2) sector_def)
qed

lemma read_sector_sized:
  assumes "read_sector dev lba fs = (ok, fs1)" "sized fs"
  shows "sized fs1"
proof -
  obtain buf d where r: "read_block dev (partition_lba fs + lba) (sector_buf fs) (disk fs) = (ok, buf, d)"
      "fs1 = fs\<lparr>sector_buf := buf, disk := d\<rparr>"
    using assms(1) by (auto simp: read_sector_def read_raw_def Let_def split: prod.splits)
  have "length buf = length (sector_buf fs)"
    using read_law [OF r(1)] assms(2) by (simp add: sized_def sector_def)
  then show ?thesis
    using read_sector_result(2) [OF assms(1)] assms(2) by (simp add: sized_def r(2))
qed

lemma write_sector_sized:
  assumes "write_sector dev lba fs = (ok, fs1)" "sized fs"
  shows "sized fs1"
proof -
  note w = write_sector_result [OF assms(1)]
  have "length (sector fs1 x) = unat (bytes_per_sector fs)" for x
    using w(2) [of x] w(4) assms(2) by (cases "x = lba") (simp_all add: sized_def)
  then show ?thesis using w(5) same_geometry(2) [OF w(1)] assms(2) by (simp add: sized_def)
qed

text \<open>The entry of a cluster in the first copy of the table.\<close>

definition fat_val :: "'d fat32_fs \<Rightarrow> u32 \<Rightarrow> u32" where
  "fat_val fs c =
     (let buf = sector fs (fat_start_lba fs + entry_sector fs c)
      in if fat_type fs = 32 then and (le32 buf (entry_offset fs c)) 0x0FFFFFFF else ucast (le16 buf (entry_offset fs c)))"

lemma fat_read_entry_result:
  assumes "fat_read_entry dev c fs = (v, fs1)"
  shows "same_volume fs fs1" "sector fs1 = sector fs" "v = fat_val fs c \<or> v = eoc_value fs \<or> (fat_type fs \<noteq> 16 \<and> v = 0xFFFF)"
    "fst (read_sector dev (fat_start_lba fs + entry_sector fs c) fs) \<Longrightarrow> v = fat_val fs c"
proof -
  obtain ok fs2 where r: "read_sector dev (fat_start_lba fs + entry_sector fs c) fs = (ok, fs2)" by fastforce
  note rr = read_sector_result [OF r]
  have fs1: "fs1 = fs2" and v: "v = (if ok then fat_val fs c else if fat_type fs = 32 then 0x0FFFFFFF else 0xFFFF)"
    using assms r rr(3) by (auto simp: fat_read_entry_def fat_val_def Let_def split: if_splits)
  show "same_volume fs fs1" "sector fs1 = sector fs" using rr fs1 by simp_all
  show "v = fat_val fs c \<or> v = eoc_value fs \<or> (fat_type fs \<noteq> 16 \<and> v = 0xFFFF)"
    using v by (auto simp: eoc_value_def)
  show "fst (read_sector dev (fat_start_lba fs + entry_sector fs c) fs) \<Longrightarrow> v = fat_val fs c"
    using v r by simp
qed

end

section \<open>Layout\<close>

lemma unat_u32_less: "unat (x :: u32) < 2 ^ 32"
proof -
  have "unat x < 2 ^ LENGTH(32)" by (rule unsigned_less)
  then show ?thesis by simp
qed

lemma unat_u16_less: "unat (x :: u16) < 2 ^ 16"
proof -
  have "unat x < 2 ^ LENGTH(16)" by (rule unsigned_less)
  then show ?thesis by simp
qed

lemma unat_u8_less: "unat (x :: u8) < 2 ^ 8"
proof -
  have "unat x < 2 ^ LENGTH(8)" by (rule unsigned_less)
  then show ?thesis by simp
qed

lemma unat_mult_u32: "unat a * unat b < 2 ^ 32 \<Longrightarrow> unat (a * b :: u32) = unat a * unat b"
  by (simp add: unat_word_ariths)

lemma unat_add_u32: "unat a + unat b < 2 ^ 32 \<Longrightarrow> unat (a + b :: u32) = unat a + unat b"
  by (simp add: unat_word_ariths)

lemma volume_facts:
  assumes "volume_ok fs"
  shows "fat_type fs = 16 \<or> fat_type fs = 32" "0 < unat (num_fats fs)" "0 < unat (sectors_per_cluster fs)"
    "64 \<le> unat (bytes_per_sector fs)" "unat (bytes_per_sector fs) \<le> 4096" "unat (bytes_per_sector fs) mod 32 = 0"
    "unat (fat_start_lba fs) + unat (num_fats fs) * unat (sectors_per_fat fs) \<le> unat (root_dir_lba fs)"
    "unat (root_dir_lba fs) + unat (root_dir_sectors fs) \<le> unat (data_start_lba fs)"
    "unat (data_start_lba fs) + (unat (max_cluster fs) - 2) * unat (sectors_per_cluster fs) \<le> 2 ^ 32"
    "2 \<le> unat (max_cluster fs)"
    "unat (max_cluster fs) * entry_size fs \<le> unat (sectors_per_fat fs) * unat (bytes_per_sector fs)"
    "unat (max_cluster fs) \<le> (if fat_type fs = 32 then 0x0FFFFFF7 else 0xFFF7)"
  using assms by (auto simp: volume_ok_def word_le_nat_alt word_less_nat_alt split: if_splits)

lemma entry_place:
  assumes "volume_ok fs" "c < max_cluster fs"
  shows "unat (entry_sector fs c) = unat c * entry_size fs div unat (bytes_per_sector fs)"
    "entry_offset fs c = unat c * entry_size fs mod unat (bytes_per_sector fs)"
    "unat (entry_sector fs c) < unat (sectors_per_fat fs)"
    "entry_offset fs c + entry_size fs \<le> unat (bytes_per_sector fs)"
proof -
  note v = volume_facts [OF assms(1)]
  let ?e = "(if fat_type fs = 32 then 4 else 2) :: u32" and ?b = "unat (bytes_per_sector fs)"
  have c: "unat c < unat (max_cluster fs)" using assms(2) by (simp add: word_less_nat_alt)
  have e: "unat ?e = entry_size fs" by (simp add: entry_size_def)
  have "unat c * entry_size fs < 2 ^ 32" using c v(12) by (auto simp: entry_size_def split: if_splits)
  then have ce: "unat (c * ?e) = unat c * entry_size fs" using e by (simp add: unat_mult_u32)
  show s: "unat (entry_sector fs c) = unat c * entry_size fs div ?b"
    using ce by (simp add: entry_sector_def unat_div_distrib)
  show o: "entry_offset fs c = unat c * entry_size fs mod ?b"
    using ce by (simp add: entry_offset_def unat_mod_distrib)
  have pos: "0 < entry_size fs" by (simp add: entry_size_def)
  then have "unat c * entry_size fs < unat (max_cluster fs) * entry_size fs" using c by (rule mult_less_mono1 [rotated])
  then have "unat c * entry_size fs < unat (sectors_per_fat fs) * ?b" using v(11) by linarith
  then show "unat (entry_sector fs c) < unat (sectors_per_fat fs)" unfolding s by (rule less_mult_imp_div_less)
  have "entry_size fs dvd 32" by (auto simp: entry_size_def)
  moreover have "32 dvd ?b" using v(6) by (simp add: dvd_eq_mod_eq_0)
  ultimately have d: "entry_size fs dvd ?b" by (rule dvd_trans)
  then obtain m where m: "?b = entry_size fs * m" by (auto simp: dvd_def)
  have "unat c * entry_size fs mod ?b = entry_size fs * (unat c mod m)"
    unfolding m by (simp only: mult.commute [of "unat c"] mult_mod_right)
  moreover have "unat c mod m < m" using m v(4) by (cases "m = 0") auto
  then have "entry_size fs * Suc (unat c mod m) \<le> ?b" unfolding m by (intro mult_le_mono2) simp
  ultimately show "entry_offset fs c + entry_size fs \<le> ?b" unfolding o by simp
qed

lemma copy_place:
  assumes "volume_ok fs" "c < max_cluster fs" "fat < unat (num_fats fs)"
  shows "unat (fat_start_lba fs + of_nat fat * sectors_per_fat fs + entry_sector fs c) =
    unat (fat_start_lba fs) + fat * unat (sectors_per_fat fs) + unat (entry_sector fs c)"
proof -
  note v = volume_facts [OF assms(1)]
  let ?s = "unat (sectors_per_fat fs)"
  have "(fat + 1) * ?s \<le> unat (num_fats fs) * ?s" using assms(3) by (intro mult_le_mono1) simp
  then have lim: "unat (fat_start_lba fs) + (fat * ?s + ?s) \<le> unat (root_dir_lba fs)" using v(7) by simp
  have r: "unat (root_dir_lba fs) < 2 ^ 32" by (rule unat_u32_less)
  have n: "unat (num_fats fs) < 256" using unat_u8_less [of "num_fats fs"] by simp
  then have f: "unat (of_nat fat :: u32) = fat" using assms(3) by (intro unat_of_nat_small) simp
  have fs: "unat (of_nat fat * sectors_per_fat fs) = fat * ?s" using lim r f by (simp add: unat_mult_u32)
  then have s1: "unat (fat_start_lba fs + of_nat fat * sectors_per_fat fs) = unat (fat_start_lba fs) + fat * ?s"
    using lim r by (simp add: unat_add_u32)
  then show ?thesis using lim r entry_place(3) [OF assms(1,2)] by (simp add: unat_add_u32)
qed

text \<open>The region of the table, and the entries of two clusters in one sector.\<close>

definition in_fat :: "'d fat32_fs \<Rightarrow> u32 \<Rightarrow> bool" where
  "in_fat fs lba \<longleftrightarrow> unat (fat_start_lba fs) \<le> unat lba \<and>
     unat lba < unat (fat_start_lba fs) + unat (num_fats fs) * unat (sectors_per_fat fs)"

lemma copy_in_fat:
  assumes "volume_ok fs" "c < max_cluster fs" "fat < unat (num_fats fs)"
  shows "in_fat fs (fat_start_lba fs + of_nat fat * sectors_per_fat fs + entry_sector fs c)"
proof -
  have "(fat + 1) * unat (sectors_per_fat fs) \<le> unat (num_fats fs) * unat (sectors_per_fat fs)"
    using assms(3) by (intro mult_le_mono1) simp
  then show ?thesis unfolding in_fat_def copy_place [OF assms] using entry_place(3) [OF assms(1,2)] by simp
qed

lemma entries_apart:
  assumes "volume_ok fs" "c < max_cluster fs" "c' < max_cluster fs" "c \<noteq> c'" "entry_sector fs c = entry_sector fs c'"
  shows "entry_offset fs c' + entry_size fs \<le> entry_offset fs c \<or> entry_offset fs c + entry_size fs \<le> entry_offset fs c'"
proof -
  let ?b = "unat (bytes_per_sector fs)" and ?e = "entry_size fs"
  note p = entry_place [OF assms(1,2)] and p' = entry_place [OF assms(1,3)]
  have "unat c * ?e div ?b = unat c' * ?e div ?b" using p(1) p'(1) assms(5) by simp
  then have eq: "unat c * ?e = unat c' * ?e div ?b * ?b + entry_offset fs c"
    "unat c' * ?e = unat c' * ?e div ?b * ?b + entry_offset fs c'"
    unfolding p(2) p'(2) by (metis div_mult_mod_eq)+
  have "unat c \<noteq> unat c'" using assms(4) word_unat_eq_iff by blast
  then consider "Suc (unat c) \<le> unat c'" | "Suc (unat c') \<le> unat c" by linarith
  then show ?thesis
  proof cases
    case 1
    then have "Suc (unat c) * ?e \<le> unat c' * ?e" by (rule mult_le_mono1)
    then show ?thesis using eq by simp
  next
    case 2
    then have "Suc (unat c') * ?e \<le> unat c * ?e" by (rule mult_le_mono1)
    then show ?thesis using eq by simp
  qed
qed

definition fat_mask :: "'d fat32_fs \<Rightarrow> u32 \<Rightarrow> u32" where
  "fat_mask fs v = (if fat_type fs = 32 then and v 0x0FFFFFFF else ucast (ucast v :: u16))"

text \<open>The value of an entry in a sector of the table.\<close>

definition entry_value :: "'d fat32_fs \<Rightarrow> u32 \<Rightarrow> u8 list \<Rightarrow> u32" where
  "entry_value fs c buf =
     (if fat_type fs = 32 then and (le32 buf (entry_offset fs c)) 0x0FFFFFFF else ucast (le16 buf (entry_offset fs c)))"

lemma entry_value_put:
  assumes "volume_ok fs" "c < max_cluster fs" "length buf = unat (bytes_per_sector fs)"
  shows "entry_value fs c (put_entry fs c v buf) = fat_mask fs v"
    "length (put_entry fs c v buf) = unat (bytes_per_sector fs)"
    "c' < max_cluster fs \<Longrightarrow> c' \<noteq> c \<Longrightarrow> entry_sector fs c' = entry_sector fs c \<Longrightarrow>
      entry_value fs c' (put_entry fs c v buf) = entry_value fs c' buf"
proof -
  note p = entry_place [OF assms(1,2)]
  have off: "entry_offset fs c + entry_size fs \<le> length buf" using p(4) assms(3) by simp
  have mask: "and (or (and x 0xF0000000) (and v 0x0FFFFFFF)) 0x0FFFFFFF = and v (0x0FFFFFFF :: u32)" for x
  proof -
    have "and (or (and x 0xF0000000) (and v 0x0FFFFFFF)) (0x0FFFFFFF :: u32) =
        or (and x (and 0xF0000000 0x0FFFFFFF)) (and v (and 0x0FFFFFFF 0x0FFFFFFF))"
      by (simp only: bit.conj_disj_distrib2 and.assoc)
    then show ?thesis by simp
  qed
  show "entry_value fs c (put_entry fs c v buf) = fat_mask fs v"
    using off mask by (cases "fat_type fs = 32") (simp_all add: entry_value_def put_entry_def fat_mask_def entry_size_def)
  show "length (put_entry fs c v buf) = unat (bytes_per_sector fs)"
    using off assms(3) by (cases "fat_type fs = 32") (simp_all add: put_entry_def entry_size_def)
  show "entry_value fs c' (put_entry fs c v buf) = entry_value fs c' buf"
    if c': "c' < max_cluster fs" "c' \<noteq> c" "entry_sector fs c' = entry_sector fs c"
  proof -
    have "entry_offset fs c' + entry_size fs \<le> length buf" using entry_place(4) [OF assms(1) c'(1)] assms(3) by simp
    then show ?thesis
      using entries_apart [OF assms(1,2) c'(1)] c'(2,3) off
      by (auto simp: entry_value_def put_entry_def entry_size_def le32_put_other le16_put_other)
  qed
qed

lemma same_volume_ok: "same_volume fs fs1 \<Longrightarrow> volume_ok fs1 = volume_ok fs"
  by (simp add: volume_ok_def entry_size_def same_geometry)

lemma same_in_fat: "same_volume fs fs1 \<Longrightarrow> in_fat fs1 = in_fat fs"
  by (simp add: in_fat_def fun_eq_iff same_geometry)

lemma same_entry_value: "same_volume fs fs1 \<Longrightarrow> entry_value fs1 = entry_value fs"
  by (simp add: entry_value_def fun_eq_iff same_geometry)

lemma same_fat_mask: "same_volume fs fs1 \<Longrightarrow> fat_mask fs1 = fat_mask fs"
  by (simp add: fat_mask_def fun_eq_iff same_geometry)

section \<open>The table as a map\<close>

context block_store begin

lemma fat_val_value: "fat_val fs c = entry_value fs c (sector fs (fat_start_lba fs + entry_sector fs c))"
  by (simp add: fat_val_def entry_value_def Let_def)

lemma fat_val_cong:
  assumes "same_volume fs fs1" "volume_ok fs" "c < max_cluster fs" "\<And>x. in_fat fs x \<Longrightarrow> sector fs1 x = sector fs x"
  shows "fat_val fs1 c = fat_val fs c"
proof -
  have "in_fat fs (fat_start_lba fs + entry_sector fs c)"
    using copy_in_fat [OF assms(2,3), of 0] volume_facts(2) [OF assms(2)] by simp
  then show ?thesis
    using assms(4) by (simp add: fat_val_value same_geometry [OF assms(1)] same_entry_value [OF assms(1)])
qed

text \<open>One copy of the table: nothing else changes but the entry.\<close>

lemma write_copy_result:
  assumes "volume_ok fs" "sized fs" "c < max_cluster fs" "fat < unat (num_fats fs)"
    and lba: "lba = fat_start_lba fs + of_nat fat * sectors_per_fat fs + entry_sector fs c"
    and r: "read_sector dev lba fs = (True, fs1)"
      "write_sector dev lba (fs1\<lparr>sector_buf := put_entry fs c v (sector_buf fs1)\<rparr>) = (ok, fs2)"
  shows "same_volume fs fs2" "sized fs2" "\<And>x. x \<noteq> lba \<Longrightarrow> sector fs2 x = sector fs x"
    "ok \<Longrightarrow> sector fs2 lba = put_entry fs c v (sector fs lba)"
proof -
  note r1 = read_sector_result [OF r(1)] and r2 = write_sector_result [OF r(2)]
  have s1: "sized fs1" using r(1) assms(2) by (rule read_sector_sized)
  have buf: "sector_buf fs1 = sector fs lba" using r1(3) by simp
  have "length (put_entry fs c v (sector_buf fs1)) = unat (bytes_per_sector fs)"
    using entry_value_put(2) [OF assms(1,3)] s1 same_geometry(2) [OF r1(1)] by (simp add: sized_def)
  then have "sized (fs1\<lparr>sector_buf := put_entry fs c v (sector_buf fs1)\<rparr>)"
    using s1 same_geometry(2) [OF r1(1)] by (simp add: sized_def)
  with r(2) show "sized fs2" by (rule write_sector_sized)
  show "same_volume fs fs2" using r1(1) r2(1) same_volume_buf same_volume_trans by blast
  show "\<And>x. x \<noteq> lba \<Longrightarrow> sector fs2 x = sector fs x" using r1(2) r2(2) by simp
  show "ok \<Longrightarrow> sector fs2 lba = put_entry fs c v (sector fs lba)" using r2(3) buf by simp
qed

lemma write_copies_result:
  assumes "volume_ok fs" "sized fs" "c < max_cluster fs" "fat + n \<le> unat (num_fats fs)" "write_copies dev c v fat n fs = (ok, fs1)"
  shows "same_volume fs fs1 \<and> sized fs1 \<and>
    (\<forall>x. (\<forall>k. fat \<le> k \<and> k < fat + n \<longrightarrow> x \<noteq> fat_start_lba fs + of_nat k * sectors_per_fat fs + entry_sector fs c)
      \<longrightarrow> sector fs1 x = sector fs x)"
  using assms
proof (induction n arbitrary: fat fs)
  case 0
  then show ?case by simp
next
  case (Suc n)
  let ?lba = "fat_start_lba fs + of_nat fat * sectors_per_fat fs + entry_sector fs c"
  obtain ok1 fs2 where r: "read_sector dev ?lba fs = (ok1, fs2)" by fastforce
  note r1 = read_sector_result [OF r] read_sector_sized [OF r Suc.prems(2)]
  show ?case
  proof (cases ok1)
    case False
    then show ?thesis using Suc.prems(5) r r1 by simp
  next
    case True
    obtain ok2 fs3 where w: "write_sector dev ?lba (fs2\<lparr>sector_buf := put_entry fs c v (sector_buf fs2)\<rparr>) = (ok2, fs3)"
      by fastforce
    have "fat < unat (num_fats fs)" using Suc.prems(4) by simp
    note w1 = write_copy_result [OF Suc.prems(1-3) this refl, of fs2 v ok2 fs3] r True w
    have one: "same_volume fs fs3" "sized fs3" "\<And>x. x \<noteq> ?lba \<Longrightarrow> sector fs3 x = sector fs x"
      using w1 by simp_all
    show ?thesis
    proof (cases ok2)
      case False
      then show ?thesis using Suc.prems(5) r True w one by auto
    next
      case ok2: True
      have "write_copies dev c v (fat + 1) n fs3 = (ok, fs1)" using Suc.prems(5) r True w ok2 by simp
      then have "same_volume fs3 fs1 \<and> sized fs1 \<and>
        (\<forall>x. (\<forall>k. fat + 1 \<le> k \<and> k < fat + 1 + n \<longrightarrow> x \<noteq> fat_start_lba fs3 + of_nat k * sectors_per_fat fs3 + entry_sector fs3 c)
          \<longrightarrow> sector fs1 x = sector fs3 x)"
        using Suc.prems(1,3,4) one(1,2) by (intro Suc.IH) (simp_all add: same_volume_ok same_geometry)
      then have rest: "same_volume fs3 fs1" "sized fs1"
        "\<And>x. \<forall>k. fat + 1 \<le> k \<and> k < fat + 1 + n \<longrightarrow> x \<noteq> fat_start_lba fs + of_nat k * sectors_per_fat fs + entry_sector fs c \<Longrightarrow>
          sector fs1 x = sector fs3 x"
        unfolding same_geometry [OF one(1)] by blast+
      have "sector fs1 x = sector fs x"
        if x: "\<forall>k. fat \<le> k \<and> k < fat + Suc n \<longrightarrow> x \<noteq> fat_start_lba fs + of_nat k * sectors_per_fat fs + entry_sector fs c" for x
      proof -
        have "sector fs1 x = sector fs3 x" using x by (intro rest(3)) simp
        moreover have "x \<noteq> ?lba" using x by simp
        ultimately show ?thesis using one(3) by simp
      qed
      then show ?thesis using same_volume_trans [OF one(1) rest(1)] rest(2) by blast
    qed
  qed
qed

lemma fat_write_entry_result:
  assumes "volume_ok fs" "sized fs" "c < max_cluster fs" "fat_write_entry dev c v fs = (ok, fs1)"
  shows "same_volume fs fs1" "sized fs1" "\<And>x. \<not> in_fat fs x \<Longrightarrow> sector fs1 x = sector fs x"
    "ok \<Longrightarrow> c' < max_cluster fs \<Longrightarrow> fat_val fs1 c' = (if c' = c then fat_mask fs v else fat_val fs c')"
proof -
  let ?n = "unat (num_fats fs)" and ?lba = "\<lambda>k. fat_start_lba fs + of_nat k * sectors_per_fat fs + entry_sector fs c"
  have w: "write_copies dev c v 0 ?n fs = (ok, fs1)" using assms(4) by (simp add: fat_write_entry_def)
  note all = write_copies_result [OF assms(1-3) _ w]
  show same: "same_volume fs fs1" and "sized fs1" using all by simp_all
  show "sector fs1 x = sector fs x" if x: "\<not> in_fat fs x" for x
  proof -
    have "\<forall>k. 0 \<le> k \<and> k < 0 + ?n \<longrightarrow> x \<noteq> ?lba k" using copy_in_fat [OF assms(1,3)] x by auto
    then show ?thesis using all by simp
  qed
  show "fat_val fs1 c' = (if c' = c then fat_mask fs v else fat_val fs c')" if ok: ok and c': "c' < max_cluster fs"
  proof -
    obtain m where m: "?n = Suc m" using volume_facts(2) [OF assms(1)] by (cases ?n) auto
    obtain fs2 fs3 where r: "read_sector dev (?lba 0) fs = (True, fs2)"
        and w1: "write_sector dev (?lba 0) (fs2\<lparr>sector_buf := put_entry fs c v (sector_buf fs2)\<rparr>) = (True, fs3)"
        and rest: "write_copies dev c v 1 m fs3 = (True, fs1)"
      using w ok unfolding m by (auto simp: Let_def split: prod.splits if_splits)
    note one = write_copy_result [OF assms(1-3) volume_facts(2) [OF assms(1)] refl r w1]
    have "same_volume fs3 fs1 \<and> sized fs1 \<and>
        (\<forall>x. (\<forall>k. 1 \<le> k \<and> k < 1 + m \<longrightarrow> x \<noteq> fat_start_lba fs3 + of_nat k * sectors_per_fat fs3 + entry_sector fs3 c)
          \<longrightarrow> sector fs1 x = sector fs3 x)"
      using one(1,2) assms(1,3) m rest by (intro write_copies_result) (simp_all add: same_volume_ok same_geometry)
    then have keep: "sector fs1 x = sector fs3 x" if "\<forall>k. 1 \<le> k \<and> k < 1 + m \<longrightarrow> x \<noteq> ?lba k" for x
      using that unfolding same_geometry [OF one(1)] by blast
    let ?l' = "fat_start_lba fs + entry_sector fs c'"
    have place': "unat ?l' = unat (fat_start_lba fs) + unat (entry_sector fs c')"
      using copy_place [OF assms(1) c' volume_facts(2) [OF assms(1)]] by simp
    have "?l' \<noteq> ?lba k" if k: "1 \<le> k" "k < 1 + m" for k
    proof -
      have "k < ?n" using k m by simp
      then have "unat (?lba k) = unat (fat_start_lba fs) + k * unat (sectors_per_fat fs) + unat (entry_sector fs c)"
        by (rule copy_place [OF assms(1,3)])
      moreover have "unat (sectors_per_fat fs) \<le> k * unat (sectors_per_fat fs)" using k(1) by simp
      ultimately have "unat ?l' < unat (?lba k)" using place' entry_place(3) [OF assms(1) c'] by linarith
      then show ?thesis by (metis less_irrefl)
    qed
    then have s1: "sector fs1 ?l' = sector fs3 ?l'" by (intro keep) blast
    have len: "length (sector fs (?lba 0)) = unat (bytes_per_sector fs)" using assms(2) by (simp add: sized_def)
    have val: "fat_val fs1 c' = entry_value fs c' (sector fs3 ?l')"
      using s1 by (simp add: fat_val_value same_geometry [OF same] same_entry_value [OF same])
    show ?thesis
    proof (cases "entry_sector fs c' = entry_sector fs c")
      case True
      then have s3: "sector fs3 ?l' = put_entry fs c v (sector fs ?l')" using one(4) by simp
      have l2: "length (sector fs ?l') = unat (bytes_per_sector fs)" using assms(2) by (simp add: sized_def)
      show ?thesis
        unfolding val s3 using entry_value_put(1) [OF assms(1,3) l2] entry_value_put(3) [OF assms(1,3) l2 c' _ True]
        by (cases "c' = c") (simp_all add: fat_val_value)
    next
      case False
      then have "?l' \<noteq> ?lba 0" by simp
      then show ?thesis unfolding val using one(3) False by (auto simp: fat_val_value)
    qed
  qed
qed

end

section \<open>Allocation\<close>

lemma eoc_mask: "volume_ok fs \<Longrightarrow> fat_mask fs (eoc_value fs) = eoc_value fs"
  using volume_facts(1) [of fs] by (auto simp: fat_mask_def eoc_value_def)

lemma eoc_nonzero: "eoc_value fs \<noteq> 0"
  by (simp add: eoc_value_def)

lemma eoc_invalid: "volume_ok fs \<Longrightarrow> \<not> is_valid_cluster fs (eoc_value fs)"
  using volume_facts(1,12) [of fs] by (auto simp: is_valid_cluster_def eoc_value_def word_less_nat_alt)

lemma cluster_mask:
  assumes "volume_ok fs" "c < max_cluster fs"
  shows "fat_mask fs c = c"
proof (cases "fat_type fs = 32")
  case True
  have "unat c < 2 ^ 28" using assms volume_facts(12) [OF assms(1)] True by (simp add: word_less_nat_alt)
  then have "unat (take_bit 28 c) = unat c" by (simp only: unsigned_take_bit_eq take_bit_nat_eq_self)
  then have "take_bit 28 c = c" by (simp add: word_unat_eq_iff)
  moreover have m: "(0x0FFFFFFF :: u32) = mask 28" by (simp add: mask_eq_exp_minus_1)
  have "and c 0x0FFFFFFF = take_bit 28 c" unfolding m take_bit_eq_mask ..
  ultimately show ?thesis using True by (simp add: fat_mask_def)
next
  case False
  have "unat c < 2 ^ 16" using assms volume_facts(12) [OF assms(1)] False by (simp add: word_less_nat_alt)
  then have "unat (ucast c :: u16) = unat c" by (simp add: unat_ucast_small)
  then have "unat (ucast (ucast c :: u16) :: u32) = unat c" using unat_u16_less [of "ucast c"] by (simp add: unat_ucast_small)
  then show ?thesis using False by (simp add: fat_mask_def word_unat_eq_iff)
qed

text \<open>A list of clusters linked in the table, the last one marked as the end.\<close>

context block_store begin

fun chain :: "'d fat32_fs \<Rightarrow> u32 list \<Rightarrow> bool" where
  "chain fs [] = True"
| "chain fs [c] = (fat_val fs c = eoc_value fs)"
| "chain fs (c # d # cs) = (fat_val fs c = d \<and> chain fs (d # cs))"

text \<open>What an operation that works on the table leaves alone.\<close>

definition table_only :: "'d fat32_fs \<Rightarrow> 'd fat32_fs \<Rightarrow> bool" where
  "table_only fs fs1 \<longleftrightarrow> same_volume fs fs1 \<and> sized fs1 \<and> (\<forall>x. \<not> in_fat fs x \<longrightarrow> sector fs1 x = sector fs x)"

lemma table_only_refl: "sized fs \<Longrightarrow> table_only fs fs"
  by (simp add: table_only_def)

lemma table_only_trans: "table_only fs fs1 \<Longrightarrow> table_only fs1 fs2 \<Longrightarrow> table_only fs fs2"
  unfolding table_only_def using same_volume_trans same_in_fat by metis

lemma table_only_read:
  assumes "fat_read_entry dev c fs = (v, fs1)" "sized fs"
  shows "table_only fs fs1"
proof -
  note r = fat_read_entry_result [OF assms(1)]
  obtain ok fs2 where r2: "read_sector dev (fat_start_lba fs + entry_sector fs c) fs = (ok, fs2)" by fastforce
  have "fs1 = fs2" using assms(1) r2 by (auto simp: fat_read_entry_def Let_def split: if_splits)
  then have "sized fs1" using read_sector_sized [OF r2 assms(2)] by simp
  then show ?thesis using r(1,2) by (simp add: table_only_def)
qed

lemma table_only_write:
  assumes "fat_write_entry dev c v fs = (ok, fs1)" "volume_ok fs" "sized fs" "c < max_cluster fs"
  shows "table_only fs fs1"
  using fat_write_entry_result(1,2,3) [OF assms(2-4,1)] by (simp add: table_only_def)

lemma fat_val_same_sectors:
  assumes "same_volume fs fs1" "sector fs1 = sector fs"
  shows "fat_val fs1 = fat_val fs"
  by (rule ext) (simp add: fat_val_value same_geometry [OF assms(1)] same_entry_value [OF assms(1)] assms(2))

lemma alloc_from_result:
  assumes "volume_ok fs" "sized fs" "alloc_from dev c fs = (r, fs1)"
  shows "table_only fs fs1 \<and> (r \<noteq> 0 \<longrightarrow> c \<le> r \<and> r < max_cluster fs \<and> fat_val fs r = 0 \<and>
    (\<forall>c' < max_cluster fs. fat_val fs1 c' = (if c' = r then eoc_value fs else fat_val fs c')))"
  using assms
proof (induction "unat (max_cluster fs) - unat c" arbitrary: c fs rule: less_induct)
  case less
  note prems = less.prems
  show ?case
  proof (cases "c < max_cluster fs")
    case False
    then show ?thesis using prems by (simp add: alloc_from.simps [of _ c fs] table_only_refl)
  next
    case True
    obtain v fs2 where r: "fat_read_entry dev c fs = (v, fs2)" by fastforce
    note rr = fat_read_entry_result [OF r] and t = table_only_read [OF r prems(2)]
    have same: "fat_val fs2 = fat_val fs" using rr(1,2) by (rule fat_val_same_sectors)
    have ok2: "volume_ok fs2" "sized fs2" using prems(1) t by (auto simp: table_only_def dest: same_volume_ok)
    show ?thesis
    proof (cases "v = 0")
      case False
      have "alloc_from dev (c + 1) fs2 = (r, fs1)" using prems(3) r True False by (simp add: alloc_from.simps [of _ c fs])
      then have ih: "table_only fs2 fs1 \<and> (r \<noteq> 0 \<longrightarrow> c + 1 \<le> r \<and> r < max_cluster fs2 \<and> fat_val fs2 r = 0 \<and>
          (\<forall>c' < max_cluster fs2. fat_val fs1 c' = (if c' = r then eoc_value fs2 else fat_val fs2 c')))"
        using ok2 True word_less_Suc_unat [OF True]
        by (intro less.hyps) (simp_all add: same_geometry [OF rr(1)] word_less_nat_alt)
      moreover have "c \<le> c + 1" using word_less_Suc_unat [OF True] by (simp add: word_le_nat_alt)
      ultimately show ?thesis
        using table_only_trans [OF t] same unfolding same_geometry [OF rr(1)] by auto
    next
      case zero: True
      have free: "fat_val fs c = 0" using rr(3) zero eoc_nonzero [of fs] by auto
      obtain ok fs3 where w: "fat_write_entry dev c (eoc_value fs2) fs2 = (ok, fs3)" by fastforce
      have c2: "c < max_cluster fs2" using True by (simp add: same_geometry [OF rr(1)])
      note ww = fat_write_entry_result [OF ok2 c2 w] and t2 = table_only_write [OF w ok2 c2]
      have fs1: "fs1 = fs3" "r = (if ok then c else 0)"
        using prems(3) r True zero w by (auto simp: alloc_from.simps [of _ c fs] split: if_splits)
      have "fat_val fs3 c' = (if c' = c then eoc_value fs else fat_val fs c')" if "ok" "c' < max_cluster fs" for c'
        using ww(4) [of c'] that eoc_mask [OF ok2(1)] same by (simp add: same_geometry [OF rr(1)])
      then show ?thesis using fs1 free True table_only_trans [OF t t2] by auto
    qed
  qed
qed

end

context block_store begin

lemma chain_cong: "(\<And>c. c \<in> set cs \<Longrightarrow> fat_val fs1 c = fat_val fs c) \<Longrightarrow> eoc_value fs1 = eoc_value fs \<Longrightarrow> chain fs1 cs = chain fs cs"
proof (induction cs rule: induct_list012)
  case (3 c d cs)
  then show ?case by simp
qed auto

definition free_in :: "'d fat32_fs \<Rightarrow> u32 set" where
  "free_in fs = {c. 2 \<le> c \<and> c < max_cluster fs \<and> fat_val fs c = 0}"

lemma fat_alloc_result:
  assumes "volume_ok fs" "sized fs" "fat_alloc_cluster dev fs = (r, fs1)"
  shows "table_only fs fs1" "r \<noteq> 0 \<Longrightarrow> r \<in> free_in fs"
    "r \<noteq> 0 \<Longrightarrow> c < max_cluster fs \<Longrightarrow> fat_val fs1 c = (if c = r then eoc_value fs else fat_val fs c)"
  using alloc_from_result [OF assms(1,2), of 2 r fs1] assms(3) by (auto simp: fat_alloc_cluster_def free_in_def)

lemma table_only_facts:
  assumes "table_only fs fs1" "volume_ok fs"
  shows "same_volume fs fs1" "sized fs1" "volume_ok fs1" "max_cluster fs1 = max_cluster fs" "eoc_value fs1 = eoc_value fs"
  using assms by (auto simp: table_only_def same_geometry dest: same_volume_ok)

text \<open>
  Allocation of \<open>n\<close> clusters behind \<open>prev\<close>: those that were free get linked, no other entry changes.
\<close>

lemma alloc_chain_result:
  assumes "volume_ok fs" "sized fs" "alloc_chain dev n first prev fs = (True, first1, fs1)" "prev = 0 \<longleftrightarrow> first = 0"
    and "prev \<noteq> 0 \<Longrightarrow> 2 \<le> prev \<and> prev < max_cluster fs \<and> fat_val fs prev = eoc_value fs"
  shows "\<exists>cs. length cs = n \<and> distinct cs \<and> set cs \<subseteq> free_in fs \<and>
    first1 = (if first = 0 then (if cs = [] then 0 else hd cs) else first) \<and>
    chain fs1 (if prev = 0 then cs else prev # cs) \<and> table_only fs fs1 \<and>
    (\<forall>c < max_cluster fs. c \<notin> set cs \<and> c \<noteq> prev \<longrightarrow> fat_val fs1 c = fat_val fs c)"
  using assms
proof (induction n arbitrary: first prev fs)
  case 0
  then show ?case by (auto simp: table_only_refl)
next
  case (Suc n)
  obtain c fs2 where a: "fat_alloc_cluster dev fs = (c, fs2)" by fastforce
  note al = fat_alloc_result [OF Suc.prems(1,2) a]
  note t = table_only_facts [OF al(1) Suc.prems(1)]
  have c0: "c \<noteq> 0" using Suc.prems(3) a by (auto split: if_splits)
  then have c: "c \<in> free_in fs" by (rule al(2))
  then have cb: "2 \<le> c" "c < max_cluster fs" by (simp_all add: free_in_def)
  define first2 where "first2 = (if first = 0 then c else first)"
  have first2: "first2 \<noteq> 0" using c0 by (simp add: first2_def)
  show ?case
  proof (cases "prev = 0")
    case True
    have "alloc_chain dev n first2 c fs2 = (True, first1, fs1)"
      using Suc.prems(3) a c0 True by (simp add: first2_def)
    then obtain cs where cs: "length cs = n" "distinct cs" "set cs \<subseteq> free_in fs2" "first1 = first2" "chain fs1 (c # cs)"
        "table_only fs2 fs1" "\<forall>x < max_cluster fs2. x \<notin> set cs \<and> x \<noteq> c \<longrightarrow> fat_val fs1 x = fat_val fs2 x"
      using Suc.IH [OF t(3,2), of first2 c] cb c0 first2 al(3) t(4,5) by (auto simp: free_in_def)
    have sub: "set cs \<subseteq> free_in fs - {c}"
    proof
      fix x
      assume "x \<in> set cs"
      then have x: "2 \<le> x" "x < max_cluster fs" "fat_val fs2 x = 0" using cs(3) t(4) by (auto simp: free_in_def)
      then show "x \<in> free_in fs - {c}"
        using al(3) [OF c0 x(2)] eoc_nonzero [of fs] by (auto simp: free_in_def split: if_splits)
    qed
    show ?thesis
    proof (intro exI [of _ "c # cs"] conjI)
      show "\<forall>x < max_cluster fs. x \<notin> set (c # cs) \<and> x \<noteq> prev \<longrightarrow> fat_val fs1 x = fat_val fs x"
        using cs(7) al(3) [OF c0] t(4) by auto
      show "table_only fs fs1" using al(1) cs(6) by (rule table_only_trans)
      show "first1 = (if first = 0 then if c # cs = [] then 0 else hd (c # cs) else first)"
        using cs(4) by (simp add: first2_def)
    qed (use cs sub c True in auto)
  next
    case False
    have p: "2 \<le> prev" "prev < max_cluster fs" "fat_val fs prev = eoc_value fs" using Suc.prems(5) False by auto
    have pc: "prev \<noteq> c" using p(3) c eoc_nonzero [of fs] by (auto simp: free_in_def)
    have pm: "prev < max_cluster fs2" using p(2) t(4) by simp
    obtain fs3 where w: "fat_write_entry dev prev c fs2 = (True, fs3)"
        and rest: "alloc_chain dev n first2 c fs3 = (True, first1, fs1)"
      using Suc.prems(3) a c0 False by (auto simp: first2_def split: prod.splits if_splits)
    note ww = fat_write_entry_result [OF t(3,2) pm w]
    have t3: "table_only fs2 fs3" using w t(3,2) pm by (rule table_only_write)
    note t3' = table_only_facts [OF t3 t(3)]
    have val3: "fat_val fs3 x = (if x = prev then c else if x = c then eoc_value fs else fat_val fs x)" if "x < max_cluster fs" for x
      using ww(4) [of x] that t(4) cluster_mask [OF t(3), of c] cb al(3) [OF c0 that] pc by simp
    obtain cs where cs: "length cs = n" "distinct cs" "set cs \<subseteq> free_in fs3" "first1 = first2" "chain fs1 (c # cs)"
        "table_only fs3 fs1" "\<forall>x < max_cluster fs3. x \<notin> set cs \<and> x \<noteq> c \<longrightarrow> fat_val fs1 x = fat_val fs3 x"
      using Suc.IH [OF t3'(3,2) rest] cb c0 first2 val3 t(4,5) t3'(4,5) pc by (auto simp: first2_def)
    have sub: "set cs \<subseteq> free_in fs - {c, prev}"
    proof
      fix x
      assume "x \<in> set cs"
      then have x: "2 \<le> x" "x < max_cluster fs" "fat_val fs3 x = 0" using cs(3) t(4) t3'(4) by (auto simp: free_in_def)
      then show "x \<in> free_in fs - {c, prev}"
        using val3 [OF x(2)] c0 eoc_nonzero [of fs] by (auto simp: free_in_def split: if_splits)
    qed
    have "fat_val fs1 prev = c" using cs(7) sub p(2) pc t(4) t3'(4) val3 [OF p(2)] by auto
    then have ch: "chain fs1 (prev # c # cs)" using cs(5) by simp
    show ?thesis
    proof (intro exI [of _ "c # cs"] conjI)
      show "\<forall>x < max_cluster fs. x \<notin> set (c # cs) \<and> x \<noteq> prev \<longrightarrow> fat_val fs1 x = fat_val fs x"
        using cs(7) val3 t(4) t3'(4) by auto
      show "table_only fs fs1" using al(1) t3 cs(6) table_only_trans by blast
      show "first1 = (if first = 0 then if c # cs = [] then 0 else hd (c # cs) else first)"
        using cs(4) by (simp add: first2_def)
    qed (use cs sub c False ch in auto)
  qed
qed

end

section \<open>Where the data of a cluster lies\<close>

lemma cluster_place:
  assumes "volume_ok fs" "is_valid_cluster fs c" "s < unat (sectors_per_cluster fs)"
  shows "unat (cluster_to_lba fs c + of_nat s) =
    unat (data_start_lba fs) + (unat c - 2) * unat (sectors_per_cluster fs) + s"
proof -
  note v = volume_facts [OF assms(1)]
  let ?p = "unat (sectors_per_cluster fs)"
  have c: "2 \<le> unat c" "unat c < unat (max_cluster fs)"
    using assms(2) by (simp_all add: is_valid_cluster_def word_le_nat_alt word_less_nat_alt)
  have "(unat c - 2 + 1) * ?p \<le> (unat (max_cluster fs) - 2) * ?p" using c by (intro mult_le_mono1) simp
  then have lim: "unat (data_start_lba fs) + ((unat c - 2) * ?p + ?p) \<le> 2 ^ 32" using v(9) by simp
  have c2: "unat (c - 2) = unat c - 2" using c(1) by (subst unat_sub) (simp_all add: word_le_nat_alt)
  have p: "unat (ucast (sectors_per_cluster fs) :: u32) = ?p"
    using unat_u8_less [of "sectors_per_cluster fs"] by (simp add: unat_ucast_small)
  have prod: "unat ((c - 2) * ucast (sectors_per_cluster fs)) = (unat c - 2) * ?p"
    using lim v(3) by (subst unat_mult_u32) (simp_all add: c2 p)
  have base: "unat (cluster_to_lba fs c) = unat (data_start_lba fs) + (unat c - 2) * ?p"
    using lim v(3) unfolding cluster_to_lba_def by (subst unat_add_u32) (simp_all add: prod)
  have s: "unat (of_nat s :: u32) = s"
    using assms(3) unat_u8_less [of "sectors_per_cluster fs"] by (intro unat_of_nat_small) simp
  show ?thesis using lim assms(3) by (subst unat_add_u32) (simp_all add: base s)
qed

lemma cluster_sectors_mem:
  assumes "volume_ok fs" "is_valid_cluster fs c"
  shows "x \<in> set (cluster_sectors fs c) \<longleftrightarrow>
    unat (data_start_lba fs) + (unat c - 2) * unat (sectors_per_cluster fs) \<le> unat x \<and>
    unat x < unat (data_start_lba fs) + (unat c - 1) * unat (sectors_per_cluster fs)"
proof -
  let ?p = "unat (sectors_per_cluster fs)" and ?d = "unat (data_start_lba fs) + (unat c - 2) * unat (sectors_per_cluster fs)"
  have c: "2 \<le> unat c" using assms(2) by (simp add: is_valid_cluster_def word_le_nat_alt)
  then have "(unat c - 1) * ?p = (unat c - 2) * ?p + ?p" by (simp add: Suc_diff_le flip: mult_Suc_right) (simp add: algebra_simps diff_mult_distrib)
  then have e: "unat (data_start_lba fs) + (unat c - 1) * ?p = ?d + ?p" by simp
  have "x \<in> set (cluster_sectors fs c) \<longleftrightarrow> (\<exists>s < ?p. x = cluster_to_lba fs c + of_nat s)"
    by (auto simp: cluster_sectors_def)
  also have "\<dots> \<longleftrightarrow> (\<exists>s < ?p. unat x = ?d + s)"
    using cluster_place [OF assms] by (metis word_unat_eq_iff)
  also have "\<dots> \<longleftrightarrow> ?d \<le> unat x \<and> unat x < ?d + ?p"
    by (auto intro!: exI [of _ "unat x - ?d"])
  finally show ?thesis by (simp only: e)
qed

lemma distinct_cluster_sectors:
  assumes "volume_ok fs" "is_valid_cluster fs c"
  shows "distinct (cluster_sectors fs c)"
proof -
  have "inj_on (\<lambda>s. cluster_to_lba fs c + of_nat s) {0..<unat (sectors_per_cluster fs)}"
    by (rule inj_onI) (use cluster_place [OF assms] in \<open>metis add_left_cancel atLeastLessThan_iff\<close>)
  then show ?thesis by (simp add: cluster_sectors_def distinct_map)
qed

lemma clusters_apart:
  assumes "volume_ok fs" "is_valid_cluster fs c" "is_valid_cluster fs c'" "c \<noteq> c'"
  shows "set (cluster_sectors fs c) \<inter> set (cluster_sectors fs c') = {}"
proof -
  let ?p = "unat (sectors_per_cluster fs)"
  have two: "2 \<le> unat c" "2 \<le> unat c'" using assms(2,3) by (simp_all add: is_valid_cluster_def word_le_nat_alt)
  have "unat c \<noteq> unat c'" using assms(4) word_unat_eq_iff by blast
  then consider "unat c - 1 \<le> unat c' - 2" | "unat c' - 1 \<le> unat c - 2" using two by linarith
  then show ?thesis
  proof cases
    case 1
    then have "(unat c - 1) * ?p \<le> (unat c' - 2) * ?p" by (rule mult_le_mono1)
    then have "False" if "x \<in> set (cluster_sectors fs c)" "x \<in> set (cluster_sectors fs c')" for x
      using that unfolding cluster_sectors_mem [OF assms(1,2)] cluster_sectors_mem [OF assms(1,3)] by linarith
    then show ?thesis by blast
  next
    case 2
    then have "(unat c' - 1) * ?p \<le> (unat c - 2) * ?p" by (rule mult_le_mono1)
    then have "False" if "x \<in> set (cluster_sectors fs c)" "x \<in> set (cluster_sectors fs c')" for x
      using that unfolding cluster_sectors_mem [OF assms(1,2)] cluster_sectors_mem [OF assms(1,3)] by linarith
    then show ?thesis by blast
  qed
qed

lemma data_not_fat:
  assumes "volume_ok fs" "is_valid_cluster fs c" "x \<in> set (cluster_sectors fs c)"
  shows "\<not> in_fat fs x" "unat (data_start_lba fs) \<le> unat x"
  using cluster_sectors_mem [OF assms(1,2), of x] assms(3) volume_facts(7,8) [OF assms(1)]
  by (auto simp: in_fat_def)

end
