(* ===== verification/Fat32_File.thy ===== *)
theory Fat32_File
  imports Fat32_Table
begin

text \<open>
  Files on a volume: the data of a cluster chain, the root directory, the new directory entry, and what
  \<open>fat32_write_file\<close> and \<open>fat32_read_file\<close> do with them, again for every disk of the interface.
\<close>

section \<open>The data of a file\<close>

context block_store begin

text \<open>Reads of whole blocks succeed.\<close>

definition reliable :: bool where
  "reliable \<longleftrightarrow> (\<forall>lba buf d. buf \<noteq> [] \<and> length buf = length (content d lba) \<and> length buf < 2 ^ 32 \<longrightarrow> fst (read_block dev lba buf d))"

lemma reliable_read:
  assumes reliable "sized fs"
  shows "fst (read_sector dev lba fs)"
proof -
  have b: "unat (bytes_per_sector fs) < 2 ^ 32" "0 < unat (bytes_per_sector fs)"
    using assms(2) unat_u32_less by (auto simp: sized_def word_less_nat_alt)
  have "sector_buf fs \<noteq> []" "length (sector_buf fs) = length (content (disk fs) (partition_lba fs + lba))" "length (sector_buf fs) < 2 ^ 32"
    using assms(2) b by (auto simp: sized_def sector_def)
  then have "fst (read_block dev (partition_lba fs + lba) (sector_buf fs) (disk fs))"
    using assms(1) unfolding reliable_def by blast
  then show ?thesis by (auto simp: read_sector_def read_raw_def Let_def split: prod.split)
qed

lemma fat_read_entry_ok:
  assumes "fat_read_entry dev c fs = (v, fs1)" "volume_ok fs"
  shows "v = fat_val fs c \<or> v = eoc_value fs"
proof -
  obtain ok fs2 where r: "read_sector dev (fat_start_lba fs + entry_sector fs c) fs = (ok, fs2)" by fastforce
  show ?thesis
    using assms(1) r fat_read_entry_result(4) [OF assms(1)] volume_facts(1) [OF assms(2)]
    by (cases ok) (auto simp: fat_read_entry_def eoc_value_def)
qed

definition bytes_at :: "'d fat32_fs \<Rightarrow> u32 list \<Rightarrow> u8 list" where
  "bytes_at fs lbas = concat (map (sector fs) lbas)"

lemma length_bytes_at: "sized fs \<Longrightarrow> length (bytes_at fs lbas) = length lbas * unat (bytes_per_sector fs)"
  by (induction lbas) (simp_all add: bytes_at_def sized_def)

lemma bytes_at_cong: "(\<And>x. x \<in> set lbas \<Longrightarrow> sector fs1 x = sector fs x) \<Longrightarrow> bytes_at fs1 lbas = bytes_at fs lbas"
  by (simp add: bytes_at_def cong: map_cong)

lemma write_cluster_result:
  assumes "sized fs" "0 < unat (bytes_per_sector fs)" "distinct lbas" "write_cluster dev lbas src fs = (Some rest, fs1)"
  shows "same_volume fs fs1 \<and> sized fs1 \<and> (\<forall>x. x \<notin> set lbas \<longrightarrow> sector fs1 x = sector fs x) \<and>
    rest = drop (length lbas * unat (bytes_per_sector fs)) src \<and>
    take (min (length src) (length lbas * unat (bytes_per_sector fs))) (bytes_at fs1 lbas) =
      take (length lbas * unat (bytes_per_sector fs)) src"
  using assms
proof (induction lbas arbitrary: src fs)
  case Nil
  then show ?case by simp
next
  case (Cons lba lbas)
  show ?case
  proof (cases "src = []")
    case True
    then show ?thesis using Cons.prems by simp
  next
    case False
    let ?bps = "unat (bytes_per_sector fs)"
    define w where "w = (if length src < ?bps then length src else ?bps)"
    define buf where "buf = (if w < ?bps then put_bytes 0 (replicate ?bps 0) (sector_buf fs) else sector_buf fs)"
    define new where "new = put_bytes 0 (take w src) buf"
    have wle: "w \<le> ?bps" "w \<le> length src" by (simp_all add: w_def)
    have len_buf: "length buf = ?bps" using Cons.prems(1) by (simp add: buf_def sized_def)
    have len_new: "length new = ?bps" using len_buf wle by (simp add: new_def)
    obtain fs2 where wr: "write_sector dev lba (fs\<lparr>sector_buf := new\<rparr>) = (True, fs2)"
        and rest: "write_cluster dev lbas (drop w src) fs2 = (Some rest, fs1)"
      using Cons.prems(4) False
      by (auto simp: Let_def w_def buf_def new_def split: prod.splits if_splits)
    note ws = write_sector_result [OF wr]
    have sz: "sized (fs\<lparr>sector_buf := new\<rparr>)" using Cons.prems(1) len_new by (simp add: sized_def)
    have s2: "sized fs2" using wr sz by (rule write_sector_sized)
    have v2: "same_volume fs fs2" using ws(1) same_volume_buf same_volume_trans by blast
    note ih = Cons.IH [OF s2 _ _ rest, unfolded same_geometry [OF v2]]
    have ih': "same_volume fs2 fs1" "sized fs1" "\<And>x. x \<notin> set lbas \<Longrightarrow> sector fs1 x = sector fs2 x"
      "rest = drop (length lbas * ?bps) (drop w src)"
      "take (min (length (drop w src)) (length lbas * ?bps)) (bytes_at fs1 lbas) = take (length lbas * ?bps) (drop w src)"
      using ih Cons.prems(2,3) by auto
    have here: "sector fs1 lba = new" using ih'(3) [of lba] ws(3) Cons.prems(3) by simp
    have split: "bytes_at fs1 (lba # lbas) = new @ bytes_at fs1 lbas" by (simp add: bytes_at_def here)
    have "rest = drop (length (lba # lbas) * ?bps) src"
    proof (cases "length src < ?bps")
      case True
      then show ?thesis using ih'(4) by (simp add: w_def)
    next
      case False
      then show ?thesis using ih'(4) by (simp add: w_def add.commute)
    qed
    moreover have "take (min (length src) (length (lba # lbas) * ?bps)) (bytes_at fs1 (lba # lbas)) =
        take (length (lba # lbas) * ?bps) src"
    proof (cases "length src < ?bps")
      case True
      then have "w = length src" by (simp add: w_def)
      then have "take (length src) new = src" using wle len_buf by (simp add: new_def put_bytes_def)
      then show ?thesis using True len_new unfolding split by (simp add: min_def)
    next
      case False
      then have w: "w = ?bps" by (simp add: w_def)
      then have new: "new = take ?bps src" using len_buf False by (simp add: new_def put_bytes_def)
      have "min (length src) (length (lba # lbas) * ?bps) = ?bps + min (length (drop w src)) (length lbas * ?bps)"
        using False w by simp
      then have "take (min (length src) (length (lba # lbas) * ?bps)) (bytes_at fs1 (lba # lbas)) =
          new @ take (min (length (drop w src)) (length lbas * ?bps)) (bytes_at fs1 lbas)"
        unfolding split using len_new by simp
      also have "\<dots> = take ?bps src @ take (length lbas * ?bps) (drop ?bps src)" by (simp only: new w ih'(5) [unfolded w])
      also have "\<dots> = take (?bps + length lbas * ?bps) src" by (simp only: take_add)
      finally show ?thesis by simp
    qed
    moreover have "\<forall>x. x \<notin> set (lba # lbas) \<longrightarrow> sector fs1 x = sector fs x" using ih'(3) ws(2) by simp
    ultimately show ?thesis using same_volume_trans [OF v2 ih'(1)] ih'(2) by blast
  qed
qed

lemma read_cluster_result:
  assumes "sized fs" reliable
  shows "\<exists>fs1. read_cluster dev lbas remaining dst fs =
      (Some (remaining - length lbas * unat (bytes_per_sector fs), dst @ take remaining (bytes_at fs lbas)), fs1) \<and>
    same_volume fs fs1 \<and> sized fs1 \<and> sector fs1 = sector fs"
  using assms(1)
proof (induction lbas arbitrary: remaining dst fs)
  case Nil
  then show ?case by (simp add: bytes_at_def)
next
  case (Cons lba lbas)
  show ?case
  proof (cases "remaining = 0")
    case True
    then show ?thesis using Cons.prems by simp
  next
    case False
    let ?bps = "unat (bytes_per_sector fs)"
    obtain fs2 where r: "read_sector dev lba fs = (True, fs2)"
      using reliable_read [OF assms(2) Cons.prems, of lba] by (cases "read_sector dev lba fs") auto
    note rr = read_sector_result [OF r] and s2 = read_sector_sized [OF r Cons.prems]
    define w where "w = (if remaining < ?bps then remaining else ?bps)"
    obtain fs1 where ih: "read_cluster dev lbas (remaining - w) (dst @ take w (sector fs lba)) fs2 =
          (Some (remaining - w - length lbas * ?bps, (dst @ take w (sector fs lba)) @ take (remaining - w) (bytes_at fs lbas)), fs1)"
        "same_volume fs2 fs1" "sized fs1" "sector fs1 = sector fs2"
      using Cons.IH [OF s2, of "remaining - w" "dst @ take w (sector fs lba)"] rr(2)
      by (auto simp: same_geometry [OF rr(1)] bytes_at_def)
    have len: "length (sector fs lba) = ?bps" using Cons.prems by (simp add: sized_def)
    have "take w (sector fs lba) @ take (remaining - w) (bytes_at fs lbas) = take remaining (bytes_at fs (lba # lbas))"
      using len by (auto simp: w_def bytes_at_def)
    moreover have "remaining - w - length lbas * ?bps = remaining - length (lba # lbas) * ?bps" by (auto simp: w_def)
    moreover have "read_cluster dev (lba # lbas) remaining dst fs =
        read_cluster dev lbas (remaining - w) (dst @ take w (sector fs lba)) fs2"
      using r False rr(3) by (simp add: Let_def w_def same_geometry [OF rr(1)])
    ultimately have "read_cluster dev (lba # lbas) remaining dst fs =
        (Some (remaining - length (lba # lbas) * ?bps, dst @ take remaining (bytes_at fs (lba # lbas))), fs1)"
      using ih(1) by (simp only: append_assoc)
    then show ?thesis using ih(2-4) rr(1,2) same_volume_trans by metis
  qed
qed

definition cluster_bytes :: "'d fat32_fs \<Rightarrow> u32 \<Rightarrow> u8 list" where
  "cluster_bytes fs c = bytes_at fs (cluster_sectors fs c)"

definition cluster_len :: "'d fat32_fs \<Rightarrow> nat" where
  "cluster_len fs = unat (sectors_per_cluster fs) * unat (bytes_per_sector fs)"

lemma length_cluster_bytes: "sized fs \<Longrightarrow> length (cluster_bytes fs c) = cluster_len fs"
  by (simp add: cluster_bytes_def length_bytes_at cluster_len_def cluster_sectors_def)

definition file_sectors :: "'d fat32_fs \<Rightarrow> u32 list \<Rightarrow> u32 set" where
  "file_sectors fs cs = (\<Union>c \<in> set cs. set (cluster_sectors fs c))"

end

lemma take_split:
  assumes "length a = n" "take (min (length src) n) a = take n src" "take (length (drop n src)) b = drop n src"
  shows "take (length src) (a @ b) = src"
proof (cases "length src \<le> n")
  case True
  then show ?thesis using assms by (simp add: min_def)
next
  case False
  then have "a = take n src" using assms(1,2) by simp
  then show ?thesis using False assms(1,3) by simp
qed

context block_store begin

lemma same_volume_cluster: "same_volume fs fs1 \<Longrightarrow> cluster_len fs1 = cluster_len fs"
  by (simp add: cluster_len_def same_geometry)

lemma cluster_bytes_cong:
  assumes "same_volume fs fs1" "\<And>x. x \<in> set (cluster_sectors fs c) \<Longrightarrow> sector fs1 x = sector fs x"
  shows "cluster_bytes fs1 c = cluster_bytes fs c"
  unfolding cluster_bytes_def same_geometry [OF assms(1)] using assms(2) by (rule bytes_at_cong)

lemma write_one_cluster:
  assumes "volume_ok fs" "sized fs" "is_valid_cluster fs c" "src \<noteq> []"
    and "write_clusters dev (Suc m) c src fs = (Some rest, fs1)"
  obtains v fs3 where "same_volume fs fs3" "sized fs3" "\<And>x. x \<notin> set (cluster_sectors fs c) \<Longrightarrow> sector fs3 x = sector fs x"
    "take (min (length src) (cluster_len fs)) (cluster_bytes fs3 c) = take (cluster_len fs) src"
    "v = fat_val fs c \<or> v = eoc_value fs" "write_clusters dev m v (drop (cluster_len fs) src) fs3 = (Some rest, fs1)"
proof -
  obtain rest1 fs2 v fs3 where w: "write_cluster dev (cluster_sectors fs c) src fs = (Some rest1, fs2)"
      and r: "fat_read_entry dev c fs2 = (v, fs3)" and t: "write_clusters dev m v rest1 fs3 = (Some rest, fs1)"
    using assms(3-5) by (auto simp: Let_def split: prod.splits option.splits)
  note f = volume_facts [OF assms(1)]
  have len: "length (cluster_sectors fs c) * unat (bytes_per_sector fs) = cluster_len fs"
    by (simp add: cluster_len_def cluster_sectors_def)
  have pos: "0 < unat (bytes_per_sector fs)" using f(4) by simp
  note wr = write_cluster_result [OF assms(2) pos distinct_cluster_sectors [OF assms(1,3)] w, unfolded len]
  have v2: "same_volume fs fs2" "sized fs2" and out: "\<And>x. x \<notin> set (cluster_sectors fs c) \<Longrightarrow> sector fs2 x = sector fs x"
    and rest1: "rest1 = drop (cluster_len fs) src"
    and written: "take (min (length src) (cluster_len fs)) (bytes_at fs2 (cluster_sectors fs c)) = take (cluster_len fs) src"
    using wr by blast+
  have ok2: "volume_ok fs2" using assms(1) v2(1) by (simp add: same_volume_ok)
  note rr = fat_read_entry_result [OF r] and t3 = table_only_read [OF r v2(2)]
  have v3: "same_volume fs fs3" using v2(1) rr(1) by (rule same_volume_trans)
  have c: "c < max_cluster fs" using assms(3) by (simp add: is_valid_cluster_def)
  have "fat_val fs2 c = fat_val fs c"
  proof (rule fat_val_cong [OF v2(1) assms(1) c])
    fix x
    assume "in_fat fs x"
    then show "sector fs2 x = sector fs x" using data_not_fat(1) [OF assms(1,3)] out by blast
  qed
  then have v: "v = fat_val fs c \<or> v = eoc_value fs"
    using fat_read_entry_ok [OF r ok2] by (simp add: same_geometry [OF v2(1)])
  show thesis
  proof (rule that)
    show "same_volume fs fs3" by (rule v3)
    show "sized fs3" using t3 by (simp add: table_only_def)
    show "\<And>x. x \<notin> set (cluster_sectors fs c) \<Longrightarrow> sector fs3 x = sector fs x" using rr(2) out by simp
    show "take (min (length src) (cluster_len fs)) (cluster_bytes fs3 c) = take (cluster_len fs) src"
      using written unfolding cluster_bytes_def same_geometry [OF v3] by (simp add: bytes_at_def rr(2))
    show "v = fat_val fs c \<or> v = eoc_value fs" by (rule v)
    show "write_clusters dev m v (drop (cluster_len fs) src) fs3 = (Some rest, fs1)" using t rest1 by simp
  qed
qed

lemma write_clusters_result:
  assumes "volume_ok fs" "sized fs" "chain fs cs" "distinct cs" "\<forall>x \<in> set cs. is_valid_cluster fs x"
    and "cs = [] \<and> \<not> is_valid_cluster fs c \<or> cs \<noteq> [] \<and> c = hd cs"
    and "length src \<le> n" "write_clusters dev n c src fs = (Some rest, fs1)"
  shows "same_volume fs fs1 \<and> sized fs1 \<and> (\<forall>x. x \<notin> file_sectors fs cs \<longrightarrow> sector fs1 x = sector fs x) \<and>
    (rest = [] \<longrightarrow> take (length src) (concat (map (cluster_bytes fs1) cs)) = src)"
  using assms
proof (induction cs arbitrary: c src n fs)
  case Nil
  then have "rest = src" "fs1 = fs" by (cases n; simp)+
  then show ?case using Nil.prems(2) by simp
next
  case (Cons c' cs)
  have c': "c' = c" using Cons.prems(6) by simp
  note prems = Cons.prems [unfolded c']
  show ?case
  proof (cases "src = []")
    case True
    then have "rest = src" "fs1 = fs" using prems(8) by (cases n; simp)+
    then show ?thesis using prems(2) True by simp
  next
    case False
    then obtain m where n: "n = Suc m" using prems(7) by (cases n) auto
    have val: "is_valid_cluster fs c" using prems(5) by simp
    obtain v fs3 where one: "same_volume fs fs3" "sized fs3" "\<And>x. x \<notin> set (cluster_sectors fs c) \<Longrightarrow> sector fs3 x = sector fs x"
        "take (min (length src) (cluster_len fs)) (cluster_bytes fs3 c) = take (cluster_len fs) src"
        "v = fat_val fs c \<or> v = eoc_value fs" "write_clusters dev m v (drop (cluster_len fs) src) fs3 = (Some rest, fs1)"
      using write_one_cluster [OF prems(1,2) val False prems(8) [unfolded n]] by metis
    have ok3: "volume_ok fs3" using prems(1) one(1) by (simp add: same_volume_ok)
    have fat3: "fat_val fs3 x = fat_val fs x" if "is_valid_cluster fs x" for x
      using that data_not_fat(1) [OF prems(1) val] one(3)
      by (intro fat_val_cong [OF one(1) prems(1)]) (auto simp: is_valid_cluster_def)
    have ch3: "chain fs3 cs"
    proof -
      have "chain fs cs" using prems(3) by (cases cs) simp_all
      moreover have "chain fs3 cs = chain fs cs"
        using prems(5) fat3 by (intro chain_cong) (simp_all add: same_geometry [OF one(1)])
      ultimately show ?thesis by simp
    qed
    have pos: "0 < cluster_len fs" using volume_facts(3,4) [OF prems(1)] by (simp add: cluster_len_def)
    have lm: "length (drop (cluster_len fs) src) \<le> m" using prems(7) n pos by simp
    have rest: "same_volume fs3 fs1 \<and> sized fs1 \<and> (\<forall>x. x \<notin> file_sectors fs3 cs \<longrightarrow> sector fs1 x = sector fs3 x) \<and>
        (rest = [] \<longrightarrow> take (length (drop (cluster_len fs) src)) (concat (map (cluster_bytes fs1) cs)) = drop (cluster_len fs) src)"
    proof (cases "is_valid_cluster fs v")
      case True
      then have v: "v = fat_val fs c" using one(5) eoc_invalid [OF prems(1)] by auto
      have "cs \<noteq> []" using prems(3) v True eoc_invalid [OF prems(1)] by (cases cs) auto
      moreover from this have "hd cs = v" using prems(3) v by (cases cs) auto
      ultimately have start: "cs = [] \<and> \<not> is_valid_cluster fs3 v \<or> cs \<noteq> [] \<and> v = hd cs" by simp
      have d: "distinct cs" "\<forall>x \<in> set cs. is_valid_cluster fs3 x" using prems(4,5) by (simp_all add: same_geometry [OF one(1)])
      show ?thesis by (rule Cons.IH [OF ok3 one(2) ch3 d start lm one(6)])
    next
      case False
      then have "\<not> is_valid_cluster fs3 v" by (simp add: same_geometry [OF one(1)])
      then have "rest = drop (cluster_len fs) src" "fs1 = fs3" using one(6) by (cases m; simp)+
      then show ?thesis using one(2) by simp
    qed
    have keep: "cluster_bytes fs1 c = cluster_bytes fs3 c"
    proof (rule cluster_bytes_cong)
      show "same_volume fs3 fs1" using rest by simp
      fix x
      assume "x \<in> set (cluster_sectors fs3 c)"
      then have x: "x \<in> set (cluster_sectors fs c)" by (simp add: same_geometry [OF one(1)])
      have "x \<notin> set (cluster_sectors fs d)" if "d \<in> set cs" for d
      proof -
        have "is_valid_cluster fs d" "c \<noteq> d" using prems(4,5) that by auto
        then show ?thesis using clusters_apart [OF prems(1) val] x by blast
      qed
      then have "x \<notin> file_sectors fs3 cs" by (simp add: file_sectors_def same_geometry [OF one(1)])
      then show "sector fs1 x = sector fs3 x" using rest by blast
    qed
    have "take (length src) (concat (map (cluster_bytes fs1) (c # cs))) = src" if "rest = []"
    proof -
      have "length (cluster_bytes fs1 c) = cluster_len fs"
        using length_cluster_bytes [OF one(2), of c] by (simp add: keep same_volume_cluster [OF one(1)])
      moreover have "take (min (length src) (cluster_len fs)) (cluster_bytes fs1 c) = take (cluster_len fs) src"
        using one(4) keep by simp
      moreover have "take (length (drop (cluster_len fs) src)) (concat (map (cluster_bytes fs1) cs)) = drop (cluster_len fs) src"
        using rest that by blast
      ultimately show ?thesis by (simp only: list.map concat.simps) (rule take_split)
    qed
    moreover have "sector fs1 x = sector fs x" if "x \<notin> file_sectors fs (c # cs)" for x
      using that rest one(3) by (simp add: file_sectors_def same_geometry [OF one(1)])
    ultimately show ?thesis using rest same_volume_trans [OF one(1)] unfolding c' by blast
  qed
qed

lemma read_clusters_result:
  assumes "volume_ok fs" "sized fs" reliable "chain fs cs" "\<forall>x \<in> set cs. is_valid_cluster fs x"
    and "cs = [] \<and> \<not> is_valid_cluster fs c \<or> cs \<noteq> [] \<and> c = hd cs"
    and "remaining \<le> n" "remaining \<le> length cs * cluster_len fs"
  shows "\<exists>fs1. read_clusters dev n c remaining dst fs = (Some (dst @ take remaining (concat (map (cluster_bytes fs) cs))), fs1)"
  using assms
proof (induction cs arbitrary: c remaining n dst fs)
  case Nil
  then show ?case by (cases n) simp_all
next
  case (Cons c' cs)
  have c': "c' = c" using Cons.prems(6) by simp
  note prems = Cons.prems [unfolded c']
  show ?case
  proof (cases "remaining = 0")
    case True
    then show ?thesis by (cases n) simp_all
  next
    case False
    then obtain m where n: "n = Suc m" using prems(7) by (cases n) auto
    have val: "is_valid_cluster fs c" using prems(5) by simp
    have len: "length (cluster_sectors fs c) * unat (bytes_per_sector fs) = cluster_len fs"
      by (simp add: cluster_len_def cluster_sectors_def)
    obtain fs2 where r: "read_cluster dev (cluster_sectors fs c) remaining dst fs =
          (Some (remaining - cluster_len fs, dst @ take remaining (cluster_bytes fs c)), fs2)"
        and f2: "same_volume fs fs2" "sized fs2" "sector fs2 = sector fs"
      using read_cluster_result [OF prems(2,3), of "cluster_sectors fs c" remaining dst]
      unfolding len cluster_bytes_def by blast
    obtain v fs3 where e: "fat_read_entry dev c fs2 = (v, fs3)" by fastforce
    note ee = fat_read_entry_result [OF e]
    have v: "v = fat_val fs c"
      using ee(4) reliable_read [OF prems(3) f2(2)] fat_val_same_sectors [OF f2(1,3)] by simp
    have f3: "same_volume fs fs3" "sector fs3 = sector fs" "sized fs3"
      using same_volume_trans [OF f2(1) ee(1)] ee(2) f2(3) table_only_read [OF e f2(2)] by (simp_all add: table_only_def)
    have ch: "chain fs3 cs"
    proof -
      have "chain fs cs" using prems(4) by (cases cs) simp_all
      then show ?thesis
        using chain_cong [of cs fs3 fs] fat_val_same_sectors [OF f3(1,2)] by (simp add: same_geometry [OF f3(1)])
    qed
    have start: "cs = [] \<and> \<not> is_valid_cluster fs3 v \<or> cs \<noteq> [] \<and> v = hd cs"
      using prems(4) v eoc_invalid [OF prems(1)] by (cases cs) (simp_all add: same_geometry [OF f3(1)])
    have pos: "0 < cluster_len fs" using volume_facts(3,4) [OF prems(1)] by (simp add: cluster_len_def)
    have l3: "remaining - cluster_len fs \<le> m" "remaining - cluster_len fs \<le> length cs * cluster_len fs3"
      using prems(7,8) n pos by (simp_all add: same_volume_cluster [OF f3(1)])
    have "volume_ok fs3" using prems(1) f3(1) by (simp add: same_volume_ok)
    moreover have "\<forall>x \<in> set cs. is_valid_cluster fs3 x" using prems(5) by (simp add: same_geometry [OF f3(1)])
    ultimately obtain fs1 where ih: "read_clusters dev m v (remaining - cluster_len fs) (dst @ take remaining (cluster_bytes fs c)) fs3 =
        (Some ((dst @ take remaining (cluster_bytes fs c)) @
          take (remaining - cluster_len fs) (concat (map (cluster_bytes fs3) cs))), fs1)"
      using Cons.IH [OF _ f3(3) prems(3) ch _ start l3] by blast
    have "cluster_bytes fs3 = cluster_bytes fs" using cluster_bytes_cong [OF f3(1)] f3(2) by auto
    moreover have "length (cluster_bytes fs c) = cluster_len fs" using prems(2) by (rule length_cluster_bytes)
    ultimately have "(dst @ take remaining (cluster_bytes fs c)) @ take (remaining - cluster_len fs) (concat (map (cluster_bytes fs3) cs)) =
        dst @ take remaining (concat (map (cluster_bytes fs) (c # cs)))"
      by simp
    then show ?thesis
      using ih r e False val unfolding n c' by simp
  qed
qed

end

section \<open>The root directory\<close>

lemma find_name_match:
  assumes "\<And>o'. o' \<in> set pre \<Longrightarrow> \<not> entry_free buf o' \<and> get_bytes o' 11 buf \<noteq> take 11 name"
    and "\<not> entry_free buf off" "and (buf ! (off + 11)) 0x18 = 0" "get_bytes off 11 buf = take 11 name"
  shows "find_name name buf (pre @ off # post) = Match off"
  using assms(1) by (induction pre) (use assms(2-4) in \<open>auto simp: entry_free_def\<close>)

lemma find_name_none:
  assumes "\<And>o'. o' \<in> set offs \<Longrightarrow> \<not> entry_free buf o' \<and> get_bytes o' 11 buf \<noteq> take 11 name"
  shows "find_name name buf offs = No_Match"
  using assms by (induction offs) (auto simp: entry_free_def)

text \<open>A walk whose steps only look at the sectors.\<close>

primrec scan :: "(u32 \<Rightarrow> 'r step) \<Rightarrow> u32 list \<Rightarrow> 'r option" where
  "scan f [] = None"
| "scan f (lba # lbas) = (case f lba of Go_On \<Rightarrow> scan f lbas | Leave_Sectors \<Rightarrow> None | Finish r \<Rightarrow> Some r)"

definition no_leave :: "(u32 \<Rightarrow> 'r step) \<Rightarrow> bool" where
  "no_leave f \<longleftrightarrow> (\<forall>lba. f lba \<noteq> Leave_Sectors)"

lemma scan_append:
  "no_leave f \<Longrightarrow> scan f (xs @ ys) = (case scan f xs of None \<Rightarrow> scan f ys | Some r \<Rightarrow> Some r)"
  by (induction xs) (auto simp: no_leave_def split: step.splits)

lemma scan_SomeE:
  assumes "scan f lbas = Some r"
  obtains pre lba post where "lbas = pre @ lba # post" "\<forall>x \<in> set pre. f x = Go_On" "f lba = Finish r"
  using assms
proof (induction lbas arbitrary: thesis)
  case Nil
  then show ?case by simp
next
  case (Cons a lbas)
  show ?case
  proof (cases "f a")
    case Go_On
    then obtain pre lba post where "lbas = pre @ lba # post" "\<forall>x \<in> set pre. f x = Go_On" "f lba = Finish r"
      using Cons.IH Cons.prems(2) by auto
    then show ?thesis using Go_On by (intro Cons.prems(1) [of "a # pre" lba post]) auto
  next
    case Leave_Sectors
    then show ?thesis using Cons.prems(2) by simp
  next
    case (Finish r')
    then show ?thesis using Cons.prems by (intro Cons.prems(1) [of "[]" a lbas]) auto
  qed
qed

lemma scan_found: "\<forall>x \<in> set pre. f x = Go_On \<Longrightarrow> f lba = Finish r \<Longrightarrow> scan f (pre @ lba # post) = Some r"
  by (induction pre) auto

context block_store begin

definition unchanged :: "'d fat32_fs \<Rightarrow> 'd fat32_fs \<Rightarrow> bool" where
  "unchanged fs fs1 \<longleftrightarrow> same_volume fs fs1 \<and> sized fs1 \<and> sector fs1 = sector fs"

lemma unchanged_trans: "unchanged fs fs1 \<Longrightarrow> unchanged fs1 fs2 \<Longrightarrow> unchanged fs fs2"
  unfolding unchanged_def using same_volume_trans by metis

definition steps_as ::
  "(u32 \<Rightarrow> 'd fat32_fs \<Rightarrow> 'r step \<times> 'd fat32_fs) \<Rightarrow> (u32 \<Rightarrow> 'r step) \<Rightarrow> 'd fat32_fs \<Rightarrow> bool"
where
  "steps_as h f fs \<longleftrightarrow> (\<forall>lba fs1. unchanged fs fs1 \<longrightarrow> fst (h lba fs1) = f lba \<and> unchanged fs (snd (h lba fs1)))"

lemma walk_sectors_scan:
  assumes "steps_as h f fs" "no_leave f" "unchanged fs fs1"
  shows "fst (walk_sectors h lbas fs1) = scan f lbas \<and> unchanged fs (snd (walk_sectors h lbas fs1))"
  using assms(3)
proof (induction lbas arbitrary: fs1)
  case Nil
  then show ?case by simp
next
  case (Cons lba lbas)
  obtain r fs2 where h: "h lba fs1 = (r, fs2)" by fastforce
  have "r = f lba" "unchanged fs fs2" using assms(1) Cons.prems h unfolding steps_as_def by (metis fst_conv snd_conv)+
  then show ?case using Cons.IH [of fs2] h assms(2) by (cases "f lba") (simp_all add: no_leave_def)
qed

primrec root_chain :: "'d fat32_fs \<Rightarrow> nat \<Rightarrow> u32 \<Rightarrow> u32 list" where
  "root_chain fs 0 c = []"
| "root_chain fs (Suc n) c = (if is_valid_cluster fs c then c # root_chain fs n (fat_val fs c) else [])"

definition root_clusters :: "'d fat32_fs \<Rightarrow> u32 list" where
  "root_clusters fs = (if fat_type fs = 32 then root_chain fs (unat (max_cluster fs)) (root_cluster fs) else [])"

definition dir_lbas :: "'d fat32_fs \<Rightarrow> u32 list" where
  "dir_lbas fs =
     (if fat_type fs \<noteq> 32 then map (\<lambda>s. root_dir_lba fs + of_nat s) [0..<unat (root_dir_sectors fs)]
      else concat (map (cluster_sectors fs) (root_clusters fs)))"

lemma root_chain_valid: "\<forall>c \<in> set (root_chain fs n c0). is_valid_cluster fs c"
  by (induction n arbitrary: c0) auto

lemma root_clusters_valid: "c \<in> set (root_clusters fs) \<Longrightarrow> is_valid_cluster fs c"
  using root_chain_valid [of fs] by (auto simp: root_clusters_def split: if_splits)

lemma root_chain_cong:
  assumes "same_volume fs fs1" "\<forall>c \<in> set (root_chain fs n c0). fat_val fs1 c = fat_val fs c"
  shows "root_chain fs1 n c0 = root_chain fs n c0"
  using assms(2) by (induction n arbitrary: c0) (auto simp: same_geometry [OF assms(1)])

lemma dir_lbas_cong:
  assumes "same_volume fs fs1" "\<forall>c \<in> set (root_clusters fs). fat_val fs1 c = fat_val fs c"
  shows "dir_lbas fs1 = dir_lbas fs" "root_clusters fs1 = root_clusters fs"
proof -
  show r: "root_clusters fs1 = root_clusters fs"
    using assms(2) root_chain_cong [OF assms(1)] by (auto simp: root_clusters_def same_geometry [OF assms(1)])
  show "dir_lbas fs1 = dir_lbas fs" by (simp add: dir_lbas_def r same_geometry [OF assms(1)])
qed

lemma walk_chain_scan:
  assumes reliable "steps_as h f fs" "no_leave f" "unchanged fs fs1"
  shows "fst (walk_chain dev h n c fs1) = scan f (concat (map (cluster_sectors fs) (root_chain fs n c))) \<and>
    unchanged fs (snd (walk_chain dev h n c fs1))"
  using assms(4)
proof (induction n arbitrary: c fs1)
  case 0
  then show ?case by simp
next
  case (Suc n)
  have same: "same_volume fs fs1" using Suc.prems by (simp add: unchanged_def)
  obtain r fs2 where w: "walk_sectors h (cluster_sectors fs c) fs1 = (r, fs2)" by fastforce
  have r: "r = scan f (cluster_sectors fs c)" "unchanged fs fs2"
    using walk_sectors_scan [OF assms(2,3) Suc.prems, of "cluster_sectors fs c"] w by simp_all
  obtain v fs3 where e: "fat_read_entry dev c fs2 = (v, fs3)" by fastforce
  note ee = fat_read_entry_result [OF e]
  have u2: "same_volume fs fs2" "sector fs2 = sector fs" "sized fs2" using r(2) by (simp_all add: unchanged_def)
  have v: "v = fat_val fs c" using ee(4) reliable_read [OF assms(1) u2(3)] fat_val_same_sectors [OF u2(1,2)] by simp
  have u3: "unchanged fs fs3"
    using u2 same_volume_trans [OF u2(1) ee(1)] ee(2) table_only_read [OF e u2(3)] by (simp add: unchanged_def table_only_def)
  show ?case
  proof (cases "is_valid_cluster fs c")
    case False
    then show ?thesis using Suc.prems by (simp add: same_geometry [OF same])
  next
    case True
    then show ?thesis
      using w r e v u3 Suc.IH [OF u3, of v] scan_append [OF assms(3), of "cluster_sectors fs c"]
      by (cases "scan f (cluster_sectors fs c)") (simp_all add: same_geometry [OF same])
  qed
qed

lemma walk_dir_scan:
  assumes reliable "steps_as h f fs" "no_leave f" "sized fs"
  shows "fst (walk_dir dev h fs) = scan f (dir_lbas fs)" "unchanged fs (snd (walk_dir dev h fs))"
proof -
  have u: "unchanged fs fs" using assms(4) by (simp add: unchanged_def)
  show "fst (walk_dir dev h fs) = scan f (dir_lbas fs)" "unchanged fs (snd (walk_dir dev h fs))"
    using walk_sectors_scan [OF assms(2,3) u] walk_chain_scan [OF assms(1-3) u]
    by (simp_all add: walk_dir_def dir_lbas_def root_clusters_def)
qed

definition free_step :: "'d fat32_fs \<Rightarrow> u32 \<Rightarrow> (u32 \<times> nat) option step" where
  "free_step fs lba = (case find (entry_free (sector fs lba)) (entry_offsets fs) of
      None \<Rightarrow> Go_On | Some off \<Rightarrow> Finish (Some (lba, off)))"

definition find_step :: "u8 list \<Rightarrow> 'd fat32_fs \<Rightarrow> u32 \<Rightarrow> (u32 \<times> u32) option step" where
  "find_step name fs lba = (case find_name name (sector fs lba) (entry_offsets fs) of
      End_Mark \<Rightarrow> Finish None
    | No_Match \<Rightarrow> Go_On
    | Match off \<Rightarrow> Finish (Some (entry_cluster (sector fs lba) off, le32 (sector fs lba) (off + 28))))"

lemma read_unchanged:
  assumes reliable "unchanged fs fs1" "read_sector dev lba fs1 = (ok, fs2)"
  shows "ok" "unchanged fs fs2" "sector_buf fs2 = sector fs lba" "entry_offsets fs2 = entry_offsets fs"
proof -
  have "sized fs1" using assms(2) by (simp add: unchanged_def)
  then show ok using reliable_read [OF assms(1), of fs1 lba] assms(3) by simp
  then show "sector_buf fs2 = sector fs lba"
    using read_sector_result(3) [OF assms(3)] assms(2) by (simp add: unchanged_def)
  have "unchanged fs1 fs2"
    using read_sector_result(1,2) [OF assms(3)] read_sector_sized [OF assms(3)] assms(2) by (simp add: unchanged_def)
  with assms(2) show "unchanged fs fs2" by (rule unchanged_trans)
  then show "entry_offsets fs2 = entry_offsets fs" by (simp add: unchanged_def same_geometry)
qed

lemma free_steps: "reliable \<Longrightarrow> steps_as (free_entry_step dev) (free_step fs) fs"
  unfolding steps_as_def
proof (intro allI impI)
  fix lba fs1
  assume rel: reliable and u: "unchanged fs fs1"
  obtain ok fs2 where r: "read_sector dev lba fs1 = (ok, fs2)" by fastforce
  note rr = read_unchanged [OF rel u r]
  show "fst (free_entry_step dev lba fs1) = free_step fs lba \<and> unchanged fs (snd (free_entry_step dev lba fs1))"
    using r rr by (simp add: free_entry_step_def free_step_def Let_def split: option.split)
qed

lemma find_steps: "reliable \<Longrightarrow> steps_as (find_file_step dev name) (find_step name fs) fs"
  unfolding steps_as_def
proof (intro allI impI)
  fix lba fs1
  assume rel: reliable and u: "unchanged fs fs1"
  obtain ok fs2 where r: "read_sector dev lba fs1 = (ok, fs2)" by fastforce
  note rr = read_unchanged [OF rel u r]
  show "fst (find_file_step dev name lba fs1) = find_step name fs lba \<and> unchanged fs (snd (find_file_step dev name lba fs1))"
    using r rr by (simp add: find_file_step_def find_step_def Let_def split: name_search.split)
qed

lemma no_leaves: "no_leave (free_step fs)" "no_leave (find_step name fs)"
  by (auto simp: no_leave_def free_step_def find_step_def split: option.splits name_search.splits)

lemma find_free_result:
  assumes reliable "sized fs" "find_free_dir_entry dev fs = (Some (lba, off), fs1)"
  obtains pre post where "unchanged fs fs1" "dir_lbas fs = pre @ lba # post"
    "\<forall>x \<in> set pre. find (entry_free (sector fs x)) (entry_offsets fs) = None"
    "find (entry_free (sector fs lba)) (entry_offsets fs) = Some off"
proof -
  note w = walk_dir_scan [OF assms(1) free_steps [OF assms(1)] no_leaves(1) assms(2)]
  obtain r where r: "walk_dir dev (free_entry_step dev) fs = (r, fs1)" "r = Some (Some (lba, off))"
    using assms(3) by (auto simp: find_free_dir_entry_def Let_def split: prod.splits option.splits)
  then have "scan (free_step fs) (dir_lbas fs) = Some (Some (lba, off))" "unchanged fs fs1" using w by simp_all
  then show thesis
    by (elim scan_SomeE) (rule that, auto simp: free_step_def split: option.splits)
qed

end

section \<open>The new directory entry\<close>

lemma length_dir_entry: "length name = 11 \<Longrightarrow> length (dir_entry name c sz) = 32"
  by (simp add: dir_entry_def)

lemma dir_entry_fields:
  assumes "length name = 11"
  shows "take 11 (dir_entry name c sz) = name" "dir_entry name c sz ! 11 = 0x20"
    "dir_entry name c sz ! 20 = ucast (drop_bit 16 c)" "dir_entry name c sz ! 21 = ucast (drop_bit 24 c)"
    "dir_entry name c sz ! 26 = ucast c" "dir_entry name c sz ! 27 = ucast (drop_bit 8 c)"
    "get_bytes 28 4 (dir_entry name c sz) = bytes32 sz"
  using assms by (simp_all add: dir_entry_def nth_append get_bytes_def bytes32_def)

lemma offsets_apart:
  assumes "o1 \<in> set (entry_offsets fs)" "o2 \<in> set (entry_offsets fs)" "o1 \<noteq> o2"
  shows "o1 + 32 \<le> o2 \<or> o2 + 32 \<le> o1"
  using assms by (auto simp: entry_offsets_def)

lemma offset_inside: "o1 \<in> set (entry_offsets fs) \<Longrightarrow> o1 + 32 \<le> unat (bytes_per_sector fs)"
  by (auto simp: entry_offsets_def)

lemma new_entry:
  fixes c sz :: u32
  assumes "length name = 11" "length buf = unat (bytes_per_sector fs)" "off \<in> set (entry_offsets fs)"
  defines "new \<equiv> put_bytes off (dir_entry name c sz) buf"
  shows "get_bytes off 11 new = name" "and (new ! (off + 11)) 0x18 = 0" "new ! off = name ! 0"
    "entry_cluster new off = c" "le32 new (off + 28) = sz" "length new = unat (bytes_per_sector fs)"
proof -
  let ?e = "dir_entry name c sz"
  have off: "off + 32 \<le> length buf" using offset_inside [OF assms(3)] assms(2) by simp
  have le: "length ?e = 32" using assms(1) by (rule length_dir_entry)
  have at: "new ! (off + i) = ?e ! i" if "i < 32" for i
    using off le that nth_put_bytes [of off ?e buf "off + i"] by (simp add: new_def)
  have e: "get_bytes off 32 new = ?e" using get_put_bytes [of off ?e buf] off le by (simp add: new_def)
  show "length new = unat (bytes_per_sector fs)" using off le assms(2) by (simp add: new_def)
  have "get_bytes off 11 new = take 11 (get_bytes off 32 new)" by (simp add: get_bytes_def)
  then show "get_bytes off 11 new = name" using e dir_entry_fields(1) [OF assms(1)] by simp
  show "and (new ! (off + 11)) 0x18 = 0" using at [of 11] dir_entry_fields(2) [OF assms(1)] by simp
  have "?e ! 0 = name ! 0" using assms(1) by (simp add: dir_entry_def nth_append)
  then show "new ! off = name ! 0" using at [of 0] by simp
  have "entry_cluster new off = or (or (ucast (ucast c :: u8)) (push_bit 8 (ucast (ucast (drop_bit 8 c) :: u8))))
      (or (push_bit 16 (ucast (ucast (drop_bit 16 c) :: u8))) (push_bit 24 (ucast (ucast (drop_bit 24 c) :: u8))))"
    unfolding entry_cluster_def using at [of 20] at [of 21] at [of 26] at [of 27] dir_entry_fields [OF assms(1)]
    by (simp add: or.assoc)
  also have "\<dots> = le32 (bytes32 c) 0" by (simp add: le32_def bytes32_def)
  finally show "entry_cluster new off = c" by (simp add: le32_bytes)
  have "le32 new (off + 28) = le32 (get_bytes (off + 28) 4 new) 0"
    using off le by (intro get_bytes_le(2)) (simp add: new_def)
  also have "get_bytes (off + 28) 4 new = get_bytes 28 4 (get_bytes off 32 new)"
    by (simp add: get_bytes_def take_drop add.commute)
  finally show "le32 new (off + 28) = sz" using e dir_entry_fields(7) [OF assms(1)] by (simp add: le32_bytes)
qed

lemma other_entry:
  assumes "length name = 11" "length buf = unat (bytes_per_sector fs)" "off \<in> set (entry_offsets fs)"
    and "o' \<in> set (entry_offsets fs)" "o' \<noteq> off"
  shows "get_bytes o' 11 (put_bytes off (dir_entry name c sz) buf) = get_bytes o' 11 buf"
    "entry_free (put_bytes off (dir_entry name c sz) buf) o' = entry_free buf o'"
proof -
  have le: "length (dir_entry name c sz) = 32" using assms(1) by (rule length_dir_entry)
  have off: "off + 32 \<le> length buf" "o' + 32 \<le> length buf" using offset_inside assms(2-4) by auto
  note apart = offsets_apart [OF assms(4,3,5)]
  show "get_bytes o' 11 (put_bytes off (dir_entry name c sz) buf) = get_bytes o' 11 buf"
    using off le apart by (intro get_put_bytes_other) auto
  have "put_bytes off (dir_entry name c sz) buf ! o' = buf ! o'"
    using nth_put_bytes [of off "dir_entry name c sz" buf o'] off le apart by auto
  then show "entry_free (put_bytes off (dir_entry name c sz) buf) o' = entry_free buf o'" by (simp add: entry_free_def)
qed

context block_store begin

text \<open>Every cluster of a FAT32 root directory is marked as used in the table.\<close>

definition root_used :: "'d fat32_fs \<Rightarrow> bool" where
  "root_used fs \<longleftrightarrow> (\<forall>c \<in> set (root_clusters fs). fat_val fs c \<noteq> 0)"

lemma dir_sector_place:
  assumes "volume_ok fs" "x \<in> set (dir_lbas fs)"
  shows "\<not> in_fat fs x" "root_used fs \<Longrightarrow> set cs \<subseteq> free_in fs \<Longrightarrow> x \<notin> file_sectors fs cs"
    "is_valid_cluster fs c \<Longrightarrow> c \<notin> set (root_clusters fs) \<Longrightarrow> x \<notin> set (cluster_sectors fs c)"
proof -
  note v = volume_facts [OF assms(1)]
  have valid: "is_valid_cluster fs c" if "c \<in> free_in fs" for c using that by (simp add: free_in_def is_valid_cluster_def)
  have "\<not> in_fat fs x \<and> (\<forall>c. is_valid_cluster fs c \<and> c \<notin> set (root_clusters fs) \<longrightarrow> x \<notin> set (cluster_sectors fs c))"
  proof (cases "fat_type fs = 32")
    case False
    then obtain s where s: "s < unat (root_dir_sectors fs)" "x = root_dir_lba fs + of_nat s"
      using assms(2) by (auto simp: dir_lbas_def)
    have us: "unat (of_nat s :: u32) = s" using s(1) unat_u16_less [of "root_dir_sectors fs"] by (intro unat_of_nat_small) simp
    have ux: "unat x = unat (root_dir_lba fs) + s"
      using s v(8) unat_u32_less [of "data_start_lba fs"] us by (simp add: unat_add_u32)
    have "\<not> in_fat fs x" using ux v(7) by (simp add: in_fat_def)
    moreover have "x \<notin> set (cluster_sectors fs c)" if "is_valid_cluster fs c" for c
    proof
      assume "x \<in> set (cluster_sectors fs c)"
      then have "unat (data_start_lba fs) \<le> unat x" by (rule data_not_fat(2) [OF assms(1) that])
      then show False using ux s(1) v(8) by linarith
    qed
    ultimately show ?thesis by blast
  next
    case True
    then obtain c where c: "c \<in> set (root_clusters fs)" "x \<in> set (cluster_sectors fs c)"
      using assms(2) by (auto simp: dir_lbas_def)
    have vc: "is_valid_cluster fs c" using c(1) by (rule root_clusters_valid)
    have "x \<notin> set (cluster_sectors fs d)" if "is_valid_cluster fs d" "d \<notin> set (root_clusters fs)" for d
    proof -
      have "c \<noteq> d" using c(1) that(2) by blast
      then show ?thesis using clusters_apart [OF assms(1) vc that(1)] c(2) by blast
    qed
    then show ?thesis using data_not_fat(1) [OF assms(1) vc c(2)] by blast
  qed
  then show "\<not> in_fat fs x"
    "is_valid_cluster fs c \<Longrightarrow> c \<notin> set (root_clusters fs) \<Longrightarrow> x \<notin> set (cluster_sectors fs c)"
    "root_used fs \<Longrightarrow> set cs \<subseteq> free_in fs \<Longrightarrow> x \<notin> file_sectors fs cs"
    using valid by (auto simp: file_sectors_def root_used_def free_in_def)
qed

lemma write_dir_entry_result:
  assumes reliable "volume_ok fs" "sized fs" "length name = 11" "write_dir_entry dev name c sz fs = (True, fs1)"
  obtains pre lba post off where "same_volume fs fs1" "sized fs1" "\<And>x. x \<noteq> lba \<Longrightarrow> sector fs1 x = sector fs x"
    "dir_lbas fs = pre @ lba # post" "\<forall>x \<in> set pre. find (entry_free (sector fs x)) (entry_offsets fs) = None"
    "find (entry_free (sector fs lba)) (entry_offsets fs) = Some off"
    "sector fs1 lba = put_bytes off (dir_entry name c sz) (sector fs lba)"
proof -
  obtain lba off fs2 where f: "find_free_dir_entry dev fs = (Some (lba, off), fs2)"
    using assms(5) by (auto simp: write_dir_entry_def split: prod.splits option.splits)
  obtain pre post where p: "unchanged fs fs2" "dir_lbas fs = pre @ lba # post"
      "\<forall>x \<in> set pre. find (entry_free (sector fs x)) (entry_offsets fs) = None"
      "find (entry_free (sector fs lba)) (entry_offsets fs) = Some off"
    using find_free_result [OF assms(1,3) f] by metis
  obtain fs3 where r: "read_sector dev lba fs2 = (True, fs3)"
      and w: "write_sector dev lba (fs3\<lparr>sector_buf := put_bytes off (dir_entry name c sz) (sector_buf fs3)\<rparr>) = (True, fs1)"
    using assms(5) f by (auto simp: write_dir_entry_def Let_def split: prod.splits if_splits)
  note rr = read_unchanged [OF assms(1) p(1) r] and ws = write_sector_result [OF w]
  have u3: "same_volume fs fs3" "sized fs3" "sector fs3 = sector fs" using rr(2) by (simp_all add: unchanged_def)
  have "off \<in> set (entry_offsets fs)" using p(4) by (metis find_Some_iff nth_mem)
  then have "off + 32 \<le> length (sector fs lba)" using offset_inside assms(3) by (metis sized_def)
  then have "sized (fs3\<lparr>sector_buf := put_bytes off (dir_entry name c sz) (sector_buf fs3)\<rparr>)"
    using u3(2) rr(3) length_dir_entry [OF assms(4)] by (simp add: sized_def)
  with w have "sized fs1" by (rule write_sector_sized)
  moreover have "same_volume fs fs1" using u3(1) ws(1) same_volume_buf same_volume_trans by blast
  ultimately show thesis using p(2-4) ws(2,3) u3(3) rr(3) by (intro that) simp_all
qed

lemma find_file_result:
  assumes reliable "sized fs" "dir_lbas fs = pre @ lba # post"
    and "\<forall>x \<in> set pre. find_name name (sector fs x) (entry_offsets fs) = No_Match"
    and "find_name name (sector fs lba) (entry_offsets fs) = Match off"
  obtains fs1 where "unchanged fs fs1"
    "find_file_dir_entry dev name fs = (Some (entry_cluster (sector fs lba) off, le32 (sector fs lba) (off + 28)), fs1)"
proof -
  note w = walk_dir_scan [OF assms(1) find_steps [OF assms(1)] no_leaves(2) assms(2), of name]
  have "scan (find_step name fs) (dir_lbas fs) =
      Some (Some (entry_cluster (sector fs lba) off, le32 (sector fs lba) (off + 28)))"
    unfolding assms(3) using assms(4,5) by (intro scan_found) (simp_all add: find_step_def)
  then show thesis
    using w by (cases "walk_dir dev (find_file_step dev name) fs")
      (intro that [of "snd (walk_dir dev (find_file_step dev name) fs)"], simp_all add: find_file_dir_entry_def Let_def)
qed

end

lemma clusters_needed:
  assumes "volume_ok fs" "dat \<noteq> []" "length dat < 2 ^ 31"
  defines "k \<equiv> ucast (sectors_per_cluster fs) * bytes_per_sector fs"
  defines "n \<equiv> unat ((of_nat (length dat) + k - 1) div k)"
  shows "0 < n" "length dat \<le> n * (unat (sectors_per_cluster fs) * unat (bytes_per_sector fs))"
proof -
  note v = volume_facts [OF assms(1)]
  let ?p = "unat (sectors_per_cluster fs)" and ?b = "unat (bytes_per_sector fs)" and ?l = "length dat"
  have "?p \<le> 255" using unat_u8_less [of "sectors_per_cluster fs"] by simp
  then have "?p * ?b \<le> 255 * 4096" using v(5) by (intro mult_le_mono) simp_all
  moreover have p: "unat (ucast (sectors_per_cluster fs) :: u32) = ?p"
    using unat_u8_less [of "sectors_per_cluster fs"] by (simp add: unat_ucast_small)
  ultimately have k: "unat k = ?p * ?b" "unat k \<le> 255 * 4096" unfolding k_def by (simp_all add: unat_mult_u32)
  have pos: "0 < unat k" using v(3,4) k(1) by simp
  have l: "unat (of_nat ?l :: u32) = ?l" using assms(3) by (intro unat_of_nat_small) simp
  have s: "unat (of_nat ?l + k) = ?l + unat k" using l k(2) assms(3) by (subst unat_add_u32) simp_all
  have "1 \<le> of_nat ?l + k" using s pos by (simp add: word_le_nat_alt)
  then have m: "unat (of_nat ?l + k - 1) = ?l + unat k - 1" using s by (simp add: unat_sub)
  have n: "n = (?l + unat k - 1) div unat k" unfolding n_def by (simp add: unat_div_distrib m)
  have "0 < ?l" using assms(2) by simp
  then have "unat k \<le> ?l + unat k - 1" by linarith
  then show "0 < n" unfolding n using pos by (simp add: div_greater_zero_iff)
  have "?l + unat k - 1 = n * unat k + (?l + unat k - 1) mod unat k" unfolding n by simp
  moreover have "(?l + unat k - 1) mod unat k < unat k" using pos by simp
  ultimately have "?l + unat k - 1 < n * unat k + unat k" by linarith
  then have "?l \<le> n * unat k" by linarith
  then show "?l \<le> n * (?p * ?b)" by (simp add: k(1))
qed

context block_store begin

text \<open>What the steps of \<open>fat32_write_file\<close> do when all of them succeed.\<close>

lemma write_file_steps:
  assumes "volume_ok fs" "sized fs" "length dat < 2 ^ 31" "fat32_write_file dev name dat fs = (True, fs1)"
  obtains cs fs2 fs3 where "cs \<noteq> []" "distinct cs" "set cs \<subseteq> free_in fs" "length dat \<le> length cs * cluster_len fs"
    "table_only fs fs2" "chain fs2 cs" "\<And>c. is_valid_cluster fs c \<Longrightarrow> c \<notin> set cs \<Longrightarrow> fat_val fs2 c = fat_val fs c"
    "same_volume fs2 fs3" "sized fs3" "\<And>x. x \<notin> file_sectors fs cs \<Longrightarrow> sector fs3 x = sector fs2 x"
    "take (length dat) (concat (map (cluster_bytes fs3) cs)) = dat"
    "write_dir_entry dev name (hd cs) (of_nat (length dat)) fs3 = (True, fs1)"
proof -
  let ?k = "ucast (sectors_per_cluster fs) * bytes_per_sector fs"
  let ?n = "unat ((of_nat (length dat) + ?k - 1) div ?k)"
  have ne: "dat \<noteq> []" using assms(4) by (auto simp: fat32_write_file_def)
  note need = clusters_needed [OF assms(1) ne assms(3)]
  obtain first fs2 where a: "alloc_chain dev ?n 0 0 fs = (True, first, fs2)"
    using assms(4) ne by (auto simp: fat32_write_file_def Let_def undo_write_def split: prod.splits if_splits)
  obtain fs3 where w: "write_clusters dev (length dat) first dat fs2 = (Some [], fs3)"
      and d: "write_dir_entry dev name first (of_nat (length dat)) fs3 = (True, fs1)"
    using assms(4) ne a by (auto simp: fat32_write_file_def Let_def undo_write_def split: prod.splits if_splits option.splits)
  obtain cs where cs: "length cs = ?n" "distinct cs" "set cs \<subseteq> free_in fs" "first = (if cs = [] then 0 else hd cs)"
      "chain fs2 cs" "table_only fs fs2" "\<forall>c < max_cluster fs. c \<notin> set cs \<and> c \<noteq> 0 \<longrightarrow> fat_val fs2 c = fat_val fs c"
    using alloc_chain_result [OF assms(1,2) a] by auto
  have cne: "cs \<noteq> []" using cs(1) need(1) by auto
  note t = table_only_facts [OF cs(6) assms(1)]
  have valid: "\<forall>x \<in> set cs. is_valid_cluster fs2 x"
    using cs(3) t(1) by (auto simp: free_in_def is_valid_cluster_def same_geometry)
  have "cs = [] \<and> \<not> is_valid_cluster fs2 first \<or> cs \<noteq> [] \<and> first = hd cs" using cne cs(4) by simp
  note ws = write_clusters_result [OF t(3,2) cs(5,2) valid this order_refl w]
  have fsec: "file_sectors fs2 cs = file_sectors fs cs" by (simp add: file_sectors_def same_geometry [OF t(1)])
  show thesis
  proof (rule that [of cs fs2 fs3])
    show "fat_val fs2 c = fat_val fs c" if "is_valid_cluster fs c" "c \<notin> set cs" for c
      using cs(7) that by (auto simp: is_valid_cluster_def)
    show "length dat \<le> length cs * cluster_len fs" using need(2) cs(1) by (simp add: cluster_len_def)
    show "write_dir_entry dev name (hd cs) (of_nat (length dat)) fs3 = (True, fs1)" using d cs(4) cne by simp
    show "sector fs3 x = sector fs2 x" if "x \<notin> file_sectors fs cs" for x using ws that fsec by simp
  qed (use cne cs ws in simp_all)
qed


lemma chain_after:
  assumes "volume_ok fs" "same_volume fs fs1" "\<forall>x \<in> set cs. is_valid_cluster fs x" "\<And>x. in_fat fs x \<Longrightarrow> sector fs1 x = sector fs x"
  shows "chain fs1 cs = chain fs cs"
proof (rule chain_cong)
  show "fat_val fs1 c = fat_val fs c" if "c \<in> set cs" for c
    using assms(3) that by (intro fat_val_cong [OF assms(2,1) _ assms(4)]) (auto simp: is_valid_cluster_def)
qed (rule same_geometry(15) [OF assms(2)])

text \<open>No entry in use has the name.\<close>

definition name_absent :: "'d fat32_fs \<Rightarrow> u8 list \<Rightarrow> bool" where
  "name_absent fs name \<longleftrightarrow> (\<forall>x \<in> set (dir_lbas fs). \<forall>off \<in> set (entry_offsets fs).
     \<not> entry_free (sector fs x) off \<longrightarrow> get_bytes off 11 (sector fs x) \<noteq> name)"

lemma find_Some_split:
  assumes "find P xs = Some x"
  obtains pre post where "xs = pre @ x # post" "P x" "\<forall>y \<in> set pre. \<not> P y"
  using assms by (auto simp: find_Some_iff) (metis (no_types, lifting) id_take_nth_drop in_set_conv_nth length_take min.absorb4 nth_take)

lemma entry_found:
  fixes c sz :: u32
  assumes reliable "sized fs1" "same_volume fs fs1" "sized fs" "length name = 11" "name ! 0 \<noteq> 0" "name ! 0 \<noteq> 0xE5"
    and "name_absent fs name" "dir_lbas fs1 = dir_lbas fs" "dir_lbas fs = pre @ lba # post"
    and "\<forall>x \<in> set pre. find (entry_free (sector fs x)) (entry_offsets fs) = None"
    and "find (entry_free (sector fs lba)) (entry_offsets fs) = Some off" "\<And>x. x \<noteq> lba \<Longrightarrow> sector fs1 x = sector fs x"
    and "sector fs1 lba = put_bytes off (dir_entry name c sz) (sector fs lba)"
  obtains fs2 where "unchanged fs1 fs2" "find_file_dir_entry dev name fs1 = (Some (c, sz), fs2)"
proof -
  obtain opre opost where o: "entry_offsets fs = opre @ off # opost" "entry_free (sector fs lba) off"
      "\<forall>y \<in> set opre. \<not> entry_free (sector fs lba) y"
    using find_Some_split [OF assms(12)] by blast
  have lba: "lba \<notin> set pre" using assms(11,12) by auto
  have off: "off \<in> set (entry_offsets fs)" by (simp add: o(1))
  have len: "length (sector fs lba) = unat (bytes_per_sector fs)" using assms(4) by (simp add: sized_def)
  note new = new_entry [OF assms(5) len off, of c sz, folded assms(14)]
  have offs: "entry_offsets fs1 = entry_offsets fs" by (rule same_geometry(19) [OF assms(3)])
  have take: "take 11 name = name" using assms(5) by simp
  have "find_name name (sector fs1 x) (entry_offsets fs1) = No_Match" if x: "x \<in> set pre" for x
  proof -
    have "sector fs1 x = sector fs x" using x lba by (intro assms(13)) blast
    moreover have "\<not> entry_free (sector fs x) o' \<and> get_bytes o' 11 (sector fs x) \<noteq> name" if "o' \<in> set (entry_offsets fs)" for o'
      using assms(8,10,11) x that by (auto simp: name_absent_def find_None_iff)
    ultimately show ?thesis using offs take by (simp add: find_name_none)
  qed
  moreover have "find_name name (sector fs1 lba) (entry_offsets fs1) = Match off"
    unfolding offs o(1)
  proof (rule find_name_match)
    fix o'
    assume o': "o' \<in> set opre"
    then have mem: "o' \<in> set (entry_offsets fs)" and ne: "o' \<noteq> off" using o by auto
    have "get_bytes o' 11 (sector fs lba) \<noteq> name" using assms(8,10) o(3) o' mem by (auto simp: name_absent_def)
    then show "\<not> entry_free (sector fs1 lba) o' \<and> get_bytes o' 11 (sector fs1 lba) \<noteq> take 11 name"
      using other_entry [OF assms(5) len off mem ne, of c sz, folded assms(14)] o(3) o' take by auto
  qed (use new assms(6,7) take in \<open>auto simp: entry_free_def\<close>)
  ultimately obtain fs2 where "unchanged fs1 fs2"
      "find_file_dir_entry dev name fs1 = (Some (entry_cluster (sector fs1 lba) off, le32 (sector fs1 lba) (off + 28)), fs2)"
    using find_file_result [OF assms(1,2), of pre lba post] assms(9,10) by metis
  then show thesis using that new(4,5) by simp
qed

end

context block_store begin

lemma used_not_new: "root_used fs \<Longrightarrow> set cs \<subseteq> free_in fs \<Longrightarrow> c \<in> set (root_clusters fs) \<Longrightarrow> c \<notin> set cs"
  by (auto simp: root_used_def free_in_def)

text \<open>The directory is as it was when the data has been written.\<close>

lemma dir_before_entry:
  assumes "volume_ok fs" "root_used fs" "set cs \<subseteq> free_in fs" "table_only fs fs2" "same_volume fs2 fs3"
    and "\<And>c. is_valid_cluster fs c \<Longrightarrow> c \<notin> set cs \<Longrightarrow> fat_val fs2 c = fat_val fs c"
    and "\<And>x. x \<notin> file_sectors fs cs \<Longrightarrow> sector fs3 x = sector fs2 x"
  shows "fat_val fs3 c = fat_val fs2 c \<or> \<not> is_valid_cluster fs c" "dir_lbas fs3 = dir_lbas fs" "root_clusters fs3 = root_clusters fs"
    "x \<in> set (dir_lbas fs) \<Longrightarrow> sector fs3 x = sector fs x"
proof -
  note t = table_only_facts [OF assms(4,1)]
  have valid: "is_valid_cluster fs c" if "c \<in> set cs" for c
    using that assms(3) by (auto simp: free_in_def is_valid_cluster_def)
  have fat: "sector fs3 x = sector fs2 x" if "in_fat fs2 x" for x
    using that data_not_fat(1) [OF assms(1)] valid same_in_fat [OF t(1)] by (intro assms(7)) (auto simp: file_sectors_def)
  have val: "fat_val fs3 c = fat_val fs2 c" if "is_valid_cluster fs c" for c
    using that t(4) by (intro fat_val_cong [OF assms(5) t(3) _ fat]) (auto simp: is_valid_cluster_def)
  then show "fat_val fs3 c = fat_val fs2 c \<or> \<not> is_valid_cluster fs c" by blast
  have all: "\<forall>c \<in> set (root_clusters fs). fat_val fs3 c = fat_val fs c"
    using val assms(6) root_clusters_valid used_not_new [OF assms(2,3)] by metis
  have same: "same_volume fs fs3" using t(1) assms(5) by (rule same_volume_trans)
  show "dir_lbas fs3 = dir_lbas fs" "root_clusters fs3 = root_clusters fs" using dir_lbas_cong [OF same all] by simp_all
  show "sector fs3 x = sector fs x" if "x \<in> set (dir_lbas fs)"
    using dir_sector_place(1,2) [OF assms(1) that] assms(2,3,4,7) by (simp add: table_only_def)
qed

theorem write_file_result:
  assumes reliable "volume_ok fs" "sized fs" "root_used fs"
    and "length name = 11" "name ! 0 \<noteq> 0" "name ! 0 \<noteq> 0xE5" "name_absent fs name" "length dat < 2 ^ 31"
    and "fat32_write_file dev name dat fs = (True, fs1)"
  obtains cs where "cs \<noteq> []" "set cs \<subseteq> free_in fs" "length dat \<le> length cs * cluster_len fs"
    "same_volume fs fs1" "sized fs1" "chain fs1 cs" "take (length dat) (concat (map (cluster_bytes fs1) cs)) = dat"
    "\<exists>fs2. unchanged fs1 fs2 \<and> find_file_dir_entry dev name fs1 = (Some (hd cs, of_nat (length dat)), fs2)"
    "\<And>c. is_valid_cluster fs c \<Longrightarrow> c \<notin> set cs \<Longrightarrow> fat_val fs1 c = fat_val fs c"
    "\<And>c. is_valid_cluster fs c \<Longrightarrow> c \<notin> set cs \<Longrightarrow> c \<notin> set (root_clusters fs) \<Longrightarrow> cluster_bytes fs1 c = cluster_bytes fs c"
proof -
  obtain cs fs2 fs3 where st: "cs \<noteq> []" "distinct cs" "set cs \<subseteq> free_in fs" "length dat \<le> length cs * cluster_len fs"
    "table_only fs fs2" "chain fs2 cs" "\<And>c. is_valid_cluster fs c \<Longrightarrow> c \<notin> set cs \<Longrightarrow> fat_val fs2 c = fat_val fs c"
    "same_volume fs2 fs3" "sized fs3" "\<And>x. x \<notin> file_sectors fs cs \<Longrightarrow> sector fs3 x = sector fs2 x"
    "take (length dat) (concat (map (cluster_bytes fs3) cs)) = dat"
    "write_dir_entry dev name (hd cs) (of_nat (length dat)) fs3 = (True, fs1)"
    using write_file_steps [OF assms(2,3,9,10)] by metis
  note t = table_only_facts [OF st(5) assms(2)]
  note db = dir_before_entry [OF assms(2,4) st(3,5,8,7,10)]
  have same3: "same_volume fs fs3" using t(1) st(8) by (rule same_volume_trans)
  have ok3: "volume_ok fs3" using assms(2) same_volume_ok [OF same3] by simp
  have valid: "is_valid_cluster fs c" if "c \<in> set cs" for c
    using that st(3) by (auto simp: free_in_def is_valid_cluster_def)
  obtain pre lba post off where e: "same_volume fs3 fs1" "sized fs1" "\<And>x. x \<noteq> lba \<Longrightarrow> sector fs1 x = sector fs3 x"
    "dir_lbas fs3 = pre @ lba # post" "\<forall>x \<in> set pre. find (entry_free (sector fs3 x)) (entry_offsets fs3) = None"
    "find (entry_free (sector fs3 lba)) (entry_offsets fs3) = Some off"
    "sector fs1 lba = put_bytes off (dir_entry name (hd cs) (of_nat (length dat))) (sector fs3 lba)"
    using write_dir_entry_result [OF assms(1) ok3 st(9) assms(5) st(12)] by metis
  have lba: "lba \<in> set (dir_lbas fs)" using e(4) db(2) by simp
  note place = dir_sector_place [OF assms(2) lba]
  have same: "same_volume fs fs1" using same3 e(1) by (rule same_volume_trans)
  have fat1: "sector fs1 x = sector fs3 x" if "in_fat fs x" for x using that place(1) by (intro e(3)) blast
  have fat2: "sector fs3 x = sector fs2 x" if "in_fat fs x" for x
    using that data_not_fat(1) [OF assms(2)] valid by (intro st(10)) (auto simp: file_sectors_def)
  have fat3: "sector fs1 x = sector fs3 x" if "in_fat fs3 x" for x using that fat1 same_in_fat [OF same3] by simp
  have val1: "fat_val fs1 c = fat_val fs3 c" if "is_valid_cluster fs c" for c
    using that by (intro fat_val_cong [OF e(1) ok3 _ fat3]) (auto simp: is_valid_cluster_def same_geometry [OF same3])
  have absent: "name_absent fs3 name"
    using assms(8) db(2,4) by (simp add: name_absent_def same_geometry [OF same3])
  have dir1: "dir_lbas fs1 = dir_lbas fs3"
    using val1 root_clusters_valid db(3) by (intro dir_lbas_cong(1) [OF e(1)]) metis
  have ch: "chain fs1 cs"
  proof -
    have v3: "\<forall>x \<in> set cs. is_valid_cluster fs3 x" using valid by (simp add: same_geometry [OF same3])
    have v2: "\<forall>x \<in> set cs. is_valid_cluster fs2 x" using valid by (simp add: same_geometry [OF t(1)])
    have f2: "sector fs3 x = sector fs2 x" if "in_fat fs2 x" for x using that fat2 same_in_fat [OF t(1)] by simp
    show ?thesis
      using chain_after [OF ok3 e(1) v3 fat3] chain_after [OF t(3) st(8) v2 f2] st(6) by simp
  qed
  have bytes: "cluster_bytes fs1 c = cluster_bytes fs3 c" if "is_valid_cluster fs c" "c \<notin> set (root_clusters fs)" for c
  proof (rule cluster_bytes_cong [OF e(1)])
    fix x
    assume "x \<in> set (cluster_sectors fs3 c)"
    then have "x \<noteq> lba" using place(3) [OF that] by (auto simp: same_geometry [OF same3])
    then show "sector fs1 x = sector fs3 x" by (rule e(3))
  qed
  show thesis
  proof (rule that [of cs])
    have "map (cluster_bytes fs1) cs = map (cluster_bytes fs3) cs"
      using bytes valid used_not_new [OF assms(4) st(3)] by (intro map_cong) blast+
    then show "take (length dat) (concat (map (cluster_bytes fs1) cs)) = dat" using st(11) by (simp only:)
    show "\<exists>fs2. unchanged fs1 fs2 \<and> find_file_dir_entry dev name fs1 = (Some (hd cs, of_nat (length dat)), fs2)"
      using entry_found [OF assms(1) e(2,1) st(9) assms(5-7) absent dir1 e(4-6,3,7)] by metis
    show "fat_val fs1 c = fat_val fs c" if "is_valid_cluster fs c" "c \<notin> set cs" for c
      using val1 [OF that(1)] db(1) [of c] st(7) [OF that] that(1) by simp
    show "cluster_bytes fs1 c = cluster_bytes fs c"
      if c: "is_valid_cluster fs c" "c \<notin> set cs" "c \<notin> set (root_clusters fs)" for c
    proof -
      have "cluster_bytes fs3 c = cluster_bytes fs c"
      proof (rule cluster_bytes_cong [OF same3])
        fix x
        assume x: "x \<in> set (cluster_sectors fs c)"
        have "x \<notin> file_sectors fs cs" using clusters_apart [OF assms(2) c(1) valid] c(2) x by (auto simp: file_sectors_def)
        moreover have "\<not> in_fat fs x" using data_not_fat(1) [OF assms(2) c(1) x] .
        ultimately show "sector fs3 x = sector fs x" using st(5,10) by (simp add: table_only_def)
      qed
      then show ?thesis using bytes [OF c(1,3)] by simp
    qed
  qed (use st(1,3,4) same e(2) ch in simp_all)
qed

theorem write_then_read:
  assumes reliable "volume_ok fs" "sized fs" "root_used fs"
    and "length name = 11" "name ! 0 \<noteq> 0" "name ! 0 \<noteq> 0xE5" "name_absent fs name" "length dat < 2 ^ 31"
    and "fat32_write_file dev name dat fs = (True, fs1)" "max_size \<noteq> 0"
  shows "fst (fat32_read_file dev name True max_size fs1) = (True, take (unat max_size) dat, Some (of_nat (length dat)))"
proof -
  obtain cs where r: "cs \<noteq> []" "set cs \<subseteq> free_in fs" "length dat \<le> length cs * cluster_len fs"
    "same_volume fs fs1" "sized fs1" "chain fs1 cs" "take (length dat) (concat (map (cluster_bytes fs1) cs)) = dat"
    "\<exists>fs2. unchanged fs1 fs2 \<and> find_file_dir_entry dev name fs1 = (Some (hd cs, of_nat (length dat)), fs2)"
    using write_file_result [OF assms(1-10)] by metis
  obtain fs2 where f: "unchanged fs1 fs2" "find_file_dir_entry dev name fs1 = (Some (hd cs, of_nat (length dat)), fs2)"
    using r(8) by blast
  have u: "same_volume fs1 fs2" "sized fs2" "sector fs2 = sector fs1" using f(1) by (simp_all add: unchanged_def)
  have ok: "volume_ok fs1" using assms(2) same_volume_ok [OF r(4)] by simp
  have ok2: "volume_ok fs2" using ok same_volume_ok [OF u(1)] by simp
  have "chain fs2 cs = chain fs1 cs"
    by (rule chain_cong) (simp_all only: fat_val_same_sectors [OF u(1,3)] same_geometry(15) [OF u(1)])
  with r(6) have ch: "chain fs2 cs" by blast
  have valid: "\<forall>x \<in> set cs. is_valid_cluster fs2 x"
    using r(2) by (auto simp: free_in_def is_valid_cluster_def same_geometry [OF u(1)] same_geometry [OF r(4)])
  have bytes: "cluster_bytes fs2 = cluster_bytes fs1"
    by (rule ext) (rule cluster_bytes_cong [OF u(1)], simp add: u(3))
  have l: "unat (of_nat (length dat) :: u32) = length dat" using assms(9) by (intro unat_of_nat_small) simp
  let ?r = "unat (if of_nat (length dat) > max_size then max_size else of_nat (length dat) :: u32)"
  have m: "?r = min (unat max_size) (length dat)" using l by (auto simp: word_less_nat_alt)
  have len: "cluster_len fs2 = cluster_len fs" using same_volume_cluster [OF u(1)] same_volume_cluster [OF r(4)] by simp
  have "cs = [] \<and> \<not> is_valid_cluster fs2 (hd cs) \<or> cs \<noteq> [] \<and> hd cs = hd cs" using r(1) by simp
  moreover have "?r \<le> length cs * cluster_len fs2" using r(3) m len by simp
  ultimately obtain fs3 where rd: "read_clusters dev ?r (hd cs) ?r [] fs2 = (Some ([] @ take ?r (concat (map (cluster_bytes fs2) cs))), fs3)"
    using read_clusters_result [OF ok2 u(2) assms(1) ch valid _ order_refl] by blast
  have "take ?r (concat (map (cluster_bytes fs2) cs)) = take (unat max_size) (take (length dat) (concat (map (cluster_bytes fs1) cs)))"
    by (simp only: m bytes take_take)
  also have "\<dots> = take (unat max_size) dat" by (simp only: r(7))
  finally have out: "take ?r (concat (map (cluster_bytes fs2) cs)) = take (unat max_size) dat" .
  have ne: "(of_nat (length dat) :: u32) \<noteq> 0"
    using l assms(10) by (metis fat32_write_file_def length_0_conv prod.inject unat_0)
  show ?thesis
    using f(2) ne assms(11) rd unfolding out by (simp add: fat32_read_file_def Let_def split del: if_split)
qed

end

end
