(* ===== verification/Fat32_Delete.thy ===== *)
theory Fat32_Delete
  imports Fat32_File
begin

text \<open>
  Deleting a file, and replacing one: the entry loses its name, the clusters of its chain are free, and nothing else on
  the volume changes. As in the theories before, for every disk of the interface whose accesses to whole blocks succeed.
\<close>

section \<open>Walks that end with a change\<close>

context block_store begin

text \<open>Writes of whole blocks succeed.\<close>

definition writable :: bool where
  "writable \<longleftrightarrow> (\<forall>lba buf d. buf \<noteq> [] \<and> length buf = length (content d lba) \<and> length buf < 2 ^ 32 \<longrightarrow> fst (write_block dev lba buf d))"

lemma writable_write:
  assumes writable "sized fs"
  shows "fst (write_sector dev lba fs)"
proof -
  have b: "unat (bytes_per_sector fs) < 2 ^ 32" "0 < unat (bytes_per_sector fs)"
    using assms(2) unat_u32_less by (auto simp: sized_def word_less_nat_alt)
  have "sector_buf fs \<noteq> []" "length (sector_buf fs) = length (content (disk fs) (partition_lba fs + lba))" "length (sector_buf fs) < 2 ^ 32"
    using assms(2) b by (auto simp: sized_def sector_def)
  then have "fst (write_block dev (partition_lba fs + lba) (sector_buf fs) (disk fs))"
    using assms(1) unfolding writable_def by blast
  then show ?thesis by (auto simp: write_sector_def Let_def split: prod.split)
qed

text \<open>
  A walk whose steps only look while \<open>g\<close> holds, and that ends at the first sector where it does not hold, whatever
  the step does there.
\<close>

definition looks_while ::
  "(u32 \<Rightarrow> 'd fat32_fs \<Rightarrow> 'r step \<times> 'd fat32_fs) \<Rightarrow> (u32 \<Rightarrow> bool) \<Rightarrow> 'd fat32_fs \<Rightarrow> bool"
where
  "looks_while h g fs \<longleftrightarrow> (\<forall>x fs1. unchanged fs fs1 \<longrightarrow>
     (if g x then fst (h x fs1) = Go_On \<and> unchanged fs (snd (h x fs1)) else \<exists>r. fst (h x fs1) = Finish r))"

definition ends_at ::
  "(u32 \<Rightarrow> 'd fat32_fs \<Rightarrow> 'r step \<times> 'd fat32_fs) \<Rightarrow> 'd fat32_fs \<Rightarrow> u32 option \<Rightarrow> 'r option \<times> 'd fat32_fs \<Rightarrow> bool"
where
  "ends_at h fs at res = (case at of
     None \<Rightarrow> fst res = None \<and> unchanged fs (snd res)
   | Some x \<Rightarrow> \<exists>fs1 r fs2. unchanged fs fs1 \<and> h x fs1 = (Finish r, fs2) \<and> res = (Some r, fs2))"

lemma find_first_append: "find P (xs @ ys) = (case find P xs of None \<Rightarrow> find P ys | Some x \<Rightarrow> Some x)"
  by (induction xs) auto

lemma walk_sectors_until:
  assumes "looks_while h g fs" "unchanged fs fs1"
  shows "ends_at h fs (find (\<lambda>x. \<not> g x) lbas) (walk_sectors h lbas fs1)"
  using assms(2)
proof (induction lbas arbitrary: fs1)
  case Nil
  then show ?case by (simp add: ends_at_def)
next
  case (Cons x lbas)
  obtain s fs2 where h: "h x fs1 = (s, fs2)" by fastforce
  show ?case
  proof (cases "g x")
    case True
    then have "s = Go_On" "unchanged fs fs2"
      using assms(1) Cons.prems h unfolding looks_while_def by (metis fst_conv snd_conv)+
    then show ?thesis using Cons.IH [of fs2] h True by simp
  next
    case False
    then obtain r where "s = Finish r" using assms(1) Cons.prems h unfolding looks_while_def by (metis fst_conv)
    then show ?thesis using False h Cons.prems by (auto simp: ends_at_def)
  qed
qed

lemma walk_chain_until:
  assumes reliable "looks_while h g fs" "unchanged fs fs1"
  shows "ends_at h fs (find (\<lambda>x. \<not> g x) (concat (map (cluster_sectors fs) (root_chain fs n c)))) (walk_chain dev h n c fs1)"
  using assms(3)
proof (induction n arbitrary: c fs1)
  case 0
  then show ?case by (simp add: ends_at_def)
next
  case (Suc n)
  have same: "same_volume fs fs1" using Suc.prems by (simp add: unchanged_def)
  obtain r fs2 where w: "walk_sectors h (cluster_sectors fs c) fs1 = (r, fs2)" by fastforce
  note u = walk_sectors_until [OF assms(2) Suc.prems, of "cluster_sectors fs c", unfolded w]
  show ?case
  proof (cases "is_valid_cluster fs c")
    case False
    then show ?thesis using Suc.prems by (simp add: same_geometry [OF same] ends_at_def)
  next
    case valid: True
    show ?thesis
    proof (cases "find (\<lambda>x. \<not> g x) (cluster_sectors fs c)")
      case None
      then have r: "r = None" "unchanged fs fs2" using u by (simp_all add: ends_at_def)
      obtain v fs3 where e: "fat_read_entry dev c fs2 = (v, fs3)" by fastforce
      note ee = fat_read_entry_result [OF e]
      have u2: "same_volume fs fs2" "sector fs2 = sector fs" "sized fs2" using r(2) by (simp_all add: unchanged_def)
      have v: "v = fat_val fs c" using ee(4) reliable_read [OF assms(1) u2(3)] fat_val_same_sectors [OF u2(1,2)] by simp
      have u3: "unchanged fs fs3"
        using u2 same_volume_trans [OF u2(1) ee(1)] ee(2) table_only_read [OF e u2(3)] by (simp add: unchanged_def table_only_def)
      show ?thesis
        using valid w r(1) e v Suc.IH [OF u3, of v] None by (simp add: same_geometry [OF same] find_first_append)
    next
      case (Some x)
      then show ?thesis using valid w u by (auto simp: same_geometry [OF same] find_first_append ends_at_def)
    qed
  qed
qed

lemma walk_dir_until:
  assumes reliable "looks_while h g fs" "sized fs"
  shows "ends_at h fs (find (\<lambda>x. \<not> g x) (dir_lbas fs)) (walk_dir dev h fs)"
proof -
  have u: "unchanged fs fs" using assms(3) by (simp add: unchanged_def)
  show ?thesis
    using walk_sectors_until [OF assms(2) u] walk_chain_until [OF assms(1,2) u]
    by (simp add: walk_dir_def dir_lbas_def root_clusters_def)
qed

section \<open>Freeing a chain\<close>

lemma write_copies_ok:
  assumes reliable writable "volume_ok fs" "sized fs" "c < max_cluster fs" "fat + n \<le> unat (num_fats fs)"
  shows "fst (write_copies dev c v fat n fs)"
  using assms(3-6)
proof (induction n arbitrary: fat fs)
  case 0
  then show ?case by simp
next
  case (Suc n)
  let ?lba = "fat_start_lba fs + of_nat fat * sectors_per_fat fs + entry_sector fs c"
  obtain ok fs1 where r: "read_sector dev ?lba fs = (ok, fs1)" by fastforce
  have ok: ok using reliable_read [OF assms(1) Suc.prems(2), of ?lba] r by simp
  let ?fs = "fs1\<lparr>sector_buf := put_entry fs c v (sector_buf fs1)\<rparr>"
  have s1: "sized fs1" using r Suc.prems(2) by (rule read_sector_sized)
  have same: "same_volume fs fs1" using read_sector_result(1) [OF r] .
  have "length (put_entry fs c v (sector_buf fs1)) = unat (bytes_per_sector fs)"
    using entry_value_put(2) [OF Suc.prems(1,3)] s1 same_geometry(2) [OF same] by (simp add: sized_def)
  then have s2: "sized ?fs" using s1 same_geometry(2) [OF same] by (simp add: sized_def)
  obtain ok2 fs2 where w: "write_sector dev ?lba ?fs = (ok2, fs2)" by fastforce
  have ok2: ok2 using writable_write [OF assms(2) s2, of ?lba] w by simp
  have "fat < unat (num_fats fs)" using Suc.prems(4) by simp
  note one = write_copy_result(1,2) [OF Suc.prems(1-3) this refl, of fs1 v ok2 fs2] 
  have one: "same_volume fs fs2" "sized fs2" using one r ok w by simp_all
  have "fst (write_copies dev c v (fat + 1) n fs2)"
    using Suc.prems one by (intro Suc.IH) (simp_all add: same_volume_ok same_geometry)
  then show ?case using r ok w ok2 by simp
qed

lemma fat_write_entry_ok:
  assumes reliable writable "volume_ok fs" "sized fs" "c < max_cluster fs"
  shows "fst (fat_write_entry dev c v fs)"
  using write_copies_ok [OF assms] by (simp add: fat_write_entry_def)

lemma free_links_result:
  assumes reliable writable "volume_ok fs" "sized fs" "distinct (root_chain fs n c)"
  shows "table_only fs (free_links dev n c fs) \<and>
    (\<forall>d. is_valid_cluster fs d \<longrightarrow> fat_val (free_links dev n c fs) d = (if d \<in> set (root_chain fs n c) then 0 else fat_val fs d))"
  using assms(3-5)
proof (induction n arbitrary: c fs)
  case 0
  then show ?case by (simp add: table_only_refl)
next
  case (Suc n)
  show ?case
  proof (cases "is_valid_cluster fs c")
    case False
    then show ?thesis using Suc.prems(2) by (simp add: table_only_refl)
  next
    case True
    obtain v fs1 where e: "fat_read_entry dev c fs = (v, fs1)" by fastforce
    note ee = fat_read_entry_result [OF e]
    have v: "v = fat_val fs c" using ee(4) reliable_read [OF assms(1) Suc.prems(2)] by simp
    have t1: "table_only fs fs1" using e Suc.prems(2) by (rule table_only_read)
    note f1 = table_only_facts [OF t1 Suc.prems(1)]
    have val1: "fat_val fs1 = fat_val fs" using ee(1,2) by (rule fat_val_same_sectors)
    have c: "c < max_cluster fs1" using True f1(4) by (simp add: is_valid_cluster_def)
    obtain ok fs2 where w: "fat_write_entry dev c 0 fs1 = (ok, fs2)" by fastforce
    have ok: ok using fat_write_entry_ok [OF assms(1,2) f1(3,2) c, of 0] w by simp
    have t2: "table_only fs fs2" using t1 table_only_write [OF w f1(3,2) c] by (rule table_only_trans)
    note f2 = table_only_facts [OF t2 Suc.prems(1)]
    have z: "fat_mask fs1 0 = 0" by (simp add: fat_mask_def)
    have val2: "fat_val fs2 d = (if d = c then 0 else fat_val fs d)" if "is_valid_cluster fs d" for d
      using fat_write_entry_result(4) [OF f1(3,2) c w ok, of d] that f1(4) z val1 by (simp add: is_valid_cluster_def)
    have c_not: "c \<notin> set (root_chain fs n v)" and dist: "distinct (root_chain fs n v)"
      using Suc.prems(3) True v by simp_all
    have "\<forall>d \<in> set (root_chain fs n v). fat_val fs2 d = fat_val fs d"
      using val2 c_not root_chain_valid [of fs n v] by metis
    then have rc: "root_chain fs2 n v = root_chain fs n v" by (rule root_chain_cong [OF f2(1)])
    have ih: "table_only fs2 (free_links dev n v fs2) \<and>
        (\<forall>d. is_valid_cluster fs2 d \<longrightarrow>
          fat_val (free_links dev n v fs2) d = (if d \<in> set (root_chain fs n v) then 0 else fat_val fs2 d))"
      using Suc.IH [OF f2(3,2), of v] dist rc by simp
    have "free_links dev (Suc n) c fs = free_links dev n v fs2"
      using True e w ok by simp
    moreover have "set (root_chain fs (Suc n) c) = insert c (set (root_chain fs n v))" using True v by simp
    ultimately show ?thesis
      using ih table_only_trans [OF t2] val2 same_geometry [OF f2(1)] by simp
  qed
qed

end

section \<open>Deleting a file\<close>

text \<open>The entry that loses its name.\<close>

lemma erased_entry:
  assumes "length buf = unat (bytes_per_sector fs)" "off \<in> set (entry_offsets fs)"
  shows "entry_free (buf[off := 0xE5]) off" "length (buf[off := 0xE5]) = unat (bytes_per_sector fs)"
    "o' \<in> set (entry_offsets fs) \<Longrightarrow> o' \<noteq> off \<Longrightarrow> get_bytes o' 11 (buf[off := 0xE5]) = get_bytes o' 11 buf"
    "o' \<in> set (entry_offsets fs) \<Longrightarrow> o' \<noteq> off \<Longrightarrow> entry_free (buf[off := 0xE5]) o' = entry_free buf o'"
proof -
  have "off < length buf" using offset_inside [OF assms(2)] assms(1) by simp
  then show "entry_free (buf[off := 0xE5]) off" by (simp add: entry_free_def)
  show "length (buf[off := 0xE5]) = unat (bytes_per_sector fs)" using assms(1) by simp
  assume o: "o' \<in> set (entry_offsets fs)" "o' \<noteq> off"
  show "entry_free (buf[off := 0xE5]) o' = entry_free buf o'" using o(2) by (simp add: entry_free_def)
  have "off < o' \<or> o' + 11 \<le> off" using offsets_apart [OF o(1) assms(2) o(2)] by auto
  then show "get_bytes o' 11 (buf[off := 0xE5]) = get_bytes o' 11 buf"
    by (intro nth_equalityI) (auto simp: get_bytes_def nth_list_update)
qed

lemma find_name_Match:
  assumes "find_name name buf offs = Match off"
  shows "off \<in> set offs" "\<not> entry_free buf off" "get_bytes off 11 buf = take 11 name"
  using assms by (induction offs) (auto simp: entry_free_def split: if_splits)

lemma find_name_in_use:
  assumes "find_name name buf offs = No_Match" "o' \<in> set offs" "\<not> entry_free buf o'" "and (buf ! (o' + 11)) 0x18 = 0"
  shows "get_bytes o' 11 buf \<noteq> take 11 name"
  using assms by (induction offs) (auto simp: entry_free_def split: if_splits)

context block_store begin

text \<open>Where the file is: the first entry that the search meets.\<close>

definition found_at :: "'d fat32_fs \<Rightarrow> u8 list \<Rightarrow> (u32 \<times> nat) option" where
  "found_at fs name =
     (case find (\<lambda>x. find_name name (sector fs x) (entry_offsets fs) \<noteq> No_Match) (dir_lbas fs) of
        None \<Rightarrow> None
      | Some x \<Rightarrow> (case find_name name (sector fs x) (entry_offsets fs) of Match off \<Rightarrow> Some (x, off) | _ \<Rightarrow> None))"

definition file_chain :: "'d fat32_fs \<Rightarrow> u8 list \<Rightarrow> u32 list" where
  "file_chain fs name =
     (case found_at fs name of
        None \<Rightarrow> []
      | Some (x, off) \<Rightarrow> root_chain fs (unat (max_cluster fs)) (entry_cluster (sector fs x) off))"

text \<open>At most that entry has the name, and its clusters are linked in a line of their own.\<close>

definition replaceable :: "'d fat32_fs \<Rightarrow> u8 list \<Rightarrow> bool" where
  "replaceable fs name \<longleftrightarrow>
     distinct (file_chain fs name) \<and> set (file_chain fs name) \<inter> set (root_clusters fs) = {} \<and>
     (\<forall>x \<in> set (dir_lbas fs). \<forall>off \<in> set (entry_offsets fs).
       found_at fs name \<noteq> Some (x, off) \<and> \<not> entry_free (sector fs x) off \<longrightarrow> get_bytes off 11 (sector fs x) \<noteq> name)"

lemma delete_looks:
  assumes reliable
  shows "looks_while (delete_step dev name) (\<lambda>x. find_name name (sector fs x) (entry_offsets fs) = No_Match) fs"
  unfolding looks_while_def
proof (intro allI impI)
  fix x fs1
  assume u: "unchanged fs fs1"
  obtain ok fs2 where r: "read_sector dev x fs1 = (ok, fs2)" by fastforce
  note rr = read_unchanged [OF assms u r]
  show "if find_name name (sector fs x) (entry_offsets fs) = No_Match
      then fst (delete_step dev name x fs1) = Go_On \<and> unchanged fs (snd (delete_step dev name x fs1))
      else \<exists>res. fst (delete_step dev name x fs1) = Finish res"
    using r rr by (auto simp: delete_step_def Let_def split: name_search.split prod.split)
qed

text \<open>When there is nothing to delete the volume stays as it is.\<close>

lemma delete_absent:
  assumes reliable "sized fs" "found_at fs name = None" "fat32_delete_file dev name fs = (ok, fs1)"
  shows "\<not> ok" "unchanged fs fs1"
proof -
  note e = walk_dir_until [OF assms(1) delete_looks [OF assms(1), of name fs] assms(2)]
  have "\<not> ok \<and> unchanged fs fs1"
  proof (cases "find (\<lambda>x. find_name name (sector fs x) (entry_offsets fs) \<noteq> No_Match) (dir_lbas fs)")
    case None
    then show ?thesis using e assms(4) by (auto simp: ends_at_def fat32_delete_file_def Let_def split: prod.splits)
  next
    case (Some x)
    then have "find_name name (sector fs x) (entry_offsets fs) \<noteq> No_Match" by (auto simp: find_Some_iff)
    then have m: "find_name name (sector fs x) (entry_offsets fs) = End_Mark"
      using assms(3) Some by (cases "find_name name (sector fs x) (entry_offsets fs)") (simp_all add: found_at_def)
    obtain fs2 r fs3 where d: "unchanged fs fs2" "delete_step dev name x fs2 = (Finish r, fs3)"
        "walk_dir dev (delete_step dev name) fs = (Some r, fs3)"
      using e Some by (auto simp: ends_at_def)
    obtain ok2 fs4 where rd: "read_sector dev x fs2 = (ok2, fs4)" by fastforce
    note rr = read_unchanged [OF assms(1) d(1) rd]
    show ?thesis using d(2,3) rd rr m assms(4) by (auto simp: delete_step_def fat32_delete_file_def)
  qed
  then show "\<not> ok" "unchanged fs fs1" by simp_all
qed

text \<open>Otherwise the entry is marked, and the clusters are freed.\<close>

lemma delete_found:
  assumes reliable writable "volume_ok fs" "sized fs" "found_at fs name = Some (x, off)"
    and "distinct (file_chain fs name)" "fat32_delete_file dev name fs = (ok, fs1)"
  obtains fs2 where ok "same_volume fs fs2" "sized fs2" "sector fs2 = (sector fs)(x := (sector fs x)[off := 0xE5])"
    "table_only fs2 fs1" "x \<in> set (dir_lbas fs)"
    "\<And>d. is_valid_cluster fs d \<Longrightarrow> fat_val fs1 d = (if d \<in> set (file_chain fs name) then 0 else fat_val fs d)"
proof -
  note e = walk_dir_until [OF assms(1) delete_looks [OF assms(1), of name fs] assms(4)]
  have f: "find (\<lambda>x. find_name name (sector fs x) (entry_offsets fs) \<noteq> No_Match) (dir_lbas fs) = Some x"
      "find_name name (sector fs x) (entry_offsets fs) = Match off"
    using assms(5) by (auto simp: found_at_def split: option.splits name_search.splits)
  have x: "x \<in> set (dir_lbas fs)" using f(1) by (auto simp: find_Some_iff)
  note m = find_name_Match [OF f(2)]
  obtain fsa r fsb where d: "unchanged fs fsa" "delete_step dev name x fsa = (Finish r, fsb)"
      "walk_dir dev (delete_step dev name) fs = (Some r, fsb)"
    using e f(1) by (auto simp: ends_at_def)
  obtain ok2 fsc where rd: "read_sector dev x fsa = (ok2, fsc)" by fastforce
  note rr = read_unchanged [OF assms(1) d(1) rd]
  have u: "same_volume fs fsc" "sized fsc" "sector fsc = sector fs" using rr(2) by (simp_all add: unchanged_def)
  let ?new = "(sector fs x)[off := 0xE5]" and ?c = "entry_cluster (sector fs x) off"
  have len: "length ?new = unat (bytes_per_sector fs)" using assms(4) by (simp add: sized_def)
  have s1: "sized (fsc\<lparr>sector_buf := ?new\<rparr>)" using u len by (simp add: sized_def same_geometry [OF u(1)])
  obtain ok3 fs2 where w: "write_sector dev x (fsc\<lparr>sector_buf := ?new\<rparr>) = (ok3, fs2)" by fastforce
  have ok3: ok3 using writable_write [OF assms(2) s1, of x] w by simp
  note ws = write_sector_result [OF w]
  have s2: "sized fs2" using w s1 by (rule write_sector_sized)
  have same: "same_volume fs fs2" using u(1) ws(1) same_volume_buf same_volume_trans by blast
  have sec: "sector fs2 = (sector fs)(x := ?new)" using ws(2,3) ok3 u(3) by (auto simp: fun_eq_iff)
  have ok_fs2: "volume_ok fs2" using assms(3) same_volume_ok [OF same] by simp
  have fat: "sector fs2 y = sector fs y" if "in_fat fs y" for y
    using that dir_sector_place(1) [OF assms(3) x] sec by auto
  have val: "fat_val fs2 d = fat_val fs d" if "is_valid_cluster fs d" for d
    using that by (intro fat_val_cong [OF same assms(3) _ fat]) (auto simp: is_valid_cluster_def)
  have ok: "ok" "fs1 = (if ?c \<noteq> 0 then fat_free_chain dev ?c fs2 else fs2)"
    using d(2,3) rd rr w ok3 f(2) assms(7) by (auto simp: delete_step_def fat32_delete_file_def Let_def)
  have fc: "file_chain fs name = root_chain fs (unat (max_cluster fs)) ?c" by (simp add: file_chain_def assms(5))
  have rc: "root_chain fs2 (unat (max_cluster fs)) ?c = root_chain fs (unat (max_cluster fs)) ?c"
    using val root_chain_valid [of fs] by (intro root_chain_cong [OF same]) blast
  have dist: "distinct (root_chain fs2 (unat (max_cluster fs2)) ?c)"
    using assms(6) fc rc by (simp add: same_geometry [OF same])
  note free = free_links_result [OF assms(1,2) ok_fs2 s2 dist]
  have rc2: "root_chain fs2 (unat (max_cluster fs2)) ?c = file_chain fs name" using fc rc by (simp add: same_geometry [OF same])
  have empty: "?c = 0 \<Longrightarrow> file_chain fs name = []"
    unfolding fc by (cases "unat (max_cluster fs)") (simp_all add: is_valid_cluster_def)
  show thesis
  proof (rule that [of fs2])
    show "table_only fs2 fs1" using free ok(2) s2 by (auto simp: fat_free_chain_def table_only_refl)
    show "fat_val fs1 d = (if d \<in> set (file_chain fs name) then 0 else fat_val fs d)" if "is_valid_cluster fs d" for d
      using free ok(2) val [OF that] that rc2 empty same_geometry(14) [OF same]
      by (auto simp: fat_free_chain_def same_geometry [OF same])
  qed (use ok(1) same s2 sec x in simp_all)
qed

end

context block_store begin

lemma root_same:
  assumes "same_volume fs fs1" "\<And>d. is_valid_cluster fs d \<Longrightarrow> fat_val fs1 d = (if d \<in> F then 0 else fat_val fs d)"
    and "F \<inter> set (root_clusters fs) = {}" "root_used fs"
  shows "dir_lbas fs1 = dir_lbas fs" "root_clusters fs1 = root_clusters fs" "root_used fs1"
proof -
  have keep: "\<forall>c \<in> set (root_clusters fs). fat_val fs1 c = fat_val fs c"
    using assms(2,3) root_clusters_valid by (metis disjoint_iff)
  show "dir_lbas fs1 = dir_lbas fs" and r: "root_clusters fs1 = root_clusters fs" using dir_lbas_cong [OF assms(1) keep] .
  show "root_used fs1" using keep assms(4) r by (simp add: root_used_def)
qed

theorem delete_file_result:
  assumes reliable writable "volume_ok fs" "sized fs" "root_used fs" "length name = 11" "replaceable fs name"
    and "fat32_delete_file dev name fs = (ok, fs1)"
  shows "ok \<longleftrightarrow> found_at fs name \<noteq> None" "same_volume fs fs1" "sized fs1" "root_used fs1" "name_absent fs1 name"
    "\<And>d. is_valid_cluster fs d \<Longrightarrow> fat_val fs1 d = (if d \<in> set (file_chain fs name) then 0 else fat_val fs d)"
    "\<And>d. is_valid_cluster fs d \<Longrightarrow> d \<notin> set (root_clusters fs) \<Longrightarrow> cluster_bytes fs1 d = cluster_bytes fs d"
proof -
  note rep = assms(7) [unfolded replaceable_def]
  have "(ok \<longleftrightarrow> found_at fs name \<noteq> None) \<and> same_volume fs fs1 \<and> sized fs1 \<and> root_used fs1 \<and> name_absent fs1 name \<and>
      (\<forall>d. is_valid_cluster fs d \<longrightarrow> fat_val fs1 d = (if d \<in> set (file_chain fs name) then 0 else fat_val fs d)) \<and>
      (\<forall>d. is_valid_cluster fs d \<and> d \<notin> set (root_clusters fs) \<longrightarrow> cluster_bytes fs1 d = cluster_bytes fs d)"
  proof (cases "found_at fs name")
    case None
    note a = delete_absent [OF assms(1,4) None assms(8)]
    have u: "same_volume fs fs1" "sized fs1" "sector fs1 = sector fs" using a(2) by (simp_all add: unchanged_def)
    have val: "fat_val fs1 = fat_val fs" using u(1,3) by (rule fat_val_same_sectors)
    have "F = {} \<Longrightarrow> dir_lbas fs1 = dir_lbas fs \<and> root_used fs1" for F
      using root_same [OF u(1), of "{}"] val assms(5) by simp
    then have d: "dir_lbas fs1 = dir_lbas fs" "root_used fs1" by simp_all
    have "cluster_bytes fs1 c = cluster_bytes fs c" for c by (rule cluster_bytes_cong [OF u(1)]) (simp add: u(3))
    moreover have "name_absent fs1 name"
      using rep None by (simp add: name_absent_def d(1) u(3) same_geometry [OF u(1)])
    ultimately show ?thesis using None a(1) u d(2) val by (simp add: file_chain_def)
  next
    case (Some p)
    obtain x off where p: "p = (x, off)" by fastforce
    obtain fs2 where s: "ok" "same_volume fs fs2" "sized fs2" "sector fs2 = (sector fs)(x := (sector fs x)[off := 0xE5])"
        "table_only fs2 fs1" "x \<in> set (dir_lbas fs)"
        "\<And>d. is_valid_cluster fs d \<Longrightarrow> fat_val fs1 d = (if d \<in> set (file_chain fs name) then 0 else fat_val fs d)"
      using delete_found [OF assms(1-4) Some [unfolded p] _ assms(8)] rep by metis
    have off: "off \<in> set (entry_offsets fs)"
      using Some unfolding p by (auto simp: found_at_def dest: find_name_Match(1) split: option.splits name_search.splits)
    have t: "same_volume fs2 fs1" "sized fs1" using s(5) by (simp_all add: table_only_def)
    have same: "same_volume fs fs1" using s(2) t(1) by (rule same_volume_trans)
    have rep2: "set (file_chain fs name) \<inter> set (root_clusters fs) = {}" using rep by blast
    note rs = root_same [OF same s(7) rep2 assms(5)]
    have sec: "sector fs1 y = sector fs2 y" if "\<not> in_fat fs y" for y
      using s(5) that same_in_fat [OF s(2)] by (simp add: table_only_def)
    have len: "length (sector fs x) = unat (bytes_per_sector fs)" using assms(4) by (simp add: sized_def)
    note er = erased_entry [OF len off]
    have "get_bytes o' 11 (sector fs1 y) \<noteq> name"
      if y: "y \<in> set (dir_lbas fs)" "o' \<in> set (entry_offsets fs)" "\<not> entry_free (sector fs1 y) o'" for y o'
    proof (cases "y = x")
      case True
      then have s1: "sector fs1 y = (sector fs x)[off := 0xE5]" using sec dir_sector_place(1) [OF assms(3) y(1)] s(4) by simp
      have ne: "o' \<noteq> off" using y(3) er(1) unfolding s1 by blast
      then have "found_at fs name \<noteq> Some (y, o')" using Some p by simp
      then show ?thesis
        using rep y er(3,4) [OF y(2) ne] True s1 by simp
    next
      case False
      then have "sector fs1 y = sector fs y" using sec dir_sector_place(1) [OF assms(3) y(1)] s(4) by simp
      then show ?thesis using rep y False Some p by simp
    qed
    then have "name_absent fs1 name" by (simp add: name_absent_def rs(1) same_geometry [OF same])
    moreover have "cluster_bytes fs1 d = cluster_bytes fs d" if d: "is_valid_cluster fs d" "d \<notin> set (root_clusters fs)" for d
    proof (rule cluster_bytes_cong [OF same])
      fix y
      assume y: "y \<in> set (cluster_sectors fs d)"
      have "y \<noteq> x" using dir_sector_place(3) [OF assms(3) s(6) d] y by blast
      then show "sector fs1 y = sector fs y" using sec data_not_fat(1) [OF assms(3) d(1) y] s(4) by simp
    qed
    ultimately show ?thesis using Some s(1,7) same t(2) rs(3) by simp
  qed
  then show "ok \<longleftrightarrow> found_at fs name \<noteq> None" "same_volume fs fs1" "sized fs1" "root_used fs1" "name_absent fs1 name"
    "\<And>d. is_valid_cluster fs d \<Longrightarrow> fat_val fs1 d = (if d \<in> set (file_chain fs name) then 0 else fat_val fs d)"
    "\<And>d. is_valid_cluster fs d \<Longrightarrow> d \<notin> set (root_clusters fs) \<Longrightarrow> cluster_bytes fs1 d = cluster_bytes fs d"
    by blast+
qed

text \<open>Replacing a file: what was there is gone, the new data reads back.\<close>

theorem replace_then_read:
  assumes reliable writable "volume_ok fs" "sized fs" "root_used fs"
    and "length name = 11" "name ! 0 \<noteq> 0" "name ! 0 \<noteq> 0xE5" "replaceable fs name" "length dat < 2 ^ 31"
    and "fat32_write_file dev name dat (snd (fat32_delete_file dev name fs)) = (True, fs1)" "max_size \<noteq> 0"
  shows "fst (fat32_read_file dev name True max_size fs1) = (True, take (unat max_size) dat, Some (of_nat (length dat)))"
proof -
  obtain ok fs2 where d: "fat32_delete_file dev name fs = (ok, fs2)" by fastforce
  note r = delete_file_result [OF assms(1-6,9) d]
  have "volume_ok fs2" using assms(3) same_volume_ok [OF r(2)] by simp
  moreover have "fat32_write_file dev name dat fs2 = (True, fs1)" using assms(11) d by simp
  ultimately show ?thesis
    using r(3-5) assms(1,6-8,10,12) by (intro write_then_read [of fs2])
qed

end

end
