(* ===== verification/Fat32_Undo.thy ===== *)
theory Fat32_Undo
  imports Fat32_Delete
begin

text \<open>
  What \<open>fat32_write_file\<close> leaves behind when it fails on a disk whose accesses succeed: nothing. The clusters that it had
  linked are free again, and no other sector has changed.
\<close>

section \<open>Writes that do not succeed\<close>

context block_store begin

text \<open>On a disk whose accesses succeed, an allocation fails only when nothing is free, and then nothing has changed.\<close>

lemma alloc_from_full:
  assumes reliable writable "volume_ok fs" "sized fs" "c \<noteq> 0" "alloc_from dev c fs = (0, fs1)"
  shows "unchanged fs fs1"
  using assms(3-6)
proof (induction "unat (max_cluster fs) - unat c" arbitrary: c fs rule: less_induct)
  case less
  note prems = less.prems
  show ?case
  proof (cases "c < max_cluster fs")
    case False
    then show ?thesis using prems by (simp add: alloc_from.simps [of _ c fs] unchanged_def)
  next
    case True
    obtain v fs2 where r: "fat_read_entry dev c fs = (v, fs2)" by fastforce
    note rr = fat_read_entry_result [OF r]
    have u: "unchanged fs fs2" using rr(1,2) table_only_read [OF r prems(2)] by (simp add: unchanged_def table_only_def)
    have ok2: "volume_ok fs2" "sized fs2" using prems(1) u by (auto simp: unchanged_def dest: same_volume_ok)
    have c2: "c < max_cluster fs2" using True by (simp add: same_geometry [OF rr(1)])
    show ?thesis
    proof (cases "v = 0")
      case True
      then have False
        using fat_write_entry_ok [OF assms(1,2) ok2 c2, of "eoc_value fs2"] prems(3,4) r \<open>c < max_cluster fs\<close>
        by (auto simp: alloc_from.simps [of _ c fs] split: prod.splits if_splits)
      then show ?thesis ..
    next
      case False
      have step: "unat (c + 1) = Suc (unat c)" by (rule word_less_Suc_unat [OF \<open>c < max_cluster fs\<close>])
      then have ne: "c + 1 \<noteq> 0" by auto
      have "alloc_from dev (c + 1) fs2 = (0, fs1)" using prems(4) r True False by (simp add: alloc_from.simps [of _ c fs])
      then have "unchanged fs2 fs1"
        using ok2 True step ne by (intro less.hyps) (simp_all add: same_geometry [OF rr(1)] word_less_nat_alt)
      with u show ?thesis by (rule unchanged_trans)
    qed
  qed
qed

lemma alloc_chain_full:
  assumes reliable writable "volume_ok fs" "sized fs" "prev = 0 \<or> prev < max_cluster fs" "alloc_chain dev n first prev fs = (False, first1, fs1)"
  shows "\<exists>m fs2. alloc_chain dev m first prev fs = (True, first1, fs2) \<and> unchanged fs2 fs1"
  using assms(3-6)
proof (induction n arbitrary: first prev fs)
  case 0
  then show ?case by simp
next
  case (Suc n)
  obtain c fs2 where a: "fat_alloc_cluster dev fs = (c, fs2)" by fastforce
  note al = fat_alloc_result [OF Suc.prems(1,2) a]
  note t = table_only_facts [OF al(1) Suc.prems(1)]
  show ?case
  proof (cases "c = 0")
    case True
    then have "unchanged fs fs2" using alloc_from_full [OF assms(1,2) Suc.prems(1,2), of 2] a by (simp add: fat_alloc_cluster_def)
    moreover have "fs1 = fs2" "first1 = first" using Suc.prems(4) a True by simp_all
    ultimately show ?thesis by (intro exI [of _ 0] exI [of _ fs]) simp
  next
    case False
    then have cm: "c < max_cluster fs" using al(2) by (simp add: free_in_def)
    define first2 where "first2 = (if first = 0 then c else first)"
    define fs3 where "fs3 = (if prev \<noteq> 0 then snd (fat_write_entry dev prev c fs2) else fs2)"
    have w: "prev \<noteq> 0 \<Longrightarrow> fat_write_entry dev prev c fs2 = (True, fs3)"
      using fat_write_entry_ok [OF assms(1,2) t(3,2), of prev c] Suc.prems(3) t(4) by (auto simp: fs3_def prod_eq_iff)
    have step: "alloc_chain dev (Suc k) first prev fs = alloc_chain dev k first2 c fs3" for k
    proof (cases "prev = 0")
      case True
      then show ?thesis using a \<open>c \<noteq> 0\<close> by (simp add: first2_def fs3_def)
    next
      case prev: False
      then show ?thesis using a \<open>c \<noteq> 0\<close> w [OF prev] by (simp add: first2_def)
    qed
    have t3: "table_only fs fs3"
    proof (cases "prev = 0")
      case True
      then show ?thesis using al(1) by (simp add: fs3_def)
    next
      case False
      then show ?thesis
        using table_only_trans [OF al(1) table_only_write [OF w t(3,2)]] Suc.prems(3) t(4) by simp
    qed
    note t3' = table_only_facts [OF t3 Suc.prems(1)]
    obtain m fs4 where "alloc_chain dev m first2 c fs3 = (True, first1, fs4)" "unchanged fs4 fs1"
      using Suc.IH [OF t3'(3,2), of c first2] Suc.prems(4) step [of n] cm t3'(4) by auto
    then show ?thesis using step [of m] by (intro exI [of _ "Suc m"] exI [of _ fs4]) simp
  qed
qed

lemma write_cluster_ok:
  assumes writable "sized fs"
  shows "\<exists>rest fs1. write_cluster dev lbas src fs = (Some rest, fs1) \<and> same_volume fs fs1 \<and> sized fs1"
  using assms(2)
proof (induction lbas arbitrary: src fs)
  case Nil
  then show ?case by simp
next
  case (Cons lba lbas)
  show ?case
  proof (cases "src = []")
    case True
    then show ?thesis using Cons.prems by simp
  next
    case False
    let ?bps = "unat (bytes_per_sector fs)"
    define w where "w = (if length src < ?bps then length src else ?bps)"
    define new where "new = put_bytes 0 (take w src) (if w < ?bps then put_bytes 0 (replicate ?bps 0) (sector_buf fs) else sector_buf fs)"
    have "length new = ?bps" using Cons.prems by (simp add: new_def w_def sized_def)
    then have s: "sized (fs\<lparr>sector_buf := new\<rparr>)" using Cons.prems by (simp add: sized_def)
    obtain ok fs2 where wr: "write_sector dev lba (fs\<lparr>sector_buf := new\<rparr>) = (ok, fs2)" by fastforce
    have ok: ok using writable_write [OF assms(1) s, of lba] wr by simp
    have s2: "sized fs2" using wr s by (rule write_sector_sized)
    have v: "same_volume fs fs2" using write_sector_result(1) [OF wr] same_volume_buf same_volume_trans by blast
    obtain rest fs1 where "write_cluster dev lbas (drop w src) fs2 = (Some rest, fs1)" "same_volume fs2 fs1" "sized fs1"
      using Cons.IH [OF s2] by blast
    moreover have "write_cluster dev (lba # lbas) src fs = write_cluster dev lbas (drop w src) fs2"
      using False wr ok by (simp add: Let_def w_def new_def)
    ultimately show ?thesis using same_volume_trans [OF v] by simp
  qed
qed

lemma write_clusters_ok:
  assumes writable "sized fs"
  shows "fst (write_clusters dev n c src fs) \<noteq> None"
  using assms(2)
proof (induction n arbitrary: c src fs)
  case 0
  then show ?case by simp
next
  case (Suc n)
  obtain rest fs1 where w: "write_cluster dev (cluster_sectors fs c) src fs = (Some rest, fs1)" "sized fs1"
    using write_cluster_ok [OF assms(1) Suc.prems] by blast
  obtain v fs2 where r: "fat_read_entry dev c fs1 = (v, fs2)" by fastforce
  have "sized fs2" using table_only_read [OF r w(2)] by (simp add: table_only_def)
  then show ?case using Suc.IH w(1) r by simp
qed

lemma write_dir_entry_full:
  assumes reliable writable "sized fs" "length name = 11" "write_dir_entry dev name c sz fs = (False, fs1)"
  shows "unchanged fs fs1"
proof -
  note w = walk_dir_scan [OF assms(1) free_steps [OF assms(1)] no_leaves(1) assms(3)]
  obtain r fs2 where f: "find_free_dir_entry dev fs = (r, fs2)" by fastforce
  have u: "unchanged fs fs2" using w(2) f by (simp add: find_free_dir_entry_def Let_def split: prod.splits)
  show ?thesis
  proof (cases r)
    case None
    then show ?thesis using assms(5) f u by (simp add: write_dir_entry_def)
  next
    case (Some p)
    obtain lba off where p: "p = (lba, off)" by fastforce
    have fnd: "find_free_dir_entry dev fs = (Some (lba, off), fs2)" using f Some p by simp
    obtain pre post where "find (entry_free (sector fs lba)) (entry_offsets fs) = Some off"
      using find_free_result [OF assms(1,3) fnd] by metis
    then have "off \<in> set (entry_offsets fs)" by (metis find_Some_iff nth_mem)
    then have off: "off + 32 \<le> length (sector fs lba)" using offset_inside assms(3) by (metis sized_def)
    obtain ok fs3 where r: "read_sector dev lba fs2 = (ok, fs3)" by fastforce
    note rr = read_unchanged [OF assms(1) u r]
    let ?fs = "fs3\<lparr>sector_buf := put_bytes off (dir_entry name c sz) (sector_buf fs3)\<rparr>"
    have s3: "sized fs3" "sector fs3 = sector fs" using rr(2) by (simp_all add: unchanged_def)
    then have len: "length (sector_buf fs3) = unat (bytes_per_sector fs3)" "off + 32 \<le> length (sector_buf fs3)"
      using off rr(3) by (simp_all add: sized_def)
    then have "sized ?fs" using s3(1) length_dir_entry [OF assms(4)] by (simp add: sized_def)
    then have "fst (write_sector dev lba ?fs)" by (rule writable_write [OF assms(2)])
    then have False using assms(5) f Some p r rr(1) by (simp add: write_dir_entry_def)
    then show ?thesis ..
  qed
qed

end

context block_store begin

lemma chain_root:
  assumes "chain fs cs" "volume_ok fs" "\<forall>x \<in> set cs. is_valid_cluster fs x" "cs \<noteq> []" "length cs \<le> n"
  shows "root_chain fs n (hd cs) = cs"
  using assms(1,3-5)
proof (induction cs arbitrary: n rule: induct_list012)
  case (2 c)
  then obtain m where n: "n = Suc m" by (cases n) auto
  have "root_chain fs m (eoc_value fs) = []" using eoc_invalid [OF assms(2)] by (cases m) simp_all
  then show ?case using 2 n by simp
next
  case (3 c d cs)
  then obtain m where n: "n = Suc m" by (cases n) auto
  then show ?case using 3 by simp
qed simp

lemma few_clusters:
  assumes "distinct cs" "\<forall>x \<in> set cs. x < max_cluster fs"
  shows "length cs \<le> unat (max_cluster fs)"
proof -
  have "unat ` set cs \<subseteq> {..<unat (max_cluster fs)}" using assms(2) by (auto simp: word_less_nat_alt)
  then have "card (unat ` set cs) \<le> unat (max_cluster fs)" by (metis card_lessThan card_mono finite_lessThan)
  moreover have "card (unat ` set cs) = length cs"
    using assms(1) by (simp add: card_image distinct_card inj_on_def word_unat_eq_iff)
  ultimately show ?thesis by simp
qed

text \<open>What a write may have done before it gives up: it has linked clusters that were free, and written to them.\<close>

definition only_new :: "'d fat32_fs \<Rightarrow> u32 list \<Rightarrow> 'd fat32_fs \<Rightarrow> bool" where
  "only_new fs cs fs1 \<longleftrightarrow> same_volume fs fs1 \<and> sized fs1 \<and>
     (\<forall>c. is_valid_cluster fs c \<and> c \<notin> set cs \<longrightarrow> fat_val fs1 c = fat_val fs c) \<and>
     (\<forall>x. \<not> in_fat fs x \<and> x \<notin> file_sectors fs cs \<longrightarrow> sector fs1 x = sector fs x)"

lemma undo_result:
  assumes reliable writable "volume_ok fs" "only_new fs cs fs2" "chain fs2 cs" "distinct cs" "set cs \<subseteq> free_in fs"
    and "first = (if cs = [] then 0 else hd cs)" "undo_write dev first fs2 = (ok, fs1)"
  shows "\<not> ok" "only_new fs cs fs1" "is_valid_cluster fs c \<Longrightarrow> fat_val fs1 c = fat_val fs c"
proof -
  note new = assms(4) [unfolded only_new_def]
  have same: "same_volume fs fs2" using new by blast
  have ok2: "volume_ok fs2" using assms(3) same_volume_ok [OF same] by simp
  have valid: "\<forall>x \<in> set cs. is_valid_cluster fs x" using assms(7) by (auto simp: free_in_def is_valid_cluster_def)
  have "\<not> ok \<and> only_new fs cs fs1 \<and> (\<forall>c. is_valid_cluster fs c \<longrightarrow> fat_val fs1 c = fat_val fs c)"
  proof (cases "cs = []")
    case True
    then show ?thesis using assms(4,8,9) new by (simp add: undo_write_def)
  next
    case False
    have hd: "hd cs \<noteq> 0" using False valid by (cases cs) (auto simp: is_valid_cluster_def)
    then have fs1: "\<not> ok" "fs1 = free_links dev (unat (max_cluster fs2)) (hd cs) fs2"
      using assms(8,9) False by (simp_all add: undo_write_def fat_free_chain_def)
    have "length cs \<le> unat (max_cluster fs2)"
      using valid by (intro few_clusters [OF assms(6)]) (simp add: is_valid_cluster_def same_geometry [OF same])
    then have rc: "root_chain fs2 (unat (max_cluster fs2)) (hd cs) = cs"
      using chain_root [OF assms(5) ok2 _ False] valid by (simp add: same_geometry [OF same])
    have "table_only fs2 fs1 \<and> (\<forall>d. is_valid_cluster fs2 d \<longrightarrow> fat_val fs1 d = (if d \<in> set cs then 0 else fat_val fs2 d))"
      using free_links_result [OF assms(1,2) ok2, of "unat (max_cluster fs2)" "hd cs"] new assms(6) rc fs1(2) by simp
    moreover have "fat_val fs d = 0" if "d \<in> set cs" for d using assms(7) that by (auto simp: free_in_def)
    ultimately show ?thesis
      using fs1(1) new same_volume_trans [OF same, of fs1] same_in_fat [OF same]
      by (auto simp: only_new_def table_only_def same_geometry [OF same])
  qed
  then show "\<not> ok" "only_new fs cs fs1" "is_valid_cluster fs c \<Longrightarrow> fat_val fs1 c = fat_val fs c" by blast+
qed

lemma only_new_unchanged: "only_new fs cs fs1 \<Longrightarrow> unchanged fs1 fs2 \<Longrightarrow> only_new fs cs fs2"
proof -
  assume a: "only_new fs cs fs1" "unchanged fs1 fs2"
  have "fat_val fs2 = fat_val fs1" using a(2) by (intro fat_val_same_sectors) (simp_all add: unchanged_def)
  then show ?thesis using a same_volume_trans [of fs fs1 fs2] by (simp add: only_new_def unchanged_def)
qed

lemma chain_unchanged: "unchanged fs fs1 \<Longrightarrow> chain fs1 cs = chain fs cs"
proof -
  assume u: "unchanged fs fs1"
  have "fat_val fs1 = fat_val fs" using u by (intro fat_val_same_sectors) (simp_all add: unchanged_def)
  moreover have "same_volume fs fs1" using u by (simp add: unchanged_def)
  ultimately show ?thesis by (intro chain_cong) (simp_all add: same_geometry)
qed

lemma allocated_new:
  assumes "volume_ok fs" "sized fs" "alloc_chain dev n 0 0 fs = (True, first, fs1)"
  obtains cs where "only_new fs cs fs1" "chain fs1 cs" "distinct cs" "set cs \<subseteq> free_in fs" "first = (if cs = [] then 0 else hd cs)"
proof -
  obtain cs where cs: "distinct cs" "set cs \<subseteq> free_in fs" "first = (if cs = [] then 0 else hd cs)" "chain fs1 cs" "table_only fs fs1"
      "\<forall>c < max_cluster fs. c \<notin> set cs \<and> c \<noteq> 0 \<longrightarrow> fat_val fs1 c = fat_val fs c"
    using alloc_chain_result [OF assms] by auto
  then have "only_new fs cs fs1" by (auto simp: only_new_def table_only_def is_valid_cluster_def)
  then show thesis using that cs(1-4) by blast
qed

lemma written_new:
  assumes "volume_ok fs" "only_new fs cs fs1" "chain fs1 cs" "distinct cs" "set cs \<subseteq> free_in fs" "first = (if cs = [] then 0 else hd cs)"
    and "write_clusters dev (length dat) first dat fs1 = (Some rest, fs2)"
  shows "only_new fs cs fs2" "chain fs2 cs"
proof -
  have same: "same_volume fs fs1" "sized fs1" using assms(2) by (simp_all add: only_new_def)
  have ok: "volume_ok fs1" using assms(1) same_volume_ok [OF same(1)] by simp
  have valid: "\<forall>x \<in> set cs. is_valid_cluster fs x" using assms(5) by (auto simp: free_in_def is_valid_cluster_def)
  have v1: "\<forall>x \<in> set cs. is_valid_cluster fs1 x" using valid by (simp add: same_geometry [OF same(1)])
  have "cs = [] \<and> \<not> is_valid_cluster fs1 first \<or> cs \<noteq> [] \<and> first = hd cs"
    using assms(6) by (simp add: is_valid_cluster_def)
  note w = write_clusters_result [OF ok same(2) assms(3,4) v1 this order_refl assms(7)]
  have fsec: "file_sectors fs1 cs = file_sectors fs cs" by (simp add: file_sectors_def same_geometry [OF same(1)])
  have w1: "same_volume fs1 fs2" using w by blast
  have fat: "sector fs2 x = sector fs1 x" if "in_fat fs1 x" for x
  proof -
    have "x \<notin> file_sectors fs cs"
      using that data_not_fat(1) [OF assms(1)] valid same_in_fat [OF same(1)] by (auto simp: file_sectors_def)
    then show ?thesis using w fsec by simp
  qed
  have val: "fat_val fs2 c = fat_val fs1 c" if "is_valid_cluster fs c" for c
    using that by (intro fat_val_cong [OF w1 ok _ fat]) (auto simp: is_valid_cluster_def same_geometry [OF same(1)])
  show "only_new fs cs fs2"
    using assms(2) w val fsec same_volume_trans [OF same(1) w1] by (simp add: only_new_def)
  show "chain fs2 cs" using chain_after [OF ok w1 v1 fat] assms(3) by simp
qed

theorem write_fails_clean:
  assumes reliable writable "volume_ok fs" "sized fs" "length name = 11" "fat32_write_file dev name dat fs = (False, fs1)"
  obtains cs where "set cs \<subseteq> free_in fs" "only_new fs cs fs1" "\<And>c. is_valid_cluster fs c \<Longrightarrow> fat_val fs1 c = fat_val fs c"
proof -
  have self: "only_new fs [] fs" using assms(4) by (simp add: only_new_def)
  let ?n = "unat ((of_nat (length dat) + ucast (sectors_per_cluster fs) * bytes_per_sector fs - 1) div
      (ucast (sectors_per_cluster fs) * bytes_per_sector fs))"
  obtain allocated first fs2 where a: "alloc_chain dev ?n 0 0 fs = (allocated, first, fs2)" by (metis prod_cases3)
  show thesis
  proof (cases "dat = []")
    case True
    then show thesis using that [of "[]"] assms(6) self by (simp add: fat32_write_file_def)
  next
    case ne: False
    have "\<exists>m fs3. alloc_chain dev m 0 0 fs = (True, first, fs3) \<and> (unchanged fs3 fs2 \<or> fs3 = fs2 \<and> allocated)"
      using alloc_chain_full [OF assms(1-4), of 0 ?n 0 first fs2] a by (cases allocated) auto
    then obtain m fs3 where m: "alloc_chain dev m 0 0 fs = (True, first, fs3)" "unchanged fs3 fs2 \<or> fs3 = fs2" by blast
    obtain cs where cs: "only_new fs cs fs3" "chain fs3 cs" "distinct cs" "set cs \<subseteq> free_in fs" "first = (if cs = [] then 0 else hd cs)"
      using allocated_new [OF assms(3,4) m(1)] by metis
    have n2: "only_new fs cs fs2" "chain fs2 cs" using m(2) cs(1,2) only_new_unchanged chain_unchanged by blast+
    have sized2: "sized fs2" using n2(1) by (simp add: only_new_def)
    have "\<exists>fs4. only_new fs cs fs4 \<and> chain fs4 cs \<and> undo_write dev first fs4 = (False, fs1)"
    proof (cases allocated)
      case False
      then show ?thesis using assms(6) ne a n2 by (auto simp: fat32_write_file_def Let_def)
    next
      case True
      obtain rest fs4 where w: "write_clusters dev (length dat) first dat fs2 = (Some rest, fs4)"
        using write_clusters_ok [OF assms(2) sized2, of "length dat" first dat] by (metis not_None_eq prod.collapse)
      note wn = written_new [OF assms(3) n2 cs(3-5) w]
      have sized4: "sized fs4" using wn(1) by (simp add: only_new_def)
      show ?thesis
      proof (cases "rest = []")
        case False
        then show ?thesis using assms(6) ne a True w wn by (auto simp: fat32_write_file_def Let_def)
      next
        case rest: True
        obtain ok fs5 where d: "write_dir_entry dev name first (of_nat (length dat)) fs4 = (ok, fs5)" by fastforce
        then have e: "\<not> ok" "undo_write dev first fs5 = (False, fs1)"
          using assms(6) ne a True w rest by (auto simp: fat32_write_file_def Let_def split: if_splits)
        have "unchanged fs4 fs5" using write_dir_entry_full [OF assms(1,2) sized4 assms(5)] d e(1) by auto
        then show ?thesis using wn e(2) only_new_unchanged chain_unchanged by blast
      qed
    qed
    then obtain fs4 where f: "only_new fs cs fs4" "chain fs4 cs" "undo_write dev first fs4 = (False, fs1)" by blast
    show thesis
      using that [OF cs(4)] undo_result(2,3) [OF assms(1-3) f(1,2) cs(3-5) f(3)] by blast
  qed
qed

end

end
