(* ===== verification/Usb_Drive.thy ===== *)
theory Usb_Drive
  imports Fat32_Undo
begin

text \<open>
  The device side of the bulk-only transport. The drive is no part of the program: \<open>bulk_only_drive\<close> states what the USB mass
  storage specification documents of it, as a condition on the methods of the host controller driver. \<open>drive_hcd\<close> is one drive of
  this kind, a parameter of the model for examples: the disk that the driver of \<open>Usb_Msd\<close> makes of it provides the interface
  \<open>block_store\<close>.
\<close>

section \<open>The commands on the wire\<close>

lemma be_bytes_Suc: "be_bytes (Suc n) v = ucast (drop_bit (8 * n) v) # be_bytes n v"
  by (simp add: be_bytes_def)

lemma length_be_bytes [simp]: "length (be_bytes n v) = n"
  by (simp add: be_bytes_def)

lemma fold_be_bytes:
  "fold (\<lambda>b v. or (push_bit 8 v) (ucast (b :: u8))) (be_bytes n v) a = or (push_bit (8 * n) a) (take_bit (8 * n) v)"
  for v a :: "'a::len word"
proof (induction n arbitrary: a)
  case 0
  then show ?case by (simp add: be_bytes_def)
next
  case (Suc n)
  have "or (push_bit (8 * n) (or (push_bit 8 a) (ucast (ucast (drop_bit (8 * n) v) :: u8)))) (take_bit (8 * n) v) =
      or (push_bit (8 * Suc n) a) (take_bit (8 * Suc n) v)"
    by (rule bit_word_eqI) (auto simp: bit_simps add.commute [of _ 8])
  then show ?case by (simp add: be_bytes_Suc Suc.IH)
qed

lemma be_value_bytes: "be_value (be_bytes n v) = take_bit (8 * n) v"
  by (simp add: be_value_def fold_be_bytes)

lemma cbw_fields:
  "le32 (cbw_bytes w) 0 = cbw_signature w" "le32 (cbw_bytes w) 4 = cbw_tag w" "le32 (cbw_bytes w) 8 = data_transfer_length w"
  "drop 15 (cbw_bytes w) = cb w"
proof -
  have b: "le32 (bytes32 x @ ys) 0 = x" "le32 (bytes32 a @ bytes32 x @ ys) 4 = x" "le32 (bytes32 a @ bytes32 b @ bytes32 x @ ys) 8 = x"
    for x a b ys
    using le32_bytes [of x] by (simp_all add: le32_def bytes32_def nth_append)
  show "le32 (cbw_bytes w) 0 = cbw_signature w" "le32 (cbw_bytes w) 4 = cbw_tag w" "le32 (cbw_bytes w) 8 = data_transfer_length w"
    "drop 15 (cbw_bytes w) = cb w"
    unfolding cbw_bytes_def using b by (simp_all)
qed

text \<open>What a drive reads in the command block: the operation, the block and the number of blocks.\<close>

definition cdb_lba :: "u8 list \<Rightarrow> u64" where
  "cdb_lba c = (if c ! 0 = 0x88 \<or> c ! 0 = 0x8A then be_value (take 8 (drop 2 c)) else be_value (take 4 (drop 2 c)))"

definition cdb_count :: "u8 list \<Rightarrow> u32" where
  "cdb_count c = (if c ! 0 = 0x88 \<or> c ! 0 = 0x8A then be_value (take 4 (drop 10 c)) else be_value (take 2 (drop 7 c)))"

lemma rw_cdb_decodes:
  fixes lba :: u64 and count :: u32 and msd :: usb_msd_t and zs :: "u8 list"
  assumes "(op16, op10) = (0x88, 0x28) \<or> (op16, op10) = (0x8A, 0x2A)"
  defines "c \<equiv> rw_cdb op16 op10 msd lba count @ zs"
  shows "c ! 0 = (if use_16 msd \<or> drop_bit 32 lba \<noteq> 0 then op16 else op10)" "cdb_lba c = lba"
    "cdb_count c = (if use_16 msd \<or> drop_bit 32 lba \<noteq> 0 then count else take_bit 16 count)"
proof -
  have t: "take_bit 64 lba = lba" "take_bit 32 count = count" using assms by (simp_all add: take_bit_word_eq_self)
  have s: "take_bit 32 lba = lba" if "drop_bit 32 lba = 0"
    using that bits_ident [of 32 lba] by simp
  show "c ! 0 = (if use_16 msd \<or> drop_bit 32 lba \<noteq> 0 then op16 else op10)" by (simp add: c_def rw_cdb_def)
  show "cdb_lba c = lba"
    using assms(1) t s by (auto simp: c_def rw_cdb_def cdb_lba_def be_value_bytes)
  show "cdb_count c = (if use_16 msd \<or> drop_bit 32 lba \<noteq> 0 then count else take_bit 16 count)"
    using assms(1) t by (auto simp: c_def rw_cdb_def cdb_count_def be_value_bytes)
qed

lemma cbw_head:
  "length (cbw_bytes w) = 15 + length (cb w)" "cbw_bytes w ! 12 = cbw_flags w" "cbw_bytes w ! 13 = cbw_lun w"
  "cbw_bytes w ! 14 = cb_length w"
  by (simp_all add: cbw_bytes_def nth_append)

text \<open>
  A command wrapper as the device takes it, with a read or write command: the direction, the first block, the number of blocks,
  the length of the data and the tag. The constants are those of the specifications.
\<close>

definition wire_command :: "u8 list \<Rightarrow> (bool \<times> u64 \<times> u32 \<times> u32 \<times> u32) option" where
  "wire_command bs =
     (let c = drop 15 bs; op = c ! 0; is_read = (op = 0x28 \<or> op = 0x88)
      in if length bs = 31 \<and> le32 bs 0 = 0x43425355 \<and> bs ! 13 = 0 \<and>
           ((op = 0x28 \<or> op = 0x2A) \<and> bs ! 14 = 10 \<or> (op = 0x88 \<or> op = 0x8A) \<and> bs ! 14 = 16) \<and>
           bs ! 12 = (if is_read then 0x80 else 0)
         then Some (is_read, cdb_lba c, cdb_count c, le32 bs 8, le32 bs 4) else None)"

definition csw_bytes :: "u32 \<Rightarrow> u8 \<Rightarrow> u8 list" where
  "csw_bytes t status = bytes32 0x53425355 @ bytes32 t @ bytes32 0 @ [status]"

text \<open>The number of blocks that a command really carries.\<close>

definition sent_count :: "usb_msd_t \<Rightarrow> u64 \<Rightarrow> u32 \<Rightarrow> u32" where
  "sent_count msd lba count = (if use_16 msd \<or> drop_bit 32 lba \<noteq> 0 then count else take_bit 16 count)"

lemma wire_rw:
  "wire_command (cbw_bytes (make_cbw msd (rw_cdb 0x88 0x28 msd1 lba count) (Data_In buf))) =
    Some (True, lba, sent_count msd1 lba count, of_nat (length buf), tag msd)"
  "wire_command (cbw_bytes (make_cbw msd (rw_cdb 0x8A 0x2A msd1 lba count) (Data_Out buf))) =
    Some (False, lba, sent_count msd1 lba count, of_nat (length buf), tag msd)"
proof -
  have l: "length (rw_cdb op16 op10 msd1 lba count) = (if use_16 msd1 \<or> drop_bit 32 lba \<noteq> 0 then 16 else 10)" for op16 op10
    by (simp add: rw_cdb_def)
  note r = rw_cdb_decodes [of "0x88" "0x28" msd1 lba count] rw_cdb_decodes [of "0x8A" "0x2A" msd1 lba count]
  show "wire_command (cbw_bytes (make_cbw msd (rw_cdb 0x88 0x28 msd1 lba count) (Data_In buf))) =
      Some (True, lba, sent_count msd1 lba count, of_nat (length buf), tag msd)"
    unfolding wire_command_def Let_def cbw_fields cbw_head by (simp add: make_cbw_def r l CBW_SIGNATURE_def sent_count_def)
  show "wire_command (cbw_bytes (make_cbw msd (rw_cdb 0x8A 0x2A msd1 lba count) (Data_Out buf))) =
      Some (False, lba, sent_count msd1 lba count, of_nat (length buf), tag msd)"
    unfolding wire_command_def Let_def cbw_fields cbw_head by (simp add: make_cbw_def r l CBW_SIGNATURE_def sent_count_def)
qed

section \<open>What a drive does\<close>

text \<open>
  The documented behaviour of a drive with \<open>capacity\<close> blocks of \<open>sz\<close> bytes, which is \<open>ready\<close> between two commands and holds
  \<open>content\<close>. A valid command for blocks that it has, with the right length, is taken on the bulk-out endpoint \<open>epo\<close>; the data goes
  over the endpoint of its direction, and then the status wrapper with the tag of the command comes in on \<open>epi\<close>.
\<close>

definition bulk_only_drive ::
  "'d hcd_methods \<Rightarrow> usb_ep_t \<Rightarrow> usb_ep_t \<Rightarrow> nat \<Rightarrow> nat \<Rightarrow> ('d \<Rightarrow> bool) \<Rightarrow> ('d \<Rightarrow> nat \<Rightarrow> u8 list) \<Rightarrow> bool"
where
  "bulk_only_drive hcd epi epo sz capacity ready content \<longleftrightarrow>
     0 < sz \<and>
     (\<forall>d w lba count n t. ready d \<and> wire_command w = Some (True, lba, count, n, t) \<and> 0 < count \<and>
        unat lba + unat count \<le> capacity \<and> unat n = unat count * sz \<longrightarrow>
        (\<exists>d1 d2 d3. bulk_out hcd epo w d = (True, d1) \<and>
           (\<forall>buf. length buf = unat n \<longrightarrow>
              bulk_in hcd epi buf d1 = (True, concat (map (content d) [unat lba..<unat lba + unat count]), d2)) \<and>
           (\<forall>buf. length buf = 13 \<longrightarrow> bulk_in hcd epi buf d2 = (True, csw_bytes t 0, d3)) \<and>
           ready d3 \<and> content d3 = content d)) \<and>
     (\<forall>d w lba count n t dat. ready d \<and> wire_command w = Some (False, lba, count, n, t) \<and> 0 < count \<and>
        unat lba + unat count \<le> capacity \<and> unat n = unat count * sz \<and> length dat = unat n \<longrightarrow>
        (\<exists>d1 d2 d3. bulk_out hcd epo w d = (True, d1) \<and> bulk_out hcd epo dat d1 = (True, d2) \<and>
           (\<forall>buf. length buf = 13 \<longrightarrow> bulk_in hcd epi buf d2 = (True, csw_bytes t 0, d3)) \<and> ready d3 \<and>
           content d3 = (\<lambda>b. if unat lba \<le> b \<and> b < unat lba + unat count
             then take sz (drop ((b - unat lba) * sz) dat) else content d b)))"

lemma csw_of_bytes: "csw_of (csw_bytes t status) =
    \<lparr>csw_signature = CSW_SIGNATURE, csw_tag = t, data_residue = 0, csw_status = status\<rparr>"
proof -
  have b: "le32 (bytes32 x @ ys) 0 = x" "le32 (bytes32 a @ bytes32 x @ ys) 4 = x" "le32 (bytes32 a @ bytes32 b @ bytes32 x @ ys) 8 = x"
    for x a b ys
    using le32_bytes [of x] by (simp_all add: le32_def bytes32_def nth_append)
  show ?thesis unfolding csw_of_def unfolding csw_bytes_def CSW_SIGNATURE_def by (simp add: b) (simp add: bytes32_def)
qed

text \<open>The number of blocks fits the command, and the data the length field.\<close>

definition transfer_ok :: "usb_msd_t \<Rightarrow> u64 \<Rightarrow> u32 \<Rightarrow> nat \<Rightarrow> nat \<Rightarrow> bool" where
  "transfer_ok msd lba count sz capacity \<longleftrightarrow>
     0 < count \<and> unat lba + unat count \<le> capacity \<and> unat count * sz < 2 ^ 32 \<and>
     (use_16 msd \<or> drop_bit 32 lba \<noteq> 0 \<or> unat count < 2 ^ 16)"

lemma transfer_count:
  assumes "transfer_ok msd lba count sz capacity"
  shows "sent_count msd lba count = count" "unat (of_nat (unat count * sz) :: u32) = unat count * sz"
proof -
  have "take_bit 16 count = count" if "unat count < 2 ^ 16"
  proof -
    have "unat (take_bit 16 count) = take_bit 16 (unat count)" by (rule unsigned_take_bit_eq)
    also have "\<dots> = unat count" using that by (simp add: take_bit_nat_eq_self)
    finally show ?thesis by (simp add: word_unat_eq_iff)
  qed
  then show "sent_count msd lba count = count" using assms by (auto simp: transfer_ok_def sent_count_def)
  show "unat (of_nat (unat count * sz) :: u32) = unat count * sz"
    using assms by (intro unat_of_nat_small) (simp add: transfer_ok_def)
qed

lemma msd_read_blocks:
  assumes "bulk_only_drive hcd (ep_in msd) (ep_out msd) sz capacity ready content" "ready d"
    and "transfer_ok msd lba count sz capacity" "length buf = unat count * sz"
  shows "\<exists>d1. msd_read_sectors hcd lba count buf msd d =
      (True, concat (map (content d) [unat lba..<unat lba + unat count]), msd\<lparr>tag := tag msd + 1\<rparr>, d1) \<and>
    ready d1 \<and> content d1 = content d"
proof -
  let ?w = "cbw_bytes (make_cbw msd (rw_cdb 0x88 0x28 msd lba count) (Data_In buf))"
  note k = transfer_count [OF assms(3)]
  have w: "wire_command ?w = Some (True, lba, count, of_nat (length buf), tag msd)" by (simp add: wire_rw k)
  have n: "unat (of_nat (length buf) :: u32) = length buf" unfolding assms(4) by (rule k(2))
  have c: "0 < count" "unat lba + unat count \<le> capacity" using assms(3) by (simp_all add: transfer_ok_def)
  have "0 < sz" using assms(1) unfolding bulk_only_drive_def by blast
  then have "0 < unat count * sz" using c(1) by (simp add: word_less_nat_alt)
  then have ne: "buf \<noteq> []" using assms(4) by auto
  obtain d1 d2 d3 where e: "bulk_out hcd (ep_out msd) ?w d = (True, d1)"
      "\<forall>buf1. length buf1 = length buf \<longrightarrow>
        bulk_in hcd (ep_in msd) buf1 d1 = (True, concat (map (content d) [unat lba..<unat lba + unat count]), d2)"
      "\<forall>buf. length buf = 13 \<longrightarrow> bulk_in hcd (ep_in msd) buf d2 = (True, csw_bytes (tag msd) 0, d3)" "ready d3" "content d3 = content d"
    using assms(1) [unfolded bulk_only_drive_def, THEN conjunct2, THEN conjunct1, rule_format, of d ?w lba count "of_nat (length buf)" "tag msd"]
      assms(2,4) w c unfolding n by blast
  have "msd_read_sectors hcd lba count buf msd d =
      (True, concat (map (content d) [unat lba..<unat lba + unat count]), msd\<lparr>tag := tag msd + 1\<rparr>, d3)"
    using e(1-3) ne by (simp add: msd_read_sectors_def msd_bot_command_def Let_def data_phase_def receive_csw_def csw_of_bytes make_cbw_def)
  then show ?thesis using e(4,5) by blast
qed

lemma msd_write_blocks:
  assumes "bulk_only_drive hcd (ep_in msd) (ep_out msd) sz capacity ready content" "ready d"
    and "transfer_ok msd lba count sz capacity" "length dat = unat count * sz"
  shows "\<exists>d1. msd_write_sectors hcd lba count dat msd d = (True, dat, msd\<lparr>tag := tag msd + 1\<rparr>, d1) \<and> ready d1 \<and>
    content d1 = (\<lambda>b. if unat lba \<le> b \<and> b < unat lba + unat count then take sz (drop ((b - unat lba) * sz) dat) else content d b)"
proof -
  let ?w = "cbw_bytes (make_cbw msd (rw_cdb 0x8A 0x2A msd lba count) (Data_Out dat))"
  note k = transfer_count [OF assms(3)]
  have w: "wire_command ?w = Some (False, lba, count, of_nat (length dat), tag msd)" by (simp add: wire_rw k)
  have n: "unat (of_nat (length dat) :: u32) = length dat" unfolding assms(4) by (rule k(2))
  have c: "0 < count" "unat lba + unat count \<le> capacity" using assms(3) by (simp_all add: transfer_ok_def)
  have "0 < sz" using assms(1) unfolding bulk_only_drive_def by blast
  then have "0 < unat count * sz" using c(1) by (simp add: word_less_nat_alt)
  then have ne: "dat \<noteq> []" using assms(4) by auto
  obtain d1 d2 d3 where e: "bulk_out hcd (ep_out msd) ?w d = (True, d1)" "bulk_out hcd (ep_out msd) dat d1 = (True, d2)"
      "\<forall>buf. length buf = 13 \<longrightarrow> bulk_in hcd (ep_in msd) buf d2 = (True, csw_bytes (tag msd) 0, d3)" "ready d3"
      "content d3 = (\<lambda>b. if unat lba \<le> b \<and> b < unat lba + unat count then take sz (drop ((b - unat lba) * sz) dat) else content d b)"
    using assms(1) [unfolded bulk_only_drive_def, THEN conjunct2, THEN conjunct2, rule_format, of d ?w lba count "of_nat (length dat)" "tag msd" dat]
      assms(2,4) w c unfolding n by blast
  have "msd_write_sectors hcd lba count dat msd d = (True, dat, msd\<lparr>tag := tag msd + 1\<rparr>, d3)"
    using e(1-3) ne by (simp add: msd_write_sectors_def msd_bot_command_def Let_def data_phase_def receive_csw_def csw_of_bytes make_cbw_def)
  then show ?thesis using e(4,5) by blast
qed

lemma concat_chunks:
  assumes "length dat = n * sz"
  shows "concat (map (\<lambda>b. take sz (drop ((b - m) * sz) dat)) [m..<m + n]) = dat"
proof -
  have "map (\<lambda>b. take sz (drop ((b - m) * sz) dat)) [m..<m + n] = map (\<lambda>i. take sz (drop (i * sz) dat)) [0..<n]"
    by (rule nth_equalityI) simp_all
  moreover have "concat (map (\<lambda>i. take sz (drop (i * sz) xs)) [0..<n]) = xs" if "length xs = n * sz" for xs :: "'a list"
    using that
  proof (induction n arbitrary: xs)
    case (Suc n)
    have "map (\<lambda>i. take sz (drop (i * sz) xs)) [0..<Suc n] =
        take sz xs # map (\<lambda>i. take sz (drop (i * sz) (drop sz xs))) [0..<n]"
      by (simp add: upt_conv_Cons map_Suc_upt [symmetric] comp_def add.commute del: upt_Suc)
    then show ?case using Suc.IH [of "drop sz xs"] Suc.prems by simp
  qed simp
  ultimately show ?thesis using assms by simp
qed

section \<open>A drive\<close>

text \<open>
  A drive of this kind. It stalls on a wrapper that is no valid read or write command and on an endpoint that is not its own, it halts
  on a command whose length is not that of the blocks, and it always ends a command with a status.
\<close>

datatype drive_phase = Ready | Send_Data "u8 list" u32 | Get_Data u32 nat u32 | Halted u32 | Send_Status u32 u8

record usb_drive =
  drive_phase :: drive_phase
  blocks :: "u32 \<Rightarrow> u8 list"

primrec block_data :: "nat \<Rightarrow> u32 \<Rightarrow> (u32 \<Rightarrow> u8 list) \<Rightarrow> u8 list" where
  "block_data 0 lba b = []"
| "block_data (Suc n) lba b = b lba @ block_data n (lba + 1) b"

primrec put_blocks :: "nat \<Rightarrow> u32 \<Rightarrow> u8 list \<Rightarrow> (u32 \<Rightarrow> u8 list) \<Rightarrow> (u32 \<Rightarrow> u8 list)" where
  "put_blocks 0 lba bs b = b"
| "put_blocks (Suc n) lba bs b =
     put_blocks n (lba + 1) (drop (length (b lba)) bs) (b(lba := take (length (b lba)) bs))"

definition drive_command :: "u8 list \<Rightarrow> usb_drive \<Rightarrow> bool \<times> usb_drive" where
  "drive_command bs dr =
     (case wire_command bs of None \<Rightarrow> (False, dr)
      | Some (is_read, lba, count, n, t) \<Rightarrow>
          (let l = ucast lba; dat = block_data (unat count) l (blocks dr)
           in (True, dr\<lparr>drive_phase :=
                (if drop_bit 32 lba = 0 \<and> 0 < count \<and> unat n = length dat
                 then if is_read then Send_Data dat t else Get_Data l (unat count) t
                 else Halted t)\<rparr>)))"

definition drive_out :: "u8 list \<Rightarrow> usb_drive \<Rightarrow> bool \<times> usb_drive" where
  "drive_out bs dr =
     (case drive_phase dr of
        Ready \<Rightarrow> drive_command bs dr
      | Get_Data lba count t \<Rightarrow>
          if length bs = length (block_data count lba (blocks dr))
          then (True, dr\<lparr>drive_phase := Send_Status t 0, blocks := put_blocks count lba bs (blocks dr)\<rparr>)
          else (False, dr\<lparr>drive_phase := Send_Status t 1\<rparr>)
      | Halted t \<Rightarrow> (False, dr\<lparr>drive_phase := Send_Status t 1\<rparr>)
      | _ \<Rightarrow> (False, dr))"

definition send_csw :: "u32 \<Rightarrow> u8 \<Rightarrow> u8 list \<Rightarrow> usb_drive \<Rightarrow> bool \<times> u8 list \<times> usb_drive" where
  "send_csw t status buf dr =
     (if length buf = 13 then (True, csw_bytes t status, dr\<lparr>drive_phase := Ready\<rparr>) else (False, buf, dr))"

definition drive_in :: "u8 list \<Rightarrow> usb_drive \<Rightarrow> bool \<times> u8 list \<times> usb_drive" where
  "drive_in buf dr =
     (case drive_phase dr of
        Ready \<Rightarrow> (False, buf, dr)
      | Send_Data bs t \<Rightarrow>
          if length bs = length buf then (True, bs, dr\<lparr>drive_phase := Send_Status t 0\<rparr>)
          else (False, buf, dr\<lparr>drive_phase := Send_Status t 1\<rparr>)
      | Get_Data lba count t \<Rightarrow> send_csw t 1 buf dr
      | Halted t \<Rightarrow> (False, buf, dr\<lparr>drive_phase := Send_Status t 1\<rparr>)
      | Send_Status t status \<Rightarrow> send_csw t status buf dr)"

definition drive_hcd :: "usb_ep_t \<Rightarrow> usb_ep_t \<Rightarrow> usb_drive hcd_methods" where
  "drive_hcd epi epo =
     \<lparr>setup_request = \<lambda>_ pkt dr. (True, if pkt_request pkt = 0xFF then dr\<lparr>drive_phase := Ready\<rparr> else dr),
      get_data_request = \<lambda>_ _ buf dr. (False, buf, dr),
      bulk_out = \<lambda>ep bs dr. (if ep = epo then drive_out bs dr else (False, dr)),
      bulk_in = \<lambda>ep buf dr. (if ep = epi then drive_in buf dr else (False, buf, dr)),
      reset_bulk_ep = None, configure_bulk_ep = None\<rparr>"

lemma drive_hcd_simps [simp]:
  "bulk_out (drive_hcd epi epo) epo = drive_out" "bulk_in (drive_hcd epi epo) epi = drive_in" "reset_bulk_ep (drive_hcd epi epo) = None"
  "setup_request (drive_hcd epi epo) ep pkt dr = (True, if pkt_request pkt = 0xFF then dr\<lparr>drive_phase := Ready\<rparr> else dr)"
  by (simp_all add: drive_hcd_def fun_eq_iff)

lemma clear_stall_drive [simp]: "msd_clear_stall (drive_hcd epi epo) msd ep is_in dr = (True, dr)"
  by (simp add: msd_clear_stall_def build_setup_packet_def)

lemma recovery_drive [simp]: "msd_reset_recovery (drive_hcd epi epo) msd dr = (True, dr\<lparr>drive_phase := Ready\<rparr>)"
  by (simp add: msd_reset_recovery_def build_setup_packet_def Let_def)

lemma one_block: "sent_count msd (ucast (x :: u32)) 1 = 1" "drop_bit 32 (ucast (x :: u32) :: u64) = 0"
  "ucast (ucast x :: u64) = x" "block_data 1 x b = b x" "put_blocks 1 x bs b = b(x := take (length (b x)) bs)"
proof -
  show "drop_bit 32 (ucast (x :: u32) :: u64) = 0"
    by (rule bit_word_eqI) (auto simp: bit_simps dest: bit_imp_le_length)
  show "ucast (ucast x :: u64) = x" by (rule bit_word_eqI) (simp add: bit_simps)
qed (simp_all add: sent_count_def)

lemma command_drive:
  assumes "drive_phase dr = Ready"
  shows "drive_out (cbw_bytes (make_cbw msd (rw_cdb 0x88 0x28 msd1 (ucast x) 1) (Data_In buf))) dr =
      (True, dr\<lparr>drive_phase := (if unat (of_nat (length buf) :: u32) = length (blocks dr x)
         then Send_Data (blocks dr x) (tag msd) else Halted (tag msd))\<rparr>)"
    "drive_out (cbw_bytes (make_cbw msd (rw_cdb 0x8A 0x2A msd1 (ucast x) 1) (Data_Out buf))) dr =
      (True, dr\<lparr>drive_phase := (if unat (of_nat (length buf) :: u32) = length (blocks dr x)
         then Get_Data x 1 (tag msd) else Halted (tag msd))\<rparr>)"
  by (simp_all add: drive_out_def assms drive_command_def wire_rw one_block Let_def One_nat_def [symmetric] del: One_nat_def)

lemma make_cbw_tag: "cbw_tag (make_cbw msd c dat) = tag msd"
  by (simp add: make_cbw_def)

lemma receive_csw_drive:
  "drive_phase dr = Send_Status t status \<Longrightarrow> epi = ep_in msd \<Longrightarrow> receive_csw (drive_hcd epi epo) msd dr =
    (Some \<lparr>csw_signature = CSW_SIGNATURE, csw_tag = t, data_residue = 0, csw_status = status\<rparr>, dr\<lparr>drive_phase := Ready\<rparr>)"
  "drive_phase dr = Get_Data l n t \<Longrightarrow> epi = ep_in msd \<Longrightarrow> receive_csw (drive_hcd epi epo) msd dr =
    (Some \<lparr>csw_signature = CSW_SIGNATURE, csw_tag = t, data_residue = 0, csw_status = 1\<rparr>, dr\<lparr>drive_phase := Ready\<rparr>)"
  "drive_phase dr = Send_Data [] t \<or> drive_phase dr = Halted t \<Longrightarrow> epi = ep_in msd \<Longrightarrow> receive_csw (drive_hcd epi epo) msd dr =
    (Some \<lparr>csw_signature = CSW_SIGNATURE, csw_tag = t, data_residue = 0, csw_status = 1\<rparr>, dr\<lparr>drive_phase := Ready\<rparr>)"
  by (auto simp: receive_csw_def drive_in_def send_csw_def csw_of_bytes)

lemma buffer_length:
  "buf \<noteq> [] \<Longrightarrow> length buf < 2 ^ 32 \<Longrightarrow> unat (of_nat (length buf) :: u32) = length buf"
  by (intro unat_of_nat_small) simp

lemma msd_read_drive:
  assumes "drive_phase dr = Ready" "msd_read_sectors (drive_hcd (ep_in msd) (ep_out msd)) (ucast (x :: u32)) 1 buf msd dr = (ok, buf1, msd1, dr1)"
  shows "dr1 = dr" "msd1 = msd\<lparr>tag := tag msd + 1\<rparr>" "ok \<Longrightarrow> buf1 = blocks dr x" "length buf1 = length buf"
    "length buf = length (blocks dr x) \<Longrightarrow> buf \<noteq> [] \<Longrightarrow> length buf < 2 ^ 32 \<Longrightarrow> ok"
proof -
  note c = command_drive(1) [OF assms(1), of msd msd x buf]
  have rdy: "dr\<lparr>drive_phase := Ready\<rparr> = dr" using assms(1) by simp
  consider (fail) "unat (of_nat (length buf) :: u32) \<noteq> length (blocks dr x)" |
    (none) "buf = []" "blocks dr x = []" | (some) "buf \<noteq> []" "unat (of_nat (length buf) :: u32) = length (blocks dr x)"
    by fastforce
  then have "dr1 = dr \<and> msd1 = msd\<lparr>tag := tag msd + 1\<rparr> \<and> (ok \<longrightarrow> buf1 = blocks dr x) \<and> length buf1 = length buf \<and>
    (length buf = length (blocks dr x) \<and> buf \<noteq> [] \<and> length buf < 2 ^ 32 \<longrightarrow> ok)"
  proof cases
    case fail
    then show ?thesis
      using assms c rdy buffer_length [of buf]
      by (cases "buf = []")
        (auto simp: msd_read_sectors_def msd_bot_command_def Let_def data_phase_def receive_csw_drive drive_in_def send_csw_def make_cbw_tag)
  next
    case none
    then show ?thesis
      using assms c rdy
      by (auto simp: msd_read_sectors_def msd_bot_command_def Let_def data_phase_def receive_csw_drive make_cbw_tag)
  next
    case some
    then show ?thesis
      using assms c rdy
      by (cases "length (blocks dr x) = length buf")
        (auto simp: msd_read_sectors_def msd_bot_command_def Let_def data_phase_def receive_csw_drive drive_in_def make_cbw_tag)
  qed
  then show "dr1 = dr" "msd1 = msd\<lparr>tag := tag msd + 1\<rparr>" "ok \<Longrightarrow> buf1 = blocks dr x" "length buf1 = length buf"
    "length buf = length (blocks dr x) \<Longrightarrow> buf \<noteq> [] \<Longrightarrow> length buf < 2 ^ 32 \<Longrightarrow> ok"
    by blast+
qed

lemma msd_write_drive:
  assumes "drive_phase dr = Ready" "msd_write_sectors (drive_hcd (ep_in msd) (ep_out msd)) (ucast (x :: u32)) 1 buf msd dr = (ok, buf1, msd1, dr1)"
  shows "msd1 = msd\<lparr>tag := tag msd + 1\<rparr>" "dr1 = (if ok then dr\<lparr>blocks := (blocks dr)(x := buf)\<rparr> else dr)"
    "ok \<Longrightarrow> length buf = length (blocks dr x)" "length buf = length (blocks dr x) \<Longrightarrow> buf \<noteq> [] \<Longrightarrow> length buf < 2 ^ 32 \<Longrightarrow> ok"
proof -
  note c = command_drive(2) [OF assms(1), of msd msd x buf]
  have rdy: "dr\<lparr>drive_phase := Ready\<rparr> = dr" "dr\<lparr>drive_phase := Ready, blocks := b\<rparr> = dr\<lparr>blocks := b\<rparr>"
      "dr\<lparr>blocks := b, drive_phase := Ready\<rparr> = dr\<lparr>blocks := b\<rparr>" for b
    using assms(1) by simp_all
  note one = one_block(4,5) [unfolded One_nat_def]
  consider (fail) "unat (of_nat (length buf) :: u32) \<noteq> length (blocks dr x)" |
    (none) "buf = []" "blocks dr x = []" | (some) "buf \<noteq> []" "unat (of_nat (length buf) :: u32) = length (blocks dr x)"
    by fastforce
  then have "msd1 = msd\<lparr>tag := tag msd + 1\<rparr> \<and> dr1 = (if ok then dr\<lparr>blocks := (blocks dr)(x := buf)\<rparr> else dr) \<and>
    (ok \<longrightarrow> length buf = length (blocks dr x)) \<and> (length buf = length (blocks dr x) \<and> buf \<noteq> [] \<and> length buf < 2 ^ 32 \<longrightarrow> ok)"
  proof cases
    case fail
    then show ?thesis
      using assms c rdy buffer_length [of buf]
      by (cases "buf = []")
        (auto simp: msd_write_sectors_def msd_bot_command_def Let_def data_phase_def receive_csw_drive drive_out_def make_cbw_tag)
  next
    case none
    then show ?thesis
      using assms c rdy
      by (auto simp: msd_write_sectors_def msd_bot_command_def Let_def data_phase_def receive_csw_drive make_cbw_tag)
  next
    case some
    then show ?thesis
      using assms c rdy
      by (cases "length (blocks dr x) = length buf")
        (auto simp: msd_write_sectors_def msd_bot_command_def Let_def data_phase_def receive_csw_drive drive_out_def make_cbw_tag one)
  qed
  then show "msd1 = msd\<lparr>tag := tag msd + 1\<rparr>" "dr1 = (if ok then dr\<lparr>blocks := (blocks dr)(x := buf)\<rparr> else dr)"
    "ok \<Longrightarrow> length buf = length (blocks dr x)" "length buf = length (blocks dr x) \<Longrightarrow> buf \<noteq> [] \<Longrightarrow> length buf < 2 ^ 32 \<Longrightarrow> ok"
    by blast+
qed

text \<open>It behaves as documented.\<close>

lemma block_data_concat:
  "unat l + n \<le> 2 ^ 32 \<Longrightarrow> block_data n l b = concat (map (\<lambda>i. b (of_nat i)) [unat l..<unat l + n])"
proof (induction n arbitrary: l)
  case (Suc n)
  have "block_data n (l + 1) b = concat (map (\<lambda>i. b (of_nat i)) [Suc (unat l)..<Suc (unat l) + n])"
  proof (cases "n = 0")
    case False
    then have "unat (l + 1) = Suc (unat l)" using Suc.prems by (simp add: unat_word_ariths)
    then show ?thesis using Suc.IH [of "l + 1"] Suc.prems by simp
  qed simp
  then show ?case by (simp add: upt_conv_Cons del: upt_Suc)
qed simp

lemma put_blocks_result:
  assumes "\<forall>x. length (b x) = sz" "unat l + n \<le> 2 ^ 32" "length bs = n * sz"
  shows "put_blocks n l bs b = (\<lambda>x. if unat l \<le> unat x \<and> unat x < unat l + n then take sz (drop ((unat x - unat l) * sz) bs) else b x)"
  using assms
proof (induction n arbitrary: l bs b)
  case (Suc n)
  let ?b = "b(l := take sz bs)"
  have b: "\<forall>x. length (?b x) = sz" using Suc.prems(1,3) by simp
  have bl: "length (b l) = sz" using Suc.prems(1) by simp
  show ?case
  proof (cases "n = 0")
    case True
    have eq: "unat l \<le> unat x \<and> unat x < Suc (unat l) \<longleftrightarrow> x = l" for x :: u32 by (auto simp: word_unat_eq_iff)
    show ?thesis using True bl by (simp add: eq fun_eq_iff)
  next
    case False
    then have l1: "unat (l + 1) = Suc (unat l)" using Suc.prems(2) by (simp add: unat_word_ariths)
    have "put_blocks (Suc n) l bs b = put_blocks n (l + 1) (drop sz bs) ?b" using bl by simp
    also have "\<dots> = (\<lambda>x. if Suc (unat l) \<le> unat x \<and> unat x < Suc (unat l) + n
        then take sz (drop ((unat x - Suc (unat l)) * sz) (drop sz bs)) else ?b x)"
      using Suc.IH [where b = ?b and l = "l + 1" and bs = "drop sz bs"] b Suc.prems(2,3) unfolding l1 by (simp del: fun_upd_apply)
    also have "\<dots> = (\<lambda>x. if unat l \<le> unat x \<and> unat x < unat l + Suc n then take sz (drop ((unat x - unat l) * sz) bs) else b x)"
    proof
      fix x :: u32
      have "(unat x - Suc (unat l)) * sz + sz = (unat x - unat l) * sz" if "Suc (unat l) \<le> unat x"
      proof -
        have "unat x - unat l = Suc (unat x - Suc (unat l))" using that by simp
        then show ?thesis by simp
      qed
      then show "(if Suc (unat l) \<le> unat x \<and> unat x < Suc (unat l) + n
          then take sz (drop ((unat x - Suc (unat l)) * sz) (drop sz bs)) else ?b x) =
        (if unat l \<le> unat x \<and> unat x < unat l + Suc n then take sz (drop ((unat x - unat l) * sz) bs) else b x)"
        by (cases "x = l") (auto simp: not_less_eq_eq word_unat_eq_iff)
    qed
    finally show ?thesis .
  qed
qed (auto simp: fun_eq_iff)

definition drive_ready :: "nat \<Rightarrow> usb_drive \<Rightarrow> bool" where
  "drive_ready sz dr \<longleftrightarrow> drive_phase dr = Ready \<and> (\<forall>x. length (blocks dr x) = sz)"

definition drive_content :: "usb_drive \<Rightarrow> nat \<Rightarrow> u8 list" where
  "drive_content dr n = (if n < 2 ^ 32 then blocks dr (of_nat n) else [])"

lemma length_block_data: "\<forall>x. length (b x) = sz \<Longrightarrow> length (block_data n l b) = n * sz"
  by (induction n arbitrary: l) simp_all

lemma drive_hcd_bulk_only:
  assumes "0 < sz"
  shows "bulk_only_drive (drive_hcd epi epo) epi epo sz (2 ^ 32) (drive_ready sz) drive_content"
proof -
  have high: "drop_bit 32 lba = 0 \<and> unat (ucast lba :: u32) = unat lba" if "unat lba + unat count \<le> 2 ^ 32" "0 < count"
    for lba :: u64 and count :: u32
  proof -
    have "0 < unat count" using that(2) by (simp add: word_less_nat_alt)
    then have "unat lba < 2 ^ 32" using that(1) by linarith
    moreover from this have "unat (ucast lba :: u32) = unat lba" by (intro unat_ucast_small) simp
    moreover have "unat (drop_bit 32 lba) = unat lba div 2 ^ 32" by (rule unat_shift)
    ultimately show ?thesis by (simp add: word_unat_eq_iff)
  qed
  have reads: "\<exists>d1 d2 d3. bulk_out (drive_hcd epi epo) epo w d = (True, d1) \<and>
      (\<forall>buf. length buf = unat n \<longrightarrow>
        bulk_in (drive_hcd epi epo) epi buf d1 = (True, concat (map (drive_content d) [unat lba..<unat lba + unat count]), d2)) \<and>
      (\<forall>buf. length buf = 13 \<longrightarrow> bulk_in (drive_hcd epi epo) epi buf d2 = (True, csw_bytes t 0, d3)) \<and>
      drive_ready sz d3 \<and> drive_content d3 = drive_content d"
    if a: "drive_ready sz d" "wire_command w = Some (True, lba, count, n, t)" "0 < count" "unat lba + unat count \<le> 2 ^ 32"
      "unat n = unat count * sz" for d w lba count n t
  proof -
    note h = high [OF a(4,3)]
    let ?dat = "block_data (unat count) (ucast lba) (blocks d)"
    have dat: "?dat = concat (map (drive_content d) [unat lba..<unat lba + unat count])"
    proof -
      have "map (drive_content d) [unat lba..<unat lba + unat count] = map (\<lambda>i. blocks d (of_nat i)) [unat lba..<unat lba + unat count]"
        using a(4) by (intro map_cong) (auto simp: drive_content_def)
      moreover have "?dat = concat (map (\<lambda>i. blocks d (of_nat i)) [unat lba..<unat lba + unat count])"
        using block_data_concat [of "ucast lba" "unat count" "blocks d"] h a(4) by simp
      ultimately show ?thesis by (simp only:)
    qed
    have len: "length ?dat = unat n" using length_block_data a(1,5) by (simp add: drive_ready_def)
    have out: "bulk_out (drive_hcd epi epo) epo w d = (True, d\<lparr>drive_phase := Send_Data ?dat t\<rparr>)"
      using a h len by (simp add: drive_out_def drive_command_def drive_ready_def Let_def)
    have idle: "d\<lparr>drive_phase := Ready\<rparr> = d" using a(1) by (simp add: drive_ready_def)
    show ?thesis
      by (rule exI [of _ "d\<lparr>drive_phase := Send_Data ?dat t\<rparr>"], rule exI [of _ "d\<lparr>drive_phase := Send_Status t 0\<rparr>"], rule exI [of _ d])
        (use out idle a(1) len in \<open>auto simp: drive_in_def send_csw_def dat [symmetric]\<close>)
  qed
  have writes: "\<exists>d1 d2 d3. bulk_out (drive_hcd epi epo) epo w d = (True, d1) \<and> bulk_out (drive_hcd epi epo) epo dat d1 = (True, d2) \<and>
      (\<forall>buf. length buf = 13 \<longrightarrow> bulk_in (drive_hcd epi epo) epi buf d2 = (True, csw_bytes t 0, d3)) \<and> drive_ready sz d3 \<and>
      drive_content d3 = (\<lambda>b. if unat lba \<le> b \<and> b < unat lba + unat count
        then take sz (drop ((b - unat lba) * sz) dat) else drive_content d b)"
    if a: "drive_ready sz d" "wire_command w = Some (False, lba, count, n, t)" "0 < count" "unat lba + unat count \<le> 2 ^ 32"
      "unat n = unat count * sz" "length dat = unat n" for d w lba count n t dat
  proof -
    note h = high [OF a(4,3)]
    have sz: "\<forall>x. length (blocks d x) = sz" "drive_phase d = Ready" using a(1) by (simp_all add: drive_ready_def)
    have len: "length (block_data (unat count) (ucast lba) (blocks d)) = unat n" using length_block_data [OF sz(1)] a(5) by simp
    let ?b = "put_blocks (unat count) (ucast lba) dat (blocks d)"
    have b: "?b = (\<lambda>x. if unat lba \<le> unat x \<and> unat x < unat lba + unat count
        then take sz (drop ((unat x - unat lba) * sz) dat) else blocks d x)"
      using put_blocks_result [OF sz(1), of "ucast lba" "unat count" dat] a(4-6) unfolding h [THEN conjunct2] by simp
    have "length (?b x) = sz" for x
    proof (cases "unat lba \<le> unat x \<and> unat x < unat lba + unat count")
      case True
      then have "Suc (unat x - unat lba) * sz \<le> unat count * sz" by (intro mult_le_mono1) linarith
      then show ?thesis using True a(5,6) by (simp add: b)
    next
      case False
      then show ?thesis using sz(1) by (simp only: b if_False)
    qed
    then have rdy: "drive_ready sz (d\<lparr>blocks := ?b\<rparr>)" using sz(2) by (simp add: drive_ready_def)
    have con: "drive_content (d\<lparr>blocks := ?b\<rparr>) = (\<lambda>b. if unat lba \<le> b \<and> b < unat lba + unat count
        then take sz (drop ((b - unat lba) * sz) dat) else drive_content d b)"
    proof
      fix n
      have "unat (of_nat n :: u32) = n" if "n < 2 ^ 32" using that by (intro unat_of_nat_small) simp
      then show "drive_content (d\<lparr>blocks := ?b\<rparr>) n = (if unat lba \<le> n \<and> n < unat lba + unat count
          then take sz (drop ((n - unat lba) * sz) dat) else drive_content d n)"
        using a(4) unfolding drive_content_def b by auto
    qed
    have cmd: "bulk_out (drive_hcd epi epo) epo w d = (True, d\<lparr>drive_phase := Get_Data (ucast lba) (unat count) t\<rparr>)"
      using a h len by (simp add: drive_out_def drive_command_def drive_ready_def Let_def)
    have put: "bulk_out (drive_hcd epi epo) epo dat (d\<lparr>drive_phase := Get_Data (ucast lba) (unat count) t\<rparr>) =
        (True, d\<lparr>drive_phase := Send_Status t 0, blocks := ?b\<rparr>)"
      using len a(6) by (simp add: drive_out_def)
    have idle: "d\<lparr>blocks := ?b, drive_phase := Ready\<rparr> = d\<lparr>blocks := ?b\<rparr>" using sz(2) by simp
    show ?thesis
      by (rule exI [of _ "d\<lparr>drive_phase := Get_Data (ucast lba) (unat count) t\<rparr>"],
          rule exI [of _ "d\<lparr>drive_phase := Send_Status t 0, blocks := ?b\<rparr>"], rule exI [of _ "d\<lparr>blocks := ?b\<rparr>"])
        (use rdy con cmd put idle in \<open>simp add: drive_in_def send_csw_def\<close>)
  qed
  show ?thesis unfolding bulk_only_drive_def using assms reads writes by blast
qed

section \<open>The disk behind the driver\<close>

text \<open>Between two commands the drive is ready, so that the state of the disk is the driver's object and the blocks.\<close>

definition drive_disk :: "usb_msd_t \<Rightarrow> (usb_msd_t \<times> usb_drive) disk_ops" where
  "drive_disk msd = msd_disk (drive_hcd (ep_in msd) (ep_out msd)) 0"

definition usb_read ::
  "u32 \<Rightarrow> u8 list \<Rightarrow> usb_msd_t \<times> (u32 \<Rightarrow> u8 list) \<Rightarrow> bool \<times> u8 list \<times> usb_msd_t \<times> (u32 \<Rightarrow> u8 list)"
where
  "usb_read lba buf d =
     (let (ok, buf1, msd1, dr) = read_block (drive_disk (fst d)) lba buf (fst d, \<lparr>drive_phase = Ready, blocks = snd d\<rparr>)
      in (ok, buf1, msd1, blocks dr))"

definition usb_write ::
  "u32 \<Rightarrow> u8 list \<Rightarrow> usb_msd_t \<times> (u32 \<Rightarrow> u8 list) \<Rightarrow> bool \<times> usb_msd_t \<times> (u32 \<Rightarrow> u8 list)"
where
  "usb_write lba buf d =
     (let (ok, msd1, dr) = write_block (drive_disk (fst d)) lba buf (fst d, \<lparr>drive_phase = Ready, blocks = snd d\<rparr>)
      in (ok, msd1, blocks dr))"

definition usb_disk :: "u32 \<Rightarrow> (usb_msd_t \<times> (u32 \<Rightarrow> u8 list)) disk_ops" where
  "usb_disk bsize = \<lparr>read_block = usb_read, write_block = usb_write, disk_block_size = bsize\<rparr>"

lemma usb_read_result:
  assumes "usb_read lba buf d = (ok, buf1, d1)"
  shows "d1 = ((fst d)\<lparr>tag := tag (fst d) + 1\<rparr>, snd d)" "ok \<Longrightarrow> buf1 = snd d lba" "length buf1 = length buf"
    "length buf = length (snd d lba) \<Longrightarrow> buf \<noteq> [] \<Longrightarrow> length buf < 2 ^ 32 \<Longrightarrow> ok"
proof -
  let ?msd = "fst d" and ?dr = "\<lparr>drive_phase = Ready, blocks = snd d\<rparr>"
  obtain ok2 buf2 msd1 dr1 where r: "msd_read_sectors (drive_hcd (ep_in ?msd) (ep_out ?msd)) (ucast lba) 1 buf ?msd ?dr = (ok2, buf2, msd1, dr1)"
    by (rule prod_cases4)
  then have m: "msd_read_sectors (drive_hcd (ep_in ?msd) (ep_out ?msd)) (ucast lba) 1 buf ?msd ?dr = (ok, buf1, msd1, dr1)"
      "d1 = (msd1, blocks dr1)"
    using assms by (simp_all add: usb_read_def drive_disk_def msd_disk_def)
  note r = msd_read_drive [OF _ m(1)]
  show "d1 = ((fst d)\<lparr>tag := tag (fst d) + 1\<rparr>, snd d)" "ok \<Longrightarrow> buf1 = snd d lba" "length buf1 = length buf"
    "length buf = length (snd d lba) \<Longrightarrow> buf \<noteq> [] \<Longrightarrow> length buf < 2 ^ 32 \<Longrightarrow> ok"
    using r by (simp_all add: m(2))
qed

lemma usb_write_result:
  assumes "usb_write lba buf d = (ok, d1)"
  shows "d1 = ((fst d)\<lparr>tag := tag (fst d) + 1\<rparr>, if ok then (snd d)(lba := buf) else snd d)" "ok \<Longrightarrow> length buf = length (snd d lba)"
    "length buf = length (snd d lba) \<Longrightarrow> buf \<noteq> [] \<Longrightarrow> length buf < 2 ^ 32 \<Longrightarrow> ok"
proof -
  let ?msd = "fst d" and ?dr = "\<lparr>drive_phase = Ready, blocks = snd d\<rparr>"
  obtain ok2 out msd1 dr1 where r: "msd_write_sectors (drive_hcd (ep_in ?msd) (ep_out ?msd)) (ucast lba) 1 buf ?msd ?dr = (ok2, out, msd1, dr1)"
    by (rule prod_cases4)
  then have m: "msd_write_sectors (drive_hcd (ep_in ?msd) (ep_out ?msd)) (ucast lba) 1 buf ?msd ?dr = (ok, out, msd1, dr1)"
      "d1 = (msd1, blocks dr1)"
    using assms by (simp_all add: usb_write_def drive_disk_def msd_disk_def)
  have "drive_phase ?dr = Ready" by simp
  note res = msd_write_drive [OF this m(1)]
  show "d1 = ((fst d)\<lparr>tag := tag (fst d) + 1\<rparr>, if ok then (snd d)(lba := buf) else snd d)"
    unfolding m(2) res(1) res(2) by simp
  show "ok \<Longrightarrow> length buf = length (snd d lba)" "length buf = length (snd d lba) \<Longrightarrow> buf \<noteq> [] \<Longrightarrow> length buf < 2 ^ 32 \<Longrightarrow> ok"
    using res(3,4) by simp_all
qed

interpretation usb: block_store "usb_disk bsize" "snd"
proof
  fix lba buf d ok buf1 and d1 :: "usb_msd_t \<times> (u32 \<Rightarrow> u8 list)"
  assume "read_block (usb_disk bsize) lba buf d = (ok, buf1, d1)"
  then have "usb_read lba buf d = (ok, buf1, d1)" by (simp add: usb_disk_def)
  from usb_read_result [OF this]
  show "snd d1 = snd d \<and> (ok \<longrightarrow> buf1 = snd d lba) \<and> (length buf = length (snd d lba) \<longrightarrow> length buf1 = length buf)" by simp
next
  fix lba buf d ok and d1 :: "usb_msd_t \<times> (u32 \<Rightarrow> u8 list)"
  assume "write_block (usb_disk bsize) lba buf d = (ok, d1)"
  then have "usb_write lba buf d = (ok, d1)" by (simp add: usb_disk_def)
  from usb_write_result [OF this]
  show "(ok \<longrightarrow> snd d1 lba = buf) \<and> (length buf = length (snd d lba) \<longrightarrow> length (snd d1 lba) = length buf) \<and>
      (\<forall>x. x \<noteq> lba \<longrightarrow> snd d1 x = snd d x)" by auto
qed

end
