(* ===== verification/Fat32_Spec.thy ===== *)
theory Fat32_Spec
  imports Fat32_Undo Usb_Drive
begin

text \<open>
  The properties of the FAT writer and of the mass storage driver, with a small volume on a USB drive as witness.
\<close>

lemma usb_reliable: "block_store.reliable (usb_disk bsize) snd"
  unfolding usb.reliable_def
proof (intro allI impI)
  fix lba and buf :: "u8 list" and d :: "usb_msd_t \<times> (u32 \<Rightarrow> u8 list)"
  assume l: "buf \<noteq> [] \<and> length buf = length (snd d lba) \<and> length buf < 2 ^ 32"
  obtain ok buf1 d1 where "usb_read lba buf d = (ok, buf1, d1)" by (rule prod_cases3)
  then show "fst (read_block (usb_disk bsize) lba buf d)" using usb_read_result(4) [of lba buf d ok buf1 d1] l by (simp add: usb_disk_def)
qed

text \<open>What an access amounts to, for evaluation.\<close>

lemma usb_access [code]:
  "usb_read lba buf (msd, b) =
     (if buf \<noteq> [] \<and> length buf = length (b lba) \<and> int (length buf) < 4294967296
      then (True, b lba, msd\<lparr>tag := tag msd + 1\<rparr>, b)
      else let (ok, buf1, msd1, dr) = read_block (drive_disk msd) lba buf (msd, \<lparr>drive_phase = Ready, blocks = b\<rparr>)
           in (ok, buf1, msd1, blocks dr))"
  "usb_write lba buf (msd, b) =
     (if buf \<noteq> [] \<and> length buf = length (b lba) \<and> int (length buf) < 4294967296
      then (True, msd\<lparr>tag := tag msd + 1\<rparr>, b(lba := buf))
      else let (ok, msd1, dr) = write_block (drive_disk msd) lba buf (msd, \<lparr>drive_phase = Ready, blocks = b\<rparr>)
           in (ok, msd1, blocks dr))"
proof -
  obtain ok buf1 d1 where r: "usb_read lba buf (msd, b) = (ok, buf1, d1)" by (rule prod_cases3)
  show "usb_read lba buf (msd, b) =
     (if buf \<noteq> [] \<and> length buf = length (b lba) \<and> int (length buf) < 4294967296
      then (True, b lba, msd\<lparr>tag := tag msd + 1\<rparr>, b)
      else let (ok, buf1, msd1, dr) = read_block (drive_disk msd) lba buf (msd, \<lparr>drive_phase = Ready, blocks = b\<rparr>)
           in (ok, buf1, msd1, blocks dr))"
    using usb_read_result(1,2,4) [OF r] r by (simp add: usb_read_def)
  obtain ok d1 where w: "usb_write lba buf (msd, b) = (ok, d1)" by (rule prod.exhaust)
  show "usb_write lba buf (msd, b) =
     (if buf \<noteq> [] \<and> length buf = length (b lba) \<and> int (length buf) < 4294967296
      then (True, msd\<lparr>tag := tag msd + 1\<rparr>, b(lba := buf))
      else let (ok, msd1, dr) = write_block (drive_disk msd) lba buf (msd, \<lparr>drive_phase = Ready, blocks = b\<rparr>)
           in (ok, msd1, blocks dr))"
    using usb_write_result(1,3) [OF w] w by (simp add: usb_write_def)
qed

definition small_volume :: "(usb_msd_t \<times> (u32 \<Rightarrow> u8 list)) fat32_fs" where
  "small_volume =
     (let ep = \<lparr>driver_data = 0, device_speed = 2, device_id = 1, interface_num = 0, endpoint_num = 1, max_packet_size = 64, interval = 0\<rparr>
      in \<lparr>disk = (\<lparr>ep0 = ep, ep_in = ep, ep_out = ep, tag = 1, block_count = 100, block_size = 64, use_16 = False\<rparr>, \<lambda>_. replicate 64 0),
          partition_lba = 0, bytes_per_sector = 64, sectors_per_cluster = 1, reserved_sectors = 1, num_fats = 1, fat_type = 16,
          sectors_per_fat = 1, root_cluster = 0, root_dir_lba = 2, root_dir_sectors = 1, max_cluster = 5, fat_start_lba = 1,
          data_start_lba = 3, sector_buf = replicate 64 0\<rparr>)"

definition small_file :: "u8 list" where "small_file = map of_nat [0..<70]"

lemma small_write: "fst (fat32_write_file (usb_disk 64) (report_name 1) small_file small_volume)"
  by code_simp

lemma small_volume_ok: "volume_ok small_volume"
  by (simp add: volume_ok_def entry_size_def small_volume_def Let_def)

lemma small_volume_facts:
  "bytes_per_sector small_volume = 64" "fat_type small_volume = 16" "snd (disk small_volume) lba = replicate 64 0"
  "length (sector_buf small_volume) = 64"
  by (simp_all add: small_volume_def Let_def)

lemma small_volume_state:
  "block_store.sized snd small_volume" "block_store.root_used snd small_volume"
  "block_store.name_absent snd small_volume (report_name 1)" "length (report_name 1) = 11"
  "report_name 1 ! 0 = 77"
proof -
  have sec: "usb.sector small_volume x = replicate 64 0" for x by (simp add: usb.sector_def small_volume_facts)
  show "block_store.sized snd small_volume" by (simp add: usb.sized_def small_volume_facts sec)
  show "block_store.root_used snd small_volume"
    by (simp add: usb.root_used_def usb.root_clusters_def small_volume_facts)
  have "entry_free (replicate 64 0) off" if "off \<in> set (entry_offsets small_volume)" for off
    using offset_inside [OF that] by (simp add: entry_free_def small_volume_facts)
  then show "block_store.name_absent snd small_volume (report_name 1)" by (simp add: usb.name_absent_def sec)
  show "length (report_name 1) = 11" "report_name 1 ! 0 = 77" by code_simp+
qed

text \<open>The same volume with cluster 2 in use.\<close>

definition used_volume :: "(usb_msd_t \<times> (u32 \<Rightarrow> u8 list)) fat32_fs" where
  "used_volume = small_volume\<lparr>disk :=
     (fst (disk small_volume), (\<lambda>_. replicate 64 0)(1 := put_bytes 4 [0xFF, 0xFF] (replicate 64 0)))\<rparr>"

lemma used_write: "fst (fat32_write_file (usb_disk 64) (report_name 1) [1, 2, 3] used_volume)"
  by code_simp

lemma used_volume_ok: "volume_ok used_volume"
  using small_volume_ok by (simp add: used_volume_def volume_ok_def entry_size_def)

lemma used_volume_state:
  "block_store.sized snd used_volume" "block_store.root_used snd used_volume"
  "block_store.name_absent snd used_volume (report_name 1)"
  "is_valid_cluster used_volume 2" "block_store.fat_val snd used_volume 2 \<noteq> 0"
  "2 \<notin> set (block_store.root_clusters snd used_volume)"
proof -
  have sec: "usb.sector used_volume x = (if x = 1 then put_bytes 4 [0xFF, 0xFF] (replicate 64 0) else replicate 64 0)" for x
    by (simp add: usb.sector_def used_volume_def small_volume_def Let_def)
  have geo: "bytes_per_sector used_volume = 64" "fat_type used_volume = 16" "sector_buf used_volume = replicate 64 0"
    "max_cluster used_volume = 5" "root_dir_lba used_volume = 2" "root_dir_sectors used_volume = 1" "fat_start_lba used_volume = 1"
    by (simp_all add: used_volume_def small_volume_def Let_def)
  show "block_store.sized snd used_volume" by (simp add: usb.sized_def geo sec)
  have roots: "usb.root_clusters used_volume = []" by (simp add: usb.root_clusters_def geo)
  show "block_store.root_used snd used_volume" "2 \<notin> set (block_store.root_clusters snd used_volume)"
    by (simp_all add: usb.root_used_def roots)
  have "entry_free (replicate 64 0) off" if "off \<in> set (entry_offsets used_volume)" for off
    using offset_inside [OF that] by (simp add: entry_free_def geo)
  moreover have "usb.dir_lbas used_volume = [2]" by (simp add: usb.dir_lbas_def geo)
  ultimately show "block_store.name_absent snd used_volume (report_name 1)" by (simp add: usb.name_absent_def sec)
  show "is_valid_cluster used_volume 2" by (simp add: is_valid_cluster_def geo)
  show "block_store.fat_val snd used_volume 2 \<noteq> 0"
    by (simp add: usb.fat_val_def sec geo entry_sector_def entry_offset_def le16_def put_bytes_def nth_append)
qed

section \<open>Properties\<close>

text \<open>
  C2: a file that was written reads back. On a disk that keeps what is written to it, when \<open>fat32_write_file\<close>
  succeeds for a name that no entry in use has, \<open>fat32_read_file\<close> finds the file, reports its size and delivers its
  first \<open>max_size\<close> bytes, whatever else the volume holds.
\<close>

theorem fat32_write_read:
  assumes "block_store dev content" "block_store.reliable dev content"
    and "volume_ok fs" "block_store.sized content fs" "block_store.root_used content fs"
    and "length name = 11" "name ! 0 \<noteq> 0" "name ! 0 \<noteq> 0xE5" "block_store.name_absent content fs name"
    and "length dat < 2 ^ 31" "fat32_write_file dev name dat fs = (True, fs1)" "max_size \<noteq> 0"
  shows "fst (fat32_read_file dev name True max_size fs1) = (True, take (unat max_size) dat, Some (of_nat (length dat)))"
  using block_store.write_then_read [OF assms] .

theorem fat32_write_read_witness:
  "fst (fat32_read_file (usb_disk 64) (report_name 1) True 100
     (snd (fat32_write_file (usb_disk 64) (report_name 1) small_file small_volume))) = (True, small_file, Some 70)"
proof -
  have "fat32_write_file (usb_disk 64) (report_name 1) small_file small_volume =
      (True, snd (fat32_write_file (usb_disk 64) (report_name 1) small_file small_volume))"
    using small_write by (simp add: prod_eq_iff)
  then show ?thesis
    using fat32_write_read [OF usb.block_store_axioms usb_reliable small_volume_ok small_volume_state(1,2,4) _ _
        small_volume_state(3), where dat = small_file and max_size = 100] small_volume_state(5)
    by (simp add: small_file_def)
qed

text \<open>
  C22: writing a file damages no other file. When \<open>fat32_write_file\<close> succeeds for a name that no entry in use has, every
  cluster that was in use keeps its entry in the table, and every such cluster outside the root directory keeps its bytes;
  the clusters of the root directory are left out because the new entry is written there. The geometry of the volume does
  not change.
\<close>

theorem fat32_write_keeps_others:
  assumes "block_store dev content" "block_store.reliable dev content"
    and "volume_ok fs" "block_store.sized content fs" "block_store.root_used content fs"
    and "length name = 11" "name ! 0 \<noteq> 0" "name ! 0 \<noteq> 0xE5" "block_store.name_absent content fs name"
    and "length dat < 2 ^ 31" "fat32_write_file dev name dat fs = (True, fs1)"
    and "is_valid_cluster fs c" "block_store.fat_val content fs c \<noteq> 0"
  shows "same_volume fs fs1 \<and> block_store.fat_val content fs1 c = block_store.fat_val content fs c \<and>
    (c \<notin> set (block_store.root_clusters content fs) \<longrightarrow>
      block_store.cluster_bytes content fs1 c = block_store.cluster_bytes content fs c)"
proof -
  obtain cs where cs: "set cs \<subseteq> block_store.free_in content fs" "same_volume fs fs1"
    "\<And>c. is_valid_cluster fs c \<Longrightarrow> c \<notin> set cs \<Longrightarrow> block_store.fat_val content fs1 c = block_store.fat_val content fs c"
    "\<And>c. is_valid_cluster fs c \<Longrightarrow> c \<notin> set cs \<Longrightarrow> c \<notin> set (block_store.root_clusters content fs) \<Longrightarrow>
      block_store.cluster_bytes content fs1 c = block_store.cluster_bytes content fs c"
    using block_store.write_file_result [OF assms(1-11)] by metis
  have "c \<notin> set cs" using cs(1) assms(13) block_store.free_in_def [OF assms(1), of fs] by auto
  then show ?thesis using cs(2-4) assms(12) by blast
qed

theorem fat32_write_keeps_others_witness:
  "block_store.cluster_bytes snd (snd (fat32_write_file (usb_disk 64) (report_name 1) [1, 2, 3] used_volume)) 2 =
    block_store.cluster_bytes snd used_volume 2"
proof -
  have "fat32_write_file (usb_disk 64) (report_name 1) [1, 2, 3] used_volume =
      (True, snd (fat32_write_file (usb_disk 64) (report_name 1) [1, 2, 3] used_volume))"
    using used_write by (simp add: prod_eq_iff)
  then show ?thesis
    using fat32_write_keeps_others [OF usb.block_store_axioms usb_reliable used_volume_ok used_volume_state(1,2)
        small_volume_state(4) _ _ used_volume_state(3), where dat = "[1, 2, 3]" and c = 2] small_volume_state(5) used_volume_state(4-6)
    by simp
qed

text \<open>
  C37: a mounted volume is well-formed. When \<open>parse_fat_bpb\<close> accepts a boot sector on a drive with a supported block
  size, the geometry is that of a well-formed volume, given what the function does not check itself: that there is a
  table, that the tables and the root directory end below \<open>2 ^ 32\<close>, and that a table has an entry for every cluster.
\<close>

theorem parse_fat_bpb_well_formed:
  assumes "parse_fat_bpb dev fs0 = (True, fs)" "valid_block_size (disk_block_size dev)"
    and "0 < num_fats fs" "2 \<le> max_cluster fs"
    and "unat (fat_start_lba fs) + unat (num_fats fs) * unat (sectors_per_fat fs) + unat (root_dir_sectors fs) < 2 ^ 32"
    and "unat (max_cluster fs) * entry_size fs \<le> unat (sectors_per_fat fs) * unat (bytes_per_sector fs)"
    and "max_cluster fs \<le> (if fat_type fs = 32 then 0x0FFFFFF7 else 0xFFF7)"
  shows "volume_ok fs"
proof -
  let ?total = "bpb_total (sector_buf fs0)"
  define fs1 where "fs1 = bpb_layout (sector_buf fs0) (bpb_sizes (sector_buf fs0) fs0)"
  define clusters where "clusters = (?total - data_start_lba fs1) div ucast (sectors_per_cluster fs1)"
  let ?fs2 = "fs1\<lparr>fat_type := (if clusters < 65525 then 16 else 32), max_cluster := clusters + 2\<rparr>"
  have f: "\<exists>r. fs = ?fs2\<lparr>root_cluster := r\<rparr>" "bytes_per_sector (bpb_sizes (sector_buf fs0) fs0) = disk_block_size dev"
      "sectors_per_cluster (bpb_sizes (sector_buf fs0) fs0) \<noteq> 0" "data_start_lba fs1 < ?total"
    using assms(1) unfolding parse_fat_bpb_def Let_def fs1_def [symmetric] clusters_def [symmetric]
    by (simp_all split: if_splits) blast+
  have l: "bytes_per_sector fs1 = bytes_per_sector (bpb_sizes (sector_buf fs0) fs0)"
      "sectors_per_cluster fs1 = sectors_per_cluster (bpb_sizes (sector_buf fs0) fs0)"
      "root_dir_lba fs1 = fat_start_lba fs1 + ucast (num_fats fs1) * sectors_per_fat fs1"
      "data_start_lba fs1 = root_dir_lba fs1 + ucast (root_dir_sectors fs1)"
    by (simp_all add: fs1_def bpb_layout_def Let_def)
  have p: "bytes_per_sector fs = disk_block_size dev" "sectors_per_cluster fs \<noteq> 0" "data_start_lba fs < ?total"
      "clusters = (?total - data_start_lba fs) div ucast (sectors_per_cluster fs)"
      "root_dir_lba fs = fat_start_lba fs + ucast (num_fats fs) * sectors_per_fat fs"
      "data_start_lba fs = root_dir_lba fs + ucast (root_dir_sectors fs)"
      "max_cluster fs = clusters + 2" "fat_type fs = (if clusters < 65525 then 16 else 32)"
    using f l by (auto simp: clusters_def)
  let ?p = "unat (sectors_per_cluster fs)"
  have type: "fat_type fs = 16 \<or> fat_type fs = 32" using p(8) by (simp split: if_splits)
  have spc: "unat (ucast (sectors_per_cluster fs) :: u32) = ?p"
    using unat_u8_less [of "sectors_per_cluster fs"] by (simp add: unat_ucast_small)
  have pos: "0 < ?p" using p(2) by (simp add: unat_gt_0)
  have nf: "unat (ucast (num_fats fs) :: u32) = unat (num_fats fs)"
    using unat_u8_less [of "num_fats fs"] by (simp add: unat_ucast_small)
  have rs: "unat (ucast (root_dir_sectors fs) :: u32) = unat (root_dir_sectors fs)"
    using unat_u16_less [of "root_dir_sectors fs"] by (simp add: unat_ucast_small)
  have root: "unat (root_dir_lba fs) = unat (fat_start_lba fs) + unat (num_fats fs) * unat (sectors_per_fat fs)"
    unfolding p(5) using assms(5) nf by (simp add: unat_add_u32 unat_mult_u32)
  have data: "unat (data_start_lba fs) = unat (root_dir_lba fs) + unat (root_dir_sectors fs)"
    unfolding p(6) using assms(5) rs root by (simp add: unat_add_u32)
  have diff: "unat (bpb_total (sector_buf fs0) - data_start_lba fs) = unat ?total - unat (data_start_lba fs)"
    using p(3) by (intro unat_sub) simp
  have cl: "unat clusters = (unat ?total - unat (data_start_lba fs)) div ?p"
    unfolding p(4) by (simp add: unat_div_distrib diff spc)
  have "unat clusters \<noteq> 2 ^ 32 - 1" "unat clusters \<noteq> 2 ^ 32 - 2"
    using assms(4) unfolding p(7) by (auto simp: word_le_nat_alt unat_word_ariths)
  then have max: "unat (max_cluster fs) = unat clusters + 2"
    using unat_u32_less [of clusters] unfolding p(7) by (subst unat_add_u32) auto
  have "unat clusters * ?p \<le> unat ?total - unat (data_start_lba fs)" unfolding cl by (simp add: mult.commute)
  then have lim: "unat (data_start_lba fs) + (unat (max_cluster fs) - 2) * ?p \<le> 2 ^ 32"
    using max unat_u32_less [of ?total] p(3) by (simp add: word_less_nat_alt)
  have "64 \<le> bytes_per_sector fs \<and> bytes_per_sector fs \<le> 4096 \<and> unat (bytes_per_sector fs) mod 32 = 0"
    using assms(2) p(1) by (auto simp: valid_block_size_def)
  then show ?thesis
    using type assms(3,4,6,7) p(2) root data lim max pos unfolding volume_ok_def
    by (simp add: word_greater_zero_iff word_le_nat_alt)
qed

text \<open>A boot sector with one table of 17 sectors and 4181 clusters of 512 bytes.\<close>

definition boot_sector :: "u8 list" where
  "boot_sector = put_bytes 510 [0x55, 0xAA] (put_bytes 11
     (bytes16 512 @ [1] @ bytes16 1 @ [1] @ bytes16 16 @ bytes16 4200 @ [0xF8] @ bytes16 17) (replicate 512 0))"

definition boot_fs :: "(usb_msd_t \<times> (u32 \<Rightarrow> u8 list)) fat32_fs" where
  "boot_fs = small_volume\<lparr>sector_buf := boot_sector\<rparr>"

lemma boot_parsed:
  "(let (ok, fs) = parse_fat_bpb (usb_disk 512) boot_fs
    in (ok, num_fats fs, fat_start_lba fs, sectors_per_fat fs, root_dir_sectors fs, bytes_per_sector fs, max_cluster fs, fat_type fs)) =
   (True, 1, 1, 17, 1, 512, 4183, 16)"
  by code_simp

theorem parse_fat_bpb_well_formed_witness:
  "volume_ok (snd (parse_fat_bpb (usb_disk 512) boot_fs))"
proof -
  obtain fs where p: "parse_fat_bpb (usb_disk 512) boot_fs = (True, fs)" and
    v: "num_fats fs = 1" "fat_start_lba fs = 1" "sectors_per_fat fs = 17" "root_dir_sectors fs = 1" "bytes_per_sector fs = 512"
      "max_cluster fs = 4183" "fat_type fs = 16"
    using boot_parsed by (auto split: prod.splits)
  show ?thesis
    using parse_fat_bpb_well_formed [OF p] v p by (simp add: valid_block_size_def entry_size_def usb_disk_def)
qed

text \<open>
  the command blocks of \<open>msd_read_sectors\<close> and \<open>msd_write_sectors\<close> carry the block number and the count, in the
  10-byte form and in the 16-byte form; the 10-byte form keeps only the low 16 bits of the count.
\<close>

theorem rw_cdb_roundtrip:
  "cdb_lba (rw_cdb 0x88 0x28 msd lba count) = lba \<and> cdb_lba (rw_cdb 0x8A 0x2A msd lba count) = lba \<and>
   cdb_count (rw_cdb 0x88 0x28 msd lba count) = (if \<not> use_16 msd \<and> drop_bit 32 lba = 0 then take_bit 16 count else count) \<and>
   cdb_count (rw_cdb 0x8A 0x2A msd lba count) = (if \<not> use_16 msd \<and> drop_bit 32 lba = 0 then take_bit 16 count else count)"
  using rw_cdb_decodes(2,3) [OF disjI1 [OF refl], of msd lba count "[]"]
    rw_cdb_decodes(2,3) [OF disjI2 [OF refl], of msd lba count "[]"]
  by auto

text \<open>
  C31: the driver works with every drive that behaves as the specifications of the bulk-only transport and of SCSI say:
  one that decodes the command wrapper (its signature, flags, lengths and the command block), moves the blocks over the
  endpoint of their direction and answers with the status wrapper. For any number of blocks that the command can carry,
  \<open>msd_write_sectors\<close> changes these blocks only, and \<open>msd_read_sectors\<close> then delivers what was written.
\<close>

theorem msd_sectors_roundtrip:
  assumes "bulk_only_drive hcd (ep_in msd) (ep_out msd) sz capacity ready content" "ready d"
    and "transfer_ok msd lba count sz capacity" "length dat = unat count * sz" "length buf = unat count * sz"
    and "msd_write_sectors hcd lba count dat msd d = (ok, out, msd1, d1)"
  shows "ok \<and> ready d1 \<and> (\<forall>b. b < unat lba \<or> unat lba + unat count \<le> b \<longrightarrow> content d1 b = content d b) \<and>
    (\<exists>d2. msd_read_sectors hcd lba count buf msd1 d1 = (True, dat, msd1\<lparr>tag := tag msd1 + 1\<rparr>, d2) \<and> ready d2 \<and>
      content d2 = content d1)"
proof -
  have w: "ok" "msd1 = msd\<lparr>tag := tag msd + 1\<rparr>" "ready d1"
    "content d1 = (\<lambda>b. if unat lba \<le> b \<and> b < unat lba + unat count then take sz (drop ((b - unat lba) * sz) dat) else content d b)"
    using msd_write_blocks [OF assms(1-4)] assms(6) by auto
  have same: "ep_in msd1 = ep_in msd" "ep_out msd1 = ep_out msd" "transfer_ok msd1 = transfer_ok msd"
    by (simp_all add: w(2) transfer_ok_def fun_eq_iff)
  have "map (content d1) [unat lba..<unat lba + unat count] =
      map (\<lambda>b. take sz (drop ((b - unat lba) * sz) dat)) [unat lba..<unat lba + unat count]"
    by (simp add: w(4))
  then have "concat (map (content d1) [unat lba..<unat lba + unat count]) = dat" using concat_chunks [OF assms(4)] by (simp only:)
  then have "\<exists>d2. msd_read_sectors hcd lba count buf msd1 d1 = (True, dat, msd1\<lparr>tag := tag msd1 + 1\<rparr>, d2) \<and> ready d2 \<and>
      content d2 = content d1"
    using msd_read_blocks [of hcd msd1 sz capacity ready content d1 lba count buf] assms(1,3,5) w(3) by (simp add: same)
  then show ?thesis using w(1,3) by (auto simp: w(4))
qed

definition zero_drive :: usb_drive where
  "zero_drive = \<lparr>drive_phase = Ready, blocks = \<lambda>_. [0, 0]\<rparr>"

definition small_msd :: usb_msd_t where
  "small_msd = fst (disk small_volume)"

theorem msd_sectors_roundtrip_witness:
  "let hcd = drive_hcd (ep_in small_msd) (ep_out small_msd);
       (ok, out, msd1, d1) = msd_write_sectors hcd 7 2 [1, 2, 3, 4] small_msd zero_drive;
       (ok2, buf, msd2, d2) = msd_read_sectors hcd 7 2 [9, 9, 9, 9] msd1 d1
   in ok \<and> ok2 \<and> buf = [1, 2, 3, 4] \<and> drive_content d1 9 = [0, 0]"
proof -
  obtain ok out msd1 d1 where w: "msd_write_sectors (drive_hcd (ep_in small_msd) (ep_out small_msd)) 7 2 [1, 2, 3, 4] small_msd zero_drive =
      (ok, out, msd1, d1)" by (rule prod_cases4)
  have "drive_ready 2 zero_drive" "transfer_ok small_msd 7 2 2 (2 ^ 32)" "drive_content zero_drive 9 = [0, 0]"
    by (simp_all add: drive_ready_def zero_drive_def transfer_ok_def small_msd_def small_volume_def drive_content_def)
  then show ?thesis
    using msd_sectors_roundtrip [OF drive_hcd_bulk_only _ _ _ _ w, of 2 "[9, 9, 9, 9]"] w by auto
qed

text \<open>The volume of the witnesses before, with a file of this name in cluster 2.\<close>

definition old_volume :: "u8 list \<Rightarrow> (usb_msd_t \<times> (u32 \<Rightarrow> u8 list)) fat32_fs" where
  "old_volume name = used_volume\<lparr>disk :=
     (fst (disk small_volume), (snd (disk used_volume))(2 := put_bytes 0 (dir_entry name 2 3) (replicate 64 0)))\<rparr>"

lemma old_geometry:
  "bytes_per_sector (old_volume name) = 64" "fat_type (old_volume name) = 16" "max_cluster (old_volume name) = 5"
  "sector_buf (old_volume name) = replicate 64 0" "root_dir_lba (old_volume name) = 2" "root_dir_sectors (old_volume name) = 1"
  "fat_start_lba (old_volume name) = 1" "partition_lba (old_volume name) = 0"
  by (simp_all add: old_volume_def used_volume_def small_volume_def Let_def)

lemma old_sector:
  "usb.sector (old_volume name) x = (if x = 2 then put_bytes 0 (dir_entry name 2 3) (replicate 64 0)
     else if x = 1 then put_bytes 4 [0xFF, 0xFF] (replicate 64 0) else replicate 64 0)"
  by (simp add: usb.sector_def old_volume_def used_volume_def small_volume_def Let_def)

lemma usb_writable: "block_store.writable (usb_disk bsize) snd"
  unfolding usb.writable_def
proof (intro allI impI)
  fix lba and buf :: "u8 list" and d :: "usb_msd_t \<times> (u32 \<Rightarrow> u8 list)"
  assume l: "buf \<noteq> [] \<and> length buf = length (snd d lba) \<and> length buf < 2 ^ 32"
  obtain ok d1 where "usb_write lba buf d = (ok, d1)" by (rule prod.exhaust)
  then show "fst (write_block (usb_disk bsize) lba buf d)" using usb_write_result(3) [of lba buf d ok d1] l by (simp add: usb_disk_def)
qed

lemma numeral_nat_5: "unat (5 :: u32) = Suc (Suc 3)"
  by simp

lemma old_found:
  assumes "length name = 11" "name ! 0 \<noteq> 0" "name ! 0 \<noteq> 0xE5"
  shows "usb.found_at (old_volume name) name = Some (2, 0)" "usb.file_chain (old_volume name) name = [2]"
proof -
  let ?fs = "old_volume name" and ?dir = "put_bytes 0 (dir_entry name 2 3) (replicate 64 0) :: u8 list"
  have offs: "entry_offsets ?fs = [0, 32]" by (simp add: entry_offsets_def old_geometry upt_rec)
  have lbas: "usb.dir_lbas ?fs = [2]" by (simp add: usb.dir_lbas_def old_geometry)
  have l: "length (replicate 64 0 :: u8 list) = unat (bytes_per_sector ?fs)" by (simp add: old_geometry)
  have o: "0 \<in> set (entry_offsets ?fs)" by (simp add: offs)
  note new = new_entry [OF assms(1) l o, of 2 3]
  have m: "find_name name ?dir [0, 32] = Match 0"
    using new(1-3) assms by simp
  then show at: "usb.found_at ?fs name = Some (2, 0)"
    by (simp add: usb.found_at_def offs lbas old_sector del: find_name.simps)
  have v: "usb.fat_val ?fs 2 = 0xFFFF"
    by (simp add: usb.fat_val_def old_sector old_geometry entry_sector_def entry_offset_def le16_def put_bytes_def nth_append)
  have "usb.root_chain ?fs (Suc (Suc n)) 2 = [2]" for n using v by (simp add: is_valid_cluster_def old_geometry)
  then have "usb.root_chain ?fs (unat (max_cluster ?fs)) 2 = [2]" by (metis numeral_nat_5 old_geometry(3))
  then show "usb.file_chain ?fs name = [2]" using new(4) by (simp add: usb.file_chain_def at old_sector)
qed

lemma old_volume_ok: "volume_ok (old_volume name)"
  using used_volume_ok by (simp add: old_volume_def volume_ok_def entry_size_def)

lemma old_volume_state:
  assumes "length name = 11" "name ! 0 \<noteq> 0" "name ! 0 \<noteq> 0xE5"
  shows "block_store.sized snd (old_volume name)" "block_store.root_used snd (old_volume name)"
    "block_store.replaceable snd (old_volume name) name"
proof -
  let ?fs = "old_volume name"
  have le: "length (dir_entry name 2 3) = 32" using assms(1) by (rule length_dir_entry)
  show "block_store.sized snd ?fs" by (simp add: usb.sized_def old_geometry old_sector le)
  have roots: "usb.root_clusters ?fs = []" by (simp add: usb.root_clusters_def old_geometry)
  show "block_store.root_used snd ?fs" by (simp add: usb.root_used_def roots)
  have offs: "entry_offsets ?fs = [0, 32]" by (simp add: entry_offsets_def old_geometry upt_rec)
  have lbas: "usb.dir_lbas ?fs = [2]" by (simp add: usb.dir_lbas_def old_geometry)
  have "entry_free (put_bytes 0 (dir_entry name 2 3) (replicate 64 0)) 32"
    using le by (simp add: entry_free_def put_bytes_def nth_append)
  then show "block_store.replaceable snd ?fs name"
    by (simp add: usb.replaceable_def old_found [OF assms] roots lbas offs old_sector)
qed

text \<open>
  C23: deleting a file removes it and nothing else. On a disk whose accesses succeed, \<open>fat32_delete_file\<close> reports whether
  the name was found; afterwards no entry in use has the name, the clusters of the file are free, every other entry of the
  table is as it was, and outside the root directory no cluster has changed.
\<close>

theorem fat32_delete_frees:
  assumes "block_store dev content" "block_store.reliable dev content" "block_store.writable dev content"
    and "volume_ok fs" "block_store.sized content fs" "block_store.root_used content fs"
    and "length name = 11" "block_store.replaceable content fs name" "fat32_delete_file dev name fs = (ok, fs1)"
    and "is_valid_cluster fs c"
  shows "(ok \<longleftrightarrow> block_store.found_at content fs name \<noteq> None) \<and> block_store.name_absent content fs1 name \<and>
    block_store.fat_val content fs1 c =
      (if c \<in> set (block_store.file_chain content fs name) then 0 else block_store.fat_val content fs c) \<and>
    (c \<notin> set (block_store.root_clusters content fs) \<longrightarrow>
      block_store.cluster_bytes content fs1 c = block_store.cluster_bytes content fs c)"
  using block_store.delete_file_result(1,5-7) [OF assms(1-9)] assms(10) by blast

theorem fat32_delete_frees_witness:
  "fst (fat32_delete_file (usb_disk 64) (report_name 1) (old_volume (report_name 1))) \<and>
   block_store.fat_val snd (snd (fat32_delete_file (usb_disk 64) (report_name 1) (old_volume (report_name 1)))) 2 = 0"
proof -
  let ?fs = "old_volume (report_name 1)"
  have f: "length (report_name 1) = 11" "report_name 1 ! 0 \<noteq> 0" "report_name 1 ! 0 \<noteq> 0xE5"
    using small_volume_state(4,5) by simp_all
  obtain ok fs1 where d: "fat32_delete_file (usb_disk 64) (report_name 1) ?fs = (ok, fs1)" by fastforce
  have v: "is_valid_cluster ?fs 2" by (simp add: is_valid_cluster_def old_geometry)
  show ?thesis
    using fat32_delete_frees [OF usb.block_store_axioms usb_reliable usb_writable old_volume_ok
        old_volume_state(1,2) [OF f] f(1) old_volume_state(3) [OF f] d v] old_found [OF f] d
    by simp
qed

text \<open>
  C24: a write that fails leaves no trace. When \<open>fat32_write_file\<close> fails on a disk whose accesses succeed, because no cluster
  is free or the directory is full, the table has the entries it had before, every cluster in use has its bytes and the
  directory is as it was.
\<close>

theorem fat32_write_fails_clean:
  assumes "block_store dev content" "block_store.reliable dev content" "block_store.writable dev content"
    and "volume_ok fs" "block_store.sized content fs" "block_store.root_used content fs"
    and "length name = 11" "fat32_write_file dev name dat fs = (False, fs1)" "is_valid_cluster fs c"
  shows "same_volume fs fs1 \<and> block_store.fat_val content fs1 c = block_store.fat_val content fs c \<and>
    (block_store.fat_val content fs c \<noteq> 0 \<longrightarrow>
      block_store.cluster_bytes content fs1 c = block_store.cluster_bytes content fs c) \<and>
    (\<forall>x \<in> set (block_store.dir_lbas content fs). block_store.sector content fs1 x = block_store.sector content fs x)"
proof -
  note loc = assms(1)
  obtain cs where cs: "set cs \<subseteq> block_store.free_in content fs" "block_store.only_new content fs cs fs1"
      "\<And>c. is_valid_cluster fs c \<Longrightarrow> block_store.fat_val content fs1 c = block_store.fat_val content fs c"
    using block_store.write_fails_clean [OF assms(1-5,7,8)] by metis
  note new = cs(2) [unfolded block_store.only_new_def [OF loc]]
  have same: "same_volume fs fs1" using new by blast
  have "block_store.cluster_bytes content fs1 c = block_store.cluster_bytes content fs c" if "block_store.fat_val content fs c \<noteq> 0"
  proof (rule block_store.cluster_bytes_cong [OF loc same])
    fix x
    assume x: "x \<in> set (cluster_sectors fs c)"
    have "x \<notin> set (cluster_sectors fs d)" if d: "d \<in> set cs" for d
    proof -
      have "is_valid_cluster fs d" "c \<noteq> d"
        using d cs(1) \<open>block_store.fat_val content fs c \<noteq> 0\<close> by (auto simp: block_store.free_in_def [OF loc] is_valid_cluster_def)
      then show ?thesis using clusters_apart [OF assms(4,9)] x by blast
    qed
    then have "x \<notin> block_store.file_sectors fs cs" by (simp add: block_store.file_sectors_def [OF loc])
    then show "block_store.sector content fs1 x = block_store.sector content fs x"
      using new data_not_fat(1) [OF assms(4,9) x] by blast
  qed
  moreover have "block_store.sector content fs1 x = block_store.sector content fs x" if "x \<in> set (block_store.dir_lbas content fs)" for x
    using new block_store.dir_sector_place(1,2) [OF loc assms(4) that] assms(6) cs(1) by blast
  ultimately show ?thesis using same cs(3) [OF assms(9)] by blast
qed

lemma used_full: "\<not> fst (fat32_write_file (usb_disk 64) (report_name 1) (replicate 200 7) used_volume)"
  by code_simp

theorem fat32_write_fails_clean_witness:
  "block_store.cluster_bytes snd (snd (fat32_write_file (usb_disk 64) (report_name 1) (replicate 200 7) used_volume)) 2 =
    block_store.cluster_bytes snd used_volume 2"
proof -
  have "fat32_write_file (usb_disk 64) (report_name 1) (replicate 200 7) used_volume =
      (False, snd (fat32_write_file (usb_disk 64) (report_name 1) (replicate 200 7) used_volume))"
    using used_full by (simp add: prod_eq_iff)
  from fat32_write_fails_clean [OF usb.block_store_axioms usb_reliable usb_writable used_volume_ok used_volume_state(1,2)
      small_volume_state(4) this used_volume_state(4)]
  show ?thesis using used_volume_state(5) by blast
qed

end
