(* ===== verification/C_String.thy ===== *)
theory C_String
  imports Prelude "HOL-Library.Char_ord"
begin

text \<open>
  The string functions of \<open>lib/string.c\<close>, \<open>lib/string.h\<close> and \<open>lib/ctype.h\<close>. A pointer to characters is the list
  of the characters from there to the end of the object that it points into, the terminating null character
  included; a function that reads past the end of the object returns \<open>None\<close>. For the functions that copy memory,
  memory is a function from addresses.
\<close>

abbreviation NUL :: char where "NUL \<equiv> CHR 0x00"

definition code :: "char \<Rightarrow> int" where "code c = of_char c"

section \<open>Characters\<close>

definition toupper :: "int \<Rightarrow> int" where
  "toupper c = (if c \<ge> code CHR ''a'' \<and> c \<le> code CHR ''z'' then c + code CHR ''A'' - code CHR ''a'' else c)"

definition isdigit :: "int \<Rightarrow> bool" where
  "isdigit c \<longleftrightarrow> c \<ge> code CHR ''0'' \<and> c \<le> code CHR ''9''"

definition isxdigit :: "int \<Rightarrow> bool" where
  "isxdigit c \<longleftrightarrow> isdigit c \<or> (toupper c \<ge> code CHR ''A'' \<and> toupper c \<le> code CHR ''F'')"

section \<open>Copying memory\<close>

text \<open>\<open>copy_up\<close> is the loop from 0 to \<open>n\<close> (also \<open>memcpy\<close>), \<open>copy_down\<close> the one that counts down.\<close>

primrec copy_up :: "nat \<Rightarrow> nat \<Rightarrow> nat \<Rightarrow> nat \<Rightarrow> (nat \<Rightarrow> 'b) \<Rightarrow> (nat \<Rightarrow> 'b)" where
  "copy_up d s i 0 m = m"
| "copy_up d s i (Suc n) m = copy_up d s (i + 1) n (m(d + i := m (s + i)))"

primrec copy_down :: "nat \<Rightarrow> nat \<Rightarrow> nat \<Rightarrow> (nat \<Rightarrow> 'b) \<Rightarrow> (nat \<Rightarrow> 'b)" where
  "copy_down d s 0 m = m"
| "copy_down d s (Suc n) m = copy_down d s n (m(d + n := m (s + n)))"

definition memmove :: "nat \<Rightarrow> nat \<Rightarrow> nat \<Rightarrow> (nat \<Rightarrow> 'b) \<Rightarrow> (nat \<Rightarrow> 'b)" where
  "memmove d s n m =
     (if n > 0
      then let m1 = (if d < s then copy_up d s 0 n m else m)
           in if d > s then copy_down d s n m1 else m1
      else m)"

definition memcpy :: "nat \<Rightarrow> nat \<Rightarrow> nat \<Rightarrow> (nat \<Rightarrow> 'b) \<Rightarrow> (nat \<Rightarrow> 'b)" where
  "memcpy d s n m = copy_up d s 0 n m"

primrec memset :: "nat \<Rightarrow> 'b \<Rightarrow> nat \<Rightarrow> (nat \<Rightarrow> 'b) \<Rightarrow> (nat \<Rightarrow> 'b)" where
  "memset d v 0 m = m"
| "memset d v (Suc n) m = memset (d + 1) v n (m(d := v))"

section \<open>Strings\<close>

primrec strlen :: "string \<Rightarrow> nat option" where
  "strlen [] = None"
| "strlen (c # cs) = (if c = NUL then Some 0 else map_option Suc (strlen cs))"

text \<open>Characters are signed.\<close>

definition schar :: "char \<Rightarrow> int" where
  "schar c = (if code c < 128 then code c else code c - 256)"

fun strncmp :: "string \<Rightarrow> string \<Rightarrow> nat \<Rightarrow> int option" where
  "strncmp s1 s2 0 = Some 0"
| "strncmp (a # s1) (b # s2) (Suc n) =
     (if a \<noteq> b then Some (schar a - schar b) else if a = NUL then Some 0 else strncmp s1 s2 n)"
| "strncmp _ _ (Suc n) = None"

fun memcmp :: "string \<Rightarrow> string \<Rightarrow> nat \<Rightarrow> int option" where
  "memcmp s1 s2 0 = Some 0"
| "memcmp (a # s1) (b # s2) (Suc n) = (if a \<noteq> b then Some (code a - code b) else memcmp s1 s2 n)"
| "memcmp _ _ (Suc n) = None"

text \<open>The search from index \<open>idx\<close> on, with \<open>n\<close> more indices to try: the index found, if any.\<close>

primrec strstr_from :: "string \<Rightarrow> string \<Rightarrow> nat \<Rightarrow> nat \<Rightarrow> nat \<Rightarrow> nat option option" where
  "strstr_from haystack needle len idx 0 = Some None"
| "strstr_from haystack needle len idx (Suc n) =
     (case memcmp (drop idx haystack) needle len of
        None \<Rightarrow> None
      | Some r \<Rightarrow> if r = 0 then Some (Some idx) else strstr_from haystack needle len (idx + 1) n)"

definition strstr :: "string \<Rightarrow> string \<Rightarrow> nat option option" where
  "strstr haystack needle =
     (case (strlen haystack, strlen needle) of
        (Some hl, Some nl) \<Rightarrow> if nl > hl then Some None else strstr_from haystack needle nl 0 (hl - nl + 1)
      | _ \<Rightarrow> None)"

section \<open>Numbers\<close>

text \<open>The loop of \<open>reverse\<close>: the characters from \<open>i\<close> to \<open>j\<close> are exchanged pairwise.\<close>

function reverse_from :: "string \<Rightarrow> nat \<Rightarrow> nat \<Rightarrow> string" where
  "reverse_from s i j = (if i < j then reverse_from (s[i := s ! j, j := s ! i]) (i + 1) (j - 1) else s)"
  by pat_completeness auto
termination by (relation "measure (\<lambda>(s, i, j). j - i)") auto

declare reverse_from.simps [simp del]

definition reverse :: "string \<Rightarrow> string" where
  "reverse s = (if s = [] then s else reverse_from s 0 (length s - 1))"

text \<open>C division truncates towards zero.\<close>

definition cdiv :: "int \<Rightarrow> int \<Rightarrow> int" where
  "cdiv a b = sgn a * sgn b * (\<bar>a\<bar> div \<bar>b\<bar>)"

definition cmod :: "int \<Rightarrow> int \<Rightarrow> int" where
  "cmod a b = a - cdiv a b * b"

lemma cdiv_less: "a \<noteq> 0 \<Longrightarrow> \<bar>cdiv a 10\<bar> < \<bar>a\<bar>"
proof -
  assume a: "a \<noteq> 0"
  have "\<bar>cdiv a 10\<bar> = \<bar>a\<bar> div 10" using a by (simp add: cdiv_def abs_mult)
  then show ?thesis using a by linarith
qed

lemma cdiv_nonneg: "0 \<le> a \<Longrightarrow> 0 < b \<Longrightarrow> cdiv a b = a div b"
  by (cases "a = 0") (simp_all add: cdiv_def)

text \<open>The digits of \<open>itoa\<close>, last one first; the characters are computed as the code does for negative numbers too.\<close>

function itoa_digits :: "int \<Rightarrow> string" where
  "itoa_digits num =
     (if num = 0 then []
      else let r = cmod num 10
           in char_of (if r > 9 then r - 10 + code CHR ''a'' else r + code CHR ''0'') # itoa_digits (cdiv num 10))"
  by pat_completeness auto
termination by (relation "measure (\<lambda>n. nat \<bar>n\<bar>)") (auto simp: cdiv_less)

declare itoa_digits.simps [simp del]

text \<open>The string that \<open>itoa\<close> leaves, without the terminating null character.\<close>

definition itoa :: "int \<Rightarrow> string" where
  "itoa num = (if num = 0 then ''0'' else reverse (itoa_digits num))"

definition hex_digit :: "char \<Rightarrow> u32 option" where
  "hex_digit c =
     (if c \<ge> CHR ''0'' \<and> c \<le> CHR ''9'' then Some (of_int (code c - code CHR ''0''))
      else if c \<ge> CHR ''a'' \<and> c \<le> CHR ''f'' then Some (of_int (code c - code CHR ''a'' + 10))
      else if c \<ge> CHR ''A'' \<and> c \<le> CHR ''F'' then Some (of_int (code c - code CHR ''A'' + 10))
      else None)"

primrec hexstr_from :: "string \<Rightarrow> u32 \<Rightarrow> u32 option" where
  "hexstr_from [] ival = None"
| "hexstr_from (c # cs) ival =
     (if c = NUL then Some ival
      else case hex_digit c of
             None \<Rightarrow> Some 0
           | Some b \<Rightarrow> hexstr_from cs (or (push_bit 4 ival) (and b 0xF)))"

definition hexstr2int :: "string \<Rightarrow> u32 option" where
  "hexstr2int hexstr = hexstr_from hexstr 0"

end
