(* ===== verification/Print.thy ===== *)
theory Print
  imports C_String
begin

text \<open>
  The formatted output of \<open>lib/print.c\<close>. The screen is reached through \<open>print_char\<close> and \<open>print_codepoint\<close> of
  \<open>system/screen.c\<close>; they and \<open>lang_translate\<close> are the argument \<open>screen_ops\<close>. Strings and format strings are
  the bytes before the terminating null character, so that the end of the list is that character.
\<close>

definition BUFFER_SIZE :: int where "BUFFER_SIZE = 64"

record 's screen_ops =
  print_char :: "int \<Rightarrow> int \<Rightarrow> char \<Rightarrow> 's \<Rightarrow> 's"
  print_codepoint :: "int \<Rightarrow> int \<Rightarrow> u32 \<Rightarrow> 's \<Rightarrow> int \<times> 's"
  lang_translate :: "u8 list \<Rightarrow> u8 list"

section \<open>Numbers to digits\<close>

text \<open>An \<open>int\<close> has 32 bits.\<close>

definition wrap_int :: "int \<Rightarrow> int" where
  "wrap_int v = signed_take_bit 31 v"

definition digit_char :: "int \<Rightarrow> char" where
  "digit_char d = (if d < 10 then char_of (code CHR ''0'' + d) else char_of (code CHR ''a'' + d - 10))"

text \<open>
  The loop that the three conversions share: \<open>length < min_length || (value > 0 && length < max_length)\<close>. The list
  is what the loop appends to the buffer, the least significant digit first.
\<close>

function digit_loop :: "int \<Rightarrow> int \<Rightarrow> int \<Rightarrow> int \<Rightarrow> int \<Rightarrow> string" where
  "digit_loop base v len min_length max_length =
     (if len < min_length \<or> (v > 0 \<and> len < max_length)
      then digit_char (cmod v base) # digit_loop base (cdiv v base) (len + 1) min_length max_length
      else [])"
  by pat_completeness auto
termination by (relation "measure (\<lambda>(base, v, len, mn, mx). nat (max mn mx - len))") auto

declare digit_loop.simps [simp del]

definition int_to_dec_str :: "int \<Rightarrow> int \<Rightarrow> int \<Rightarrow> string" where
  "int_to_dec_str v min_length max_length =
     (if v < 0
      then digit_loop 10 (wrap_int (- v)) 0 (if min_length > 1 then min_length - 1 else min_length) (max_length - 1) @ ''-''
      else digit_loop 10 v 0 min_length max_length)"

definition uint_to_dec_str :: "u64 \<Rightarrow> int \<Rightarrow> int \<Rightarrow> string" where
  "uint_to_dec_str v min_length max_length = digit_loop 10 (uint v) 0 min_length max_length"

definition uint_to_hex_str :: "u64 \<Rightarrow> int \<Rightarrow> int \<Rightarrow> string" where
  "uint_to_hex_str v min_length max_length = digit_loop 16 (uint v) 0 min_length max_length"

definition min_str_length :: "int \<Rightarrow> bool \<Rightarrow> int" where
  "min_str_length field_length pad = (if field_length > 0 \<and> pad then field_length else 1)"

section \<open>Strings\<close>

primrec utf8_tail :: "nat \<Rightarrow> u8 \<Rightarrow> u32 \<Rightarrow> u8 list \<Rightarrow> u32 \<times> u8 list" where
  "utf8_tail 0 b cp s = (cp, s)"
| "utf8_tail (Suc extra) b cp s =
     (case s of
        [] \<Rightarrow> (ucast b, s)
      | c # s1 \<Rightarrow> if and c 0xC0 \<noteq> 0x80 then (ucast b, s) else utf8_tail extra b (or (push_bit 6 cp) (ucast (and c 0x3F))) s1)"

text \<open>The code point and the rest of the string; \<open>None\<close> at the terminating null character.\<close>

fun utf8_next :: "u8 list \<Rightarrow> (u32 \<times> u8 list) option" where
  "utf8_next [] = None"
| "utf8_next (b # s) =
     Some (if b < 0x80 then (ucast b, s)
           else if and b 0xE0 = 0xC0 then utf8_tail 1 b (ucast (and b 0x1F)) s
           else if and b 0xF0 = 0xE0 then utf8_tail 2 b (ucast (and b 0x0F)) s
           else if and b 0xF8 = 0xF0 then utf8_tail 3 b (ucast (and b 0x07)) s
           else (ucast b, s))"

lemma utf8_tail_shorter: "length (snd (utf8_tail extra b cp s)) \<le> length s"
  by (induction extra arbitrary: cp s) (auto split: list.split intro: le_SucI)

lemma utf8_next_cases: "utf8_next (b # s) = Some r \<Longrightarrow> snd r = s \<or> (\<exists>n v. snd r = snd (utf8_tail n b v s))"
  by (auto simp del: utf8_tail.simps split: if_splits)

declare utf8_next.simps(2) [simp del]

lemma utf8_next_shorter:
  assumes "utf8_next s = Some (cp, s1)"
  shows "length s1 < length s"
proof (cases s)
  case (Cons b t)
  then have "length s1 \<le> length t" using utf8_next_cases [of b t] assms utf8_tail_shorter by fastforce
  then show ?thesis using Cons by simp
qed (use assms in simp)

definition codepoint_width :: "u32 \<Rightarrow> int" where
  "codepoint_width cp = (if cp \<ge> 0x2E80 \<or> cp = 0x2103 then 2 else 1)"

function str_width :: "u8 list \<Rightarrow> int" where
  "str_width s = (case utf8_next s of None \<Rightarrow> 0 | Some (cp, s1) \<Rightarrow> codepoint_width cp + str_width s1)"
  by pat_completeness auto
termination by (relation "measure length") (auto dest: utf8_next_shorter)

function print_bytes :: "'s screen_ops \<Rightarrow> int \<Rightarrow> int \<Rightarrow> u8 list \<Rightarrow> 's \<Rightarrow> int \<times> 's" where
  "print_bytes ops row col s st =
     (case utf8_next s of
        None \<Rightarrow> (col, st)
      | Some (cp, s1) \<Rightarrow> (let (col1, st1) = print_codepoint ops row col cp st in print_bytes ops row col1 s1 st1))"
  by pat_completeness auto
termination by (relation "measure (\<lambda>(ops, row, col, s, st). length s)") (auto dest: utf8_next_shorter)

declare str_width.simps [simp del] print_bytes.simps [simp del]

section \<open>Fields\<close>

primrec print_chars :: "'s screen_ops \<Rightarrow> int \<Rightarrow> int \<Rightarrow> string \<Rightarrow> 's \<Rightarrow> int \<times> 's" where
  "print_chars ops row col [] st = (col, st)"
| "print_chars ops row col (c # cs) st = print_chars ops row (col + 1) cs (print_char ops row col c st)"

definition field_text :: "string \<Rightarrow> int \<Rightarrow> int \<Rightarrow> bool \<Rightarrow> string" where
  "field_text buffer buffer_length field_length left =
     (let n = \<bar>buffer_length\<bar>; body = take (nat n) buffer; body = (if buffer_length < 0 then rev body else body);
          spaces = replicate (nat (field_length - n)) CHR '' ''
      in if left then body @ spaces else spaces @ body)"

definition print_in_field :: "'s screen_ops \<Rightarrow> int \<Rightarrow> int \<Rightarrow> string \<Rightarrow> int \<Rightarrow> int \<Rightarrow> bool \<Rightarrow> 's \<Rightarrow> int \<times> 's" where
  "print_in_field ops row col buffer buffer_length field_length left st =
     print_chars ops row col (field_text buffer buffer_length field_length left) st"

definition printc :: "'s screen_ops \<Rightarrow> int \<Rightarrow> int \<Rightarrow> char \<Rightarrow> 's \<Rightarrow> int \<times> 's" where
  "printc ops row col c st = (col + 1, print_char ops row col c st)"

definition prints :: "'s screen_ops \<Rightarrow> int \<Rightarrow> int \<Rightarrow> u8 list \<Rightarrow> 's \<Rightarrow> int \<times> 's" where
  "prints ops row col str st = print_bytes ops row col (lang_translate ops str) st"

definition printi :: "'s screen_ops \<Rightarrow> int \<Rightarrow> int \<Rightarrow> int \<Rightarrow> int \<Rightarrow> bool \<Rightarrow> bool \<Rightarrow> 's \<Rightarrow> int \<times> 's" where
  "printi ops row col v field_length pad left st =
     (let buffer = int_to_dec_str v (min_str_length field_length pad) BUFFER_SIZE
      in print_in_field ops row col buffer (- int (length buffer)) field_length left st)"

definition printu :: "'s screen_ops \<Rightarrow> int \<Rightarrow> int \<Rightarrow> u64 \<Rightarrow> int \<Rightarrow> bool \<Rightarrow> bool \<Rightarrow> 's \<Rightarrow> int \<times> 's" where
  "printu ops row col v field_length pad left st =
     (let buffer = uint_to_dec_str v (min_str_length field_length pad) BUFFER_SIZE
      in print_in_field ops row col buffer (- int (length buffer)) field_length left st)"

definition printx :: "'s screen_ops \<Rightarrow> int \<Rightarrow> int \<Rightarrow> u64 \<Rightarrow> int \<Rightarrow> bool \<Rightarrow> bool \<Rightarrow> 's \<Rightarrow> int \<times> 's" where
  "printx ops row col v field_length pad left st =
     (let buffer = uint_to_hex_str v (min_str_length field_length pad) BUFFER_SIZE
      in print_in_field ops row col buffer (- int (length buffer)) field_length left st)"

section \<open>Sizes with a unit\<close>

text \<open>The loop of \<open>printk\<close>: \<open>n\<close> scales are left.\<close>

primrec scale_down :: "nat \<Rightarrow> u64 \<Rightarrow> int \<Rightarrow> nat \<Rightarrow> u64 \<times> int \<times> nat" where
  "scale_down 0 v fract scale = (v, fract, scale)"
| "scale_down (Suc n) v fract scale =
     (if v \<ge> 1024 then scale_down n (v div 1024) (uint (v mod 1024)) (scale + 1) else (v, fract, scale))"

text \<open>The width of the whole part, the number of fractional digits and the fraction.\<close>

definition fraction_of :: "u64 \<Rightarrow> int \<Rightarrow> int \<Rightarrow> int \<times> int \<times> int" where
  "fraction_of v fract field_length =
     (let whole_length = (if field_length > 1 then field_length - 1 else 0)
      in if fract > 0
         then if v < 10
              then let whole_length = (if field_length > 4 then field_length - 4 else 0); f = (100 * fract) div 1024
                   in if f > 0
                      then if f mod 10 \<noteq> 0 then (whole_length, 2, f) else (whole_length, 1, f div 10)
                      else (whole_length, 0, f)
              else if v < 100
              then let whole_length = (if field_length > 3 then field_length - 3 else 0); f = (100 * fract) div (10 * 1024)
                   in if f > 0 then (whole_length, 1, f) else (whole_length, 0, f)
              else (whole_length, 0, fract)
         else (whole_length, 0, fract))"

definition size_text :: "u64 \<Rightarrow> int \<Rightarrow> bool \<Rightarrow> bool \<Rightarrow> string" where
  "size_text v0 field_length pad add_space =
     (let (v, fract0, scale) = scale_down 3 v0 0 0;
          (whole_length, fract_length, fract) = fraction_of v fract0 field_length;
          buf = [''KMGT'' ! scale] @ (if add_space then '' '' else []) @
            (if fract_length > 0 then int_to_dec_str fract fract_length fract_length @ ''.'' else [])
      in buf @ uint_to_dec_str v (min_str_length whole_length pad) (BUFFER_SIZE - int (length buf)))"

definition printk :: "'s screen_ops \<Rightarrow> int \<Rightarrow> int \<Rightarrow> u64 \<Rightarrow> int \<Rightarrow> bool \<Rightarrow> bool \<Rightarrow> bool \<Rightarrow> 's \<Rightarrow> int \<times> 's" where
  "printk ops row col v field_length pad left add_space st =
     (let buffer = size_text v field_length pad add_space
      in print_in_field ops row col buffer (- int (length buffer)) field_length left st)"

section \<open>Format strings\<close>

text \<open>An argument of \<open>vprintf\<close>; taking one that is not there or has another type is undefined (\<open>None\<close>).\<close>

datatype arg = Int_Arg int | Word_Arg u64 | Str_Arg "u8 list"

record format_spec =
  fmt_pad :: bool
  fmt_left :: bool
  fmt_space :: bool
  fmt_length :: int

definition byte :: "char \<Rightarrow> u8" where
  "byte c = of_int (code c)"

definition skip_if :: "char \<Rightarrow> u8 list \<Rightarrow> bool \<times> u8 list" where
  "skip_if c fmt = (case fmt of b # s \<Rightarrow> if b = byte c then (True, s) else (False, fmt) | [] \<Rightarrow> (False, fmt))"

fun field_digits :: "int \<Rightarrow> u8 list \<Rightarrow> int \<times> u8 list" where
  "field_digits len [] = (len, [])"
| "field_digits len (b # s) =
     (if b \<ge> byte CHR ''0'' \<and> b \<le> byte CHR ''9'' then field_digits (10 * len + uint b - code CHR ''0'') s else (len, b # s))"

text \<open>The flags and the field length.\<close>

definition parse_spec :: "u8 list \<Rightarrow> arg list \<Rightarrow> (format_spec \<times> u8 list \<times> arg list) option" where
  "parse_spec fmt args =
     (let (left, fmt) = skip_if CHR ''-'' fmt;
          (add_space, fmt) = skip_if CHR ''S'' fmt;
          (zero, fmt) = skip_if CHR ''0'' fmt;
          pad = (zero \<and> \<not> left);
          (star, fmt) = skip_if CHR ''*'' fmt
      in if star
         then case args of
                Int_Arg n # args1 \<Rightarrow>
                  if n < 0 then Some (\<lparr>fmt_pad = pad, fmt_left = True, fmt_space = add_space, fmt_length = wrap_int (- n)\<rparr>, fmt, args1)
                  else Some (\<lparr>fmt_pad = pad, fmt_left = left, fmt_space = add_space, fmt_length = n\<rparr>, fmt, args1)
              | _ \<Rightarrow> None
         else let (len, fmt) = field_digits 0 fmt
              in Some (\<lparr>fmt_pad = pad, fmt_left = left, fmt_space = add_space, fmt_length = len\<rparr>, fmt, args))"

definition print_string_arg :: "'s screen_ops \<Rightarrow> int \<Rightarrow> int \<Rightarrow> u8 list \<Rightarrow> int \<Rightarrow> bool \<Rightarrow> 's \<Rightarrow> int \<times> 's" where
  "print_string_arg ops row col str len left st =
     (let spaces = replicate (nat (len - str_width str)) CHR '' '';
          (col1, st1) = (if left then (col, st) else print_chars ops row col spaces st);
          (col2, st2) = prints ops row col1 str st1
      in if left then print_chars ops row col2 spaces st2 else (col2, st2))"

text \<open>The conversion; an unknown one takes no argument and prints nothing.\<close>

definition convert ::
  "'s screen_ops \<Rightarrow> int \<Rightarrow> int \<Rightarrow> u8 \<Rightarrow> format_spec \<Rightarrow> arg list \<Rightarrow> 's \<Rightarrow> ((int \<times> 's) \<times> arg list) option"
where
  "convert ops row col c f args st =
     (if c = byte CHR ''c'' then
        (case args of Int_Arg n # args1 \<Rightarrow>
             Some (print_in_field ops row col [char_of (uint (of_int n :: u8))] 1 (fmt_length f) (fmt_left f) st, args1)
           | _ \<Rightarrow> None)
      else if c = byte CHR ''s'' then
        (case args of Str_Arg s # args1 \<Rightarrow> Some (print_string_arg ops row col s (fmt_length f) (fmt_left f) st, args1) | _ \<Rightarrow> None)
      else if c = byte CHR ''i'' then
        (case args of Int_Arg n # args1 \<Rightarrow> Some (printi ops row col n (fmt_length f) (fmt_pad f) (fmt_left f) st, args1) | _ \<Rightarrow> None)
      else if c = byte CHR ''u'' then
        (case args of Word_Arg n # args1 \<Rightarrow> Some (printu ops row col n (fmt_length f) (fmt_pad f) (fmt_left f) st, args1) | _ \<Rightarrow> None)
      else if c = byte CHR ''x'' then
        (case args of Word_Arg n # args1 \<Rightarrow> Some (printx ops row col n (fmt_length f) (fmt_pad f) (fmt_left f) st, args1) | _ \<Rightarrow> None)
      else if c = byte CHR ''k'' then
        (case args of Word_Arg n # args1 \<Rightarrow>
             Some (printk ops row col n (fmt_length f) (fmt_pad f) (fmt_left f) (fmt_space f) st, args1) | _ \<Rightarrow> None)
      else Some ((col, st), args))"


lemma skip_if_shorter: "length (snd (skip_if c fmt)) \<le> length fmt"
  by (auto simp: skip_if_def split: list.split)

lemma field_digits_shorter: "length (snd (field_digits n fmt)) \<le> length fmt"
  by (induction n fmt rule: field_digits.induct) auto

lemma parse_spec_shorter:
  assumes "parse_spec fmt args = Some (f, fmt1, args1)"
  shows "length fmt1 \<le> length fmt"
proof -
  obtain l f1 where 1: "skip_if CHR ''-'' fmt = (l, f1)" by fastforce
  obtain a f2 where 2: "skip_if CHR ''S'' f1 = (a, f2)" by fastforce
  obtain z f3 where 3: "skip_if CHR ''0'' f2 = (z, f3)" by fastforce
  obtain t f4 where 4: "skip_if CHR ''*'' f3 = (t, f4)" by fastforce
  have "length f4 \<le> length fmt"
    using skip_if_shorter [of _ fmt] skip_if_shorter [of _ f1] skip_if_shorter [of _ f2] skip_if_shorter [of _ f3] 1 2 3 4
    by (metis order_trans snd_conv)
  moreover have "length (snd (field_digits 0 f4)) \<le> length f4" by (rule field_digits_shorter)
  ultimately show ?thesis
    using assms 1 2 3 4
    by (auto simp: parse_spec_def Let_def split: if_splits list.splits arg.splits prod.splits)
qed

text \<open>The loop of \<open>vprintf\<close> over the format.\<close>

function print_format :: "'s screen_ops \<Rightarrow> int \<Rightarrow> int \<Rightarrow> u8 list \<Rightarrow> arg list \<Rightarrow> 's \<Rightarrow> (int \<times> 's) option" where
  "print_format ops row col [] args st = Some (col, st)"
| "print_format ops row col (b # s) args st =
     (if b \<noteq> byte CHR ''%''
      then case utf8_next (b # s) of
             None \<Rightarrow> None
           | Some (cp, s1) \<Rightarrow> (let (col1, st1) = print_codepoint ops row col cp st in print_format ops row col1 s1 args st1)
      else if s \<noteq> [] \<and> hd s = byte CHR ''%''
      then let (col1, st1) = print_codepoint ops row col (ucast (byte CHR ''%'')) st in print_format ops row col1 (tl s) args st1
      else case parse_spec s args of
             None \<Rightarrow> None
           | Some (f, [], args1) \<Rightarrow> None
           | Some (f, c # s1, args1) \<Rightarrow>
               (case convert ops row col c f args1 st of
                  None \<Rightarrow> None
                | Some ((col1, st1), args2) \<Rightarrow> print_format ops row col1 s1 args2 st1))"
  by pat_completeness auto
termination
proof (relation "measure (\<lambda>(ops, row, col, fmt, args, st). length fmt)")
qed (auto dest: utf8_next_shorter parse_spec_shorter simp: le_imp_less_Suc)

declare print_format.simps [simp del]

definition vprintf :: "'s screen_ops \<Rightarrow> int \<Rightarrow> int \<Rightarrow> u8 list \<Rightarrow> arg list \<Rightarrow> 's \<Rightarrow> (int \<times> 's) option" where
  "vprintf ops row col fmt args st = print_format ops row col (lang_translate ops fmt) args st"

definition printf :: "'s screen_ops \<Rightarrow> int \<Rightarrow> int \<Rightarrow> u8 list \<Rightarrow> arg list \<Rightarrow> 's \<Rightarrow> (int \<times> 's) option" where
  "printf ops row col fmt args st = vprintf ops row col fmt args st"

end
