(* ===== verification/Read_Value.thy ===== *)
theory Read_Value
  imports Print
begin

text \<open>
  The entry of a number in a field of the screen (\<open>lib/read.c\<close>). The keys that \<open>get_key\<close> returns are a list; the
  result is \<open>None\<close> while the function still waits for a key. The display and the serial console have no effect on
  the result.
\<close>

record read_state =
  rd_buffer :: string
  rd_n :: nat
  rd_base :: int
  rd_suffix :: bool

definition newline :: char where "newline = CHR 0x0A"
definition backspace :: char where "backspace = CHR 0x08"

definition put_key :: "char \<Rightarrow> read_state \<Rightarrow> read_state" where
  "put_key c st = st\<lparr>rd_buffer := (rd_buffer st)[rd_n st := c]\<rparr>"

definition handle_key :: "nat \<Rightarrow> char \<Rightarrow> read_state \<Rightarrow> read_state" where
  "handle_key field_width c st =
     (if c = backspace then
        (if rd_n st > 0
         then st\<lparr>rd_suffix := False, rd_n := rd_n st - 1, rd_buffer := (rd_buffer st)[rd_n st - 1 := CHR '' '']\<rparr> else st)
      else if c \<in> set ''0123456789'' then
        (if rd_n st < field_width \<and> rd_base st \<ge> 10 \<and> \<not> rd_suffix st then put_key c st else st)
      else if c \<in> set ''abcdef'' then
        (if rd_n st < field_width \<and> rd_base st \<ge> 16 \<and> \<not> rd_suffix st then put_key c st else st)
      else if c \<in> set ''kpmgt'' then
        (if rd_n st > 0 \<and> rd_n st < field_width \<and> rd_buffer st ! (rd_n st - 1) \<noteq> CHR ''x''
         then put_key (char_of (toupper (code c))) (st\<lparr>rd_suffix := True\<rparr>) else st)
      else if c = CHR ''x'' then
        (if rd_n st = 1 \<and> rd_n st < field_width \<and> rd_buffer st ! 0 = CHR ''0'' then put_key CHR ''x'' st else st)
      else st)"

text \<open>What follows the \<open>switch\<close>: the position moves on when the key was taken, and the base is looked up again.\<close>

definition after_key :: "nat \<Rightarrow> read_state \<Rightarrow> read_state" where
  "after_key field_width st =
     (let st1 = (if rd_n st < field_width \<and> rd_buffer st ! rd_n st \<noteq> CHR '' '' then st\<lparr>rd_n := rd_n st + 1\<rparr> else st)
      in st1\<lparr>rd_base := (if rd_buffer st1 ! 0 = CHR ''0'' \<and> rd_buffer st1 ! 1 = CHR ''x'' then 16 else 10)\<rparr>)"

primrec read_keys :: "nat \<Rightarrow> string \<Rightarrow> read_state \<Rightarrow> (read_state \<times> string) option" where
  "read_keys field_width [] st = None"
| "read_keys field_width (c # keys) st =
     (if c = newline
      then if rd_n st > 0 then Some (after_key field_width st, keys) else read_keys field_width keys (after_key field_width st)
      else read_keys field_width keys (after_key field_width (handle_key field_width c st)))"

definition unit_shift :: "char \<Rightarrow> int option" where
  "unit_shift c =
     (if c = CHR ''T'' then Some 40 else if c = CHR ''G'' then Some 30 else if c = CHR ''M'' then Some 20
      else if c = CHR ''P'' then Some 12 else if c = CHR ''K'' then Some 10 else None)"

definition add_digit :: "int \<Rightarrow> char \<Rightarrow> u64 \<Rightarrow> u64" where
  "add_digit base c v =
     v * of_int base + (if code c \<ge> code CHR ''a'' then of_int (code c - code CHR ''a'' + 10) else of_int (code c - code CHR ''0''))"

definition value_of :: "read_state \<Rightarrow> int \<Rightarrow> u64" where
  "value_of st shift0 =
     (let (shift, n) =
            (if rd_suffix st
             then (case unit_shift (rd_buffer st ! (rd_n st - 1)) of
                     Some s \<Rightarrow> (shift0 + s, rd_n st - 1) | None \<Rightarrow> (shift0, rd_n st))
             else (shift0, rd_n st));
          digits = take n (rd_buffer st);
          v = fold (add_digit (rd_base st)) (if rd_base st = 16 then drop 2 digits else digits) 0
      in if shift < 0 then drop_bit (nat (- shift)) v else push_bit (nat shift) v)"

definition read_value :: "nat \<Rightarrow> int \<Rightarrow> string \<Rightarrow> (u64 \<times> string) option" where
  "read_value field_width shift keys =
     (case read_keys field_width keys
             \<lparr>rd_buffer = replicate field_width CHR '' '' @ [NUL], rd_n = 0, rd_base = 10, rd_suffix = False\<rparr> of
        None \<Rightarrow> None
      | Some (st, keys1) \<Rightarrow> Some (value_of st shift, keys1))"

end
