(* ===== verification/Text_Spec.thy ===== *)
theory Text_Spec
  imports Read_Value
begin

text \<open>
  What the text functions promise: the length of what the conversions of \<open>lib/print.c\<close> write, that a number that was
  shown and typed back through \<open>lib/read.c\<close> is the same number, and that \<open>memmove\<close> of \<open>lib/string.c\<close> is right for
  areas that overlap.
\<close>

section \<open>How much the conversions write\<close>

lemma length_digit_loop:
  "0 \<le> len \<Longrightarrow> int (length (digit_loop base v len mn mx)) \<le> max 0 (max mn mx - len)"
proof (induction base v len mn mx rule: digit_loop.induct)
  case (1 base v len mn mx)
  show ?case
  proof (cases "len < mn \<or> (v > 0 \<and> len < mx)")
    case True
    then have "int (length (digit_loop base (cdiv v base) (len + 1) mn mx)) \<le> max 0 (max mn mx - (len + 1))"
      using 1 by simp
    then show ?thesis using True by (subst digit_loop.simps) auto
  next
    case False
    then show ?thesis by (subst digit_loop.simps) auto
  qed
qed

lemma length_int_to_dec:
  "mn \<le> mx \<Longrightarrow> 2 \<le> mx \<Longrightarrow> int (length (int_to_dec_str v mn mx)) \<le> mx"
  using length_digit_loop [of 0 10 v mn mx]
    length_digit_loop [of 0 10 "wrap_int (- v)" "if mn > 1 then mn - 1 else mn" "mx - 1"]
  by (auto simp: int_to_dec_str_def split: if_splits)

lemma scale_down_scale: "scale_down n v f s = (v1, f1, s1) \<Longrightarrow> s1 \<le> s + n"
  by (induction n arbitrary: v f s) (fastforce split: if_splits)+

lemma fraction_length:
  "fraction_of v f fl = (wl, n, f1) \<Longrightarrow> n \<le> 2 \<and> wl \<le> max 0 (fl - 1) \<and> (n > 0 \<longrightarrow> wl \<le> max 0 (fl - 3)) \<and> (n > 1 \<longrightarrow> wl \<le> max 0 (fl - 4))"
  by (auto simp: fraction_of_def Let_def split: if_splits)

text \<open>
  no conversion writes past the 64 bytes of its buffer when the field is at most 64 characters wide, whatever the
  value; a wider padded field does, as the second part shows for a width of 65.
\<close>

theorem conversions_fit_buffer:
  assumes "field_length \<le> 64"
  shows "length (int_to_dec_str i (min_str_length field_length pad) BUFFER_SIZE) \<le> 64 \<and>
    length (uint_to_dec_str u (min_str_length field_length pad) BUFFER_SIZE) \<le> 64 \<and>
    length (uint_to_hex_str u (min_str_length field_length pad) BUFFER_SIZE) \<le> 64 \<and>
    length (uint_to_dec_str 0 (min_str_length 65 True) BUFFER_SIZE) = 65"
proof -
  have m: "min_str_length field_length pad \<le> 64" using assms by (simp add: min_str_length_def)
  have "length (uint_to_dec_str 0 (min_str_length 65 True) BUFFER_SIZE) = 65" by code_simp
  then show ?thesis
    using m length_int_to_dec [of "min_str_length field_length pad" 64 i]
      length_digit_loop [of 0 10 "uint u" "min_str_length field_length pad" 64]
      length_digit_loop [of 0 16 "uint u" "min_str_length field_length pad" 64]
    by (simp add: uint_to_dec_str_def uint_to_hex_str_def BUFFER_SIZE_def)
qed

theorem conversions_fit_buffer_witness:
  "length (int_to_dec_str (- 2147483647) (min_str_length 64 True) BUFFER_SIZE) \<le> 64"
  using conversions_fit_buffer [of 64 "- 2147483647" True 0] by simp

section \<open>Digits\<close>

lemma code_char_of: "0 \<le> n \<Longrightarrow> n < 256 \<Longrightarrow> code (char_of n) = n" for n :: int
  by (simp add: code_def)

lemma code_inject: "code c = code d \<longleftrightarrow> c = d"
  by (simp add: code_def)

lemma code_consts: "code CHR ''0'' = 48" "code CHR ''a'' = 97" "code CHR ''9'' = 57"
  by (simp_all add: code_def)

definition digit_value :: "char \<Rightarrow> int" where
  "digit_value c = (if code c \<ge> 97 then code c - 97 + 10 else code c - 48)"

lemma digit_value_char: "0 \<le> d \<Longrightarrow> d < 16 \<Longrightarrow> digit_value (digit_char d) = d"
  by (simp add: digit_value_def digit_char_def code_consts code_char_of)

lemma cmod_nonneg: "0 \<le> a \<Longrightarrow> 0 < b \<Longrightarrow> cmod a b = a mod b"
  by (simp add: cmod_def cdiv_nonneg minus_div_mult_eq_mod)

lemma digit_loop_value:
  assumes "2 \<le> base" "base \<le> 16"
  shows "0 \<le> v \<Longrightarrow> 0 \<le> len \<Longrightarrow> v < base ^ nat (mx - len) \<Longrightarrow>
    foldr (\<lambda>c x. digit_value c + base * x) (digit_loop base v len mn mx) 0 = v"
  using assms
proof (induction base v len mn mx rule: digit_loop.induct)
  case (1 base v len mn mx)
  show ?case
  proof (cases "len < mn \<or> (v > 0 \<and> len < mx)")
    case True
    let ?q = "v div base"
    have eq: "cdiv v base = ?q" "cmod v base = v mod base" using 1 by (simp_all add: cdiv_nonneg cmod_nonneg)
    have lt: "?q < base ^ nat (mx - (len + 1))"
    proof (cases "len < mx")
      case True
      then have "nat (mx - len) = Suc (nat (mx - (len + 1)))" by (simp add: Suc_nat_eq_nat_zadd1)
      then have "v < base ^ nat (mx - (len + 1)) * base" using 1(4) by (simp add: mult.commute)
      moreover have "?q * base \<le> v" using 1(5) by (metis div_mult_mod_eq le_add_same_cancel1 pos_mod_sign zero_less_numeral less_le_trans)
      ultimately have "?q * base < base ^ nat (mx - (len + 1)) * base" by linarith
      then show ?thesis using 1(5) by (simp add: mult_less_cancel_right)
    next
      case False
      then have "v < 1" using 1(4) by simp
      then show ?thesis using 1(2,5) by simp
    qed
    have "0 \<le> ?q" using 1(2,5) by (simp add: pos_imp_zdiv_nonneg_iff)
    then have "foldr (\<lambda>c x. digit_value c + base * x) (digit_loop base ?q (len + 1) mn mx) 0 = ?q"
      using 1(1) [OF True] lt 1(3,5,6) unfolding eq by simp
    moreover have "digit_value (digit_char (v mod base)) = v mod base"
      using 1(5,6) pos_mod_bound [of base v] pos_mod_sign [of base v] by (intro digit_value_char) linarith+
    ultimately show ?thesis using True by (subst digit_loop.simps) (simp add: eq)
  next
    case False
    then have "v = 0 \<or> mx \<le> len" using 1(2) by auto
    then have "v = 0" using 1(2,4) by auto
    then show ?thesis using False by (subst digit_loop.simps) simp
  qed
qed

lemma digit_loop_chars:
  assumes "2 \<le> base" "base \<le> 16"
  shows "0 \<le> v \<Longrightarrow> set (digit_loop base v len mn mx) \<subseteq> digit_char ` {0..<base}"
  using assms
proof (induction base v len mn mx rule: digit_loop.induct)
  case (1 base v len mn mx)
  show ?case
  proof (cases "len < mn \<or> (v > 0 \<and> len < mx)")
    case True
    have eq: "cdiv v base = v div base" "cmod v base = v mod base" using 1 by (simp_all add: cdiv_nonneg cmod_nonneg)
    have "0 \<le> v div base" using 1(2,3) by (simp add: pos_imp_zdiv_nonneg_iff)
    then have "set (digit_loop base (v div base) (len + 1) mn mx) \<subseteq> digit_char ` {0..<base}"
      using 1(1) [OF True] 1(3,4) unfolding eq by simp
    then show ?thesis using True 1(3) by (subst digit_loop.simps) (auto simp: eq)
  next
    case False
    then show ?thesis by (subst digit_loop.simps) auto
  qed
qed

lemma dec_char: "0 \<le> d \<Longrightarrow> d < 10 \<Longrightarrow> digit_char d \<in> set ''0123456789''"
proof -
  assume "0 \<le> d" "d < 10"
  then have "d = 0 \<or> d = 1 \<or> d = 2 \<or> d = 3 \<or> d = 4 \<or> d = 5 \<or> d = 6 \<or> d = 7 \<or> d = 8 \<or> d = 9" by presburger
  then show ?thesis by (elim disjE) (simp_all add: digit_char_def code_consts char_of_def)
qed

lemma hex_char: "10 \<le> d \<Longrightarrow> d < 16 \<Longrightarrow> digit_char d \<in> set ''abcdef''"
proof -
  assume "10 \<le> d" "d < 16"
  then have "d = 10 \<or> d = 11 \<or> d = 12 \<or> d = 13 \<or> d = 14 \<or> d = 15" by presburger
  then show ?thesis by (elim disjE) (simp_all add: digit_char_def code_consts char_of_def)
qed

section \<open>Typing a number\<close>

text \<open>What the state is after the characters \<open>ds\<close> were typed in an empty field.\<close>

definition typed :: "nat \<Rightarrow> string \<Rightarrow> read_state" where
  "typed fw ds = \<lparr>rd_buffer = ds @ replicate (fw - length ds) CHR '' '' @ [NUL], rd_n = length ds,
     rd_base = (if take 2 ds = ''0x'' then 16 else 10), rd_suffix = False\<rparr>"

lemma put_typed:
  assumes "length ds < fw"
  shows "(ds @ replicate (fw - length ds) CHR '' '' @ [NUL])[length ds := c] = ds @ [c] @ replicate (fw - length ds - 1) CHR '' '' @ [NUL]"
proof -
  obtain k where "fw - length ds = Suc k" using assms by (metis Suc_diff_Suc)
  then show ?thesis by (simp add: list_update_append)
qed

lemma base_typed:
  assumes "ds \<noteq> []" "length ds \<le> fw" "set ds \<subseteq> - {CHR '' ''}"
  shows "((ds @ replicate (fw - length ds) CHR '' '' @ [NUL]) ! 0 = CHR ''0'' \<and>
    (ds @ replicate (fw - length ds) CHR '' '' @ [NUL]) ! 1 = CHR ''x'') \<longleftrightarrow> take 2 ds = ''0x''"
proof -
  obtain d es where ds: "ds = d # es" using assms(1) by (cases ds) auto
  show ?thesis
  proof (cases es)
    case Nil
    then show ?thesis by (cases "fw - length ds") (auto simp: ds)
  next
    case (Cons e fs)
    then show ?thesis by (auto simp: ds)
  qed
qed

lemma type_char:
  assumes "length ds < fw" "set ds \<subseteq> - {CHR '' ''}" "c \<noteq> CHR '' ''"
    and "c \<in> set ''0123456789'' \<or> (c \<in> set ''abcdef'' \<and> take 2 ds = ''0x'') \<or> (c = CHR ''x'' \<and> ds = ''0'')"
  shows "after_key fw (handle_key fw c (typed fw ds)) = typed fw (ds @ [c])"
proof -
  have put: "handle_key fw c (typed fw ds) = put_key c (typed fw ds)"
  proof -
    have nb: "c \<noteq> backspace" using assms(4) by (auto simp: backspace_def)
    have x: "CHR ''x'' \<notin> set ''0123456789''" "CHR ''x'' \<notin> set ''abcdef''" "CHR ''x'' \<notin> set ''kpmgt''" by simp_all
    have af: "c \<in> set ''abcdef'' \<Longrightarrow> c \<notin> set ''0123456789''" by auto
    have n: "rd_n (typed fw ds) = length ds" "rd_suffix (typed fw ds) = False" "10 \<le> rd_base (typed fw ds)"
      by (simp_all add: typed_def)
    consider (digit) "c \<in> set ''0123456789''" | (hex) "c \<in> set ''abcdef''" "take 2 ds = ''0x''" | (x) "c = CHR ''x''" "ds = ''0''"
      using assms(4) by blast
    then show ?thesis
    proof cases
      case digit
      then show ?thesis unfolding handle_key_def using nb n assms(1) by (simp only: if_True if_False simp_thms)
    next
      case hex
      then have "16 \<le> rd_base (typed fw ds)" by (simp add: typed_def)
      then show ?thesis unfolding handle_key_def using hex af nb n assms(1) by (simp only: if_True if_False simp_thms)
    next
      case x': x
      have "rd_buffer (typed fw ds) ! 0 = CHR ''0''" "length ds = 1" using x' by (simp_all add: typed_def)
      then show ?thesis unfolding handle_key_def using x' x nb n assms(1) by (simp only: if_True if_False simp_thms)
    qed
  qed
  define b where "b = (ds @ [c]) @ replicate (fw - length (ds @ [c])) CHR '' '' @ [NUL]"
  have p: "put_key c (typed fw ds) = \<lparr>rd_buffer = b, rd_n = length ds, rd_base = rd_base (typed fw ds), rd_suffix = False\<rparr>"
    using put_typed [OF assms(1), of c] by (simp add: put_key_def typed_def b_def)
  have n: "b ! length ds = c" by (simp add: nth_append b_def)
  have base: "(b ! 0 = CHR ''0'' \<and> b ! 1 = CHR ''x'') \<longleftrightarrow> take 2 (ds @ [c]) = ''0x''"
    using assms(1-3) unfolding b_def by (intro base_typed) auto
  have t: "typed fw (ds @ [c]) = \<lparr>rd_buffer = b, rd_n = length ds + 1,
      rd_base = (if take 2 (ds @ [c]) = ''0x'' then 16 else 10), rd_suffix = False\<rparr>"
    by (simp add: typed_def b_def)
  show ?thesis
    unfolding put p t using assms(1,3) n base by (simp add: after_key_def Let_def del: take_append One_nat_def)
qed

text \<open>Characters that may be typed one after the other behind \<open>ds\<close>.\<close>

fun typable :: "string \<Rightarrow> string \<Rightarrow> bool" where
  "typable ds [] = True"
| "typable ds (c # cs) =
     ((c \<in> set ''0123456789'' \<or> (c \<in> set ''abcdef'' \<and> take 2 ds = ''0x'') \<or> (c = CHR ''x'' \<and> ds = ''0'')) \<and> typable (ds @ [c]) cs)"

lemma type_chars:
  "typable ds cs \<Longrightarrow> length ds + length cs \<le> fw \<Longrightarrow> set ds \<subseteq> - {CHR '' ''} \<Longrightarrow>
    read_keys fw (cs @ keys) (typed fw ds) = read_keys fw keys (typed fw (ds @ cs))"
proof (induction ds cs rule: typable.induct)
  case (2 ds c cs)
  have c: "c \<noteq> CHR '' ''" "c \<noteq> newline" using 2(2) by (auto simp: newline_def)
  have "after_key fw (handle_key fw c (typed fw ds)) = typed fw (ds @ [c])"
    using 2(2,3,4) c by (intro type_char) auto
  then have "read_keys fw ((c # cs) @ keys) (typed fw ds) = read_keys fw (cs @ keys) (typed fw (ds @ [c]))"
    using c by simp
  also have "\<dots> = read_keys fw keys (typed fw ((ds @ [c]) @ cs))"
    using 2(2,3,4) c by (intro 2(1)) auto
  finally show ?case by simp
qed simp

lemma after_newline:
  assumes "ds \<noteq> []" "length ds \<le> fw" "set ds \<subseteq> - {CHR '' ''}"
  shows "after_key fw (typed fw ds) = typed fw ds"
proof -
  have "length ds < fw \<Longrightarrow> (ds @ replicate (fw - length ds) CHR '' '' @ [NUL]) ! length ds = CHR '' ''"
    by (cases "fw - length ds") (simp_all add: nth_append)
  then show ?thesis using base_typed [OF assms] by (auto simp: after_key_def typed_def Let_def)
qed

lemma read_typed:
  assumes "typable [] ds" "ds \<noteq> []" "length ds \<le> fw" "set ds \<subseteq> - {CHR '' ''}"
  shows "read_value fw shift (ds @ newline # keys) = Some (value_of (typed fw ds) shift, keys)"
proof -
  have start: "\<lparr>rd_buffer = replicate fw CHR '' '' @ [NUL], rd_n = 0, rd_base = 10, rd_suffix = False\<rparr> = typed fw []"
    by (simp add: typed_def)
  have "rd_n (typed fw ds) > 0" using assms(2) by (simp add: typed_def)
  then show ?thesis
    using type_chars [OF assms(1), of fw "newline # keys"] assms(3) after_newline [OF assms(2-4)]
    unfolding read_value_def start by simp
qed

lemma value_typed:
  assumes "length ds \<le> fw" "0 \<le> shift"
  shows "value_of (typed fw ds) shift =
    push_bit (nat shift) (fold (add_digit (if take 2 ds = ''0x'' then 16 else 10)) (if take 2 ds = ''0x'' then drop 2 ds else ds) 0)"
  using assms by (simp add: value_of_def typed_def)

lemma add_digit_value: "add_digit base c v = v * of_int base + of_int (digit_value c)"
  by (simp add: add_digit_def digit_value_def code_consts)

lemma fold_digits: "fold (add_digit base) (rev ds) 0 = of_int (foldr (\<lambda>c x. digit_value c + base * x) ds 0)"
  by (induction ds) (simp_all add: add_digit_value mult.commute add.commute)

lemma dec_typable: "set cs \<subseteq> set ''0123456789'' \<Longrightarrow> typable ds cs"
  by (induction cs arbitrary: ds) auto

lemma hex_typable: "set cs \<subseteq> set ''0123456789abcdef'' \<Longrightarrow> take 2 ds = ''0x'' \<Longrightarrow> typable ds cs"
proof (induction cs arbitrary: ds)
  case (Cons c cs)
  have "2 \<le> length ds" using Cons.prems(2) by (metis One_nat_def Suc_1 length_Cons length_take list.size(3) min.cobounded1)
  then have "take 2 (ds @ [c]) = ''0x''" using Cons.prems(2) by simp
  then show ?case using Cons by auto
qed simp

lemma digits_positive: "1 \<le> mn \<Longrightarrow> digit_loop base v 0 mn mx \<noteq> []"
  by (subst digit_loop.simps) simp

lemma digit_char_set:
  assumes "set s \<subseteq> digit_char ` {0..<16}"
  shows "set s \<subseteq> set ''0123456789abcdef''"
proof
  fix c
  assume "c \<in> set s"
  then obtain d where d: "c = digit_char d" "0 \<le> d" "d < 16" using assms by auto
  then show "c \<in> set ''0123456789abcdef''" using dec_char [of d] hex_char [of d] by (cases "d < 10") auto
qed

lemma uint_u64_less: "uint (v :: u64) < 2 ^ 64"
proof -
  have "uint v < 2 ^ LENGTH(64)" by (rule unsigned_less)
  then show ?thesis by simp
qed

text \<open>A blank is no key of the field.\<close>

lemma after_typed:
  assumes "length ds \<le> fw" "set ds \<subseteq> - {CHR '' ''}"
  shows "after_key fw (typed fw ds) = typed fw ds"
proof (cases "ds = []")
  case True
  have "0 < fw \<Longrightarrow> (replicate fw CHR '' '' @ [NUL]) ! 0 = CHR '' ''" by (simp add: nth_append)
  moreover have "fw = 0 \<Longrightarrow> (replicate fw CHR '' '' @ [NUL]) ! 0 = NUL" by simp
  ultimately have "(replicate fw CHR '' '' @ [NUL]) ! 0 \<noteq> CHR ''0''" by (cases "fw = 0") simp_all
  then show ?thesis using True by (auto simp: after_key_def typed_def Let_def nth_append)
qed (use after_newline assms in \<open>blast\<close>)

lemma type_blanks:
  assumes "length ds \<le> fw" "set ds \<subseteq> - {CHR '' ''}"
  shows "read_keys fw (replicate n CHR '' '' @ keys) (typed fw ds) = read_keys fw keys (typed fw ds)"
proof (induction n)
  case (Suc n)
  have "handle_key fw CHR '' '' (typed fw ds) = typed fw ds" by (simp add: handle_key_def backspace_def)
  then show ?case using Suc after_typed [OF assms] by (simp add: newline_def)
qed simp

text \<open>What a number looks like in its field, and what it is when it is typed as it looks.\<close>

lemma read_field:
  assumes "typable [] pre" "typable pre ds" "ds \<noteq> []" "length pre + length ds \<le> fw" "set (pre @ ds) \<subseteq> - {CHR '' ''}"
  shows "read_value fw shift (pre @ field_text (rev ds) (- int (length ds)) fl left @ newline # keys) =
    Some (value_of (typed fw (pre @ ds)) shift, keys)"
proof -
  let ?b = "replicate (nat (fl - int (length ds))) CHR '' ''"
  have field: "field_text (rev ds) (- int (length ds)) fl left = (if left then [] else ?b) @ ds @ (if left then ?b else [])"
    using assms(3) by (simp add: field_text_def Let_def)
  have start: "\<lparr>rd_buffer = replicate fw CHR '' '' @ [NUL], rd_n = 0, rd_base = 10, rd_suffix = False\<rparr> = typed fw []"
    by (simp add: typed_def)
  have sp: "set pre \<subseteq> - {CHR '' ''}" using assms(5) by simp
  have "read_keys fw (pre @ field_text (rev ds) (- int (length ds)) fl left @ newline # keys) (typed fw []) =
      read_keys fw (field_text (rev ds) (- int (length ds)) fl left @ newline # keys) (typed fw pre)"
    using type_chars [OF assms(1), of fw] assms(4) by simp
  also have "\<dots> = read_keys fw (ds @ (if left then ?b else []) @ newline # keys) (typed fw pre)"
    using type_blanks [of pre fw "nat (fl - int (length ds))"] assms(4) sp unfolding field by simp
  also have "\<dots> = read_keys fw ((if left then ?b else []) @ newline # keys) (typed fw (pre @ ds))"
    using type_chars [OF assms(2), of fw] assms(4) sp by simp
  also have "\<dots> = read_keys fw (newline # keys) (typed fw (pre @ ds))"
    using type_blanks [of "pre @ ds" fw "nat (fl - int (length ds))"] assms(4,5) by simp
  also have "\<dots> = Some (typed fw (pre @ ds), keys)"
    using after_typed [of "pre @ ds" fw] assms(3-5) by (simp add: typed_def)
  finally show ?thesis by (simp add: read_value_def start)
qed

text \<open>The characters go to the screen from left to right, each in its own column.\<close>

definition on_screen :: "'s screen_ops \<Rightarrow> int \<Rightarrow> int \<Rightarrow> string \<Rightarrow> 's \<Rightarrow> int \<times> 's" where
  "on_screen ops row col shown st =
     (col + int (length shown), fold (\<lambda>i. print_char ops row (col + int i) (shown ! i)) [0..<length shown] st)"

lemma print_chars_on_screen: "print_chars ops row col shown st = on_screen ops row col shown st"
proof (induction shown arbitrary: col st)
  case (Cons c cs)
  have "fold (\<lambda>i. print_char ops row (col + int i) ((c # cs) ! i)) [0..<Suc (length cs)] st =
      fold (\<lambda>i. print_char ops row (col + 1 + int i) (cs ! i)) [0..<length cs] (print_char ops row col c st)"
    by (simp add: upt_conv_Cons map_Suc_upt [symmetric] fold_map comp_def add.assoc del: upt_Suc)
  then show ?case by (simp add: Cons.IH on_screen_def del: upt_Suc)
qed (simp add: on_screen_def)

text \<open>
  C32: a number that \<open>printu\<close> shows, in decimal, or \<open>printx\<close>, in hexadecimal, is the number that \<open>read_value\<close> gets
  when what stands on the screen is typed, with its blanks and its padding, and Enter; the hexadecimal digits, which are
  shown without a prefix, are typed behind \<open>0x\<close>. The field is at most 64 characters wide (the size of the buffer of the
  two functions) and the input field has room for what is typed.
\<close>

theorem print_read_roundtrip:
  assumes "fl \<le> 64"
  shows "(\<exists>shown. (\<forall>(ops :: 's screen_ops) row col st. printu ops row col v fl pad left st = on_screen ops row col shown st) \<and>
      (length shown \<le> fw \<longrightarrow> read_value fw 0 (shown @ newline # keys) = Some (v, keys))) \<and>
    (\<exists>shown. (\<forall>(ops :: 's screen_ops) row col st. printx ops row col v fl pad left st = on_screen ops row col shown st) \<and>
      (length shown + 2 \<le> fw \<longrightarrow> read_value fw 0 (''0x'' @ shown @ newline # keys) = Some (v, keys)))"
proof -
  define d where "d = rev (uint_to_dec_str v (min_str_length fl pad) BUFFER_SIZE)"
  define h where "h = rev (uint_to_hex_str v (min_str_length fl pad) BUFFER_SIZE)"
  have m: "1 \<le> min_str_length fl pad" by (auto simp: min_str_length_def)
  have lim: "uint v < 10 ^ nat (64 - 0)" "uint v < 16 ^ nat (64 - 0)" using uint_u64_less [of v] by simp_all
  have val: "foldr (\<lambda>c x. digit_value c + 10 * x) (rev d) 0 = uint v" "foldr (\<lambda>c x. digit_value c + 16 * x) (rev h) 0 = uint v"
    unfolding d_def h_def rev_rev_ident uint_to_dec_str_def uint_to_hex_str_def BUFFER_SIZE_def using lim by (simp_all add: digit_loop_value)
  have ds: "set d \<subseteq> digit_char ` {0..<10}" "set h \<subseteq> digit_char ` {0..<16}"
    unfolding d_def h_def set_rev uint_to_dec_str_def uint_to_hex_str_def by (rule digit_loop_chars; simp)+
  have dset: "set d \<subseteq> set ''0123456789''" using ds(1) dec_char by fastforce
  have hset: "set h \<subseteq> set ''0123456789abcdef''" using ds(2) by (rule digit_char_set)
  have ne: "d \<noteq> []" "h \<noteq> []" using m by (simp_all add: d_def h_def uint_to_dec_str_def uint_to_hex_str_def digits_positive)
  let ?td = "field_text (rev d) (- int (length d)) fl left" and ?th = "field_text (rev h) (- int (length h)) fl left"
  have len: "length d \<le> length ?td" "length h \<le> length ?th" using ne by (simp_all add: field_text_def Let_def)
  have x: "take 2 d \<noteq> ''0x''"
  proof
    assume "take 2 d = ''0x''"
    then have "CHR ''x'' \<in> set d" using set_take_subset [of 2 d] by auto
    then show False using dset by auto
  qed
  have "read_value fw 0 (?td @ newline # keys) = Some (v, keys)" if "length ?td \<le> fw"
    using read_field [of "[]" d fw 0 fl left keys] value_typed [of d fw 0] dec_typable [OF dset] ne(1) that len(1) x dset val(1)
      fold_digits [of 10 "rev d"] by auto
  moreover have "printu ops row col v fl pad left st = on_screen ops row col ?td st" for ops :: "'s screen_ops" and row col st
    by (simp add: printu_def print_in_field_def print_chars_on_screen d_def Let_def)
  ultimately have dec: "\<exists>shown. (\<forall>(ops :: 's screen_ops) row col st. printu ops row col v fl pad left st = on_screen ops row col shown st) \<and>
      (length shown \<le> fw \<longrightarrow> read_value fw 0 (shown @ newline # keys) = Some (v, keys))" by blast
  have "read_value fw 0 (''0x'' @ ?th @ newline # keys) = Some (v, keys)" if "length ?th + 2 \<le> fw"
    using read_field [of "''0x''" h fw 0 fl left keys] value_typed [of "''0x'' @ h" fw 0] hex_typable [OF hset, of "''0x''"]
      ne(2) that len(2) hset val(2) fold_digits [of 16 "rev h"] by auto
  moreover have "printx ops row col v fl pad left st = on_screen ops row col ?th st" for ops :: "'s screen_ops" and row col st
    by (simp add: printx_def print_in_field_def print_chars_on_screen h_def Let_def)
  ultimately have "\<exists>shown. (\<forall>(ops :: 's screen_ops) row col st. printx ops row col v fl pad left st = on_screen ops row col shown st) \<and>
      (length shown + 2 \<le> fw \<longrightarrow> read_value fw 0 (''0x'' @ shown @ newline # keys) = Some (v, keys))" by blast
  with dec show ?thesis ..
qed

text \<open>A screen that records what is written to it.\<close>

definition record_screen :: "(int \<times> int \<times> char) list screen_ops" where
  "record_screen = \<lparr>print_char = \<lambda>row col c st. st @ [(row, col, c)], print_codepoint = \<lambda>row col cp st. (col + 1, st),
     lang_translate = \<lambda>s. s\<rparr>"

theorem print_read_roundtrip_witness:
  "\<exists>shown. printx record_screen 3 7 0x12AB 6 True False [] = on_screen record_screen 3 7 shown [] \<and>
     (length shown + 2 \<le> 15 \<longrightarrow> read_value 15 0 (''0x'' @ shown @ newline # ''z'') = Some (0x12AB, ''z''))"
  using print_read_roundtrip [where fl = 6 and pad = True and left = False and v = "0x12AB" and fw = 15 and keys = "''z''"] by fastforce

text \<open>A second unit suffix is accepted, and the first one is then read as a digit.\<close>

lemma two_suffixes: "read_value 15 0 (''1kk'' @ [newline]) = Some (37 * 1024, [])"
  by code_simp

section \<open>Moving memory\<close>

lemma copy_up_apply:
  "d \<le> s \<Longrightarrow> copy_up d s i n m x = (if d + i \<le> x \<and> x < d + i + n then m (s + (x - d)) else m x)"
  by (induction n arbitrary: i m) auto

lemma copy_down_apply:
  "s \<le> d \<Longrightarrow> copy_down d s n m x = (if d \<le> x \<and> x < d + n then m (s + (x - d)) else m x)"
  by (induction n arbitrary: m) auto

text \<open>
  \<open>memmove\<close> copies the \<open>n\<close> cells from \<open>s\<close> to \<open>d\<close> as they were before the call, also when the areas overlap in
  either direction, and changes nothing else.
\<close>

theorem memmove_correct:
  "memmove d s n m = (\<lambda>x. if d \<le> x \<and> x < d + n then m (s + (x - d)) else m x)"
proof (rule ext)
  fix x
  show "memmove d s n m x = (if d \<le> x \<and> x < d + n then m (s + (x - d)) else m x)"
  proof (cases d s rule: linorder_cases)
    case less
    then show ?thesis using copy_up_apply [of d s 0 n m x] by (simp add: memmove_def)
  next
    case equal
    then show ?thesis by (simp add: memmove_def)
  next
    case greater
    then show ?thesis using copy_down_apply [of s d n m x] by (simp add: memmove_def)
  qed
qed

end
