(* ===== verification/Config_Options.thy ===== *)
theory Config_Options
  imports Settings Pmem Read_Value
begin

text \<open>
  The settings of \<open>app/config.c\<close> and the command line that sets them. The settings are the record \<open>config\<close>, one
  field per variable. A command line is the list of its characters (see \<open>C_String\<close> for pointers into it); an option
  whose processing reads outside the command line gives \<open>None\<close>.
\<close>

section \<open>The settings\<close>

datatype cpu_state_t = CPU_STATE_DISABLED | CPU_STATE_ENABLED | CPU_STATE_RUNNING

definition NUM_TEST_PATTERNS :: int where "NUM_TEST_PATTERNS = 12"

definition KT_LEGACY :: u8 where "KT_LEGACY = 1"
definition KT_USB :: u8 where "KT_USB = 2"

definition USB_EXTRA_RESET :: u32 where "USB_EXTRA_RESET = 0x01"
definition USB_IGNORE_EHCI :: u32 where "USB_IGNORE_EHCI = 0x02"
definition USB_2_STEP_INIT :: u32 where "USB_2_STEP_INIT = 0x04"
definition USB_DEBUG :: u32 where "USB_DEBUG = 0x08"
definition USB_DEBUG_HUB :: u32 where "USB_DEBUG_HUB = 0x10"
definition USB_DEBUG_KBD :: u32 where "USB_DEBUG_KBD = 0x20"

record config =
  pm_limit_lower :: u64
  pm_limit_upper :: u64
  num_pages_to_test :: u64
  cpu_mode :: cpu_mode_t
  error_mode :: error_mode_t
  cpu_state :: "cpu_state_t list"
  exclude_ecores :: bool
  smp_enabled :: bool
  enable_big_status :: bool
  enable_trace :: bool
  enable_temp_cpu :: bool
  enable_temp_ram :: bool
  enable_sm :: bool
  enable_spd_crc :: bool
  enable_bench :: bool
  enable_mch_read :: bool
  enable_numa :: bool
  enable_ecc_polling :: bool
  pause_at_start :: bool
  dark_mode :: bool
  power_save :: power_save_t
  enable_tty :: bool
  enable_tty_log :: bool
  log_max_passes :: int
  tty_address :: u64
  tty_baud_rate :: int
  tty_update_period :: int
  tty_new_line :: bool
  tty_mmio_stride :: int
  tty_pl011 :: bool
  keyboard_types :: u8
  usb_init_options :: u32
  test_enabled :: "bool list"
  test_sequence :: "int list"
  max_pass_num :: int
  pass_num :: int
  continue_on_error :: bool
  lang_cn :: bool
  restart :: bool
  bail :: bool
  start_pass :: bool

section \<open>The serial console\<close>

definition serial_io_ports :: "u64 list" where
  "serial_io_ports = [0x3f8, 0x2f8, 0x3e8, 0x2e8]"

text \<open>\<open>strncmp(s, lit, n) == 0\<close> for a literal.\<close>

definition same_prefix :: "string \<Rightarrow> string \<Rightarrow> nat \<Rightarrow> bool option" where
  "same_prefix s lit n = map_option (\<lambda>r. r = 0) (strncmp s (lit @ [NUL]) n)"

text \<open>\<open>if (c) a else b\<close> where the condition reads memory.\<close>

definition cond :: "bool option \<Rightarrow> 'a option \<Rightarrow> 'a option \<Rightarrow> 'a option" where
  "cond c a b = (case c of None \<Rightarrow> None | Some t \<Rightarrow> if t then a else b)"

definition char_at :: "string \<Rightarrow> nat \<Rightarrow> char option" where
  "char_at s i = (if i < length s then Some (s ! i) else None)"

definition set_mmio :: "u64 \<Rightarrow> config \<Rightarrow> config" where
  "set_mmio adr cfg = (if adr > 0xFFFF then cfg\<lparr>tty_address := adr\<rparr> else cfg\<lparr>enable_tty := False\<rparr>)"

definition mmio_stride :: "string \<Rightarrow> (int \<times> nat) option option" where
  "mmio_stride params =
     cond (same_prefix params ''mmio,0x'' 7) (Some (Some (1, 7)))
       (cond (same_prefix params ''mmio16,0x'' 9) (Some (Some (2, 9)))
         (cond (same_prefix params ''mmio32,0x'' 9) (Some (Some (4, 9))) (Some None)))"

text \<open>The baud rate and the update period that the character at \<open>params[6]\<close> selects.\<close>

definition baud_setting :: "char \<Rightarrow> char \<Rightarrow> (int \<times> int) option" where
  "baud_setting c d =
     (if c = CHR ''1'' then Some (if d = CHR ''9'' then (19200, 4) else (115200, 2))
      else if c = CHR ''2'' then Some (230400, 2)
      else if c = CHR ''3'' then Some (38400, 4)
      else if c = CHR ''5'' then Some (57600, 3)
      else if c = CHR ''7'' then Some (76800, 3)
      else if c = CHR ''9'' then Some (9600, 5)
      else None)"

definition set_baud :: "string \<Rightarrow> config \<Rightarrow> config option" where
  "set_baud params cfg =
     (case char_at params 6 of
        None \<Rightarrow> None
      | Some c \<Rightarrow>
          (if c = CHR ''1''
           then case char_at params 7 of
                  None \<Rightarrow> None
                | Some d \<Rightarrow> (case baud_setting c d of None \<Rightarrow> Some cfg | Some (b, p) \<Rightarrow> Some (cfg\<lparr>tty_baud_rate := b, tty_update_period := p\<rparr>))
           else (case baud_setting c NUL of None \<Rightarrow> Some cfg | Some (b, p) \<Rightarrow> Some (cfg\<lparr>tty_baud_rate := b, tty_update_period := p\<rparr>))))"

definition set_tty_port :: "string \<Rightarrow> config \<Rightarrow> config option" where
  "set_tty_port params cfg =
     (case char_at params 4 of
        None \<Rightarrow> None
      | Some c \<Rightarrow>
          if c \<ge> CHR ''0'' \<and> c \<le> CHR ''3''
          then let cfg1 = cfg\<lparr>tty_address := serial_io_ports ! nat (code c - code CHR ''0'')\<rparr>
               in case char_at params 5 of
                    None \<Rightarrow> None
                  | Some d \<Rightarrow> if d \<noteq> CHR '','' then Some cfg1
                              else (case char_at params 6 of None \<Rightarrow> None | Some e \<Rightarrow> if e = NUL then Some cfg1 else set_baud params cfg1)
          else Some cfg)"

text \<open>\<open>params\<close> is \<open>None\<close> for a null pointer.\<close>

definition parse_serial_params :: "string option \<Rightarrow> config \<Rightarrow> config option" where
  "parse_serial_params params0 cfg0 =
     (let cfg = cfg0\<lparr>enable_tty := True\<rparr>
      in case params0 of
           None \<Rightarrow> Some cfg
         | Some params \<Rightarrow>
             cond (same_prefix params ''ttyAMA,0x'' 9)
               (case hexstr2int (drop 9 params) of
                  None \<Rightarrow> None
                | Some adr \<Rightarrow>
                    Some (if (ucast adr :: u64) > 0xFFFF then cfg\<lparr>tty_pl011 := True, tty_address := ucast adr\<rparr>
                          else cfg\<lparr>enable_tty := False\<rparr>))
               (case mmio_stride params of
                  None \<Rightarrow> None
                | Some stride \<Rightarrow>
                    (case (case stride of
                             None \<Rightarrow> Some (0, cfg)
                           | Some (st, off) \<Rightarrow>
                               map_option (\<lambda>adr. (ucast adr :: u64, cfg\<lparr>tty_mmio_stride := st\<rparr>)) (hexstr2int (drop off params))) of
                       None \<Rightarrow> None
                     | Some (adr, cfg1) \<Rightarrow>
                         cond (same_prefix params ''mmio'' 4) (Some (set_mmio adr cfg1))
                           (cond (same_prefix params ''ttyS'' 5) (Some cfg1) (set_tty_port params cfg1)))))"

section \<open>Numbers and lists of tests\<close>

primrec skip_blanks :: "string \<Rightarrow> string" where
  "skip_blanks [] = []"
| "skip_blanks (c # cs) = (if c = CHR '' '' \<or> c = CHR 0x09 then skip_blanks cs else c # cs)"

primrec decimal_from :: "int \<Rightarrow> string \<Rightarrow> int \<times> string" where
  "decimal_from v [] = (v, [])"
| "decimal_from v (c # cs) =
     (if c \<ge> CHR ''0'' \<and> c \<le> CHR ''9'' then decimal_from (wrap_int (v * 10 + (code c - code CHR ''0''))) cs else (v, c # cs))"

text \<open>The value and what follows it. The scan stops inside the object: it passes no null character.\<close>

definition parse_decimal :: "string \<Rightarrow> (int \<times> string) option" where
  "parse_decimal str = (let (v, rest) = decimal_from 0 (skip_blanks str) in if rest = [] then None else Some (v, rest))"

primrec skip_separators :: "string \<Rightarrow> string" where
  "skip_separators [] = []"
| "skip_separators (c # cs) = (if c = CHR '' '' \<or> c = CHR 0x09 \<or> c = CHR '','' then skip_separators cs else c # cs)"

text \<open>\<open>Some None\<close> when a character other than a blank follows the number.\<close>

primrec skip_to_comma :: "string \<Rightarrow> string option option" where
  "skip_to_comma [] = None"
| "skip_to_comma (c # cs) =
     (if c = NUL \<or> c = CHR '','' then Some (Some (c # cs))
      else if c \<noteq> CHR '' '' \<and> c \<noteq> CHR 0x09 then Some None
      else skip_to_comma cs)"

lemma skip_separators_length: "length (skip_separators s) \<le> length s"
  by (induction s) auto

lemma skip_blanks_length: "length (skip_blanks s) \<le> length s"
  by (induction s) auto

lemma decimal_from_length: "decimal_from v s = (w, t) \<Longrightarrow> length t \<le> length s"
  by (induction s arbitrary: v) (auto split: if_splits intro: le_SucI)

lemma skip_to_comma_length: "skip_to_comma s = Some (Some t) \<Longrightarrow> length t \<le> length s"
  by (induction s) (auto split: if_splits)

lemma parse_decimal_length: "parse_decimal s = Some (v, t) \<Longrightarrow> length t \<le> length s"
  using decimal_from_length [of 0 "skip_blanks s"] skip_blanks_length [of s]
  by (auto simp: parse_decimal_def split: prod.splits if_splits)

text \<open>
  The loop over the list, with the number of passes as fuel: a pass that does not end the loop leaves a comma in
  front, so that the next one moves on; twice the length of the string is enough.
\<close>

primrec test_list_loop :: "nat \<Rightarrow> string \<Rightarrow> bool list \<Rightarrow> bool list option" where
  "test_list_loop 0 p en = None"
| "test_list_loop (Suc n) p en =
     (case p of
        [] \<Rightarrow> None
      | c # _ \<Rightarrow>
          if c = NUL then Some en
          else (case skip_separators p of
                  [] \<Rightarrow> None
                | d # ds \<Rightarrow>
                    if d = NUL then Some en
                    else (case parse_decimal (d # ds) of
                            None \<Rightarrow> None
                          | Some (t, rest) \<Rightarrow>
                              if t < 0 \<or> t \<ge> NUM_TEST_PATTERNS then Some en
                              else (case skip_to_comma rest of
                                      None \<Rightarrow> None
                                    | Some None \<Rightarrow> Some (en[nat t := True])
                                    | Some (Some q) \<Rightarrow> test_list_loop n q (en[nat t := True])))))"

definition parse_test_list :: "string option \<Rightarrow> config \<Rightarrow> config option" where
  "parse_test_list params cfg0 =
     (let cfg = cfg0\<lparr>test_enabled := replicate (nat NUM_TEST_PATTERNS) False\<rparr>
      in case params of
           None \<Rightarrow> Some cfg
         | Some p \<Rightarrow> map_option (\<lambda>en. cfg\<lparr>test_enabled := en\<rparr>) (test_list_loop (length p + 1) p (test_enabled cfg)))"

section \<open>Options\<close>

text \<open>
  The strings that are compared are given with the number of characters that \<open>strncmp\<close> looks at: a word with its end,
  or a prefix without it.
\<close>

definition word :: "string \<Rightarrow> string \<times> nat" where
  "word lit = (lit, length lit + 1)"

definition prefix_word :: "string \<Rightarrow> string \<times> nat" where
  "prefix_word lit = (lit, length lit)"

text \<open>The first entry of the list that the string is equal to decides the result.\<close>

primrec choose_word :: "string \<Rightarrow> ((string \<times> nat) \<times> 'a) list \<Rightarrow> 'a option \<Rightarrow> 'a option option" where
  "choose_word s [] d = Some d"
| "choose_word s (x # xs) d = cond (same_prefix s (fst (fst x)) (snd (fst x))) (Some (Some (snd x))) (choose_word s xs d)"

definition set_from :: "string \<Rightarrow> ((string \<times> nat) \<times> (config \<Rightarrow> config)) list \<Rightarrow> config \<Rightarrow> config option" where
  "set_from params table cfg = map_option (\<lambda>f. (case f of None \<Rightarrow> cfg | Some g \<Rightarrow> g cfg)) (choose_word params table None)"

definition cpu_mode_words :: "((string \<times> nat) \<times> (config \<Rightarrow> config)) list" where
  "cpu_mode_words = [(word ''par'', cpu_mode_update (\<lambda>_. PAR)), (word ''seq'', cpu_mode_update (\<lambda>_. SEQ)),
     (word ''rr'', cpu_mode_update (\<lambda>_. ONE)), (word ''one'', cpu_mode_update (\<lambda>_. ONE))]"

definition report_mode_words :: "((string \<times> nat) \<times> (config \<Rightarrow> config)) list" where
  "report_mode_words =
     [(word ''none'', error_mode_update (\<lambda>_. ERROR_MODE_NONE)), (word ''summary'', error_mode_update (\<lambda>_. ERROR_MODE_SUMMARY)),
      (word ''address'', error_mode_update (\<lambda>_. ERROR_MODE_ADDRESS)), (word ''badram'', error_mode_update (\<lambda>_. ERROR_MODE_BADRAM)),
      (word ''memmap'', error_mode_update (\<lambda>_. ERROR_MODE_MEMMAP)), (word ''pages'', error_mode_update (\<lambda>_. ERROR_MODE_PAGES))]"

definition keyboard_words :: "((string \<times> nat) \<times> (config \<Rightarrow> config)) list" where
  "keyboard_words = [(word ''legacy'', keyboard_types_update (\<lambda>_. KT_LEGACY)), (word ''usb'', keyboard_types_update (\<lambda>_. KT_USB)),
     (word ''both'', keyboard_types_update (\<lambda>_. or KT_USB KT_LEGACY))]"

definition power_save_words :: "((string \<times> nat) \<times> (config \<Rightarrow> config)) list" where
  "power_save_words = [(word ''off'', power_save_update (\<lambda>_. POWER_SAVE_OFF)), (word ''low'', power_save_update (\<lambda>_. POWER_SAVE_LOW)),
     (word ''high'', power_save_update (\<lambda>_. POWER_SAVE_HIGH))]"

definition add_usb :: "u32 \<Rightarrow> config \<Rightarrow> config" where
  "add_usb bits cfg = cfg\<lparr>usb_init_options := or (usb_init_options cfg) bits\<rparr>"

definition usb_debug_words :: "((string \<times> nat) \<times> (config \<Rightarrow> config)) list" where
  "usb_debug_words = [(word ''hub'', add_usb USB_DEBUG_HUB), (word ''kbd'', add_usb USB_DEBUG_KBD)]"

definition usb_init_words :: "((string \<times> nat) \<times> (config \<Rightarrow> config)) list" where
  "usb_init_words = [(word ''1'', add_usb USB_2_STEP_INIT), (word ''2'', add_usb USB_EXTRA_RESET),
     (word ''3'', add_usb (or USB_2_STEP_INIT USB_EXTRA_RESET))]"

text \<open>The options in the order in which they are compared, each with what it does to the settings.\<close>

definition option_table :: "((string \<times> nat) \<times> (string \<Rightarrow> config \<Rightarrow> config option)) list" where
  "option_table =
     [(word ''console'', \<lambda>params. parse_serial_params (Some params)),
      (word ''log'', \<lambda>params cfg. map_option (\<lambda>c. c\<lparr>enable_tty_log := enable_tty c\<rparr>) (parse_serial_params (Some params) cfg)),
      (word ''maxpasses'', \<lambda>params cfg. map_option (\<lambda>(v, _). cfg\<lparr>log_max_passes := v\<rparr>) (parse_decimal params)),
      (prefix_word ''newline'', \<lambda>_ cfg. Some (cfg\<lparr>tty_new_line := True\<rparr>)),
      (word ''cpuseqmode'', \<lambda>params. set_from params cpu_mode_words),
      (word ''ecc'', \<lambda>_ cfg. Some (cfg\<lparr>enable_ecc_polling := True\<rparr>)),
      (word ''dark'', \<lambda>_ cfg. Some (cfg\<lparr>dark_mode := True\<rparr>)),
      (word ''reportmode'', \<lambda>params. set_from params report_mode_words),
      (word ''keyboard'', \<lambda>params. set_from params keyboard_words),
      (word ''nobench'', \<lambda>_ cfg. Some (cfg\<lparr>enable_bench := False\<rparr>)),
      (word ''nobigstatus'', \<lambda>_ cfg. Some (cfg\<lparr>enable_big_status := False\<rparr>)),
      (word ''noehci'', \<lambda>_ cfg. Some (add_usb USB_IGNORE_EHCI cfg)),
      (word ''nomch'', \<lambda>_ cfg. Some (cfg\<lparr>enable_mch_read := False\<rparr>)),
      (word ''nopause'', \<lambda>_ cfg. Some (cfg\<lparr>pause_at_start := False\<rparr>)),
      (word ''nosm'', \<lambda>_ cfg. Some (cfg\<lparr>enable_sm := False\<rparr>)),
      (word ''nosmp'', \<lambda>_ cfg. Some (cfg\<lparr>smp_enabled := False\<rparr>)),
      (word ''nospdcrc'', \<lambda>_ cfg. Some (cfg\<lparr>enable_spd_crc := False\<rparr>)),
      (word ''numa'', \<lambda>_ cfg. Some (cfg\<lparr>enable_numa := True\<rparr>)),
      (word ''nonuma'', \<lambda>_ cfg. Some (cfg\<lparr>enable_numa := False\<rparr>)),
      (word ''powersave'', \<lambda>params. set_from params power_save_words),
      (word ''trace'', \<lambda>_ cfg. Some (cfg\<lparr>enable_trace := True\<rparr>)),
      (word ''usbdebug'', \<lambda>params cfg. set_from params usb_debug_words (add_usb USB_DEBUG cfg)),
      (word ''usbinit'', \<lambda>params. set_from params usb_init_words),
      (word ''testlist'', \<lambda>params. parse_test_list (Some params))]"

definition parse_option :: "string \<Rightarrow> string option \<Rightarrow> config \<Rightarrow> config option" where
  "parse_option option params0 cfg =
     (case char_at option 0 of
        None \<Rightarrow> None
      | Some c \<Rightarrow>
          if c = NUL then Some cfg
          else let params = (case params0 of None \<Rightarrow> [NUL] | Some p \<Rightarrow> p)
               in case choose_word option option_table None of
                    None \<Rightarrow> None
                  | Some None \<Rightarrow> Some cfg
                  | Some (Some f) \<Rightarrow> f params cfg)"

section \<open>The command line\<close>

text \<open>
  The loop of \<open>parse_command_line\<close> at index \<open>i\<close> with \<open>n\<close> characters to go. \<open>option\<close> and \<open>params\<close> are indices; the
  separators are overwritten in the line as it is scanned.
\<close>

primrec command_line_from :: "nat \<Rightarrow> nat \<Rightarrow> nat \<Rightarrow> nat option \<Rightarrow> string \<Rightarrow> config \<Rightarrow> config option" where
  "command_line_from 0 i option params line cfg = Some cfg"
| "command_line_from (Suc n) i option params line cfg =
     (case char_at line i of
        None \<Rightarrow> None
      | Some c \<Rightarrow>
          if c = NUL then parse_option (drop option line) (map_option (\<lambda>p. drop p line) params) cfg
          else if c = CHR '' '' then
            (let line1 = line[i := NUL]
             in case parse_option (drop option line1) (map_option (\<lambda>p. drop p line1) params) cfg of
                  None \<Rightarrow> None
                | Some cfg1 \<Rightarrow> command_line_from n (i + 1) (i + 1) None line1 cfg1)
          else if c = CHR ''='' then command_line_from n (i + 1) option (Some (i + 1)) (line[i := NUL]) cfg
          else command_line_from n (i + 1) option params line cfg)"

definition parse_command_line :: "string \<Rightarrow> nat \<Rightarrow> config \<Rightarrow> config option" where
  "parse_command_line cmd_line cmd_line_size cfg = command_line_from cmd_line_size 0 0 None cmd_line cfg"

section \<open>Initialisation\<close>

text \<open>The pages of the segments between the limits.\<close>

definition segment_pages :: "u64 \<Rightarrow> u64 \<Rightarrow> pm_map_t \<Rightarrow> u64" where
  "segment_pages lower upper s =
     (if pm_start s \<ge> lower \<and> pm_end s \<le> upper then pm_end s - pm_start s
      else if pm_start s < lower then
        (if pm_end s < lower then 0
         else if pm_end s > upper then upper - lower else pm_end s - lower)
      else if pm_end s > upper then
        (if pm_start s > upper then 0 else upper - pm_start s)
      else 0)"

definition update_num_pages_to_test :: "pm_map_t list \<Rightarrow> config \<Rightarrow> config" where
  "update_num_pages_to_test segs cfg =
     cfg\<lparr>num_pages_to_test :=
       fold (\<lambda>s n. n + segment_pages (pm_limit_lower cfg) (pm_limit_upper cfg) s) segs 0\<rparr>"

text \<open>
  \<open>cmd_line\<close> is the mapped command line with the size of the boot parameters, \<open>None\<close> when there is none or it cannot be
  mapped.
\<close>

definition config_init :: "pm_map_t list \<Rightarrow> (string \<times> nat) option \<Rightarrow> config \<Rightarrow> config option" where
  "config_init segs cmd_line cfg0 =
     (let cfg1 = update_num_pages_to_test segs (cfg0\<lparr>pm_limit_lower := 0, pm_limit_upper := pm_end (last segs)\<rparr>);
          cfg2 = cfg1\<lparr>cpu_mode := PAR, error_mode := ERROR_MODE_ADDRESS,
                      cpu_state := replicate (length (cpu_state cfg1)) CPU_STATE_ENABLED, power_save := POWER_SAVE_HIGH\<rparr>
      in map_option (\<lambda>c. if enable_tty_log c then c\<lparr>enable_tty := False\<rparr> else c)
           (case cmd_line of
              None \<Rightarrow> Some cfg2
            | Some (line, n) \<Rightarrow> parse_command_line line (if n = 0 then 255 else n) cfg2))"

end
