(* ===== verification/Config_Menu.thy ===== *)
theory Config_Menu
  imports Config_Options
begin

text \<open>
  The pop-up menus of \<open>app/config.c\<close>. The menus poll \<open>get_key\<close>; what the polls return is a list of characters, in
  which the null character stands for a poll without a key. A menu that is still open when the list ends gives
  \<open>None\<close>. The display and the serial console show the settings and have no effect on them.
\<close>

section \<open>Reading a key list\<close>

lemma read_keys_length: "read_keys fw keys st = Some (st1, rest) \<Longrightarrow> length rest < length keys"
  by (induction keys arbitrary: st) (fastforce split: if_splits intro: less_SucI)+

lemma read_value_length: "read_value fw shift keys = Some (v, rest) \<Longrightarrow> length rest < length keys"
  by (auto simp: read_value_def dest: read_keys_length split: option.splits prod.splits)

datatype outcome = Stay | Leave | Reboot

text \<open>
  The loop of a menu: a handler gets a key, the keys behind it and the state. It never gives back more keys than it
  got; the test is there for termination only.
\<close>

function menu_loop ::
  "(char \<Rightarrow> string \<Rightarrow> 'c \<Rightarrow> (outcome \<times> 'c \<times> string) option) \<Rightarrow> string \<Rightarrow> 'c \<Rightarrow> (outcome \<times> 'c \<times> string) option"
where
  "menu_loop h [] c = None"
| "menu_loop h (k # keys) c =
     (case h k keys c of
        None \<Rightarrow> None
      | Some (out, c1, keys1) \<Rightarrow>
          if out \<noteq> Stay then Some (out, c1, keys1)
          else if length keys1 \<le> length keys then menu_loop h keys1 c1
          else None)"
  by pat_completeness auto
termination by (relation "measure (\<lambda>(h, keys, c). length keys)") auto

section \<open>Test selection\<close>

text \<open>\<open>int n = read_value(...)\<close>.\<close>

definition read_int :: "nat \<Rightarrow> string \<Rightarrow> (int \<times> string) option" where
  "read_int fw keys = map_option (\<lambda>(v, rest). (wrap_int (uint v), rest)) (read_value fw 0 keys)"

definition valid_test :: "int \<Rightarrow> bool" where
  "valid_test n \<longleftrightarrow> \<not> (n < 0 \<or> n \<ge> NUM_TEST_PATTERNS)"

definition set_all_tests :: "bool \<Rightarrow> config \<Rightarrow> bool \<times> config" where
  "set_all_tests enabled cfg = (True, cfg\<lparr>test_enabled := replicate (nat NUM_TEST_PATTERNS) enabled\<rparr>)"

definition add_or_remove_test :: "bool \<Rightarrow> string \<Rightarrow> config \<Rightarrow> ((bool \<times> config) \<times> string) option" where
  "add_or_remove_test add keys cfg =
     map_option (\<lambda>(n, rest).
       (if \<not> valid_test n then (False, cfg) else (True, cfg\<lparr>test_enabled := (test_enabled cfg)[nat n := add]\<rparr>), rest))
     (read_int 2 keys)"

definition enable_range :: "int \<Rightarrow> int \<Rightarrow> bool list \<Rightarrow> bool list" where
  "enable_range n1 n2 en = fold (\<lambda>i e. e[i := True]) [nat n1..<nat n2 + 1] en"

definition add_test_range :: "string \<Rightarrow> config \<Rightarrow> ((bool \<times> config) \<times> string) option" where
  "add_test_range keys cfg =
     (case read_int 2 keys of
        None \<Rightarrow> None
      | Some (n1, keys1) \<Rightarrow>
          if \<not> valid_test n1 then Some ((False, cfg), keys1)
          else map_option (\<lambda>(n2, rest).
                 (if n2 < n1 \<or> n2 \<ge> NUM_TEST_PATTERNS then (False, cfg)
                  else (True, cfg\<lparr>test_enabled := enable_range n1 n2 (test_enabled cfg)\<rparr>), rest))
               (read_int 2 keys1))"

text \<open>
  The numbers of the new sequence, \<open>n\<close> more to read; the result says whether all of them were accepted.
\<close>

primrec read_sequence :: "nat \<Rightarrow> int list \<Rightarrow> string \<Rightarrow> ((bool \<times> int list) \<times> string) option" where
  "read_sequence 0 test keys = Some ((True, test), keys)"
| "read_sequence (Suc n) test keys =
     (case read_int 2 keys of
        None \<Rightarrow> None
      | Some (v, keys1) \<Rightarrow>
          if \<not> valid_test v then Some ((False, test), keys1)
          else if v \<in> set test then Some ((False, test), keys1)
          else read_sequence n (test @ [v]) keys1)"

definition set_all_sequence :: "string \<Rightarrow> config \<Rightarrow> ((bool \<times> config) \<times> string) option" where
  "set_all_sequence keys cfg =
     map_option (\<lambda>((ok, test), rest). (if ok then (True, cfg\<lparr>test_sequence := test\<rparr>) else (False, cfg), rest))
       (read_sequence (nat NUM_TEST_PATTERNS) [] keys)"

definition set_test_cycle_times :: "string \<Rightarrow> config \<Rightarrow> (config \<times> string) option" where
  "set_test_cycle_times keys cfg =
     map_option (\<lambda>(num, rest). (if num > 0 then cfg\<lparr>max_pass_num := num, pass_num := 0\<rparr> else cfg, rest)) (read_int 5 keys)"

definition note_change :: "bool \<times> config \<Rightarrow> config" where
  "note_change r = (if fst r then (snd r)\<lparr>restart := True\<rparr> else snd r)"

definition stay :: "((bool \<times> config) \<times> string) option \<Rightarrow> (outcome \<times> config \<times> string) option" where
  "stay r = map_option (\<lambda>(r, rest). (Stay, note_change r, rest)) r"

definition test_selection_key :: "char \<Rightarrow> string \<Rightarrow> config \<Rightarrow> (outcome \<times> config \<times> string) option" where
  "test_selection_key k keys cfg =
     (if k = CHR ''1'' then stay (Some (set_all_tests False cfg, keys))
      else if k = CHR ''2'' then stay (add_or_remove_test False keys cfg)
      else if k = CHR ''3'' then stay (add_or_remove_test True keys cfg)
      else if k = CHR ''4'' then stay (add_test_range keys cfg)
      else if k = CHR ''5'' then stay (Some (set_all_tests True cfg, keys))
      else if k = CHR ''6'' then
        stay (map_option (\<lambda>((changed, cfg1), rest). ((changed, cfg1\<lparr>start_pass := True\<rparr>), rest)) (set_all_sequence keys cfg))
      else if k = CHR ''7'' then stay (map_option (\<lambda>(cfg1, rest). ((True, cfg1), rest)) (set_test_cycle_times keys cfg))
      else if k = CHR ''8'' then Some (Stay, cfg\<lparr>continue_on_error := \<not> continue_on_error cfg\<rparr>, keys)
      else if k = CHR ''0'' then Some (if length (filter id (test_enabled cfg)) > 0 then Leave else Stay, cfg, keys)
      else Some (Stay, cfg, keys))"

definition test_selection_menu :: "string \<Rightarrow> config \<Rightarrow> (outcome \<times> config \<times> string) option" where
  "test_selection_menu keys cfg = menu_loop test_selection_key keys cfg"

section \<open>Address range\<close>

definition limits_changed :: "pm_map_t list \<Rightarrow> config \<Rightarrow> config" where
  "limits_changed segs cfg = (update_num_pages_to_test segs cfg)\<lparr>restart := True\<rparr>"

definition address_range_key :: "pm_map_t list \<Rightarrow> char \<Rightarrow> string \<Rightarrow> config \<Rightarrow> (outcome \<times> config \<times> string) option" where
  "address_range_key segs k keys cfg =
     (if k = CHR ''1'' then
        map_option (\<lambda>(page, rest).
          (Stay, if page < pm_limit_upper cfg then limits_changed segs (cfg\<lparr>pm_limit_lower := page\<rparr>) else cfg, rest))
        (read_value 15 (- 12) keys)
      else if k = CHR ''2'' then
        map_option (\<lambda>(page, rest).
          (Stay, if page > pm_limit_lower cfg then limits_changed segs (cfg\<lparr>pm_limit_upper := page\<rparr>) else cfg, rest))
        (read_value 15 (- 12) keys)
      else if k = CHR ''3'' then
        Some (Stay, limits_changed segs (cfg\<lparr>pm_limit_lower := 0, pm_limit_upper := pm_end (last segs)\<rparr>), keys)
      else if k = CHR ''0'' then Some (Leave, cfg, keys)
      else Some (Stay, cfg, keys))"

definition address_range_menu :: "pm_map_t list \<Rightarrow> string \<Rightarrow> config \<Rightarrow> (outcome \<times> config \<times> string) option" where
  "address_range_menu segs keys cfg = menu_loop (address_range_key segs) keys cfg"

section \<open>Modes\<close>

text \<open>The enumerators by their numbers.\<close>

definition cpu_modes :: "cpu_mode_t list" where "cpu_modes = [PAR, SEQ, ONE]"

primrec cpu_mode_code :: "cpu_mode_t \<Rightarrow> nat" where
  "cpu_mode_code PAR = 0"
| "cpu_mode_code SEQ = 1"
| "cpu_mode_code ONE = 2"

definition error_modes :: "error_mode_t list" where
  "error_modes = [ERROR_MODE_NONE, ERROR_MODE_SUMMARY, ERROR_MODE_ADDRESS, ERROR_MODE_BADRAM, ERROR_MODE_MEMMAP, ERROR_MODE_PAGES]"

definition key_index :: "char \<Rightarrow> nat" where
  "key_index k = nat (code k - code CHR ''1'')"

definition cpu_mode_key :: "char \<Rightarrow> string \<Rightarrow> config \<Rightarrow> (outcome \<times> config \<times> string) option" where
  "cpu_mode_key k keys cfg =
     (if k \<in> set ''123'' then Some (Stay, cfg\<lparr>cpu_mode := cpu_modes ! key_index k\<rparr>, keys)
      else if k = CHR ''u'' then
        Some (Stay, if cpu_mode_code (cpu_mode cfg) > 0 then cfg\<lparr>cpu_mode := cpu_modes ! (cpu_mode_code (cpu_mode cfg) - 1)\<rparr> else cfg, keys)
      else if k = CHR ''d'' then
        Some (Stay, if cpu_mode_code (cpu_mode cfg) < 2 then cfg\<lparr>cpu_mode := cpu_modes ! (cpu_mode_code (cpu_mode cfg) + 1)\<rparr> else cfg, keys)
      else if k = CHR ''0'' then Some (Leave, cfg, keys)
      else Some (Stay, cfg, keys))"

definition cpu_mode_menu :: "string \<Rightarrow> config \<Rightarrow> (outcome \<times> config \<times> string) option" where
  "cpu_mode_menu keys cfg = menu_loop cpu_mode_key keys cfg"

definition error_mode_key :: "char \<Rightarrow> string \<Rightarrow> config \<Rightarrow> (outcome \<times> config \<times> string) option" where
  "error_mode_key k keys cfg =
     (if k \<in> set ''123456'' then Some (Stay, cfg\<lparr>error_mode := error_modes ! key_index k\<rparr>, keys)
      else if k = CHR ''u'' then
        Some (Stay, if error_mode_code (error_mode cfg) > 0 then cfg\<lparr>error_mode := error_modes ! (error_mode_code (error_mode cfg) - 1)\<rparr> else cfg, keys)
      else if k = CHR ''d'' then
        Some (Stay, if error_mode_code (error_mode cfg) < 5 then cfg\<lparr>error_mode := error_modes ! (error_mode_code (error_mode cfg) + 1)\<rparr> else cfg, keys)
      else if k = CHR ''0'' then Some (Leave, cfg, keys)
      else Some (Stay, cfg, keys))"

definition error_mode_menu :: "string \<Rightarrow> config \<Rightarrow> (outcome \<times> config \<times> string) option" where
  "error_mode_menu keys cfg = menu_loop error_mode_key keys cfg"

section \<open>Processors\<close>

definition set_cpus :: "nat \<Rightarrow> nat \<Rightarrow> cpu_state_t \<Rightarrow> cpu_state_t list \<Rightarrow> cpu_state_t list" where
  "set_cpus a b s cpus = fold (\<lambda>i c. c[i := s]) [a..<b] cpus"

definition set_all_cpus :: "int \<Rightarrow> cpu_state_t \<Rightarrow> config \<Rightarrow> bool \<times> config" where
  "set_all_cpus num_available_cpus s cfg = (True, cfg\<lparr>cpu_state := set_cpus 1 (nat num_available_cpus) s (cpu_state cfg)\<rparr>)"

definition valid_cpu :: "int \<Rightarrow> int \<Rightarrow> bool" where
  "valid_cpu num_available_cpus n \<longleftrightarrow> \<not> (n < 1 \<or> n \<ge> num_available_cpus)"

definition add_or_remove_cpu :: "int \<Rightarrow> bool \<Rightarrow> string \<Rightarrow> config \<Rightarrow> ((bool \<times> config) \<times> string) option" where
  "add_or_remove_cpu num_available_cpus add keys cfg =
     map_option (\<lambda>(n, rest).
       (if \<not> valid_cpu num_available_cpus n then (False, cfg)
        else (True, cfg\<lparr>cpu_state := (cpu_state cfg)[nat n := (if add then CPU_STATE_ENABLED else CPU_STATE_DISABLED)]\<rparr>), rest))
     (read_int 4 keys)"

definition add_cpu_range :: "int \<Rightarrow> string \<Rightarrow> config \<Rightarrow> ((bool \<times> config) \<times> string) option" where
  "add_cpu_range num_available_cpus keys cfg =
     (case read_int 4 keys of
        None \<Rightarrow> None
      | Some (n1, keys1) \<Rightarrow>
          if \<not> valid_cpu num_available_cpus n1 then Some ((False, cfg), keys1)
          else map_option (\<lambda>(n2, rest).
                 (if n2 < n1 \<or> n2 \<ge> num_available_cpus then (False, cfg)
                  else (True, cfg\<lparr>cpu_state := set_cpus (nat n1) (nat n2 + 1) CPU_STATE_ENABLED (cpu_state cfg)\<rparr>), rest))
               (read_int 4 keys1))"

definition cpu_selection_key :: "int \<Rightarrow> char \<Rightarrow> string \<Rightarrow> config \<Rightarrow> (outcome \<times> config \<times> string) option" where
  "cpu_selection_key num_available_cpus k keys cfg =
     (if k = CHR ''1'' then stay (Some (set_all_cpus num_available_cpus CPU_STATE_DISABLED cfg, keys))
      else if k = CHR ''2'' then stay (add_or_remove_cpu num_available_cpus False keys cfg)
      else if k = CHR ''3'' then stay (add_or_remove_cpu num_available_cpus True keys cfg)
      else if k = CHR ''4'' then stay (add_cpu_range num_available_cpus keys cfg)
      else if k = CHR ''5'' then stay (Some (set_all_cpus num_available_cpus CPU_STATE_ENABLED cfg, keys))
      else if k = CHR ''6'' then Some (Stay, cfg\<lparr>exclude_ecores := \<not> exclude_ecores cfg\<rparr>, keys)
      else if k = CHR ''0'' then Some (Leave, cfg, keys)
      else Some (Stay, cfg, keys))"

text \<open>The keys \<open>u\<close> and \<open>d\<close> only scroll the display.\<close>

definition cpu_selection_menu :: "int \<Rightarrow> string \<Rightarrow> config \<Rightarrow> (outcome \<times> config \<times> string) option" where
  "cpu_selection_menu num_available_cpus keys cfg = menu_loop (cpu_selection_key num_available_cpus) keys cfg"

definition boot_options_key :: "char \<Rightarrow> string \<Rightarrow> config \<Rightarrow> (outcome \<times> config \<times> string) option" where
  "boot_options_key k keys cfg =
     (if k = CHR ''1'' then Some (Stay, cfg\<lparr>enable_trace := \<not> enable_trace cfg\<rparr>, keys)
      else if k = CHR ''2'' then Some (Stay, cfg\<lparr>enable_ecc_polling := \<not> enable_ecc_polling cfg\<rparr>, keys)
      else if k = CHR ''0'' then Some (Leave, cfg, keys)
      else Some (Stay, cfg, keys))"

definition boot_options_menu :: "string \<Rightarrow> config \<Rightarrow> (outcome \<times> config \<times> string) option" where
  "boot_options_menu keys cfg = menu_loop boot_options_key keys cfg"

section \<open>The main menu\<close>

text \<open>
  What the menu needs from outside: the memory map, the number of processors, whether a drive can be reached, and what
  saving the results, saving the settings and deleting the saved settings do to the drive.
\<close>

record 'w menu_env =
  segments :: "pm_map_t list"
  available_cpus :: int
  drive_found :: "'w \<Rightarrow> bool"
  save_results :: "'w \<Rightarrow> 'w"
  save_config :: "config \<Rightarrow> 'w \<Rightarrow> 'w"
  delete_config :: "'w \<Rightarrow> 'w"

definition sub_menu ::
  "(string \<Rightarrow> config \<Rightarrow> (outcome \<times> config \<times> string) option) \<Rightarrow> string \<Rightarrow> config \<times> 'w \<Rightarrow> (outcome \<times> (config \<times> 'w) \<times> string) option"
where
  "sub_menu m keys c = map_option (\<lambda>(out, cfg, rest). (Stay, (cfg, snd c), rest)) (m keys (fst c))"

definition config_key ::
  "'w menu_env \<Rightarrow> bool \<Rightarrow> char \<Rightarrow> string \<Rightarrow> config \<times> 'w \<Rightarrow> (outcome \<times> (config \<times> 'w) \<times> string) option"
where
  "config_key env initial k keys c =
     (let cfg = fst c; w = snd c
      in if k = CHR ''1'' then sub_menu test_selection_menu keys c
         else if k = CHR ''2'' then sub_menu (address_range_menu (segments env)) keys c
         else if k = CHR ''3'' then sub_menu cpu_mode_menu keys c
         else if k = CHR ''4'' then sub_menu error_mode_menu keys c
         else if k = CHR ''5'' then
           (if initial
            then if smp_enabled cfg then sub_menu (cpu_selection_menu (available_cpus env)) keys c else Some (Stay, c, keys)
            else Some (Leave, (cfg\<lparr>bail := True\<rparr>, w), keys))
         else if k = CHR ''6'' then
           Some (Stay, if initial then (cfg\<lparr>enable_temp_cpu := \<not> enable_temp_cpu cfg\<rparr>, w)
                       else if drive_found env w then (cfg, save_results env w) else c, keys)
         else if k = CHR ''7'' then Some (Stay, (cfg\<lparr>enable_temp_ram := \<not> enable_temp_ram cfg\<rparr>, w), keys)
         else if k = CHR ''8'' then (if initial then sub_menu boot_options_menu keys c else Some (Leave, c, keys))
         else if k = CHR ''9'' then Some (Stay, (cfg\<lparr>lang_cn := \<not> lang_cn cfg\<rparr>, w), keys)
         else if k = CHR ''0'' then Some (Leave, c, keys)
         else if k = CHR ''S'' \<or> k = CHR ''s'' then Some (Stay, (cfg, save_config env cfg w), keys)
         else if k = CHR ''D'' \<or> k = CHR ''d'' then Some (Reboot, (cfg, delete_config env w), keys)
         else Some (Stay, c, keys))"

definition leave_config :: "cpu_mode_t \<Rightarrow> config \<Rightarrow> config" where
  "leave_config old_cpu_mode cfg =
     (let cfg1 = (if cpu_mode cfg \<noteq> old_cpu_mode then cfg\<lparr>restart := True\<rparr> else cfg)
      in if restart cfg1 then cfg1\<lparr>bail := True\<rparr> else cfg1)"

definition config_menu ::
  "'w menu_env \<Rightarrow> bool \<Rightarrow> string \<Rightarrow> config \<times> 'w \<Rightarrow> (outcome \<times> (config \<times> 'w) \<times> string) option"
where
  "config_menu env initial keys c =
     map_option (\<lambda>(out, (cfg, w), rest).
        (out, (if out = Reboot then cfg else leave_config (cpu_mode (fst c)) cfg, w), rest))
       (menu_loop (config_key env initial) keys c)"

section \<open>The pause before the tests\<close>

text \<open>
  The loop of \<open>initial_config\<close> at count \<open>i\<close>: 3000 polls without Enter or the menu start the tests. Escape and the
  deletion of the settings restart the machine.
\<close>

function pause_loop ::
  "'w menu_env \<Rightarrow> nat \<Rightarrow> string \<Rightarrow> config \<times> 'w \<Rightarrow> (outcome \<times> (config \<times> 'w) \<times> string) option"
where
  "pause_loop env i keys c =
     (if i \<ge> 3000 then Some (Leave, c, keys)
      else case keys of
             [] \<Rightarrow> None
           | k # keys1 \<Rightarrow>
               if k = CHR 0x1B then Some (Reboot, c, keys1)
               else if k = CHR ''1'' then config_menu env True keys1 c
               else if k = CHR ''2'' then
                 pause_loop env 1 keys1 ((fst c)\<lparr>smp_enabled := \<not> smp_enabled (fst c)\<rparr>, snd c)
               else if k = newline then Some (Leave, c, keys1)
               else pause_loop env (i + 1) keys1 c)"
  by pat_completeness auto
termination by (relation "measure (\<lambda>(env, i, keys, c). length keys)") auto

declare pause_loop.simps [simp del]

end
