(* ===== verification/Config_Spec.thy ===== *)
theory Config_Spec
  imports Config_Menu
begin

text \<open>
  What the settings promise: the command line has the effect of its options one after the other, a list of tests reads
  back as it was written, the number of pages between the limits is right, and the menus keep the settings in order.
\<close>

section \<open>The command line as a list of options\<close>

definition plain :: "string \<Rightarrow> bool" where
  "plain s \<longleftrightarrow> set s \<inter> {NUL, CHR '' '', CHR ''=''} = {}"

text \<open>An option with its parameter, as it is written and as \<open>parse_option\<close> gets it (followed by \<open>r\<close>).\<close>

fun option_text :: "string \<times> string option \<Rightarrow> string" where
  "option_text (name, None) = name"
| "option_text (name, Some v) = name @ CHR ''='' # v"

fun plain_option :: "string \<times> string option \<Rightarrow> bool" where
  "plain_option (name, None) = plain name"
| "plain_option (name, Some v) = (plain name \<and> plain v)"

fun run_option :: "string \<times> string option \<Rightarrow> string \<Rightarrow> config \<Rightarrow> config option" where
  "run_option (name, None) r cfg = parse_option (name @ NUL # r) None cfg"
| "run_option (name, Some v) r cfg = parse_option (name @ NUL # v @ NUL # r) (Some (v @ NUL # r)) cfg"

text \<open>A command line of options separated by blanks, and what running them one after the other does.\<close>

fun line_text :: "(string \<times> string option) list \<Rightarrow> string" where
  "line_text [] = []"
| "line_text [opt] = option_text opt"
| "line_text (opt # opts) = option_text opt @ CHR '' '' # line_text opts"

fun run_options :: "(string \<times> string option) list \<Rightarrow> string \<Rightarrow> config \<Rightarrow> config option" where
  "run_options [] tail cfg = Some cfg"
| "run_options [opt] tail cfg = run_option opt tail cfg"
| "run_options (opt # opts) tail cfg =
     (case run_option opt (line_text opts @ NUL # tail) cfg of None \<Rightarrow> None | Some cfg1 \<Rightarrow> run_options opts tail cfg1)"

lemma char_at_middle: "char_at (pre @ c # rest) (length pre) = Some c"
  by (simp add: char_at_def)

lemma scan_plain:
  assumes "plain s"
  shows "command_line_from (length s + n) (length pre) opt par (pre @ s @ rest) cfg =
    command_line_from n (length pre + length s) opt par (pre @ s @ rest) cfg"
  using assms
proof (induction s arbitrary: pre)
  case (Cons c s)
  have c: "c \<noteq> NUL" "c \<noteq> CHR '' ''" "c \<noteq> CHR ''=''" and s: "plain s" using Cons.prems by (auto simp: plain_def)
  have "command_line_from (length (c # s) + n) (length pre) opt par (pre @ (c # s) @ rest) cfg =
      command_line_from (length s + n) (length (pre @ [c])) opt par ((pre @ [c]) @ s @ rest) cfg"
    using c char_at_middle [of pre c "s @ rest"] by simp
  also have "\<dots> = command_line_from n (length (pre @ [c]) + length s) opt par ((pre @ [c]) @ s @ rest) cfg"
    using Cons.IH [OF s] .
  finally show ?case by simp
qed simp

lemma line_update: "(pre @ c # rest)[length pre := d] = pre @ d # rest"
  by simp

text \<open>Up to the character \<open>e\<close> that ends an option.\<close>

fun ended_text :: "string \<times> string option \<Rightarrow> string" where
  "ended_text (name, None) = name @ [NUL]"
| "ended_text (name, Some v) = name @ NUL # v @ [NUL]"

lemma length_ended: "length (ended_text opt) = length (option_text opt) + 1"
  by (cases opt rule: option_text.cases) simp_all

lemma scan_option:
  assumes "plain_option opt"
  shows "command_line_from (length (option_text opt) + Suc n) (length pre) (length pre) None (pre @ option_text opt @ NUL # rest) cfg =
      run_option opt rest cfg"
    "command_line_from (length (option_text opt) + Suc n) (length pre) (length pre) None (pre @ option_text opt @ CHR '' '' # rest) cfg =
      (case run_option opt rest cfg of
         None \<Rightarrow> None
       | Some cfg1 \<Rightarrow> command_line_from n (length (pre @ ended_text opt)) (length (pre @ ended_text opt)) None (pre @ ended_text opt @ rest) cfg1)"
proof -
  have run: "command_line_from (length (option_text opt) + Suc n) (length pre) (length pre) None (pre @ option_text opt @ e # rest) cfg =
      (case opt of
         (name, None) \<Rightarrow> command_line_from (Suc n) (length (pre @ name)) (length pre) None ((pre @ name) @ e # rest) cfg
       | (name, Some v) \<Rightarrow> command_line_from (Suc n) (length (pre @ name @ NUL # v)) (length pre) (Some (length (pre @ name @ [NUL])))
           ((pre @ name @ NUL # v) @ e # rest) cfg)" for e
  proof (cases opt rule: option_text.cases)
    case (1 name)
    then show ?thesis using assms scan_plain [of name "Suc n" pre "length pre" None "e # rest" cfg]
      by (simp del: command_line_from.simps)
  next
    case (2 name v)
    have p: "plain name" "plain v" using assms 2 by simp_all
    have "command_line_from (length (option_text opt) + Suc n) (length pre) (length pre) None (pre @ option_text opt @ e # rest) cfg =
        command_line_from (length name + (length v + Suc (Suc n))) (length pre) (length pre) None (pre @ name @ CHR ''='' # v @ e # rest) cfg"
      by (simp add: 2 add.assoc del: command_line_from.simps)
    also have "\<dots> = command_line_from (length v + Suc (Suc n)) (length (pre @ name)) (length pre) None ((pre @ name) @ CHR ''='' # v @ e # rest) cfg"
      using scan_plain [OF p(1), of "length v + Suc (Suc n)" pre "length pre" None "CHR ''='' # v @ e # rest" cfg]
      by (simp del: command_line_from.simps)
    also have "\<dots> = command_line_from (length v + Suc n) (length (pre @ name @ [NUL])) (length pre) (Some (length (pre @ name @ [NUL])))
        ((pre @ name @ [NUL]) @ v @ e # rest) cfg"
      using char_at_middle [of "pre @ name" "CHR ''=''" "v @ e # rest"] by (simp add: list_update_append)
    also have "\<dots> = command_line_from (Suc n) (length (pre @ name @ [NUL]) + length v) (length pre) (Some (length (pre @ name @ [NUL])))
        ((pre @ name @ [NUL]) @ v @ e # rest) cfg"
      by (rule scan_plain [OF p(2)])
    finally show ?thesis by (simp add: 2 add.assoc del: command_line_from.simps)
  qed
  show "command_line_from (length (option_text opt) + Suc n) (length pre) (length pre) None (pre @ option_text opt @ NUL # rest) cfg =
      run_option opt rest cfg"
    unfolding run
  proof (cases opt rule: option_text.cases)
    case (1 name)
    then show "(case opt of (name, None) \<Rightarrow> command_line_from (Suc n) (length (pre @ name)) (length pre) None ((pre @ name) @ NUL # rest) cfg
       | (name, Some v) \<Rightarrow> command_line_from (Suc n) (length (pre @ name @ NUL # v)) (length pre) (Some (length (pre @ name @ [NUL])))
           ((pre @ name @ NUL # v) @ NUL # rest) cfg) = run_option opt rest cfg"
      using char_at_middle [of "pre @ name" NUL rest] by simp
  next
    case (2 name v)
    then show "(case opt of (name, None) \<Rightarrow> command_line_from (Suc n) (length (pre @ name)) (length pre) None ((pre @ name) @ NUL # rest) cfg
       | (name, Some v) \<Rightarrow> command_line_from (Suc n) (length (pre @ name @ NUL # v)) (length pre) (Some (length (pre @ name @ [NUL])))
           ((pre @ name @ NUL # v) @ NUL # rest) cfg) = run_option opt rest cfg"
      using char_at_middle [of "pre @ name @ NUL # v" NUL rest] by simp
  qed
  show "command_line_from (length (option_text opt) + Suc n) (length pre) (length pre) None (pre @ option_text opt @ CHR '' '' # rest) cfg =
      (case run_option opt rest cfg of
         None \<Rightarrow> None
       | Some cfg1 \<Rightarrow> command_line_from n (length (pre @ ended_text opt)) (length (pre @ ended_text opt)) None (pre @ ended_text opt @ rest) cfg1)"
    unfolding run
  proof (cases opt rule: option_text.cases)
    case (1 name)
    then show "(case opt of (name, None) \<Rightarrow> command_line_from (Suc n) (length (pre @ name)) (length pre) None ((pre @ name) @ CHR '' '' # rest) cfg
       | (name, Some v) \<Rightarrow> command_line_from (Suc n) (length (pre @ name @ NUL # v)) (length pre) (Some (length (pre @ name @ [NUL])))
           ((pre @ name @ NUL # v) @ CHR '' '' # rest) cfg) =
      (case run_option opt rest cfg of
         None \<Rightarrow> None
       | Some cfg1 \<Rightarrow> command_line_from n (length (pre @ ended_text opt)) (length (pre @ ended_text opt)) None (pre @ ended_text opt @ rest) cfg1)"
      using char_at_middle [of "pre @ name" "CHR '' ''" rest] by (simp add: list_update_append Let_def split: option.split)
  next
    case (2 name v)
    then show "(case opt of (name, None) \<Rightarrow> command_line_from (Suc n) (length (pre @ name)) (length pre) None ((pre @ name) @ CHR '' '' # rest) cfg
       | (name, Some v) \<Rightarrow> command_line_from (Suc n) (length (pre @ name @ NUL # v)) (length pre) (Some (length (pre @ name @ [NUL])))
           ((pre @ name @ NUL # v) @ CHR '' '' # rest) cfg) =
      (case run_option opt rest cfg of
         None \<Rightarrow> None
       | Some cfg1 \<Rightarrow> command_line_from n (length (pre @ ended_text opt)) (length (pre @ ended_text opt)) None (pre @ ended_text opt @ rest) cfg1)"
      using char_at_middle [of "pre @ name @ NUL # v" "CHR '' ''" rest] by (simp add: list_update_append Let_def split: option.split)
  qed
qed

lemma scan_line:
  "opts \<noteq> [] \<Longrightarrow> \<forall>opt \<in> set opts. plain_option opt \<Longrightarrow> length (line_text opts) < n \<Longrightarrow>
    command_line_from n (length pre) (length pre) None (pre @ line_text opts @ NUL # tail) cfg = run_options opts tail cfg"
proof (induction opts arbitrary: n pre cfg rule: line_text.induct)
  case (2 opt)
  obtain k where n: "n = length (option_text opt) + Suc k" using 2(3) by (metis add_Suc_right less_imp_Suc_add line_text.simps(2))
  show ?case using scan_option(1) [of opt k pre tail cfg] 2(2) n by simp
next
  case (3 opt o2 opts)
  let ?opts = "o2 # opts" and ?rest = "line_text (o2 # opts) @ NUL # tail"
  obtain k where n: "n = length (option_text opt) + Suc k" "length (line_text ?opts) < k"
  proof
    show "n = length (option_text opt) + Suc (n - length (option_text opt) - 1)" "length (line_text ?opts) < n - length (option_text opt) - 1"
      using 3(4) by simp_all
  qed
  have ih: "command_line_from k (length (pre @ ended_text opt)) (length (pre @ ended_text opt)) None
      ((pre @ ended_text opt) @ line_text ?opts @ NUL # tail) cfg1 = run_options ?opts tail cfg1" for cfg1
    using 3(3) n(2) by (intro 3(1)) auto
  show ?case
    using scan_option(2) [of opt k pre ?rest cfg] 3(3) ih n(1) by (simp split: option.split)
qed simp

text \<open>
  C33: a command line of options separated by blanks, each with an optional parameter behind an equals sign, and ended by
  a null character within its size, has the effect of its options one after the other; whatever follows the null
  character plays no part in how the line is split.
\<close>

theorem command_line_runs_options:
  assumes "opts \<noteq> []" "\<forall>opt \<in> set opts. plain_option opt" "length (line_text opts) < n"
  shows "parse_command_line (line_text opts @ NUL # tail) n cfg = run_options opts tail cfg"
  using scan_line [OF assms, of "[]" tail cfg] by (simp add: parse_command_line_def)

definition default_config :: config where
  "default_config =
     \<lparr>pm_limit_lower = 0, pm_limit_upper = 0, num_pages_to_test = 0, cpu_mode = PAR, error_mode = ERROR_MODE_NONE,
      cpu_state = [CPU_STATE_ENABLED], exclude_ecores = True, smp_enabled = True, enable_big_status = True, enable_trace = False,
      enable_temp_cpu = True, enable_temp_ram = True, enable_sm = True, enable_spd_crc = True, enable_bench = True,
      enable_mch_read = True, enable_numa = False, enable_ecc_polling = True, pause_at_start = True, dark_mode = True,
      power_save = POWER_SAVE_HIGH, enable_tty = True, enable_tty_log = False, log_max_passes = 0, tty_address = 0x3F8,
      tty_baud_rate = 115200, tty_update_period = 2, tty_new_line = False, tty_mmio_stride = 4, tty_pl011 = False,
      keyboard_types = 3, usb_init_options = 0, test_enabled = replicate 11 True @ [False],
      test_sequence = [0, 1, 2, 3, 4, 5, 6, 7, 8, 9, 10, 11], max_pass_num = 1, pass_num = 0, continue_on_error = False,
      lang_cn = True, restart = False, bail = False, start_pass = False\<rparr>"

theorem command_line_runs_options_witness:
  "parse_command_line (''nosmp powersave=low'' @ [NUL]) 255 default_config =
    Some (default_config\<lparr>smp_enabled := False, power_save := POWER_SAVE_LOW\<rparr>)"
proof -
  let ?opts = "[(''nosmp'', None), (''powersave'', Some ''low'')]"
  have "run_options ?opts [] default_config = Some (default_config\<lparr>smp_enabled := False, power_save := POWER_SAVE_LOW\<rparr>)"
    by code_simp
  then show ?thesis
    using command_line_runs_options [of ?opts 255 "[]" default_config] by (simp add: plain_def)
qed

section \<open>The list of tests\<close>

definition decimal :: "nat \<Rightarrow> string" where
  "decimal t = rev (uint_to_dec_str (of_nat t) 1 BUFFER_SIZE)"

fun list_text :: "nat list \<Rightarrow> string" where
  "list_text [] = []"
| "list_text [t] = decimal t"
| "list_text (t # ts) = decimal t @ CHR '','' # list_text ts"

lemma twelve:
  "t < 12 \<Longrightarrow> t = 0 \<or> t = 1 \<or> t = 2 \<or> t = 3 \<or> t = 4 \<or> t = 5 \<or> t = 6 \<or> t = 7 \<or> t = 8 \<or> t = 9 \<or> t = 10 \<or> t = 11"
  for t :: nat
  by presburger

lemma decimal_values:
  "decimal (Suc 0) = ''1''" "decimal 0 = ''0''" "decimal 1 = ''1''" "decimal 2 = ''2''" "decimal 3 = ''3''" "decimal 4 = ''4''" "decimal 5 = ''5''"
  "decimal 6 = ''6''" "decimal 7 = ''7''" "decimal 8 = ''8''" "decimal 9 = ''9''" "decimal 10 = ''10''" "decimal 11 = ''11''"
  by code_simp+

lemma decimal_digits: "t < 12 \<Longrightarrow> decimal t \<noteq> [] \<and> set (decimal t) \<subseteq> {CHR ''0''..CHR ''9''}"
  using twelve [of t] by (auto simp: decimal_values)

lemma parse_decimal_digits:
  assumes "t < 12" "c = NUL \<or> c = CHR '',''"
  shows "parse_decimal (decimal t @ c # rest) = Some (int t, c # rest)"
  using twelve [OF assms(1)] assms(2)
  by (elim disjE; simp add: decimal_values parse_decimal_def wrap_int_def code_def)


lemma digit_facts: "CHR ''0'' \<le> c \<Longrightarrow> c \<le> CHR ''9'' \<Longrightarrow> c \<noteq> NUL \<and> c \<noteq> CHR '' '' \<and> c \<noteq> CHR 0x09 \<and> c \<noteq> CHR '',''"
  by auto

lemma decimal_Cons:
  assumes "t < 12"
  obtains d ds where "decimal t = d # ds" "d \<noteq> NUL" "d \<noteq> CHR '' ''" "d \<noteq> CHR 0x09" "d \<noteq> CHR '',''"
proof -
  obtain d ds where d: "decimal t = d # ds" using decimal_digits [OF assms] by (cases "decimal t") auto
  then have "CHR ''0'' \<le> d" "d \<le> CHR ''9''" using decimal_digits [OF assms] by auto
  then show thesis using that [OF d] digit_facts by blast
qed

text \<open>One pass of the loop, with or without the comma in front.\<close>

lemma test_list_pass:
  assumes "t < 12" "c = NUL \<or> c = CHR '',''" "comma = [] \<or> comma = '',''"
  shows "test_list_loop (Suc n) (comma @ decimal t @ c # rest) en = test_list_loop n (c # rest) (en[t := True])"
proof -
  obtain d ds where d: "decimal t = d # ds" "d \<noteq> NUL" "d \<noteq> CHR '' ''" "d \<noteq> CHR 0x09" "d \<noteq> CHR '',''"
    using decimal_Cons [OF assms(1)] .
  have p: "parse_decimal (d # ds @ c # rest) = Some (int t, c # rest)"
    using parse_decimal_digits [OF assms(1,2), of rest] by (simp add: d(1))
  have "skip_to_comma (c # rest) = Some (Some (c # rest))" using assms(2) by auto
  then show ?thesis using assms d p by (auto simp: NUM_TEST_PATTERNS_def)
qed

lemma test_list_numbers:
  "set ts \<subseteq> {..<12} \<Longrightarrow> ts \<noteq> [] \<Longrightarrow> length ts < n \<Longrightarrow> comma = [] \<or> comma = '','' \<Longrightarrow>
    test_list_loop n (comma @ list_text ts @ NUL # rest) en = Some (foldl (\<lambda>e t. e[t := True]) en ts)"
proof (induction ts arbitrary: n comma en rule: list_text.induct)
  case (2 t)
  have "n = Suc (Suc (n - 2))" using 2(3) by simp
  then obtain k where n: "n = Suc (Suc k)" ..
  show ?case using test_list_pass [of t NUL comma "Suc k" rest en] 2 n by simp
next
  case (3 t t2 ts)
  obtain k where n: "n = Suc k" using 3(4) by (cases n) auto
  have "test_list_loop n (comma @ list_text (t # t2 # ts) @ NUL # rest) en =
      test_list_loop k ('','' @ list_text (t2 # ts) @ NUL # rest) (en[t := True])"
    using test_list_pass [of t "CHR '',''" comma k "list_text (t2 # ts) @ NUL # rest" en] 3(2,5) n
    by (simp del: test_list_loop.simps)
  also have "\<dots> = Some (foldl (\<lambda>e t. e[t := True]) (en[t := True]) (t2 # ts))"
    using 3(2,4) n by (intro 3(1)) simp_all
  finally show ?case by simp
qed simp

lemma nth_marks: "i < length en \<Longrightarrow> foldl (\<lambda>e t. e[t := True]) en ts ! i = (en ! i \<or> i \<in> set ts)"
proof (induction ts arbitrary: en)
  case (Cons a ts)
  then show ?case using Cons.IH [of "en[a := True]"] by (cases "i = a") simp_all
qed simp

lemma length_marks: "length (foldl (\<lambda>e t. e[t := True]) en ts) = length en"
  by (induction ts arbitrary: en) auto

lemma length_list_text: "set ts \<subseteq> {..<12} \<Longrightarrow> length ts \<le> length (list_text ts)"
proof (induction ts rule: list_text.induct)
  case (2 t)
  then show ?case using decimal_digits [of t] by (cases "decimal t") auto
next
  case (3 t t2 ts)
  then show ?case by simp
qed simp

text \<open>
  C39: a list of test numbers, written as \<open>printu\<close> shows them and separated by commas, enables exactly these tests,
  whatever was enabled before and whatever follows the list in memory.
\<close>

theorem test_list_roundtrip:
  assumes "set ts \<subseteq> {..<12}" "ts \<noteq> []"
  shows "parse_test_list (Some (list_text ts @ NUL # rest)) cfg = Some (cfg\<lparr>test_enabled := map (\<lambda>i. i \<in> set ts) [0..<12]\<rparr>)"
proof -
  have "length ts < length (list_text ts @ NUL # rest) + 1" using length_list_text [OF assms(1)] by simp
  then have "test_list_loop (length (list_text ts @ NUL # rest) + 1) (list_text ts @ NUL # rest) (replicate 12 False) =
      Some (foldl (\<lambda>e t. e[t := True]) (replicate 12 False) ts)"
    using test_list_numbers [OF assms, of _ "[]" rest "replicate 12 False"] by (simp del: test_list_loop.simps)
  moreover have "foldl (\<lambda>e t. e[t := True]) (replicate 12 False) ts = map (\<lambda>i. i \<in> set ts) [0..<12]"
    by (rule nth_equalityI) (simp_all add: length_marks nth_marks)
  ultimately show ?thesis by (simp add: parse_test_list_def NUM_TEST_PATTERNS_def del: test_list_loop.simps)
qed

theorem test_list_roundtrip_witness:
  "parse_test_list (Some (''3,0,11'' @ [NUL])) default_config =
    Some (default_config\<lparr>test_enabled := map (\<lambda>i. i = 0 \<or> i = 3 \<or> i = 11) [0..<12]\<rparr>)"
proof -
  have t: "list_text [3, 0, 11] = ''3,0,11''" by (simp add: decimal_values)
  have m: "map (\<lambda>i. i \<in> set [3, 0, 11]) [0..<12] = map (\<lambda>i. i = 0 \<or> i = 3 \<or> i = 11) [0..<12]"
    by (rule map_cong) auto
  have "parse_test_list (Some (list_text [3, 0, 11] @ NUL # [])) default_config =
      Some (default_config\<lparr>test_enabled := map (\<lambda>i. i \<in> set [3, 0, 11]) [0..<12]\<rparr>)"
    by (rule test_list_roundtrip) simp_all
  then show ?thesis by (simp only: t m)
qed

section \<open>The pages between the limits\<close>

definition pages_between :: "u64 \<Rightarrow> u64 \<Rightarrow> pm_map_t \<Rightarrow> nat" where
  "pages_between lower upper s = card ({unat (pm_start s)..<unat (pm_end s)} \<inter> {unat lower..<unat upper})"

lemma segment_pages_overlap:
  assumes "lower \<le> upper" "pm_start s \<le> pm_end s"
  shows "segment_pages lower upper s = of_nat (pages_between lower upper s)"
proof -
  let ?a = "unat (pm_start s)" and ?b = "unat (pm_end s)" and ?l = "unat lower" and ?u = "unat upper"
  have le: "?a \<le> ?b" "?l \<le> ?u" using assms by (simp_all add: word_le_nat_alt)
  have "{?a..<?b} \<inter> {?l..<?u} = {max ?a ?l..<min ?b ?u}" by auto
  then have card: "pages_between lower upper s = min ?b ?u - max ?a ?l" by (simp add: pages_between_def)
  have "unat (segment_pages lower upper s) = min ?b ?u - max ?a ?l"
  proof -
    have sub: "unat (x - y) = unat x - unat y" if "y \<le> x" for x y :: u64 using that by (rule unat_sub)
    consider "lower \<le> pm_start s" "pm_end s \<le> upper" | "pm_start s < lower" "pm_end s < lower"
      | "pm_start s < lower" "lower \<le> pm_end s" "upper < pm_end s" | "pm_start s < lower" "lower \<le> pm_end s" "pm_end s \<le> upper"
      | "lower \<le> pm_start s" "upper < pm_end s" "upper < pm_start s" | "lower \<le> pm_start s" "upper < pm_end s" "pm_start s \<le> upper"
      by (metis not_le)
    then show ?thesis
      using le assms by cases (auto simp: segment_pages_def word_le_nat_alt word_less_nat_alt sub min_def max_def)
  qed
  then have "(of_nat (unat (segment_pages lower upper s)) :: u64) = of_nat (min ?b ?u - max ?a ?l)" by (rule arg_cong)
  then show ?thesis unfolding card by simp
qed

text \<open>
  \<open>update_num_pages_to_test\<close> counts the pages that lie both in a segment of the map and between the limits.
\<close>

theorem num_pages_counts:
  assumes "pm_limit_lower cfg \<le> pm_limit_upper cfg" "\<forall>s \<in> set segs. pm_start s \<le> pm_end s"
  shows "num_pages_to_test (update_num_pages_to_test segs cfg) =
    of_nat (\<Sum>s\<leftarrow>segs. pages_between (pm_limit_lower cfg) (pm_limit_upper cfg) s)"
proof -
  let ?l = "pm_limit_lower cfg" and ?u = "pm_limit_upper cfg"
  have "fold (\<lambda>s n. n + segment_pages ?l ?u s) segs n = n + of_nat (\<Sum>s\<leftarrow>segs. pages_between ?l ?u s)" for n
    using assms(2)
  proof (induction segs arbitrary: n)
    case (Cons s segs)
    then show ?case using segment_pages_overlap [OF assms(1), of s] by (simp add: add.assoc)
  qed simp
  then show ?thesis by (simp add: update_num_pages_to_test_def)
qed

theorem num_pages_counts_witness:
  "num_pages_to_test (update_num_pages_to_test [\<lparr>pm_start = 0, pm_end = 160\<rparr>, \<lparr>pm_start = 256, pm_end = 1000\<rparr>]
     (default_config\<lparr>pm_limit_lower := 100, pm_limit_upper := 300\<rparr>)) = 104"
  using num_pages_counts [of "default_config\<lparr>pm_limit_lower := 100, pm_limit_upper := 300\<rparr>"
      "[\<lparr>pm_start = 0, pm_end = 160\<rparr>, \<lparr>pm_start = 256, pm_end = 1000\<rparr>]"]
  by (simp add: pages_between_def)

section \<open>Invariants of the menus\<close>

lemma menu_loop_exit:
  assumes "menu_loop h keys c = Some (out, c1, rest)" "P c"
    and step: "\<And>k keys c out c1 rest. h k keys c = Some (out, c1, rest) \<Longrightarrow> P c \<Longrightarrow> P c1"
  shows "P c1 \<and> out \<noteq> Stay \<and> (\<exists>k keys0 c0. P c0 \<and> h k keys0 c0 = Some (out, c1, rest))"
  using assms(1,2)
proof (induction "length keys" arbitrary: keys c rule: less_induct)
  case less
  obtain k keys' where keys: "keys = k # keys'" using less.prems(1) by (cases keys) auto
  obtain out1 c2 keys1 where h: "h k keys' c = Some (out1, c2, keys1)" using less.prems(1) keys by (auto split: option.splits)
  have p: "P c2" using step [OF h less.prems(2)] .
  show ?case
  proof (cases "out1 = Stay")
    case False
    then have "out1 = out \<and> c2 = c1 \<and> keys1 = rest" using less.prems(1) h keys by simp
    then show ?thesis using h False p less.prems(2) by blast
  next
    case True
    then have "length keys1 \<le> length keys'" "menu_loop h keys1 c2 = Some (out, c1, rest)"
      using less.prems(1) h keys by (auto split: if_splits)
    then show ?thesis using less.hyps [of keys1 c2] p keys by simp
  qed
qed

text \<open>
  The settings that the tests rely on: a list of flags for the tests, a sequence that holds each test once, at least one
  pass, a range of pages that is not empty with its count up to date, and the boot processor enabled.
\<close>

definition is_sequence :: "int list \<Rightarrow> bool" where
  "is_sequence s \<longleftrightarrow> distinct s \<and> set s = {0..<12}"

definition settings_ok :: "pm_map_t list \<Rightarrow> config \<Rightarrow> bool" where
  "settings_ok segs c \<longleftrightarrow>
     length (test_enabled c) = 12 \<and> is_sequence (test_sequence c) \<and> 0 < max_pass_num c \<and>
     pm_limit_lower c < pm_limit_upper c \<and>
     num_pages_to_test c = fold (\<lambda>s n. n + segment_pages (pm_limit_lower c) (pm_limit_upper c) s) segs 0 \<and>
     cpu_state c \<noteq> [] \<and> hd (cpu_state c) = CPU_STATE_ENABLED"

lemma length_enable_range [simp]: "length (enable_range a b en) = length en"
proof -
  have "length (fold (\<lambda>i e. e[i := True]) is en) = length en" for "is" by (induction "is" arbitrary: en) auto
  then show ?thesis by (simp add: enable_range_def)
qed

lemma set_cpus_first: "0 < a \<Longrightarrow> cpus \<noteq> [] \<Longrightarrow> set_cpus a b s cpus \<noteq> [] \<and> hd (set_cpus a b s cpus) = hd cpus"
proof -
  assume a: "0 < a"
  have "cpus \<noteq> [] \<Longrightarrow> \<forall>i \<in> set is. 0 < i \<Longrightarrow> fold (\<lambda>i c. c[i := s]) is cpus \<noteq> [] \<and> hd (fold (\<lambda>i c. c[i := s]) is cpus) = hd cpus" for "is"
  proof (induction "is" arbitrary: cpus)
    case (Cons i "is")
    have "cpus[i := s] \<noteq> []" "hd (cpus[i := s]) = hd cpus" using Cons.prems by (cases cpus; cases i; simp)+
    then show ?case using Cons.IH [of "cpus[i := s]"] Cons.prems by simp
  qed simp
  then show "cpus \<noteq> [] \<Longrightarrow> set_cpus a b s cpus \<noteq> [] \<and> hd (set_cpus a b s cpus) = hd cpus"
    using a unfolding set_cpus_def by simp
qed

lemma read_sequence_ok:
  "read_sequence n test keys = Some ((True, test1), rest) \<Longrightarrow> distinct test \<Longrightarrow> set test \<subseteq> {0..<12} \<Longrightarrow>
    distinct test1 \<and> set test1 \<subseteq> {0..<12} \<and> length test1 = length test + n"
proof (induction n arbitrary: test keys)
  case (Suc n)
  obtain v keys1 where r: "read_int 2 keys = Some (v, keys1)" "valid_test v" "v \<notin> set test"
      "read_sequence n (test @ [v]) keys1 = Some ((True, test1), rest)"
    using Suc.prems(1) by (auto split: option.splits if_splits)
  have "distinct (test @ [v])" "set (test @ [v]) \<subseteq> {0..<12}"
    using Suc.prems r by (auto simp: valid_test_def NUM_TEST_PATTERNS_def)
  then show ?case using Suc.IH [OF r(4)] by simp
qed simp

lemma sequence_permutation:
  assumes "distinct test" "set test \<subseteq> {0..<12::int}" "length test = 12"
  shows "set test = {0..<12}"
proof -
  have "card (set test) = card {0..<12::int}" using assms distinct_card [of test] by simp
  then show ?thesis using assms(2) card_subset_eq [of "{0..<12::int}" "set test"] by simp
qed

lemma stay_Some: "stay r = Some (out, c1, rest) \<longleftrightarrow> (\<exists>b c. r = Some ((b, c), rest) \<and> out = Stay \<and> c1 = note_change (b, c))"
  by (auto simp: stay_def)

lemma settings_note [simp]: "settings_ok segs (note_change (b, c)) = settings_ok segs c"
  by (simp add: note_change_def settings_ok_def)

lemma add_or_remove_test_ok:
  "add_or_remove_test add keys c = Some ((b, c1), rest) \<Longrightarrow> settings_ok segs c \<Longrightarrow> settings_ok segs c1"
  by (auto simp: add_or_remove_test_def settings_ok_def split: if_splits)

lemma add_test_range_ok:
  "add_test_range keys c = Some ((b, c1), rest) \<Longrightarrow> settings_ok segs c \<Longrightarrow> settings_ok segs c1"
  by (auto simp: add_test_range_def settings_ok_def split: if_splits option.splits)

lemma set_all_sequence_ok:
  assumes "set_all_sequence keys c = Some ((b, c1), rest)" "settings_ok segs c"
  shows "settings_ok segs c1"
proof -
  obtain ok test where r: "read_sequence 12 [] keys = Some ((ok, test), rest)" "c1 = (if ok then c\<lparr>test_sequence := test\<rparr> else c)"
    using assms(1) by (auto simp: set_all_sequence_def NUM_TEST_PATTERNS_def split: if_splits)
  show ?thesis
  proof (cases ok)
    case True
    then have "distinct test" "set test \<subseteq> {0..<12}" "length test = 12" using read_sequence_ok [of 12 "[]" keys test rest] r(1) by simp_all
    then have "is_sequence test" using sequence_permutation [of test] by (simp add: is_sequence_def)
    then show ?thesis using r(2) True assms(2) by (simp add: settings_ok_def)
  qed (use r assms(2) in simp)
qed

lemma set_test_cycle_times_ok:
  "set_test_cycle_times keys c = Some (c1, rest) \<Longrightarrow> settings_ok segs c \<Longrightarrow> settings_ok segs c1"
  by (auto simp: set_test_cycle_times_def settings_ok_def split: if_splits)

lemma set_all_tests_ok: "set_all_tests e c = (b, c1) \<Longrightarrow> settings_ok segs c \<Longrightarrow> settings_ok segs c1"
  by (auto simp: set_all_tests_def settings_ok_def NUM_TEST_PATTERNS_def)

lemma test_selection_step:
  assumes "test_selection_key k keys c = Some (out, c1, rest)" "settings_ok segs c"
  shows "settings_ok segs c1"
proof -
  have other: "settings_ok segs (c2\<lparr>start_pass := e\<rparr>) = settings_ok segs c2" "settings_ok segs (c2\<lparr>continue_on_error := e\<rparr>) = settings_ok segs c2"
    for c2 e by (simp_all add: settings_ok_def)
  show ?thesis
    using assms add_or_remove_test_ok add_test_range_ok set_all_sequence_ok set_test_cycle_times_ok set_all_tests_ok
    unfolding test_selection_key_def by (auto simp: stay_Some other split: if_splits)
qed

lemma test_selection_leaves:
  "test_selection_key k keys c = Some (out, c1, rest) \<Longrightarrow> out \<noteq> Stay \<Longrightarrow> True \<in> set (test_enabled c1)"
  by (auto simp: test_selection_key_def stay_Some filter_empty_conv split: if_splits)

lemma address_range_step:
  "address_range_key segs k keys c = Some (out, c1, rest) \<Longrightarrow> 0 < pm_end (last segs) \<Longrightarrow> settings_ok segs c \<Longrightarrow>
    settings_ok segs c1 \<and> test_enabled c1 = test_enabled c"
  by (auto simp: address_range_key_def limits_changed_def update_num_pages_to_test_def settings_ok_def split: if_splits)

lemma mode_steps:
  "cpu_mode_key k keys c = Some (out, c1, rest) \<Longrightarrow> settings_ok segs c1 = settings_ok segs c \<and> test_enabled c1 = test_enabled c"
  "error_mode_key k keys c = Some (out, c1, rest) \<Longrightarrow> settings_ok segs c1 = settings_ok segs c \<and> test_enabled c1 = test_enabled c"
  "boot_options_key k keys c = Some (out, c1, rest) \<Longrightarrow> settings_ok segs c1 = settings_ok segs c \<and> test_enabled c1 = test_enabled c"
  by (auto simp: cpu_mode_key_def error_mode_key_def boot_options_key_def settings_ok_def split: if_splits)

lemma set_cpus_ok:
  "0 < a \<Longrightarrow> settings_ok segs c \<Longrightarrow> settings_ok segs (c\<lparr>cpu_state := set_cpus a b s (cpu_state c)\<rparr>)"
  using set_cpus_first [of a "cpu_state c" b s] by (simp add: settings_ok_def)

lemma set_cpu_ok:
  assumes "0 < i" "settings_ok segs c"
  shows "settings_ok segs (c\<lparr>cpu_state := (cpu_state c)[i := s]\<rparr>)"
proof -
  have "cpu_state c \<noteq> [] \<Longrightarrow> (cpu_state c)[i := s] \<noteq> [] \<and> hd ((cpu_state c)[i := s]) = hd (cpu_state c)"
    using assms(1) by (cases "cpu_state c"; cases i) auto
  then show ?thesis using assms(2) by (simp add: settings_ok_def)
qed

lemma note_enabled [simp]: "test_enabled (note_change (b, c)) = test_enabled c"
  by (simp add: note_change_def)

lemma cpu_selection_step:
  assumes "cpu_selection_key n k keys c = Some (out, c1, rest)" "settings_ok segs c"
  shows "settings_ok segs c1 \<and> test_enabled c1 = test_enabled c"
proof -
  have one: "settings_ok segs c2 \<and> test_enabled c2 = test_enabled c" if "add_or_remove_cpu n add keys c = Some ((b, c2), rest)" for add b c2
    using that assms(2) by (auto simp: add_or_remove_cpu_def valid_cpu_def intro: set_cpu_ok split: if_splits)
  have range: "settings_ok segs c2 \<and> test_enabled c2 = test_enabled c" if "add_cpu_range n keys c = Some ((b, c2), rest)" for b c2
    using that assms(2) by (auto simp: add_cpu_range_def valid_cpu_def intro!: set_cpus_ok split: if_splits option.splits)
  have ecores: "settings_ok segs (c\<lparr>exclude_ecores := e\<rparr>)" for e using assms(2) by (simp add: settings_ok_def)
  show ?thesis
    using assms one range ecores set_cpus_ok [of 1 segs c]
    unfolding cpu_selection_key_def by (auto simp: stay_Some set_all_cpus_def split: if_splits)
qed

definition menu_ok :: "pm_map_t list \<Rightarrow> config \<Rightarrow> bool" where
  "menu_ok segs c \<longleftrightarrow> settings_ok segs c \<and> True \<in> set (test_enabled c)"

lemma menus_ok:
  assumes "0 < pm_end (last segs)" "menu_ok segs c"
  shows "test_selection_menu keys c = Some (out, c1, rest) \<Longrightarrow> menu_ok segs c1"
    "address_range_menu segs keys c = Some (out, c1, rest) \<Longrightarrow> menu_ok segs c1"
    "cpu_mode_menu keys c = Some (out, c1, rest) \<Longrightarrow> menu_ok segs c1"
    "error_mode_menu keys c = Some (out, c1, rest) \<Longrightarrow> menu_ok segs c1"
    "boot_options_menu keys c = Some (out, c1, rest) \<Longrightarrow> menu_ok segs c1"
    "cpu_selection_menu n keys c = Some (out, c1, rest) \<Longrightarrow> menu_ok segs c1"
proof -
  have s: "settings_ok segs c" using assms(2) by (simp add: menu_ok_def)
  show "test_selection_menu keys c = Some (out, c1, rest) \<Longrightarrow> menu_ok segs c1"
    unfolding test_selection_menu_def menu_ok_def
    using menu_loop_exit [of test_selection_key keys c out c1 rest "settings_ok segs", OF _ s] test_selection_step test_selection_leaves
    by blast
  show "address_range_menu segs keys c = Some (out, c1, rest) \<Longrightarrow> menu_ok segs c1"
    unfolding address_range_menu_def
    using menu_loop_exit [of "address_range_key segs" keys c out c1 rest "menu_ok segs"] assms address_range_step
    unfolding menu_ok_def by metis
  show "cpu_mode_menu keys c = Some (out, c1, rest) \<Longrightarrow> menu_ok segs c1"
    unfolding cpu_mode_menu_def
    using menu_loop_exit [of cpu_mode_key keys c out c1 rest "menu_ok segs"] assms mode_steps(1)
    unfolding menu_ok_def by metis
  show "error_mode_menu keys c = Some (out, c1, rest) \<Longrightarrow> menu_ok segs c1"
    unfolding error_mode_menu_def
    using menu_loop_exit [of error_mode_key keys c out c1 rest "menu_ok segs"] assms mode_steps(2)
    unfolding menu_ok_def by metis
  show "boot_options_menu keys c = Some (out, c1, rest) \<Longrightarrow> menu_ok segs c1"
    unfolding boot_options_menu_def
    using menu_loop_exit [of boot_options_key keys c out c1 rest "menu_ok segs"] assms mode_steps(3)
    unfolding menu_ok_def by metis
  show "cpu_selection_menu n keys c = Some (out, c1, rest) \<Longrightarrow> menu_ok segs c1"
    unfolding cpu_selection_menu_def
    using menu_loop_exit [of "cpu_selection_key n" keys c out c1 rest "menu_ok segs"] assms cpu_selection_step
    unfolding menu_ok_def by metis
qed

definition keeps_ok :: "pm_map_t list \<Rightarrow> (outcome \<times> (config \<times> 'w) \<times> string) option \<Rightarrow> bool" where
  "keeps_ok segs r \<longleftrightarrow> (\<forall>out c1 rest. r = Some (out, c1, rest) \<longrightarrow> menu_ok segs (fst c1))"

lemma keeps_if: "keeps_ok segs a \<Longrightarrow> keeps_ok segs b \<Longrightarrow> keeps_ok segs (if p then a else b)"
  by simp

lemma keeps_Some: "menu_ok segs (fst c1) \<Longrightarrow> keeps_ok segs (Some (out, c1, rest))"
  unfolding keeps_ok_def by blast

lemma keeps_sub_menu:
  "(\<And>out c1 rest. m keys (fst c) = Some (out, c1, rest) \<Longrightarrow> menu_ok segs c1) \<Longrightarrow> keeps_ok segs (sub_menu m keys c)"
  by (auto simp: sub_menu_def keeps_ok_def)

lemma menu_ok_update [simp]:
  "menu_ok segs (c\<lparr>bail := e\<rparr>) = menu_ok segs c" "menu_ok segs (c\<lparr>enable_temp_cpu := e\<rparr>) = menu_ok segs c"
  "menu_ok segs (c\<lparr>enable_temp_ram := e\<rparr>) = menu_ok segs c" "menu_ok segs (c\<lparr>lang_cn := e\<rparr>) = menu_ok segs c"
  by (simp_all add: menu_ok_def settings_ok_def)

lemma config_step:
  assumes "config_key env initial k keys c = Some (out, c1, rest)" "0 < pm_end (last (segments env))" "menu_ok (segments env) (fst c)"
  shows "menu_ok (segments env) (fst c1)"
proof -
  note ok = menus_ok [OF assms(2,3)]
  have "keeps_ok (segments env) (config_key env initial k keys c)"
    unfolding config_key_def Let_def
    by (intro keeps_if keeps_sub_menu keeps_Some) (erule ok | simp add: assms(3))+
  then show ?thesis using assms(1) unfolding keeps_ok_def by blast
qed

lemma leave_ok: "menu_ok segs (leave_config m c) = menu_ok segs c"
  by (simp add: leave_config_def Let_def menu_ok_def settings_ok_def)

text \<open>
  C5: the menus keep the settings in order. Whatever keys are pressed, when the menu closes (also with a restart of the
  machine) the range of pages is not empty and its number of pages is up to date, the sequence holds each of the twelve
  tests once, at least one test is enabled, at least one pass is asked for and the boot processor is enabled, if it
  was so before.
\<close>

theorem config_menu_keeps_order:
  assumes "0 < pm_end (last (segments env))" "menu_ok (segments env) cfg"
    and "config_menu env initial keys (cfg, w) = Some (out, (cfg1, w1), rest)"
  shows "menu_ok (segments env) cfg1"
proof -
  obtain cfg2 where m: "menu_loop (config_key env initial) keys (cfg, w) = Some (out, (cfg2, w1), rest)"
      "cfg1 = (if out = Reboot then cfg2 else leave_config (cpu_mode cfg) cfg2)"
    using assms(3) by (auto simp: config_menu_def)
  have "menu_ok (segments env) (fst (cfg2, w1))"
    using menu_loop_exit [OF m(1), of "\<lambda>c. menu_ok (segments env) (fst c)"] assms(2) config_step [OF _ assms(1)] by fastforce
  then show ?thesis using m(2) leave_ok by simp
qed

definition demo_env :: "nat menu_env" where
  "demo_env = \<lparr>segments = [\<lparr>pm_start = 0, pm_end = 160\<rparr>], available_cpus = 2, drive_found = \<lambda>_. False,
     save_results = id, save_config = \<lambda>_ n. n + 1, delete_config = id\<rparr>"

definition demo_config :: config where
  "demo_config = default_config\<lparr>pm_limit_upper := 160, num_pages_to_test := 160\<rparr>"

definition demo_keys :: string where
  "demo_keys = ''16'' @ [newline] @ ''13'' @ ''5'' @ [newline] @ ''02'' @ ''164k'' @ [newline] @ ''0S0''"

theorem config_menu_keeps_order_witness:
  "menu_ok (segments demo_env) (fst (fst (snd (the (config_menu demo_env True demo_keys (demo_config, 0))))))"
proof -
  have r: "config_menu demo_env True demo_keys (demo_config, 0) \<noteq> None" by code_simp
  then obtain out cfg1 w1 rest where m: "config_menu demo_env True demo_keys (demo_config, 0) = Some (out, (cfg1, w1), rest)"
    by (metis option.exhaust prod_cases4 surj_pair)
  have "is_sequence [0, 1, 2, 3, 4, 5, 6, 7, 8, 9, 10, 11]"
    using sequence_permutation [of "[0, 1, 2, 3, 4, 5, 6, 7, 8, 9, 10, 11]"] by (simp add: is_sequence_def)
  then have "menu_ok (segments demo_env) demo_config"
    by (simp add: menu_ok_def settings_ok_def demo_env_def demo_config_def default_config_def segment_pages_def)
  then show ?thesis using config_menu_keeps_order [OF _ _ m] m by (simp add: demo_env_def)
qed

end
