(* ===== verification/Barrier.thy ===== *)
theory Barrier
  imports Prelude
begin

text \<open>
  The barrier on which the processors meet (\<open>lib/barrier.c\<close>), as the steps that a processor makes one at a time, in any
  interleaving with the others. A step has at most one access with which
  another processor can interfere. \<open>barrier_spin_wait\<close> blocks by reading its own
  waiting flag, \<open>barrier_halt_wait\<close> (of the x86 builds) by halting until an NMI arrives; the handler makes an NMI that
  comes between the decrement and the \<open>hlt\<close> skip the \<open>hlt\<close>, so that it stays pending from the decrement on.
\<close>

section \<open>Processors in a barrier\<close>

datatype pc =
    Outside          \<comment> \<open>not in the function\<close>
  | Set_Flag         \<comment> \<open>about to set its waiting flag\<close>
  | Count_Down       \<comment> \<open>about to decrement the count\<close>
  | Blocked          \<comment> \<open>in the spin loop, or halted\<close>
  | Reset_Count      \<comment> \<open>last one, about to set the count again\<close>
  | Own_Flag         \<comment> \<open>\<open>barrier_halt_wait\<close> only: about to clear its own flag\<close>
  | Wake nat         \<comment> \<open>the loop over the processors, at this one\<close>

record barrier_cfg =
  null_barrier :: bool
  num_threads :: int
  num_cpus :: nat
  halting :: bool

record barrier_state =
  count :: int
  waiting :: "nat \<Rightarrow> bool"
  nmi :: "nat \<Rightarrow> bool"
  pcs :: "nat \<Rightarrow> pc"
  passed :: "nat \<Rightarrow> nat"

definition barrier_reset :: "barrier_cfg \<Rightarrow> barrier_state \<Rightarrow> barrier_state" where
  "barrier_reset cfg s = s\<lparr>count := num_threads cfg, waiting := (\<lambda>cpu. if cpu < num_cpus cfg then False else waiting s cpu)\<rparr>"

definition goto :: "nat \<Rightarrow> pc \<Rightarrow> barrier_state \<Rightarrow> barrier_state" where
  "goto me p s = s\<lparr>pcs := (pcs s)(me := p)\<rparr>"

definition leave :: "nat \<Rightarrow> barrier_state \<Rightarrow> barrier_state" where
  "leave me s = s\<lparr>pcs := (pcs s)(me := Outside), passed := (passed s)(me := passed s me + 1)\<rparr>"

definition released :: "barrier_cfg \<Rightarrow> barrier_state \<Rightarrow> nat \<Rightarrow> bool" where
  "released cfg s t \<longleftrightarrow> (if halting cfg then nmi s t else \<not> waiting s t)"

text \<open>The body of the loop that wakes the others.\<close>

definition wake_cpu :: "barrier_cfg \<Rightarrow> nat \<Rightarrow> barrier_state \<Rightarrow> barrier_state" where
  "wake_cpu cfg i s =
     (if \<not> halting cfg then s\<lparr>waiting := (waiting s)(i := False)\<rparr>
      else if waiting s i then s\<lparr>waiting := (waiting s)(i := False), nmi := (nmi s)(i := True)\<rparr>
      else s)"

definition cpu_step :: "barrier_cfg \<Rightarrow> nat \<Rightarrow> barrier_state \<Rightarrow> barrier_state" where
  "cpu_step cfg me s =
     (case pcs s me of
        Outside \<Rightarrow> if null_barrier cfg \<or> num_threads cfg < 2 then leave me s else goto me Set_Flag s
      | Set_Flag \<Rightarrow> goto me Count_Down (s\<lparr>waiting := (waiting s)(me := True)\<rparr>)
      | Count_Down \<Rightarrow>
          (let s1 = s\<lparr>count := count s - 1\<rparr> in if count s1 \<noteq> 0 then goto me Blocked s1 else goto me Reset_Count s1)
      | Blocked \<Rightarrow> if released cfg s me then leave me (if halting cfg then s\<lparr>nmi := (nmi s)(me := False)\<rparr> else s) else s
      | Reset_Count \<Rightarrow> goto me (if halting cfg then Own_Flag else Wake 0) (s\<lparr>count := num_threads cfg\<rparr>)
      | Own_Flag \<Rightarrow> goto me (Wake 0) (s\<lparr>waiting := (waiting s)(me := False)\<rparr>)
      | Wake i \<Rightarrow> if i < num_cpus cfg then goto me (Wake (i + 1)) (wake_cpu cfg i s) else leave me s)"

text \<open>The participants \<open>T\<close> step in any order, from the state after \<open>barrier_reset\<close> with all of them outside.\<close>

definition all_outside :: barrier_state where
  "all_outside = \<lparr>count = 0, waiting = \<lambda>_. False, nmi = \<lambda>_. False, pcs = \<lambda>_. Outside, passed = \<lambda>_. 0\<rparr>"

inductive barrier_run :: "barrier_cfg \<Rightarrow> nat set \<Rightarrow> barrier_state \<Rightarrow> bool" for cfg T where
  init: "barrier_run cfg T (barrier_reset cfg all_outside)"
| move: "barrier_run cfg T s \<Longrightarrow> me \<in> T \<Longrightarrow> barrier_run cfg T (cpu_step cfg me s)"

text \<open>How often a processor has counted down.\<close>

fun counted :: "pc \<Rightarrow> bool" where
  "counted Outside = False" | "counted Set_Flag = False" | "counted Count_Down = False"
| "counted Blocked = True" | "counted Reset_Count = True" | "counted Own_Flag = True" | "counted (Wake i) = True"

definition arrived :: "barrier_state \<Rightarrow> nat \<Rightarrow> nat" where
  "arrived s t = passed s t + (if counted (pcs s t) then 1 else 0)"

section \<open>The invariant\<close>

text \<open>\<open>to_wake p t\<close>: a processor at \<open>p\<close> still has to wake \<open>t\<close>.\<close>

fun to_wake :: "pc \<Rightarrow> nat \<Rightarrow> bool" where
  "to_wake Reset_Count t = True" | "to_wake Own_Flag t = True" | "to_wake (Wake i) t = (i \<le> t)"
| "to_wake Outside t = False" | "to_wake Set_Flag t = False" | "to_wake Count_Down t = False" | "to_wake Blocked t = False"

fun waking :: "pc \<Rightarrow> bool" where
  "waking Reset_Count = True" | "waking Own_Flag = True" | "waking (Wake i) = True"
| "waking Outside = False" | "waking Set_Flag = False" | "waking Count_Down = False" | "waking Blocked = False"

definition held :: "barrier_cfg \<Rightarrow> barrier_state \<Rightarrow> nat \<Rightarrow> bool" where
  "held cfg s t \<longleftrightarrow> waiting s t \<and> \<not> (halting cfg \<and> nmi s t)"

definition good_cfg :: "barrier_cfg \<Rightarrow> nat set \<Rightarrow> bool" where
  "good_cfg cfg T \<longleftrightarrow> \<not> null_barrier cfg \<and> T \<subseteq> {..<num_cpus cfg} \<and> num_threads cfg = int (card T) \<and> 2 \<le> card T"

text \<open>In round \<open>r\<close> every participant has counted down \<open>r\<close> or \<open>r + 1\<close> times.\<close>

definition in_round :: "barrier_cfg \<Rightarrow> nat set \<Rightarrow> nat \<Rightarrow> barrier_state \<Rightarrow> bool" where
  "in_round cfg T r s \<longleftrightarrow>
     (\<forall>t \<in> T. arrived s t = r \<or> (arrived s t = r + 1 \<and> pcs s t = Blocked \<and> held cfg s t))"

definition pcs_ok :: "barrier_cfg \<Rightarrow> nat set \<Rightarrow> barrier_state \<Rightarrow> bool" where
  "pcs_ok cfg T s \<longleftrightarrow>
     (\<forall>t \<in> T. (pcs s t = Count_Down \<longrightarrow> held cfg s t) \<and>
        (pcs s t \<noteq> Blocked \<longrightarrow> \<not> (halting cfg \<and> nmi s t)) \<and>
        (\<forall>i. halting cfg \<and> pcs s t = Wake i \<longrightarrow> \<not> waiting s t) \<and>
        (pcs s t = Own_Flag \<longrightarrow> halting cfg))"

definition one_waker :: "nat set \<Rightarrow> barrier_state \<Rightarrow> bool" where
  "one_waker T s \<longleftrightarrow> (\<forall>l \<in> T. \<forall>m \<in> T. waking (pcs s l) \<and> waking (pcs s m) \<longrightarrow> l = m)"

definition sleepers_ok :: "barrier_cfg \<Rightarrow> nat set \<Rightarrow> nat \<Rightarrow> barrier_state \<Rightarrow> bool" where
  "sleepers_ok cfg T r s \<longleftrightarrow>
     (\<forall>l \<in> T. \<forall>t \<in> T. t \<noteq> l \<and> to_wake (pcs s l) t \<longrightarrow> arrived s t = r \<and> pcs s t = Blocked \<and> held cfg s t) \<and>
     (\<forall>t \<in> T. pcs s t = Blocked \<and> arrived s t = r \<longrightarrow> released cfg s t \<or> (\<exists>l \<in> T. l \<noteq> t \<and> to_wake (pcs s l) t))"

definition count_ok :: "nat set \<Rightarrow> nat \<Rightarrow> barrier_state \<Rightarrow> bool" where
  "count_ok T r s \<longleftrightarrow> count s = (if \<exists>l \<in> T. pcs s l = Reset_Count then 0 else int (card {t \<in> T. arrived s t = r}))"

definition barrier_inv :: "barrier_cfg \<Rightarrow> nat set \<Rightarrow> nat \<Rightarrow> barrier_state \<Rightarrow> bool" where
  "barrier_inv cfg T r s \<longleftrightarrow> in_round cfg T r s \<and> pcs_ok cfg T s \<and> one_waker T s \<and> sleepers_ok cfg T r s \<and> count_ok T r s \<and>
    (\<exists>t \<in> T. arrived s t = r)"

lemmas inv_defs = in_round_def pcs_ok_def one_waker_def sleepers_ok_def count_ok_def
lemmas step_defs = cpu_step_def goto_def leave_def wake_cpu_def Let_def

lemma arrived_goto: "arrived (goto me p s) t = (if t = me then passed s me + (if counted p then 1 else 0) else arrived s t)"
  by (simp add: arrived_def goto_def)

lemma arrived_leave: "arrived (leave me s) t = (if t = me then passed s me + 1 else arrived s t)"
  by (simp add: arrived_def leave_def)

lemma arrived_fields [simp]:
  "arrived (s\<lparr>waiting := w\<rparr>) t = arrived s t" "arrived (s\<lparr>nmi := n\<rparr>) t = arrived s t" "arrived (s\<lparr>count := c\<rparr>) t = arrived s t"
  by (simp_all add: arrived_def)

lemma held_fields [simp]:
  "held cfg (s\<lparr>count := c\<rparr>) t = held cfg s t" "held cfg (goto me p s) t = held cfg s t" "held cfg (leave me s) t = held cfg s t"
  "released cfg (s\<lparr>count := c\<rparr>) t = released cfg s t" "released cfg (goto me p s) t = released cfg s t" "released cfg (leave me s) t = released cfg s t"
  by (simp_all add: held_def released_def goto_def leave_def)

lemma goto_fields [simp]:
  "pcs (goto me p s) = (pcs s)(me := p)" "waiting (goto me p s) = waiting s" "nmi (goto me p s) = nmi s" "count (goto me p s) = count s"
  "pcs (leave me s) = (pcs s)(me := Outside)" "waiting (leave me s) = waiting s" "nmi (leave me s) = nmi s" "count (leave me s) = count s"
  by (simp_all add: goto_def leave_def)

lemma held_not_released: "held cfg s t \<Longrightarrow> \<not> released cfg s t"
  by (auto simp: held_def released_def)

section \<open>Each step keeps the invariant\<close>

lemma invE:
  assumes "barrier_inv cfg T r s"
  shows "t \<in> T \<Longrightarrow> arrived s t = r \<or> (arrived s t = r + 1 \<and> pcs s t = Blocked \<and> held cfg s t)"
    "t \<in> T \<Longrightarrow> pcs s t = Count_Down \<Longrightarrow> held cfg s t"
    "t \<in> T \<Longrightarrow> pcs s t \<noteq> Blocked \<Longrightarrow> \<not> (halting cfg \<and> nmi s t)"
    "t \<in> T \<Longrightarrow> halting cfg \<Longrightarrow> pcs s t = Wake i \<Longrightarrow> \<not> waiting s t"
    "l \<in> T \<Longrightarrow> m \<in> T \<Longrightarrow> waking (pcs s l) \<Longrightarrow> waking (pcs s m) \<Longrightarrow> l = m"
    "l \<in> T \<Longrightarrow> t \<in> T \<Longrightarrow> t \<noteq> l \<Longrightarrow> to_wake (pcs s l) t \<Longrightarrow> arrived s t = r \<and> pcs s t = Blocked \<and> held cfg s t"
    "t \<in> T \<Longrightarrow> pcs s t = Blocked \<Longrightarrow> arrived s t = r \<Longrightarrow> released cfg s t \<or> (\<exists>l \<in> T. l \<noteq> t \<and> to_wake (pcs s l) t)"
    "count s = (if \<exists>l \<in> T. pcs s l = Reset_Count then 0 else int (card {t \<in> T. arrived s t = r}))"
  using assms unfolding barrier_inv_def inv_defs by blast+

lemma waking_arrived: "barrier_inv cfg T r s \<Longrightarrow> l \<in> T \<Longrightarrow> waking (pcs s l) \<Longrightarrow> arrived s l = r"
  using invE(1) by fastforce

lemma invI:
  assumes "\<And>t. t \<in> T \<Longrightarrow> arrived s t = r \<or> (arrived s t = r + 1 \<and> pcs s t = Blocked \<and> held cfg s t)"
    and "\<And>t. t \<in> T \<Longrightarrow> pcs s t = Count_Down \<Longrightarrow> held cfg s t"
    and "\<And>t. t \<in> T \<Longrightarrow> pcs s t \<noteq> Blocked \<Longrightarrow> halting cfg \<Longrightarrow> \<not> nmi s t"
    and "\<And>t i. t \<in> T \<Longrightarrow> halting cfg \<Longrightarrow> pcs s t = Wake i \<Longrightarrow> \<not> waiting s t"
    and "\<And>l m. l \<in> T \<Longrightarrow> m \<in> T \<Longrightarrow> waking (pcs s l) \<Longrightarrow> waking (pcs s m) \<Longrightarrow> l = m"
    and "\<And>l t. l \<in> T \<Longrightarrow> t \<in> T \<Longrightarrow> t \<noteq> l \<Longrightarrow> to_wake (pcs s l) t \<Longrightarrow> arrived s t = r \<and> pcs s t = Blocked \<and> held cfg s t"
    and "\<And>t. t \<in> T \<Longrightarrow> pcs s t = Blocked \<Longrightarrow> arrived s t = r \<Longrightarrow> \<not> released cfg s t \<Longrightarrow> \<exists>l \<in> T. l \<noteq> t \<and> to_wake (pcs s l) t"
    and "count s = (if \<exists>l \<in> T. pcs s l = Reset_Count then 0 else int (card {t \<in> T. arrived s t = r}))"
    and "\<And>t. t \<in> T \<Longrightarrow> pcs s t = Own_Flag \<Longrightarrow> halting cfg"
    and "u \<in> T" "arrived s u = r"
  shows "barrier_inv cfg T r s"
proof -
  have "in_round cfg T r s" using assms(1) unfolding in_round_def by blast
  moreover have "pcs_ok cfg T s" using assms(2-4,9) unfolding pcs_ok_def by blast
  moreover have "one_waker T s" using assms(5) unfolding one_waker_def by blast
  moreover have "sleepers_ok cfg T r s" using assms(6,7) unfolding sleepers_ok_def by blast
  moreover have "count_ok T r s" using assms(8) unfolding count_ok_def .
  ultimately show ?thesis using assms(10,11) unfolding barrier_inv_def by blast
qed

lemma own_flag: "barrier_inv cfg T r s \<Longrightarrow> t \<in> T \<Longrightarrow> pcs s t = Own_Flag \<Longrightarrow> halting cfg"
  unfolding barrier_inv_def pcs_ok_def by blast

text \<open>
  A step of \<open>me\<close> from \<open>s\<close> to \<open>s1\<close> that counts for nobody and after which \<open>me\<close> is neither blocked nor has less to wake:
  what is left to check is what concerns \<open>me\<close> itself.
\<close>

lemma quiet_step:
  assumes inv: "barrier_inv cfg T r s" and me: "me \<in> T" "pcs s me = Blocked \<Longrightarrow> released cfg s me"
    and arr: "\<And>t. arrived s1 t = arrived s t"
    and pc: "\<And>t. t \<noteq> me \<Longrightarrow> pcs s1 t = pcs s t"
    and mem: "\<And>t. t \<noteq> me \<Longrightarrow> waiting s1 t = waiting s t \<and> nmi s1 t = nmi s t"
    and wake: "\<And>t. t \<in> T \<Longrightarrow> to_wake (pcs s1 me) t = to_wake (pcs s me) t" "waking (pcs s1 me) \<Longrightarrow> waking (pcs s me)"
    and now: "pcs s1 me \<noteq> Blocked" "halting cfg \<Longrightarrow> \<not> nmi s1 me" "pcs s1 me = Count_Down \<Longrightarrow> waiting s1 me"
      "\<And>i. pcs s1 me = Wake i \<Longrightarrow> halting cfg \<Longrightarrow> \<not> waiting s1 me" "pcs s1 me = Own_Flag \<Longrightarrow> halting cfg"
    and cnt: "count s1 = (if \<exists>l \<in> T. pcs s1 l = Reset_Count then 0 else int (card {t \<in> T. arrived s t = r}))"
  shows "barrier_inv cfg T r s1"
proof -
  have held: "held cfg s1 t = held cfg s t" "released cfg s1 t = released cfg s t" if "t \<noteq> me" for t
    using mem [OF that] by (simp_all add: held_def released_def)
  have tow: "to_wake (pcs s1 l) t = to_wake (pcs s l) t" if "t \<in> T" for l t using pc [of l] wake(1) [OF that] by (cases "l = me") simp_all
  have awake: "arrived s me = r" "\<And>l. l \<in> T \<Longrightarrow> l \<noteq> me \<Longrightarrow> \<not> to_wake (pcs s l) me"
    using invE(1) [OF inv me(1)] invE(6) [OF inv _ me(1)] me(2) held_not_released by blast+
  show ?thesis
  proof (rule invI)
    show "arrived s1 t = r \<or> (arrived s1 t = r + 1 \<and> pcs s1 t = Blocked \<and> held cfg s1 t)" if "t \<in> T" for t
      using invE(1) [OF inv that] awake(1) arr [of t] pc [of t] held(1) [of t] by (cases "t = me") simp_all
    show "held cfg s1 t" if "t \<in> T" "pcs s1 t = Count_Down" for t
      using invE(2) [OF inv that(1)] that pc [of t] held(1) [of t] now(2,3) by (cases "t = me") (simp_all add: held_def)
    show "\<not> nmi s1 t" if "t \<in> T" "pcs s1 t \<noteq> Blocked" "halting cfg" for t
      using invE(3) [OF inv that(1)] that pc [of t] mem [of t] now(2) by (cases "t = me") simp_all
    show "\<not> waiting s1 t" if "t \<in> T" "halting cfg" "pcs s1 t = Wake i" for t i
      using invE(4) [OF inv that(1,2)] that pc [of t] mem [of t] now(4) by (cases "t = me") simp_all
    show "l = m" if "l \<in> T" "m \<in> T" "waking (pcs s1 l)" "waking (pcs s1 m)" for l m
      using invE(5) [OF inv that(1,2)] that(3,4) pc [of l] pc [of m] wake(2) by (cases "l = me"; cases "m = me") simp_all
    show "arrived s1 t = r \<and> pcs s1 t = Blocked \<and> held cfg s1 t" if "l \<in> T" "t \<in> T" "t \<noteq> l" "to_wake (pcs s1 l) t" for l t
      using invE(6) [OF inv that(1-3)] that(1,3,4) tow [OF that(2), of l] awake(2) [of l] arr [of t] pc [of t] held(1) [of t]
      by (cases "t = me") simp_all
    show "\<exists>l \<in> T. l \<noteq> t \<and> to_wake (pcs s1 l) t" if "t \<in> T" "pcs s1 t = Blocked" "arrived s1 t = r" "\<not> released cfg s1 t" for t
      using invE(7) [OF inv that(1)] that arr [of t] pc [of t] held(2) [of t] tow [OF that(1)] now(1) by (cases "t = me") simp_all
    show "count s1 = (if \<exists>l \<in> T. pcs s1 l = Reset_Count then 0 else int (card {t \<in> T. arrived s1 t = r}))"
      using cnt arr by simp
    show "halting cfg" if "t \<in> T" "pcs s1 t = Own_Flag" for t
      using own_flag [OF inv that(1)] that(2) pc [of t] now(5) by (cases "t = me") simp_all
    show "me \<in> T" "arrived s1 me = r" using me(1) awake(1) arr by simp_all
  qed
qed

lemma not_reset:
  assumes "barrier_inv cfg T r s" "me \<in> T" "pcs s me \<noteq> Blocked" "\<not> waking (pcs s me)" "l \<in> T"
  shows "pcs s l \<noteq> Reset_Count"
  using invE(6) [OF assms(1) assms(5,2)] assms(3,4) by fastforce

lemma count_here:
  assumes "barrier_inv cfg T r s" "\<And>l. l \<in> T \<Longrightarrow> pcs s l \<noteq> Reset_Count"
  shows "count s = int (card {t \<in> T. arrived s t = r})"
  using invE(8) [OF assms(1)] assms(2) by auto

lemma step_quiet:
  assumes inv: "barrier_inv cfg T r s" and me: "me \<in> T" and cfg: "good_cfg cfg T"
    and pc: "pcs s me = Outside \<or> pcs s me = Set_Flag \<or> (pcs s me = Blocked \<and> released cfg s me) \<or> pcs s me = Own_Flag \<or>
      (\<exists>i. pcs s me = Wake i \<and> num_cpus cfg \<le> i)"
  shows "barrier_inv cfg T r (cpu_step cfg me s)"
proof (rule quiet_step [OF inv me])
  let ?s1 = "cpu_step cfg me s"
  have n: "\<not> (null_barrier cfg \<or> num_threads cfg < 2)" using cfg by (simp add: good_cfg_def)
  have below: "t < num_cpus cfg" if "t \<in> T" for t using cfg that by (auto simp: good_cfg_def)
  show "pcs s me = Blocked \<Longrightarrow> released cfg s me" using pc by auto
  show a: "arrived ?s1 t = arrived s t" for t
    using pc n by (cases "t = me") (auto simp: cpu_step_def arrived_def goto_def leave_def Let_def)
  show "pcs ?s1 t = pcs s t" if "t \<noteq> me" for t using pc n that by (auto simp: cpu_step_def Let_def)
  show "waiting ?s1 t = waiting s t \<and> nmi ?s1 t = nmi s t" if "t \<noteq> me" for t
    using pc n that by (auto simp: cpu_step_def Let_def)
  show "to_wake (pcs ?s1 me) t = to_wake (pcs s me) t" if "t \<in> T" for t
    using pc n below [OF that] by (auto simp: cpu_step_def Let_def)
  show "waking (pcs ?s1 me) \<Longrightarrow> waking (pcs s me)" using pc n by (auto simp: cpu_step_def Let_def)
  show "pcs ?s1 me \<noteq> Blocked" using pc n by (auto simp: cpu_step_def Let_def)
  show "halting cfg \<Longrightarrow> \<not> nmi ?s1 me" using pc n invE(3) [OF inv me] by (auto simp: cpu_step_def Let_def)
  show "pcs ?s1 me = Count_Down \<Longrightarrow> waiting ?s1 me" using pc n by (auto simp: cpu_step_def Let_def)
  show "pcs ?s1 me = Wake i \<Longrightarrow> halting cfg \<Longrightarrow> \<not> waiting ?s1 me" for i using pc n by (auto simp: cpu_step_def Let_def)
  show "pcs ?s1 me = Own_Flag \<Longrightarrow> halting cfg" using pc n by (auto simp: cpu_step_def Let_def)
  have "(pcs ?s1 l = Reset_Count) = (pcs s l = Reset_Count)" for l
    using pc n by (cases "l = me") (auto simp: cpu_step_def Let_def)
  moreover have "count ?s1 = count s" using pc n by (auto simp: cpu_step_def Let_def)
  ultimately show "count ?s1 = (if \<exists>l \<in> T. pcs ?s1 l = Reset_Count then 0 else int (card {t \<in> T. arrived s t = r}))"
    using invE(8) [OF inv] by simp
qed

lemma step_reset_count:
  assumes inv: "barrier_inv cfg T r s" and me: "me \<in> T" and cfg: "good_cfg cfg T" and pc: "pcs s me = Reset_Count"
  shows "barrier_inv cfg T r (cpu_step cfg me s)"
proof (rule quiet_step [OF inv me])
  let ?s1 = "cpu_step cfg me s"
  show "arrived ?s1 t = arrived s t" for t using pc by (simp add: cpu_step_def arrived_def goto_def)
  have "arrived s t = r" if "t \<in> T" for t
    using invE(6) [OF inv me that] waking_arrived [OF inv me] pc by (cases "t = me") simp_all
  then have all: "{t \<in> T. arrived s t = r} = T" by blast
  have "pcs ?s1 l \<noteq> Reset_Count" if "l \<in> T" for l
    using invE(5) [OF inv that me] pc by (cases "l = me") (auto simp: cpu_step_def)
  then show "count ?s1 = (if \<exists>l \<in> T. pcs ?s1 l = Reset_Count then 0 else int (card {t \<in> T. arrived s t = r}))"
    using all cfg pc by (auto simp: cpu_step_def good_cfg_def)
qed (use pc invE(3,4) [OF inv me] in \<open>auto simp: cpu_step_def held_def split: if_splits\<close>)


lemma step_wake:
  assumes inv: "barrier_inv cfg T r s" and me: "me \<in> T" and pc: "pcs s me = Wake i" "i < num_cpus cfg"
  shows "barrier_inv cfg T r (cpu_step cfg me s)"
proof -
  let ?s1 = "cpu_step cfg me s"
  have s1: "?s1 = goto me (Wake (i + 1)) (wake_cpu cfg i s)" using pc by (simp add: cpu_step_def)
  have p: "pcs ?s1 t = (if t = me then Wake (i + 1) else pcs s t)" for t by (simp add: s1 wake_cpu_def)
  have a: "arrived ?s1 t = arrived s t" for t using pc(1) by (cases "t = me") (simp_all add: s1 arrived_def goto_def wake_cpu_def)
  have mem: "waiting ?s1 t = waiting s t" "nmi ?s1 t = nmi s t" if "t \<noteq> i" for t using that by (simp_all add: s1 wake_cpu_def)
  have held: "held cfg ?s1 t = held cfg s t" "released cfg ?s1 t = released cfg s t" if "t \<noteq> i" for t
    using mem [OF that] by (simp_all add: held_def released_def)
  have woken: "released cfg ?s1 i" if "held cfg s i" using that by (simp add: s1 wake_cpu_def released_def held_def goto_def)
  have mine: "halting cfg \<Longrightarrow> waiting ?s1 me = waiting s me \<and> nmi ?s1 me = nmi s me"
    using invE(4) [OF inv me _ pc(1)] by (auto simp: s1 wake_cpu_def)
  have target: "arrived s i = r \<and> pcs s i = Blocked \<and> held cfg s i" if "i \<in> T" "i \<noteq> me"
    using invE(6) [OF inv me that] pc(1) by simp
  have here: "arrived s me = r" using waking_arrived [OF inv me] pc(1) by simp
  show ?thesis
  proof (rule invI)
    show "arrived ?s1 t = r \<or> (arrived ?s1 t = r + 1 \<and> pcs ?s1 t = Blocked \<and> held cfg ?s1 t)" if "t \<in> T" for t
      using invE(1) [OF inv that] here target that a [of t] p [of t] held(1) [of t] by (cases "t = me"; cases "t = i") auto
    show "held cfg ?s1 t" if "t \<in> T" "pcs ?s1 t = Count_Down" for t
      using invE(2) [OF inv that(1)] that target p [of t] held(1) [of t] by (cases "t = me"; cases "t = i") auto
    show "\<not> nmi ?s1 t" if "t \<in> T" "pcs ?s1 t \<noteq> Blocked" "halting cfg" for t
      using invE(3) [OF inv that(1)] that target p [of t] mem [of t] mine pc(1) by (cases "t = me"; cases "t = i") auto
    show "\<not> waiting ?s1 t" if "t \<in> T" "halting cfg" "pcs ?s1 t = Wake j" for t j
      using invE(4) [OF inv that(1,2)] that target p [of t] mem [of t] mine pc(1) by (cases "t = me"; cases "t = i") auto
    show "l = m" if "l \<in> T" "m \<in> T" "waking (pcs ?s1 l)" "waking (pcs ?s1 m)" for l m
      using invE(5) [OF inv that(1,2)] that(3,4) p [of l] p [of m] pc(1) by (cases "l = me"; cases "m = me") auto
    show "arrived ?s1 t = r \<and> pcs ?s1 t = Blocked \<and> held cfg ?s1 t" if "l \<in> T" "t \<in> T" "t \<noteq> l" "to_wake (pcs ?s1 l) t" for l t
    proof -
      have l: "l = me" using invE(5) [OF inv that(1) me] that(4) p [of l] pc(1) by (cases "l = me"; cases "pcs s l") auto
      then show ?thesis using invE(6) [OF inv me that(2)] that p [of me] p [of t] pc(1) a [of t] held(1) [of t] by auto
    qed
    show "\<exists>l \<in> T. l \<noteq> t \<and> to_wake (pcs ?s1 l) t" if t: "t \<in> T" "pcs ?s1 t = Blocked" "arrived ?s1 t = r" "\<not> released cfg ?s1 t" for t
    proof -
      have ti: "t \<noteq> me" using t(2) p [of t] by auto
      then have "t \<noteq> i" using woken target t(1,4) by blast
      then obtain l where l: "l \<in> T" "l \<noteq> t" "to_wake (pcs s l) t"
        using invE(7) [OF inv t(1)] t p [of t] a [of t] held(2) [of t] ti by auto
      then have "to_wake (pcs ?s1 l) t" using p [of l] pc(1) \<open>t \<noteq> i\<close> by (cases "l = me") auto
      then show ?thesis using l by blast
    qed
    have "(pcs ?s1 l = Reset_Count) = (pcs s l = Reset_Count)" for l using p [of l] pc(1) by (cases "l = me") auto
    moreover have "count ?s1 = count s" by (simp add: s1 wake_cpu_def)
    ultimately show "count ?s1 = (if \<exists>l \<in> T. pcs ?s1 l = Reset_Count then 0 else int (card {t \<in> T. arrived ?s1 t = r}))"
      using invE(8) [OF inv] a by simp
    show "halting cfg" if "t \<in> T" "pcs ?s1 t = Own_Flag" for t
      using own_flag [OF inv that(1)] that(2) p [of t] by (cases "t = me") auto
    show "me \<in> T" "arrived ?s1 me = r" using me here a by simp_all
  qed
qed

lemma step_count_down:
  assumes inv: "barrier_inv cfg T r s" and me: "me \<in> T" and fin: "finite T" and pc: "pcs s me = Count_Down"
  shows "\<exists>r1. barrier_inv cfg T r1 (cpu_step cfg me s)"
proof -
  let ?s1 = "cpu_step cfg me s" and ?R = "{t \<in> T. arrived s t = r}"
  have nr: "pcs s l \<noteq> Reset_Count" if "l \<in> T" for l using not_reset [OF inv me _ _ that] pc by simp
  have c: "count s = int (card ?R)" using count_here [OF inv] nr by blast
  have here: "arrived s me = r" "passed s me = r" using invE(1) [OF inv me] pc by (auto simp: arrived_def)
  have fR: "finite ?R" "me \<in> ?R" using fin me here by auto
  have p: "pcs ?s1 t = (if t = me then if count s = 1 then Reset_Count else Blocked else pcs s t)" for t
    using pc by (simp add: cpu_step_def Let_def)
  have a: "arrived ?s1 t = (if t = me then r + 1 else arrived s t)" for t
    using pc here by (simp add: cpu_step_def Let_def arrived_def goto_def)
  have held: "held cfg ?s1 t = held cfg s t" "released cfg ?s1 t = released cfg s t" "waiting ?s1 t = waiting s t" "nmi ?s1 t = nmi s t" for t
    using pc by (simp_all add: cpu_step_def Let_def)
  have cnt: "count ?s1 = count s - 1" using pc by (simp add: cpu_step_def Let_def)
  have nw: "\<not> to_wake (pcs s l) me" if "l \<in> T" for l using invE(6) [OF inv that me] pc by (cases "l = me") auto
  have hm: "held cfg s me" using invE(2) [OF inv me pc] .
  show ?thesis
  proof (cases "count s = 1")
    case False
    have R1: "{t \<in> T. arrived ?s1 t = r} = ?R - {me}" using a by auto
    have c1: "int (card (?R - {me})) = count s - 1" using fR c card_gt_0_iff [of ?R] by (auto simp: of_nat_diff)
    have "?R - {me} \<noteq> {}" using c1 False by force
    then obtain u where u: "u \<in> T" "arrived s u = r" "u \<noteq> me" by blast
    have "barrier_inv cfg T r ?s1"
    proof (rule invI)
      show "arrived ?s1 t = r \<or> (arrived ?s1 t = r + 1 \<and> pcs ?s1 t = Blocked \<and> held cfg ?s1 t)" if "t \<in> T" for t
        using invE(1) [OF inv that] a [of t] p [of t] held(1) [of t] hm False by auto
      show "held cfg ?s1 t" if "t \<in> T" "pcs ?s1 t = Count_Down" for t
        using invE(2) [OF inv that(1)] that p [of t] held(1) [of t] hm by (cases "t = me") auto
      show "\<not> nmi ?s1 t" if "t \<in> T" "pcs ?s1 t \<noteq> Blocked" "halting cfg" for t
        using invE(3) [OF inv that(1)] that p [of t] held(4) [of t] False by (cases "t = me") auto
      show "\<not> waiting ?s1 t" if "t \<in> T" "halting cfg" "pcs ?s1 t = Wake j" for t j
        using invE(4) [OF inv that(1,2)] that p [of t] held(3) [of t] False by (auto split: if_splits)
      show "l = m" if "l \<in> T" "m \<in> T" "waking (pcs ?s1 l)" "waking (pcs ?s1 m)" for l m
        using invE(5) [OF inv that(1,2)] that(3,4) p [of l] p [of m] False by (auto split: if_splits)
      show "arrived ?s1 t = r \<and> pcs ?s1 t = Blocked \<and> held cfg ?s1 t" if "l \<in> T" "t \<in> T" "t \<noteq> l" "to_wake (pcs ?s1 l) t" for l t
        using invE(6) [OF inv that(1-3)] nw [OF that(1)] that p [of l] p [of t] a [of t] held(1) [of t] False by (auto split: if_splits)
      show "\<exists>l \<in> T. l \<noteq> t \<and> to_wake (pcs ?s1 l) t" if t: "t \<in> T" "pcs ?s1 t = Blocked" "arrived ?s1 t = r" "\<not> released cfg ?s1 t" for t
      proof -
        have tm: "t \<noteq> me" using t(3) a [of t] by auto
        then obtain l where l: "l \<in> T" "l \<noteq> t" "to_wake (pcs s l) t"
          using invE(7) [OF inv t(1)] t p [of t] a [of t] held(2) [of t] by auto
        then have "l \<noteq> me" using pc by auto
        then show ?thesis using l p [of l] by auto
      qed
      have "pcs ?s1 l \<noteq> Reset_Count" if "l \<in> T" for l using p [of l] nr [OF that] False by simp
      then show "count ?s1 = (if \<exists>l \<in> T. pcs ?s1 l = Reset_Count then 0 else int (card {t \<in> T. arrived ?s1 t = r}))"
        using cnt c1 R1 by simp
      show "halting cfg" if "t \<in> T" "pcs ?s1 t = Own_Flag" for t
        using own_flag [OF inv that(1)] that(2) p [of t] False by (auto split: if_splits)
      show "u \<in> T" "arrived ?s1 u = r" using u a by simp_all
    qed
    then show ?thesis ..
  next
    case True
    then have "card ?R = 1" using c by simp
    then have R: "?R = {me}" using fR card_1_singletonE by (metis (no_types, lifting) singletonD)
    have other: "arrived s t = r + 1 \<and> pcs s t = Blocked \<and> held cfg s t" if "t \<in> T" "t \<noteq> me" for t
      using invE(1) [OF inv that(1)] R that by auto
    have "barrier_inv cfg T (r + 1) ?s1"
    proof (rule invI)
      show "arrived ?s1 t = r + 1 \<or> (arrived ?s1 t = r + 1 + 1 \<and> pcs ?s1 t = Blocked \<and> held cfg ?s1 t)" if "t \<in> T" for t
        using other [OF that] a [of t] by (cases "t = me") auto
      show "held cfg ?s1 t" if "t \<in> T" "pcs ?s1 t = Count_Down" for t
        using other [OF that(1)] that p [of t] True by (cases "t = me") auto
      show "\<not> nmi ?s1 t" if "t \<in> T" "pcs ?s1 t \<noteq> Blocked" "halting cfg" for t
        using other [OF that(1)] that p [of t] held(4) [of t] hm by (cases "t = me") (auto simp: held_def)
      show "\<not> waiting ?s1 t" if "t \<in> T" "halting cfg" "pcs ?s1 t = Wake j" for t j
        using other [OF that(1)] that p [of t] True by (cases "t = me") auto
      show "l = m" if "l \<in> T" "m \<in> T" "waking (pcs ?s1 l)" "waking (pcs ?s1 m)" for l m
        using other that p [of l] p [of m] True by (cases "l = me"; cases "m = me") auto
      show "arrived ?s1 t = r + 1 \<and> pcs ?s1 t = Blocked \<and> held cfg ?s1 t" if "l \<in> T" "t \<in> T" "t \<noteq> l" "to_wake (pcs ?s1 l) t" for l t
        using other [OF that(1)] other [OF that(2)] that p [of l] p [of t] a [of t] held(1) [of t] True by (cases "t = me"; cases "l = me") auto
      show "\<exists>l \<in> T. l \<noteq> t \<and> to_wake (pcs ?s1 l) t" if t: "t \<in> T" "pcs ?s1 t = Blocked" "arrived ?s1 t = r + 1" "\<not> released cfg ?s1 t" for t
        using me t p [of t] p [of me] True by (intro bexI [of _ me]) auto
      show "count ?s1 = (if \<exists>l \<in> T. pcs ?s1 l = Reset_Count then 0 else int (card {t \<in> T. arrived ?s1 t = r + 1}))"
        using cnt p [of me] me True by auto
      show "halting cfg" if "t \<in> T" "pcs ?s1 t = Own_Flag" for t
        using other [OF that(1)] that p [of t] True by (cases "t = me") auto
      show "me \<in> T" "arrived ?s1 me = r + 1" using me a by simp_all
    qed
    then show ?thesis ..
  qed
qed


lemma cpu_step_inv:
  assumes "barrier_inv cfg T r s" "me \<in> T" "good_cfg cfg T"
  shows "\<exists>r1. barrier_inv cfg T r1 (cpu_step cfg me s)"
proof -
  have fin: "finite T" using assms(3) finite_subset by (auto simp: good_cfg_def)
  consider "pcs s me = Count_Down" | "pcs s me = Reset_Count" | i where "pcs s me = Wake i" "i < num_cpus cfg"
    | "pcs s me = Blocked" "\<not> released cfg s me"
    | "pcs s me = Outside \<or> pcs s me = Set_Flag \<or> (pcs s me = Blocked \<and> released cfg s me) \<or> pcs s me = Own_Flag \<or>
      (\<exists>i. pcs s me = Wake i \<and> num_cpus cfg \<le> i)"
    by (cases "pcs s me") (force simp: not_less [symmetric])+
  then show ?thesis
  proof cases
    case 1 then show ?thesis using step_count_down [OF assms(1,2) fin] by blast
  next
    case 2 then show ?thesis using step_reset_count [OF assms] by blast
  next
    case 3 then show ?thesis using step_wake [OF assms(1,2)] by blast
  next
    case 4 then have "cpu_step cfg me s = s" by (simp add: cpu_step_def)
    then show ?thesis using assms(1) by auto
  next
    case 5 then show ?thesis using step_quiet [OF assms] by blast
  qed
qed

lemma init_inv:
  assumes "good_cfg cfg T"
  shows "barrier_inv cfg T 0 (barrier_reset cfg all_outside)"
proof -
  have "T \<noteq> {}" using assms by (auto simp: good_cfg_def)
  then obtain u where u: "u \<in> T" by blast
  show ?thesis by (rule invI [OF _ _ _ _ _ _ _ _ _ u]) (use assms in \<open>auto simp: barrier_reset_def all_outside_def arrived_def good_cfg_def\<close>)
qed

lemma run_inv: "barrier_run cfg T s \<Longrightarrow> good_cfg cfg T \<Longrightarrow> \<exists>r. barrier_inv cfg T r s"
proof (induction rule: barrier_run.induct)
  case init
  then show ?case using init_inv by blast
next
  case (move s me)
  then show ?case using cpu_step_inv by blast
qed

section \<open>Safety\<close>

text \<open>
  C9: nobody leaves the barrier early. Whatever the order in which the processors run, in both variants of the wait, a
  participant that has left the barrier for the k-th time has left it after every participant arrived there for the
  k-th time; the barrier may be used again at once, while processors of the previous round are still leaving it.
\<close>

theorem barrier_holds:
  assumes "barrier_run cfg T s" "good_cfg cfg T" "i \<in> T" "j \<in> T"
  shows "passed s i \<le> arrived s j"
proof -
  obtain r where inv: "barrier_inv cfg T r s" using run_inv [OF assms(1,2)] by blast
  have "passed s i \<le> r" using invE(1) [OF inv assms(3)] by (auto simp: arrived_def)
  then show ?thesis using invE(1) [OF inv assms(4)] by auto
qed

lemma run_schedule: "barrier_run cfg T s \<Longrightarrow> set sched \<subseteq> T \<Longrightarrow> barrier_run cfg T (fold (cpu_step cfg) sched s)"
  by (induction sched arbitrary: s) (auto intro: barrier_run.move)

text \<open>Two processors of four, in the spinning and in the halting barrier.\<close>

definition pair_cfg :: "bool \<Rightarrow> barrier_cfg" where
  "pair_cfg h = \<lparr>null_barrier = False, num_threads = 2, num_cpus = 4, halting = h\<rparr>"

definition pair_state :: "bool \<Rightarrow> nat list \<Rightarrow> barrier_state" where
  "pair_state h sched = fold (cpu_step (pair_cfg h)) sched (barrier_reset (pair_cfg h) all_outside)"

lemma pair_run: "set sched \<subseteq> {1, 3} \<Longrightarrow> barrier_run (pair_cfg h) {1, 3} (pair_state h sched)"
  unfolding pair_state_def by (rule run_schedule [OF barrier_run.init])

lemma pair_good: "good_cfg (pair_cfg h) {1, 3}"
  by (simp add: good_cfg_def pair_cfg_def)

definition through :: "nat list" where
  "through = [1, 1, 3, 1, 1, 3, 3, 3, 3, 3, 1, 3, 3, 3]"

theorem barrier_holds_witness:
  "passed (pair_state False through) 1 = 1 \<and> passed (pair_state False through) 1 \<le> arrived (pair_state False through) 3"
proof -
  have "passed (pair_state False through) 1 = 1" by code_simp
  then show ?thesis using barrier_holds [OF pair_run pair_good, of through 1 3 False] by (simp add: through_def)
qed

section \<open>Progress\<close>

definition can_step :: "barrier_cfg \<Rightarrow> barrier_state \<Rightarrow> nat \<Rightarrow> bool" where
  "can_step cfg s me \<longleftrightarrow> (case pcs s me of Outside \<Rightarrow> False | Blocked \<Rightarrow> released cfg s me | _ \<Rightarrow> True)"

text \<open>\<open>n\<close> steps of participants inside the function that do something; nobody calls it again meanwhile.\<close>

inductive busy_run :: "barrier_cfg \<Rightarrow> nat set \<Rightarrow> nat \<Rightarrow> barrier_state \<Rightarrow> barrier_state \<Rightarrow> bool" for cfg T where
  stop: "busy_run cfg T 0 s s"
| go: "me \<in> T \<Longrightarrow> can_step cfg s me \<Longrightarrow> busy_run cfg T n (cpu_step cfg me s) s1 \<Longrightarrow> busy_run cfg T (Suc n) s s1"

fun steps_left :: "barrier_cfg \<Rightarrow> pc \<Rightarrow> nat" where
  "steps_left cfg Outside = 0"
| "steps_left cfg Set_Flag = num_cpus cfg + 5"
| "steps_left cfg Count_Down = num_cpus cfg + 4"
| "steps_left cfg Blocked = 1"
| "steps_left cfg Reset_Count = num_cpus cfg + 3"
| "steps_left cfg Own_Flag = num_cpus cfg + 2"
| "steps_left cfg (Wake i) = 1 + (num_cpus cfg - i)"

lemma steps_left_bound: "steps_left cfg p \<le> num_cpus cfg + 5"
  by (cases p) auto

lemma steps_left_less: "can_step cfg s me \<Longrightarrow> steps_left cfg (pcs (cpu_step cfg me s) me) < steps_left cfg (pcs s me)"
  by (cases "pcs s me") (auto simp: can_step_def cpu_step_def Let_def)

lemma cpu_step_other: "t \<noteq> me \<Longrightarrow> pcs (cpu_step cfg me s) t = pcs s t \<and> passed (cpu_step cfg me s) t = passed s t"
  by (cases "pcs s me") (simp_all add: cpu_step_def Let_def goto_def leave_def wake_cpu_def)

definition work :: "barrier_cfg \<Rightarrow> nat set \<Rightarrow> barrier_state \<Rightarrow> nat" where
  "work cfg T s = (\<Sum>t \<in> T. steps_left cfg (pcs s t))"

lemma work_less:
  assumes "finite T" "me \<in> T" "can_step cfg s me"
  shows "work cfg T (cpu_step cfg me s) < work cfg T s"
proof -
  have "work cfg T s1 = steps_left cfg (pcs s1 me) + (\<Sum>t \<in> T - {me}. steps_left cfg (pcs s1 t))" for s1
    using assms(1,2) by (simp add: work_def sum.remove)
  moreover have "(\<Sum>t \<in> T - {me}. steps_left cfg (pcs (cpu_step cfg me s) t)) = (\<Sum>t \<in> T - {me}. steps_left cfg (pcs s t))"
    using cpu_step_other by (intro sum.cong) auto
  ultimately show ?thesis using steps_left_less [OF assms(3)] by simp
qed

lemma busy_run_bound: "busy_run cfg T n s s1 \<Longrightarrow> finite T \<Longrightarrow> n + work cfg T s1 \<le> work cfg T s"
proof (induction rule: busy_run.induct)
  case (go me s n s1)
  then show ?case using work_less [OF go.prems go.hyps(1,2)] by simp
qed simp

lemma arrived_mono: "can_step cfg s me \<Longrightarrow> arrived s t \<le> arrived (cpu_step cfg me s) t"
  by (cases "t = me"; cases "pcs s me") (auto simp: can_step_def cpu_step_def Let_def arrived_def goto_def leave_def wake_cpu_def)

lemma busy_arrived: "busy_run cfg T n s s1 \<Longrightarrow> arrived s t \<le> arrived s1 t"
proof (induction rule: busy_run.induct)
  case (go me s n s1)
  then show ?case using arrived_mono order_trans by blast
qed simp

lemma busy_barrier: "busy_run cfg T n s s1 \<Longrightarrow> barrier_run cfg T s \<Longrightarrow> barrier_run cfg T s1"
  by (induction rule: busy_run.induct) (auto intro: barrier_run.move)

text \<open>When nobody inside can do anything, a blocked participant waits for one that has not called the function yet.\<close>

lemma waits_for_absent:
  assumes inv: "barrier_inv cfg T r s" and i: "i \<in> T" "pcs s i = Blocked" and cfg: "good_cfg cfg T"
    and stuck: "\<forall>me \<in> T. \<not> can_step cfg s me"
  shows "\<exists>j \<in> T. arrived s j = passed s i"
proof -
  have pc: "pcs s t = Outside \<or> (pcs s t = Blocked \<and> \<not> released cfg s t)" if "t \<in> T" for t
    using stuck that by (cases "pcs s t") (auto simp: can_step_def)
  have nw: "\<not> to_wake (pcs s l) t" if "l \<in> T" for l t using pc [OF that] by auto
  have "arrived s i \<noteq> r" using invE(7) [OF inv i] pc [OF i(1)] i(2) nw by auto
  then have p: "passed s i = r" using invE(1) [OF inv i(1)] i(2) by (auto simp: arrived_def)
  obtain j where "j \<in> T" "arrived s j = r" using inv unfolding barrier_inv_def by blast
  then show ?thesis using p by auto
qed

text \<open>
  C10: the barrier lets everybody go. From any state that can be reached, once every participant has arrived as often as
  \<open>i\<close>, the steps inside the function come to an end, after at most \<open>work\<close> steps in whatever order, and then \<open>i\<close> has left.
\<close>

theorem barrier_lets_go:
  assumes "barrier_run cfg T s" "good_cfg cfg T" "i \<in> T" "\<forall>j \<in> T. arrived s i \<le> arrived s j"
    and "busy_run cfg T n s s1"
  shows "n \<le> work cfg T s \<and> ((\<exists>me \<in> T. can_step cfg s1 me) \<or> arrived s i \<le> passed s1 i)"
proof (intro conjI disjCI)
  have "finite T" using assms(2) finite_subset by (auto simp: good_cfg_def)
  then show "n \<le> work cfg T s" using busy_run_bound [OF assms(5)] by simp
next
  assume "\<not> arrived s i \<le> passed s1 i"
  then have less: "passed s1 i < arrived s i" by simp
  show "\<exists>me \<in> T. can_step cfg s1 me"
  proof (rule ccontr)
    assume stuck: "\<not> ?thesis"
    obtain r where inv: "barrier_inv cfg T r s1" using run_inv [OF busy_barrier [OF assms(5,1)] assms(2)] by blast
    have "passed s1 i < arrived s1 i" using less busy_arrived [OF assms(5)] order_less_le_trans by blast
    then have "pcs s1 i = Blocked" using stuck assms(3) by (cases "pcs s1 i") (auto simp: arrived_def can_step_def)
    then obtain j where "j \<in> T" "arrived s1 j = passed s1 i" using waits_for_absent [OF inv assms(3) _ assms(2)] stuck by blast
    then show False using less assms(4) busy_arrived [OF assms(5), of j] by fastforce
  qed
qed

primrec busy_schedule :: "barrier_cfg \<Rightarrow> nat list \<Rightarrow> barrier_state \<Rightarrow> bool" where
  "busy_schedule cfg [] s = True"
| "busy_schedule cfg (me # sched) s = (can_step cfg s me \<and> busy_schedule cfg sched (cpu_step cfg me s))"

lemma busy_fold:
  "busy_schedule cfg sched s \<Longrightarrow> set sched \<subseteq> T \<Longrightarrow> busy_run cfg T (length sched) s (fold (cpu_step cfg) sched s)"
  by (induction sched arbitrary: s) (auto intro: busy_run.intros)

text \<open>In the halting barrier: processor 1 is halted and processor 3 counts down as the last one, then both go on.\<close>

definition met :: "nat list" where "met = [1, 1, 3, 1, 3, 3]"
definition going :: "nat list" where "going = [3, 3, 3, 3, 1, 3, 3, 3]"

theorem barrier_lets_go_witness:
  "passed (fold (cpu_step (pair_cfg True)) going (pair_state True met)) 1 = 1"
proof -
  let ?s1 = "fold (cpu_step (pair_cfg True)) going (pair_state True met)"
  have busy: "busy_run (pair_cfg True) {1, 3} (length going) (pair_state True met) ?s1"
    by (rule busy_fold) (code_simp, simp add: going_def)
  have a: "arrived (pair_state True met) 1 = 1" "arrived (pair_state True met) 3 = 1" by code_simp+
  have idle: "\<not> can_step (pair_cfg True) ?s1 1" "\<not> can_step (pair_cfg True) ?s1 3" by code_simp+
  have "passed ?s1 1 \<le> arrived ?s1 3" "arrived ?s1 3 = 1" by code_simp+
  moreover have "1 \<le> passed ?s1 1"
    using barrier_lets_go [OF pair_run pair_good _ _ busy, of 1] a idle by (simp add: met_def)
  ultimately show ?thesis by simp
qed

end
