(* ===== verification/Usb_Hcd.thy ===== *)
theory Usb_Hcd
  imports Usb_Msd Config_Options
begin

text \<open>
  The enumeration of USB devices in \<open>system/usbhcd.c\<close>: addresses, descriptors, hubs, keyboards and drives. A host
  controller driver is its method table; the methods that move data are those of \<open>hcd_methods\<close>, the record is extended
  here by the methods for the topology. The state of the driver and of the devices behind it is the type \<open>'d\<close>; the
  data buffer of the workspace is a list of bytes. A method that is a null pointer is \<open>None\<close>. Delays and the messages
  on the screen have no effect on the model. Local buffers that the C code does not initialise start as zeros.
\<close>

section \<open>Constants and types\<close>

definition HCD_DATA_BUFFER_SIZE :: nat where "HCD_DATA_BUFFER_SIZE = 512"

definition USB_SPEED_LOW :: u8 where "USB_SPEED_LOW = 1"
definition USB_SPEED_FULL :: u8 where "USB_SPEED_FULL = 2"
definition USB_SPEED_HIGH :: u8 where "USB_SPEED_HIGH = 3"
definition USB_SPEED_SUPER :: u8 where "USB_SPEED_SUPER = 4"

definition USB_MAX_ADDRESS :: int where "USB_MAX_ADDRESS = 127"

text \<open>Request types and codes.\<close>

definition USB_REQ_TO_DEVICE :: int where "USB_REQ_TO_DEVICE = 0x00"
definition USB_REQ_TO_INTERFACE :: int where "USB_REQ_TO_INTERFACE = 0x01"
definition USB_REQ_TO_HUB_PORT :: int where "USB_REQ_TO_HUB_PORT = 0x03"
definition USB_REQ_FROM_DEVICE :: int where "USB_REQ_FROM_DEVICE = 0x80"
definition USB_REQ_FROM_HUB_PORT :: int where "USB_REQ_FROM_HUB_PORT = 0x83"
definition USB_REQ_CLASS :: int where "USB_REQ_CLASS = 0x20"

definition USB_SET_ADDRESS :: int where "USB_SET_ADDRESS = 5"
definition USB_GET_DESCRIPTOR :: int where "USB_GET_DESCRIPTOR = 6"
definition USB_SET_CONFIGURATION :: int where "USB_SET_CONFIGURATION = 9"
definition USB_SET_INTERFACE :: int where "USB_SET_INTERFACE = 11"
definition HID_SET_IDLE :: int where "HID_SET_IDLE = 10"
definition HID_SET_PROTOCOL :: int where "HID_SET_PROTOCOL = 11"
definition HUB_GET_STATUS :: int where "HUB_GET_STATUS = 0"
definition HUB_CLR_FEATURE :: int where "HUB_CLR_FEATURE = 1"
definition HUB_SET_FEATURE :: int where "HUB_SET_FEATURE = 3"
definition HUB_GET_DESCRIPTOR :: int where "HUB_GET_DESCRIPTOR = 6"

text \<open>Descriptor types, classes, hub features and port status bits.\<close>

definition USB_DESC_DEVICE :: u8 where "USB_DESC_DEVICE = 1"
definition USB_DESC_CONFIGURATION :: u8 where "USB_DESC_CONFIGURATION = 2"
definition USB_DESC_STRING :: u8 where "USB_DESC_STRING = 3"
definition USB_DESC_INTERFACE :: u8 where "USB_DESC_INTERFACE = 4"
definition USB_DESC_ENDPOINT :: u8 where "USB_DESC_ENDPOINT = 5"
definition HUB_DESC_DEVICE :: u8 where "HUB_DESC_DEVICE = 0x29"
definition USB_DESC_LANG_EN :: int where "USB_DESC_LANG_EN = 0x0409"

definition USB_CLASS_MASS_STORAGE :: u8 where "USB_CLASS_MASS_STORAGE = 8"
definition USB_CLASS_HUB :: u8 where "USB_CLASS_HUB = 9"
definition USB_MSC_SUBCLASS_SCSI :: u8 where "USB_MSC_SUBCLASS_SCSI = 6"
definition USB_MSC_PROTOCOL_BOT :: u8 where "USB_MSC_PROTOCOL_BOT = 0x50"

definition HUB_PORT_ENABLE :: int where "HUB_PORT_ENABLE = 1"
definition HUB_PORT_RESET :: int where "HUB_PORT_RESET = 4"
definition HUB_PORT_POWER :: int where "HUB_PORT_POWER = 8"

definition HUB_PORT_CONNECTED :: u32 where "HUB_PORT_CONNECTED = 0x00000001"
definition HUB_PORT_ENABLED :: u32 where "HUB_PORT_ENABLED = 0x00000002"
definition HUB_PORT_RESETTING :: u32 where "HUB_PORT_RESETTING = 0x00000010"
definition HUB_PORT_POWERED :: u32 where "HUB_PORT_POWERED = 0x00000100"
definition HUB_PORT_LOW_SPEED :: u32 where "HUB_PORT_LOW_SPEED = 0x00000200"
definition HUB_PORT_HIGH_SPEED :: u32 where "HUB_PORT_HIGH_SPEED = 0x00000400"

record usb_parent_t =
  parent_device_id :: u8
  parent_port_num :: u8

record usb_hub_t =
  hub_ep0 :: usb_ep_t
  hub_route :: u32
  hub_level :: u8
  num_ports :: u8
  tt_think_time :: u8
  power_up_delay :: u8
  hs_parent :: usb_parent_t
  hub_quirks :: u8

definition USB_HUB_DONT_DISABLE_PORTS :: u8 where "USB_HUB_DONT_DISABLE_PORTS = 1"

text \<open>The workspace of a driver as the enumeration sees it.\<close>

record 'd hcd_ws =
  bus :: 'd
  ws_buffer :: "u8 list"
  ws_length :: nat

record 'd usb_methods = "'d hcd_methods" +
  reset_root_hub_port :: "int \<Rightarrow> 'd \<Rightarrow> bool \<times> 'd"
  allocate_slot :: "('d \<Rightarrow> int \<times> 'd) option"
  release_slot :: "(int \<Rightarrow> 'd \<Rightarrow> bool \<times> 'd) option"
  assign_address :: "usb_hub_t \<Rightarrow> int \<Rightarrow> u8 \<Rightarrow> int \<Rightarrow> 'd hcd_ws \<Rightarrow> usb_ep_t option \<times> 'd hcd_ws"
  configure_hub_ep :: "(usb_ep_t \<Rightarrow> usb_hub_t \<Rightarrow> 'd \<Rightarrow> bool \<times> 'd) option"
  configure_kbd_ep :: "(usb_ep_t \<Rightarrow> int \<Rightarrow> 'd \<Rightarrow> bool \<times> 'd) option"

section \<open>Requests\<close>

definition zero_ep :: usb_ep_t where
  "zero_ep = \<lparr>driver_data = 0, device_speed = 0, device_id = 0, interface_num = 0, endpoint_num = 0, max_packet_size = 0, interval = 0\<rparr>"

definition send_setup :: "'d usb_methods \<Rightarrow> usb_ep_t \<Rightarrow> usb_setup_pkt_t \<Rightarrow> 'd hcd_ws \<Rightarrow> bool \<times> 'd hcd_ws" where
  "send_setup m ep pkt w = (let (ok, d) = setup_request (hcd_methods.truncate m) ep pkt (bus w) in (ok, w\<lparr>bus := d\<rparr>))"

text \<open>A request for \<open>n\<close> bytes into the data buffer.\<close>

definition get_data :: "'d usb_methods \<Rightarrow> usb_ep_t \<Rightarrow> usb_setup_pkt_t \<Rightarrow> nat \<Rightarrow> 'd hcd_ws \<Rightarrow> bool \<times> 'd hcd_ws" where
  "get_data m ep pkt n w =
     (let (ok, bs, d) = get_data_request (hcd_methods.truncate m) ep pkt (take n (ws_buffer w)) (bus w)
      in (ok, w\<lparr>bus := d, ws_buffer := bs @ drop n (ws_buffer w)\<rparr>))"

definition default_max_packet_size :: "u8 \<Rightarrow> u16" where
  "default_max_packet_size speed =
     (if speed = USB_SPEED_LOW then 8 else if speed = USB_SPEED_FULL then 64 else if speed = USB_SPEED_HIGH then 64
      else if speed = USB_SPEED_SUPER then 512 else 0)"

definition valid_usb_max_packet_size :: "u8 \<Rightarrow> u8 \<Rightarrow> bool" where
  "valid_usb_max_packet_size sz speed \<longleftrightarrow>
     (if speed = USB_SPEED_SUPER then sz = 9
      else sz = 8 \<or> (speed \<noteq> USB_SPEED_LOW \<and> (sz = 16 \<or> sz = 32 \<or> sz = 64)))"

definition valid_usb_device_descriptor :: "u8 list \<Rightarrow> bool" where
  "valid_usb_device_descriptor buf \<longleftrightarrow> buf ! 0 = 18 \<and> buf ! 1 = USB_DESC_DEVICE"

definition valid_usb_config_descriptor :: "u8 list \<Rightarrow> bool" where
  "valid_usb_config_descriptor buf \<longleftrightarrow> buf ! 0 = 9 \<and> buf ! 1 = USB_DESC_CONFIGURATION"

section \<open>Hubs\<close>

definition usb_route :: "usb_hub_t \<Rightarrow> int \<Rightarrow> u32" where
  "usb_route hub port_num =
     (if hub_level hub = 0 then push_bit 24 (of_int port_num)
      else let p = (if hub_level hub > 5 then 0 else if port_num > 15 then 15 else port_num)
           in or (hub_route hub) (push_bit (4 * (unat (hub_level hub) - 1)) (of_int p)))"

definition usb_hs_parent :: "usb_hub_t \<Rightarrow> int \<Rightarrow> u8 \<Rightarrow> usb_parent_t" where
  "usb_hs_parent hub port_num speed =
     (if speed < USB_SPEED_HIGH \<and> hub_level hub > 0
      then if device_speed (hub_ep0 hub) < USB_SPEED_HIGH then hs_parent hub
           else \<lparr>parent_device_id = device_id (hub_ep0 hub), parent_port_num = of_int port_num\<rparr>
      else \<lparr>parent_device_id = 0, parent_port_num = 0\<rparr>)"

text \<open>The port status, and whether the request for it succeeded.\<close>

definition get_hub_port_status :: "'d usb_methods \<Rightarrow> usb_hub_t \<Rightarrow> int \<Rightarrow> u32 \<Rightarrow> 'd hcd_ws \<Rightarrow> bool \<times> u32 \<times> 'd hcd_ws" where
  "get_hub_port_status m hub port_num old w =
     (let pkt = build_setup_packet (or USB_REQ_FROM_HUB_PORT USB_REQ_CLASS) HUB_GET_STATUS 0 port_num 4;
          (ok, bs, d) = get_data_request (hcd_methods.truncate m) (hub_ep0 hub) pkt (bytes32 old) (bus w)
      in (ok, le32 bs 0, w\<lparr>bus := d\<rparr>))"

text \<open>The loop that waits for the end of the reset, at this value of \<open>timer\<close>.\<close>

primrec wait_port_reset :: "nat \<Rightarrow> 'd usb_methods \<Rightarrow> usb_hub_t \<Rightarrow> int \<Rightarrow> u32 \<Rightarrow> 'd hcd_ws \<Rightarrow> bool \<times> 'd hcd_ws" where
  "wait_port_reset 0 m hub port_num old w = (False, w)"
| "wait_port_reset (Suc timer) m hub port_num old w =
     (if timer = 0 then (False, w)
      else let (ok, status, w1) = get_hub_port_status m hub port_num old w
           in if \<not> ok then (False, w1)
              else if and status HUB_PORT_RESETTING \<noteq> 0 then wait_port_reset timer m hub port_num status w1
              else (True, w1))"

definition reset_usb_hub_port :: "'d usb_methods \<Rightarrow> usb_hub_t \<Rightarrow> int \<Rightarrow> 'd hcd_ws \<Rightarrow> bool \<times> 'd hcd_ws" where
  "reset_usb_hub_port m hub port_num w =
     (if hub_level hub > 0
      then let pkt = build_setup_packet (or USB_REQ_TO_HUB_PORT USB_REQ_CLASS) HUB_SET_FEATURE HUB_PORT_RESET port_num 0;
               (ok, w1) = send_setup m (hub_ep0 hub) pkt w
           in if \<not> ok then (False, w1) else wait_port_reset 200 m hub port_num 0 w1
      else let (ok, d) = reset_root_hub_port m port_num (bus w) in (ok, w\<lparr>bus := d\<rparr>))"

section \<open>Addresses\<close>

text \<open>Both visits of the label \<open>fetch_descriptor\<close>: a request for \<open>n\<close> bytes of the device descriptor.\<close>

definition fetch_device_descriptor :: "'d usb_methods \<Rightarrow> usb_ep_t \<Rightarrow> nat \<Rightarrow> 'd hcd_ws \<Rightarrow> bool \<times> 'd hcd_ws" where
  "fetch_device_descriptor m ep n w =
     (let pkt = build_setup_packet USB_REQ_FROM_DEVICE USB_GET_DESCRIPTOR (uint USB_DESC_DEVICE * 256) 0 (int n);
          (ok, w1) = get_data m ep pkt n w
      in (ok \<and> valid_usb_device_descriptor (ws_buffer w1), w1))"

text \<open>From the label \<open>set_address\<close> on.\<close>

definition set_usb_address :: "'d usb_methods \<Rightarrow> int \<Rightarrow> usb_ep_t \<Rightarrow> 'd hcd_ws \<Rightarrow> usb_ep_t option \<times> 'd hcd_ws" where
  "set_usb_address m dev_id ep w =
     (let pkt = build_setup_packet USB_REQ_TO_DEVICE USB_SET_ADDRESS dev_id 0 0;
          (ok, w1) = send_setup m ep pkt w
      in if \<not> ok then (None, w1)
         else let ep1 = ep\<lparr>device_id := of_int dev_id\<rparr>; (ok2, w2) = fetch_device_descriptor m ep1 18 w1
              in if ok2 then (Some ep1, w2\<lparr>ws_length := 18\<rparr>) else (None, w2))"

definition assign_usb_address ::
  "u32 \<Rightarrow> 'd usb_methods \<Rightarrow> usb_hub_t \<Rightarrow> int \<Rightarrow> u8 \<Rightarrow> int \<Rightarrow> 'd hcd_ws \<Rightarrow> usb_ep_t option \<times> 'd hcd_ws"
where
  "assign_usb_address options m hub port_num speed dev_id w =
     (if dev_id > USB_MAX_ADDRESS then (None, w)
      else let ep = zero_ep\<lparr>device_speed := speed, max_packet_size := default_max_packet_size speed\<rparr>
           in if speed < USB_SPEED_HIGH \<or> and options USB_2_STEP_INIT \<noteq> 0
              then let (ok, w1) = fetch_device_descriptor m ep 8 w; sz = ws_buffer w1 ! 7;
                       ep1 = ep\<lparr>max_packet_size := ucast sz\<rparr>
                   in if \<not> ok then (None, w1)
                      else if \<not> valid_usb_max_packet_size sz speed then (None, w1)
                      else if and options USB_EXTRA_RESET \<noteq> 0
                           then let (ok2, w2) = reset_usb_hub_port m hub port_num w1
                                in if \<not> ok2 then (None, w2) else set_usb_address m dev_id ep1 w2
                           else set_usb_address m dev_id ep1 w1
              else set_usb_address m dev_id ep w)"

section \<open>Descriptors\<close>

text \<open>
  The descriptors behind the configuration descriptor, in the order in which the loops visit them; a descriptor of
  fewer than two bytes, or one that reaches behind the end, ends the visit.
\<close>

function descriptors :: "u8 list \<Rightarrow> u8 list list" where
  "descriptors bs =
     (if bs = [] then []
      else let n = unat (hd bs) in if n < 2 \<or> n > length bs then [] else take n bs # descriptors (drop n bs))"
  by pat_completeness auto
termination by (relation "measure length") auto

declare descriptors.simps [simp del]

definition config_descriptors :: "'d hcd_ws \<Rightarrow> u8 list list" where
  "config_descriptors w = descriptors (drop 9 (take (ws_length w) (ws_buffer w)))"

definition is_interface :: "u8 list \<Rightarrow> bool" where
  "is_interface desc \<longleftrightarrow> desc ! 1 = USB_DESC_INTERFACE \<and> desc ! 0 = 9"

definition is_endpoint :: "u8 list \<Rightarrow> bool" where
  "is_endpoint desc \<longleftrightarrow> desc ! 1 = USB_DESC_ENDPOINT \<and> desc ! 0 = 7"

text \<open>An interrupt endpoint towards the host.\<close>

definition is_interrupt_in :: "u8 list \<Rightarrow> bool" where
  "is_interrupt_in desc \<longleftrightarrow> and (desc ! 2) 0x80 \<noteq> 0 \<and> and (desc ! 3) 0x3 = 0x3"

definition find_hub_endpoint_descriptor :: "u8 list list \<Rightarrow> u8 list option" where
  "find_hub_endpoint_descriptor descs = List.find (\<lambda>desc. is_endpoint desc \<and> is_interrupt_in desc) descs"

definition build_hub_info ::
  "'d usb_methods \<Rightarrow> usb_hub_t \<Rightarrow> int \<Rightarrow> usb_ep_t \<Rightarrow> 'd hcd_ws \<Rightarrow> (usb_hub_t \<times> usb_ep_t) option \<times> 'd hcd_ws"
where
  "build_hub_info m parent port_num ep w =
     (let pkt = build_setup_packet (or USB_REQ_FROM_DEVICE USB_REQ_CLASS) HUB_GET_DESCRIPTOR (uint HUB_DESC_DEVICE * 256) 0 7;
          (ok, desc, d) = get_data_request (hcd_methods.truncate m) ep pkt (replicate 7 0) (bus w);
          w1 = w\<lparr>bus := d\<rparr>
      in if \<not> ok then (None, w1)
         else let hub = \<lparr>hub_ep0 = ep, hub_route = usb_route parent port_num, hub_level = hub_level parent + 1, num_ports = desc ! 2,
                         tt_think_time = ucast (and (le16 desc 3) (drop_bit 5 0x0060)), power_up_delay = desc ! 5,
                         hs_parent = usb_hs_parent parent port_num (device_speed ep), hub_quirks = 0\<rparr>
              in case find_hub_endpoint_descriptor (config_descriptors w1) of
                   None \<Rightarrow> (None, w1)
                 | Some e \<Rightarrow>
                     (Some (hub, \<lparr>driver_data = driver_data ep, device_speed = device_speed ep, device_id = device_id ep,
                                  interface_num = 0, endpoint_num = and (e ! 2) 0xF, max_packet_size = le16 e 4, interval = e ! 6\<rparr>),
                      w1))"

definition add_hub_quirks :: "u16 \<Rightarrow> u16 \<Rightarrow> usb_hub_t \<Rightarrow> usb_hub_t" where
  "add_hub_quirks vendor_id product_id hub =
     (if vendor_id = 0x046B \<and> product_id = 0xFF01 then hub\<lparr>hub_quirks := or (hub_quirks hub) USB_HUB_DONT_DISABLE_PORTS\<rparr> else hub)"

text \<open>The loop of \<open>get_configuration_descriptors\<close>: the request is repeated with the length that the descriptor states.\<close>

function fetch_config :: "'d usb_methods \<Rightarrow> usb_ep_t \<Rightarrow> int \<Rightarrow> nat \<Rightarrow> 'd hcd_ws \<Rightarrow> u8 \<times> 'd hcd_ws" where
  "fetch_config m ep config_idx n w =
     (let pkt = build_setup_packet USB_REQ_FROM_DEVICE USB_GET_DESCRIPTOR (or (uint USB_DESC_CONFIGURATION * 256) config_idx) 0 (int n);
          (ok, w1) = get_data m ep pkt n w
      in if \<not> ok \<or> \<not> valid_usb_config_descriptor (ws_buffer w1) then (0, w1)
         else let total = min (unat (le16 (ws_buffer w1) 2)) HCD_DATA_BUFFER_SIZE
              in if total > n then fetch_config m ep config_idx total w1
                 else (ws_buffer w1 ! 5, w1\<lparr>ws_length := n\<rparr>))"
  by pat_completeness auto
termination by (relation "measure (\<lambda>(m, ep, i, n, w). HCD_DATA_BUFFER_SIZE - n)") auto

declare fetch_config.simps [simp del]

definition get_configuration_descriptors :: "'d usb_methods \<Rightarrow> usb_ep_t \<Rightarrow> int \<Rightarrow> 'd hcd_ws \<Rightarrow> u8 \<times> 'd hcd_ws" where
  "get_configuration_descriptors m ep config_idx w = fetch_config m ep config_idx 9 w"

section \<open>Keyboards and drives in a configuration\<close>

record 'd usb_enum =
  enum_ws :: "'d hcd_ws"
  num_devices :: int
  keyboards :: "usb_ep_t list"
  num_keyboards :: nat
  num_usb_keyboards :: nat
  msd_found :: bool
  msd_hcd_idx :: int
  msd_info :: usb_msd_t
  msd_name :: string

text \<open>
  The loop of \<open>get_keyboard_info_from_descriptors\<close>; \<open>kbd\<close> is the index of the entry that waits for its endpoint. The
  table has room for \<open>mx\<close> keyboards.
\<close>

primrec keyboard_interfaces :: "nat \<Rightarrow> u8 list list \<Rightarrow> nat option \<Rightarrow> usb_ep_t list \<Rightarrow> nat \<Rightarrow> usb_ep_t list \<times> nat" where
  "keyboard_interfaces mx [] kbd kbds n = (kbds, n)"
| "keyboard_interfaces mx (desc # ds) kbd kbds n =
     (if n \<ge> mx then (kbds, n)
      else if is_interface desc
      then if desc ! 5 = 3 \<and> desc ! 6 = 1 \<and> desc ! 7 = 1
           then keyboard_interfaces mx ds (Some n) (kbds[n := (kbds ! n)\<lparr>interface_num := desc ! 2\<rparr>]) n
           else keyboard_interfaces mx ds None kbds n
      else if is_endpoint desc
      then case kbd of
             None \<Rightarrow> keyboard_interfaces mx ds None kbds n
           | Some k \<Rightarrow>
               if is_interrupt_in desc
               then keyboard_interfaces mx ds None
                      (kbds[k := (kbds ! k)\<lparr>endpoint_num := and (desc ! 2) 0xF, max_packet_size := le16 desc 4, interval := desc ! 6\<rparr>]) (n + 1)
               else keyboard_interfaces mx ds kbd kbds n
      else keyboard_interfaces mx ds kbd kbds n)"

definition get_keyboard_info_from_descriptors :: "nat \<Rightarrow> u8 list list \<Rightarrow> usb_ep_t list \<Rightarrow> nat \<Rightarrow> usb_ep_t list \<times> nat" where
  "get_keyboard_info_from_descriptors mx descs kbds n = keyboard_interfaces mx descs None kbds n"

record msd_scan =
  found_ifc :: bool
  found_in :: bool
  found_out :: bool
  scan_in :: usb_ep_t
  scan_out :: usb_ep_t
  alt_setting :: u8

definition no_scan :: msd_scan where
  "no_scan = \<lparr>found_ifc = False, found_in = False, found_out = False, scan_in = zero_ep, scan_out = zero_ep, alt_setting = 0\<rparr>"

definition is_bot_interface :: "u8 list \<Rightarrow> bool" where
  "is_bot_interface desc \<longleftrightarrow>
     desc ! 5 = USB_CLASS_MASS_STORAGE \<and> desc ! 6 = USB_MSC_SUBCLASS_SCSI \<and> desc ! 7 = USB_MSC_PROTOCOL_BOT"

definition bulk_endpoint :: "u8 list \<Rightarrow> msd_scan \<Rightarrow> msd_scan" where
  "bulk_endpoint desc s =
     (if and (desc ! 3) 0x3 \<noteq> 0x02 then s
      else if and (desc ! 2) 0x80 \<noteq> 0
      then s\<lparr>scan_in := (scan_in s)\<lparr>endpoint_num := and (desc ! 2) 0xF, max_packet_size := le16 desc 4, interval := 0\<rparr>, found_in := True\<rparr>
      else s\<lparr>scan_out := (scan_out s)\<lparr>endpoint_num := and (desc ! 2) 0xF, max_packet_size := le16 desc 4, interval := 0\<rparr>, found_out := True\<rparr>)"

primrec get_msd_info_from_descriptors :: "u8 list list \<Rightarrow> msd_scan \<Rightarrow> bool \<times> msd_scan" where
  "get_msd_info_from_descriptors [] s = (found_ifc s \<and> found_in s \<and> found_out s, s)"
| "get_msd_info_from_descriptors (desc # ds) s =
     (if is_interface desc
      then if is_bot_interface desc
           then get_msd_info_from_descriptors ds
                  \<lparr>found_ifc = True, found_in = False, found_out = False, scan_in = (scan_in s)\<lparr>interface_num := desc ! 2\<rparr>,
                   scan_out = (scan_out s)\<lparr>interface_num := desc ! 2\<rparr>, alt_setting = desc ! 3\<rparr>
           else get_msd_info_from_descriptors ds (s\<lparr>found_ifc := False\<rparr>)
      else if found_ifc s \<and> is_endpoint desc
      then let s1 = bulk_endpoint desc s
           in if found_in s1 \<and> found_out s1 then (True, s1) else get_msd_info_from_descriptors ds s1
      else get_msd_info_from_descriptors ds s)"

definition configure_device :: "'d usb_methods \<Rightarrow> usb_ep_t \<Rightarrow> u8 \<Rightarrow> 'd hcd_ws \<Rightarrow> bool \<times> 'd hcd_ws" where
  "configure_device m ep config_num w =
     send_setup m ep (build_setup_packet USB_REQ_TO_DEVICE USB_SET_CONFIGURATION (uint config_num) 0 0) w"

definition configure_keyboard :: "'d usb_methods \<Rightarrow> usb_ep_t \<Rightarrow> u8 \<Rightarrow> 'd hcd_ws \<Rightarrow> bool \<times> 'd hcd_ws" where
  "configure_keyboard m ep ifc w =
     (let req = or USB_REQ_TO_INTERFACE USB_REQ_CLASS;
          (ok, w1) = send_setup m ep (build_setup_packet req HID_SET_IDLE 0 (uint ifc) 0) w
      in if \<not> ok then (False, w1) else send_setup m ep (build_setup_packet req HID_SET_PROTOCOL 0 (uint ifc) 0) w1)"

section \<open>The name of a drive\<close>

text \<open>The printable characters of a string descriptor, at most \<open>room\<close>, the first of them at index \<open>i\<close>; \<open>n\<close> are left.\<close>

primrec string_chars :: "nat \<Rightarrow> nat \<Rightarrow> nat \<Rightarrow> u8 list \<Rightarrow> string" where
  "string_chars 0 i room buf = []"
| "string_chars (Suc n) i room buf =
     (if room = 0 then []
      else let ch = le16 buf (2 + i * 2)
           in if ch \<ge> 0x20 \<and> ch < 0x7F then char_of (uint ch) # string_chars n (i + 1) (room - 1) buf
              else string_chars n (i + 1) room buf)"

definition trim_spaces :: "string \<Rightarrow> string" where
  "trim_spaces s = rev (dropWhile (\<lambda>c. c = CHR '' '') (rev s))"

definition fetch_usb_string :: "'d usb_methods \<Rightarrow> usb_ep_t \<Rightarrow> u8 \<Rightarrow> nat \<Rightarrow> 'd hcd_ws \<Rightarrow> string \<times> 'd hcd_ws" where
  "fetch_usb_string m ep str_index out_size w =
     (if str_index = 0 \<or> out_size < 2 then ([], w)
      else let pkt = build_setup_packet USB_REQ_FROM_DEVICE USB_GET_DESCRIPTOR (or (uint USB_DESC_STRING * 256) (uint str_index))
                       USB_DESC_LANG_EN (int HCD_DATA_BUFFER_SIZE);
               (ok, w1) = get_data m ep pkt HCD_DATA_BUFFER_SIZE w;
               desc_len = unat (ws_buffer w1 ! 0)
           in if \<not> ok then ([], w1)
              else if desc_len < 4 \<or> ws_buffer w1 ! 1 \<noteq> USB_DESC_STRING then ([], w1)
              else (trim_spaces (string_chars ((desc_len - 2) div 2) 0 (out_size - 1) (ws_buffer w1)), w1))"

section \<open>Drives\<close>

text \<open>The configurations from \<open>idx\<close> on, \<open>n\<close> of them.\<close>

primrec find_bot :: "nat \<Rightarrow> nat \<Rightarrow> 'd usb_methods \<Rightarrow> usb_ep_t \<Rightarrow> u8 \<Rightarrow> msd_scan \<Rightarrow> 'd hcd_ws \<Rightarrow> (bool \<times> msd_scan \<times> u8) \<times> 'd hcd_ws" where
  "find_bot 0 idx m ep config_num s w = ((False, s, config_num), w)"
| "find_bot (Suc n) idx m ep config_num s w =
     (let (num, w1) = (if idx > 0 then get_configuration_descriptors m ep (int idx) w else (config_num, w))
      in if idx > 0 \<and> num = 0 then find_bot n (idx + 1) m ep num s w1
         else let (found, s1) = get_msd_info_from_descriptors (config_descriptors w1) no_scan
              in if found then ((True, s1, num), w1) else find_bot n (idx + 1) m ep num s1 w1)"

definition select_alt_setting :: "'d usb_methods \<Rightarrow> usb_ep_t \<Rightarrow> msd_scan \<Rightarrow> 'd hcd_ws \<Rightarrow> bool \<times> 'd hcd_ws" where
  "select_alt_setting m ep s w =
     (if alt_setting s = 0 then (True, w)
      else send_setup m ep (build_setup_packet USB_REQ_TO_INTERFACE USB_SET_INTERFACE (uint (alt_setting s)) (uint (interface_num (scan_in s))) 0) w)"

text \<open>\<open>configure_bulk_ep\<close> leaves the driver data of the endpoint in the data buffer.\<close>

definition bulk_setup ::
  "(usb_ep_t \<Rightarrow> int \<Rightarrow> bool \<Rightarrow> 'd \<Rightarrow> bool \<times> u64 \<times> 'd) \<Rightarrow> usb_ep_t \<Rightarrow> int \<Rightarrow> bool \<Rightarrow> 'd hcd_ws \<Rightarrow> usb_ep_t option \<times> 'd hcd_ws"
where
  "bulk_setup configure ep ep_id is_out w =
     (let (ok, v, d) = configure ep ep_id is_out (bus w);
          w1 = w\<lparr>bus := d, ws_buffer := bytes32 (ucast v) @ bytes32 (ucast (drop_bit 32 v)) @ drop 8 (ws_buffer w)\<rparr>
      in if ok then (Some (ep\<lparr>driver_data := v\<rparr>), w1) else (None, w1))"

definition check_for_usb_msd ::
  "'d usb_methods \<Rightarrow> int \<Rightarrow> usb_ep_t \<Rightarrow> u8 \<Rightarrow> int \<Rightarrow> u8 \<Rightarrow> u8 \<Rightarrow> u8 \<Rightarrow> 'd usb_enum \<Rightarrow> bool \<times> 'd usb_enum"
where
  "check_for_usb_msd m hcd_idx ep speed dev_id config_num num_configs product_str st =
     (case configure_bulk_ep m of
        None \<Rightarrow> (False, st)
      | Some configure \<Rightarrow>
          if msd_found st then (False, st)
          else let ((found, s, num), w1) = find_bot (unat num_configs) 0 m ep config_num no_scan (enum_ws st)
               in if \<not> found then (False, st\<lparr>enum_ws := w1\<rparr>)
                  else let (ok, w2) = configure_device m ep num w1
                       in if \<not> ok then (False, st\<lparr>enum_ws := w2\<rparr>)
                          else let (ok3, w3) = select_alt_setting m ep s w2;
                                   common = (\<lambda>e. e\<lparr>device_speed := speed, device_id := of_int dev_id, driver_data := driver_data ep\<rparr>);
                                   e_in = common (scan_in s); e_out = common (scan_out s)
                               in if \<not> ok3 then (False, st\<lparr>enum_ws := w3\<rparr>)
                                  else case bulk_setup configure e_in (2 * uint (endpoint_num e_in) + 1) False w3 of
                                         (None, w4) \<Rightarrow> (False, st\<lparr>enum_ws := w4\<rparr>)
                                       | (Some e_in1, w4) \<Rightarrow>
                                           (case bulk_setup configure e_out (2 * uint (endpoint_num e_out)) True w4 of
                                              (None, w5) \<Rightarrow> (False, st\<lparr>enum_ws := w5\<rparr>)
                                            | (Some e_out1, w5) \<Rightarrow>
                                                let (name, w6) = fetch_usb_string m ep product_str 64 w5
                                                in (True, st\<lparr>enum_ws := w6, msd_hcd_idx := hcd_idx,
                                                      msd_info := (msd_info st)\<lparr>ep0 := ep, ep_in := e_in1, ep_out := e_out1, tag := 1\<rparr>,
                                                      msd_found := True, msd_name := name\<rparr>)))"

section \<open>Hubs and devices\<close>

text \<open>
  A hub behind a hub makes the functions call each other. The depth of that recursion is the first argument of
  \<open>scan_hub_ports\<close>; a result \<open>None\<close> means that it was not enough.
\<close>

primrec power_ports :: "nat \<Rightarrow> int \<Rightarrow> 'd usb_methods \<Rightarrow> usb_hub_t \<Rightarrow> 'd hcd_ws \<Rightarrow> bool \<times> 'd hcd_ws" where
  "power_ports 0 port m hub w = (True, w)"
| "power_ports (Suc n) port m hub w =
     (let (ok, w1) = send_setup m (hub_ep0 hub) (build_setup_packet (or USB_REQ_TO_HUB_PORT USB_REQ_CLASS) HUB_SET_FEATURE HUB_PORT_POWER port 0) w
      in if \<not> ok then (False, w1) else power_ports n (port + 1) m hub w1)"

definition port_speed :: "usb_hub_t \<Rightarrow> u32 \<Rightarrow> u8" where
  "port_speed hub status =
     (if device_speed (hub_ep0 hub) = USB_SPEED_SUPER then USB_SPEED_SUPER
      else if and status HUB_PORT_LOW_SPEED \<noteq> 0 then USB_SPEED_LOW
      else if and status HUB_PORT_HIGH_SPEED \<noteq> 0 then USB_SPEED_HIGH
      else USB_SPEED_FULL)"

text \<open>The port is powered, connected, and after a reset active; the status of the active port.\<close>

definition wake_port :: "'d usb_methods \<Rightarrow> usb_hub_t \<Rightarrow> int \<Rightarrow> 'd hcd_ws \<Rightarrow> u32 option \<times> 'd hcd_ws" where
  "wake_port m hub port w =
     (let (_, status, w1) = get_hub_port_status m hub port 0 w
      in if and status HUB_PORT_POWERED = 0 \<or> and status HUB_PORT_CONNECTED = 0 then (None, w1)
         else let (ok, w2) = reset_usb_hub_port m hub port w1
              in if \<not> ok then (None, w2)
                 else let (_, status2, w3) = get_hub_port_status m hub port status w2
                      in if and status2 HUB_PORT_CONNECTED = 0 \<or> and status2 HUB_PORT_ENABLED = 0 then (None, w3)
                         else (Some status2, w3))"

definition disable_port :: "'d usb_methods \<Rightarrow> usb_hub_t \<Rightarrow> int \<Rightarrow> int \<Rightarrow> 'd hcd_ws \<Rightarrow> 'd hcd_ws" where
  "disable_port m hub port dev_id w =
     (if and (hub_quirks hub) USB_HUB_DONT_DISABLE_PORTS \<noteq> 0 then w
      else let (_, w1) = send_setup m (hub_ep0 hub)
                 (build_setup_packet (or USB_REQ_TO_HUB_PORT USB_REQ_CLASS) HUB_CLR_FEATURE HUB_PORT_ENABLE port 0) w
           in case release_slot m of None \<Rightarrow> w1 | Some release \<Rightarrow> w1\<lparr>bus := snd (release dev_id (bus w1))\<rparr>)"

definition new_device_id :: "'d usb_methods \<Rightarrow> 'd usb_enum \<Rightarrow> int \<times> 'd usb_enum" where
  "new_device_id m st =
     (case allocate_slot m of
        None \<Rightarrow> (num_devices st, st)
      | Some allocate \<Rightarrow>
          let (dev_id, d) = allocate (bus (enum_ws st)) in (dev_id, st\<lparr>enum_ws := (enum_ws st)\<lparr>bus := d\<rparr>\<rparr>))"

text \<open>The second loop of \<open>scan_hub_ports\<close>; \<open>attach\<close> is \<open>find_attached_usb_keyboards\<close> for a device on a port of the hub.\<close>

primrec scan_ports ::
  "nat \<Rightarrow> int \<Rightarrow> (usb_hub_t \<Rightarrow> int \<Rightarrow> u8 \<Rightarrow> int \<Rightarrow> 'd usb_enum \<Rightarrow> (bool \<times> 'd usb_enum) option) \<Rightarrow> 'd usb_methods \<Rightarrow> nat \<Rightarrow> usb_hub_t \<Rightarrow>
    bool \<Rightarrow> 'd usb_enum \<Rightarrow> (bool \<times> 'd usb_enum) option"
where
  "scan_ports 0 port attach m mx hub found st = Some (found, st)"
| "scan_ports (Suc n) port attach m mx hub found st =
     (if num_keyboards st \<ge> mx \<and> msd_found st then Some (found, st)
      else case wake_port m hub port (enum_ws st) of
             (None, w) \<Rightarrow> scan_ports n (port + 1) attach m mx hub found (st\<lparr>enum_ws := w\<rparr>)
           | (Some status, w) \<Rightarrow>
               (let st1 = st\<lparr>enum_ws := w, num_devices := num_devices st + 1\<rparr>;
                    (dev_id, st2) = new_device_id m st1
                in if allocate_slot m \<noteq> None \<and> dev_id = 0 then Some (found, st2)
                   else case attach hub port (port_speed hub status) dev_id st2 of
                          None \<Rightarrow> None
                        | Some (True, st3) \<Rightarrow> scan_ports n (port + 1) attach m mx hub True st3
                        | Some (False, st3) \<Rightarrow>
                            scan_ports n (port + 1) attach m mx hub found (st3\<lparr>enum_ws := disable_port m hub port dev_id (enum_ws st3)\<rparr>)))"

text \<open>The loop that configures the keyboards from index \<open>k\<close> on, \<open>n\<close> of them.\<close>

primrec setup_keyboards ::
  "nat \<Rightarrow> nat \<Rightarrow> 'd usb_methods \<Rightarrow> usb_ep_t \<Rightarrow> u8 \<Rightarrow> int \<Rightarrow> bool \<Rightarrow> 'd usb_enum \<Rightarrow> bool \<times> 'd usb_enum"
where
  "setup_keyboards 0 k m ep speed dev_id found st = (found, st)"
| "setup_keyboards (Suc n) k m ep speed dev_id found st =
     (let kbd = (keyboards st ! k)\<lparr>driver_data := driver_data ep, device_speed := speed, device_id := of_int dev_id\<rparr>;
          st1 = st\<lparr>keyboards := (keyboards st)[k := kbd]\<rparr>;
          (ok, d) = (case configure_kbd_ep m of None \<Rightarrow> (True, bus (enum_ws st1)) | Some conf \<Rightarrow> conf kbd (int k) (bus (enum_ws st1)));
          st2 = st1\<lparr>enum_ws := (enum_ws st1)\<lparr>bus := d\<rparr>\<rparr>
      in if \<not> ok then (False, st2)
         else let (ok2, w) = configure_keyboard m ep (interface_num kbd) (enum_ws st2); st3 = st2\<lparr>enum_ws := w\<rparr>
              in if \<not> ok2 then (found, st3)
                 else setup_keyboards n (k + 1) m ep speed dev_id True
                        (st3\<lparr>num_keyboards := num_keyboards st3 + 1, num_usb_keyboards := num_usb_keyboards st3 + 1\<rparr>))"

definition attach_hub ::
  "(usb_hub_t \<Rightarrow> 'd usb_enum \<Rightarrow> (bool \<times> 'd usb_enum) option) \<Rightarrow> 'd usb_methods \<Rightarrow> usb_hub_t \<Rightarrow> int \<Rightarrow> usb_ep_t \<Rightarrow> u8 \<Rightarrow> u16 \<times> u16 \<Rightarrow>
    'd usb_enum \<Rightarrow> (bool \<times> 'd usb_enum) option"
where
  "attach_hub scan m hub port ep config_num ids st =
     (case build_hub_info m hub port ep (enum_ws st) of
        (None, w1) \<Rightarrow> Some (False, st\<lparr>enum_ws := w1\<rparr>)
      | (Some (hub1, ep1), w1) \<Rightarrow>
          (let new_hub = add_hub_quirks (fst ids) (snd ids) hub1; (ok, w2) = configure_device m ep config_num w1
           in if \<not> ok then Some (False, st\<lparr>enum_ws := w2\<rparr>)
              else let (ok3, d) = (case configure_hub_ep m of None \<Rightarrow> (True, bus w2) | Some conf \<Rightarrow> conf ep1 new_hub (bus w2));
                       st3 = st\<lparr>enum_ws := w2\<lparr>bus := d\<rparr>\<rparr>
                   in if \<not> ok3 then Some (False, st3) else scan new_hub st3))"

definition attach_device ::
  "'d usb_methods \<Rightarrow> nat \<Rightarrow> int \<Rightarrow> usb_ep_t \<Rightarrow> u8 \<Rightarrow> int \<Rightarrow> u8 \<Rightarrow> u8 \<Rightarrow> u8 \<Rightarrow> 'd usb_enum \<Rightarrow> bool \<times> 'd usb_enum"
where
  "attach_device m mx hcd_idx ep speed dev_id config_num num_configs product_str st =
     (let old = num_keyboards st;
          (kbds, new) = get_keyboard_info_from_descriptors mx (config_descriptors (enum_ws st)) (keyboards st) old;
          st1 = st\<lparr>keyboards := kbds\<rparr>
      in if new = old then check_for_usb_msd m hcd_idx ep speed dev_id config_num num_configs product_str st1
         else let (ok, w) = configure_device m ep config_num (enum_ws st1); st2 = st1\<lparr>enum_ws := w\<rparr>
              in if \<not> ok then (False, st2) else setup_keyboards (new - old) old m ep speed dev_id False st2)"

definition find_attached_with ::
  "(usb_hub_t \<Rightarrow> 'd usb_enum \<Rightarrow> (bool \<times> 'd usb_enum) option) \<Rightarrow> 'd usb_methods \<Rightarrow> nat \<Rightarrow> int \<Rightarrow>
    usb_hub_t \<Rightarrow> int \<Rightarrow> u8 \<Rightarrow> int \<Rightarrow> 'd usb_enum \<Rightarrow> (bool \<times> 'd usb_enum) option"
where
  "find_attached_with scan m mx hcd_idx hub port speed dev_id st =
     (case assign_address m hub port speed dev_id (enum_ws st) of
        (None, w) \<Rightarrow> Some (False, st\<lparr>enum_ws := w\<rparr>)
      | (Some ep, w) \<Rightarrow>
          (let dev = ws_buffer w; is_hub = (dev ! 4 = USB_CLASS_HUB);
               (config_num, w1) = get_configuration_descriptors m ep 0 w; st1 = st\<lparr>enum_ws := w1\<rparr>
           in if config_num = 0 then Some (False, st1)
              else if is_hub then attach_hub scan m hub port ep config_num (le16 dev 8, le16 dev 10) st1
              else Some (attach_device m mx hcd_idx ep speed dev_id config_num (dev ! 17) (dev ! 15) st1)))"

primrec scan_hub_ports ::
  "nat \<Rightarrow> 'd usb_methods \<Rightarrow> nat \<Rightarrow> int \<Rightarrow> usb_hub_t \<Rightarrow> 'd usb_enum \<Rightarrow> (bool \<times> 'd usb_enum) option"
where
  "scan_hub_ports 0 m mx hcd_idx hub st = None"
| "scan_hub_ports (Suc depth) m mx hcd_idx hub st =
     (let n = unat (num_ports hub); (ok, w) = power_ports n 1 m hub (enum_ws st); st1 = st\<lparr>enum_ws := w\<rparr>
      in if \<not> ok then Some (False, st1)
         else scan_ports n 1 (find_attached_with (scan_hub_ports depth m mx hcd_idx) m mx hcd_idx) m mx hub False st1)"

definition find_attached_usb_keyboards ::
  "nat \<Rightarrow> 'd usb_methods \<Rightarrow> nat \<Rightarrow> int \<Rightarrow> usb_hub_t \<Rightarrow> int \<Rightarrow> u8 \<Rightarrow> int \<Rightarrow> 'd usb_enum \<Rightarrow> (bool \<times> 'd usb_enum) option"
where
  "find_attached_usb_keyboards depth m mx hcd_idx = find_attached_with (scan_hub_ports depth m mx hcd_idx) m mx hcd_idx"

section \<open>The keyboard queue\<close>

definition HCD_KC_BUFFER_SIZE :: int where "HCD_KC_BUFFER_SIZE = 8"

record kc_ring =
  kc_buffer :: "u8 list"
  kc_index_i :: int
  kc_index_o :: int

definition put_keycode :: "u8 \<Rightarrow> kc_ring \<Rightarrow> kc_ring" where
  "put_keycode key r =
     (let i = kc_index_i r; n = (i + 1) mod HCD_KC_BUFFER_SIZE
      in if n \<noteq> kc_index_o r then r\<lparr>kc_buffer := (kc_buffer r)[nat i := key], kc_index_i := n\<rparr> else r)"

text \<open>The loop over the six key codes of a report: the queue and the number of error codes.\<close>

primrec report_keys :: "u8 list \<Rightarrow> u8 list \<Rightarrow> kc_ring \<Rightarrow> int \<Rightarrow> kc_ring \<times> int" where
  "report_keys [] prev r errors = (r, errors)"
| "report_keys (key # keys) prev r errors =
     (if key > 0x03
      then let key1 = (if list_ex (\<lambda>p. p = key) prev then 0 else key)
           in report_keys keys prev (if key1 \<noteq> 0 then put_keycode key1 r else r) errors
      else report_keys keys prev r (if key \<noteq> 0 then errors + 1 else errors))"

definition process_usb_keyboard_report :: "u8 list \<Rightarrow> u8 list \<Rightarrow> kc_ring \<Rightarrow> bool \<times> kc_ring" where
  "process_usb_keyboard_report report prev r =
     (let (r1, errors) = report_keys (take 6 report) (take 6 prev) r 0 in (errors < 6, r1))"

text \<open>
  \<open>get_usb_keycode\<close> over the list of controllers. A controller is the method that polls its keyboards, together with
  its state and its queue.
\<close>

type_synonym 'd kbd_hcd = "('d \<Rightarrow> kc_ring \<Rightarrow> 'd \<times> kc_ring) \<times> 'd \<times> kc_ring"

primrec get_usb_keycode :: "'d kbd_hcd list \<Rightarrow> u8 \<times> 'd kbd_hcd list" where
  "get_usb_keycode [] = (0, [])"
| "get_usb_keycode (hcd # hcds) =
     (let poll = fst hcd; (d, r) = poll (fst (snd hcd)) (snd (snd hcd)); out = kc_index_o r
      in if out \<noteq> kc_index_i r
         then (kc_buffer r ! nat out, (poll, d, r\<lparr>kc_index_o := (out + 1) mod HCD_KC_BUFFER_SIZE\<rparr>) # hcds)
         else let (key, hcds1) = get_usb_keycode hcds in (key, (poll, d, r) # hcds1))"

section \<open>The drive that was found\<close>

record msd_slot =
  usb_mass_storage_found :: bool
  usb_msd_hcd_idx :: int
  usb_msd_info :: usb_msd_t
  usb_runtime_scan :: bool

text \<open>The methods of a registered controller that the functions below call; the state \<open>'d\<close> is that of all controllers.\<close>

record 'd usb_hcd =
  scan_for_msd :: "(msd_slot \<Rightarrow> 'd \<Rightarrow> msd_slot \<times> 'd) option"
  rearm_keyboards :: "('d \<Rightarrow> 'd) option"

definition find_usb_mass_storage :: "msd_slot \<Rightarrow> usb_msd_t option" where
  "find_usb_mass_storage s =
     (if \<not> usb_mass_storage_found s \<or> usb_msd_hcd_idx s < 0 then None
      else Some ((usb_msd_info s)\<lparr>block_count := 0, block_size := 512\<rparr>))"

definition usb_hcd_available :: "'d usb_hcd list \<Rightarrow> bool" where
  "usb_hcd_available hcds \<longleftrightarrow> length hcds > 0"

primrec scan_controllers :: "'d usb_hcd list \<Rightarrow> msd_slot \<times> 'd \<Rightarrow> msd_slot \<times> 'd" where
  "scan_controllers [] sd = sd"
| "scan_controllers (h # hs) sd =
     (if usb_mass_storage_found (fst sd) then sd
      else scan_controllers hs (case scan_for_msd h of None \<Rightarrow> sd | Some scan \<Rightarrow> scan (fst sd) (snd sd)))"

definition usb_scan_for_msd :: "'d usb_hcd list \<Rightarrow> msd_slot \<times> 'd \<Rightarrow> bool \<times> msd_slot \<times> 'd" where
  "usb_scan_for_msd hcds sd =
     (if usb_mass_storage_found (fst sd) then (True, sd)
      else let (s, d) = scan_controllers hcds ((fst sd)\<lparr>usb_runtime_scan := True\<rparr>, snd sd);
               s1 = s\<lparr>usb_runtime_scan := False\<rparr>
           in (usb_mass_storage_found s1, s1, d))"

definition usb_rearm_keyboards :: "'d usb_hcd list \<Rightarrow> 'd \<Rightarrow> 'd" where
  "usb_rearm_keyboards hcds d = fold (\<lambda>h d. case rearm_keyboards h of None \<Rightarrow> d | Some rearm \<Rightarrow> rearm d) hcds d"

section \<open>Waiting for a register\<close>

text \<open>
  The loops at this value of \<open>timer\<close>: \<open>read\<close> gives the register at each poll and the state after it; the result says
  whether the bits came up in time.
\<close>

primrec wait_until_clr_loop :: "nat \<Rightarrow> ('r \<Rightarrow> u32 \<times> 'r) \<Rightarrow> u32 \<Rightarrow> 'r \<Rightarrow> bool \<times> 'r" where
  "wait_until_clr_loop 0 read bits r = (let (v, r1) = read r in (and v bits = 0, r1))"
| "wait_until_clr_loop (Suc timer) read bits r =
     (let (v, r1) = read r in if and v bits \<noteq> 0 then wait_until_clr_loop timer read bits r1 else (True, r1))"

definition wait_until_clr :: "('r \<Rightarrow> u32 \<times> 'r) \<Rightarrow> u32 \<Rightarrow> nat \<Rightarrow> 'r \<Rightarrow> bool \<times> 'r" where
  "wait_until_clr read bits max_time r = wait_until_clr_loop (max_time div 8) read bits r"

primrec wait_until_set_loop :: "nat \<Rightarrow> ('r \<Rightarrow> u32 \<times> 'r) \<Rightarrow> u32 \<Rightarrow> 'r \<Rightarrow> bool \<times> 'r" where
  "wait_until_set_loop 0 read bits r = (let (v, r1) = read r in (and (not v) bits = 0, r1))"
| "wait_until_set_loop (Suc timer) read bits r =
     (let (v, r1) = read r in if and (not v) bits \<noteq> 0 then wait_until_set_loop timer read bits r1 else (True, r1))"

definition wait_until_set :: "('r \<Rightarrow> u32 \<times> 'r) \<Rightarrow> u32 \<Rightarrow> nat \<Rightarrow> 'r \<Rightarrow> bool \<times> 'r" where
  "wait_until_set read bits max_time r = wait_until_set_loop (max_time div 8) read bits r"

section \<open>USB controllers on the PCI bus\<close>

definition PCI_MAX_BUS :: int where "PCI_MAX_BUS = 256"
definition PCI_MAX_DEV :: int where "PCI_MAX_DEV = 32"
definition PCI_MAX_FUNC :: int where "PCI_MAX_FUNC = 8"
definition MAX_HCI :: nat where "MAX_HCI = 16"

datatype hci_type_t = NOT_HCI | UHCI | OHCI | EHCI | XHCI

record hci_info_t =
  hci_type :: hci_type_t
  hci_bus :: int
  hci_dev :: int
  hci_func :: int

text \<open>The configuration space of the PCI devices, read a byte at a time.\<close>

type_synonym pci_config = "int \<Rightarrow> int \<Rightarrow> int \<Rightarrow> nat \<Rightarrow> u8"

definition pci_config_read16 :: "pci_config \<Rightarrow> int \<Rightarrow> int \<Rightarrow> int \<Rightarrow> nat \<Rightarrow> u16" where
  "pci_config_read16 pci b d f reg = or (ucast (pci b d f reg)) (push_bit 8 (ucast (pci b d f (reg + 1))))"

definition hci_type_of :: "u8 \<Rightarrow> hci_type_t option" where
  "hci_type_of n = (if n = 0 then Some UHCI else if n = 1 then Some OHCI else if n = 2 then Some EHCI else if n = 3 then Some XHCI else None)"

text \<open>What function \<open>f\<close> of a device adds to the list, and whether the loop over the functions ends there.\<close>

definition probe_function :: "pci_config \<Rightarrow> int \<Rightarrow> int \<Rightarrow> int \<Rightarrow> hci_info_t list \<times> bool" where
  "probe_function pci b d f =
     (if pci_config_read16 pci b d f 0x00 \<noteq> 0xFFFF
      then (if pci_config_read16 pci b d f 0x0A = 0x0C03
            then (case hci_type_of (drop_bit 4 (pci b d f 0x09)) of
                    None \<Rightarrow> []
                  | Some t \<Rightarrow> [\<lparr>hci_type = t, hci_bus = b, hci_dev = d, hci_func = f\<rparr>])
            else [],
            f = 0 \<and> and (pci b d f 0x0E) 0x80 = 0)
      else ([], f = 0))"

text \<open>The three loops; they end at once when the list is full.\<close>

primrec scan_functions :: "nat \<Rightarrow> pci_config \<Rightarrow> int \<Rightarrow> int \<Rightarrow> int \<Rightarrow> hci_info_t list \<Rightarrow> hci_info_t list" where
  "scan_functions 0 pci b d f hcis = hcis"
| "scan_functions (Suc n) pci b d f hcis =
     (let (new, stop) = probe_function pci b d f; hcis1 = hcis @ new
      in if length hcis1 = MAX_HCI \<or> stop then hcis1 else scan_functions n pci b d (f + 1) hcis1)"

primrec scan_devices :: "nat \<Rightarrow> pci_config \<Rightarrow> int \<Rightarrow> int \<Rightarrow> hci_info_t list \<Rightarrow> hci_info_t list" where
  "scan_devices 0 pci b d hcis = hcis"
| "scan_devices (Suc n) pci b d hcis =
     (let hcis1 = scan_functions (nat PCI_MAX_FUNC) pci b d 0 hcis
      in if length hcis1 = MAX_HCI then hcis1 else scan_devices n pci b (d + 1) hcis1)"

primrec scan_buses :: "nat \<Rightarrow> pci_config \<Rightarrow> int \<Rightarrow> hci_info_t list \<Rightarrow> hci_info_t list" where
  "scan_buses 0 pci b hcis = hcis"
| "scan_buses (Suc n) pci b hcis =
     (let hcis1 = scan_devices (nat PCI_MAX_DEV) pci b 0 hcis
      in if length hcis1 = MAX_HCI then hcis1 else scan_buses n pci (b + 1) hcis1)"

definition find_usb_controllers :: "pci_config \<Rightarrow> hci_info_t list" where
  "find_usb_controllers pci = scan_buses (nat PCI_MAX_BUS) pci 0 []"

text \<open>
  The two probe loops of \<open>find_usb_keyboards\<close>: the EHCI controllers first, then the others, as long as there is room
  for a controller. \<open>probe\<close> is \<open>probe_usb_controller\<close>: whether the controller was registered.
\<close>

definition MAX_HCD :: nat where "MAX_HCD = 8"

primrec probe_loop ::
  "(hci_info_t \<Rightarrow> bool) \<Rightarrow> (hci_info_t \<Rightarrow> 's \<Rightarrow> bool \<times> 's) \<Rightarrow> hci_info_t list \<Rightarrow> nat \<times> 's \<Rightarrow> nat \<times> 's"
where
  "probe_loop wanted probe [] ns = ns"
| "probe_loop wanted probe (h # hs) ns =
     (if fst ns \<ge> MAX_HCD then ns
      else probe_loop wanted probe hs
             (if wanted h then (let (registered, s) = probe h (snd ns) in (if registered then fst ns + 1 else fst ns, s)) else ns))"

definition probe_controllers :: "u32 \<Rightarrow> (hci_info_t \<Rightarrow> 's \<Rightarrow> bool \<times> 's) \<Rightarrow> hci_info_t list \<Rightarrow> 's \<Rightarrow> nat \<times> 's" where
  "probe_controllers options probe hcis s =
     probe_loop (\<lambda>h. hci_type h \<noteq> NOT_HCI \<and> hci_type h \<noteq> EHCI) probe hcis
       (probe_loop (\<lambda>h. hci_type h = EHCI \<and> and options USB_IGNORE_EHCI = 0) probe hcis (0, s))"

end
