(* ===== verification/Usb_Hcd_Spec.thy ===== *)
theory Usb_Hcd_Spec
  imports Usb_Hcd
begin

text \<open>
  Properties of the USB enumeration and of the keyboard queue: the enumeration ends whatever hubs are plugged in, and the
  key codes are delivered once and in order.
\<close>

section \<open>The enumeration ends\<close>

text \<open>The keyboard table is never written outside, and the count of devices never goes back.\<close>

definition table_ok :: "nat \<Rightarrow> 'd usb_enum \<Rightarrow> bool" where
  "table_ok mx st \<longleftrightarrow> length (keyboards st) = mx \<and> num_keyboards st \<le> mx"

lemma table_ok_update [simp]:
  "table_ok mx (st\<lparr>enum_ws := w\<rparr>) = table_ok mx st" "table_ok mx (st\<lparr>num_devices := n\<rparr>) = table_ok mx st"
  "table_ok mx (st\<lparr>msd_found := b\<rparr>) = table_ok mx st" "table_ok mx (st\<lparr>msd_info := i\<rparr>) = table_ok mx st"
  "table_ok mx (st\<lparr>msd_hcd_idx := x\<rparr>) = table_ok mx st" "table_ok mx (st\<lparr>msd_name := s\<rparr>) = table_ok mx st"
  by (simp_all add: table_ok_def)

text \<open>A step of the enumeration keeps the table and does not count devices.\<close>

definition keeps_table :: "nat \<Rightarrow> 'd usb_enum \<Rightarrow> 'd usb_enum \<Rightarrow> bool" where
  "keeps_table mx st st1 \<longleftrightarrow> table_ok mx st1 \<and> num_devices st1 = num_devices st"

lemma keeps_ws: "table_ok mx st \<Longrightarrow> keeps_table mx st (st\<lparr>enum_ws := w\<rparr>)"
  by (simp add: keeps_table_def)

lemma keyboard_interfaces_bound:
  "keyboard_interfaces mx descs kbd kbds n = (kbds1, n1) \<Longrightarrow> n \<le> mx \<Longrightarrow> length kbds1 = length kbds \<and> n \<le> n1 \<and> n1 \<le> mx"
  by (induction descs arbitrary: kbd kbds n) (fastforce split: if_splits option.splits)+

lemma check_msd_keeps:
  assumes "check_for_usb_msd m hcd_idx ep speed dev_id c n p st = (b, st1)" "table_ok mx st"
  shows "keeps_table mx st st1"
  using assms unfolding check_for_usb_msd_def Let_def
  by (auto simp: keeps_table_def split: option.splits if_splits prod.splits)

lemma setup_keyboards_keeps:
  "setup_keyboards n k m ep speed dev_id found st = (b, st1) \<Longrightarrow> length (keyboards st) = mx \<Longrightarrow> num_keyboards st + n \<le> mx \<Longrightarrow>
    keeps_table mx st st1"
proof (induction n arbitrary: k found st)
  case 0
  then show ?case by (simp add: keeps_table_def table_ok_def)
next
  case (Suc n)
  show ?case
    using Suc.prems Suc.IH
    by (fastforce simp: keeps_table_def table_ok_def Let_def split: if_splits prod.splits)
qed

lemma attach_device_keeps:
  assumes "attach_device m mx hcd_idx ep speed dev_id c n p st = (b, st1)" "table_ok mx st"
  shows "keeps_table mx st st1"
proof -
  obtain kbds new where k: "get_keyboard_info_from_descriptors mx (config_descriptors (enum_ws st)) (keyboards st) (num_keyboards st) = (kbds, new)"
    by fastforce
  then have b: "length kbds = mx" "num_keyboards st \<le> new" "new \<le> mx"
    using keyboard_interfaces_bound assms(2) by (force simp: get_keyboard_info_from_descriptors_def table_ok_def)+
  let ?st1 = "st\<lparr>keyboards := kbds\<rparr>"
  have ok: "table_ok mx ?st1" "num_devices ?st1 = num_devices st" using assms(2) b(1) by (simp_all add: table_ok_def)
  show ?thesis
  proof (cases "new = num_keyboards st")
    case True
    then show ?thesis using assms(1) k check_msd_keeps [OF _ ok(1)] ok(2) by (auto simp: attach_device_def keeps_table_def)
  next
    case False
    obtain conf w where c: "configure_device m ep c (enum_ws st) = (conf, w)" by fastforce
    let ?st2 = "?st1\<lparr>enum_ws := w\<rparr>"
    have "length (keyboards ?st2) = mx" "num_keyboards ?st2 + (new - num_keyboards st) \<le> mx" using b by simp_all
    then show ?thesis
      using assms(1) k False c ok setup_keyboards_keeps [of "new - num_keyboards st" "num_keyboards st" m ep speed dev_id False ?st2 b st1 mx]
      by (auto simp: attach_device_def Let_def keeps_table_def split: if_splits)
  qed
qed

lemma new_device_id_keeps:
  assumes "new_device_id m st = (dev_id, st1)" "table_ok mx st"
  shows "keeps_table mx st st1"
  using assms by (auto simp: new_device_id_def keeps_table_def split: option.splits prod.splits)

text \<open>\<open>returns mx k r\<close>: \<open>r\<close> is a result, with a sound table and at least \<open>k\<close> devices.\<close>

definition returns :: "nat \<Rightarrow> int \<Rightarrow> (bool \<times> 'd usb_enum) option \<Rightarrow> bool" where
  "returns mx k r \<longleftrightarrow> (\<exists>b st1. r = Some (b, st1) \<and> table_ok mx st1 \<and> k \<le> num_devices st1)"

lemma returns_mono: "returns mx k r \<Longrightarrow> j \<le> k \<Longrightarrow> returns mx j r"
  by (force simp: returns_def)

lemma returns_ws: "table_ok mx st \<Longrightarrow> k \<le> num_devices st \<Longrightarrow> returns mx k (Some (b, st\<lparr>enum_ws := w\<rparr>))"
  by (simp add: returns_def)

lemma scan_ports_returns:
  assumes slot: "allocate_slot m = None"
    and attach: "\<And>hub port speed st. k < num_devices st \<Longrightarrow> table_ok mx st \<Longrightarrow>
      returns mx (num_devices st) (attach hub port speed (num_devices st) st)"
  shows "k \<le> num_devices st \<Longrightarrow> table_ok mx st \<Longrightarrow> returns mx (num_devices st) (scan_ports n port attach m mx hub found st)"
proof (induction n arbitrary: port found st)
  case 0
  then show ?case by (simp add: returns_def)
next
  case (Suc n)
  show ?case
  proof (cases "mx \<le> num_keyboards st \<and> msd_found st")
    case True
    then show ?thesis using Suc.prems by (simp add: returns_def)
  next
    case False
    obtain status w where w: "wake_port m hub port (enum_ws st) = (status, w)" by fastforce
    show ?thesis
    proof (cases status)
      case None
      then show ?thesis using Suc.IH [of "st\<lparr>enum_ws := w\<rparr>"] Suc.prems False w by auto
    next
      case (Some v)
      let ?st1 = "st\<lparr>enum_ws := w, num_devices := num_devices st + 1\<rparr>"
      have id: "new_device_id m ?st1 = (num_devices ?st1, ?st1)" using slot by (simp add: new_device_id_def)
      have "returns mx (num_devices ?st1) (attach hub port (port_speed hub v) (num_devices ?st1) ?st1)"
        by (rule attach) (use Suc.prems in simp_all)
      then obtain b st3 where a: "attach hub port (port_speed hub v) (num_devices ?st1) ?st1 = Some (b, st3)"
          "table_ok mx st3" "num_devices st + 1 \<le> num_devices st3" by (auto simp: returns_def)
      show ?thesis
      proof (cases b)
        case True
        have "returns mx (num_devices st) (scan_ports n (port + 1) attach m mx hub True st3)"
          using returns_mono [OF Suc.IH [of st3 "port + 1" True], of "num_devices st"] a Suc.prems by simp
        then show ?thesis using False w Some id a(1) slot True by auto
      next
        case nofind: False
        let ?st4 = "st3\<lparr>enum_ws := disable_port m hub port (num_devices ?st1) (enum_ws st3)\<rparr>"
        have "returns mx (num_devices st) (scan_ports n (port + 1) attach m mx hub found ?st4)"
          using returns_mono [OF Suc.IH [of ?st4 "port + 1" found], of "num_devices st"] a Suc.prems by simp
        then show ?thesis using False w Some id a(1) slot nofind by auto
      qed
    qed
  qed
qed

lemma find_attached_returns:
  assumes addr: "\<And>hub port speed w. dev_id > USB_MAX_ADDRESS \<Longrightarrow> fst (assign_address m hub port speed dev_id w) = None"
    and scan: "\<And>hub st. dev_id \<le> USB_MAX_ADDRESS \<Longrightarrow> k \<le> num_devices st \<Longrightarrow> table_ok mx st \<Longrightarrow> returns mx k (scan hub st)"
    and st: "k \<le> num_devices st" "table_ok mx st"
  shows "returns mx k (find_attached_with scan m mx hcd_idx hub port speed dev_id st)"
proof -
  obtain r w where a: "assign_address m hub port speed dev_id (enum_ws st) = (r, w)" by fastforce
  show ?thesis
  proof (cases r)
    case None
    then show ?thesis using a st returns_ws by (simp add: find_attached_with_def)
  next
    case (Some ep)
    then have small: "dev_id \<le> USB_MAX_ADDRESS" using addr [of hub port speed "enum_ws st"] a by force
    obtain c w1 where c: "get_configuration_descriptors m ep 0 w = (c, w1)" by fastforce
    let ?st1 = "st\<lparr>enum_ws := w1\<rparr>"
    have "returns mx k (attach_hub scan m hub port ep c ids ?st1)" for ids
      using scan [OF small] st unfolding attach_hub_def Let_def
      by (auto simp: returns_ws returns_def split: option.splits prod.splits if_splits)
    moreover have "returns mx k (Some (attach_device m mx hcd_idx ep speed dev_id c n p ?st1))" for n p
      using attach_device_keeps [of m mx hcd_idx ep speed dev_id c n p ?st1] st
      by (cases "attach_device m mx hcd_idx ep speed dev_id c n p ?st1") (auto simp: returns_def keeps_table_def)
    ultimately show ?thesis using a Some c st by (simp add: find_attached_with_def Let_def returns_ws)
  qed
qed

lemma scan_hub_returns:
  assumes addr: "\<And>hub port speed dev_id w. dev_id > USB_MAX_ADDRESS \<Longrightarrow> fst (assign_address m hub port speed dev_id w) = None"
    and slot: "allocate_slot m = None"
  shows "USB_MAX_ADDRESS < int depth + k \<Longrightarrow> k \<le> USB_MAX_ADDRESS \<Longrightarrow> k \<le> num_devices st \<Longrightarrow> table_ok mx st \<Longrightarrow>
    returns mx k (scan_hub_ports depth m mx hcd_idx hub st)"
proof (induction depth arbitrary: k hub st)
  case 0
  then show ?case by simp
next
  case (Suc depth)
  obtain ok w where p: "power_ports (unat (num_ports hub)) 1 m hub (enum_ws st) = (ok, w)" by fastforce
  let ?st1 = "st\<lparr>enum_ws := w\<rparr>"
  have attach: "returns mx (num_devices s) (find_attached_with (scan_hub_ports depth m mx hcd_idx) m mx hcd_idx hub port speed (num_devices s) s)"
    if s: "k < num_devices s" "table_ok mx s" for hub port speed s
  proof (rule find_attached_returns [OF addr])
    show "returns mx (num_devices s) (scan_hub_ports depth m mx hcd_idx hub st)"
      if "num_devices s \<le> USB_MAX_ADDRESS" "num_devices s \<le> num_devices st" "table_ok mx st" for hub st
      by (rule Suc.IH) (use that Suc.prems s in simp_all)
  qed (use s in simp_all)
  have "returns mx (num_devices ?st1)
      (scan_ports (unat (num_ports hub)) 1 (find_attached_with (scan_hub_ports depth m mx hcd_idx) m mx hcd_idx) m mx hub False ?st1)"
    by (rule scan_ports_returns [OF slot, of k]) (use attach Suc.prems in simp_all)
  then have "returns mx k
      (scan_ports (unat (num_ports hub)) 1 (find_attached_with (scan_hub_ports depth m mx hcd_idx) m mx hcd_idx) m mx hub False ?st1)"
    by (rule returns_mono) (use Suc.prems in simp)
  then show ?case using p Suc.prems(3,4) by (cases ok) (simp_all add: returns_ws)
qed

lemma assign_refuses: "dev_id > USB_MAX_ADDRESS \<Longrightarrow> fst (assign_usb_address options m hub port speed dev_id w) = None"
  by (simp add: assign_usb_address_def)

text \<open>
  C7: the enumeration comes to an end. With a driver that gives out addresses as \<open>assign_usb_address\<close> does and has no
  slots of its own, however the devices answer and however hubs are nested, \<open>find_attached_usb_keyboards\<close> returns
  within 128 nested hubs; the keyboard table is then within its bounds and the count of devices has not gone back.
\<close>

theorem enumeration_ends:
  assumes "\<And>hub port speed dev_id w. dev_id > USB_MAX_ADDRESS \<Longrightarrow> fst (assign_address m hub port speed dev_id w) = None"
    and "allocate_slot m = None" "length (keyboards st) = mx" "num_keyboards st \<le> mx" "0 \<le> num_devices st"
  shows "\<exists>found st1. find_attached_usb_keyboards 128 m mx hcd_idx hub port speed (num_devices st) st = Some (found, st1) \<and>
    length (keyboards st1) = mx \<and> num_keyboards st1 \<le> mx \<and> num_devices st \<le> num_devices st1"
proof -
  have ok: "table_ok mx st" using assms(3,4) by (simp add: table_ok_def)
  have "returns mx (num_devices st) (find_attached_usb_keyboards 128 m mx hcd_idx hub port speed (num_devices st) st)"
    unfolding find_attached_usb_keyboards_def
  proof (rule find_attached_returns [OF assms(1) _ _ ok])
    show "returns mx (num_devices st) (scan_hub_ports 128 m mx hcd_idx hub s)"
      if "num_devices st \<le> USB_MAX_ADDRESS" "num_devices st \<le> num_devices s" "table_ok mx s" for hub s
      by (rule scan_hub_returns [OF assms(1,2)]) (use that assms(5) in \<open>simp_all add: USB_MAX_ADDRESS_def\<close>)
  qed simp_all
  then show ?thesis by (auto simp: returns_def table_ok_def)
qed


section \<open>A keyboard\<close>

text \<open>A bus with one boot keyboard, which answers every request.\<close>

definition kbd_device :: "u8 list" where
  "kbd_device = [18, 1, 0, 2, 0, 0, 0, 8, 0x6D, 0x04, 0x1C, 0xC3, 0, 1, 0, 0, 0, 1]"

definition kbd_config :: "u8 list" where
  "kbd_config = [9, 2, 25, 0, 1, 1, 0, 0xA0, 50, 9, 4, 0, 0, 1, 3, 1, 1, 0, 7, 5, 0x81, 3, 8, 0, 10]"

definition kbd_answer :: "usb_ep_t \<Rightarrow> usb_setup_pkt_t \<Rightarrow> u8 list \<Rightarrow> unit \<Rightarrow> bool \<times> u8 list \<times> unit" where
  "kbd_answer ep pkt buf d = (True, take (length buf) (if pkt_value pkt = 0x100 then kbd_device else kbd_config), d)"

definition no_methods :: "unit usb_methods" where
  "no_methods = \<lparr>setup_request = \<lambda>ep pkt d. (True, d), get_data_request = kbd_answer, bulk_out = \<lambda>ep bs d. (False, d),
     bulk_in = \<lambda>ep bs d. (False, bs, d), reset_bulk_ep = None, configure_bulk_ep = None,
     reset_root_hub_port = \<lambda>port d. (True, d), allocate_slot = None, release_slot = None,
     assign_address = \<lambda>hub port speed dev_id w. (None, w), configure_hub_ep = None, configure_kbd_ep = None\<rparr>"

definition kbd_methods :: "unit usb_methods" where
  "kbd_methods = no_methods\<lparr>assign_address := assign_usb_address 0 no_methods\<rparr>"

definition root_hub :: usb_hub_t where
  "root_hub = \<lparr>hub_ep0 = zero_ep, hub_route = 0, hub_level = 0, num_ports = 1, tt_think_time = 0, power_up_delay = 0,
     hs_parent = \<lparr>parent_device_id = 0, parent_port_num = 0\<rparr>, hub_quirks = 0\<rparr>"

definition kbd_start :: "unit usb_enum" where
  "kbd_start = \<lparr>enum_ws = \<lparr>bus = (), ws_buffer = replicate 512 0, ws_length = 0\<rparr>, num_devices = 1, keyboards = replicate 2 zero_ep,
     num_keyboards = 0, num_usb_keyboards = 0, msd_found = False, msd_hcd_idx = - 1,
     msd_info = \<lparr>ep0 = zero_ep, ep_in = zero_ep, ep_out = zero_ep, tag = 0, block_count = 0, block_size = 0, use_16 = False\<rparr>,
     msd_name = []\<rparr>"


lemma kbd_found:
  "map_option (\<lambda>(b, s). (b, num_keyboards s)) (find_attached_usb_keyboards 128 kbd_methods 2 0 root_hub 1 USB_SPEED_LOW 1 kbd_start) =
    Some (True, 1)"
  by code_simp

theorem enumeration_ends_witness:
  "\<exists>st1. find_attached_usb_keyboards 128 kbd_methods 2 0 root_hub 1 USB_SPEED_LOW 1 kbd_start = Some (True, st1) \<and>
    num_keyboards st1 = 1 \<and> length (keyboards st1) = 2"
proof -
  have s: "length (keyboards kbd_start) = 2" "num_keyboards kbd_start \<le> 2" "0 \<le> num_devices kbd_start" "num_devices kbd_start = 1"
    by (simp_all add: kbd_start_def)
  have "allocate_slot kbd_methods = None" by (simp add: kbd_methods_def no_methods_def)
  then obtain found st1 where "find_attached_usb_keyboards 128 kbd_methods 2 0 root_hub 1 USB_SPEED_LOW 1 kbd_start = Some (found, st1)"
      "length (keyboards st1) = 2"
    using enumeration_ends [of kbd_methods kbd_start 2 0 root_hub 1 USB_SPEED_LOW, OF _ _ s(1-3)] s(4)
    by (auto simp: kbd_methods_def assign_refuses)
  then show ?thesis using kbd_found by auto
qed

section \<open>The key codes come out in order\<close>

text \<open>What a queue of bounded size promises to the code that fills it: a key that does not fit is dropped.\<close>

locale bounded_queue =
  fixes ok :: "'q \<Rightarrow> bool" and contents :: "'q \<Rightarrow> 'k list" and put :: "'k \<Rightarrow> 'q \<Rightarrow> 'q" and capacity :: nat
  assumes put_ok: "ok q \<Longrightarrow> ok (put k q)"
    and put_contents: "ok q \<Longrightarrow> contents (put k q) = (if length (contents q) < capacity then contents q @ [k] else contents q)"
    and bounded: "ok q \<Longrightarrow> length (contents q) \<le> capacity"
begin

lemma put_take: "ok q \<Longrightarrow> contents (put k q) = take capacity (contents q @ [k])"
  using bounded [of q] put_contents [of q k] by auto

lemma put_all: "ok q \<Longrightarrow> ok (fold put ks q) \<and> contents (fold put ks q) = take capacity (contents q @ ks)"
proof (induction ks arbitrary: q)
  case Nil
  then show ?case using bounded by simp
next
  case (Cons k ks)
  have "take capacity (take capacity (contents q @ [k]) @ ks) = take capacity (contents q @ k # ks)"
    by (cases "length (contents q) < capacity") (simp_all add: min_def not_less)
  then show ?case using Cons.IH [OF put_ok [OF Cons.prems]] put_take [OF Cons.prems] by simp
qed

end

definition ring_ok :: "kc_ring \<Rightarrow> bool" where
  "ring_ok r \<longleftrightarrow> length (kc_buffer r) = 8 \<and> 0 \<le> kc_index_i r \<and> kc_index_i r < 8 \<and> 0 \<le> kc_index_o r \<and> kc_index_o r < 8"

definition ring_size :: "kc_ring \<Rightarrow> nat" where
  "ring_size r = nat ((kc_index_i r - kc_index_o r) mod 8)"

definition ring_keys :: "kc_ring \<Rightarrow> u8 list" where
  "ring_keys r = map (\<lambda>j. kc_buffer r ! nat ((kc_index_o r + int j) mod 8)) [0..<ring_size r]"

lemma ring_wrap:
  fixes i out j :: int
  assumes "0 \<le> i" "i < 8" "0 \<le> out" "out < 8"
  shows "(i + 1) mod 8 \<noteq> out \<Longrightarrow> ((i + 1) mod 8 - out) mod 8 = (i - out) mod 8 + 1"
    and "(i + 1) mod 8 = out \<Longrightarrow> (i - out) mod 8 = 7"
    and "(i - out) mod 8 < 8" "(out + (i - out) mod 8) mod 8 = i"
    and "0 \<le> j \<Longrightarrow> j < (i - out) mod 8 \<Longrightarrow> (out + j) mod 8 \<noteq> i"
    and "i \<noteq> out \<Longrightarrow> (i - (out + 1) mod 8) mod 8 = (i - out) mod 8 - 1" "i \<noteq> out \<Longrightarrow> 0 < (i - out) mod 8"
    and "((out + 1) mod 8 + j) mod 8 = (out + (j + 1)) mod 8"
proof -
  let ?n = "(i - out) mod 8"
  have n: "0 \<le> ?n" "?n < 8" by simp_all
  then show "?n < 8" by simp
  have same: "i mod 8 = i" "out mod 8 = out" using assms by simp_all
  show around: "(out + ?n) mod 8 = i" using same(1) by (simp add: mod_add_right_eq)
  have "((i + 1) mod 8 - out) mod 8 = (?n + 1) mod 8" using mod_add_left_eq [of "i - out" 8 1] by (simp add: mod_diff_left_eq algebra_simps)
  moreover have "(i + 1) mod 8 \<noteq> out \<Longrightarrow> ?n \<noteq> 7"
  proof
    assume a: "(i + 1) mod 8 \<noteq> out" "?n = 7"
    have "(i + 1) mod 8 = (out + ?n + 1) mod 8" using around by (metis mod_add_left_eq)
    then show False using a same(2) by (simp add: add.assoc)
  qed
  ultimately show "(i + 1) mod 8 \<noteq> out \<Longrightarrow> ((i + 1) mod 8 - out) mod 8 = ?n + 1" using n by simp
  show "(i + 1) mod 8 = out \<Longrightarrow> ?n = 7"
  proof -
    assume "(i + 1) mod 8 = out"
    then have "?n = (i - (i + 1)) mod 8" by (metis mod_diff_right_eq)
    then show ?thesis by simp
  qed
  show "(out + j) mod 8 \<noteq> i" if "0 \<le> j" "j < ?n"
  proof
    assume "(out + j) mod 8 = i"
    then have "?n = ((out + j) - out) mod 8" by (metis mod_diff_left_eq)
    then show False using that n by simp
  qed
  show pos: "0 < ?n" if "i \<noteq> out" using around same that n(1) by (cases "?n = 0") auto
  have "(i - (out + 1) mod 8) mod 8 = (?n - 1) mod 8" using mod_diff_left_eq [of "i - out" 8 1] by (simp add: mod_diff_right_eq algebra_simps)
  then show "(i - (out + 1) mod 8) mod 8 = ?n - 1" if "i \<noteq> out" using pos [OF that] n by simp
  show "((out + 1) mod 8 + j) mod 8 = (out + (j + 1)) mod 8" using mod_add_left_eq [of "out + 1" 8 j] by (simp add: ac_simps)
qed

lemma ring_put_ok: "ring_ok r \<Longrightarrow> ring_ok (put_keycode k r)"
  by (auto simp: put_keycode_def ring_ok_def HCD_KC_BUFFER_SIZE_def Let_def)

lemma ring_size_7: "ring_ok r \<Longrightarrow> ring_size r \<le> 7"
  using ring_wrap(3) [of "kc_index_i r" "kc_index_o r"] by (simp add: ring_ok_def ring_size_def)

lemma length_ring_keys [simp]: "length (ring_keys r) = ring_size r"
  by (simp add: ring_keys_def)

lemma ring_put_keys:
  assumes "ring_ok r"
  shows "ring_keys (put_keycode k r) = (if length (ring_keys r) < 7 then ring_keys r @ [k] else ring_keys r)"
proof -
  let ?i = "kc_index_i r" and ?o = "kc_index_o r"
  have b: "0 \<le> ?i" "?i < 8" "0 \<le> ?o" "?o < 8" "length (kc_buffer r) = 8" using assms by (simp_all add: ring_ok_def)
  note wrap = ring_wrap [OF b(1-4)]
  show ?thesis
  proof (cases "(?i + 1) mod 8 = ?o")
    case True
    then have "ring_size r = 7" using wrap(2) by (simp add: ring_size_def)
    then show ?thesis using True by (simp add: put_keycode_def HCD_KC_BUFFER_SIZE_def Let_def)
  next
    case False
    let ?r1 = "r\<lparr>kc_buffer := (kc_buffer r)[nat ?i := k], kc_index_i := (?i + 1) mod 8\<rparr>"
    have p: "put_keycode k r = ?r1" using False by (simp add: put_keycode_def HCD_KC_BUFFER_SIZE_def Let_def)
    have pos: "0 \<le> (?i - ?o) mod 8" by simp
    have sz: "ring_size ?r1 = Suc (ring_size r)" using wrap(1) [OF False] pos by (simp add: ring_size_def nat_add_distrib)
    then have small: "ring_size r < 7" using ring_size_7 [OF ring_put_ok [OF assms], of k] p by simp
    have old: "(kc_buffer r)[nat ?i := k] ! nat ((?o + int j) mod 8) = kc_buffer r ! nat ((?o + int j) mod 8)" if "j < ring_size r" for j
    proof -
      have "(?o + int j) mod 8 \<noteq> ?i" by (rule wrap(5)) (use that pos in \<open>simp_all add: ring_size_def zless_nat_eq_int_zless\<close>)
      then have "nat ?i \<noteq> nat ((?o + int j) mod 8)" using b(1) by (simp add: eq_nat_nat_iff)
      then show ?thesis by simp
    qed
    have new: "(kc_buffer r)[nat ?i := k] ! nat ((?o + int (ring_size r)) mod 8) = k"
      using wrap(4) b(2,5) pos by (simp add: ring_size_def)
    have "ring_keys ?r1 = map (\<lambda>j. (kc_buffer r)[nat ?i := k] ! nat ((?o + int j) mod 8)) [0..<Suc (ring_size r)]"
      by (simp add: ring_keys_def sz del: upt_Suc)
    also have "\<dots> = map (\<lambda>j. kc_buffer r ! nat ((?o + int j) mod 8)) [0..<ring_size r] @ [k]"
      using old new by simp
    finally show ?thesis using small p by (simp add: ring_keys_def [of r])
  qed
qed

interpretation kbd: bounded_queue ring_ok ring_keys put_keycode 7
  by unfold_locales (simp_all add: ring_put_ok ring_put_keys ring_size_7)

lemma ring_get:
  assumes "ring_ok r" "kc_index_o r \<noteq> kc_index_i r"
  shows "ring_keys r = kc_buffer r ! nat (kc_index_o r) # ring_keys (r\<lparr>kc_index_o := (kc_index_o r + 1) mod 8\<rparr>)"
proof -
  let ?i = "kc_index_i r" and ?o = "kc_index_o r"
  have b: "0 \<le> ?i" "?i < 8" "0 \<le> ?o" "?o < 8" using assms(1) by (simp_all add: ring_ok_def)
  note wrap = ring_wrap [OF b]
  let ?r1 = "r\<lparr>kc_index_o := (?o + 1) mod 8\<rparr>"
  have "?i \<noteq> ?o" using assms(2) by simp
  then have sz: "ring_size r = Suc (ring_size ?r1)" using wrap(6,7) by (simp add: ring_size_def nat_diff_distrib)
  have "ring_keys r = map (\<lambda>j. kc_buffer r ! nat ((?o + int j) mod 8)) (0 # map Suc [0..<ring_size ?r1])"
    unfolding ring_keys_def sz by (simp add: upt_conv_Cons map_Suc_upt del: upt_Suc)
  also have "\<dots> = kc_buffer r ! nat (?o mod 8) # map (\<lambda>j. kc_buffer r ! nat ((?o + (int j + 1)) mod 8)) [0..<ring_size ?r1]"
    by (simp add: comp_def add.commute add.left_commute)
  also have "\<dots> = kc_buffer r ! nat ?o # ring_keys ?r1" using b(3,4) wrap(8) by (simp add: ring_keys_def)
  finally show ?thesis .
qed

definition new_keys :: "u8 list \<Rightarrow> u8 list \<Rightarrow> u8 list" where
  "new_keys report prev = filter (\<lambda>k. k > 0x03 \<and> k \<notin> set prev) report"

definition error_keys :: "u8 list \<Rightarrow> u8 list" where
  "error_keys report = filter (\<lambda>k. k \<noteq> 0 \<and> \<not> k > 0x03) report"

lemma report_keys_fold:
  "report_keys keys prev r errors = (fold put_keycode (new_keys keys prev) r, errors + int (length (error_keys keys)))"
proof (induction keys arbitrary: r errors)
  case (Cons k ks)
  have "k > 0x03 \<Longrightarrow> k \<noteq> 0" by auto
  then show ?case using Cons.IH by (auto simp: new_keys_def error_keys_def list_ex_iff)
qed (simp add: new_keys_def error_keys_def)

text \<open>
  C8: key presses are delivered once and in order. A report appends to the queue exactly the keys that are down now and
  were not down in the previous report, as far as there is room, and is refused exactly when all six codes are error
  codes; the next \<open>get_usb_keycode\<close> takes the oldest key from the queue, and gives 0 when it is empty.
\<close>

theorem keyboard_fifo:
  assumes "ring_ok r" "length report = 6" "length prev = 6"
    and "process_usb_keyboard_report report prev r = (accepted, r1)"
  shows "ring_ok r1 \<and> ring_keys r1 = take 7 (ring_keys r @ new_keys report prev) \<and>
    (accepted = (length (error_keys report) < 6)) \<and>
    (\<exists>r2. get_usb_keycode [(\<lambda>d r. (d, r), d, r1)] =
        ((case ring_keys r1 of [] \<Rightarrow> 0 | k # _ \<Rightarrow> k), [(\<lambda>d r. (d, r), d, r2)]) \<and> ring_keys r2 = tl (ring_keys r1))"
proof -
  have r1: "r1 = fold put_keycode (new_keys report prev) r" "accepted = (length (error_keys report) < 6)"
    using assms(2-4) by (simp_all add: process_usb_keyboard_report_def report_keys_fold)
  have q: "ring_ok r1" "ring_keys r1 = take 7 (ring_keys r @ new_keys report prev)"
    using kbd.put_all [OF assms(1)] r1(1) by simp_all
  have "\<exists>r2. get_usb_keycode [(\<lambda>d r. (d, r), d, r1)] =
        ((case ring_keys r1 of [] \<Rightarrow> 0 | k # _ \<Rightarrow> k), [(\<lambda>d r. (d, r), d, r2)]) \<and> ring_keys r2 = tl (ring_keys r1)"
  proof (cases "kc_index_o r1 = kc_index_i r1")
    case True
    then have "ring_keys r1 = []" by (simp add: ring_keys_def ring_size_def)
    then show ?thesis using True by (simp add: Let_def)
  next
    case False
    show ?thesis using ring_get [OF q(1) False] False by (simp add: Let_def HCD_KC_BUFFER_SIZE_def)
  qed
  then show ?thesis using q r1(2) by simp
qed

theorem keyboard_fifo_witness:
  "ring_keys (snd (process_usb_keyboard_report [4, 5, 6, 0, 0, 0] [5, 0, 0, 0, 0, 0] \<lparr>kc_buffer = replicate 8 9, kc_index_i = 7, kc_index_o = 5\<rparr>)) =
    [9, 9, 4, 6]"
proof -
  let ?r = "\<lparr>kc_buffer = replicate 8 9, kc_index_i = 7, kc_index_o = 5\<rparr> :: kc_ring"
  have ok: "ring_ok ?r" by (simp add: ring_ok_def)
  have "process_usb_keyboard_report [4, 5, 6, 0, 0, 0] [5, 0, 0, 0, 0, 0] ?r =
      (fst (process_usb_keyboard_report [4, 5, 6, 0, 0, 0] [5, 0, 0, 0, 0, 0] ?r),
       snd (process_usb_keyboard_report [4, 5, 6, 0, 0, 0] [5, 0, 0, 0, 0, 0] ?r))"
    by simp
  from keyboard_fifo [OF ok _ _ this, of "()"]
  have "ring_keys (snd (process_usb_keyboard_report [4, 5, 6, 0, 0, 0] [5, 0, 0, 0, 0, 0] ?r)) =
      take 7 (ring_keys ?r @ new_keys [4, 5, 6, 0, 0, 0] [5, 0, 0, 0, 0, 0])"
    by simp
  moreover have "ring_keys ?r = [9, 9]" by code_simp
  ultimately show ?thesis by (simp add: new_keys_def)
qed

end
