(* ===== verification/Config_File.thy ===== *)
theory Config_File
  imports Usb_Hcd Heap Fat32 Config_Menu
begin

text \<open>
  The settings on the drive (\<open>app/config.c\<close>): \<open>save_app_config\<close>, \<open>delete_app_config\<close> and \<open>initial_config\<close>. The file
  \<open>CONFIG.BIN\<close> holds the structure \<open>app_config_t\<close> as it lies in memory; the offsets below are those of the x86 builds.
\<close>

section \<open>The file\<close>

definition APP_CONFIG_MAGIC :: u32 where "APP_CONFIG_MAGIC = 0x4D543836"
definition APP_CONFIG_VERSION :: u32 where "APP_CONFIG_VERSION = 1"

record app_config_t =
  magic :: u32
  version :: u32
  cfg_max_pass_num :: u32
  cfg_continue_on_error :: bool
  cfg_test_enabled :: "bool list"
  cfg_test_sequence :: "u32 list"
  language :: u32

definition bool_byte :: "bool \<Rightarrow> u8" where "bool_byte b = (if b then 1 else 0)"

text \<open>The structure in memory, with three bytes of padding between the flags and the sequence.\<close>

definition config_bytes :: "app_config_t \<Rightarrow> u8 list" where
  "config_bytes c = bytes32 (magic c) @ bytes32 (version c) @ bytes32 (cfg_max_pass_num c) @ [bool_byte (cfg_continue_on_error c)] @
     map bool_byte (cfg_test_enabled c) @ [0, 0, 0] @ concat (map bytes32 (cfg_test_sequence c)) @ bytes32 (language c)"

definition config_of_bytes :: "u8 list \<Rightarrow> app_config_t" where
  "config_of_bytes bs =
     \<lparr>magic = le32 bs 0, version = le32 bs 4, cfg_max_pass_num = le32 bs 8, cfg_continue_on_error = (bs ! 12 \<noteq> 0),
      cfg_test_enabled = map (\<lambda>i. bs ! (13 + i) \<noteq> 0) [0..<12], cfg_test_sequence = map (\<lambda>i. le32 bs (28 + 4 * i)) [0..<12],
      language = le32 bs 76\<rparr>"

definition sizeof_app_config :: u32 where "sizeof_app_config = 80"
definition legacy_size :: u32 where "legacy_size = 76"

definition config_filename :: "u8 list" where
  "config_filename = map (\<lambda>c. of_int (code c)) ''CONFIG  BIN''"

text \<open>The structure that \<open>save_app_config\<close> fills; an \<open>int\<close> is stored with its 32 bits.\<close>

definition app_config :: "config \<Rightarrow> app_config_t" where
  "app_config cfg =
     \<lparr>magic = APP_CONFIG_MAGIC, version = APP_CONFIG_VERSION, cfg_max_pass_num = of_int (max_pass_num cfg),
      cfg_continue_on_error = continue_on_error cfg, cfg_test_enabled = map (\<lambda>i. test_enabled cfg ! i) [0..<12],
      cfg_test_sequence = map (\<lambda>i. of_int (test_sequence cfg ! i)) [0..<12], language = (if lang_cn cfg then 1 else 0)\<rparr>"

definition apply_app_config :: "u32 \<Rightarrow> app_config_t \<Rightarrow> config \<Rightarrow> config" where
  "apply_app_config read_size c cfg =
     (if (read_size = sizeof_app_config \<or> read_size = legacy_size) \<and> magic c = APP_CONFIG_MAGIC
      then let cfg1 = cfg\<lparr>max_pass_num := sint (cfg_max_pass_num c), continue_on_error := cfg_continue_on_error c,
                          test_enabled := cfg_test_enabled c, test_sequence := map sint (cfg_test_sequence c)\<rparr>
           in if read_size = sizeof_app_config then cfg1\<lparr>lang_cn := (language c \<noteq> 0)\<rparr> else cfg1
      else cfg)"

text \<open>The file operations on a mounted volume; the result of the writing is not looked at.\<close>

definition store_config :: "'d disk_ops \<Rightarrow> config \<Rightarrow> 'd fat32_fs \<Rightarrow> bool \<times> 'd fat32_fs" where
  "store_config dev cfg fs =
     (let (_, fs1) = fat32_delete_file dev config_filename fs
      in fat32_write_file dev config_filename (config_bytes (app_config cfg)) fs1)"

definition load_config :: "'d disk_ops \<Rightarrow> config \<Rightarrow> 'd fat32_fs \<Rightarrow> config \<times> 'd fat32_fs" where
  "load_config dev cfg fs =
     (let ((ok, bs, size), fs1) = fat32_read_file dev config_filename True sizeof_app_config fs
      in (case size of
            None \<Rightarrow> cfg
          | Some n \<Rightarrow> if ok then apply_app_config n (config_of_bytes (bs @ replicate (80 - length bs) 0)) cfg else cfg,
          fs1))"

section \<open>The drive\<close>

text \<open>
  What the functions change: the drive that was found, the state of the USB controllers and the heaps. \<open>transfer\<close> gives
  the transfer methods of a registered controller, \<open>hcds\<close> is the list of them.
\<close>

record 'd machine =
  slot :: msd_slot
  usb :: 'd
  heap :: heap_state

record 'd usb_system =
  hcds :: "'d usb_hcd list"
  transfer :: "int \<Rightarrow> 'd hcd_methods"

definition no_volume :: "u32 \<Rightarrow> 'e \<Rightarrow> 'e fat32_fs" where
  "no_volume bsize d =
     \<lparr>disk = d, partition_lba = 0, bytes_per_sector = 0, sectors_per_cluster = 0, reserved_sectors = 0, num_fats = 0, fat_type = 0,
      sectors_per_fat = 0, root_cluster = 0, root_dir_lba = 0, root_dir_sectors = 0, max_cluster = 0, fat_start_lba = 0,
      data_start_lba = 0, sector_buf = replicate (unat bsize) 0\<rparr>"

text \<open>From \<open>find_usb_mass_storage\<close> to \<open>fat32_mount\<close>: the disk and the volume when all of it succeeded.\<close>

definition open_volume ::
  "'d usb_system \<Rightarrow> 'd machine \<Rightarrow> ((usb_msd_t \<times> 'd) disk_ops \<times> (usb_msd_t \<times> 'd) fat32_fs) option \<times> 'd machine"
where
  "open_volume sys mc =
     (case find_usb_mass_storage (slot mc) of
        None \<Rightarrow> (None, mc)
      | Some msd \<Rightarrow>
          (let hcd = transfer sys (usb_msd_hcd_idx (slot mc)); (ready, msd1, d1) = msd_init hcd msd (usb mc); mc1 = mc\<lparr>usb := d1\<rparr>
           in if \<not> ready then (None, mc1)
              else let (addr, h) = heap_alloc HEAP_TYPE_LM_1 (ucast (block_size msd1)) 64 (heap mc1); mc2 = mc1\<lparr>heap := h\<rparr>
                   in if addr = 0 then (None, mc2)
                      else let dev = msd_disk hcd (block_size msd1); (ok, fs) = fat32_mount dev (no_volume (block_size msd1) (msd1, d1));
                               mc3 = mc2\<lparr>usb := snd (disk fs)\<rparr>
                           in if ok then (Some (dev, fs), mc3) else (None, mc3)))"

text \<open>The frame that \<open>delete_app_config\<close> and \<open>save_app_config\<close> share around their file operations \<open>work\<close>.\<close>

definition with_drive ::
  "'d usb_system \<Rightarrow> ((usb_msd_t \<times> 'd) disk_ops \<Rightarrow> (usb_msd_t \<times> 'd) fat32_fs \<Rightarrow> (usb_msd_t \<times> 'd) fat32_fs) \<Rightarrow> 'd machine \<Rightarrow> 'd machine"
where
  "with_drive sys work mc =
     (let mc1 = (if usb_mass_storage_found (slot mc) then mc
                 else let (_, s, d) = usb_scan_for_msd (hcds sys) (slot mc, usb mc) in mc\<lparr>slot := s, usb := d\<rparr>)
      in if \<not> usb_mass_storage_found (slot mc1) \<and> \<not> usb_hcd_available (hcds sys) then mc1
         else let mark = heap_mark HEAP_TYPE_LM_1 (heap mc1); (vol, mc2) = open_volume sys mc1;
                  mc3 = (case vol of None \<Rightarrow> mc2 | Some (dev, fs) \<Rightarrow> mc2\<lparr>usb := snd (disk (work dev fs))\<rparr>)
              in mc3\<lparr>usb := usb_rearm_keyboards (hcds sys) (usb mc3), heap := heap_rewind HEAP_TYPE_LM_1 mark (heap mc3)\<rparr>)"

definition delete_app_config :: "'d usb_system \<Rightarrow> 'd machine \<Rightarrow> 'd machine" where
  "delete_app_config sys mc = with_drive sys (\<lambda>dev fs. snd (fat32_delete_file dev config_filename fs)) mc"

definition save_app_config :: "'d usb_system \<Rightarrow> config \<Rightarrow> 'd machine \<Rightarrow> 'd machine" where
  "save_app_config sys cfg mc = with_drive sys (\<lambda>dev fs. snd (store_config dev cfg fs)) mc"

definition load_app_config :: "'d usb_system \<Rightarrow> config \<times> 'd machine \<Rightarrow> config \<times> 'd machine" where
  "load_app_config sys cm =
     (case open_volume sys (snd cm) of
        (None, mc1) \<Rightarrow> (fst cm, mc1)
      | (Some (dev, fs), mc1) \<Rightarrow> (let (cfg1, fs1) = load_config dev (fst cm) fs in (cfg1, mc1\<lparr>usb := snd (disk fs1)\<rparr>)))"

text \<open>
  \<open>initial_config\<close>: the settings of the drive, then the pause. \<open>report\<close> is \<open>save_results_to_usb\<close> of
  \<open>app/reports.c\<close>.
\<close>

definition config_env :: "'d usb_system \<Rightarrow> pm_map_t list \<Rightarrow> int \<Rightarrow> ('d machine \<Rightarrow> 'd machine) \<Rightarrow> 'd machine menu_env" where
  "config_env sys segs cpus report =
     \<lparr>segments = segs, available_cpus = cpus,
      drive_found = (\<lambda>mc. usb_mass_storage_found (slot mc) \<or> usb_hcd_available (hcds sys)),
      save_results = report, save_config = save_app_config sys, delete_config = delete_app_config sys\<rparr>"

definition initial_config ::
  "'d usb_system \<Rightarrow> pm_map_t list \<Rightarrow> int \<Rightarrow> ('d machine \<Rightarrow> 'd machine) \<Rightarrow> string \<Rightarrow> config \<times> 'd machine \<Rightarrow>
    (outcome \<times> (config \<times> 'd machine) \<times> string) option"
where
  "initial_config sys segs cpus report keys cm =
     (let cfg0 = (if cpus < 2 then (fst cm)\<lparr>smp_enabled := False\<rparr> else fst cm); cm1 = load_app_config sys (cfg0, snd cm)
      in if pause_at_start (fst cm1) then pause_loop (config_env sys segs cpus report) 0 keys cm1 else Some (Leave, cm1, keys))"

end
