(* ===== verification/Config_File_Spec.thy ===== *)
theory Config_File_Spec
  imports Config_File Config_Spec Fat32_Spec
begin

text \<open>
  The settings on the drive: the structure that \<open>save_app_config\<close> writes is the one that \<open>initial_config\<close> reads.
\<close>

lemma config_filename_facts: "length config_filename = 11" "config_filename ! 0 = 67"
  by code_simp+

lemma store_old: "fst (store_config (usb_disk 64) default_config (old_volume config_filename))"
  by code_simp

section \<open>The structure in the file\<close>

lemma le32_middle: "le32 (pre @ bytes32 v @ post) (length pre) = v"
proof -
  have "le32 (pre @ bytes32 v @ post) (length pre) = le32 (bytes32 v) 0" by (simp add: le32_def bytes32_def nth_append)
  then show ?thesis by (simp only: le32_bytes)
qed

lemma le32_row: "i < length xs \<Longrightarrow> le32 (pre @ concat (map bytes32 xs) @ post) (length pre + 4 * i) = xs ! i"
proof (induction xs arbitrary: pre i)
  case Nil
  then show ?case by simp
next
  case (Cons x xs)
  show ?case
  proof (cases i)
    case 0
    then show ?thesis using le32_middle [of pre x "concat (map bytes32 xs) @ post"] by simp
  next
    case (Suc j)
    then show ?thesis using Cons.IH [of j "pre @ bytes32 x"] Cons.prems by (simp add: algebra_simps)
  qed
qed

lemma length_row: "length (concat (map bytes32 xs)) = 4 * length xs"
  by (induction xs) simp_all

lemma bool_byte_iff: "bool_byte b \<noteq> 0 \<longleftrightarrow> b"
  by (simp add: bool_byte_def)

lemma length_config_bytes:
  assumes "length (cfg_test_enabled c) = 12" "length (cfg_test_sequence c) = 12"
  shows "length (config_bytes c) = 80"
  using assms by (simp add: config_bytes_def length_row)

lemma config_bytes_roundtrip:
  assumes "length (cfg_test_enabled c) = 12" "length (cfg_test_sequence c) = 12"
  shows "config_of_bytes (config_bytes c) = c"
proof -
  let ?row = "concat (map bytes32 (cfg_test_sequence c))" and ?flags = "map bool_byte (cfg_test_enabled c)"
  let ?A = "bytes32 (magic c)" and ?B = "bytes32 (version c)" and ?C = "bytes32 (cfg_max_pass_num c)"
  let ?D = "[bool_byte (cfg_continue_on_error c)]" and ?pad = "[0, 0, 0 :: u8]" and ?L = "bytes32 (language c)"
  have all: "config_bytes c = ?A @ ?B @ ?C @ ?D @ ?flags @ ?pad @ ?row @ ?L" by (simp add: config_bytes_def)
  have "le32 (config_bytes c) 0 = magic c" using le32_middle [of "[]"] all by simp
  moreover have "le32 (config_bytes c) 4 = version c"
    using le32_middle [of ?A "version c" "?C @ ?D @ ?flags @ ?pad @ ?row @ ?L"] all by simp
  moreover have "le32 (config_bytes c) 8 = cfg_max_pass_num c"
    using le32_middle [of "?A @ ?B" "cfg_max_pass_num c" "?D @ ?flags @ ?pad @ ?row @ ?L"] all by simp
  moreover have "config_bytes c ! 12 = bool_byte (cfg_continue_on_error c)"
    unfolding all by (simp add: nth_append)
  moreover have "config_bytes c ! (13 + i) = bool_byte (cfg_test_enabled c ! i)" if "i < 12" for i
    unfolding all using that assms(1) by (simp add: nth_append)
  moreover have "le32 (config_bytes c) (28 + 4 * i) = cfg_test_sequence c ! i" if "i < 12" for i
    using le32_row [of i "cfg_test_sequence c" "?A @ ?B @ ?C @ ?D @ ?flags @ ?pad" ?L] that assms all by simp
  moreover have "le32 (config_bytes c) 76 = language c"
    using le32_middle [of "?A @ ?B @ ?C @ ?D @ ?flags @ ?pad @ ?row" "language c" "[]"] assms all by (simp add: length_row)
  moreover have "map (\<lambda>i. config_bytes c ! (13 + i) \<noteq> 0) [0..<12] = cfg_test_enabled c"
    using calculation(5) assms(1) by (intro nth_equalityI) (simp_all add: bool_byte_iff)
  moreover have "map (\<lambda>i. le32 (config_bytes c) (28 + 4 * i)) [0..<12] = cfg_test_sequence c"
    using calculation(6) assms(2) by (intro nth_equalityI) simp_all
  ultimately show ?thesis by (simp add: config_of_bytes_def bool_byte_iff)
qed

text \<open>The numbers that fit into an \<open>int\<close>.\<close>

definition int32 :: "int \<Rightarrow> bool" where "int32 i \<longleftrightarrow> - (2 ^ 31) \<le> i \<and> i < 2 ^ 31"

lemma sint_of_int: "int32 i \<Longrightarrow> sint (of_int i :: u32) = i"
  by (simp add: int32_def signed_of_int signed_take_bit_int_eq_self)

definition storable :: "config \<Rightarrow> bool" where
  "storable cfg \<longleftrightarrow> length (test_enabled cfg) = 12 \<and> length (test_sequence cfg) = 12 \<and> int32 (max_pass_num cfg) \<and>
     list_all int32 (test_sequence cfg)"

text \<open>What the file keeps of the settings.\<close>

definition with_saved :: "config \<Rightarrow> config \<Rightarrow> config" where
  "with_saved cfg old = old\<lparr>max_pass_num := max_pass_num cfg, continue_on_error := continue_on_error cfg,
     test_enabled := test_enabled cfg, test_sequence := test_sequence cfg, lang_cn := lang_cn cfg\<rparr>"

lemma apply_saved: "storable cfg \<Longrightarrow> apply_app_config 80 (config_of_bytes (config_bytes (app_config cfg))) old = with_saved cfg old"
proof -
  assume s: "storable cfg"
  have "config_of_bytes (config_bytes (app_config cfg)) = app_config cfg"
    by (rule config_bytes_roundtrip) (simp_all add: app_config_def)
  moreover have "map (\<lambda>i. test_enabled cfg ! i) [0..<12] = test_enabled cfg"
    using s by (metis map_nth storable_def)
  moreover have "map sint (map (\<lambda>i. of_int (test_sequence cfg ! i) :: u32) [0..<12]) = test_sequence cfg"
    using s by (intro nth_equalityI) (auto simp: storable_def list_all_length sint_of_int)
  ultimately show ?thesis
    using s by (simp add: apply_app_config_def app_config_def sizeof_app_config_def with_saved_def sint_of_int storable_def)
qed

section \<open>Properties\<close>

text \<open>
  C6: the settings survive on the drive. When \<open>save_app_config\<close> reports that the file was written, over an older one or
  for the first time, \<open>initial_config\<close> finds the same pass limit, error policy, test selection, test order and
  language in it, whatever the settings are before it reads the file; the other settings stay.
\<close>

theorem config_file_roundtrip:
  assumes "block_store dev content" "block_store.reliable dev content" "block_store.writable dev content"
    and "volume_ok fs" "block_store.sized content fs" "block_store.root_used content fs"
    and "block_store.replaceable content fs config_filename" "storable cfg" "store_config dev cfg fs = (True, fs1)"
  shows "fst (load_config dev old fs1) = with_saved cfg old"
proof -
  let ?bs = "config_bytes (app_config cfg)"
  have len: "length ?bs = 80" by (rule length_config_bytes) (simp_all add: app_config_def)
  have w: "fat32_write_file dev config_filename ?bs (snd (fat32_delete_file dev config_filename fs)) = (True, fs1)"
    using assms(9) by (simp add: store_config_def split: prod.splits)
  have "fst (fat32_read_file dev config_filename True sizeof_app_config fs1) = (True, take (unat sizeof_app_config) ?bs, Some 80)"
    using block_store.replace_then_read [OF assms(1-6) config_filename_facts(1) _ _ assms(7) _ w, of sizeof_app_config] len
    by (simp add: config_filename_facts(2) sizeof_app_config_def)
  then show ?thesis
    using len apply_saved [OF assms(8), of old]
    by (cases "fat32_read_file dev config_filename True sizeof_app_config fs1") (simp add: load_config_def sizeof_app_config_def)
qed

theorem config_file_roundtrip_witness:
  "fst (load_config (usb_disk 64) (default_config\<lparr>max_pass_num := 7, lang_cn := False, dark_mode := False\<rparr>)
     (snd (store_config (usb_disk 64) default_config (old_volume config_filename)))) = default_config\<lparr>dark_mode := False\<rparr>"
proof -
  have f: "length config_filename = 11" "config_filename ! 0 \<noteq> 0" "config_filename ! 0 \<noteq> 0xE5"
    using config_filename_facts by simp_all
  have "store_config (usb_disk 64) default_config (old_volume config_filename) =
      (True, snd (store_config (usb_disk 64) default_config (old_volume config_filename)))"
    using store_old by (simp add: prod_eq_iff)
  moreover have "storable default_config" by (simp add: storable_def default_config_def int32_def)
  ultimately show ?thesis
    using config_file_roundtrip [OF usb.block_store_axioms usb_reliable usb_writable old_volume_ok
        old_volume_state [OF f], where cfg = default_config and old = "default_config\<lparr>max_pass_num := 7, lang_cn := False, dark_mode := False\<rparr>"]
    by (simp add: with_saved_def default_config_def)
qed

end
