(* ===== verification/Run_Loop.thy ===== *)
theory Run_Loop
  imports Config_Options Vmem Test_Engine
begin

text \<open>
  The run loop of \<open>app/main.c\<close>: where the program may lie, the windows of physical memory that a test walks through,
  and the state machine that takes the tests of a pass one after the other. The code is one loop over global state that
  every CPU executes between barriers, because the program is relocated in the middle of it; here a step is what the
  CPUs do together between two rounds, and a relocation is a change of the field \<open>location\<close>. The tests, the keyboard and
  the display are arguments. The settings are the record \<open>config\<close>.
\<close>

section \<open>Load addresses\<close>

definition LOW_LOAD_LIMIT :: u64 where "LOW_LOAD_LIMIT = SIZE_C 4 MB"
definition HIGH_LOAD_LIMIT :: u64 where "HIGH_LOAD_LIMIT = push_bit PAGE_SHIFT VM_PINNED_SIZE"

definition addr_range_is_usable :: "pm_map_t list \<Rightarrow> u64 \<Rightarrow> u64 \<Rightarrow> bool" where
  "addr_range_is_usable segs start_addr sz =
     list_ex (\<lambda>r. start_addr \<ge> push_bit PAGE_SHIFT (pm_start r) \<and> start_addr + sz \<le> push_bit PAGE_SHIFT (pm_end r)) segs"

text \<open>The loop over the regions; it is left at the first region that begins at or above the upper limit.\<close>

primrec find_load_addr :: "pm_map_t list \<Rightarrow> u64 \<Rightarrow> u64 \<Rightarrow> u64 \<Rightarrow> u64 option" where
  "find_load_addr [] program_size lower_limit upper_limit = None"
| "find_load_addr (r # rs) program_size lower_limit upper_limit =
     (let region_start = push_bit PAGE_SHIFT (pm_start r); try_limit = push_bit PAGE_SHIFT (pm_end r);
          try_start = (if region_start < lower_limit then lower_limit else region_start);
          try_end = try_start + program_size
      in if try_end > try_limit then find_load_addr rs program_size lower_limit upper_limit
         else if try_start \<ge> upper_limit then None
         else if try_end < lower_limit then find_load_addr rs program_size lower_limit upper_limit
         else Some try_start)"

text \<open>\<open>None\<close> stands for the message that there is not enough space.\<close>

definition set_load_addr :: "pm_map_t list \<Rightarrow> u64 \<Rightarrow> u64 \<Rightarrow> u64 \<Rightarrow> u64 \<Rightarrow> u64 option" where
  "set_load_addr segs current_start program_size lower_limit upper_limit =
     (if current_start \<ge> lower_limit \<and> current_start + program_size \<le> upper_limit \<and>
         addr_range_is_usable segs current_start program_size
      then Some current_start
      else find_load_addr segs program_size lower_limit upper_limit)"

section \<open>The map of a window\<close>

text \<open>The affinity ranges of \<open>system/smp.c\<close>, as physical addresses.\<close>

record memory_affinity_t =
  affinity_start :: u64
  affinity_end :: u64
  affinity_domain :: u32

text \<open>The part of the range that lies in one domain: the domain, and the start and end of the part.\<close>

primrec smp_narrow_to_proximity_domain :: "memory_affinity_t list \<Rightarrow> u64 \<Rightarrow> u64 \<Rightarrow> (u32 \<times> u64 \<times> u64) option" where
  "smp_narrow_to_proximity_domain [] s e = None"
| "smp_narrow_to_proximity_domain (r # rs) s e =
     (if s \<ge> affinity_start r
      then if s < affinity_end r
           then if e \<le> affinity_end r then Some (affinity_domain r, s, e) else Some (affinity_domain r, s, affinity_end r)
           else smp_narrow_to_proximity_domain rs s e
      else if e < affinity_start r then smp_narrow_to_proximity_domain rs s e
      else Some (affinity_domain r, s, affinity_start r))"

record vm_state =
  vm_map :: "vm_map_t list"
  vm_map_size :: nat
  num_mapped_pages :: u64

text \<open>The next entry, for the pages from \<open>s\<close> to before \<open>e\<close>; its domain is written only when it is known.\<close>

definition add_vm_entry :: "u32 option \<Rightarrow> u64 \<Rightarrow> u64 \<Rightarrow> vm_state \<Rightarrow> vm_state" where
  "add_vm_entry domain s e vm =
     (let i = vm_map_size vm; old = vm_map vm ! i;
          new = old\<lparr>pm_base_addr := s, vm_map_t.vm_start := word_ptr (first_word_mapping s),
                    vm_end := word_ptr (last_word_mapping (e - 1) 8)\<rparr>;
          new1 = (case domain of None \<Rightarrow> new | Some d \<Rightarrow> new\<lparr>proximity_domain_idx := d\<rparr>)
      in vm\<lparr>vm_map := (vm_map vm)[i := new1], vm_map_size := i + 1, num_mapped_pages := num_mapped_pages vm + (e - s)\<rparr>)"

text \<open>
  The loop that splits the pages from \<open>seg_start\<close> to before \<open>seg_end\<close> by domain. When a part has no domain, the jump to
  \<open>non_numa_vm_map_entry\<close> adds all of the pages.
\<close>

function numa_entries :: "memory_affinity_t list \<Rightarrow> u64 \<Rightarrow> u64 \<Rightarrow> u64 \<Rightarrow> u64 \<Rightarrow> vm_state \<Rightarrow> vm_state" where
  "numa_entries affinity orig_start orig_end seg_start seg_end vm =
     (if vm_map_size vm \<ge> MAX_MEM_SEGMENTS then vm
      else case smp_narrow_to_proximity_domain affinity orig_start orig_end of
             None \<Rightarrow> add_vm_entry (Some 0) seg_start seg_end vm
           | Some (domain, new_start, new_end) \<Rightarrow>
               (let vm1 = add_vm_entry (Some domain) (drop_bit PAGE_SHIFT new_start) (drop_bit PAGE_SHIFT new_end) vm;
                    pages = drop_bit PAGE_SHIFT (new_end - new_start);
                    vm2 = vm1\<lparr>num_mapped_pages := num_mapped_pages vm + pages\<rparr>
                in if new_start \<noteq> orig_start \<or> new_end \<noteq> orig_end
                   then numa_entries affinity new_end (push_bit PAGE_SHIFT seg_end) seg_start seg_end vm2
                   else vm2))"
  by pat_completeness auto
termination
  by (relation "measure (\<lambda>(_, _, _, _, _, vm). MAX_MEM_SEGMENTS - vm_map_size vm)") (auto simp: add_vm_entry_def Let_def)

declare numa_entries.simps [simp del]

primrec map_segments :: "bool \<Rightarrow> memory_affinity_t list \<Rightarrow> u64 \<Rightarrow> u64 \<Rightarrow> pm_map_t list \<Rightarrow> vm_state \<Rightarrow> vm_state" where
  "map_segments numa affinity win_start win_end [] vm = vm"
| "map_segments numa affinity win_start win_end (r # rs) vm =
     (let seg_start = (if pm_start r \<le> win_start then win_start else pm_start r);
          seg_end = (if pm_end r \<ge> win_end then win_end else pm_end r)
      in map_segments numa affinity win_start win_end rs
           (if seg_start < seg_end \<and> seg_start < win_end \<and> seg_end > win_start
            then if numa
                 then numa_entries affinity (push_bit PAGE_SHIFT seg_start) (push_bit PAGE_SHIFT seg_end) seg_start seg_end vm
                 else add_vm_entry None seg_start seg_end vm
            else vm))"

definition setup_vm_map :: "config \<Rightarrow> memory_affinity_t list \<Rightarrow> pm_map_t list \<Rightarrow> u64 \<Rightarrow> u64 \<Rightarrow> vm_state \<Rightarrow> vm_state" where
  "setup_vm_map cfg affinity segs win_start win_end vm =
     (let vm0 = vm\<lparr>vm_map_size := 0, num_mapped_pages := 0\<rparr>;
          s = (if win_start < pm_limit_lower cfg then pm_limit_lower cfg else win_start);
          e = (if win_end > pm_limit_upper cfg then pm_limit_upper cfg else win_end)
      in if s \<ge> e then vm0 else map_segments (config.enable_numa cfg) affinity s e segs vm0)"

section \<open>The windows of a test\<close>

text \<open>The table of \<open>tests/tests.c\<close>; whether a test is enabled is a setting.\<close>

record test_pattern_t =
  tp_cpu_mode :: cpu_mode_t
  tp_stages :: int
  tp_iterations :: int

definition test_list :: "test_pattern_t list" where
  "test_list = map (\<lambda>(m, s, i). \<lparr>tp_cpu_mode = m, tp_stages = s, tp_iterations = i\<rparr>)
     [(ONE, 1, 6), (ONE, 1, 6), (ONE, 2, 6), (PAR, 1, 32), (PAR, 1, 6), (PAR, 1, 128), (PAR, 1, 3), (PAR, 1, 8), (PAR, 1, 81),
      (PAR, 1, 1), (PAR, 12, 120), (ONE, 1, 24)]"

record window_state =
  window_num :: int
  window_start :: u64
  window_end :: u64
  location :: u64
  vm :: vm_state
  paging :: vmem_state

text \<open>
  What does not change during a run. \<open>run_tests\<close> is \<open>run_test\<close> on the given CPUs together, \<open>count_ticks\<close> is its dry
  run; the settings are part of what the tests may change, as they poll the keyboard.
\<close>

record 'w run_env =
  env_pm_map :: "pm_map_t list"
  env_affinity :: "memory_affinity_t list"
  env_paging :: cpu_paging
  low_load_addr :: u64
  high_load_addr :: u64
  num_available_cpus :: int
  run_tests :: "int list \<Rightarrow> int \<Rightarrow> int \<Rightarrow> int \<Rightarrow> window_state \<Rightarrow> config \<times> 'w \<Rightarrow> config \<times> 'w"
  count_ticks :: "int \<Rightarrow> int \<Rightarrow> int \<Rightarrow> window_state \<Rightarrow> config \<times> 'w \<Rightarrow> int"

definition first_window_num :: "config \<Rightarrow> test_pattern_t \<Rightarrow> int \<Rightarrow> int" where
  "first_window_num cfg t n =
     (if n = 0 \<and> tp_stages t > 1 then 1 else if n = 0 \<and> pm_limit_lower cfg \<ge> LOW_LOAD_LIMIT then 1 else n)"

text \<open>The copy of the program that runs; a dry run does not move it.\<close>

definition relocate :: "'w run_env \<Rightarrow> bool \<Rightarrow> window_state \<Rightarrow> window_state" where
  "relocate env dummy ws =
     (if dummy then ws else ws\<lparr>location := (if window_num ws > 0 then low_load_addr env else high_load_addr env)\<rparr>)"

definition next_window :: "window_state \<Rightarrow> window_state" where
  "next_window ws =
     (if window_num ws = 0 then ws\<lparr>window_start := 0, window_end := drop_bit PAGE_SHIFT LOW_LOAD_LIMIT\<rparr>
      else if window_num ws = 1
      then ws\<lparr>window_start := drop_bit PAGE_SHIFT LOW_LOAD_LIMIT, window_end := VM_WINDOW_SIZE\<rparr>
      else ws\<lparr>window_start := window_end ws, window_end := window_end ws + VM_WINDOW_SIZE\<rparr>)"

text \<open>The part of \<open>run_test\<close> that the master does before the test: in window 0 the first segment gets a new start.\<close>

definition begin_test :: "config \<Rightarrow> window_state \<Rightarrow> window_state" where
  "begin_test cfg ws =
     (if window_num ws = 0
      then let first = first_word_mapping (pm_limit_lower cfg); first1 = (if first < 0x500 then 0x500 else first); v = vm ws
           in ws\<lparr>vm := v\<lparr>vm_map := (vm_map v)[0 := (vm_map v ! 0)\<lparr>vm_map_t.vm_start := word_ptr first1\<rparr>]\<rparr>\<rparr>
      else ws)"

record 'w run_state =
  settings :: config
  world :: 'w
  windows :: window_state
  start_run :: bool
  start_test :: bool
  rerun_test :: bool
  dummy_run :: bool
  test_num_index :: nat
  test_num :: int
  test_stage :: int
  master_cpu :: int
  testpass :: int
  ticks_per_test :: "int \<Rightarrow> int \<Rightarrow> int"
  ticks_per_pass :: "int \<Rightarrow> int"

definition this_test :: "'w run_state \<Rightarrow> test_pattern_t" where
  "this_test st = test_list ! nat (test_num st)"

definition this_enabled :: "'w run_state \<Rightarrow> bool" where
  "this_enabled st = test_enabled (settings st) ! nat (test_num st)"

definition enabled_cpus :: "'w run_env \<Rightarrow> config \<Rightarrow> int list" where
  "enabled_cpus env cfg = filter (\<lambda>i. cpu_state cfg ! nat i \<noteq> CPU_STATE_DISABLED) [0..num_available_cpus env - 1]"

text \<open>The CPUs that take part in the test, when it is not a dry run.\<close>

definition active_cpus :: "'w run_env \<Rightarrow> 'w run_state \<Rightarrow> int list" where
  "active_cpus env st =
     (if cpu_mode (settings st) = PAR \<and> tp_cpu_mode (this_test st) = PAR then enabled_cpus env (settings st) else [master_cpu st])"

text \<open>Fewer iterations in the first pass.\<close>

definition test_iterations :: "'w run_state \<Rightarrow> int" where
  "test_iterations st = (if pass_num (settings st) = 0 then tp_iterations (this_test st) div 3 else tp_iterations (this_test st))"

text \<open>The window that comes next, with the program out of its way and its map set up.\<close>

definition enter_window :: "'w run_env \<Rightarrow> 'w run_state \<Rightarrow> window_state" where
  "enter_window env st =
     (let ws = windows st; ws1 = ws\<lparr>window_num := first_window_num (settings st) (this_test st) (window_num ws)\<rparr>;
          ws2 = next_window (relocate env (dummy_run st) ws1)
      in ws2\<lparr>vm := setup_vm_map (settings st) (env_affinity env) (env_pm_map env) (window_start ws2) (window_end ws2) (vm ws2)\<rparr>)"

text \<open>One round of the loop in \<open>test_all_windows\<close>, and whether it leaves the loop.\<close>

definition window_step :: "'w run_env \<Rightarrow> 'w run_state \<Rightarrow> bool \<times> 'w run_state" where
  "window_step env st =
     (if bail (settings st) then (True, st)
      else let ws = enter_window env st; next = ws\<lparr>window_num := window_num ws + 1\<rparr>; t = test_num st; stage = test_stage st;
               n = test_iterations st
      in if num_mapped_pages (vm ws) = 0 then (False, st\<lparr>windows := next\<rparr>)
         else if dummy_run st
         then let p = pass_num (settings st); k = count_ticks env t stage n ws (settings st, world st)
              in (False, st\<lparr>windows := next, ticks_per_test := (ticks_per_test st)(p := (ticks_per_test st p)(t := ticks_per_test st p t + k))\<rparr>)
         else let (mapped, pg) = map_window (env_paging env) (pm_base_addr (vm_map (vm ws) ! 0)) (paging ws); ws1 = ws\<lparr>paging := pg\<rparr>
              in if \<not> mapped then (True, st\<lparr>windows := ws1\<rparr>)
                 else let ws2 = begin_test (settings st) ws1;
                          (cfg, w) = run_tests env (active_cpus env st) t stage n ws2 (settings st, world st)
                      in (False, st\<lparr>settings := cfg, world := w, windows := ws2\<lparr>window_num := window_num ws2 + 1\<rparr>\<rparr>))"

text \<open>The loop, with fuel; a result \<open>None\<close> means that it has not come to its end.\<close>

primrec windows_loop :: "nat \<Rightarrow> 'w run_env \<Rightarrow> 'w run_state \<Rightarrow> 'w run_state option" where
  "windows_loop 0 env st = None"
| "windows_loop (Suc n) env st =
     (let (leave, st1) = window_step env st
      in if leave \<or> \<not> window_end (windows st1) < pm_end (last (env_pm_map env)) then Some st1 else windows_loop n env st1)"

text \<open>A round takes the window forward by \<open>VM_WINDOW_SIZE\<close> pages; two more rounds are for the windows below.\<close>

definition window_fuel :: "'w run_env \<Rightarrow> nat" where
  "window_fuel env = unat (pm_end (last (env_pm_map env))) div unat VM_WINDOW_SIZE + 3"

definition test_all_windows :: "'w run_env \<Rightarrow> 'w run_state \<Rightarrow> 'w run_state option" where
  "test_all_windows env st = windows_loop (window_fuel env) env st"

section \<open>The loop of the main program\<close>

text \<open>
  The rest of what the loop uses: \<open>new_run\<close> is what a real run starts with (\<open>badram_init\<close>, \<open>error_init\<close> and the display),
  \<open>poll_input\<close> is \<open>check_input\<close>, \<open>errors\<close> is \<open>error_count\<close>, and \<open>behind_sequence\<close> is the \<open>int\<close> that lies behind the array
  \<open>test_sequence\<close>.
\<close>

record 'w main_env = "'w run_env" +
  new_run :: "'w \<Rightarrow> 'w"
  poll_input :: "config \<times> 'w \<Rightarrow> config \<times> 'w"
  errors :: "'w \<Rightarrow> nat"
  behind_sequence :: int

definition NUM_PASS_TYPES :: int where "NUM_PASS_TYPES = 2"

definition sequence_at :: "'w main_env \<Rightarrow> config \<Rightarrow> nat \<Rightarrow> int" where
  "sequence_at env cfg i = (if i < length (test_sequence cfg) then test_sequence cfg ! i else behind_sequence env)"

text \<open>What CPU 0 does between the first two barriers.\<close>

definition begin_run :: "'w main_env \<Rightarrow> 'w run_state \<Rightarrow> 'w run_state" where
  "begin_run env st =
     (if start_run st
      then st\<lparr>settings := (settings st)\<lparr>pass_num := 0, start_pass := True\<rparr>, world := (if dummy_run st then world st else new_run env (world st))\<rparr>
      else st)"

definition begin_pass :: "'w main_env \<Rightarrow> 'w run_state \<Rightarrow> 'w run_state" where
  "begin_pass env st =
     (if start_pass (settings st)
      then st\<lparr>test_num_index := 0, test_num := sequence_at env (settings st) 0, start_test := True,
              ticks_per_pass := (if dummy_run st then (ticks_per_pass st)(pass_num (settings st) := 0) else ticks_per_pass st)\<rparr>
      else st)"

definition begin_this_test :: "'w run_state \<Rightarrow> 'w run_state" where
  "begin_this_test st =
     (if start_test st
      then let p = pass_num (settings st)
           in st\<lparr>test_stage := 0, rerun_test := True, settings := (settings st)\<lparr>bail := False\<rparr>,
                 ticks_per_test := (if dummy_run st then (ticks_per_test st)(p := (ticks_per_test st p)(test_num st := 0)) else ticks_per_test st)\<rparr>
      else st)"

definition begin_windows :: "'w run_state \<Rightarrow> 'w run_state" where
  "begin_windows st =
     (if rerun_test st then st\<lparr>windows := (windows st)\<lparr>window_num := 0, window_start := 0, window_end := 0\<rparr>\<rparr> else st)"

definition prepare :: "'w main_env \<Rightarrow> 'w run_state \<Rightarrow> 'w run_state" where
  "prepare env st =
     (let st1 = begin_windows (begin_this_test (begin_pass env (begin_run env st)))
      in st1\<lparr>start_run := False, settings := (settings st1)\<lparr>start_pass := False\<rparr>, start_test := False, rerun_test := False\<rparr>)"

text \<open>The search goes round the CPUs; \<open>None\<close> when there is none to find.\<close>

definition select_next_master :: "'w run_env \<Rightarrow> config \<Rightarrow> int \<Rightarrow> int option" where
  "select_next_master env cfg m =
     List.find (\<lambda>i. cpu_state cfg ! nat i \<noteq> CPU_STATE_DISABLED)
       (map (\<lambda>k. (m + k) mod num_available_cpus env) [1..num_available_cpus env])"

text \<open>The end of a round: the loop goes on, or it ends in one of the loops that show the result.\<close>

datatype run_result = Running | Passed | Failed

text \<open>The next test of the pass, or the next pass.\<close>

definition end_test :: "'w main_env \<Rightarrow> 'w run_state \<Rightarrow> run_result \<times> 'w run_state" where
  "end_test env st0 =
     (let p = pass_num (settings st0); i = test_num_index st0 + 1;
          st = st0\<lparr>ticks_per_pass := (if dummy_run st0 then (ticks_per_pass st0)(p := ticks_per_pass st0 p + ticks_per_test st0 p (test_num st0))
                                     else ticks_per_pass st0),
                   start_test := True, test_num_index := i, test_num := sequence_at env (settings st0) i\<rparr>
      in if test_num st < NUM_TEST_PATTERNS then (Running, st)
         else let st1 = st\<lparr>settings := (settings st)\<lparr>pass_num := p + 1\<rparr>\<rparr>
      in if dummy_run st1 \<and> p + 1 = NUM_PASS_TYPES then (Running, st1\<lparr>start_run := True, dummy_run := False\<rparr>)
         else let st2 = st1\<lparr>settings := (settings st1)\<lparr>start_pass := True\<rparr>\<rparr>
      in if dummy_run st2 then (Running, st2)
         else if errors env (world st2) \<noteq> 0 then (Failed, st2\<lparr>testpass := 2\<rparr>)
         else if p + 1 \<ge> max_pass_num (settings st2) then (Passed, st2\<lparr>testpass := 1\<rparr>)
         else (Running, st2))"

text \<open>The next stage, the next master or the end of the test; \<open>None\<close> when the search for the master does not end.\<close>

definition next_in_test :: "'w main_env \<Rightarrow> 'w run_state \<Rightarrow> (run_result \<times> 'w run_state) option" where
  "next_in_test env st =
     (if \<not> this_enabled st then Some (end_test env st)
      else let t = this_test st; stage = test_stage st + 1
      in if stage < tp_stages t then Some (Running, st\<lparr>test_stage := stage, rerun_test := True\<rparr>)
         else let st1 = st\<lparr>test_stage := 0\<rparr>; mode = cpu_mode (settings st)
      in if mode = PAR \<and> tp_cpu_mode t \<noteq> SEQ then Some (end_test env st1)
         else case select_next_master (run_env.truncate env) (settings st) (master_cpu st) of
                None \<Rightarrow> None
              | Some m \<Rightarrow>
                  (let st2 = st1\<lparr>master_cpu := m\<rparr>
                   in if mode \<noteq> ONE \<and> m \<noteq> 0 then Some (Running, st2\<lparr>rerun_test := True\<rparr>) else Some (end_test env st2)))"

text \<open>\<open>error_update\<close> as far as the run goes: whether it stays in the loop that shows the failure.\<close>

definition error_verdict :: "'w main_env \<Rightarrow> 'w run_state \<Rightarrow> bool \<times> 'w run_state" where
  "error_verdict env st =
     (if errors env (world st) > 0 \<and> testpass st \<noteq> 2 then (\<not> continue_on_error (settings st), st\<lparr>testpass := 2\<rparr>) else (False, st))"

definition after_windows :: "'w main_env \<Rightarrow> 'w run_state \<Rightarrow> (run_result \<times> 'w run_state) option" where
  "after_windows env st =
     (let (cfg, w) = poll_input env (settings st, world st); st1 = st\<lparr>settings := cfg, world := w\<rparr>
      in if restart cfg
         then Some (Running, st1\<lparr>master_cpu := 0, start_run := True, dummy_run := True, settings := cfg\<lparr>restart := False\<rparr>\<rparr>)
         else let (stop, st2) = error_verdict env st1 in if stop then Some (Failed, st2) else next_in_test env st2)"

definition main_step :: "'w main_env \<Rightarrow> 'w run_state \<Rightarrow> (run_result \<times> 'w run_state) option" where
  "main_step env st =
     (let st1 = prepare env st
      in case (if this_enabled st1 then test_all_windows (run_env.truncate env) st1 else Some st1) of
           None \<Rightarrow> None
         | Some st2 \<Rightarrow> after_windows env st2)"

text \<open>Some rounds of the loop.\<close>

primrec main_loop :: "nat \<Rightarrow> 'w main_env \<Rightarrow> 'w run_state \<Rightarrow> (run_result \<times> 'w run_state) option" where
  "main_loop 0 env st = Some (Running, st)"
| "main_loop (Suc n) env st =
     (case main_step env st of None \<Rightarrow> None | Some (Running, st1) \<Rightarrow> main_loop n env st1 | Some r \<Rightarrow> Some r)"

end
