(* ===== verification/Run_Windows.thy ===== *)
theory Run_Windows
  imports Run_Loop Pmem_Map Test_Scan
begin

text \<open>
  The entries that the run loop makes of a window of memory, and the physical bytes that the page tables give for them.
\<close>

section \<open>The bytes that an entry stands for\<close>

text \<open>The physical addresses that the page tables give to the words between the pointers of an entry.\<close>

definition entry_bytes :: "vmem_state \<Rightarrow> vm_map_t \<Rightarrow> nat set" where
  "entry_bytes pg e = {phys_addr pg (unat (byte_addr p) + b) |p b. vm_map_t.vm_start e \<le> p \<and> p \<le> vm_end e \<and> b < 8}"

lemma pointer_bytes:
  assumes "8 dvd unat a" "8 dvd unat c"
  shows "{unat (byte_addr p) + b |p b. word_ptr a \<le> p \<and> p \<le> word_ptr c \<and> b < 8} = {unat a..<unat c + 8}"
proof (intro set_eqI iffI)
  fix v
  assume "v \<in> {unat (byte_addr p) + b |p b. word_ptr a \<le> p \<and> p \<le> word_ptr c \<and> b < 8}"
  then obtain p b where "v = unat (byte_addr p) + b" "word_ptr a \<le> p" "p \<le> word_ptr c" "b < 8" by blast
  then have v: "v = unat p * 8 + b" "unat a div 8 \<le> unat p" "unat p \<le> unat c div 8" "b < 8"
    by (simp_all add: word_le_nat_alt unat_word_ptr unat_byte_addr)
  show "v \<in> {unat a..<unat c + 8}" using v assms by auto
next
  fix v
  assume v: "v \<in> {unat a..<unat c + 8}"
  let ?p = "of_nat (v div 8) :: ptr"
  have "v div 8 \<le> unat c div 8" using v assms by auto
  moreover have "unat c div 8 < 2 ^ 61" using unat_u64_less [of c] by simp
  ultimately have p: "unat ?p = v div 8" by (intro unat_of_nat_small) simp
  have "unat (byte_addr ?p) + v mod 8 = v" by (simp add: unat_byte_addr p)
  moreover have "word_ptr a \<le> ?p" "?p \<le> word_ptr c"
    using v \<open>v div 8 \<le> unat c div 8\<close> by (auto simp: word_le_nat_alt unat_word_ptr p intro: div_le_mono)
  moreover have "v mod 8 < 8" by simp
  ultimately show "v \<in> {unat (byte_addr p) + b |p b. word_ptr a \<le> p \<and> p \<le> word_ptr c \<and> b < 8}"
    by (metis (mono_tags, lifting) mem_Collect_eq)
qed

lemma entry_bytes_image:
  assumes "8 dvd unat a" "8 dvd unat c" "vm_map_t.vm_start e = word_ptr a" "vm_end e = word_ptr c"
  shows "entry_bytes pg e = phys_addr pg ` {unat a..<unat c + 8}"
  unfolding pointer_bytes [OF assms(1,2), symmetric] entry_bytes_def assms(3,4) by auto

text \<open>Pages that lie in one 1 GB window follow each other in the virtual address space.\<close>

lemma mod_same_div:
  fixes a b k :: nat
  assumes "a div k = b div k" "a \<le> b"
  shows "b mod k = a mod k + (b - a)"
proof -
  have "b = a div k * k + b mod k" using assms(1) by simp
  moreover have "a = a div k * k + a mod k" by simp
  ultimately show ?thesis using assms(2) by linarith
qed

lemma same_window_words:
  assumes "unat p < 2 ^ 52" "unat s \<le> unat p" "unat s div 2 ^ 18 = unat p div 2 ^ 18"
  shows "unat (first_word_mapping p) = unat (first_word_mapping s) + (unat p - unat s) * 4096"
proof -
  have s: "unat s < 2 ^ 52" using assms(1,2) by simp
  have lt: "unat p < 2 ^ 19 \<longleftrightarrow> unat p div 2 ^ 18 < 2" "unat s < 2 ^ 19 \<longleftrightarrow> unat s div 2 ^ 18 < 2"
    by (simp_all add: div_less_iff_less_mult)
  have "unat p mod 2 ^ 18 = unat s mod 2 ^ 18 + (unat p - unat s)"
    using assms(3,2) by (rule mod_same_div)
  then show ?thesis
    using assms(2,3) lt unfolding first_word_unat [OF assms(1)] first_word_unat [OF s] by (auto simp: algebra_simps)
qed

text \<open>The entry for the pages from \<open>s\<close> to before \<open>e\<close>, when the page tables map all of them.\<close>

definition page_entry :: "u64 \<Rightarrow> u64 \<Rightarrow> vm_map_t \<Rightarrow> bool" where
  "page_entry s e v \<longleftrightarrow> pm_base_addr v = s \<and> vm_map_t.vm_start v = word_ptr (first_word_mapping s) \<and>
     vm_end v = word_ptr (last_word_mapping (e - 1) 8)"

lemma page_entry_bytes:
  assumes "unat s < unat e" "unat e \<le> 2 ^ 52" "unat s div 2 ^ 18 = (unat e - 1) div 2 ^ 18"
    and "page_entry s e (v\<lparr>vm_map_t.vm_start := word_ptr (first_word_mapping s)\<rparr>)" "vm_map_t.vm_start v = word_ptr f" "8 dvd unat f"
    and "unat (first_word_mapping s) \<le> unat f" "unat f \<le> unat (first_word_mapping s) + 4096"
    and "\<And>p n. unat s \<le> unat p \<Longrightarrow> unat p < unat e \<Longrightarrow> n < 4096 \<Longrightarrow> phys_addr pg (unat (first_word_mapping p) + n) = unat p * 4096 + n"
  shows "entry_bytes pg v = {unat s * 4096 + (unat f - unat (first_word_mapping s))..<unat e * 4096}"
proof -
  let ?A = "unat (first_word_mapping s)" and ?n = "unat e - unat s"
  have e1: "unat (e - 1) = unat e - 1" using assms(1) by (intro unat_pred) simp
  have last: "unat (first_word_mapping (e - 1)) = ?A + (?n - 1) * 4096"
    using same_window_words [of "e - 1" s] assms(1-3) e1 by simp
  have big: "?A + (?n - 1) * 4096 + 4096 < 2 ^ 64"
  proof -
    have "unat (first_word_mapping (e - 1)) \<le> (2 ^ 19 + 2 ^ 18) * 4096"
      using assms(1,2) e1 mod_less_divisor [of "2 ^ 18" "unat e - 1"] by (subst first_word_unat) (auto intro: order.trans)
    then show ?thesis using last by simp
  qed
  have lw: "unat (last_word_mapping (e - 1) 8) = ?A + (?n - 1) * 4096 + 4088"
    using last big by (simp add: last_word_mapping_def unat_word_ariths)
  have A: "4096 dvd ?A" using assms(1,2) by (subst first_word_unat) auto
  have "8 dvd ?A" using A by (rule dvd_trans [rotated]) simp
  then have d: "8 dvd unat (last_word_mapping (e - 1) 8)" unfolding lw by (intro dvd_add dvd_mult) simp_all
  have "entry_bytes pg v = phys_addr pg ` {unat f..<unat (last_word_mapping (e - 1) 8) + 8}"
    using assms(4) by (intro entry_bytes_image [OF assms(6) d assms(5)]) (simp add: page_entry_def)
  also have "unat (last_word_mapping (e - 1) 8) + 8 = ?A + ?n * 4096" using lw assms(1) by (simp add: algebra_simps diff_mult_distrib2)
  also have "phys_addr pg ` {unat f..<?A + ?n * 4096} = {unat s * 4096 + (unat f - ?A)..<unat e * 4096}"
  proof -
    have ph: "phys_addr pg v = v - ?A + unat s * 4096" if v: "?A \<le> v" "v < ?A + ?n * 4096" for v
    proof -
      define k n where "k = (v - ?A) div 4096" and "n = (v - ?A) mod 4096"
      have vk: "v = ?A + k * 4096 + n" using v(1) by (simp add: k_def n_def)
      have n: "n < 4096" by (simp add: n_def)
      have k: "k < ?n" using v by (simp add: k_def div_less_iff_less_mult)
      let ?p = "of_nat (unat s + k) :: u64"
      have p: "unat ?p = unat s + k" using k assms(2) by (intro unat_of_nat_small) simp
      have "(unat s + k) div 2 ^ 18 = unat s div 2 ^ 18"
        using k assms(1,3) div_le_mono [of "unat s" "unat s + k" "2 ^ 18"] div_le_mono [of "unat s + k" "unat e - 1" "2 ^ 18"] by simp
      then have "unat (first_word_mapping ?p) = ?A + k * 4096"
        using same_window_words [of ?p s] k assms(2) p by simp
      then show ?thesis using assms(9) [of ?p n] k n p vk by (simp add: algebra_simps)
    qed
    have "phys_addr pg ` {unat f..<?A + ?n * 4096} = (\<lambda>v. v - ?A + unat s * 4096) ` {unat f..<?A + ?n * 4096}"
      using ph assms(7) by (intro image_cong) auto
    also have "\<dots> = {unat s * 4096 + (unat f - ?A)..<unat e * 4096}"
    proof (intro set_eqI iffI)
      fix x
      assume "x \<in> (\<lambda>v. v - ?A + unat s * 4096) ` {unat f..<?A + ?n * 4096}"
      then show "x \<in> {unat s * 4096 + (unat f - ?A)..<unat e * 4096}"
        using assms(1,7) by (auto simp: diff_mult_distrib)
    next
      fix x
      assume x: "x \<in> {unat s * 4096 + (unat f - ?A)..<unat e * 4096}"
      have "x = (x - unat s * 4096 + ?A) - ?A + unat s * 4096" using x by simp
      moreover have "x - unat s * 4096 + ?A \<in> {unat f..<?A + ?n * 4096}" using x assms(7) by (auto simp: diff_mult_distrib)
      ultimately show "x \<in> (\<lambda>v. v - ?A + unat s * 4096) ` {unat f..<?A + ?n * 4096}" by (rule image_eqI)
    qed
    finally show ?thesis .
  qed
  finally show ?thesis .
qed

section \<open>The entries of a window\<close>

definition clip :: "u64 \<Rightarrow> u64 \<Rightarrow> pm_map_t list \<Rightarrow> (u64 \<times> u64) list" where
  "clip w1 w2 rs = filter (\<lambda>(s, e). s < e) (map (\<lambda>r. (max w1 (pm_start r), min w2 (pm_end r))) rs)"

lemma clip_simps [simp]:
  "clip w1 w2 [] = []"
  "clip w1 w2 (r # rs) = (if max w1 (pm_start r) < min w2 (pm_end r) then (max w1 (pm_start r), min w2 (pm_end r)) # clip w1 w2 rs else clip w1 w2 rs)"
  by (simp_all add: clip_def)

lemma length_clip: "length (clip w1 w2 rs) \<le> length rs"
  by (induction rs) auto

definition clip_pages :: "(u64 \<times> u64) list \<Rightarrow> u64" where
  "clip_pages ses = sum_list (map (\<lambda>(s, e). e - s) ses)"

lemma add_entry_parts:
  assumes "vm_map_size v < length (vm_map v)"
  shows "length (vm_map (add_vm_entry None s e v)) = length (vm_map v)" "vm_map_size (add_vm_entry None s e v) = vm_map_size v + 1"
    "num_mapped_pages (add_vm_entry None s e v) = num_mapped_pages v + (e - s)"
    "take (vm_map_size v) (vm_map (add_vm_entry None s e v)) = take (vm_map_size v) (vm_map v)"
    "page_entry s e (vm_map (add_vm_entry None s e v) ! vm_map_size v)"
  using assms by (simp_all add: add_vm_entry_def Let_def page_entry_def)

lemma map_segments_plain:
  assumes "vm_map_size v + length (clip w1 w2 rs) \<le> length (vm_map v)"
  shows "let v1 = map_segments False affinity w1 w2 rs v; n = vm_map_size v in
    length (vm_map v1) = length (vm_map v) \<and> vm_map_size v1 = n + length (clip w1 w2 rs) \<and>
    num_mapped_pages v1 = num_mapped_pages v + clip_pages (clip w1 w2 rs) \<and> take n (vm_map v1) = take n (vm_map v) \<and>
    list_all2 (case_prod page_entry) (clip w1 w2 rs) (drop n (take (vm_map_size v1) (vm_map v1)))"
  using assms
proof (induction rs arbitrary: v)
  case Nil
  then show ?case by (simp add: clip_pages_def)
next
  case (Cons r rs)
  let ?s = "max w1 (pm_start r)" and ?e = "min w2 (pm_end r)"
  have s: "(if pm_start r \<le> w1 then w1 else pm_start r) = ?s" "(if pm_end r \<ge> w2 then w2 else pm_end r) = ?e"
    by (auto simp: max_def min_def)
  have cond: "(?s < ?e \<and> ?s < w2 \<and> ?e > w1) = (?s < ?e)" by auto
  show ?case
  proof (cases "?s < ?e")
    case False
    then have "map_segments False affinity w1 w2 (r # rs) v = map_segments False affinity w1 w2 rs v"
      using cond by (simp only: map_segments.simps Let_def s) simp
    moreover have "clip w1 w2 (r # rs) = clip w1 w2 rs" using False by (simp only: clip_simps if_False)
    ultimately show ?thesis using Cons.IH [of v] Cons.prems by (simp only:)
  next
    case True
    have cl: "clip w1 w2 (r # rs) = (?s, ?e) # clip w1 w2 rs" using True by (simp only: clip_simps if_True)
    let ?v = "add_vm_entry None ?s ?e v"
    have room: "vm_map_size v < length (vm_map v)" using Cons.prems unfolding cl by simp
    note p = add_entry_parts [OF room, of ?s ?e]
    have step: "map_segments False affinity w1 w2 (r # rs) v = map_segments False affinity w1 w2 rs ?v"
      using cond True by (simp only: map_segments.simps Let_def s) simp
    let ?v1 = "map_segments False affinity w1 w2 rs ?v" and ?n = "vm_map_size v"
    have "?n + 1 + length (clip w1 w2 rs) \<le> length (vm_map v)" using Cons.prems unfolding cl by simp
    note ih0 = Cons.IH [of ?v, unfolded Let_def p(1,2), OF this]
    have ih: "length (vm_map ?v1) = length (vm_map v)" "vm_map_size ?v1 = ?n + 1 + length (clip w1 w2 rs)"
        "num_mapped_pages ?v1 = num_mapped_pages ?v + clip_pages (clip w1 w2 rs)" "take (?n + 1) (vm_map ?v1) = take (?n + 1) (vm_map ?v)"
        "list_all2 (case_prod page_entry) (clip w1 w2 rs) (drop (?n + 1) (take (vm_map_size ?v1) (vm_map ?v1)))"
      using ih0 by blast+
    have at: "vm_map ?v1 ! ?n = vm_map ?v ! ?n"
      using ih(4) nth_take [of ?n "?n + 1" "vm_map ?v1"] nth_take [of ?n "?n + 1" "vm_map ?v"] by simp
    have tk: "take ?n (vm_map ?v1) = take ?n (vm_map v)"
      using arg_cong [OF ih(4), of "take ?n"] p(4) by simp
    have "drop ?n (take (vm_map_size ?v1) (vm_map ?v1)) = (vm_map ?v1 ! ?n) # drop (?n + 1) (take (vm_map_size ?v1) (vm_map ?v1))"
      using ih(1,2) p(1) room by (subst Cons_nth_drop_Suc [symmetric]) simp_all
    then show ?thesis
      using step ih(1-3,5) p(1,3,5) at tk unfolding cl by (simp add: Let_def clip_pages_def add.assoc)
  qed
qed

lemma unat_sum_list:
  fixes xs :: "u64 list"
  assumes "\<forall>x \<in> set xs. unat x \<le> m" "length xs * m < 2 ^ 64"
  shows "unat (sum_list xs) = sum_list (map unat xs)"
proof -
  have le: "sum_list (map unat xs) \<le> length xs * m" if "\<forall>x \<in> set xs. unat x \<le> m" for xs :: "u64 list"
    using that by (induction xs) auto
  show ?thesis
    using assms
  proof (induction xs)
    case (Cons x xs)
    then have ih: "unat (sum_list xs) = sum_list (map unat xs)" by simp
    have "unat x + sum_list (map unat xs) < 2 ^ 64" using le [of "x # xs"] Cons.prems by simp
    then show ?case using ih by (simp add: unat_word_ariths)
  qed simp
qed

lemma clip_pages_zero:
  assumes "\<forall>(s, e) \<in> set ses. s < e \<and> unat e \<le> 2 ^ 52" "length ses \<le> 128"
  shows "clip_pages ses = 0 \<longleftrightarrow> ses = []"
proof -
  let ?xs = "map (\<lambda>(s, e). e - s) ses"
  have pos: "0 < unat x \<and> unat x \<le> 2 ^ 52" if mem: "x \<in> set ?xs" for x
  proof -
    obtain se where x: "x = snd se - fst se" "se \<in> set ses" using mem by auto
    then have "fst se < snd se" "unat (snd se) \<le> 2 ^ 52" using assms(1) by auto
    then show ?thesis using x(1) by (simp add: unat_sub word_le_nat_alt word_less_nat_alt)
  qed
  have "length ?xs * 2 ^ 52 < 2 ^ 64" using assms(2) by simp
  then have "unat (clip_pages ses) = sum_list (map unat ?xs)"
    unfolding clip_pages_def using pos by (intro unat_sum_list) auto
  moreover have "sum_list (map unat ?xs) = 0 \<longleftrightarrow> ses = []"
    using pos by (cases ses) (auto simp: sum_list_eq_0_iff)
  ultimately show ?thesis by (metis unat_eq_zero)
qed

text \<open>The bytes of the pages of a list of ranges.\<close>

definition range_bytes :: "(u64 \<times> u64) list \<Rightarrow> nat set" where
  "range_bytes ses = (\<Union>(s, e) \<in> set ses. {unat s * 4096..<unat e * 4096})"

lemma range_bytes_Cons: "range_bytes ((s, e) # ses) = {unat s * 4096..<unat e * 4096} \<union> range_bytes ses"
  by (simp add: range_bytes_def)

lemma page_byte: "a \<in> {s * 4096..<e * 4096} \<longleftrightarrow> s \<le> a div 4096 \<and> a div 4096 < e" for a s e :: nat
  by (auto simp: div_less_iff_less_mult less_eq_div_iff_mult_less_eq)

lemma clip_bytes:
  "range_bytes (clip w1 w2 rs) = {a. in_pages rs (a div 4096) \<and> unat w1 \<le> a div 4096 \<and> a div 4096 < unat w2}"
proof -
  have "a \<in> range_bytes (clip w1 w2 rs) \<longleftrightarrow> in_pages rs (a div 4096) \<and> unat w1 \<le> a div 4096 \<and> a div 4096 < unat w2" for a
  proof (induction rs)
    case Nil
    then show ?case by (simp add: range_bytes_def in_pages_def)
  next
    case (Cons r rs)
    let ?s = "max w1 (pm_start r)" and ?e = "min w2 (pm_end r)"
    have u: "unat ?s = max (unat w1) (first_page r)" "unat ?e = min (unat w2) (end_page r)"
      by (simp_all add: max_def min_def word_le_nat_alt)
    have "a \<in> range_bytes (clip w1 w2 (r # rs)) \<longleftrightarrow> (?s < ?e \<and> unat ?s \<le> a div 4096 \<and> a div 4096 < unat ?e) \<or> a \<in> range_bytes (clip w1 w2 rs)"
      by (cases "?s < ?e") (simp_all only: clip_simps if_True if_False range_bytes_Cons Un_iff page_byte simp_thms)
    also have "?s < ?e \<and> unat ?s \<le> a div 4096 \<and> a div 4096 < unat ?e \<longleftrightarrow> unat ?s \<le> a div 4096 \<and> a div 4096 < unat ?e"
      by (auto simp: word_less_nat_alt)
    finally show ?case using Cons.IH by (auto simp: u in_pages_def)
  qed
  then show ?thesis by blast
qed

text \<open>The page the search starts from begins the first range, when it is in the map.\<close>

lemma clip_head:
  assumes "sorted_wrt (\<lambda>r q. pm_end r \<le> pm_start q) rs" "in_pages rs (unat w1)" "w1 < w2"
  shows "\<exists>e rest. clip w1 w2 rs = (w1, e) # rest \<and> w1 < e \<and> e \<le> w2 \<and> (\<forall>x \<in> set rest. e \<le> fst x)"
  using assms(1,2)
proof (induction rs)
  case Nil
  then show ?case by (simp add: in_pages_def)
next
  case (Cons r rs)
  show ?case
  proof (cases "first_page r \<le> unat w1 \<and> unat w1 < end_page r")
    case True
    then have "max w1 (pm_start r) = w1" by (intro max_absorb1) (simp add: word_le_nat_alt)
    moreover have "w1 < min w2 (pm_end r)" using True assms(3) by (simp add: word_less_nat_alt min_def)
    moreover have "\<forall>x \<in> set (clip w1 w2 rs). min w2 (pm_end r) \<le> fst x"
      using Cons.prems(1) by (auto simp: clip_def min.coboundedI2 max.coboundedI2)
    ultimately show ?thesis by (simp only: clip_simps if_True) simp
  next
    case False
    then obtain q where q: "q \<in> set rs" "first_page q \<le> unat w1" "unat w1 < end_page q"
      using Cons.prems(2) by (auto simp: in_pages_def)
    then have "end_page r \<le> unat w1" using Cons.prems(1) by (auto simp: word_le_nat_alt)
    then have "min w2 (pm_end r) \<le> max w1 (pm_start r)" by (metis min.cobounded2 max.cobounded1 order.trans word_le_nat_alt)
    then have "\<not> max w1 (pm_start r) < min w2 (pm_end r)" by (rule leD)
    moreover have "in_pages rs (unat w1)" using q by (auto simp: in_pages_def)
    ultimately show ?thesis using Cons by (simp only: clip_simps if_False) simp
  qed
qed

lemma clip_mem:
  assumes "(s, e) \<in> set (clip w1 w2 rs)"
  shows "s < e" "w1 \<le> s" "e \<le> w2" "\<exists>r \<in> set rs. e \<le> pm_end r"
proof -
  obtain r where r: "r \<in> set rs" "s = max w1 (pm_start r)" "e = min w2 (pm_end r)" "s < e"
    using assms by (auto simp: clip_def)
  show "s < e" by (fact r(4))
  show "w1 \<le> s" "e \<le> w2" using r(2,3) by (simp_all only: max.cobounded1 min.cobounded1)
  show "\<exists>r \<in> set rs. e \<le> pm_end r" using r(1,3) by (metis min.cobounded2)
qed

lemma clip_empty: "w2 \<le> w1 \<Longrightarrow> clip w1 w2 rs = []"
  by (induction rs) (auto simp: max_def min_def)

text \<open>The map that \<open>setup_vm_map\<close> makes of a window, when the memory is not split by domain.\<close>

lemma setup_map_parts:
  fixes w1 w2 :: u64 and affinity :: "memory_affinity_t list"
  assumes "\<not> config.enable_numa cfg" "length (vm_map v) = 128" "length segs \<le> 128"
  defines "R \<equiv> clip (max w1 (pm_limit_lower cfg)) (min w2 (pm_limit_upper cfg)) segs"
    and "v1 \<equiv> setup_vm_map cfg affinity segs w1 w2 v"
  shows "length (vm_map v1) = 128" "vm_map_size v1 = length R" "num_mapped_pages v1 = clip_pages R"
    "list_all2 (case_prod page_entry) R (take (length R) (vm_map v1))"
proof -
  let ?v0 = "v\<lparr>vm_map_size := 0, num_mapped_pages := 0\<rparr>"
  let ?s = "max w1 (pm_limit_lower cfg)" and ?e = "min w2 (pm_limit_upper cfg)"
  have m: "(if w1 < pm_limit_lower cfg then pm_limit_lower cfg else w1) = ?s"
      "(if w2 > pm_limit_upper cfg then pm_limit_upper cfg else w2) = ?e"
    by (auto simp: max_def min_def)
  have v1: "v1 = (if ?s \<ge> ?e then ?v0 else map_segments False affinity ?s ?e segs ?v0)"
    using assms(1) unfolding v1_def setup_vm_map_def Let_def m by simp
  have "length R \<le> 128" using length_clip [of ?s ?e segs] assms(3) unfolding R_def by simp
  then have room: "vm_map_size ?v0 + length (clip ?s ?e segs) \<le> length (vm_map ?v0)" using assms(2) unfolding R_def by simp
  have goal: "length (vm_map v1) = 128 \<and> vm_map_size v1 = length R \<and> num_mapped_pages v1 = clip_pages R \<and>
    list_all2 (case_prod page_entry) R (take (length R) (vm_map v1))"
  proof (cases "?s \<ge> ?e")
    case True
    then have "R = []" "v1 = ?v0" unfolding R_def v1 by (simp_all only: clip_empty if_True)
    then show ?thesis using assms(2) by (simp add: clip_pages_def)
  next
    case False
    then have "v1 = map_segments False affinity ?s ?e segs ?v0" unfolding v1 by (simp only: if_False)
    then show ?thesis using map_segments_plain [OF room, of affinity] assms(2) unfolding R_def Let_def by auto
  qed
  then show "length (vm_map v1) = 128" "vm_map_size v1 = length R" "num_mapped_pages v1 = clip_pages R"
    "list_all2 (case_prod page_entry) R (take (length R) (vm_map v1))" by blast+
qed

section \<open>The bytes of a window\<close>

text \<open>The ranges lie in one 1 GB window of physical memory, the number \<open>d\<close>.\<close>

definition within :: "nat \<Rightarrow> (u64 \<times> u64) list \<Rightarrow> bool" where
  "within d ses \<longleftrightarrow> (\<forall>x \<in> set ses. fst x < snd x \<and> unat (snd x) \<le> 2 ^ 52 \<and> unat (fst x) div 2 ^ 18 = d \<and> (unat (snd x) - 1) div 2 ^ 18 = d)"

definition shows_window :: "nat \<Rightarrow> vmem_state \<Rightarrow> bool" where
  "shows_window d pg \<longleftrightarrow> (\<forall>p n. unat p < 2 ^ 52 \<longrightarrow> unat p div 2 ^ 18 = d \<longrightarrow> n < 4096 \<longrightarrow>
     phys_addr pg (unat (first_word_mapping p) + n) = unat p * 4096 + n)"

lemma map_window_shows:
  assumes "has_pae cpu" "map_window cpu q pg = (True, pg1)" "unat q < 2 ^ 52" "unat q div 2 ^ 18 = d"
  shows "shows_window d pg1"
  unfolding shows_window_def
proof (intro allI impI)
  fix p :: u64 and n :: nat
  assume p: "unat p < 2 ^ 52" "unat p div 2 ^ 18 = d" "n < 4096"
  have "unat (drop_bit 18 p) = unat (drop_bit 18 q)" using assms(4) p(2) by (simp only: unat_shift)
  then have "drop_bit 18 p = drop_bit 18 q" by (rule word_unat_eq_iff [THEN iffD2])
  then show "phys_addr pg1 (unat (first_word_mapping p) + n) = unat p * 4096 + n"
    using window_page [OF assms(1-3) p(1,3)] by blast
qed

lemma between_div:
  fixes a b c k :: nat
  assumes "a \<le> b" "b \<le> c" "a div k = d" "c div k = d"
  shows "b div k = d"
  using div_le_mono [OF assms(1), of k] div_le_mono [OF assms(2), of k] assms(3,4) by simp

lemma one_entry_bytes:
  assumes "shows_window d pg" "within d [(s, e)]" "page_entry s e (v\<lparr>vm_map_t.vm_start := word_ptr (first_word_mapping s)\<rparr>)"
    and "vm_map_t.vm_start v = word_ptr f" "8 dvd unat f"
    and "unat (first_word_mapping s) \<le> unat f" "unat f \<le> unat (first_word_mapping s) + 4096"
  shows "entry_bytes pg v = {unat s * 4096 + (unat f - unat (first_word_mapping s))..<unat e * 4096}"
proof (rule page_entry_bytes [OF _ _ _ assms(3-7)])
  have w: "unat s < unat e" "unat e \<le> 2 ^ 52" "unat s div 2 ^ 18 = d" "(unat e - 1) div 2 ^ 18 = d"
    using assms(2) by (simp_all add: within_def word_less_nat_alt)
  show "unat s < unat e" "unat e \<le> 2 ^ 52" by (fact w)+
  show "unat s div 2 ^ 18 = (unat e - 1) div 2 ^ 18" using w by simp
  fix p :: u64 and n :: nat
  assume p: "unat s \<le> unat p" "unat p < unat e" "n < 4096"
  have "unat p div 2 ^ 18 = d" by (rule between_div [OF p(1) _ w(3,4)]) (use p(2) in simp)
  then show "phys_addr pg (unat (first_word_mapping p) + n) = unat p * 4096 + n"
    using assms(1) p w(2) unfolding shows_window_def by simp
qed

lemma page_aligned: "unat p < 2 ^ 52 \<Longrightarrow> 8 dvd unat (first_word_mapping p)"
  by (subst first_word_unat) (auto intro!: dvd_mult)

lemma entries_bytes:
  assumes "list_all2 (case_prod page_entry) ses es" "within d ses" "shows_window d pg"
  shows "(\<Union>x \<in> set es. entry_bytes pg x) = range_bytes ses"
  using assms(1,2)
proof (induction rule: list_all2_induct)
  case Nil
  then show ?case by (simp add: range_bytes_def)
next
  case (Cons se ses x xs)
  obtain s e where se: "se = (s, e)" by (cases se)
  have pe: "page_entry s e x" using Cons.hyps(1) se by simp
  have w: "within d [(s, e)]" "within d ses" "unat s < 2 ^ 52" using Cons.prems se by (auto simp: within_def word_less_nat_alt)
  have st: "vm_map_t.vm_start x = word_ptr (first_word_mapping s)" using pe by (simp add: page_entry_def)
  then have "page_entry s e (x\<lparr>vm_map_t.vm_start := word_ptr (first_word_mapping s)\<rparr>)" using pe by (simp add: page_entry_def)
  then have "entry_bytes pg x = {unat s * 4096..<unat e * 4096}"
    using one_entry_bytes [OF assms(3) w(1) _ st page_aligned [OF w(3)]] by simp
  then show ?case using Cons.IH [OF w(2)] by (simp add: se range_bytes_Cons)
qed

text \<open>The bytes that the tests of a window may touch.\<close>

definition window_bytes :: "window_state \<Rightarrow> nat set" where
  "window_bytes ws = (\<Union>e \<in> set (take (vm_map_size (vm ws)) (vm_map (vm ws))). entry_bytes (paging ws) e)"

section \<open>The windows of a test\<close>

text \<open>The run with a log: each call of \<open>run_tests\<close> adds the state of the window that it is given.\<close>

definition recording :: "'w run_env \<Rightarrow> ('w \<times> window_state list) run_env" where
  "recording env =
     \<lparr>env_pm_map = env_pm_map env, env_affinity = env_affinity env, env_paging = env_paging env, low_load_addr = low_load_addr env,
      high_load_addr = high_load_addr env, num_available_cpus = num_available_cpus env,
      run_tests = (\<lambda>cpus t stage n ws (cfg, w, log).
        let (cfg1, w1) = run_tests env cpus t stage n ws (cfg, w) in (cfg1, w1, log @ [ws])),
      count_ticks = (\<lambda>t stage n ws (cfg, w, log). count_ticks env t stage n ws (cfg, w))\<rparr>"

lemma recording_simps [simp]:
  "env_pm_map (recording env) = env_pm_map env" "env_affinity (recording env) = env_affinity env"
  "env_paging (recording env) = env_paging env" "low_load_addr (recording env) = low_load_addr env"
  "high_load_addr (recording env) = high_load_addr env"
  by (simp_all add: recording_def)

definition quiet_tests :: "'w run_env \<Rightarrow> bool" where
  "quiet_tests env \<longleftrightarrow> (\<forall>cpus t stage n ws x. fst (run_tests env cpus t stage n ws x) = fst x)"

lemma recording_run:
  assumes "quiet_tests env"
  shows "\<exists>w1. run_tests (recording env) cpus t stage n ws (cfg, w) = (cfg, w1, snd w @ [ws])"
proof -
  obtain w0 log where w: "w = (w0, log)" by (cases w)
  obtain cfg1 w1 where r: "run_tests env cpus t stage n ws (cfg, w0) = (cfg1, w1)" by fastforce
  have "cfg1 = cfg" using assms r unfolding quiet_tests_def by (metis fst_conv)
  then show ?thesis using r by (simp add: recording_def w)
qed

definition map_ok :: "pm_map_t list \<Rightarrow> bool" where
  "map_ok segs \<longleftrightarrow> segs \<noteq> [] \<and> length segs \<le> 128 \<and> sorted_wrt (\<lambda>r q. pm_end r \<le> pm_start q) segs \<and>
     (\<forall>r \<in> set segs. pm_start r \<le> pm_end r \<and> unat (pm_end r) \<le> 2 ^ 52)"

lemma map_ok_last:
  assumes "map_ok segs" "in_pages segs p"
  shows "p < end_page (last segs)"
proof -
  obtain r where r: "r \<in> set segs" "p < end_page r" using assms(2) by (auto simp: in_pages_def)
  obtain xs where xs: "segs = xs @ [last segs]" using assms(1) by (metis append_butlast_last_id map_ok_def)
  have "pm_end r \<le> pm_end (last segs)"
  proof (cases "r = last segs")
    case False
    then have "r \<in> set xs" using r(1) xs by (metis UnE empty_iff insert_iff list.set set_append)
    moreover have "sorted_wrt (\<lambda>r q. pm_end r \<le> pm_start q) (xs @ [last segs])" using assms(1) xs by (simp add: map_ok_def)
    ultimately have "pm_end r \<le> pm_start (last segs)" by (simp add: sorted_wrt_append)
    moreover have "pm_start (last segs) \<le> pm_end (last segs)" using assms(1) by (simp add: map_ok_def)
    ultimately show ?thesis by (rule order.trans)
  qed simp
  then show ?thesis using r(2) by (simp add: word_le_nat_alt)
qed

text \<open>The page at which window \<open>k\<close> begins.\<close>

definition window_page_of :: "nat \<Rightarrow> nat" where
  "window_page_of k = (if k = 0 then 0 else if k = 1 then 1024 else (k - 1) * 2 ^ 18)"

lemma window_page_mono: "j \<le> k \<Longrightarrow> window_page_of j \<le> window_page_of k"
  by (auto simp: window_page_of_def)

text \<open>The state at the head of the loop, before window \<open>k\<close>.\<close>

definition at_window :: "nat \<Rightarrow> window_state \<Rightarrow> bool" where
  "at_window k ws \<longleftrightarrow> window_num ws = int k \<and> unat (window_end ws) = window_page_of k \<and> length (vm_map (vm ws)) = 128"

lemma next_window_bounds:
  assumes "window_num ws = int k" "2 \<le> k \<Longrightarrow> unat (window_end ws) = window_page_of k" "window_page_of k < 2 ^ 52"
  shows "unat (window_start (next_window ws)) = window_page_of k" "unat (window_end (next_window ws)) = window_page_of (Suc k)"
    "vm (next_window ws) = vm ws" "paging (next_window ws) = paging ws" "window_num (next_window ws) = window_num ws"
proof -
  have lim: "drop_bit PAGE_SHIFT LOW_LOAD_LIMIT = 0x400" by (simp add: LOW_LOAD_LIMIT_def SIZE_C_def unit_sizes)
  have sz: "VM_WINDOW_SIZE = 0x40000" by (simp add: pow2_simps)
  show "vm (next_window ws) = vm ws" "paging (next_window ws) = paging ws" "window_num (next_window ws) = window_num ws"
    by (simp_all add: next_window_def)
  have "unat (window_start (next_window ws)) = window_page_of k \<and> unat (window_end (next_window ws)) = window_page_of (Suc k)"
  proof (cases "k \<le> 1")
    case True
    then have "k = 0 \<or> k = 1" by linarith
    then show ?thesis using assms(1) by (auto simp: next_window_def lim sz window_page_of_def)
  next
    case False
    then have e: "unat (window_end ws) = (k - 1) * 2 ^ 18" using assms(2) by (simp add: window_page_of_def)
    have "(k - 1) * 2 ^ 18 < 2 ^ 52" using assms(3) False by (simp add: window_page_of_def)
    then have "unat (window_end ws + 0x40000) = (k - 1) * 2 ^ 18 + 2 ^ 18" using e by (simp add: unat_word_ariths)
    moreover have "(k - 1) * 2 ^ 18 + 2 ^ 18 = k * 2 ^ 18" using False by (cases k) simp_all
    ultimately show ?thesis using assms(1) False e by (simp add: next_window_def sz window_page_of_def)
  qed
  then show "unat (window_start (next_window ws)) = window_page_of k" "unat (window_end (next_window ws)) = window_page_of (Suc k)"
    by blast+
qed

text \<open>The window after \<open>first_window_num\<close>.\<close>

definition window_taken :: "config \<Rightarrow> test_pattern_t \<Rightarrow> nat \<Rightarrow> nat" where
  "window_taken cfg t k = (if k = 0 \<and> (tp_stages t > 1 \<or> pm_limit_lower cfg \<ge> LOW_LOAD_LIMIT) then 1 else k)"

lemma first_window_taken: "first_window_num cfg t (int k) = int (window_taken cfg t k)"
  by (auto simp: first_window_num_def window_taken_def)

text \<open>The bytes to test in the pages from \<open>m\<close> to before \<open>n\<close>.\<close>

definition bytes_to_test :: "config \<Rightarrow> pm_map_t list \<Rightarrow> nat \<Rightarrow> nat \<Rightarrow> nat set" where
  "bytes_to_test cfg segs m n =
     {a. in_pages segs (a div 4096) \<and> unat (pm_limit_lower cfg) \<le> a div 4096 \<and> a div 4096 < unat (pm_limit_upper cfg) \<and>
         0x500 \<le> a \<and> m \<le> a div 4096 \<and> a div 4096 < n}"

lemma unat_max: "unat (max a b) = max (unat a) (unat b)" and unat_min: "unat (min a b) = min (unat a) (unat b)" for a b :: u64
  by (simp_all add: max_def min_def word_le_nat_alt)

text \<open>The ranges of window \<open>k\<close>.\<close>

definition window_ranges :: "config \<Rightarrow> pm_map_t list \<Rightarrow> window_state \<Rightarrow> (u64 \<times> u64) list" where
  "window_ranges cfg segs ws = clip (max (window_start ws) (pm_limit_lower cfg)) (min (window_end ws) (pm_limit_upper cfg)) segs"

lemma window_pages_div:
  assumes "window_page_of k \<le> p" "p < window_page_of (Suc k)"
  shows "p div 2 ^ 18 = k - 1"
proof (cases "k \<le> 1")
  case True
  then have "p < 2 ^ 18" using assms(2) by (auto simp: window_page_of_def split: if_splits)
  then show ?thesis using True by simp
next
  case False
  then have "(k - 1) * 2 ^ 18 \<le> p" "p < Suc (k - 1) * 2 ^ 18" using assms by (simp_all add: window_page_of_def)
  then show ?thesis by (intro div_nat_eqI) simp_all
qed

lemma window_ranges_within:
  assumes "map_ok segs" "unat (window_start ws) = window_page_of k" "unat (window_end ws) = window_page_of (Suc k)"
  shows "within (k - 1) (window_ranges cfg segs ws)"
proof -
  have "fst x < snd x \<and> unat (snd x) \<le> 2 ^ 52 \<and> unat (fst x) div 2 ^ 18 = k - 1 \<and> (unat (snd x) - 1) div 2 ^ 18 = k - 1"
    if "x \<in> set (window_ranges cfg segs ws)" for x
  proof -
    obtain s e where x: "x = (s, e)" by (cases x)
    note c = clip_mem [OF that [unfolded window_ranges_def x]]
    have "unat e \<le> 2 ^ 52" using c(4) assms(1) unfolding map_ok_def word_le_nat_alt by (meson order.trans)
    moreover have "unat s < unat e" "window_page_of k \<le> unat s" "unat e \<le> window_page_of (Suc k)"
      using c(1-3) assms(2,3) by (simp_all add: word_le_nat_alt word_less_nat_alt unat_max unat_min)
    ultimately show ?thesis
      using window_pages_div [of k "unat s"] window_pages_div [of k "unat e - 1"] c(1) x by simp
  qed
  then show ?thesis by (simp add: within_def)
qed

lemma window_ranges_bytes:
  assumes "unat (window_start ws) = m" "unat (window_end ws) = n"
  shows "range_bytes (window_ranges cfg segs ws) =
    {a. in_pages segs (a div 4096) \<and> max m (unat (pm_limit_lower cfg)) \<le> a div 4096 \<and> a div 4096 < min n (unat (pm_limit_upper cfg))}"
  unfolding window_ranges_def clip_bytes by (simp add: assms unat_max unat_min)

text \<open>In a window above the first, the tests get the ranges as they are.\<close>

lemma upper_window_bytes:
  assumes "map_ok segs" "unat (window_start ws) = window_page_of k" "unat (window_end ws) = window_page_of (Suc k)" "1 \<le> k"
    and "list_all2 (case_prod page_entry) (window_ranges cfg segs ws) (take (vm_map_size (vm ws)) (vm_map (vm ws)))"
    and "shows_window (k - 1) (paging ws)"
  shows "window_bytes ws = bytes_to_test cfg segs (window_page_of k) (window_page_of (Suc k))"
proof -
  have "window_bytes ws = range_bytes (window_ranges cfg segs ws)"
    unfolding window_bytes_def by (rule entries_bytes [OF assms(5) window_ranges_within [OF assms(1-3)] assms(6)])
  also have "\<dots> = bytes_to_test cfg segs (window_page_of k) (window_page_of (Suc k))"
  proof -
    have "1024 \<le> window_page_of k" using assms(4) by (auto simp: window_page_of_def)
    then have "0x500 \<le> a" if "window_page_of k \<le> a div 4096" for a
      using that by (cases "a < 4096") simp_all
    then show ?thesis unfolding window_ranges_bytes [OF assms(2,3)] bytes_to_test_def
      by (intro Collect_cong) (simp only: max.bounded_iff min_less_iff_conj, blast)
  qed
  finally show ?thesis .
qed

text \<open>In the first one, the first range begins at the lower limit, or behind the first 0x500 bytes.\<close>

lemma first_page_words:
  assumes "unat p < 1024"
  shows "unat (first_word_mapping p) = unat p * 4096"
  using assms by (subst first_word_unat) simp_all

definition first_byte :: "u64 \<Rightarrow> u64" where
  "first_byte p = (if first_word_mapping p < 0x500 then 0x500 else first_word_mapping p)"

lemma first_byte_facts:
  assumes "unat p < 1024"
  shows "unat (first_byte p) = max 0x500 (unat p * 4096)" "8 dvd unat (first_byte p)"
proof -
  show "unat (first_byte p) = max 0x500 (unat p * 4096)"
    using first_page_words [OF assms] by (simp add: first_byte_def word_less_nat_alt)
  then show "8 dvd unat (first_byte p)" by (simp add: max_def dvd_mult)
qed

lemma first_window_bytes:
  assumes "map_ok segs" "unat (window_start ws) = 0" "unat (window_end ws) = 1024" "unat (pm_limit_lower cfg) < 1024"
    and "in_pages segs (unat (pm_limit_lower cfg))" "window_ranges cfg segs ws \<noteq> []" "length (vm_map (vm ws)) = 128"
    and "vm_map_size (vm ws) = length (window_ranges cfg segs ws)"
    and "list_all2 (case_prod page_entry) (window_ranges cfg segs ws) (take (vm_map_size (vm ws)) (vm_map (vm ws)))"
    and "shows_window 0 (paging ws)" "window_num ws = 0"
  shows "window_bytes (begin_test cfg ws) = bytes_to_test cfg segs 0 1024"
proof -
  let ?R = "window_ranges cfg segs ws" and ?lo = "pm_limit_lower cfg"
  have ws0: "window_start ws = 0" using assms(2) by (simp add: unat_eq_0)
  have R: "?R = clip ?lo (min (window_end ws) (pm_limit_upper cfg)) segs" by (simp add: window_ranges_def ws0)
  have lt: "?lo < min (window_end ws) (pm_limit_upper cfg)"
  proof (rule ccontr)
    assume "\<not> ?thesis"
    then have "?R = []" unfolding R by (simp only: not_less clip_empty)
    then show False using assms(6) by contradiction
  qed
  obtain e rest where er: "?R = (?lo, e) # rest" "?lo < e" "\<forall>x \<in> set rest. e \<le> fst x"
    using clip_head [OF _ assms(5) lt] assms(1) unfolding R map_ok_def by blast
  obtain x xs where xx: "take (vm_map_size (vm ws)) (vm_map (vm ws)) = x # xs" "page_entry ?lo e x"
      "list_all2 (case_prod page_entry) rest xs"
    using assms(9) unfolding er(1) by (auto simp: list_all2_Cons1)
  have w: "within 0 ?R" using window_ranges_within [of segs ws 0 cfg] assms(1-3) by (simp add: window_page_of_def)
  have w1: "within 0 [(?lo, e)]" "within 0 rest" using w unfolding er(1) by (simp_all add: within_def)
  let ?f = "first_byte ?lo" and ?x = "x\<lparr>vm_map_t.vm_start := word_ptr (first_byte ?lo)\<rparr>"
  have nth0: "vm_map (vm ws) ! 0 = x" using arg_cong [OF xx(1), of "\<lambda>l. l ! 0"] assms(6,8) by simp
  have "take (vm_map_size (vm ws)) ((vm_map (vm ws))[0 := ?x]) = ?x # xs"
    using xx(1) by (simp add: take_update_swap)
  then have "window_bytes (begin_test cfg ws) = entry_bytes (paging ws) ?x \<union> (\<Union>y \<in> set xs. entry_bytes (paging ws) y)"
    using nth0 assms(11) by (simp add: window_bytes_def begin_test_def Let_def first_byte_def)
  also have "(\<Union>y \<in> set xs. entry_bytes (paging ws) y) = range_bytes rest"
    by (rule entries_bytes [OF xx(3) w1(2) assms(10)])
  also have "entry_bytes (paging ws) ?x = {unat ?lo * 4096 + (unat ?f - unat (first_word_mapping ?lo))..<unat e * 4096}"
    using first_byte_facts [OF assms(4)] first_page_words [OF assms(4)] xx(2)
    by (intro one_entry_bytes [OF assms(10) w1(1)]) (simp_all add: page_entry_def)
  also have "unat ?lo * 4096 + (unat ?f - unat (first_word_mapping ?lo)) = max 0x500 (unat ?lo * 4096)"
    using first_byte_facts(1) [OF assms(4)] first_page_words [OF assms(4)] by simp
  also have "{max 0x500 (unat ?lo * 4096)..<unat e * 4096} = {unat ?lo * 4096..<unat e * 4096} \<inter> {0x500..}" by auto
  also have "({unat ?lo * 4096..<unat e * 4096} \<inter> {0x500..}) \<union> range_bytes rest = range_bytes ?R \<inter> {0x500..}"
  proof -
    have "0x500 \<le> a" if "a \<in> range_bytes rest" for a
    proof -
      obtain y where y: "y \<in> set rest" "unat (fst y) * 4096 \<le> a" using \<open>a \<in> range_bytes rest\<close> by (auto simp: range_bytes_def)
      have "0 < unat (fst y)" using er(2,3) y(1) by (auto simp: word_le_nat_alt word_less_nat_alt)
      then show ?thesis using y(2) by simp
    qed
    then show ?thesis unfolding er(1) range_bytes_Cons by auto
  qed
  also have "\<dots> = bytes_to_test cfg segs 0 1024"
    unfolding window_ranges_bytes [OF assms(2,3)] bytes_to_test_def by auto
  finally show ?thesis .
qed

end
