(* ===== verification/Run_Windows_Spec.thy ===== *)
theory Run_Windows_Spec
  imports Run_Windows Config_Spec
begin

text \<open>
  The windows of a test, one after the other: they cover the memory between the limits, and the tests never get a byte of the
  copy of the program that runs. The statements are about a run with a log: each call of \<open>run_tests\<close> is recorded with the window
  that it is given.
\<close>

section \<open>A round of the loop\<close>

text \<open>What the run relies on: it is a real one, on one domain, with a processor that has PAE.\<close>

definition mapped_run :: "'w run_env \<Rightarrow> 'a run_state \<Rightarrow> bool" where
  "mapped_run env st \<longleftrightarrow> \<not> dummy_run st \<and> \<not> config.enable_numa (settings st) \<and> has_pae (env_paging env) \<and> map_ok (env_pm_map env)"

text \<open>Nothing stops it either: no test is left early, and the processor can map every window.\<close>

definition plain_run :: "'w run_env \<Rightarrow> 'a run_state \<Rightarrow> bool" where
  "plain_run env st \<longleftrightarrow> mapped_run env st \<and> \<not> bail (settings st) \<and> has_lm (env_paging env) \<and> quiet_tests env \<and>
     (unat (pm_limit_lower (settings st)) < 1024 \<longrightarrow> in_pages (env_pm_map env) (unat (pm_limit_lower (settings st))))"

definition same_test :: "'a run_state \<Rightarrow> 'a run_state \<Rightarrow> bool" where
  "same_test st st1 \<longleftrightarrow> settings st1 = settings st \<and> test_num st1 = test_num st \<and> dummy_run st1 = dummy_run st"

lemma plain_run_same: "same_test st st1 \<Longrightarrow> plain_run env st1 = plain_run env st"
  by (simp add: same_test_def plain_run_def mapped_run_def)

text \<open>The window that is entered from the head of the loop.\<close>

lemma enter_window_parts:
  assumes "mapped_run env st" "at_window k (windows st)" "window_page_of k < 2 ^ 52"
  defines "j \<equiv> window_taken (settings st) (this_test st) k" and "ws \<equiv> enter_window (recording env) st"
    and "R \<equiv> window_ranges (settings st) (env_pm_map env) (enter_window (recording env) st)"
  shows "window_num ws = int j" "unat (window_start ws) = window_page_of j" "unat (window_end ws) = window_page_of (Suc j)"
    "length (vm_map (vm ws)) = 128" "vm_map_size (vm ws) = length R" "num_mapped_pages (vm ws) = 0 \<longleftrightarrow> R = []"
    "list_all2 (case_prod page_entry) R (take (vm_map_size (vm ws)) (vm_map (vm ws)))" "paging ws = paging (windows st)"
proof -
  let ?w1 = "(windows st)\<lparr>window_num := first_window_num (settings st) (this_test st) (window_num (windows st))\<rparr>"
  let ?w2 = "relocate (recording env) (dummy_run st) ?w1"
  let ?w3 = "next_window ?w2" and ?cfg = "settings st" and ?segs = "env_pm_map env"
  have at: "window_num (windows st) = int k" "unat (window_end (windows st)) = window_page_of k"
      "length (vm_map (vm (windows st))) = 128"
    using assms(2) by (simp_all add: at_window_def)
  have w2: "window_num ?w2 = int j" "window_end ?w2 = window_end (windows st)" "vm ?w2 = vm (windows st)" "paging ?w2 = paging (windows st)"
    using first_window_taken [of ?cfg "this_test st" k] at(1) by (simp_all add: relocate_def j_def)
  have j: "2 \<le> j \<Longrightarrow> j = k" "window_page_of j < 2 ^ 52"
    using assms(3) by (auto simp: j_def window_taken_def window_page_of_def)
  have e: "2 \<le> j \<Longrightarrow> unat (window_end ?w2) = window_page_of j" using j(1) w2(2) at(2) by simp
  note b = next_window_bounds [OF w2(1) e j(2)]
  let ?v = "setup_vm_map ?cfg (env_affinity env) ?segs (window_start ?w3) (window_end ?w3) (vm ?w3)"
  have ws: "ws = ?w3\<lparr>vm := ?v\<rparr>" unfolding ws_def enter_window_def Let_def by simp
  have R: "R = clip (max (window_start ?w3) (pm_limit_lower ?cfg)) (min (window_end ?w3) (pm_limit_upper ?cfg)) ?segs"
    unfolding R_def ws_def [symmetric] ws by (simp add: window_ranges_def)
  have n: "\<not> config.enable_numa ?cfg" "length ?segs \<le> 128" using assms(1) by (simp_all add: mapped_run_def map_ok_def)
  have l: "length (vm_map (vm ?w3)) = 128" using b(3) w2(3) at(3) by simp
  note s = setup_map_parts [where ?w1.0 = "window_start ?w3" and ?w2.0 = "window_end ?w3" and affinity = "env_affinity env", OF n(1) l n(2), folded R]
  show "window_num ws = int j" "unat (window_start ws) = window_page_of j" "unat (window_end ws) = window_page_of (Suc j)"
    using ws b w2 by simp_all
  show "paging ws = paging (windows st)" using ws b(4) w2(4) by simp
  show "length (vm_map (vm ws)) = 128" "vm_map_size (vm ws) = length R"
      "list_all2 (case_prod page_entry) R (take (vm_map_size (vm ws)) (vm_map (vm ws)))"
    using ws s by simp_all
  have "within (j - 1) R"
    using window_ranges_within [of ?segs ws j ?cfg] assms(1) ws b(1,2) unfolding R_def ws_def [symmetric] mapped_run_def by simp
  then have "\<forall>(s, e) \<in> set R. s < e \<and> unat e \<le> 2 ^ 52" by (auto simp: within_def)
  moreover have "length R \<le> 128" unfolding R by (rule order.trans [OF length_clip n(2)])
  ultimately show "num_mapped_pages (vm ws) = 0 \<longleftrightarrow> R = []" using clip_pages_zero [of R] ws s(3) by simp
qed

text \<open>The tables show the window that is entered.\<close>

lemma entered_window_shows:
  assumes "mapped_run env st" "unat (window_start ws) = window_page_of j" "unat (window_end ws) = window_page_of (Suc j)"
    and "vm_map_size (vm ws) = length (window_ranges cfg (env_pm_map env) ws)"
    and "list_all2 (case_prod page_entry) (window_ranges cfg (env_pm_map env) ws) (take (vm_map_size (vm ws)) (vm_map (vm ws)))"
    and "window_ranges cfg (env_pm_map env) ws \<noteq> []" "map_window (env_paging env) (pm_base_addr (vm_map (vm ws) ! 0)) pg = (True, pg1)"
  shows "shows_window (j - 1) pg1"
proof -
  let ?R = "window_ranges cfg (env_pm_map env) ws"
  have run: "has_pae (env_paging env)" "map_ok (env_pm_map env)" using assms(1) by (simp_all add: mapped_run_def)
  obtain s t R' where R': "?R = (s, t) # R'" using assms(6) by (metis neq_Nil_conv surj_pair)
  have "within (j - 1) ?R" by (rule window_ranges_within [OF run(2) assms(2,3)])
  then have sd: "unat s < 2 ^ 52" "unat s div 2 ^ 18 = j - 1" unfolding R' by (simp_all add: within_def word_less_nat_alt)
  have "page_entry s t (take (vm_map_size (vm ws)) (vm_map (vm ws)) ! 0)"
    using list_all2_nthD [OF assms(5), of 0] unfolding R' by simp
  then have "pm_base_addr (vm_map (vm ws) ! 0) = s" using assms(4) unfolding R' by (simp add: page_entry_def)
  then show ?thesis using map_window_shows [OF run(1) assms(7)] sd by simp
qed

text \<open>One round tests the bytes of its window, when there are any, and goes on to the next.\<close>

lemma window_round:
  assumes "plain_run env st" "at_window k (windows st)" "window_page_of k < 2 ^ 52"
  defines "j \<equiv> window_taken (settings st) (this_test st) k"
  shows "\<exists>st1 log. window_step (recording env) st = (False, st1) \<and> same_test st st1 \<and> at_window (Suc j) (windows st1) \<and>
    snd (world st1) = snd (world st) @ log \<and> length log \<le> 1 \<and>
    (\<Union>ws \<in> set log. window_bytes ws) = bytes_to_test (settings st) (env_pm_map env) (window_page_of j) (window_page_of (Suc j))"
proof -
  let ?ws = "enter_window (recording env) st" and ?cfg = "settings st" and ?segs = "env_pm_map env"
  let ?R = "window_ranges ?cfg ?segs ?ws"
  have mr: "mapped_run env st" using assms(1) by (simp add: plain_run_def)
  note e = enter_window_parts [OF mr assms(2,3), folded j_def]
  have run: "\<not> bail ?cfg" "\<not> dummy_run st" "has_pae (env_paging env)" "has_lm (env_paging env)" "quiet_tests env" "map_ok ?segs"
    using assms(1) by (simp_all add: plain_run_def mapped_run_def)
  let ?T = "bytes_to_test ?cfg ?segs (window_page_of j) (window_page_of (Suc j))"
  have sub: "?T \<subseteq> range_bytes ?R" unfolding window_ranges_bytes [OF e(2,3)] bytes_to_test_def by auto
  show ?thesis
  proof (cases "?R = []")
    case True
    then have "window_step (recording env) st = (False, st\<lparr>windows := ?ws\<lparr>window_num := window_num ?ws + 1\<rparr>\<rparr>)"
      using e(6) run(1) unfolding window_step_def Let_def by simp
    moreover have "?T = {}" using sub True by (simp add: range_bytes_def)
    ultimately show ?thesis using e(1,3,4) by (intro exI [of _ "st\<lparr>windows := ?ws\<lparr>window_num := window_num ?ws + 1\<rparr>\<rparr>"] exI [of _ "[]"])
        (simp add: same_test_def at_window_def)
  next
    case False
    let ?q = "pm_base_addr (vm_map (vm ?ws) ! 0)"
    obtain pg where pg: "map_window (env_paging env) ?q (paging ?ws) = (True, pg)"
      using run(3,4) by (cases "drop_bit (30 - PAGE_SHIFT) ?q < 2") (simp_all add: map_window_def Let_def)
    let ?w1 = "?ws\<lparr>paging := pg\<rparr>" let ?w2 = "begin_test ?cfg ?w1"
    obtain w where w: "run_tests (recording env) (active_cpus (recording env) st) (test_num st) (test_stage st) (test_iterations st) ?w2
        (?cfg, world st) = (?cfg, w, snd (world st) @ [?w2])"
      using recording_run [OF run(5)] by blast
    let ?st1 = "st\<lparr>settings := ?cfg, world := (w, snd (world st) @ [?w2]), windows := ?w2\<lparr>window_num := window_num ?w2 + 1\<rparr>\<rparr>"
    have step: "window_step (recording env) st = (False, ?st1)"
      using e(6) run(1,2) False pg w unfolding window_step_def Let_def by simp
    have sw: "shows_window (j - 1) pg" by (rule entered_window_shows [OF mr e(2,3,5,7) False pg])
    have "window_bytes ?w2 = ?T"
    proof (cases "j = 0")
      case False
      then have "?w2 = ?w1" using e(1) by (simp add: begin_test_def)
      moreover have "window_bytes ?w1 = ?T"
        using e(2,3,7) False sw by (intro upper_window_bytes [OF run(6)]) (simp_all add: window_ranges_def)
      ultimately show ?thesis by simp
    next
      case True
      note T = True
      have z: "window_page_of 0 = 0" "window_page_of (Suc 0) = 1024" by (simp_all add: window_page_of_def)
      have R1: "window_ranges ?cfg ?segs ?w1 = ?R" by (simp add: window_ranges_def)
      have lo: "unat (pm_limit_lower ?cfg) < 1024"
      proof -
        obtain s t where mem: "(s, t) \<in> set ?R" using False by (metis list.set_intros(1) neq_Nil_conv surj_pair)
        have "max (window_start ?ws) (pm_limit_lower ?cfg) \<le> s" "s < t" "t \<le> min (window_end ?ws) (pm_limit_upper ?cfg)"
          using clip_mem [OF mem [unfolded window_ranges_def]] by blast+
        then have "pm_limit_lower ?cfg < window_end ?ws" by auto
        then show ?thesis using e(3) T z by (simp add: word_less_nat_alt)
      qed
      then have "in_pages ?segs (unat (pm_limit_lower ?cfg))" using assms(1) by (simp add: plain_run_def)
      then show ?thesis
        using e(1-5,7) lo False sw unfolding T z
        by (intro first_window_bytes [OF run(6), of ?w1 ?cfg, unfolded R1]) simp_all
    qed
    moreover have "window_num ?w2 = int j" "window_end ?w2 = window_end ?ws" "length (vm_map (vm ?w2)) = 128"
      using e(1,4) by (simp_all add: begin_test_def Let_def)
    ultimately show ?thesis using step e(3)
      by (intro exI [of _ ?st1] exI [of _ "[?w2]"]) (simp add: same_test_def at_window_def)
  qed
qed

definition ascending_windows :: "window_state list \<Rightarrow> bool" where
  "ascending_windows log \<longleftrightarrow> sorted_wrt (\<lambda>v w. \<forall>a \<in> window_bytes v. \<forall>b \<in> window_bytes w. a < b) log"

lemma bytes_split:
  assumes "m \<le> n" "n \<le> l"
  shows "bytes_to_test cfg segs m n \<union> bytes_to_test cfg segs n l = bytes_to_test cfg segs m l"
  using assms unfolding bytes_to_test_def by (intro set_eqI) (simp only: Un_iff mem_Collect_eq, linarith)

lemma bytes_below_last:
  assumes "map_ok segs" "end_page (last segs) \<le> n" "end_page (last segs) \<le> l"
  shows "bytes_to_test cfg segs m n = bytes_to_test cfg segs m l"
proof -
  have "a div 4096 < n \<and> a div 4096 < l" if "in_pages segs (a div 4096)" for a
    using map_ok_last [OF assms(1) that] assms(2,3) by linarith
  then show ?thesis unfolding bytes_to_test_def by (intro Collect_cong) blast
qed

lemma bytes_apart:
  assumes "a \<in> bytes_to_test cfg segs m n" "b \<in> bytes_to_test cfg segs n l"
  shows "a < b"
proof -
  have "a div 4096 < b div 4096" using assms unfolding bytes_to_test_def mem_Collect_eq by linarith
  then show ?thesis using div_le_mono [of b a 4096] by (meson leD leI)
qed

lemma ascending_append:
  assumes "length log1 \<le> 1" "ascending_windows log2"
    and "(\<Union>ws \<in> set log1. window_bytes ws) = bytes_to_test cfg segs m n" "(\<Union>ws \<in> set log2. window_bytes ws) = bytes_to_test cfg segs n l"
  shows "ascending_windows (log1 @ log2)"
proof (cases log1)
  case (Cons v vs)
  then have log1: "log1 = [v]" using assms(1) by simp
  have "a < b" if "a \<in> window_bytes v" "w \<in> set log2" "b \<in> window_bytes w" for a b w
  proof (rule bytes_apart)
    show "a \<in> bytes_to_test cfg segs m n" using assms(3) that(1) log1 by auto
    show "b \<in> bytes_to_test cfg segs n l" using assms(4) that(2,3) by blast
  qed
  then show ?thesis using assms(2) log1 by (simp add: ascending_windows_def)
qed (use assms(2) in simp)

lemma windows_run:
  assumes "plain_run env st" "at_window k (windows st)" "window_page_of k < 2 ^ 52" "1 \<le> n"
    and "end_page (last (env_pm_map env)) \<le> window_page_of (k + n)"
  shows "\<exists>st1 log. windows_loop n (recording env) st = Some st1 \<and> same_test st st1 \<and> snd (world st1) = snd (world st) @ log \<and>
    (\<Union>ws \<in> set log. window_bytes ws) = bytes_to_test (settings st) (env_pm_map env) (window_page_of (window_taken (settings st) (this_test st) k)) (2 ^ 52) \<and>
    ascending_windows log"
  using assms
proof (induction n arbitrary: st k)
  case 0
  then show ?case by simp
next
  case (Suc n)
  let ?j = "window_taken (settings st) (this_test st) k" and ?L = "end_page (last (env_pm_map env))" and ?segs = "env_pm_map env"
  have ok: "map_ok ?segs" using Suc.prems(1) by (simp add: plain_run_def mapped_run_def)
  then have L: "?L \<le> 2 ^ 52" by (simp add: map_ok_def)
  obtain st1 log where r: "window_step (recording env) st = (False, st1)" "same_test st st1" "at_window (Suc ?j) (windows st1)"
      "snd (world st1) = snd (world st) @ log" "length log \<le> 1"
      "(\<Union>ws \<in> set log. window_bytes ws) = bytes_to_test (settings st) ?segs (window_page_of ?j) (window_page_of (Suc ?j))"
    using window_round [OF Suc.prems(1-3)] by blast
  have kj: "k \<le> ?j" by (simp add: window_taken_def)
  have we: "window_end (windows st1) < pm_end (last ?segs) \<longleftrightarrow> window_page_of (Suc ?j) < ?L"
    using r(3) by (simp add: at_window_def word_less_nat_alt)
  show ?case
  proof (cases "window_page_of (Suc ?j) < ?L")
    case False
    then have "windows_loop (Suc n) (recording env) st = Some st1" using r(1) we by simp
    moreover have "bytes_to_test (settings st) ?segs (window_page_of ?j) (window_page_of (Suc ?j)) =
        bytes_to_test (settings st) ?segs (window_page_of ?j) (2 ^ 52)"
      using False L by (intro bytes_below_last [OF ok]) simp_all
    moreover have "ascending_windows log" using r(5) by (cases log) (simp_all add: ascending_windows_def)
    ultimately show ?thesis using r(2,4,6) by auto
  next
    case True
    have "window_page_of (k + 1) \<le> window_page_of (Suc ?j)" using kj by (intro window_page_mono) simp
    then have n: "1 \<le> n" using Suc.prems(5) True by (cases n) simp_all
    have lim: "?L \<le> window_page_of (Suc ?j + n)"
      using Suc.prems(5) window_page_mono [of "k + Suc n" "Suc ?j + n"] kj by simp
    have p1: "plain_run env st1" using Suc.prems(1) by (simp only: plain_run_same [OF r(2)])
    have taken: "window_taken (settings st1) (this_test st1) (Suc ?j) = Suc ?j" by (simp add: window_taken_def)
    have "window_page_of (Suc ?j) < 2 ^ 52" using True L by linarith
    then obtain st2 log2 where ih: "windows_loop n (recording env) st1 = Some st2" "same_test st1 st2"
        "snd (world st2) = snd (world st1) @ log2" "ascending_windows log2"
        "(\<Union>ws \<in> set log2. window_bytes ws) = bytes_to_test (settings st1) ?segs (window_page_of (Suc ?j)) (2 ^ 52)"
      using Suc.IH [OF p1 r(3) _ n lim] unfolding taken by blast
    have cfg: "settings st1 = settings st" using r(2) by (simp add: same_test_def)
    have "windows_loop (Suc n) (recording env) st = Some st2" using r(1) we True ih(1) by simp
    moreover have "same_test st st2" using r(2) ih(2) by (simp add: same_test_def)
    moreover have "snd (world st2) = snd (world st) @ (log @ log2)" using r(4) ih(3) by simp
    moreover have "(\<Union>ws \<in> set (log @ log2). window_bytes ws) = bytes_to_test (settings st) ?segs (window_page_of ?j) (2 ^ 52)"
    proof -
      have "window_page_of ?j \<le> window_page_of (Suc ?j)" by (intro window_page_mono) simp
      moreover have "window_page_of (Suc ?j) \<le> 2 ^ 52" using True L by linarith
      ultimately show ?thesis using bytes_split r(6) ih(5) unfolding cfg set_append UN_Un by simp
    qed
    moreover have "ascending_windows (log @ log2)"
      using ascending_append [OF r(5) ih(4) r(6)] ih(5) unfolding cfg by blast
    ultimately show ?thesis by blast
  qed
qed

lemma window_fuel_enough: "end_page (last (env_pm_map env)) \<le> window_page_of (0 + window_fuel (recording env))"
proof -
  let ?L = "end_page (last (env_pm_map env))"
  have "?L < 2 ^ 18 + ?L div 2 ^ 18 * 2 ^ 18" by (rule dividend_less_div_times) simp
  then have "?L \<le> (?L div 2 ^ 18 + 2) * 2 ^ 18" unfolding distrib_right by simp
  then show ?thesis by (simp add: window_fuel_def pow2_simps window_page_of_def)
qed

text \<open>
  C11: The windows of a test cover the memory: \<open>test_all_windows\<close> comes to its end, and the bytes that the page tables give
  for the entries of \<open>vm_map\<close> in all of its windows together are those of the pages of the map between the limits, from byte
  0x500 on, for a test of several stages from 4 MB on; each window lies above the one before. This is for a real run
  (\<open>plain_run\<close>) on one memory domain, on a processor with PAE and long mode, in which nobody stops the test, the tests leave the
  settings alone, and the lower limit, if it is below 4 MB, is a page of the map.
\<close>
theorem windows_cover:
  assumes "plain_run env st" "window_num (windows st) = 0" "window_end (windows st) = 0" "length (vm_map (vm (windows st))) = 128"
  shows "\<exists>st1 log. test_all_windows (recording env) st = Some st1 \<and> settings st1 = settings st \<and>
    snd (world st1) = snd (world st) @ log \<and> ascending_windows log \<and>
    (\<Union>ws \<in> set log. window_bytes ws) =
      bytes_to_test (settings st) (env_pm_map env) (if tp_stages (this_test st) > 1 then 1024 else 0) (2 ^ 52)"
proof -
  let ?j = "window_taken (settings st) (this_test st) 0"
  have "at_window 0 (windows st)" using assms(2-4) by (simp add: at_window_def window_page_of_def)
  then obtain st1 log where r: "test_all_windows (recording env) st = Some st1" "same_test st st1"
      "snd (world st1) = snd (world st) @ log" "ascending_windows log"
      "(\<Union>ws \<in> set log. window_bytes ws) = bytes_to_test (settings st) (env_pm_map env) (window_page_of ?j) (2 ^ 52)"
    using windows_run [OF assms(1) _ _ _ window_fuel_enough] unfolding test_all_windows_def
    by (auto simp: window_fuel_def window_page_of_def)
  moreover have "bytes_to_test (settings st) (env_pm_map env) (window_page_of ?j) (2 ^ 52) =
      bytes_to_test (settings st) (env_pm_map env) (if tp_stages (this_test st) > 1 then 1024 else 0) (2 ^ 52)"
  proof (cases "tp_stages (this_test st) > 1 \<or> \<not> pm_limit_lower (settings st) \<ge> LOW_LOAD_LIMIT")
    case True
    then show ?thesis by (auto simp: window_taken_def window_page_of_def)
  next
    case False
    then have "1024 \<le> unat (pm_limit_lower (settings st))" by (simp add: LOW_LOAD_LIMIT_def SIZE_C_def unit_sizes word_le_nat_alt)
    then show ?thesis using False unfolding bytes_to_test_def
      by (intro Collect_cong) (auto simp: window_taken_def window_page_of_def)
  qed
  ultimately show ?thesis by (auto simp: same_test_def)
qed

section \<open>Where the program lies\<close>

lemma find_load_addr_bounds:
  assumes "find_load_addr segs program_size lower_limit upper_limit = Some a"
  shows "lower_limit \<le> a" "a < upper_limit"
  using assms by (induction segs) (auto simp: Let_def split: if_splits)

lemma find_load_addr_usable:
  assumes "find_load_addr segs program_size lower_limit upper_limit = Some a"
  shows "addr_range_is_usable segs a program_size"
  using assms by (induction segs) (auto simp: addr_range_is_usable_def Let_def split: if_splits)

lemma set_load_addr_bounds:
  assumes "set_load_addr segs start program_size lower_limit upper_limit = Some a"
  shows "lower_limit \<le> a" "addr_range_is_usable segs a program_size"
  using assms find_load_addr_bounds(1) find_load_addr_usable by (auto simp: set_load_addr_def split: if_splits)

text \<open>The two places of the program, as \<open>global_init\<close> chooses them, with all of the low one below the limit.\<close>

definition program_placed :: "'w run_env \<Rightarrow> u64 \<Rightarrow> u64 \<Rightarrow> bool" where
  "program_placed env start program_size \<longleftrightarrow>
     set_load_addr (env_pm_map env) start program_size 0x1000 LOW_LOAD_LIMIT = Some (low_load_addr env) \<and>
     set_load_addr (env_pm_map env) start program_size LOW_LOAD_LIMIT HIGH_LOAD_LIMIT = Some (high_load_addr env) \<and>
     unat (low_load_addr env) + unat program_size \<le> unat LOW_LOAD_LIMIT"

definition spares :: "nat \<Rightarrow> window_state \<Rightarrow> bool" where
  "spares n ws \<longleftrightarrow> window_bytes ws \<inter> {unat (location ws)..<unat (location ws) + n} = {}"

lemma low_limit: "unat LOW_LOAD_LIMIT = 1024 * 4096"
  by (simp add: LOW_LOAD_LIMIT_def SIZE_C_def unit_sizes)

lemma low_entry_bytes:
  assumes "vm_end v = word_ptr (last_word_mapping (e - 1) 8)" "0 < unat e" "unat e \<le> 1024"
  shows "entry_bytes pg v \<subseteq> {..<1024 * 4096}"
proof
  fix a
  assume "a \<in> entry_bytes pg v"
  then obtain p b where p: "a = phys_addr pg (unat (byte_addr p) + b)" "p \<le> vm_end v" "b < 8"
    unfolding entry_bytes_def by blast
  have e: "unat (e - 1) = unat e - 1" using assms(2) by (intro unat_pred)
  then have "unat (first_word_mapping (e - 1)) = (unat e - 1) * 4096" using first_page_words [of "e - 1"] assms(2,3) by simp
  moreover have "(unat e - 1) * 4096 \<le> 1023 * 4096" using assms(3) by simp
  ultimately have "unat (last_word_mapping (e - 1) 8) = (unat e - 1) * 4096 + 4088"
    by (simp add: last_word_mapping_def unat_word_ariths)
  then have "unat (vm_end v) \<le> 1024 * 4096 div 8 - 1" using assms(1,3) by (simp add: unat_word_ptr)
  then have "unat (byte_addr p) + b < 1024 * 4096" using p(2,3) by (simp add: unat_byte_addr word_le_nat_alt)
  moreover from this have "phys_addr pg (unat (byte_addr p) + b) = unat (byte_addr p) + b" by (simp add: phys_addr_def)
  ultimately show "a \<in> {..<1024 * 4096}" using p(1) by simp
qed

lemma low_window_bytes:
  assumes "\<forall>x \<in> set R. fst x < snd x \<and> unat (snd x) \<le> 1024" "list_all2 (case_prod page_entry) R (take (vm_map_size (vm ws)) (vm_map (vm ws)))"
  shows "window_bytes (begin_test cfg ws) \<subseteq> {..<1024 * 4096}"
proof -
  have low: "entry_bytes pg v \<subseteq> {..<1024 * 4096}"
    if v: "v \<in> set (take (vm_map_size (vm (begin_test cfg ws))) (vm_map (vm (begin_test cfg ws))))" for pg v
  proof -
    let ?es = "take (vm_map_size (vm ws)) (vm_map (vm ws))"
    let ?es1 = "take (vm_map_size (vm (begin_test cfg ws))) (vm_map (vm (begin_test cfg ws)))"
    have "map vm_end ?es1 = map vm_end ?es"
    proof (cases "vm_map (vm ws)")
      case (Cons x xs)
      then show ?thesis by (cases "vm_map_size (vm ws)") (simp_all add: begin_test_def Let_def)
    qed (simp add: begin_test_def Let_def)
    then have "vm_end v \<in> vm_end ` set ?es" using v by (metis image_eqI list.set_map)
    then obtain u where u: "u \<in> set ?es" "vm_end u = vm_end v" by force
    then obtain i where i: "i < length ?es" "?es ! i = u" by (metis in_set_conv_nth)
    have len: "length R = length ?es" using assms(2) by (rule list_all2_lengthD)
    obtain s e where se: "R ! i = (s, e)" by (cases "R ! i")
    have "page_entry s e u" using list_all2_nthD [OF assms(2), of i] i len se by simp
    moreover have "s < e" "unat e \<le> 1024" using assms(1) i(1) len se nth_mem [of i R] by fastforce+
    ultimately show ?thesis using u(2) by (intro low_entry_bytes [of v e]) (simp_all add: page_entry_def word_less_nat_alt)
  qed
  then show ?thesis unfolding window_bytes_def by (intro UN_least) simp
qed

definition keeps_numa :: "'w run_env \<Rightarrow> bool" where
  "keeps_numa env \<longleftrightarrow>
     (\<forall>cpus t stage n ws x. config.enable_numa (fst (run_tests env cpus t stage n ws x)) = config.enable_numa (fst x))"

lemma recording_run_any:
  assumes "keeps_numa env"
  shows "\<exists>cfg1 w1. run_tests (recording env) cpus t stage n ws (cfg, w) = (cfg1, w1, snd w @ [ws]) \<and>
    config.enable_numa cfg1 = config.enable_numa cfg"
proof -
  obtain w0 log where w: "w = (w0, log)" by (cases w)
  obtain cfg1 w1 where r: "run_tests env cpus t stage n ws (cfg, w0) = (cfg1, w1)" by fastforce
  have "config.enable_numa cfg1 = config.enable_numa cfg" using assms r unfolding keeps_numa_def by (metis fst_conv)
  then show ?thesis using r by (simp add: recording_def w)
qed

lemma window_spares:
  assumes "mapped_run env st" "at_window k (windows st)" "window_page_of k < 2 ^ 52" "program_placed env start program_size"
  defines "j \<equiv> window_taken (settings st) (this_test st) k" and "ws \<equiv> enter_window (recording env) st"
  assumes "num_mapped_pages (vm ws) \<noteq> 0" "map_window (env_paging env) (pm_base_addr (vm_map (vm ws) ! 0)) (paging ws) = (True, pg)"
  shows "spares (unat program_size) (begin_test (settings st) (ws\<lparr>paging := pg\<rparr>))"
proof -
  let ?segs = "env_pm_map env" and ?cfg = "settings st" and ?w1 = "ws\<lparr>paging := pg\<rparr>"
  let ?R = "window_ranges ?cfg ?segs ws"
  note e = enter_window_parts [OF assms(1-3), folded ws_def j_def]
  have R: "?R \<noteq> []" using assms(7) e(6) by simp
  have ok: "map_ok ?segs" using assms(1) by (simp add: mapped_run_def)
  have loc: "location ?w1 = (if 0 < j then low_load_addr env else high_load_addr env)"
    using assms(1) first_window_taken [of ?cfg "this_test st" k] assms(2)
    by (simp add: ws_def enter_window_def Let_def next_window_def relocate_def mapped_run_def j_def at_window_def)
  show ?thesis
  proof (cases "j = 0")
    case False
    have sw: "shows_window (j - 1) pg" by (rule entered_window_shows [OF assms(1) e(2,3,5,7) R assms(8)])
    have b: "begin_test ?cfg ?w1 = ?w1" using e(1) False by (simp add: begin_test_def)
    have "window_bytes ?w1 = bytes_to_test ?cfg ?segs (window_page_of j) (window_page_of (Suc j))"
      using e(2,3,7) False sw by (intro upper_window_bytes [OF ok]) (simp_all add: window_ranges_def)
    moreover have "1024 \<le> window_page_of j" using False by (auto simp: window_page_of_def)
    ultimately have "1024 * 4096 \<le> a" if "a \<in> window_bytes ?w1" for a
      using that by (auto simp: bytes_to_test_def less_eq_div_iff_mult_less_eq)
    moreover have "unat (low_load_addr env) + unat program_size \<le> 1024 * 4096"
      using assms(4) unfolding program_placed_def low_limit by blast
    ultimately show ?thesis unfolding spares_def b loc using False by fastforce
  next
    case True
    have "fst x < snd x \<and> unat (snd x) \<le> 1024" if "x \<in> set ?R" for x
    proof -
      obtain s t where x: "x = (s, t)" by (cases x)
      have c: "s < t" "t \<le> window_end ws" using clip_mem [OF that [unfolded window_ranges_def x]] by auto
      then show ?thesis using e(3) True x by (simp add: word_le_nat_alt window_page_of_def)
    qed
    then have "window_bytes (begin_test ?cfg ?w1) \<subseteq> {..<1024 * 4096}"
      using e(7) by (intro low_window_bytes [of ?R]) simp_all
    moreover have "LOW_LOAD_LIMIT \<le> high_load_addr env"
      using set_load_addr_bounds(1) assms(4) unfolding program_placed_def by blast
    then have "1024 * 4096 \<le> unat (high_load_addr env)" by (simp add: word_le_nat_alt low_limit)
    moreover have "location (begin_test ?cfg ?w1) = high_load_addr env" using loc True by (simp add: begin_test_def Let_def)
    ultimately show ?thesis unfolding spares_def by fastforce
  qed
qed

lemma round_spares:
  assumes "mapped_run env st" "at_window k (windows st)" "window_page_of k < 2 ^ 52" "program_placed env start program_size" "keeps_numa env"
  defines "j \<equiv> window_taken (settings st) (this_test st) k"
  shows "\<exists>leave st1 log. window_step (recording env) st = (leave, st1) \<and> mapped_run env st1 \<and>
    (\<not> leave \<longrightarrow> at_window (Suc j) (windows st1)) \<and> snd (world st1) = snd (world st) @ log \<and> (\<forall>w \<in> set log. spares (unat program_size) w)"
proof -
  let ?ws = "enter_window (recording env) st" and ?cfg = "settings st"
  note e = enter_window_parts [OF assms(1-3), folded j_def]
  show ?thesis
  proof (cases "bail ?cfg")
    case True
    then have "window_step (recording env) st = (True, st)" by (simp add: window_step_def)
    then show ?thesis using assms(1) by (intro exI [of _ True] exI [of _ st] exI [of _ "[]"]) simp
  next
    case False
    show ?thesis
    proof (cases "num_mapped_pages (vm ?ws) = 0")
      case True
      then have "window_step (recording env) st = (False, st\<lparr>windows := ?ws\<lparr>window_num := window_num ?ws + 1\<rparr>\<rparr>)"
        using False unfolding window_step_def Let_def by simp
      then show ?thesis using e(1,3,4) assms(1) by (intro exI [of _ False]) (simp add: at_window_def mapped_run_def)
    next
      case pages: False
      obtain ok pg where pg: "map_window (env_paging env) (pm_base_addr (vm_map (vm ?ws) ! 0)) (paging ?ws) = (ok, pg)" by fastforce
      let ?w1 = "?ws\<lparr>paging := pg\<rparr>" let ?w2 = "begin_test ?cfg ?w1"
      show ?thesis
      proof (cases ok)
        case False
        then have "window_step (recording env) st = (True, st\<lparr>windows := ?w1\<rparr>)"
          using \<open>\<not> bail ?cfg\<close> pages pg assms(1) unfolding window_step_def Let_def mapped_run_def by simp
        then show ?thesis using assms(1) by (intro exI [of _ True]) (simp add: mapped_run_def)
      next
        case True
        obtain cfg1 w where w: "run_tests (recording env) (active_cpus (recording env) st) (test_num st) (test_stage st)
            (test_iterations st) ?w2 (?cfg, world st) = (cfg1, w, snd (world st) @ [?w2])"
            "config.enable_numa cfg1 = config.enable_numa ?cfg"
          using recording_run_any [OF assms(5)] by blast
        let ?st1 = "st\<lparr>settings := cfg1, world := (w, snd (world st) @ [?w2]), windows := ?w2\<lparr>window_num := window_num ?w2 + 1\<rparr>\<rparr>"
        have "window_step (recording env) st = (False, ?st1)"
          using \<open>\<not> bail ?cfg\<close> pages pg w(1) True assms(1) unfolding window_step_def Let_def mapped_run_def by simp
        moreover have "spares (unat program_size) ?w2"
          using window_spares [OF assms(1-4) pages] pg True by simp
        moreover have "window_num ?w2 = int j" "window_end ?w2 = window_end ?ws" "length (vm_map (vm ?w2)) = 128"
          using e(1,4) by (simp_all add: begin_test_def Let_def)
        ultimately show ?thesis using assms(1) w(2) e(3) by (intro exI [of _ False]) (simp add: mapped_run_def at_window_def)
      qed
    qed
  qed
qed

lemma windows_spare:
  assumes "mapped_run env st" "at_window k (windows st)" "window_page_of k < 2 ^ 52" "program_placed env start program_size" "keeps_numa env"
    and "1 \<le> n" "end_page (last (env_pm_map env)) \<le> window_page_of (k + n)"
  shows "\<exists>st1 log. windows_loop n (recording env) st = Some st1 \<and> snd (world st1) = snd (world st) @ log \<and>
    (\<forall>w \<in> set log. spares (unat program_size) w)"
  using assms
proof (induction n arbitrary: st k)
  case 0
  then show ?case by simp
next
  case (Suc n)
  let ?j = "window_taken (settings st) (this_test st) k" and ?L = "end_page (last (env_pm_map env))"
  have L: "?L \<le> 2 ^ 52" using Suc.prems(1) by (simp add: mapped_run_def map_ok_def)
  obtain leave st1 log where r: "window_step (recording env) st = (leave, st1)" "mapped_run env st1"
      "\<not> leave \<Longrightarrow> at_window (Suc ?j) (windows st1)" "snd (world st1) = snd (world st) @ log" "\<forall>w \<in> set log. spares (unat program_size) w"
    using round_spares [OF Suc.prems(1-5)] by blast
  have kj: "k \<le> ?j" by (simp add: window_taken_def)
  show ?case
  proof (cases "leave \<or> \<not> window_end (windows st1) < pm_end (last (env_pm_map env))")
    case True
    then show ?thesis using r(1,4,5) by auto
  next
    case False
    then have at: "at_window (Suc ?j) (windows st1)" and lt: "window_page_of (Suc ?j) < ?L"
      using r(3) by (simp_all add: at_window_def word_less_nat_alt)
    have "window_page_of (k + 1) \<le> window_page_of (Suc ?j)" using kj by (intro window_page_mono) simp
    then have n: "1 \<le> n" using Suc.prems(7) lt by (cases n) simp_all
    have lim: "?L \<le> window_page_of (Suc ?j + n)"
      using Suc.prems(7) window_page_mono [of "k + Suc n" "Suc ?j + n"] kj by simp
    have "window_page_of (Suc ?j) < 2 ^ 52" using lt L by linarith
    then obtain st2 log2 where ih: "windows_loop n (recording env) st1 = Some st2" "snd (world st2) = snd (world st1) @ log2"
        "\<forall>w \<in> set log2. spares (unat program_size) w"
      using Suc.IH [OF r(2) at _ Suc.prems(4,5) n lim] by blast
    have "windows_loop (Suc n) (recording env) st = Some st2" using r(1) False ih(1) by simp
    then show ?thesis using r(4,5) ih(2,3) by (intro exI [of _ st2] exI [of _ "log @ log2"]) auto
  qed
qed

text \<open>
  C12: The tests spare the program, where both of its places fit: at the addresses that \<open>set_load_addr\<close> chooses, provided that
  the low copy also ends at or below \<open>LOW_LOAD_LIMIT\<close> (which \<open>set_load_addr\<close> does not see to: it compares where the copy
  begins), on one memory domain and a processor with PAE. Then, whatever the tests do to the settings (they must not switch
  NUMA on), the run of a test over its windows comes to its end, and no window that is given to the tests holds a byte of the
  copy of the program that runs at that time.
\<close>
theorem tests_spare_program:
  assumes "mapped_run env st" "program_placed env start program_size" "keeps_numa env"
    and "window_num (windows st) = 0" "window_end (windows st) = 0" "length (vm_map (vm (windows st))) = 128"
  shows "\<exists>st1 log. test_all_windows (recording env) st = Some st1 \<and> snd (world st1) = snd (world st) @ log \<and>
    (\<forall>ws \<in> set log. window_bytes ws \<inter> {unat (location ws)..<unat (location ws) + unat program_size} = {})"
proof -
  have "at_window 0 (windows st)" using assms(4-6) by (simp add: at_window_def window_page_of_def)
  then show ?thesis
    using windows_spare [OF assms(1) _ _ assms(2,3) _ window_fuel_enough]
    unfolding test_all_windows_def spares_def by (simp add: window_fuel_def window_page_of_def)
qed

text \<open>
  The machine of the witnesses has memory up to the hole at 640 KB and from 1 MB to 5 GB; the tests do nothing, and the
  program of 512 KB was loaded at 1 MB.
\<close>

definition example_run_env :: "unit run_env" where
  "example_run_env =
     \<lparr>env_pm_map = [\<lparr>pm_start = 0, pm_end = 0x9F\<rparr>, \<lparr>pm_start = 0x100, pm_end = 0x140000\<rparr>], env_affinity = [],
      env_paging = \<lparr>has_lm = True, has_pae = True\<rparr>, low_load_addr = 0x100000, high_load_addr = 0x400000, num_available_cpus = 1,
      run_tests = (\<lambda>cpus t stage n ws x. x), count_ticks = (\<lambda>t stage n ws x. 0)\<rparr>"

definition no_entry :: vm_map_t where
  "no_entry = \<lparr>pm_base_addr = 0, vm_map_t.vm_start = 0, vm_end = 0, proximity_domain_idx = 0\<rparr>"

definition example_run_state :: "'w \<Rightarrow> 'w run_state" where
  "example_run_state w =
     \<lparr>settings = default_config\<lparr>pm_limit_upper := 0x140000\<rparr>, world = w,
      windows = \<lparr>window_num = 0, window_start = 0, window_end = 0, location = 0x100000,
        vm = \<lparr>vm_map = replicate 128 no_entry, vm_map_size = 0, num_mapped_pages = 0\<rparr>, paging = Vmem.vm_start\<rparr>,
      start_run = False, start_test = False, rerun_test = False, dummy_run = False, test_num_index = 3, test_num = 3, test_stage = 0,
      master_cpu = 0, testpass = 0, ticks_per_test = (\<lambda>_ _. 0), ticks_per_pass = (\<lambda>_. 0)\<rparr>"

lemma example_run_plain: "plain_run example_run_env (example_run_state w)"
  by (simp add: plain_run_def mapped_run_def example_run_state_def example_run_env_def default_config_def quiet_tests_def map_ok_def in_pages_def)

theorem windows_cover_witness:
  "\<exists>st1. test_all_windows (recording example_run_env) (example_run_state ((), [])) = Some st1 \<and>
    (\<Union>ws \<in> set (snd (world st1)). window_bytes ws) = {0x500..<0x9F000} \<union> {0x100000..<0x140000000}"
proof -
  let ?st = "example_run_state ((), [])" and ?segs = "env_pm_map example_run_env"
  have start: "window_num (windows ?st) = 0" "window_end (windows ?st) = 0" "length (vm_map (vm (windows ?st))) = 128"
      "snd (world ?st) = []" "\<not> tp_stages (this_test ?st) > 1"
    by (simp_all add: example_run_state_def this_test_def test_list_def)
  have "bytes_to_test (settings ?st) ?segs 0 (2 ^ 52) = {0x500..<0x9F000} \<union> {0x100000..<0x140000000}"
    unfolding bytes_to_test_def example_run_state_def example_run_env_def in_pages_def default_config_def
    by (auto simp: div_less_iff_less_mult less_eq_div_iff_mult_less_eq)
  then show ?thesis using windows_cover [OF example_run_plain start(1-3)] unfolding if_not_P [OF start(5)] start(4) append_Nil by metis
qed

theorem tests_spare_program_witness:
  "\<exists>st1. test_all_windows (recording example_run_env) (example_run_state ((), [])) = Some st1 \<and>
    (\<forall>ws \<in> set (snd (world st1)). window_bytes ws \<inter> {unat (location ws)..<unat (location ws) + 0x80000} = {})"
proof -
  let ?st = "example_run_state ((), [])"
  have start: "window_num (windows ?st) = 0" "window_end (windows ?st) = 0" "length (vm_map (vm (windows ?st))) = 128"
      "snd (world ?st) = []"
    by (simp_all add: example_run_state_def)
  have m: "mapped_run example_run_env ?st" by (rule conjunct1 [OF example_run_plain [unfolded plain_run_def]])
  have placed: "program_placed example_run_env 0x100000 0x80000"
    by (simp add: program_placed_def example_run_env_def set_load_addr_def addr_range_is_usable_def LOW_LOAD_LIMIT_def
        HIGH_LOAD_LIMIT_def SIZE_C_def unit_sizes Let_def pow2_simps)
  have keeps: "keeps_numa example_run_env" by (simp add: keeps_numa_def example_run_env_def)
  have "unat (0x80000 :: u64) = 0x80000" by simp
  then show ?thesis using tests_spare_program [OF m placed keeps start(1-3)] unfolding start(4) append_Nil by metis
qed

end
