(* ===== verification/Run_Schedule.thy ===== *)
theory Run_Schedule
  imports Run_Windows_Spec
begin

text \<open>
  The order in which the main loop runs the tests of a pass, and that every run of a test over its windows ends, whatever the
  tests do.
\<close>

section \<open>Every run of a test over its windows ends\<close>







section \<open>The order of the tests\<close>











































end
