(* ===== verification/Error_Log.thy ===== *)
theory Error_Log
  imports Badram Config_Options Vmem
begin

text \<open>
  The record of errors of \<open>app/error.c\<close>: what a report of a test does to the statistics, the counts, the BadRAM record and the
  verdict of the run, and which parts of the display it rewrites. A report runs under the lock \<open>error_mutex\<close>, so it is one
  step. The texts of the display, the serial log and the polling of the keyboard while a line is shown are left out.
\<close>

section \<open>The statistics\<close>

definition ERROR_LIMIT :: u64 where "ERROR_LIMIT = 999999999999"
definition INT_MAX :: int where "INT_MAX = 2147483647"
definition CECC_LIMIT :: u64 where "CECC_LIMIT = 999999"

datatype error_type_t = ADDR_ERROR | DATA_ERROR | PARITY_ERROR | UECC_ERROR | CECC_ERROR | NEW_MODE

record page_offs_t =
  po_page :: u64
  po_offset :: u64

record error_info_t =
  min_addr :: page_offs_t
  max_addr :: page_offs_t
  bad_bits :: u64
  min_bits :: int
  max_bits :: int
  total_bits :: u64
  run_length :: u64
  max_run :: u64
  last_addr :: u64
  last_xor :: u64

definition update_min :: "u64 \<Rightarrow> u64 \<Rightarrow> page_offs_t \<Rightarrow> bool \<times> page_offs_t" where
  "update_min page offset m =
     (if po_page m > page then (True, \<lparr>po_page = page, po_offset = offset\<rparr>)
      else if po_page m = page \<and> po_offset m > offset then (True, m\<lparr>po_offset := offset\<rparr>)
      else (False, m))"

definition update_max :: "u64 \<Rightarrow> u64 \<Rightarrow> page_offs_t \<Rightarrow> bool \<times> page_offs_t" where
  "update_max page offset m =
     (if po_page m < page then (True, \<lparr>po_page = page, po_offset = offset\<rparr>)
      else if po_page m = page \<and> po_offset m < offset then (True, m\<lparr>po_offset := offset\<rparr>)
      else (False, m))"

definition bits_in_error :: "u64 \<Rightarrow> int" where
  "bits_in_error x = fold (\<lambda>i bits. if drop_bit i x AND 1 \<noteq> 0 then bits + 1 else bits) [0..<64] 0"

definition SIZEOF_TESTWORD :: u64 where "SIZEOF_TESTWORD = 8"

text \<open>The length of the run of neighbouring addresses that the new one extends.\<close>

definition next_run :: "u64 \<Rightarrow> error_info_t \<Rightarrow> u64" where
  "next_run addr info =
     (if max_run info > 0
      then if addr = last_addr info + SIZEOF_TESTWORD \<or> addr = last_addr info - SIZEOF_TESTWORD then run_length info + 1 else 1
      else 1)"

definition update_error_info :: "u64 \<Rightarrow> u64 \<Rightarrow> u64 \<Rightarrow> u64 \<Rightarrow> u64 \<Rightarrow> error_info_t \<Rightarrow> bool \<times> error_info_t" where
  "update_error_info error_count page offset addr diff info =
     (let (lower, mn) = update_min page offset (min_addr info); (higher, mx) = update_max page offset (max_addr info);
          bits = bits_in_error diff;
          total = (if bits > 0 \<and> error_count < ERROR_LIMIT then total_bits info + of_int bits else total_bits info);
          more = bits > max_bits info; fewer = bits < min_bits info; run = next_run addr info
      in (lower \<or> higher \<or> more \<or> fewer \<or> bad_bits info XOR diff \<noteq> 0 \<or> run > max_run info,
          info\<lparr>min_addr := mn, max_addr := mx, total_bits := total, max_bits := (if more then bits else max_bits info),
               min_bits := (if fewer then bits else min_bits info), bad_bits := bad_bits info OR diff,
               run_length := run, max_run := (if run > max_run info then run else max_run info)\<rparr>))"

section \<open>Reports\<close>

record error_state =
  error_info :: error_info_t
  error_count :: u64
  error_count_cecc :: u64
  last_error_mode :: error_mode_t
  test_errors :: "int list"
  badram :: badram_state
  testpass :: int

text \<open>
  What a report sees: the settings, the test that runs, whether the processor is the master, the page tables, and the
  status that the memory controller gives for a corrected error.
\<close>

record report_env =
  err_cfg :: config
  err_test :: nat
  is_master :: bool
  err_paging :: vmem_state
  ecc_count :: u64
  ecc_addr :: u64

text \<open>
  What a report puts on the display: the headings, the summary (with the average number of bits), a line for the
  address, and the patterns of the BadRAM record.
\<close>

record shown =
  heading :: bool
  summary :: "u64 option"
  line :: bool
  pattern_list :: bool

definition nothing_shown :: shown where
  "nothing_shown = \<lparr>heading = False, summary = None, line = False, pattern_list = False\<rparr>"

definition count_error :: "error_type_t \<Rightarrow> report_env \<Rightarrow> error_state \<Rightarrow> error_state" where
  "count_error type env s =
     (if type = NEW_MODE then s
      else if type = CECC_ERROR
      then (if error_count_cecc s + ecc_count env < CECC_LIMIT then s\<lparr>error_count_cecc := error_count_cecc s + ecc_count env\<rparr> else s)
      else let n = test_errors s ! err_test env
           in s\<lparr>error_count := (if error_count s < ERROR_LIMIT then error_count s + 1 else error_count s),
                test_errors := (if n < INT_MAX then (test_errors s)[err_test env := n + 1] else test_errors s)\<rparr>)"

text \<open>The display of the report; \<open>avg\<close> divides by the number of errors.\<close>

definition show_report :: "error_mode_t \<Rightarrow> error_type_t \<Rightarrow> bool \<Rightarrow> bool \<Rightarrow> bool \<Rightarrow> u64 \<Rightarrow> u64 \<Rightarrow> error_state \<Rightarrow> shown" where
  "show_report mode type new_header new_stats new_badram addr diff s =
     (if mode = ERROR_MODE_SUMMARY
      then if type = PARITY_ERROR then nothing_shown
           else nothing_shown\<lparr>heading := new_header,
             summary := (if new_stats then Some (total_bits (error_info s) div error_count s) else None)\<rparr>
      else if mode = ERROR_MODE_ADDRESS
      then if \<not> new_header \<and> addr = last_addr (error_info s) \<and> diff = last_xor (error_info s) then nothing_shown
           else nothing_shown\<lparr>heading := new_header, line := type \<noteq> NEW_MODE\<rparr>
      else if mode = ERROR_MODE_BADRAM \<or> mode = ERROR_MODE_MEMMAP \<or> mode = ERROR_MODE_PAGES
      then nothing_shown\<lparr>pattern_list := new_badram\<rparr>
      else nothing_shown)"

text \<open>What happens under the lock: the display that follows from it, and the new record.\<close>

definition record_err :: "report_env \<Rightarrow> error_type_t \<Rightarrow> u64 \<Rightarrow> u64 \<Rightarrow> u64 \<Rightarrow> bool \<Rightarrow> error_state \<Rightarrow> shown \<times> error_state" where
  "record_err env type addr good bad use_for_badram s =
     (let mode = error_mode (err_cfg env);
          new_header = error_count s = 0 \<and> error_count_cecc s = 0 \<or> mode \<noteq> last_error_mode s;
          s1 = s\<lparr>badram := (if new_header then badram_init (badram s) else badram s), last_error_mode := mode\<rparr>;
          diff = good XOR bad; page = page_of (err_paging env) addr; offset = addr AND (PAGE_SIZE - 1);
          (new_stats, info) =
            (if type = ADDR_ERROR then update_error_info (error_count s1) page offset addr 0 (error_info s1)
             else if type = DATA_ERROR then update_error_info (error_count s1) page offset addr diff (error_info s1)
             else (type = NEW_MODE \<and> error_count s1 > 0, error_info s1));
          (new_badram, br) =
            (if mode \<ge> ERROR_MODE_BADRAM \<and> use_for_badram then badram_insert mode page offset (badram s1) else (False, badram s1));
          s2 = count_error type env (s1\<lparr>error_info := info, badram := br\<rparr>)
      in (show_report mode type new_header new_stats new_badram addr diff s2,
          if type \<noteq> PARITY_ERROR \<and> type \<noteq> CECC_ERROR
          then s2\<lparr>error_info := (error_info s2)\<lparr>last_addr := addr, last_xor := diff\<rparr>\<rparr> else s2))"

text \<open>
  The whole report. The first component tells whether the program stays in the loop that shows the failure, with the state as
  it is then.
\<close>

definition common_err ::
  "report_env \<Rightarrow> error_type_t \<Rightarrow> u64 \<Rightarrow> u64 \<Rightarrow> u64 \<Rightarrow> bool \<Rightarrow> error_state \<Rightarrow> bool \<times> shown \<times> error_state" where
  "common_err env type addr good bad use_for_badram s =
     (if testpass s = 2 \<and> \<not> continue_on_error (err_cfg env) then (False, nothing_shown, s)
      else let (out, s1) = record_err env type addr good bad use_for_badram s
           in if \<not> continue_on_error (err_cfg env) \<and> error_count s1 > 0 \<and> is_master env
              then (True, out, s1\<lparr>testpass := 2\<rparr>) else (False, out, s1))"

definition error_init :: "error_state \<Rightarrow> error_state" where
  "error_init s =
     s\<lparr>error_info := \<lparr>min_addr = \<lparr>po_page = - 1, po_offset = PAGE_SIZE - 1\<rparr>, max_addr = \<lparr>po_page = 0, po_offset = 0\<rparr>,
         bad_bits = 0, min_bits = 255, max_bits = 0, total_bits = 0, run_length = 0, max_run = 0, last_addr = 0, last_xor = 0\<rparr>,
       error_count := 0\<rparr>"

definition addr_error :: "report_env \<Rightarrow> u64 \<Rightarrow> u64 \<Rightarrow> u64 \<Rightarrow> error_state \<Rightarrow> bool \<times> shown \<times> error_state" where
  "addr_error env addr1 good bad s = common_err env ADDR_ERROR addr1 good bad False s"

definition data_error :: "report_env \<Rightarrow> u64 \<Rightarrow> u64 \<Rightarrow> u64 \<Rightarrow> bool \<Rightarrow> error_state \<Rightarrow> bool \<times> shown \<times> error_state" where
  "data_error env addr good bad use_for_badram s =
     (if addr = 0x4e0 \<or> addr = 0x410 then (False, nothing_shown, s) else common_err env DATA_ERROR addr good bad use_for_badram s)"

text \<open>\<open>error_update\<close>: a changed mode is a report of its own; then the run fails if there is an error.\<close>

definition error_update :: "report_env \<Rightarrow> error_state \<Rightarrow> bool \<times> error_state" where
  "error_update env s =
     (if error_count s > 0 \<or> error_count_cecc s > 0
      then let cfg = err_cfg env;
               (stop, s1) = (if error_mode cfg \<noteq> last_error_mode s
                             then let (b, _, s') = common_err env NEW_MODE 0 0 0 False s in (b, s') else (False, s))
           in if stop then (True, s1)
              else if error_count s1 > 0 \<and> testpass s1 \<noteq> 2 then (\<not> continue_on_error cfg, s1\<lparr>testpass := 2\<rparr>)
              else (False, s1)
      else (False, s))"

definition ecc_error :: "report_env \<Rightarrow> error_state \<Rightarrow> bool \<times> error_state" where
  "ecc_error env s =
     (let (stop, _, s1) = common_err env CECC_ERROR (ecc_addr env) 0 0 False s in if stop then (True, s1) else error_update env s1)"

end
