(* ===== verification/Error_Log_Spec.thy ===== *)
theory Error_Log_Spec
  imports Error_Log Badram_Spec Config_Spec
begin

text \<open>
  What the record of errors holds after any run of reports, and that by default the first error ends the run.
\<close>

section \<open>A run with reports\<close>

text \<open>The reports of the tests, each with what the processor that makes it sees.\<close>

datatype report = Addr report_env u64 u64 u64 | Data report_env u64 u64 u64 bool

primrec make_report :: "report \<Rightarrow> error_state \<Rightarrow> bool \<times> shown \<times> error_state" where
  "make_report (Addr env a good bad) s = addr_error env a good bad s"
| "make_report (Data env a good bad b) s = data_error env a good bad b s"

definition run_reports :: "report list \<Rightarrow> error_state \<Rightarrow> error_state" where
  "run_reports rs s = fold (\<lambda>r s. snd (snd (make_report r s))) rs s"

primrec report_sees :: "report \<Rightarrow> report_env" where
  "report_sees (Addr env a good bad) = env"
| "report_sees (Data env a good bad b) = env"

primrec report_addr :: "report \<Rightarrow> u64" where
  "report_addr (Addr env a good bad) = a"
| "report_addr (Data env a good bad b) = a"

primrec report_diff :: "report \<Rightarrow> u64" where
  "report_diff (Addr env a good bad) = 0"
| "report_diff (Data env a good bad b) = good XOR bad"

primrec for_badram :: "report \<Rightarrow> bool" where
  "for_badram (Addr env a good bad) = False"
| "for_badram (Data env a good bad b) = b"

text \<open>Two addresses that the BIOS uses are ignored.\<close>

primrec counts :: "report \<Rightarrow> bool" where
  "counts (Addr env a good bad) = True"
| "counts (Data env a good bad b) = (a \<noteq> 0x4e0 \<and> a \<noteq> 0x410)"

definition report_page :: "report \<Rightarrow> u64" where
  "report_page r = page_of (err_paging (report_sees r)) (report_addr r)"

definition report_offset :: "report \<Rightarrow> u64" where
  "report_offset r = report_addr r AND (PAGE_SIZE - 1)"

text \<open>The byte that a page and an offset name.\<close>

definition byte_of :: "u64 \<Rightarrow> u64 \<Rightarrow> nat" where
  "byte_of page offset = unat page * 4096 + unat offset"

abbreviation report_byte :: "report \<Rightarrow> nat" where
  "report_byte r \<equiv> byte_of (report_page r) (report_offset r)"

abbreviation addr_byte :: "page_offs_t \<Rightarrow> nat" where
  "addr_byte p \<equiv> byte_of (po_page p) (po_offset p)"

lemma offset_less: "unat (report_offset r) < 4096"
proof -
  have "report_offset r = take_bit 12 (report_addr r)" by (simp add: report_offset_def take_bit_eq_mask mask_eq_exp_minus_1)
  then show ?thesis by (simp add: take_bit_eq_mod unat_mod)
qed

lemma update_min_byte:
  assumes "unat offset < 4096" "unat (po_offset m) < 4096"
  shows "addr_byte (snd (update_min page offset m)) = min (addr_byte m) (byte_of page offset)"
    "unat (po_offset (snd (update_min page offset m))) < 4096"
proof -
  consider "page < po_page m" | "po_page m = page" | "po_page m < page" by fastforce
  then show "addr_byte (snd (update_min page offset m)) = min (addr_byte m) (byte_of page offset)"
  proof cases
    case 1
    then have "unat page + 1 \<le> unat (po_page m)" by (simp add: word_less_nat_alt)
    then have "(unat page + 1) * 4096 \<le> unat (po_page m) * 4096" by (rule mult_le_mono1)
    then show ?thesis using 1 assms by (simp add: update_min_def byte_of_def)
  next
    case 2
    then show ?thesis by (auto simp: update_min_def byte_of_def word_less_nat_alt min_def)
  next
    case 3
    then have "unat (po_page m) + 1 \<le> unat page" by (simp add: word_less_nat_alt)
    then have "(unat (po_page m) + 1) * 4096 \<le> unat page * 4096" by (rule mult_le_mono1)
    then show ?thesis using 3 assms by (auto simp: update_min_def byte_of_def)
  qed
  show "unat (po_offset (snd (update_min page offset m))) < 4096" using assms by (simp add: update_min_def)
qed

lemma update_max_byte:
  assumes "unat offset < 4096" "unat (po_offset m) < 4096"
  shows "addr_byte (snd (update_max page offset m)) = max (addr_byte m) (byte_of page offset)"
    "unat (po_offset (snd (update_max page offset m))) < 4096"
proof -
  consider "page < po_page m" | "po_page m = page" | "po_page m < page" by fastforce
  then show "addr_byte (snd (update_max page offset m)) = max (addr_byte m) (byte_of page offset)"
  proof cases
    case 1
    then have "unat page + 1 \<le> unat (po_page m)" by (simp add: word_less_nat_alt)
    then have "(unat page + 1) * 4096 \<le> unat (po_page m) * 4096" by (rule mult_le_mono1)
    then show ?thesis using 1 assms by (auto simp: update_max_def byte_of_def)
  next
    case 2
    then show ?thesis by (auto simp: update_max_def byte_of_def word_less_nat_alt max_def)
  next
    case 3
    then have "unat (po_page m) + 1 \<le> unat page" by (simp add: word_less_nat_alt)
    then have "(unat (po_page m) + 1) * 4096 \<le> unat page * 4096" by (rule mult_le_mono1)
    then show ?thesis using 3 assms by (simp add: update_max_def byte_of_def)
  qed
  show "unat (po_offset (snd (update_max page offset m))) < 4096" using assms by (simp add: update_max_def)
qed

section \<open>Runs of neighbouring addresses\<close>

definition neighbour :: "u64 \<Rightarrow> u64 \<Rightarrow> bool" where
  "neighbour a b \<longleftrightarrow> b = a + SIZEOF_TESTWORD \<or> b = a - SIZEOF_TESTWORD"

definition end_run :: "nat \<Rightarrow> u64 list \<Rightarrow> bool" where
  "end_run n as \<longleftrightarrow> (\<exists>xs ys. as = xs @ ys \<and> length ys = n \<and> successively neighbour ys)"

definition some_run :: "nat \<Rightarrow> u64 list \<Rightarrow> bool" where
  "some_run n as \<longleftrightarrow> (\<exists>xs ys zs. as = xs @ ys @ zs \<and> length ys = n \<and> successively neighbour ys)"

lemma end_run_snoc:
  "end_run (Suc n) (as @ [a]) \<longleftrightarrow> end_run n as \<and> (n = 0 \<or> neighbour (last as) a)"
proof
  assume "end_run (Suc n) (as @ [a])"
  then obtain xs ys where y: "as @ [a] = xs @ ys" "length ys = Suc n" "successively neighbour ys" by (auto simp: end_run_def)
  then obtain ys' where ys: "ys = ys' @ [a]" "as = xs @ ys'"
    by (metis append_butlast_last_id append_is_Nil_conv butlast_append last_appendR length_0_conv list.distinct(1) nat.distinct(1) snoc_eq_iff_butlast)
  then show "end_run n as \<and> (n = 0 \<or> neighbour (last as) a)"
    using y unfolding end_run_def by (cases "ys' = []") (auto simp: successively_append_iff)
next
  assume a: "end_run n as \<and> (n = 0 \<or> neighbour (last as) a)"
  then obtain xs ys where y: "as = xs @ ys" "length ys = n" "successively neighbour ys" by (auto simp: end_run_def)
  have "successively neighbour (ys @ [a])" using y a by (cases "ys = []") (auto simp: successively_append_iff)
  then show "end_run (Suc n) (as @ [a])" unfolding end_run_def using y by (intro exI [of _ xs] exI [of _ "ys @ [a]"]) simp
qed

lemma some_run_snoc: "some_run n (as @ [a]) \<longleftrightarrow> some_run n as \<or> end_run n (as @ [a])"
proof
  assume "some_run n (as @ [a])"
  then obtain xs ys zs where y: "as @ [a] = xs @ ys @ zs" "length ys = n" "successively neighbour ys" by (auto simp: some_run_def)
  show "some_run n as \<or> end_run n (as @ [a])"
  proof (cases zs rule: rev_cases)
    case Nil
    then show ?thesis using y unfolding end_run_def by auto
  next
    case (snoc zs' z)
    then have "as = xs @ ys @ zs'" using y(1) by simp
    then show ?thesis using y(2,3) unfolding some_run_def by blast
  qed
next
  assume "some_run n as \<or> end_run n (as @ [a])"
  then show "some_run n (as @ [a])" unfolding some_run_def end_run_def by (metis append.assoc append_Nil2)
qed

definition longest :: "(nat \<Rightarrow> bool) \<Rightarrow> nat \<Rightarrow> bool" where
  "longest P n \<longleftrightarrow> P n \<and> (\<forall>k. P k \<longrightarrow> k \<le> n)"

lemma longest_unique: "longest P n \<Longrightarrow> longest P k \<Longrightarrow> n = k"
  by (auto simp: longest_def intro: antisym)

lemma longest_end:
  assumes "longest (\<lambda>n. end_run n as) n"
  shows "longest (\<lambda>n. end_run n (as @ [a])) (if as \<noteq> [] \<and> neighbour (last as) a then n + 1 else 1)"
proof -
  have z: "end_run 0 xs" for xs by (simp add: end_run_def)
  have "end_run k (as @ [a]) \<longleftrightarrow> k = 0 \<or> (\<exists>j. k = Suc j \<and> end_run j as \<and> (j = 0 \<or> neighbour (last as) a))" for k
    using end_run_snoc z by (cases k) auto
  moreover have "as = [] \<Longrightarrow> end_run j as \<Longrightarrow> j = 0" for j by (simp add: end_run_def)
  ultimately show ?thesis using assms z unfolding longest_def by (auto; fastforce)
qed

lemma longest_some:
  assumes "longest (\<lambda>n. some_run n as) m" "longest (\<lambda>n. end_run n (as @ [a])) n"
  shows "longest (\<lambda>n. some_run n (as @ [a])) (max m n)"
  using assms unfolding longest_def some_run_snoc max_def by auto

section \<open>What the statistics say\<close>

lemma bits_in_error_card: "bits_in_error x = int (card {i. i < 64 \<and> bit x i})"
proof -
  have step: "fold (\<lambda>i bits. if drop_bit i x AND 1 \<noteq> 0 then bits + 1 else bits) [0..<n] (0 :: int) = int (card {i. i < n \<and> bit x i})" for n
  proof (induction n)
    case (Suc n)
    have b: "(drop_bit n x AND 1 \<noteq> 0) = bit x n"
      by (simp add: and_one_eq bit_iff_odd_drop_bit odd_iff_mod_2_eq_one)
    have "{i. i < Suc n \<and> bit x i} = (if bit x n then insert n {i. i < n \<and> bit x i} else {i. i < n \<and> bit x i})"
      by (auto simp: less_Suc_eq)
    then show ?case using Suc b by simp
  qed simp
  show ?thesis unfolding bits_in_error_def by (rule step)
qed

lemma bits_in_error_bounds: "0 \<le> bits_in_error x" "bits_in_error x \<le> 64"
proof -
  have "card {i. i < 64 \<and> bit x i} \<le> card {..<64 :: nat}" by (intro card_mono) auto
  then show "0 \<le> bits_in_error x" "bits_in_error x \<le> 64" by (simp_all add: bits_in_error_card)
qed

abbreviation report_bits :: "report \<Rightarrow> int" where
  "report_bits r \<equiv> bits_in_error (report_diff r)"

definition top_byte :: nat where "top_byte = byte_of (- 1) (PAGE_SIZE - 1)"

definition badram_faults :: "error_mode_t \<Rightarrow> report list \<Rightarrow> (u64 \<times> u64) list" where
  "badram_faults mode rs = (if mode \<ge> ERROR_MODE_BADRAM then map (\<lambda>r. (report_page r, report_offset r)) (filter for_badram rs) else [])"

text \<open>The statistics after the reports \<open>rs\<close>, none of them ignored.\<close>

definition info_exact :: "report list \<Rightarrow> error_info_t \<Rightarrow> bool" where
  "info_exact rs info \<longleftrightarrow>
     addr_byte (min_addr info) = Min (insert top_byte (report_byte ` set rs)) \<and> unat (po_offset (min_addr info)) < 4096 \<and>
     addr_byte (max_addr info) = Max (insert 0 (report_byte ` set rs)) \<and> unat (po_offset (max_addr info)) < 4096 \<and>
     (\<forall>i. bit (bad_bits info) i \<longleftrightarrow> (\<exists>r \<in> set rs. bit (report_diff r) i)) \<and>
     min_bits info = Min (insert 255 (report_bits ` set rs)) \<and> max_bits info = Max (insert 0 (report_bits ` set rs)) \<and>
     int (unat (total_bits info)) = sum_list (map report_bits rs) \<and>
     longest (\<lambda>n. end_run n (map report_addr rs)) (unat (run_length info)) \<and>
     longest (\<lambda>n. some_run n (map report_addr rs)) (unat (max_run info)) \<and>
     (rs \<noteq> [] \<longrightarrow> last_addr info = report_addr (last rs))"

lemma Min_insert_image_snoc: "Min (insert z (f ` set (rs @ [r]))) = min (Min (insert z (f ` set rs))) (f r)" for z :: "'a::linorder"
proof -
  have "insert z (f ` set (rs @ [r])) = insert (f r) (insert z (f ` set rs))" by auto
  then show ?thesis by (simp add: min.commute)
qed

lemma Max_insert_image_snoc: "Max (insert z (f ` set (rs @ [r]))) = max (Max (insert z (f ` set rs))) (f r)" for z :: "'a::linorder"
proof -
  have "insert z (f ` set (rs @ [r])) = insert (f r) (insert z (f ` set rs))" by auto
  then show ?thesis by (simp add: max.commute)
qed

lemma longest_le:
  assumes "longest P n" "\<And>k. P k \<Longrightarrow> k \<le> m"
  shows "n \<le> m"
  using assms by (auto simp: longest_def)

lemma some_run_pos: "as \<noteq> [] \<Longrightarrow> some_run 1 as"
proof -
  assume "as \<noteq> []"
  then obtain a bs where "as = [] @ [a] @ bs" by (cases as) auto
  then show ?thesis unfolding some_run_def by (metis One_nat_def length_Cons list.size(3) successively.simps(2))
qed

lemma sum_bits_bound: "sum_list (map report_bits rs) \<le> 64 * int (length rs)" "0 \<le> sum_list (map report_bits rs)"
  using bits_in_error_bounds by (induction rs) (auto simp: algebra_simps add_mono)

lemma next_run_longest:
  assumes "info_exact rs info" "length rs < 2 ^ 40"
  shows "longest (\<lambda>n. end_run n (map report_addr rs @ [a])) (unat (next_run a info))"
proof -
  let ?as = "map report_addr rs"
  have le: "longest (\<lambda>n. end_run n ?as) (unat (run_length info))" "longest (\<lambda>n. some_run n ?as) (unat (max_run info))"
    using assms(1) by (simp_all add: info_exact_def)
  have "unat (run_length info) \<le> length rs" by (rule longest_le [OF le(1)]) (auto simp: end_run_def dest: arg_cong [where f = length])
  then have r: "unat (run_length info + 1) = unat (run_length info) + 1" using assms(2) by (simp add: unat_word_ariths)
  have m: "max_run info > 0 \<longleftrightarrow> rs \<noteq> []"
  proof
    assume "max_run info > 0"
    then have "unat (max_run info) > 0" by (simp add: word_less_nat_alt)
    moreover have "unat (max_run info) \<le> length rs" by (rule longest_le [OF le(2)]) (auto simp: some_run_def dest: arg_cong [where f = length])
    ultimately show "rs \<noteq> []" by auto
  next
    assume "rs \<noteq> []"
    then have "1 \<le> unat (max_run info)" using some_run_pos [of ?as] le(2) by (auto simp: longest_def)
    then show "max_run info > 0" by (simp add: word_less_nat_alt)
  qed
  have "unat (next_run a info) = (if ?as \<noteq> [] \<and> neighbour (last ?as) a then unat (run_length info) + 1 else 1)"
    using m r assms(1) by (auto simp: next_run_def neighbour_def info_exact_def last_map)
  then show ?thesis using longest_end [OF le(1), of a] by simp
qed

text \<open>One more report.\<close>

lemma update_exact:
  assumes "info_exact rs info" "length rs < 999999999999" "unat errs = length rs"
    and "update_error_info errs (report_page r) (report_offset r) (report_addr r) (report_diff r) info = (b, info1)"
  shows "info_exact (rs @ [r]) (info1\<lparr>last_addr := report_addr r, last_xor := x\<rparr>)"
proof -
  let ?p = "report_page r" and ?o = "report_offset r" and ?bits = "report_bits r"
  have i: "addr_byte (min_addr info) = Min (insert top_byte (report_byte ` set rs))" "unat (po_offset (min_addr info)) < 4096"
      "addr_byte (max_addr info) = Max (insert 0 (report_byte ` set rs))" "unat (po_offset (max_addr info)) < 4096"
      "\<And>i. bit (bad_bits info) i \<longleftrightarrow> (\<exists>r \<in> set rs. bit (report_diff r) i)"
      "min_bits info = Min (insert 255 (report_bits ` set rs))" "max_bits info = Max (insert 0 (report_bits ` set rs))"
      "int (unat (total_bits info)) = sum_list (map report_bits rs)"
      "longest (\<lambda>n. some_run n (map report_addr rs)) (unat (max_run info))"
    using assms(1) unfolding info_exact_def by blast+
  have e: "info1 = snd (update_error_info errs ?p ?o (report_addr r) (report_diff r) info)" using assms(4) by simp
  have u: "min_addr info1 = snd (update_min ?p ?o (min_addr info))" "max_addr info1 = snd (update_max ?p ?o (max_addr info))"
      "bad_bits info1 = bad_bits info OR report_diff r" "min_bits info1 = min (min_bits info) ?bits" "max_bits info1 = max (max_bits info) ?bits"
      "run_length info1 = next_run (report_addr r) info" "max_run info1 = max (max_run info) (next_run (report_addr r) info)"
      "total_bits info1 = (if ?bits > 0 \<and> errs < ERROR_LIMIT then total_bits info + of_int ?bits else total_bits info)"
    unfolding e update_error_info_def case_prod_beta Let_def by (simp_all add: min_def max_def less_imp_le)
  note mn = update_min_byte [OF offset_less [of r] i(2), of ?p] and mx = update_max_byte [OF offset_less [of r] i(4), of ?p]
  have lt: "length rs < 2 ^ 40" using assms(2) by simp
  note run = next_run_longest [OF assms(1) lt, of "report_addr r"]
  have more: "longest (\<lambda>n. some_run n (map report_addr (rs @ [r]))) (unat (max_run info1))"
    using longest_some [OF i(9) run] u(7)
    by (cases "max_run info \<le> next_run (report_addr r) info") (simp_all add: max_def word_le_nat_alt)
  have total: "int (unat (total_bits info1)) = sum_list (map report_bits (rs @ [r]))"
  proof -
    have "errs < ERROR_LIMIT" using assms(2,3) by (simp add: word_less_nat_alt ERROR_LIMIT_def)
    then have t: "total_bits info1 = total_bits info + of_int ?bits" using u(8) bits_in_error_bounds(1) [of "report_diff r"] by auto
    have "unat (of_int ?bits :: u64) = nat ?bits"
      using bits_in_error_bounds [of "report_diff r"] by (simp add: unat_eq_nat_uint uint_word_of_int_eq take_bit_int_eq_self)
    moreover have "unat (total_bits info) \<le> 64 * length rs"
      using sum_bits_bound(1) [of rs] unfolding i(8) [symmetric] by linarith
    moreover have "nat ?bits \<le> 64" using bits_in_error_bounds(2) [of "report_diff r"] by simp
    ultimately have "unat (total_bits info1) = unat (total_bits info) + nat ?bits"
      using t assms(2) by (simp add: unat_word_ariths)
    then show ?thesis using i(8) bits_in_error_bounds(1) [of "report_diff r"] by simp
  qed
  have bits: "\<forall>i. bit (bad_bits info1) i \<longleftrightarrow> (\<exists>r \<in> set (rs @ [r]). bit (report_diff r) i)"
    using i(5) u(3) by (auto simp: bit_or_iff)
  show ?thesis
    unfolding info_exact_def Min_insert_image_snoc Max_insert_image_snoc
    using mn mx run more total bits i(1,3,6,7) u(1,2,4-6) by simp
qed

text \<open>The reports come in one mode of the display, from tests that go on after an error.\<close>

definition steady :: "error_mode_t \<Rightarrow> report \<Rightarrow> bool" where
  "steady mode r \<longleftrightarrow> error_mode (err_cfg (report_sees r)) = mode \<and> continue_on_error (err_cfg (report_sees r))"

definition log_exact :: "error_mode_t \<Rightarrow> badram_state \<Rightarrow> report list \<Rightarrow> error_state \<Rightarrow> bool" where
  "log_exact mode br rs s \<longleftrightarrow>
     info_exact rs (error_info s) \<and> unat (error_count s) = length rs \<and> error_count_cecc s = 0 \<and>
     (rs = [] \<longrightarrow> badram s = br) \<and> (rs \<noteq> [] \<longrightarrow> last_error_mode s = mode \<and> badram s = badram_run mode (badram_faults mode rs) (badram_init br))"

lemma badram_run_snoc:
  "badram_run mode (fs @ [(page, offset)]) s = snd (badram_insert mode page offset (badram_run mode fs s))"
  by (simp add: badram_run_def)

lemma badram_faults_snoc:
  "badram_faults mode (rs @ [r]) =
     (if mode \<ge> ERROR_MODE_BADRAM \<and> for_badram r then badram_faults mode rs @ [(report_page r, report_offset r)] else badram_faults mode rs)"
  by (simp add: badram_faults_def)

lemma make_report_counted:
  assumes "counts r"
  shows "make_report r s = common_err (report_sees r) (case r of Addr _ _ _ _ \<Rightarrow> ADDR_ERROR | Data _ _ _ _ _ \<Rightarrow> DATA_ERROR)
    (report_addr r) (case r of Addr _ _ g _ \<Rightarrow> g | Data _ _ g _ _ \<Rightarrow> g) (case r of Addr _ _ _ b \<Rightarrow> b | Data _ _ _ b _ \<Rightarrow> b) (for_badram r) s"
  using assms by (cases r) (simp_all add: addr_error_def data_error_def)

lemma report_exact:
  assumes "log_exact mode br rs s" "steady mode r" "counts r" "length rs < 999999999999"
  shows "log_exact mode br (rs @ [r]) (snd (snd (make_report r s)))"
proof -
  let ?env = "report_sees r" and ?p = "report_page r" and ?o = "report_offset r"
  define ty where "ty = (case r of Addr _ _ _ _ \<Rightarrow> ADDR_ERROR | Data _ _ _ _ _ \<Rightarrow> DATA_ERROR)"
  define g where "g = (case r of Addr _ _ g _ \<Rightarrow> g | Data _ _ g _ _ \<Rightarrow> g)"
  define d where "d = (case r of Addr _ _ _ b \<Rightarrow> b | Data _ _ _ b _ \<Rightarrow> b)"
  have l: "info_exact rs (error_info s)" "unat (error_count s) = length rs" "error_count_cecc s = 0" "rs = [] \<Longrightarrow> badram s = br"
      "rs \<noteq> [] \<Longrightarrow> last_error_mode s = mode \<and> badram s = badram_run mode (badram_faults mode rs) (badram_init br)"
    using assms(1) by (auto simp: log_exact_def)
  let ?hdr = "error_count s = 0 \<and> error_count_cecc s = 0 \<or> mode \<noteq> last_error_mode s"
  define br1 where "br1 = (if ?hdr then badram_init (badram s) else badram s)"
  have empty: "error_count s = 0 \<longleftrightarrow> rs = []" using l(2) by (metis length_0_conv unat_eq_zero)
  have br1: "br1 = badram_run mode (badram_faults mode rs) (badram_init br)"
  proof (cases "rs = []")
    case True
    then show ?thesis using l(3,4) empty by (simp add: br1_def badram_faults_def badram_run_def)
  next
    case False
    then have "\<not> ?hdr" using l(5) empty by simp
    then show ?thesis unfolding br1_def if_not_P [OF \<open>\<not> ?hdr\<close>] using l(5) [OF False] by blast
  qed
  obtain b info where u: "update_error_info (error_count s) ?p ?o (report_addr r) (report_diff r) (error_info s) = (b, info)" by fastforce
  obtain nb br2 where i: "(if mode \<ge> ERROR_MODE_BADRAM \<and> for_badram r then badram_insert mode ?p ?o br1 else (False, br1)) = (nb, br2)" by fastforce
  have br2: "br2 = badram_run mode (badram_faults mode (rs @ [r])) (badram_init br)"
    using i br1 unfolding badram_faults_snoc by (auto simp: badram_run_snoc split: if_splits)
  let ?s1 = "s\<lparr>badram := br1, last_error_mode := mode\<rparr>"
  have up: "(if ty = ADDR_ERROR then update_error_info (error_count ?s1) ?p ?o (report_addr r) 0 (error_info ?s1)
      else if ty = DATA_ERROR then update_error_info (error_count ?s1) ?p ?o (report_addr r) (g XOR d) (error_info ?s1)
      else (ty = NEW_MODE \<and> error_count ?s1 > 0, error_info ?s1)) = (b, info)"
    using u by (cases r) (simp_all add: ty_def g_def d_def)
  have i1: "(if mode \<ge> ERROR_MODE_BADRAM \<and> for_badram r then badram_insert mode ?p ?o (badram ?s1) else (False, badram ?s1)) = (nb, br2)"
  proof -
    have b: "badram ?s1 = br1" by simp
    show ?thesis unfolding b by (rule i)
  qed
  have ty: "ty \<noteq> PARITY_ERROR" "ty \<noteq> CECC_ERROR" "ty \<noteq> NEW_MODE" by (cases r; simp add: ty_def)+
  have st: "error_mode (err_cfg ?env) = mode" "continue_on_error (err_cfg ?env)" using assms(2) by (simp_all add: steady_def)
  let ?s2 = "count_error ty ?env (?s1\<lparr>error_info := info, badram := br2\<rparr>)"
  let ?s3 = "?s2\<lparr>error_info := (error_info ?s2)\<lparr>last_addr := report_addr r, last_xor := g XOR d\<rparr>\<rparr>"
  have res: "snd (snd (make_report r s)) = ?s3"
    unfolding make_report_counted [OF assms(3)] ty_def [symmetric] g_def [symmetric] d_def [symmetric] common_err_def record_err_def Let_def st
      report_page_def [symmetric] report_offset_def [symmetric] br1_def [symmetric] up i1
    using ty st(2) by simp
  have lt: "error_count s < ERROR_LIMIT" using l(2) assms(4) by (simp add: word_less_nat_alt ERROR_LIMIT_def)
  have c: "error_count ?s2 = error_count s + 1" "error_info ?s2 = info" "error_count_cecc ?s2 = 0" "badram ?s2 = br2" "last_error_mode ?s2 = mode"
    using ty lt l(3) by (simp_all add: count_error_def Let_def)
  have n: "unat (error_count s + 1) = length rs + 1" using l(2) assms(4) by (simp add: unat_word_ariths)
  have "info_exact (rs @ [r]) (info\<lparr>last_addr := report_addr r, last_xor := g XOR d\<rparr>)" by (rule update_exact [OF l(1) assms(4) l(2) u])
  then show ?thesis unfolding res log_exact_def using c n br2 by simp
qed

lemma reports_exact:
  assumes "log_exact mode br rs0 s" "\<forall>r \<in> set rs. steady mode r" "length rs0 + length rs \<le> 999999999999"
  shows "log_exact mode br (rs0 @ filter counts rs) (run_reports rs s)"
  using assms
proof (induction rs arbitrary: rs0 s)
  case Nil
  then show ?case by (simp add: run_reports_def)
next
  case (Cons r rs)
  let ?s = "snd (snd (make_report r s))"
  have run: "run_reports (r # rs) s = run_reports rs ?s" by (simp add: run_reports_def)
  show ?case
  proof (cases "counts r")
    case True
    have "log_exact mode br (rs0 @ [r]) ?s" using Cons.prems True by (intro report_exact) simp_all
    then show ?thesis using Cons.IH [of "rs0 @ [r]" ?s] Cons.prems True run by simp
  next
    case False
    then have "?s = s" by (cases r) (auto simp: data_error_def)
    then show ?thesis using Cons.IH [of rs0 s] Cons.prems False run by simp
  qed
qed

lemma error_init_exact:
  assumes "error_count_cecc s = 0"
  shows "log_exact mode (badram s) [] (error_init s)"
proof -
  have "longest (\<lambda>n. end_run n []) 0" "longest (\<lambda>n. some_run n []) 0" by (auto simp: longest_def end_run_def some_run_def)
  then show ?thesis using assms
    by (simp add: log_exact_def info_exact_def error_init_def top_byte_def byte_of_def)
qed

lemma report_byte_top: "report_byte r \<le> top_byte"
proof -
  have "unat (report_page r) \<le> unat (- 1 :: u64)" by (simp add: word_le_nat_alt [symmetric])
  then have "unat (report_page r) * 4096 \<le> unat (- 1 :: u64) * 4096" by (rule mult_le_mono1)
  then show ?thesis using offset_less [of r] by (simp add: byte_of_def top_byte_def)
qed

lemma Min_insert_big: "finite A \<Longrightarrow> A \<noteq> {} \<Longrightarrow> (\<And>a. a \<in> A \<Longrightarrow> a \<le> z) \<Longrightarrow> Min (insert z A) = Min A" for z :: "'a::linorder"
  by (simp add: min_absorb2 order.trans [OF Min_le])

lemma Max_insert_small: "finite A \<Longrightarrow> A \<noteq> {} \<Longrightarrow> (\<And>a. a \<in> A \<Longrightarrow> z \<le> a) \<Longrightarrow> Max (insert z A) = Max A" for z :: "'a::linorder"
  by (metis Max_in Max_insert max_absorb2)

text \<open>
  C14: The statistics of the errors are exact, when the tests go on after an error (\<open>continue_on_error\<close>, which is off by default),
  the display keeps one error mode, no corrected ECC errors were counted before, and there are at most 999999999999 reports. After
  \<open>error_init\<close> the record then holds of the reports that count (all but the two addresses of the BIOS): their number, the lowest and the
  highest byte, the bits that were ever wrong, the fewest, the most and the sum of the bits wrong in one word, and the longest
  run of reports in which each address is next to the one before; and the BadRAM record is that of the faults meant for it.
\<close>
theorem error_statistics_exact:
  assumes "\<forall>r \<in> set rs. steady mode r" "length rs \<le> 999999999999" "error_count_cecc s = 0"
  defines "seen \<equiv> filter counts rs" and "s1 \<equiv> run_reports rs (error_init s)"
  assumes "seen \<noteq> []"
  shows "unat (error_count s1) = length seen \<and>
    addr_byte (min_addr (error_info s1)) = Min (report_byte ` set seen) \<and> addr_byte (max_addr (error_info s1)) = Max (report_byte ` set seen) \<and>
    (\<forall>i. bit (bad_bits (error_info s1)) i \<longleftrightarrow> (\<exists>r \<in> set seen. bit (report_diff r) i)) \<and>
    min_bits (error_info s1) = Min (report_bits ` set seen) \<and> max_bits (error_info s1) = Max (report_bits ` set seen) \<and>
    int (unat (total_bits (error_info s1))) = sum_list (map report_bits seen) \<and>
    longest (\<lambda>n. some_run n (map report_addr seen)) (unat (max_run (error_info s1))) \<and>
    badram s1 = badram_run mode (badram_faults mode seen) (badram_init (badram s))"
proof -
  have "log_exact mode (badram s) ([] @ seen) s1"
    using reports_exact [OF error_init_exact [OF assms(3)] assms(1)] assms(2) unfolding seen_def s1_def by simp
  then have l: "info_exact seen (error_info s1)" "unat (error_count s1) = length seen"
      "badram s1 = badram_run mode (badram_faults mode seen) (badram_init (badram s))"
    using assms(6) by (simp_all add: log_exact_def)
  have "Min (insert top_byte (report_byte ` set seen)) = Min (report_byte ` set seen)"
    using assms(6) report_byte_top by (intro Min_insert_big) auto
  moreover have "Max (insert 0 (report_byte ` set seen)) = Max (report_byte ` set seen)"
    using assms(6) by (intro Max_insert_small) auto
  moreover have "Min (insert 255 (report_bits ` set seen)) = Min (report_bits ` set seen)"
    using assms(6) order.trans [OF bits_in_error_bounds(2), of 255] by (intro Min_insert_big) auto
  moreover have "Max (insert 0 (report_bits ` set seen)) = Max (report_bits ` set seen)"
    using assms(6) bits_in_error_bounds(1) by (intro Max_insert_small) auto
  ultimately show ?thesis using l unfolding info_exact_def by simp
qed

text \<open>Two errors in neighbouring words, the second of them in two bits; a third report is at an address of the BIOS.\<close>

definition example_sees :: report_env where
  "example_sees = \<lparr>err_cfg = default_config\<lparr>continue_on_error := True, error_mode := ERROR_MODE_BADRAM\<rparr>, err_test = 4, is_master = True,
     err_paging = Vmem.vm_start, ecc_count = 0, ecc_addr = 0\<rparr>"

definition example_reports :: "report list" where
  "example_reports = [Data example_sees 0x12040 0 1 True, Data example_sees 0x4e0 0 1 True, Data example_sees 0x12048 0 3 True]"

definition error_start :: error_state where
  "error_start = error_init \<lparr>error_info = \<lparr>min_addr = \<lparr>po_page = 0, po_offset = 0\<rparr>, max_addr = \<lparr>po_page = 0, po_offset = 0\<rparr>, bad_bits = 0,
       min_bits = 0, max_bits = 0, total_bits = 0, run_length = 0, max_run = 0, last_addr = 0, last_xor = 0\<rparr>,
     error_count = 0, error_count_cecc = 0, last_error_mode = ERROR_MODE_NONE, test_errors = replicate 12 0, badram = badram_start, testpass = 0\<rparr>"

lemma example_bits: "bits_in_error 1 = 1" "bits_in_error 3 = 2"
  by code_simp+

theorem error_statistics_exact_witness:
  "let s1 = run_reports example_reports (error_init error_start)
   in unat (error_count s1) = 2 \<and> addr_byte (min_addr (error_info s1)) = 0x12040 \<and> addr_byte (max_addr (error_info s1)) = 0x12048 \<and>
     min_bits (error_info s1) = 1 \<and> max_bits (error_info s1) = 2 \<and> int (unat (total_bits (error_info s1))) = 3"
proof -
  have seen: "filter counts example_reports = [Data example_sees 0x12040 0 1 True, Data example_sees 0x12048 0 3 True]"
    by (simp add: example_reports_def)
  have pages: "report_byte (Data example_sees 0x12040 0 1 True) = 0x12040" "report_byte (Data example_sees 0x12048 0 3 True) = 0x12048"
    by (simp_all add: report_page_def report_offset_def byte_of_def page_of_def example_sees_def pow2_simps)
  have "\<forall>r \<in> set example_reports. steady ERROR_MODE_BADRAM r" "length example_reports \<le> 999999999999" "error_count_cecc error_start = 0"
    by (simp_all add: example_reports_def steady_def example_sees_def error_start_def error_init_def)
  then show ?thesis
    using error_statistics_exact [of example_reports ERROR_MODE_BADRAM error_start] seen pages by (simp add: Let_def example_bits)
qed

section \<open>The end of the run at the first error\<close>

definition stops_on_error :: "report_env \<Rightarrow> bool" where
  "stops_on_error env \<longleftrightarrow> \<not> continue_on_error (err_cfg env)"

lemma report_after_failure:
  assumes "testpass s = 2" "stops_on_error (report_sees r)"
  shows "snd (snd (make_report r s)) = s"
  using assms by (cases r) (simp_all add: addr_error_def data_error_def common_err_def stops_on_error_def)

lemma reports_after_failure:
  assumes "testpass s = 2" "\<forall>r \<in> set rs. stops_on_error (report_sees r)"
  shows "run_reports rs s = s"
  using assms by (induction rs) (simp_all add: run_reports_def report_after_failure)

lemma count_error_pos:
  assumes "type \<noteq> NEW_MODE" "type \<noteq> CECC_ERROR"
  shows "error_count (count_error type env s) > 0"
proof -
  have "error_count s + 1 > 0" if "error_count s < ERROR_LIMIT"
  proof -
    have "unat (error_count s) + 1 < 2 ^ 64" using that by (simp add: word_less_nat_alt ERROR_LIMIT_def)
    then show ?thesis by (simp add: word_less_nat_alt unat_word_ariths)
  qed
  moreover have "error_count s > 0" if "\<not> error_count s < ERROR_LIMIT"
    using that by (simp add: word_less_nat_alt ERROR_LIMIT_def)
  ultimately show ?thesis using assms by (simp add: count_error_def Let_def)
qed

lemma count_error_keeps: "testpass (count_error type env s) = testpass s"
  by (simp add: count_error_def Let_def)

lemma count_error_congs:
  "error_count (count_error type env (s\<lparr>last_error_mode := m, error_info := i, badram := b\<rparr>)) = error_count (count_error type env s)"
  by (simp add: count_error_def Let_def)

lemma record_err_form:
  "\<exists>out b0 m i b1 i2. record_err env type addr good bad use s =
     (out, if type \<noteq> PARITY_ERROR \<and> type \<noteq> CECC_ERROR
           then (count_error type env (s\<lparr>badram := b0, last_error_mode := m, error_info := i, badram := b1\<rparr>))\<lparr>error_info := i2\<rparr>
           else count_error type env (s\<lparr>badram := b0, last_error_mode := m, error_info := i, badram := b1\<rparr>))"
  unfolding record_err_def Let_def case_prod_beta by (intro exI) (rule refl)

lemma record_err_facts:
  assumes "record_err env type addr good bad use s = (out, s1)"
  shows "error_count s1 = error_count (count_error type env s)" "testpass s1 = testpass s"
proof -
  obtain out1 b0 m i b1 i2 where "record_err env type addr good bad use s =
     (out1, if type \<noteq> PARITY_ERROR \<and> type \<noteq> CECC_ERROR
           then (count_error type env (s\<lparr>badram := b0, last_error_mode := m, error_info := i, badram := b1\<rparr>))\<lparr>error_info := i2\<rparr>
           else count_error type env (s\<lparr>badram := b0, last_error_mode := m, error_info := i, badram := b1\<rparr>))"
    using record_err_form by blast
  then have s1: "s1 = (if type \<noteq> PARITY_ERROR \<and> type \<noteq> CECC_ERROR
           then (count_error type env (s\<lparr>badram := b0, last_error_mode := m, error_info := i, badram := b1\<rparr>))\<lparr>error_info := i2\<rparr>
           else count_error type env (s\<lparr>badram := b0, last_error_mode := m, error_info := i, badram := b1\<rparr>))"
    using assms by simp
  show "error_count s1 = error_count (count_error type env s)" "testpass s1 = testpass s"
    unfolding s1 by (simp_all add: count_error_congs count_error_keeps)
qed

lemma common_err_stops:
  assumes "testpass s \<noteq> 2" "stops_on_error env" "type \<noteq> NEW_MODE" "type \<noteq> CECC_ERROR"
  shows "\<exists>out s1. common_err env type addr good bad use s = (is_master env, out, s1) \<and> error_count s1 > 0 \<and>
    testpass s1 = (if is_master env then 2 else testpass s)"
proof -
  obtain out s1 where r: "record_err env type addr good bad use s = (out, s1)" by fastforce
  note f = record_err_facts [OF r]
  have "error_count s1 > 0" unfolding f by (rule count_error_pos [OF assms(3,4)])
  then show ?thesis using assms(1,2) r f(2) by (simp add: common_err_def stops_on_error_def)
qed

lemma error_update_stops:
  assumes "error_count s > 0" "testpass s \<noteq> 2" "stops_on_error env" "is_master env"
  shows "fst (error_update env s)" "testpass (snd (error_update env s)) = 2"
proof -
  have "fst (error_update env s) \<and> testpass (snd (error_update env s)) = 2"
  proof (cases "error_mode (err_cfg env) = last_error_mode s")
    case True
    then show ?thesis using assms by (simp add: error_update_def Let_def stops_on_error_def)
  next
    case False
    obtain out s1 where r: "record_err env NEW_MODE 0 0 0 False s = (out, s1)" by fastforce
    have "error_count s1 > 0" using record_err_facts(1) [OF r] assms(1) by (simp add: count_error_def)
    then have "common_err env NEW_MODE 0 0 0 False s = (True, out, s1\<lparr>testpass := 2\<rparr>)"
      using assms(2-4) r by (simp add: common_err_def stops_on_error_def)
    then show ?thesis using assms(1) False by (simp add: error_update_def Let_def)
  qed
  then show "fst (error_update env s)" "testpass (snd (error_update env s)) = 2" by blast+
qed

text \<open>
  C15: By default the first error ends the run. When a test reports an error that counts, the master stops at once with the verdict
  2 for a failure; a report of another processor lets the master's next \<open>error_update\<close> stop with that verdict; and from then on no
  report of any processor changes the record.
\<close>
theorem first_error_stops:
  assumes "testpass s \<noteq> 2" "counts r" "stops_on_error (report_sees r)" "is_master env" "stops_on_error env"
    and "\<forall>q \<in> set rs. stops_on_error (report_sees q)"
  shows "let (stop, out, s1) = make_report r s; s2 = (if stop then s1 else snd (error_update env s1))
    in stop = is_master (report_sees r) \<and> (stop \<or> fst (error_update env s1)) \<and> error_count s1 > 0 \<and> testpass s2 = 2 \<and> run_reports rs s2 = s2"
proof -
  obtain type good bad use where m: "make_report r s = common_err (report_sees r) type (report_addr r) good bad use s"
      "type \<noteq> NEW_MODE" "type \<noteq> CECC_ERROR"
    using make_report_counted [OF assms(2), of s] by (cases r) auto
  obtain out s1 where c: "make_report r s = (is_master (report_sees r), out, s1)" "error_count s1 > 0"
      "testpass s1 = (if is_master (report_sees r) then 2 else testpass s)"
    using common_err_stops [OF assms(1,3) m(2,3)] unfolding m(1) by blast
  show ?thesis
  proof (cases "is_master (report_sees r)")
    case True
    then show ?thesis using c reports_after_failure [OF _ assms(6)] by simp
  next
    case False
    then have "testpass s1 \<noteq> 2" using c(3) assms(1) by simp
    note u = error_update_stops [OF c(2) this assms(5,4)]
    then show ?thesis using c False reports_after_failure [OF u(2) assms(6)] by simp
  qed
qed

theorem first_error_stops_witness:
  "let env = example_sees\<lparr>err_cfg := default_config\<rparr>; (stop, out, s1) = make_report (Addr (env\<lparr>is_master := False\<rparr>) 0x2000 0 1) error_start
   in \<not> stop \<and> testpass (snd (error_update env s1)) = 2"
proof -
  let ?env = "example_sees\<lparr>err_cfg := default_config\<rparr>" let ?r = "Addr (?env\<lparr>is_master := False\<rparr>) 0x2000 0 1"
  have s: "testpass error_start \<noteq> 2" "counts ?r" "stops_on_error (report_sees ?r)" "is_master ?env" "stops_on_error ?env"
      "\<forall>q \<in> set []. stops_on_error (report_sees q)"
    by (simp_all add: error_start_def error_init_def stops_on_error_def example_sees_def default_config_def)
  show ?thesis using first_error_stops [OF s] by (auto simp: Let_def split: prod.splits if_splits)
qed

text \<open>The average of the summary never divides by zero.\<close>

lemma summary_has_errors:
  assumes "record_err env type addr good bad use s = (out, s1)" "summary out = Some a" "type \<noteq> CECC_ERROR" "type \<noteq> NEW_MODE"
  shows "error_count s1 > 0"
  unfolding record_err_facts [OF assms(1)] by (rule count_error_pos [OF assms(4,3)])

end
