(* ===== verification/Spd.thy ===== *)
theory Spd
  imports Prelude "HOL-Library.Signed_Division"
begin

text \<open>
  The description of a memory module, \<open>system/spd.c\<close>: how the bytes of its SPD memory are decoded for each generation, and the
  checksums. The bytes are an argument (\<open>get_spd\<close> reads them over the SMBus). Clock rates and timings that the code computes in
  floating point are arguments too, the record \<open>float_parts\<close>; what it computes in integers is here. The name of the
  generation, which the code copies to where the pointer \<open>type\<close> points, is left out.
\<close>

section \<open>The decoded description\<close>

type_synonym spd_image = "nat \<Rightarrow> u8"

definition SPD_SKU_LEN :: nat where "SPD_SKU_LEN = 32"
definition DDR5_ROUNDING_FACTOR :: int where "DDR5_ROUNDING_FACTOR = 30"

record spd_info =
  isValid :: bool
  slot_num :: u8
  jedec_code :: u16
  module_size :: u32
  sku :: "u8 list"
  XMP :: u8
  freq :: u16
  hasECC :: bool
  hasTempSensor :: bool
  hasBadCRC :: bool
  fab_year :: u8
  fab_week :: u8
  tCL :: u16
  tCL_dec :: u8
  tRCD :: u16
  tRP :: u16
  tRAS :: u16
  tRC :: u16

definition zero_info :: spd_info where
  "zero_info = \<lparr>isValid = False, slot_num = 0, jedec_code = 0, module_size = 0, sku = [], XMP = 0, freq = 0, hasECC = False,
     hasTempSensor = False, hasBadCRC = False, fab_year = 0, fab_week = 0, tCL = 0, tCL_dec = 0, tRCD = 0, tRP = 0, tRAS = 0, tRC = 0\<rparr>"

record spd_timing =
  t_freq :: u16
  t_CL :: u16
  t_RCD :: u16
  t_RP :: u16
  t_RAS :: u16
  t_RC :: u16

record float_parts =
  ddr5_clock :: "u16 \<Rightarrow> u16"
  ddr4_timing :: "spd_image \<Rightarrow> spd_timing"
  ddr3_timing :: "spd_image \<Rightarrow> spd_timing"
  ddr2_timing :: "spd_image \<Rightarrow> spd_timing"
  ddr_timing :: "spd_image \<Rightarrow> spd_timing"
  sdram_timing :: "spd_image \<Rightarrow> spd_timing"

section \<open>Fields that the generations share\<close>

definition bcd_to_ui8 :: "u8 \<Rightarrow> u8" where
  "bcd_to_ui8 bcd = bcd - 6 * drop_bit 4 bcd"

text \<open>The loop of \<open>read_sku\<close>, and the characters before the blanks at the end.\<close>

fun sku_bytes :: "spd_image \<Rightarrow> nat \<Rightarrow> nat \<Rightarrow> u8 list" where
  "sku_bytes get_spd adr 0 = []"
| "sku_bytes get_spd adr (Suc n) =
     (let b = get_spd adr in if b < 0x20 \<or> b > 0x7F then [] else b # sku_bytes get_spd (adr + 1) n)"

definition read_sku :: "spd_image \<Rightarrow> nat \<Rightarrow> nat \<Rightarrow> u8 list" where
  "read_sku get_spd offset max_len =
     rev (dropWhile (\<lambda>b. b = 0x20) (rev (sku_bytes get_spd offset (if max_len > SPD_SKU_LEN then SPD_SKU_LEN else max_len))))"

definition bit_field :: "u8 \<Rightarrow> nat \<Rightarrow> u8 \<Rightarrow> nat" where
  "bit_field b k m = unat (drop_bit k b AND m)"

definition word_at :: "spd_image \<Rightarrow> nat \<Rightarrow> u16" where
  "word_at get_spd adr = push_bit 8 (ucast (get_spd (adr + 1))) OR ucast (get_spd adr)"

text \<open>The manufacturer, the name and the date, where DDR3 and later have them.\<close>

definition modern_identity :: "spd_image \<Rightarrow> nat \<Rightarrow> nat \<Rightarrow> nat \<Rightarrow> nat \<Rightarrow> spd_info \<Rightarrow> spd_info" where
  "modern_identity get_spd manuf name name_len date s =
     s\<lparr>jedec_code := push_bit 8 (ucast (get_spd manuf AND 0x1F)) OR ucast (get_spd (manuf + 1) AND 0x7F),
       sku := read_sku get_spd name name_len,
       fab_year := bcd_to_ui8 (get_spd date), fab_week := bcd_to_ui8 (get_spd (date + 1))\<rparr>"

text \<open>And in the older ones, which count continuation codes.\<close>

fun contcode_from :: "spd_image \<Rightarrow> nat \<Rightarrow> nat \<Rightarrow> nat" where
  "contcode_from get_spd adr 0 = adr"
| "contcode_from get_spd adr (Suc n) = (if get_spd adr \<noteq> 0x7F then adr else contcode_from get_spd (adr + 1) n)"

definition legacy_identity :: "spd_image \<Rightarrow> spd_info \<Rightarrow> spd_info" where
  "legacy_identity get_spd s =
     (let contcode = contcode_from get_spd 64 8
      in s\<lparr>jedec_code := push_bit 8 (of_nat (contcode - 64)) OR ucast (get_spd contcode AND 0x7F),
           sku := read_sku get_spd 73 18,
           fab_year := bcd_to_ui8 (get_spd 93), fab_week := bcd_to_ui8 (get_spd 94), hasTempSensor := False, isValid := True\<rparr>)"

text \<open>The highest of the bits 0 to 6, when there is one.\<close>

definition highest_cl :: "u8 \<Rightarrow> nat option" where
  "highest_cl b = fold (\<lambda>shft r. if drop_bit shft b AND 1 \<noteq> 0 then Some shft else r) [0..<7] None"

section \<open>DDR5\<close>

definition ddr5_density :: "u8 \<Rightarrow> u32" where
  "ddr5_density sbyte =
     (let d = sbyte AND 0x1F
      in if d = 1 then 512 else if d = 2 then 1024 else if d = 3 then 1536 else if d = 4 then 2048 else if d = 5 then 3072
         else if d = 6 then 4096 else if d = 7 then 6144 else if d = 8 then 8192 else 0)"

definition ddr5_rank_size :: "spd_image \<Rightarrow> nat \<Rightarrow> u32" where
  "ddr5_rank_size get_spd sbyte_adr =
     (let sbyte = get_spd (sbyte_adr * 4); dies = unat (drop_bit 5 sbyte); conf = get_spd 235; io = get_spd (sbyte_adr * 4 + 2); org = get_spd 234;
          r0 = ddr5_density sbyte;
          r1 = (if dies > 1 \<and> dies \<le> 5 then r0 * push_bit (bit_field sbyte 5 7 - 1) 1 else r0);
          r2 = (if bit_field conf 5 3 = 1 then r1 * 2 else r1);
          r3 = r2 * push_bit (bit_field conf 0 3 + 3) 1;
          r4 = r3 div push_bit (bit_field io 5 3 + 2) 1
      in r4 * push_bit (bit_field org 3 7) 1)"

definition ddr5_module_size :: "spd_image \<Rightarrow> u32" where
  "ddr5_module_size get_spd =
     (if drop_bit 6 (get_spd 234) = 0 then ddr5_rank_size get_spd 1 else ddr5_rank_size get_spd 1 + ddr5_rank_size get_spd 2)"

text \<open>The fastest of the two profiles: its clock period and its offset.\<close>

definition xmp3_profile :: "spd_image \<Rightarrow> u16 \<times> nat" where
  "xmp3_profile get_spd =
     fold (\<lambda>offset (tCK, xmp_offset).
       let t = word_at get_spd (709 + offset)
       in if t = 0 \<or> t < 100 \<or> tCK \<noteq> 0 \<and> t \<ge> tCK then (tCK, xmp_offset) else (t, offset)) [0, 64] (0, 0)"

definition ddr5_cycles :: "u16 \<Rightarrow> u16 \<Rightarrow> u16" where
  "ddr5_cycles tns tCK = of_int ((uint tns + uint tCK - DDR5_ROUNDING_FACTOR) sdiv uint tCK)"

definition parse_spd_ddr5 :: "float_parts \<Rightarrow> spd_image \<Rightarrow> spd_info \<Rightarrow> spd_info" where
  "parse_spd_ddr5 fp get_spd s =
     (let xmp = get_spd 640 = 0x0C \<and> get_spd 641 = 0x4A;
          s1 = s\<lparr>module_size := module_size s + ddr5_module_size get_spd, hasECC := bit_field (get_spd 235) 3 3 > 0, XMP := (if xmp then 3 else 0)\<rparr>;
          (tck, xmp_offset) = (if xmp then xmp3_profile get_spd else (word_at get_spd 20, 0));
          base = (if xmp then 717 + xmp_offset else 30)
      in if tck = 0 then s1
         else let f = ddr5_clock fp tck; cl = ddr5_cycles (word_at get_spd base) tck
              in (modern_identity get_spd 512 521 30 515
                   (s1\<lparr>freq := of_int ((uint f + 50) div 100 * 100), tCL := cl + cl mod 2, tRCD := ddr5_cycles (word_at get_spd (base + 2)) tck,
                       tRP := ddr5_cycles (word_at get_spd (base + 4)) tck, tRAS := ddr5_cycles (word_at get_spd (base + 6)) tck,
                       tRC := ddr5_cycles (word_at get_spd (base + 8)) tck\<rparr>))\<lparr>hasTempSensor := True, isValid := True\<rparr>)"

section \<open>DDR4\<close>

definition ddr4_size :: "spd_image \<Rightarrow> u32" where
  "ddr4_size get_spd =
     push_bit ((bit_field (get_spd 4) 0 0xF + 5) + (bit_field (get_spd 13) 0 7 + 3) + bit_field (get_spd 12) 3 7 + bit_field (get_spd 6) 4 7 -
       (bit_field (get_spd 12) 0 7 + 2)) 1"

definition parse_spd_ddr4 :: "float_parts \<Rightarrow> spd_image \<Rightarrow> spd_info \<Rightarrow> spd_info" where
  "parse_spd_ddr4 fp get_spd s =
     (let t = ddr4_timing fp get_spd
      in (modern_identity get_spd 320 329 20 323
           (s\<lparr>module_size := ddr4_size get_spd, hasECC := bit_field (get_spd 13) 3 1 = 1,
              XMP := (if get_spd 384 = 0x0C \<and> get_spd 385 = 0x4A then 2 else XMP s),
              freq := t_freq t, tCL := t_CL t, tRCD := t_RCD t, tRP := t_RP t, tRAS := t_RAS t, tRC := t_RC t\<rparr>))
         \<lparr>hasTempSensor := False, isValid := True\<rparr>)"

section \<open>DDR3\<close>

definition ddr3_size :: "spd_image \<Rightarrow> u32" where
  "ddr3_size get_spd =
     push_bit ((bit_field (get_spd 4) 0 0xF + 5) + (bit_field (get_spd 8) 0 7 + 3) - (bit_field (get_spd 7) 0 7 + 2)) 1 *
       of_nat (bit_field (get_spd 7) 3 7 + 1)"

definition ddr3_clock :: "u8 \<Rightarrow> u16" where
  "ddr3_clock tck =
     (if tck = 20 then 800 else if tck = 15 then 1066 else if tck = 12 then 1333 else if tck = 10 then 1600 else if tck = 9 then 1866
      else if tck = 8 then 2133 else if tck = 7 then 2400 else if tck = 6 then 2666 else 0)"

definition ddr3_freq :: "spd_image \<Rightarrow> bool \<Rightarrow> u16" where
  "ddr3_freq get_spd xmp =
     (let tck0 = (if xmp then get_spd 186 else get_spd 12); tck2 = get_spd 221;
          tck = (if xmp \<and> tck2 > 5 \<and> tck2 < tck0 then tck2 else tck0);
          mtb_divisor = get_spd 181; f = ddr3_clock tck
      in if xmp \<and> mtb_divisor = 12 \<and> get_spd 186 = 10 then 2400
         else if xmp \<and> mtb_divisor = 14 \<and> get_spd 186 = 15 then 1866 else f)"

definition parse_spd_ddr3 :: "float_parts \<Rightarrow> spd_image \<Rightarrow> spd_info \<Rightarrow> spd_info" where
  "parse_spd_ddr3 fp get_spd s =
     (let t = ddr3_timing fp get_spd; xmp = get_spd 176 = 0x0C \<and> get_spd 177 = 0x4A
      in (modern_identity get_spd 117 128 18 120
           (s\<lparr>module_size := ddr3_size get_spd, hasECC := bit_field (get_spd 8) 3 1 = 1, XMP := (if xmp then 1 else XMP s),
              freq := ddr3_freq get_spd xmp, tCL := t_CL t, tRCD := t_RCD t, tRP := t_RP t, tRAS := t_RAS t, tRC := t_RC t\<rparr>))
         \<lparr>hasTempSensor := False, isValid := True\<rparr>)"

section \<open>DDR2, DDR and SDRAM\<close>

definition ddr2_rank :: "u8 \<Rightarrow> u32" where
  "ddr2_rank b =
     (if b = 1 then 1024 else if b = 2 then 2048 else if b = 4 then 4096 else if b = 8 then 8192 else if b = 16 then 16384
      else if b = 32 then 128 else if b = 64 then 256 else 512)"

definition parse_spd_ddr2 :: "float_parts \<Rightarrow> spd_image \<Rightarrow> spd_info \<Rightarrow> spd_info" where
  "parse_spd_ddr2 fp get_spd s =
     (let t = ddr2_timing fp get_spd; epp = get_spd 99 = 0x6D \<and> get_spd 102 = 0xB1;
          epp_offset = (if epp then bit_field (get_spd 103) 0 3 * 12 else 0);
          cl = highest_cl (if epp then get_spd (110 + epp_offset) else get_spd 18)
      in legacy_identity get_spd
           (s\<lparr>module_size := ddr2_rank (get_spd 31) * of_nat (bit_field (get_spd 5) 0 7 + 1), hasECC := drop_bit 1 (get_spd 11) = 1,
              XMP := (if epp then 20 else XMP s), freq := t_freq t, tCL := (case cl of None \<Rightarrow> tCL s | Some n \<Rightarrow> of_nat n),
              tRCD := t_RCD t, tRP := t_RP t, tRAS := t_RAS t\<rparr>))"

definition ddr_rank :: "u8 \<Rightarrow> u32" where
  "ddr_rank b =
     (if b = 1 then 1024 else if b = 2 then 2048 else if b = 4 then 4096 else if b = 8 then 32 else if b = 16 then 64
      else if b = 32 then 128 else if b = 64 then 256 else if b = 128 then 512 else 0)"

definition parse_spd_ddr :: "float_parts \<Rightarrow> spd_image \<Rightarrow> spd_info \<Rightarrow> spd_info" where
  "parse_spd_ddr fp get_spd s =
     (let t = ddr_timing fp get_spd; cl = highest_cl (get_spd 18)
      in legacy_identity get_spd
           (s\<lparr>module_size := ddr_rank (get_spd 31) * ucast (get_spd 5), hasECC := drop_bit 1 (get_spd 11) = 1, freq := t_freq t,
              tCL := (case cl of None \<Rightarrow> tCL s | Some n \<Rightarrow> of_nat (1 + n div 2)),
              tCL_dec := (case cl of None \<Rightarrow> tCL_dec s | Some n \<Rightarrow> if n = 1 \<or> n = 3 \<or> n = 5 then 5 else 0),
              tRCD := t_RCD t, tRP := t_RP t, tRAS := t_RAS t\<rparr>))"

definition sdram_size :: "spd_image \<Rightarrow> u32" where
  "sdram_size get_spd =
     (let rows = bit_field (get_spd 3) 0 0xF; cols = bit_field (get_spd 4) 0 0xF; banks = get_spd 5; dev_banks = get_spd 17
      in if rows \<noteq> 0 \<and> cols \<noteq> 0 \<and> rows + cols > 17 \<and> rows + cols \<le> 29 \<and> banks \<le> 8 \<and> dev_banks \<le> 8
         then push_bit (rows + cols - 17) 1 * (ucast banks * ucast dev_banks) else 0)"

definition parse_spd_sdram :: "float_parts \<Rightarrow> spd_image \<Rightarrow> spd_info \<Rightarrow> spd_info" where
  "parse_spd_sdram fp get_spd s =
     (let t = sdram_timing fp get_spd; cl = highest_cl (get_spd 18)
      in legacy_identity get_spd
           (s\<lparr>module_size := sdram_size get_spd, hasECC := drop_bit 1 (get_spd 11) = 1, freq := t_freq t,
              tCL := (case cl of None \<Rightarrow> tCL s | Some n \<Rightarrow> of_nat (n + 1)), tRCD := t_RCD t, tRP := t_RP t, tRAS := t_RAS t\<rparr>))"

section \<open>RDRAM\<close>

text \<open>Modules of an unknown size or speed leave the decoding early, without being marked as valid.\<close>

definition rdram_speed :: "u8 \<Rightarrow> u16 option" where
  "rdram_speed b =
     (if b = 0x1A then Some 600 else if b = 0x15 then Some 711 else if b = 0x13 then Some 800 else if b = 0xE then Some 1066
      else if b = 0xC then Some 1200 else None)"

definition parse_spd_rdram :: "spd_image \<Rightarrow> spd_info \<Rightarrow> spd_info" where
  "parse_spd_rdram get_spd s =
     (let b5 = get_spd 5; b4 = get_spd 4
      in if b5 \<noteq> 0x84 \<and> b5 \<noteq> 0xC5 then s
         else let size0 = (if b5 = 0x84 then 8 else 16) * ucast (get_spd 99);
                  size1 = (if b4 > 0x96 then size0 * of_int (1 + (int (bit_field b4 4 0xF) - 9) + (int (bit_field b4 0 0xF) - 6)) else size0);
                  s1 = s\<lparr>module_size := size1, hasECC := get_spd 100 = 0x12\<rparr>
              in case rdram_speed (get_spd 15) of
                   None \<Rightarrow> s1
                 | Some f \<Rightarrow> legacy_identity get_spd
                     (s1\<lparr>freq := f, tCL := ucast (get_spd 14), tRCD := ucast (get_spd 12), tRP := ucast (get_spd 10), tRAS := ucast (get_spd 11)\<rparr>))"

section \<open>Checksums\<close>

text \<open>One bit of the CRC, one byte, and the bytes below \<open>n\<close>.\<close>

definition crc_bit :: "u16 \<Rightarrow> u16" where
  "crc_bit crc = (if crc AND 0x8000 \<noteq> 0 then push_bit 1 crc XOR 0x1021 else push_bit 1 crc)"

definition crc_byte :: "u8 \<Rightarrow> u16 \<Rightarrow> u16" where
  "crc_byte b crc = (crc_bit ^^ 8) (crc XOR push_bit 8 (ucast b))"

definition spd_crc16 :: "spd_image \<Rightarrow> nat \<Rightarrow> u16" where
  "spd_crc16 get_spd n = fold (\<lambda>adr. crc_byte (get_spd adr)) [0..<n] 0"

definition spd_check_crc16 :: "spd_image \<Rightarrow> nat \<Rightarrow> nat \<Rightarrow> bool" where
  "spd_check_crc16 get_spd n crc_adr \<longleftrightarrow> spd_crc16 get_spd n = word_at get_spd crc_adr"

definition spd_sum :: "spd_image \<Rightarrow> nat \<Rightarrow> u8" where
  "spd_sum get_spd n = fold (\<lambda>adr sum. sum + get_spd adr) [0..<n] 0"

definition spd_checksum_ok :: "spd_image \<Rightarrow> u8 \<Rightarrow> bool" where
  "spd_checksum_ok get_spd spd_type =
     (if spd_type = 0x12 then spd_check_crc16 get_spd 510 510
      else if spd_type = 0x0C then spd_check_crc16 get_spd 126 126
      else if spd_type = 0x0B then spd_check_crc16 get_spd (if get_spd 0 AND 0x80 \<noteq> 0 then 117 else 126) 126
      else if spd_type = 0x08 \<or> spd_type = 0x07 \<or> spd_type = 0x04 then spd_sum get_spd 63 = get_spd 63
      else True)"

section \<open>The whole description\<close>

text \<open>
  The bytes are read anew for the decoding and for each of the two checks, so there are three images: a transfer may go wrong in
  one of them.
\<close>

definition parse_generation :: "float_parts \<Rightarrow> spd_image \<Rightarrow> spd_info \<Rightarrow> spd_info" where
  "parse_generation fp get_spd s =
     (let spd_type = get_spd 2
      in if spd_type = 0x12 then parse_spd_ddr5 fp get_spd s
         else if spd_type = 0x0C then parse_spd_ddr4 fp get_spd s
         else if spd_type = 0x0B then parse_spd_ddr3 fp get_spd s
         else if spd_type = 0x08 then parse_spd_ddr2 fp get_spd s
         else if spd_type = 0x07 then parse_spd_ddr fp get_spd s
         else if spd_type = 0x04 then parse_spd_sdram fp get_spd s
         else if spd_type = 0x01 \<and> get_spd 1 = 8 then parse_spd_rdram get_spd s
         else s)"

definition parse_spd :: "float_parts \<Rightarrow> bool \<Rightarrow> spd_image \<Rightarrow> spd_image \<Rightarrow> spd_image \<Rightarrow> u8 \<Rightarrow> spd_info" where
  "parse_spd fp enable_spd_crc get_spd get_spd1 get_spd2 slot_idx =
     (let s0 = zero_info\<lparr>slot_num := slot_idx\<rparr>
      in if get_spd 0 = 0xFF then s0
         else let s = parse_generation fp get_spd s0; t = get_spd 2
              in if enable_spd_crc \<and> isValid s \<and> \<not> spd_checksum_ok get_spd1 t \<and> \<not> spd_checksum_ok get_spd2 t
                 then s\<lparr>hasBadCRC := True\<rparr> else s)"

end
