(* ===== verification/Spd_Spec.thy ===== *)
theory Spd_Spec
  imports Spd
begin

text \<open>
  The checksum of a module's description is the remainder of a polynomial and finds every burst of errors; and what a decoded
  description looks like, whatever the bytes are.
\<close>

section \<open>The CRC bit by bit\<close>

text \<open>One bit of the message, and a word with the bits of a list at its top.\<close>

definition crc_step :: "bool \<Rightarrow> u16 \<Rightarrow> u16" where
  "crc_step b crc = crc_bit (crc XOR (if b then 0x8000 else 0))"

primrec top_word :: "bool list \<Rightarrow> u16" where
  "top_word [] = 0"
| "top_word (b # bs) = (if b then 0x8000 else 0) XOR drop_bit 1 (top_word bs)"

definition message_bit :: "spd_image \<Rightarrow> nat \<Rightarrow> bool" where
  "message_bit get_spd j = bit (get_spd (j div 8)) (7 - j mod 8)"

definition message_bits :: "spd_image \<Rightarrow> nat \<Rightarrow> bool list" where
  "message_bits get_spd n = map (message_bit get_spd) [0..<8 * n]"

declare bit_numeral_word_iff [simp del]

lemma bit_poly: "bit (0x1021 :: u16) i \<longleftrightarrow> i = 0 \<or> i = 5 \<or> i = 12"
proof -
  have "(0x1021 :: u16) = push_bit 12 1 XOR push_bit 5 1 XOR 1" by simp
  then show ?thesis by (simp only: bit_xor_iff bit_push_bit_iff bit_1_iff) auto
qed

lemma bit_top: "bit (0x8000 :: u16) i \<longleftrightarrow> i = 15"
proof -
  have "(0x8000 :: u16) = push_bit 15 1" by simp
  then show ?thesis by (simp only: bit_push_bit_iff) (auto simp: bit_1_iff)
qed

lemma top_bit_test: "crc AND 0x8000 \<noteq> 0 \<longleftrightarrow> bit crc 15" for crc :: u16
proof
  assume "crc AND 0x8000 \<noteq> 0"
  then obtain i where "bit (crc AND 0x8000) i" by (metis bit_eqI bit_0_eq bot_apply bot_bool_def)
  then show "bit crc 15" by (auto simp: bit_and_iff bit_top)
next
  assume "bit crc 15"
  then have "bit (crc AND 0x8000) 15" by (simp add: bit_and_iff bit_top)
  then show "crc AND 0x8000 \<noteq> 0" by (metis bit_0_eq bot_apply bot_bool_def)
qed

lemma crc_bit_bit:
  "bit (crc_bit crc) i \<longleftrightarrow> (0 < i \<and> i < 16 \<and> bit crc (i - 1)) \<noteq> (bit crc 15 \<and> (i = 0 \<or> i = 5 \<or> i = 12))"
proof -
  have p: "bit (push_bit 1 crc) i \<longleftrightarrow> 0 < i \<and> i < 16 \<and> bit crc (i - 1)"
    by (simp only: bit_push_bit_iff) auto
  show ?thesis by (cases "bit crc 15") (auto simp: crc_bit_def top_bit_test bit_xor_iff bit_poly p simp del: One_nat_def)
qed

lemma crc_bit_xor: "crc_bit (x XOR y) = crc_bit x XOR crc_bit y"
  by (rule bit_eqI) (auto simp: crc_bit_bit bit_xor_iff)

lemma crc_bit_zero: "crc_bit x = 0 \<longleftrightarrow> x = 0"
proof
  assume z: "crc_bit x = 0"
  have n: "\<not> bit (crc_bit x) i" for i using z by simp
  have t: "\<not> bit x 15" using n [of 0] by (simp add: crc_bit_bit)
  show "x = 0"
  proof (rule bit_eqI)
    fix i
    assume "possible_bit TYPE(u16) i"
    then have "i < 16" by simp
    then have "\<not> bit x i" using n [of "i + 1"] t by (cases "i = 15") (simp_all add: crc_bit_bit)
    then show "bit x i = bit 0 i" by simp
  qed
qed (simp add: crc_bit_def)

lemma crc_bits_xor: "(crc_bit ^^ k) (x XOR y) = (crc_bit ^^ k) x XOR (crc_bit ^^ k) y"
  by (induction k) (simp_all add: crc_bit_xor)

lemma crc_bits_zero: "(crc_bit ^^ k) x = 0 \<longleftrightarrow> x = 0"
  by (induction k) (simp_all add: crc_bit_zero)

lemma top_word_bit: "length bs \<le> 16 \<Longrightarrow> bit (top_word bs) i \<longleftrightarrow> i < 16 \<and> 15 - i < length bs \<and> bs ! (15 - i)"
proof (induction bs arbitrary: i)
  case (Cons b bs)
  have d: "bit (drop_bit 1 (top_word bs)) i \<longleftrightarrow> i < 15 \<and> 14 - i < length bs \<and> bs ! (14 - i)"
    using Cons by (auto simp: bit_drop_bit_eq)
  show ?case
  proof (cases "i < 15")
    case True
    then have "15 - i = Suc (14 - i)" by simp
    then show ?thesis using d True by (auto simp: bit_xor_iff bit_top)
  next
    case False
    then show ?thesis using d by (cases "i = 15") (auto simp: bit_xor_iff bit_top)
  qed
qed simp

lemma crc_bit_shift: "\<not> bit w 0 \<Longrightarrow> crc_bit (drop_bit 1 w) = w"
proof (rule bit_eqI)
  fix i
  assume "\<not> bit w 0" "possible_bit TYPE(u16) i"
  moreover have "\<not> bit w 16" using bit_imp_le_length [of w 16] by auto
  ultimately show "bit (crc_bit (drop_bit 1 w)) i = bit w i"
    by (cases i) (auto simp: crc_bit_bit bit_drop_bit_eq)
qed

lemma crc_steps_at_once:
  assumes "length bs \<le> 16"
  shows "fold crc_step bs crc = (crc_bit ^^ length bs) (crc XOR top_word bs)"
  using assms
proof (induction bs arbitrary: crc)
  case (Cons b bs)
  have "\<not> bit (top_word bs) 0" using Cons.prems by (simp add: top_word_bit)
  then have w: "crc_bit (drop_bit 1 (top_word bs)) = top_word bs" by (rule crc_bit_shift)
  have "fold crc_step (b # bs) crc = (crc_bit ^^ length bs) (crc_step b crc XOR top_word bs)" using Cons by simp
  also have "crc_step b crc XOR top_word bs = crc_bit (crc XOR top_word (b # bs))"
    unfolding top_word.simps crc_step_def crc_bit_xor w by (simp only: xor.assoc)
  also have "(crc_bit ^^ length bs) (crc_bit (crc XOR top_word (b # bs))) = (crc_bit ^^ length (b # bs)) (crc XOR top_word (b # bs))"
    by (simp add: funpow_swap1)
  finally show ?case .
qed simp

lemma crc_byte_steps: "crc_byte b crc = fold crc_step (map (\<lambda>i. bit b (7 - i)) [0..<8]) crc"
proof -
  define bs where "bs = map (\<lambda>i. bit b (7 - i)) [0..<8]"
  have bs: "length bs = 8" "\<And>i. i < 8 \<Longrightarrow> bs ! i = bit b (7 - i)" by (simp_all add: bs_def del: upt_conv_Cons upt_rec_numeral)
  have "top_word bs = push_bit 8 (ucast b)"
  proof (rule bit_eqI)
    fix i
    assume "possible_bit TYPE(u16) i"
    then have i: "i < 16" by simp
    have l: "bit (top_word bs) i \<longleftrightarrow> 15 - i < 8 \<and> bs ! (15 - i)" using i bs(1) by (simp add: top_word_bit)
    show "bit (top_word bs) i = bit (push_bit 8 (ucast b) :: u16) i"
    proof (cases "8 \<le> i")
      case True
      then have "7 - (15 - i) = i - 8" "15 - i < 8" "i - 8 < 16" using i by simp_all
      then show ?thesis using True i l bs(2) by (simp add: bit_push_bit_iff bit_ucast_iff)
    next
      case False
      then have "\<not> 15 - i < 8" by simp
      then show ?thesis using False l by (simp add: bit_push_bit_iff)
    qed
  qed
  then show ?thesis using crc_steps_at_once [of bs crc] bs(1) unfolding bs_def [symmetric] crc_byte_def by simp
qed

lemma message_bits_Suc: "message_bits f (Suc n) = message_bits f n @ map (\<lambda>i. bit (f n) (7 - i)) [0..<8]"
proof -
  have "8 * Suc n = 8 * n + 8" by simp
  then have "[0..<8 * Suc n] = [0..<8 * n] @ [8 * n..<8 * n + 8]" by (metis upt_add_eq_append le0)
  moreover have "[8 * n..<8 * n + 8] = map (\<lambda>i. i + 8 * n) [0..<8]" by (subst map_add_upt) (simp only: add.commute)
  moreover have "message_bit f (i + 8 * n) = bit (f n) (7 - i)" if "i < 8" for i
    using that by (simp add: message_bit_def)
  ultimately show ?thesis by (simp add: message_bits_def)
qed

lemma spd_crc16_steps: "spd_crc16 f n = fold crc_step (message_bits f n) 0"
proof (induction n)
  case 0
  then show ?case by (simp add: spd_crc16_def message_bits_def)
next
  case (Suc n)
  then show ?case by (simp add: spd_crc16_def message_bits_Suc crc_byte_steps)
qed

section \<open>Errors that the CRC finds\<close>

lemma steps_xor:
  assumes "length xs = length ys"
  shows "fold crc_step (map2 (\<noteq>) xs ys) (x XOR y) = fold crc_step xs x XOR fold crc_step ys y"
  using assms
proof (induction xs ys arbitrary: x y rule: list_induct2)
  case (Cons a xs b ys)
  have "crc_step (a \<noteq> b) (x XOR y) = crc_step a x XOR crc_step b y"
  proof -
    have "(x XOR y) XOR (if a \<noteq> b then 0x8000 else 0) = (x XOR (if a then 0x8000 else 0)) XOR (y XOR (if b then 0x8000 else 0))"
      by (rule bit_eqI) (auto simp: bit_xor_iff)
    then show ?thesis unfolding crc_step_def crc_bit_xor [symmetric] by (rule arg_cong)
  qed
  then show ?case using Cons.IH by simp
qed simp

lemma steps_silent: "fold crc_step (replicate k False) x = (crc_bit ^^ k) x"
proof (induction k arbitrary: x)
  case (Suc k)
  then show ?case by (simp add: crc_step_def funpow_swap1)
qed simp

lemma silent_replicate: "True \<notin> set bs \<Longrightarrow> bs = replicate (length bs) False"
  by (induction bs) auto

lemma top_word_zero:
  assumes "length bs \<le> 16" "True \<in> set bs"
  shows "top_word bs \<noteq> 0"
proof -
  obtain i where i: "i < length bs" "bs ! i" using assms(2) by (auto simp: in_set_conv_nth)
  then have "bit (top_word bs) (15 - i)" using assms(1) by (simp add: top_word_bit)
  then show ?thesis by auto
qed

text \<open>Bits that are all in a window of sixteen leave a remainder.\<close>

lemma burst_remainder:
  assumes "True \<in> set es" "\<forall>i < length es. es ! i \<longrightarrow> s \<le> i \<and> i < s + 16"
  shows "fold crc_step es 0 \<noteq> 0"
proof -
  let ?a = "take s es" and ?b = "take 16 (drop s es)" and ?c = "drop (s + 16) es"
  have es: "es = ?a @ ?b @ ?c" by (metis append_take_drop_id drop_drop add.commute)
  have a: "True \<notin> set ?a"
  proof
    assume "True \<in> set ?a"
    then obtain i where "i < length ?a" "?a ! i" by (auto simp: in_set_conv_nth)
    then show False using assms(2) by force
  qed
  have c: "True \<notin> set ?c"
  proof
    assume "True \<in> set ?c"
    then obtain i where "i < length ?c" "?c ! i" by (auto simp: in_set_conv_nth)
    then have "s + 16 + i < length es" "es ! (s + 16 + i)" by simp_all
    then show False using assms(2) by force
  qed
  have b: "True \<in> set ?b" using assms(1) a c es by (metis UnE set_append)
  have "fold crc_step es 0 = fold crc_step ?c (fold crc_step ?b (fold crc_step ?a 0))" by (subst es) simp
  also have "fold crc_step ?a 0 = 0"
    using silent_replicate [OF a] steps_silent [of "length ?a" 0] crc_bits_zero [of "length ?a" 0] by simp
  also have "fold crc_step ?c (fold crc_step ?b 0) = (crc_bit ^^ length ?c) (fold crc_step ?b 0)"
    using silent_replicate [OF c] steps_silent [of "length ?c"] by metis
  finally have f: "fold crc_step es 0 = (crc_bit ^^ length ?c) (fold crc_step ?b 0)" .
  have "fold crc_step ?b 0 = (crc_bit ^^ length ?b) (top_word ?b)" using crc_steps_at_once [of ?b 0] by simp
  then have "fold crc_step ?b 0 \<noteq> 0" using top_word_zero [of ?b] b by (simp only: crc_bits_zero) simp
  then show ?thesis unfolding f crc_bits_zero .
qed

text \<open>
  C17: The CRC of an SPD memory finds every burst: when a description with a good CRC is read with errors that all lie within
  sixteen consecutive bits of the bytes it covers (most significant bit first, possibly over byte borders), the check fails.
\<close>
theorem crc_finds_bursts:
  assumes "spd_check_crc16 f n adr" "word_at g adr = word_at f adr"
    and "\<forall>j < 8 * n. message_bit g j \<noteq> message_bit f j \<longrightarrow> s \<le> j \<and> j < s + 16"
    and "\<exists>j < 8 * n. message_bit g j \<noteq> message_bit f j"
  shows "\<not> spd_check_crc16 g n adr"
proof -
  let ?es = "map2 (\<noteq>) (message_bits f n) (message_bits g n)"
  have len: "length (message_bits f n) = length (message_bits g n)" "length ?es = 8 * n" by (simp_all add: message_bits_def)
  have nth: "?es ! j = (message_bit f j \<noteq> message_bit g j)" if "j < 8 * n" for j
    using that by (simp add: message_bits_def)
  obtain j where j: "j < 8 * n" "message_bit g j \<noteq> message_bit f j" using assms(4) by blast
  have "?es ! j" using nth [OF j(1)] j(2) by auto
  then have "True \<in> set ?es" using j(1) len(2) by (metis nth_mem)
  moreover have "\<forall>i < length ?es. ?es ! i \<longrightarrow> s \<le> i \<and> i < s + 16" using nth assms(3) len(2) by metis
  ultimately have "fold crc_step ?es 0 \<noteq> 0" by (rule burst_remainder)
  then have "spd_crc16 f n XOR spd_crc16 g n \<noteq> 0"
    using steps_xor [OF len(1), of 0 0] by (simp add: spd_crc16_steps)
  then have "spd_crc16 g n \<noteq> spd_crc16 f n" by auto
  then show ?thesis using assms(1,2) by (simp add: spd_check_crc16_def)
qed

section \<open>The remainder of a polynomial\<close>

text \<open>Polynomials over the field of two elements are the bits of a number; this is their product.\<close>

fun clmul :: "nat \<Rightarrow> nat \<Rightarrow> nat" where
  "clmul a g = (if a = 0 then 0 else (if odd a then g else 0) XOR 2 * clmul (a div 2) g)"

declare clmul.simps [simp del]

lemma clmul_double: "clmul (2 * a) g = 2 * clmul a g"
proof (cases "a = 0")
  case True
  then show ?thesis by (simp add: clmul.simps)
next
  case False
  then show ?thesis by (subst clmul.simps) simp
qed

lemma clmul_double_plus: "clmul (2 * a + 1) g = g XOR 2 * clmul a g"
  by (subst clmul.simps) simp

definition message_poly :: "spd_image \<Rightarrow> nat \<Rightarrow> nat" where
  "message_poly get_spd n = fold (\<lambda>adr m. m * 256 + unat (get_spd adr)) [0..<n] 0"

definition bits_number :: "bool list \<Rightarrow> nat" where
  "bits_number bs = fold (\<lambda>b m. 2 * m + of_bool b) bs 0"

lemma bit_double: "bit (2 * m :: nat) i \<longleftrightarrow> 0 < i \<and> bit m (i - 1)"
  by (cases i) (simp_all add: bit_Suc bit_0)

lemma bit_65536: "bit (0x10000 :: nat) i \<longleftrightarrow> i = 16"
proof -
  have "(0x10000 :: nat) = 2 ^ 16" by simp
  then show ?thesis by (simp only: bit_exp_iff) auto
qed

lemma step_remainder:
  "2 * unat crc XOR (if b then 0x10000 else 0) =
     unat (crc_step b crc) XOR (if bit crc 15 \<noteq> b then 0x11021 else 0)"
proof (rule bit_eqI)
  fix i
  have g: "bit (0x11021 :: nat) i \<longleftrightarrow> i = 0 \<or> i = 5 \<or> i = 12 \<or> i = 16"
  proof -
    have "(0x11021 :: nat) = push_bit 16 1 XOR push_bit 12 1 XOR push_bit 5 1 XOR 1" by simp
    then show ?thesis by (simp only: bit_xor_iff bit_push_bit_iff bit_1_iff) auto
  qed
  have u: "bit (unat w) k \<longleftrightarrow> k < 16 \<and> bit w k" for w :: u16 and k
    using bit_imp_le_length [of w k] by (auto simp: bit_unsigned_iff)
  note t = bit_65536 [of i]
  have c: "bit (crc_step b crc) i \<longleftrightarrow> (0 < i \<and> i < 16 \<and> bit crc (i - 1)) \<noteq> ((bit crc 15 \<noteq> b) \<and> (i = 0 \<or> i = 5 \<or> i = 12))"
    unfolding crc_step_def crc_bit_bit by (auto simp: bit_xor_iff bit_top)
  have l: "bit (2 * unat crc XOR (if b then 0x10000 else 0)) i \<longleftrightarrow> (0 < i \<and> i - 1 < 16 \<and> bit crc (i - 1)) \<noteq> (b \<and> i = 16)"
    by (cases b) (auto simp: bit_xor_iff bit_double u t)
  have r: "bit (unat (crc_step b crc) XOR (if bit crc 15 \<noteq> b then 0x11021 else 0)) i \<longleftrightarrow>
      (i < 16 \<and> bit (crc_step b crc) i) \<noteq> ((bit crc 15 \<noteq> b) \<and> (i = 0 \<or> i = 5 \<or> i = 12 \<or> i = 16))"
    by (cases "bit crc 15 \<noteq> b") (simp_all add: bit_xor_iff u g)
  show "bit (2 * unat crc XOR (if b then 0x10000 else 0)) i = bit (unat (crc_step b crc) XOR (if bit crc 15 \<noteq> b then 0x11021 else 0)) i"
  proof (cases "i = 16")
    case True
    then show ?thesis unfolding l r c by auto
  next
    case False
    then show ?thesis unfolding l r c by auto
  qed
qed

lemma double_xor: "2 * (a XOR b) = 2 * a XOR 2 * (b :: nat)"
  by (rule bit_eqI) (auto simp: bit_double bit_xor_iff)

lemma double_plus_bit: "0x10000 * (2 * m + of_bool b) = 2 * (0x10000 * m) XOR (if b then 0x10000 else 0)" for m :: nat
proof (rule bit_eqI)
  fix i
  have s: "bit (0x10000 * k) i \<longleftrightarrow> 16 \<le> i \<and> bit k (i - 16)" for k i :: nat
  proof -
    have "0x10000 * k = push_bit 16 k" by (simp add: push_bit_eq_mult)
    then show ?thesis by (simp only: bit_push_bit_iff) auto
  qed
  have o: "bit (2 * m + of_bool b) k \<longleftrightarrow> (if k = 0 then b else bit m (k - 1))" for k
    by (cases k) (simp_all add: bit_Suc bit_0)
  note t = bit_65536 [of i]
  show "bit (0x10000 * (2 * m + of_bool b)) i = bit (2 * (0x10000 * m) XOR (if b then 0x10000 else 0)) i"
    unfolding s o bit_xor_iff bit_double by (cases b) (auto simp: t diff_diff_left)
qed

lemma steps_remainder: "\<exists>q. 0x10000 * bits_number bs = clmul q 0x11021 XOR unat (fold crc_step bs 0)"
proof (induction bs rule: rev_induct)
  case Nil
  then show ?case by (intro exI [of _ 0]) (simp add: bits_number_def clmul.simps)
next
  case (snoc b bs)
  then obtain q where q: "0x10000 * bits_number bs = clmul q 0x11021 XOR unat (fold crc_step bs 0)" by blast
  let ?c = "fold crc_step bs 0" and ?g = "0x11021 :: nat"
  let ?t = "bit ?c 15 \<noteq> b"
  have "0x10000 * bits_number (bs @ [b]) = 2 * (0x10000 * bits_number bs) XOR (if b then 0x10000 else 0)"
    unfolding double_plus_bit [symmetric] by (simp add: bits_number_def)
  also have "\<dots> = 2 * clmul q ?g XOR (2 * unat ?c XOR (if b then 0x10000 else 0))" unfolding q double_xor by (simp only: xor.assoc)
  also have "\<dots> = 2 * clmul q ?g XOR (unat (crc_step b ?c) XOR (if ?t then ?g else 0))" unfolding step_remainder ..
  also have "\<dots> = clmul (2 * q + of_bool ?t) ?g XOR unat (crc_step b ?c)"
  proof (cases ?t)
    case True
    then have "clmul (2 * q + of_bool ?t) ?g = ?g XOR 2 * clmul q ?g" using clmul_double_plus by simp
    then show ?thesis unfolding if_P [OF True] by (simp only: xor.assoc xor.commute xor.left_commute)
  next
    case False
    then have "clmul (2 * q + of_bool ?t) ?g = 2 * clmul q ?g" using clmul_double by simp
    then show ?thesis using False by (simp only: if_False simp_thms) simp
  qed
  finally show ?case by auto
qed

lemma bits_of_number:
  "fold (\<lambda>b m. 2 * m + of_bool b) (rev (map (bit x) [0..<k])) m = m * 2 ^ k + take_bit k x" for x m :: nat
proof (induction k arbitrary: m)
  case (Suc k)
  have "fold (\<lambda>b m. 2 * m + of_bool b) (rev (map (bit x) [0..<Suc k])) m =
      fold (\<lambda>b m. 2 * m + of_bool b) (rev (map (bit x) [0..<k])) (2 * m + of_bool (bit x k))" by simp
  also have "\<dots> = (2 * m + of_bool (bit x k)) * 2 ^ k + take_bit k x" by (rule Suc.IH)
  also have "\<dots> = m * 2 ^ Suc k + take_bit (Suc k) x"
    by (simp add: take_bit_Suc_from_most algebra_simps)
  finally show ?case .
qed simp

lemma byte_bits_number:
  "fold (\<lambda>b m. 2 * m + of_bool b) (map (\<lambda>i. bit x (7 - i)) [0..<8]) m = m * 256 + unat x" for x :: u8
proof -
  have "bit (unat x) i = bit x i" for i by (auto simp: bit_unsigned_iff dest: bit_imp_le_length)
  then have "map (\<lambda>i. bit x (7 - i)) [0..<8] = rev (map (bit (unat x)) [0..<8])" by (simp add: upt_rec numeral_eq_Suc)
  moreover have "unat x < 2 ^ LENGTH(8)" by (rule unsigned_less)
  then have "take_bit 8 (unat x) = unat x" by (simp add: take_bit_nat_eq_self)
  ultimately show ?thesis using bits_of_number [of "unat x" 8 m] by simp
qed

lemma message_number: "bits_number (message_bits f n) = message_poly f n"
proof (induction n)
  case 0
  then show ?case by (simp add: bits_number_def message_bits_def message_poly_def)
next
  case (Suc n)
  have "bits_number (message_bits f (Suc n)) = bits_number (message_bits f n) * 256 + unat (f n)"
    unfolding message_bits_Suc bits_number_def fold_append comp_def byte_bits_number ..
  then show ?case using Suc by (simp add: message_poly_def)
qed

text \<open>
  C18: The bitwise loop computes the remainder of the message polynomial: read as polynomials over the field of two elements, the
  bytes covered, shifted by 16, are a multiple of x^16 + x^12 + x^5 + 1 plus the CRC, and the CRC has a degree below 16.
\<close>
theorem crc_is_remainder:
  "\<exists>q. 0x10000 * message_poly f n = clmul q 0x11021 XOR unat (spd_crc16 f n) \<and> unat (spd_crc16 f n) < 0x10000"
proof -
  have "unat (spd_crc16 f n) < 2 ^ LENGTH(16)" by (rule unsigned_less)
  then have "unat (spd_crc16 f n) < 0x10000" by simp
  then show ?thesis using steps_remainder [of "message_bits f n"] unfolding spd_crc16_steps message_number by blast
qed

section \<open>The name of a module\<close>

lemma sku_bytes_facts: "length (sku_bytes f adr n) \<le> n \<and> (\<forall>b \<in> set (sku_bytes f adr n). 0x20 \<le> b \<and> b \<le> 0x7F)"
  by (induction f adr n rule: sku_bytes.induct) (auto simp: Let_def)

lemma trimmed: "rev (dropWhile P (rev xs)) = [] \<or> \<not> P (last (rev (dropWhile P (rev xs))))"
  by (metis hd_dropWhile last_rev rev_is_Nil_conv rev_rev_ident)

lemma read_sku_facts:
  "length (read_sku f offset n) \<le> SPD_SKU_LEN \<and> length (read_sku f offset n) \<le> n \<and>
    (\<forall>b \<in> set (read_sku f offset n). 0x20 \<le> b \<and> b \<le> 0x7F) \<and> (read_sku f offset n = [] \<or> last (read_sku f offset n) \<noteq> 0x20)"
proof -
  let ?n = "if n > SPD_SKU_LEN then SPD_SKU_LEN else n"
  let ?xs = "sku_bytes f offset ?n"
  have "length (dropWhile (\<lambda>b. b = 0x20) (rev ?xs)) \<le> length (rev ?xs)" by (rule length_dropWhile_le)
  moreover have "set (dropWhile (\<lambda>b. b = 0x20) (rev ?xs)) \<subseteq> set ?xs" using set_dropWhileD by fastforce
  ultimately show ?thesis
    using sku_bytes_facts [of f offset ?n] trimmed [of "\<lambda>b. b = 0x20" ?xs] unfolding read_sku_def
    by (auto split: if_splits)
qed

section \<open>What a decoded description looks like\<close>

text \<open>The manufacturer's code has a bank below 32 and an identity of seven bits.\<close>

definition jedec_ok :: "u16 \<Rightarrow> bool" where
  "jedec_ok c \<longleftrightarrow> (\<forall>i. bit c i \<longrightarrow> i < 13 \<and> i \<noteq> 7)"

definition sku_ok :: "u8 list \<Rightarrow> bool" where
  "sku_ok xs \<longleftrightarrow> length xs \<le> SPD_SKU_LEN \<and> (\<forall>b \<in> set xs. 0x20 \<le> b \<and> b \<le> 0x7F) \<and> (xs = [] \<or> last xs \<noteq> 0x20)"

definition spd_wf :: "spd_info \<Rightarrow> bool" where
  "spd_wf s \<longleftrightarrow> sku_ok (sku s) \<and> jedec_ok (jedec_code s) \<and> XMP s \<in> {0, 1, 2, 3, 20} \<and> tCL_dec s \<in> {0, 5} \<and> \<not> hasBadCRC s"

lemma masks: "bit (0x1F :: u8) i \<longleftrightarrow> i < 5" "bit (0x7F :: u8) i \<longleftrightarrow> i < 7"
proof -
  have "(0x1F :: u8) = mask 5" "(0x7F :: u8) = mask 7" by (simp_all add: mask_eq_exp_minus_1)
  then show "bit (0x1F :: u8) i \<longleftrightarrow> i < 5" "bit (0x7F :: u8) i \<longleftrightarrow> i < 7" by (simp_all only: bit_mask_iff) auto
qed

lemma jedec_parts:
  assumes "\<And>i. bit a i \<Longrightarrow> i < 5"
  shows "jedec_ok (push_bit 8 a OR ucast (b AND 0x7F :: u8))"
proof -
  have "i < 13 \<and> i \<noteq> 7" if "bit (push_bit 8 a OR ucast (b AND 0x7F :: u8)) i" for i
  proof (cases "bit (push_bit 8 a) i")
    case True
    then have "8 \<le> i" "bit a (i - 8)" by (simp_all only: bit_push_bit_iff)
    then show ?thesis using assms [of "i - 8"] by simp
  next
    case False
    then have "bit (b AND 0x7F) i" using that by (simp only: bit_or_iff bit_ucast_iff) blast
    then show ?thesis by (simp add: bit_and_iff masks)
  qed
  then show ?thesis unfolding jedec_ok_def by blast
qed

lemma read_sku_ok: "sku_ok (read_sku f offset n)"
  using read_sku_facts [of f offset n] by (simp add: sku_ok_def)

lemma modern_identity_wf: "spd_wf s \<Longrightarrow> spd_wf (modern_identity f a b c d s)"
proof -
  have "jedec_ok (push_bit 8 (ucast (f a AND 0x1F)) OR ucast (f (a + 1) AND 0x7F))"
    by (rule jedec_parts) (simp add: bit_ucast_iff bit_and_iff masks)
  then show "spd_wf s \<Longrightarrow> spd_wf (modern_identity f a b c d s)" using read_sku_ok by (simp add: spd_wf_def modern_identity_def)
qed

lemma contcode_bound: "contcode_from f adr n \<le> adr + n"
  by (induction f adr n rule: contcode_from.induct) auto

lemma small_bank: "k \<le> 8 \<Longrightarrow> bit (of_nat k :: u16) i \<Longrightarrow> i < 5"
proof -
  assume k: "k \<le> 8" "bit (of_nat k :: u16) i"
  have "k < 2 ^ 5" using k(1) by simp
  then have "take_bit 5 k = k" by (simp only: take_bit_nat_eq_self)
  moreover have "bit k i" using k(2) by (simp add: bit_of_nat_iff)
  ultimately show "i < 5" by (metis bit_take_bit_iff)
qed

lemma legacy_identity_wf: "spd_wf s \<Longrightarrow> spd_wf (legacy_identity f s)"
proof -
  have "contcode_from f 64 8 - 64 \<le> 8" using contcode_bound [of f 64 8] by simp
  then have "jedec_ok (push_bit 8 (of_nat (contcode_from f 64 8 - 64)) OR ucast (f (contcode_from f 64 8) AND 0x7F))"
    by (intro jedec_parts) (rule small_bank)
  then show "spd_wf s \<Longrightarrow> spd_wf (legacy_identity f s)" using read_sku_ok by (simp add: spd_wf_def legacy_identity_def Let_def)
qed

text \<open>Updates of the fields that the predicate does not speak of.\<close>

lemma wf_more: "spd_wf (s\<lparr>hasTempSensor := b, isValid := c\<rparr>) = spd_wf s"
  by (simp add: spd_wf_def)

lemma ddr5_wf: "spd_wf s \<Longrightarrow> spd_wf (parse_spd_ddr5 fp f s)"
  unfolding parse_spd_ddr5_def Let_def case_prod_beta
  by (auto simp: wf_more spd_wf_def [of "_\<lparr>module_size := _, hasECC := _, XMP := _\<rparr>"] intro!: modern_identity_wf)
    (simp_all add: spd_wf_def)

lemma ddr4_wf: "spd_wf s \<Longrightarrow> spd_wf (parse_spd_ddr4 fp f s)"
  unfolding parse_spd_ddr4_def Let_def wf_more by (intro modern_identity_wf) (simp add: spd_wf_def)

lemma ddr3_wf: "spd_wf s \<Longrightarrow> spd_wf (parse_spd_ddr3 fp f s)"
  unfolding parse_spd_ddr3_def Let_def wf_more by (intro modern_identity_wf) (simp add: spd_wf_def)

lemma ddr2_wf: "spd_wf s \<Longrightarrow> spd_wf (parse_spd_ddr2 fp f s)"
  unfolding parse_spd_ddr2_def Let_def by (intro legacy_identity_wf) (simp add: spd_wf_def)

lemma ddr_wf: "spd_wf s \<Longrightarrow> spd_wf (parse_spd_ddr fp f s)"
  unfolding parse_spd_ddr_def Let_def by (intro legacy_identity_wf) (simp add: spd_wf_def split: option.splits)

lemma sdram_wf: "spd_wf s \<Longrightarrow> spd_wf (parse_spd_sdram fp f s)"
  unfolding parse_spd_sdram_def Let_def by (intro legacy_identity_wf) (simp add: spd_wf_def)

lemma rdram_wf:
  assumes "spd_wf s"
  shows "spd_wf (parse_spd_rdram f s)"
proof -
  have w: "spd_wf (s\<lparr>module_size := a, hasECC := b\<rparr>)"
      "spd_wf (s\<lparr>module_size := a, hasECC := b, freq := c, tCL := d, tRCD := e, tRP := g, tRAS := h\<rparr>)" for a b c d e g h
    using assms by (simp_all add: spd_wf_def)
  show ?thesis unfolding parse_spd_rdram_def Let_def
    by (cases "rdram_speed (f 15)") (simp_all add: w legacy_identity_wf assms)
qed

lemmas generations_wf = ddr5_wf ddr4_wf ddr3_wf ddr2_wf ddr_wf sdram_wf rdram_wf

lemma generation_wf: "spd_wf s \<Longrightarrow> spd_wf (parse_generation fp f s)"
  unfolding parse_generation_def Let_def by (simp add: generations_wf)

lemma zero_wf: "spd_wf (zero_info\<lparr>slot_num := i\<rparr>)"
  by (simp add: spd_wf_def zero_info_def sku_ok_def jedec_ok_def)

text \<open>
  C19: Whatever bytes a module has, the decoded description is well formed: a name of at most 32 characters, each of 0x20 to 0x7F
  (the decoder lets DEL pass), that does not end in a blank, a manufacturer's code without parity bit, a known profile; and it is
  marked with a bad checksum exactly when that is asked for, the description is complete, and the checksum was wrong both times it
  was read.
\<close>
theorem parse_spd_well_formed:
  "let s = parse_spd fp enable f f1 f2 slot
   in sku_ok (sku s) \<and> jedec_ok (jedec_code s) \<and> XMP s \<in> {0, 1, 2, 3, 20} \<and> tCL_dec s \<in> {0, 5} \<and>
     (hasBadCRC s \<longleftrightarrow> enable \<and> isValid s \<and> \<not> spd_checksum_ok f1 (f 2) \<and> \<not> spd_checksum_ok f2 (f 2))"
proof -
  let ?s0 = "zero_info\<lparr>slot_num := slot\<rparr>"
  have w: "spd_wf ?s0" "spd_wf (parse_generation fp f ?s0)" using zero_wf generation_wf by blast+
  have v: "\<not> isValid ?s0" by (simp add: zero_info_def)
  show ?thesis using w v unfolding parse_spd_def Let_def spd_wf_def by auto
qed

section \<open>A module\<close>

text \<open>A DDR4 module of 8 GB: only the bytes that matter here, and the CRC at bytes 126 and 127.\<close>

definition ddr4_bytes :: "nat \<Rightarrow> u8" where
  "ddr4_bytes adr = (if adr = 2 then 0x0C else if adr = 4 then 5 else if adr = 12 then 1 else if adr = 13 then 3 else 0)"

definition ddr4_module :: spd_image where
  "ddr4_module adr =
     (let crc = spd_crc16 ddr4_bytes 126
      in if adr = 126 then ucast crc else if adr = 127 then ucast (drop_bit 8 crc) else ddr4_bytes adr)"

lemma spd_crc16_cong: "(\<And>adr. adr < n \<Longrightarrow> f adr = g adr) \<Longrightarrow> spd_crc16 f n = spd_crc16 g n"
  unfolding spd_crc16_def by (rule fold_cong) auto

lemma ddr4_module_ok: "spd_check_crc16 ddr4_module 126 126"
proof -
  let ?crc = "spd_crc16 ddr4_bytes 126"
  have "spd_crc16 ddr4_module 126 = ?crc" by (rule spd_crc16_cong) (simp add: ddr4_module_def Let_def)
  moreover have "word_at ddr4_module 126 = ?crc"
  proof (rule bit_eqI)
    fix i
    assume "possible_bit TYPE(u16) i"
    then have "i < 16" by simp
    then show "bit (word_at ddr4_module 126) i = bit ?crc i"
      by (cases "8 \<le> i") (auto simp: word_at_def ddr4_module_def Let_def bit_or_iff bit_push_bit_iff bit_ucast_iff bit_drop_bit_eq)
  qed
  ultimately show ?thesis by (simp add: spd_check_crc16_def)
qed

lemma ddr4_module_size: "ddr4_size ddr4_module = 8192"
  by (simp add: ddr4_size_def bit_field_def ddr4_module_def ddr4_bytes_def Let_def)

text \<open>One wrong bit, the lowest of byte 4: the density reads half of what it was.\<close>

theorem crc_finds_bursts_witness:
  "\<not> spd_check_crc16 (ddr4_module(4 := 4)) 126 126"
proof -
  let ?g = "ddr4_module(4 := 4)"
  have four: "ddr4_module 4 = 5" by (simp add: ddr4_module_def ddr4_bytes_def Let_def)
  have b: "bit (4 :: u8) i \<longleftrightarrow> i = 2" "bit (5 :: u8) i \<longleftrightarrow> i = 0 \<or> i = 2" for i
  proof -
    have "(4 :: u8) = push_bit 2 1" "(5 :: u8) = push_bit 2 1 XOR 1" by simp_all
    then show "bit (4 :: u8) i \<longleftrightarrow> i = 2" "bit (5 :: u8) i \<longleftrightarrow> i = 0 \<or> i = 2"
      by (simp_all only: bit_xor_iff bit_push_bit_iff bit_1_iff) auto
  qed
  have "39 \<le> j \<and> j < 39 + 16" if "message_bit ?g j \<noteq> message_bit ddr4_module j" for j
  proof -
    have "j div 8 = 4" using that by (auto simp: message_bit_def split: if_splits)
    moreover from this have "7 - j mod 8 = 0" using that four b by (auto simp: message_bit_def)
    ultimately show ?thesis by presburger
  qed
  moreover have "message_bit ?g 39 \<noteq> message_bit ddr4_module 39" using four b by (simp add: message_bit_def)
  moreover have "word_at ?g 126 = word_at ddr4_module 126" by (simp add: word_at_def)
  ultimately show ?thesis using crc_finds_bursts [OF ddr4_module_ok, of ?g 39] by force
qed

theorem parse_spd_well_formed_witness:
  "\<forall>fp. \<not> hasBadCRC (parse_spd fp True (ddr4_module(4 := 4)) (ddr4_module(4 := 4)) ddr4_module 0)"
proof
  fix fp
  have "spd_checksum_ok ddr4_module 0x0C" using ddr4_module_ok by (simp add: spd_checksum_ok_def)
  moreover have "(ddr4_module(4 := 4)) 2 = 0x0C" by (simp add: ddr4_module_def ddr4_bytes_def Let_def)
  ultimately show "\<not> hasBadCRC (parse_spd fp True (ddr4_module(4 := 4)) (ddr4_module(4 := 4)) ddr4_module 0)"
    using parse_spd_well_formed [of fp True "ddr4_module(4 := 4)" "ddr4_module(4 := 4)" ddr4_module 0] by (simp add: Let_def)
qed

text \<open>The dates are binary coded decimals.\<close>

lemma bcd_digits:
  assumes "h \<le> 9" "l \<le> 9"
  shows "unat (bcd_to_ui8 (of_nat (16 * h + l))) = 10 * h + l"
proof -
  let ?b = "of_nat (16 * h + l) :: u8"
  have b: "unat ?b = 16 * h + l" using assms by (intro unat_of_nat_small) simp
  have d: "unat (drop_bit 4 ?b) = h" using assms unfolding unat_shift b by simp
  have u: "unat (of_nat h :: u8) = h" using assms by (intro unat_of_nat_small) simp
  have "drop_bit 4 ?b = of_nat h" by (rule word_unat_eq_iff [THEN iffD2]) (simp only: d u)
  then have "bcd_to_ui8 ?b = of_nat (10 * h + l)" by (simp add: bcd_to_ui8_def)
  then show ?thesis using assms unat_of_nat_small [of "10 * h + l", where ?'a = 8] by simp
qed

end
