(* ===== verification/Stride_Tests.thy ===== *)
theory Stride_Tests
  imports Mem_Tests "HOL-Library.Signed_Division"
begin

text \<open>
  The tests that do not visit every word alike: the walking-ones address test (\<open>tests/addr_walk1.c\<close>), the modulo-n
  test (\<open>tests/modulo_n.c\<close>) and the block move (\<open>tests/block_move.c\<close>, x86-64 build).
\<close>

section \<open>Walking-ones address test\<close>

text \<open>\<open>mask <<= 1\<close> from the size of a word until the bit leaves the word; \<open>do ... while (mask)\<close> runs over these values.\<close>

definition walk_masks :: "u64 list" where
  "walk_masks = map (\<lambda>i. push_bit i 1) [3..<64]"

definition walk_ptr :: "ptr \<Rightarrow> u64 \<Rightarrow> ptr" where
  "walk_ptr pb m = word_ptr (byte_addr pb OR m)"

definition addr_error :: "ptr \<Rightarrow> ptr \<Rightarrow> u64 \<Rightarrow> u64 \<Rightarrow> 'm test_state \<Rightarrow> 'm test_state" where
  "addr_error p1 p2 good bad w = w\<lparr>reports := Addr_Error p1 p2 good bad # reports w\<rparr>"

text \<open>The check of the first address after each write to a second one; \<open>continue\<close> goes on with the next mask.\<close>

definition walk_check :: "'m ram_ops \<Rightarrow> u64 \<Rightarrow> ptr \<Rightarrow> ptr \<Rightarrow> 'm test_state \<Rightarrow> 'm test_state" where
  "walk_check ram invert p1 p2 w =
     (let expect = invert XOR byte_addr p1;
          w1 = put_word ram p2 (NOT invert XOR byte_addr p2) w;
          actual = read_word ram p1 (memory w1)
      in if actual \<noteq> expect then put_word ram p1 expect (addr_error p1 p2 expect actual w1) else w1)"

primrec walk_second :: "'m ram_ops \<Rightarrow> u64 \<Rightarrow> ptr \<Rightarrow> ptr \<Rightarrow> ptr \<Rightarrow> u64 list \<Rightarrow> 'm test_state \<Rightarrow> 'm test_state" where
  "walk_second ram invert pb pe p1 [] w = w"
| "walk_second ram invert pb pe p1 (mask2 # masks) w =
     (let p2 = walk_ptr pb mask2
      in if p2 = p1 then walk_second ram invert pb pe p1 masks w
         else if p2 > pe then w
         else walk_second ram invert pb pe p1 masks (walk_check ram invert p1 p2 w))"

primrec walk_first :: "'m ram_ops \<Rightarrow> u64 \<Rightarrow> ptr \<Rightarrow> ptr \<Rightarrow> u64 list \<Rightarrow> 'm test_state \<Rightarrow> 'm test_state" where
  "walk_first ram invert pb pe [] w = w"
| "walk_first ram invert pb pe (mask1 # masks) w =
     (let p1 = walk_ptr pb mask1
      in if p1 > pe then w
         else walk_first ram invert pb pe masks
           (walk_second ram invert pb pe p1 walk_masks (put_word ram p1 (invert XOR byte_addr p1) w)))"

definition walk_segment :: "'m ram_ops \<Rightarrow> u64 \<Rightarrow> vm_map_t \<Rightarrow> 'm test_state \<Rightarrow> 'm test_state" where
  "walk_segment ram invert seg w = walk_first ram invert (vm_start seg) (vm_end seg) walk_masks w"

definition walk_round :: "'m ram_ops \<Rightarrow> int \<Rightarrow> (nat \<Rightarrow> bool) \<Rightarrow> vm_map_t list \<Rightarrow> u64 \<Rightarrow> 'm test_run" where
  "walk_round ram cpu bail segs invert st =
     (let st1 = st\<lparr>ticks := ticks st + 1\<rparr>
      in if cpu < 0 then (False, st1)
         else (let st2 = do_tick (st1\<lparr>work := fold (walk_segment ram invert) segs (work st1)\<rparr>)
               in (bail (tick_calls st2), st2)))"

definition test_addr_walk1 :: "'m ram_ops \<Rightarrow> int \<Rightarrow> (nat \<Rightarrow> bool) \<Rightarrow> vm_map_t list \<Rightarrow> 'm test_run" where
  "test_addr_walk1 ram cpu bail segs = for_each (walk_round ram cpu bail segs) [0, NOT 0]"

section \<open>Strides\<close>

text \<open>
  \<open>do { body(p); } while (p <= (pe - n) && (p += n));\<close> with the pointer it leaves. The sum \<open>p + n\<close> is compared over
  unbounded addresses, because \<open>pe - n\<close> below the address 0 is undefined in C; then \<open>p += n\<close> does not wrap and is not
  null. A stride of 0 is not modelled: it is \<open>MODULO_N\<close>, 16 or 2.
\<close>

function stride_words :: "nat \<Rightarrow> (ptr \<Rightarrow> 's \<Rightarrow> 's) \<Rightarrow> ptr \<Rightarrow> ptr \<Rightarrow> 's \<Rightarrow> ptr \<times> 's" where
  "stride_words n body p pe w =
     (if 0 < n \<and> unat p + n \<le> unat pe then stride_words n body (p + of_nat n) pe (body p w) else (p, body p w))"
  by pat_completeness auto
termination
proof (relation "measure (\<lambda>(_, _, p, pe, _). unat pe - unat p)")
  fix n and p pe :: ptr
  assume a: "0 < n \<and> unat p + n \<le> unat pe"
  have "unat pe < 2 ^ LENGTH(61)" by (rule unsigned_less)
  then have pe: "unat pe < 2 ^ 61" by simp
  then have "unat (of_nat n :: ptr) = n" using a by (intro unat_of_nat_small) simp
  then have "unat (p + of_nat n) = unat p + n" using a pe by (simp add: unat_word_ariths)
  then show "\<And>body w. ((n, body, p + of_nat n, pe, body p w), n, body, p, pe, w) \<in> measure (\<lambda>(_, _, p, pe, _). unat pe - unat p)"
    using a by (simp add: diff_less_mono2)
qed auto

declare stride_words.simps [simp del]

text \<open>A loop with a variable of its own, beside the state of the test.\<close>

definition with_local :: "'l \<Rightarrow> (('l \<times> 's) scan_state \<Rightarrow> bool \<times> ('l \<times> 's) scan_state) \<Rightarrow> 's scan_state \<Rightarrow> bool \<times> 's scan_state" where
  "with_local l f st =
     (let (bailed, st1) = f \<lparr>work = (l, work st), ticks = ticks st, tick_calls = tick_calls st\<rparr>
      in (bailed, \<lparr>work = snd (work st1), ticks = ticks st1, tick_calls = tick_calls st1\<rparr>))"

section \<open>Modulo-n test\<close>

definition stride_chunk ::
  "chunk_config \<Rightarrow> int \<Rightarrow> (nat \<Rightarrow> bool) \<Rightarrow> nat \<Rightarrow> nat \<Rightarrow> (ptr \<Rightarrow> 'm test_state \<Rightarrow> 'm test_state) \<Rightarrow> vm_map_t \<Rightarrow> 'm test_run"
where
  "stride_chunk cfg cpu bail n offset body seg st =
     (let (s, e) = calculate_chunk cfg cpu seg 8
      in if sint (e - s) < int n - 1 then SKIP_RANGE cpu bail 1 st
         else up_scan cpu bail (stride_words n body) (s + of_nat offset) s (e - of_nat n) st)"

definition other_word :: "'m ram_ops \<Rightarrow> nat \<Rightarrow> nat \<Rightarrow> u64 \<Rightarrow> ptr \<Rightarrow> nat \<times> 'm test_state \<Rightarrow> nat \<times> 'm test_state" where
  "other_word ram n offset v p kw =
     (let (k, w) = kw; w1 = (if k \<noteq> offset then put_word ram p v w else w); k1 = k + 1
      in (if k1 = n then 0 else k1, w1))"

definition others_chunk ::
  "'m ram_ops \<Rightarrow> chunk_config \<Rightarrow> int \<Rightarrow> (nat \<Rightarrow> bool) \<Rightarrow> nat \<Rightarrow> nat \<Rightarrow> u64 \<Rightarrow> vm_map_t \<Rightarrow> 'm test_run"
where
  "others_chunk ram cfg cpu bail n offset v seg st =
     (let (s, e) = calculate_chunk cfg cpu seg 8
      in if sint (e - s) < int n - 1 then SKIP_RANGE cpu bail 1 st
         else with_local 0 (up_scan cpu bail (up_words (other_word ram n offset v)) s s e) st)"

definition test_modulo_n ::
  "'m ram_ops \<Rightarrow> chunk_config \<Rightarrow> int \<Rightarrow> (nat \<Rightarrow> bool) \<Rightarrow> vm_map_t list \<Rightarrow> int \<Rightarrow> u64 \<Rightarrow> u64 \<Rightarrow> nat \<Rightarrow> nat \<Rightarrow> 'm test_run"
where
  "test_modulo_n ram cfg cpu bail segs iterations pattern1 pattern2 n offset =
     and_then (for_each (stride_chunk cfg cpu bail n offset (\<lambda>p. put_word ram p pattern1)) segs)
       (and_then (for_each (\<lambda>_. for_each (others_chunk ram cfg cpu bail n offset pattern2) segs) [0..<nat iterations])
         (for_each (stride_chunk cfg cpu bail n offset (\<lambda>p. expect_word ram p pattern1)) segs))"

section \<open>Block move\<close>

definition block_words :: "u64 \<Rightarrow> u64 list" where
  "block_words pattern1 =
     (let pattern2 = NOT pattern1
      in [pattern1, pattern1, pattern1, pattern1, pattern2, pattern2, pattern1, pattern1,
          pattern1, pattern1, pattern2, pattern2, pattern1, pattern1, pattern2, pattern2])"

primrec put_words :: "'m ram_ops \<Rightarrow> ptr \<Rightarrow> u64 list \<Rightarrow> 'm test_state \<Rightarrow> 'm test_state" where
  "put_words ram p [] w = w"
| "put_words ram p (v # vs) w = put_words ram (p + 1) vs (put_word ram p v w)"

definition move_init_block :: "'m ram_ops \<Rightarrow> ptr \<Rightarrow> ptr \<Rightarrow> 'm test_state \<Rightarrow> ptr \<times> 'm test_state" where
  "move_init_block ram p pe w =
     (let (p1, _, w1) = stride_words 16 (\<lambda>p (pat, w). (rotate_left pat, put_words ram p (block_words pat) w)) p pe (1, w)
      in (p1, w1))"

text \<open>\<open>rep movsq\<close> with the registers \<open>rsi\<close> and \<open>rdi\<close>; it returns \<open>rsi\<close>.\<close>

primrec movsq :: "'m ram_ops \<Rightarrow> nat \<Rightarrow> ptr \<Rightarrow> ptr \<Rightarrow> 'm test_state \<Rightarrow> ptr \<times> 'm test_state" where
  "movsq ram 0 rsi rdi w = (rsi, w)"
| "movsq ram (Suc n) rsi rdi w = movsq ram n (rsi + 1) (rdi + 1) (put_word ram rdi (read_word ram rsi (memory w)) w)"

definition move_half :: "'m ram_ops \<Rightarrow> ptr \<Rightarrow> u64 \<Rightarrow> 'm test_state \<Rightarrow> 'm test_state" where
  "move_half ram p half_length w =
     (let pm = p + ucast half_length;
          (_, w1) = movsq ram (unat half_length) p pm w;
          (rsi, w2) = movsq ram (unat (half_length - 8)) pm (p + 8) w1
      in snd (movsq ram 8 rsi p w2))"

definition move_times :: "'m ram_ops \<Rightarrow> int \<Rightarrow> (nat \<Rightarrow> bool) \<Rightarrow> int \<Rightarrow> ptr \<Rightarrow> ptr \<Rightarrow> 'm test_run" where
  "move_times ram cpu bail iterations p pe =
     (let half_length = word_of_int ((sint (pe - p) + 1) sdiv 2)
      in for_each (\<lambda>_ st.
           let st1 = st\<lparr>ticks := ticks st + 1\<rparr>
           in if cpu < 0 then (False, st1)
              else (let st2 = do_tick (st1\<lparr>work := move_half ram p half_length (work st1)\<rparr>)
                    in (bail (tick_calls st2), st2))) [0..<nat iterations])"

text \<open>The loop over blocks: \<open>p\<close> stays at the start of the chunk, so that every block contains those before it.\<close>

function move_scan :: "'m ram_ops \<Rightarrow> int \<Rightarrow> (nat \<Rightarrow> bool) \<Rightarrow> int \<Rightarrow> ptr \<Rightarrow> ptr \<Rightarrow> ptr \<Rightarrow> 'm test_run" where
  "move_scan ram cpu bail iterations p pe e st =
     (let (pe1, at_end) = next_up pe e;
          (bailed, st1) = move_times ram cpu bail iterations p pe1 st
      in if bailed then (True, st1)
         else if at_end \<or> pe1 + 1 = 0 then (False, st1)
         else move_scan ram cpu bail iterations p (pe1 + 1) e st1)"
  by pat_completeness auto
termination
proof (relation "measure (\<lambda>(_, _, _, _, _, pe, e, _). nat (sint (e - pe)))")
  show "((ram, cpu, bail, iterations, p, x + 1, e, st1), ram, cpu, bail, iterations, p, pe, e, st)
      \<in> measure (\<lambda>(_, _, _, _, _, pe, e, _). nat (sint (e - pe)))"
    if "a = next_up pe e" "(x, y) = a" "\<not> (y \<or> x + 1 = 0)"
    for ram cpu bail iterations p pe e st st1 a x y
    using that next_up_measure [of x y pe e] by simp
qed auto

declare move_scan.simps [simp del]

definition move_check :: "'m ram_ops \<Rightarrow> ptr \<Rightarrow> 'm test_state \<Rightarrow> 'm test_state" where
  "move_check ram p w =
     (let p0 = read_word ram p (memory w); p1 = read_word ram (p + 1) (memory w)
      in if p0 \<noteq> p1 then data_error p p0 p1 False w else w)"

definition move_chunk ::
  "chunk_config \<Rightarrow> int \<Rightarrow> (nat \<Rightarrow> bool) \<Rightarrow> nat \<Rightarrow> (ptr \<Rightarrow> ptr \<Rightarrow> 'm test_run) \<Rightarrow> vm_map_t \<Rightarrow> 'm test_run"
where
  "move_chunk cfg cpu bail num_ticks scan seg st =
     (let (s, e) = calculate_chunk cfg cpu seg (16 * 8)
      in if sint (e - s) < 15 then SKIP_RANGE cpu bail num_ticks st else scan s e st)"

definition test_block_move ::
  "'m ram_ops \<Rightarrow> chunk_config \<Rightarrow> int \<Rightarrow> (nat \<Rightarrow> bool) \<Rightarrow> vm_map_t list \<Rightarrow> int \<Rightarrow> 'm test_run"
where
  "test_block_move ram cfg cpu bail segs iterations =
     and_then (for_each (move_chunk cfg cpu bail 1 (\<lambda>s e. up_scan cpu bail (move_init_block ram) s s e)) segs)
       (and_then (for_each (move_chunk cfg cpu bail (nat iterations) (\<lambda>s e. move_scan ram cpu bail iterations s s e)) segs)
         (for_each (move_chunk cfg cpu bail 1 (\<lambda>s e. up_scan cpu bail (stride_words 2 (move_check ram)) s s e)) segs))"

end
