(* ===== verification/Vec_Tests.thy ===== *)
theory Vec_Tests
  imports Stride_Tests
begin

text \<open>
  The vector kernels of \<open>tests/vec_prsg.c\<close>, with their SIMD versions of the x86-64 build (\<open>tests/x86/vec_prsg_*.c\<close>), and the two
  tests that use them: moving inversions with a random sequence (\<open>tests/mov_inv_rng.c\<close>) and bus stress (\<open>tests/bus_stress.c\<close>).
  The state of the lanes is the list of their words. The SSE2 kernels hold a block in two registers and the AVX2 kernels in one;
  both compare, complement, step and store the same four words, so that one definition stands for both. A size is a natural number.
\<close>

section \<open>Lanes\<close>

datatype simd_tier_t = SIMD_NONE | SIMD_SSE2 | SIMD_AVX2 | SIMD_NEON | SIMD_SVE | SIMD_LASX

type_synonym vec_state = "u64 list"

definition VEC_LANES :: nat where "VEC_LANES = 4"
definition VEC_BYTES :: u64 where "VEC_BYTES = 32"

definition lane_salt :: "u64 list" where
  "lane_salt = [0x9e3779b97f4a7c15, 0xbf58476d1ce4e5b9, 0x94d049bb133111eb, 0x2545f4914f6cdd1d]"

text \<open>\<open>for (k = shift; k < 64; k *= 2)\<close>; the shifts are 17, 7 and 13.\<close>

function prsg_undo_lshift :: "u64 \<Rightarrow> nat \<Rightarrow> u64" where
  "prsg_undo_lshift y k = (if 0 < k \<and> k < 64 then prsg_undo_lshift (y XOR push_bit k y) (k * 2) else y)"
  by pat_completeness auto
termination by (relation "measure (\<lambda>(_, k). 64 - k)") auto

function prsg_undo_rshift :: "u64 \<Rightarrow> nat \<Rightarrow> u64" where
  "prsg_undo_rshift y k = (if 0 < k \<and> k < 64 then prsg_undo_rshift (y XOR drop_bit k y) (k * 2) else y)"
  by pat_completeness auto
termination by (relation "measure (\<lambda>(_, k). 64 - k)") auto

declare prsg_undo_lshift.simps [simp del] prsg_undo_rshift.simps [simp del]

definition prsg_inverse :: "u64 \<Rightarrow> u64" where
  "prsg_inverse s = prsg_undo_lshift (prsg_undo_rshift (prsg_undo_lshift s 17) 7) 13"

definition seed_lanes :: "u64 \<Rightarrow> bool \<Rightarrow> vec_state" where
  "seed_lanes seed splat =
     (if splat then (let s = (if seed \<noteq> 0 then seed else lane_salt ! 0) in replicate VEC_LANES (prsg s))
      else map (\<lambda>salt. let s = seed XOR salt in prsg (if s = 0 then salt else s)) lane_salt)"

definition step_fwd :: "bool \<Rightarrow> vec_state \<Rightarrow> vec_state" where
  "step_fwd splat st = (if splat then st else map prsg st)"

definition step_back :: "bool \<Rightarrow> vec_state \<Rightarrow> vec_state" where
  "step_back splat st = (if splat then st else map prsg_inverse st)"

section \<open>Scalar kernels\<close>

definition check_word :: "'m ram_ops \<Rightarrow> bool \<Rightarrow> ptr \<Rightarrow> u64 \<Rightarrow> 'm test_state \<Rightarrow> 'm test_state" where
  "check_word ram badram p expect w =
     (let actual = read_word ram p (memory w) in if actual \<noteq> expect then data_error p expect actual badram w else w)"

text \<open>The words of a block: each is checked and then overwritten.\<close>

primrec check_block :: "'m ram_ops \<Rightarrow> bool \<Rightarrow> ptr \<Rightarrow> (u64 \<times> u64) list \<Rightarrow> 'm test_state \<Rightarrow> 'm test_state" where
  "check_block ram badram p [] w = w"
| "check_block ram badram p (ev # evs) w =
     check_block ram badram (p + 1) evs (put_word ram p (snd ev) (check_word ram badram p (fst ev) w))"

definition fwd_block :: "'m ram_ops \<Rightarrow> bool \<Rightarrow> ptr \<Rightarrow> vec_state \<Rightarrow> 'm test_state \<Rightarrow> 'm test_state" where
  "fwd_block ram badram p st = check_block ram badram p (map (\<lambda>x. (x, NOT x)) st)"

definition rev_block :: "'m ram_ops \<Rightarrow> bool \<Rightarrow> ptr \<Rightarrow> vec_state \<Rightarrow> 'm test_state \<Rightarrow> 'm test_state" where
  "rev_block ram badram p st = check_block ram badram p (map (\<lambda>x. (NOT x, x)) st)"

primrec vec_fill_scalar :: "'m ram_ops \<Rightarrow> bool \<Rightarrow> nat \<Rightarrow> ptr \<Rightarrow> vec_state \<times> 'm test_state \<Rightarrow> vec_state \<times> 'm test_state" where
  "vec_fill_scalar ram splat 0 p sw = sw"
| "vec_fill_scalar ram splat (Suc n) p sw =
     vec_fill_scalar ram splat n (p + of_nat VEC_LANES) (step_fwd splat (fst sw), put_words ram p (fst sw) (snd sw))"

primrec vec_check_fwd_scalar ::
  "'m ram_ops \<Rightarrow> bool \<Rightarrow> bool \<Rightarrow> nat \<Rightarrow> ptr \<Rightarrow> vec_state \<times> 'm test_state \<Rightarrow> vec_state \<times> 'm test_state"
where
  "vec_check_fwd_scalar ram splat badram 0 p sw = sw"
| "vec_check_fwd_scalar ram splat badram (Suc n) p sw =
     vec_check_fwd_scalar ram splat badram n (p + of_nat VEC_LANES) (step_fwd splat (fst sw), fwd_block ram badram p (fst sw) (snd sw))"

text \<open>The descending check goes through the blocks from the last one to the one at \<open>p\<close>.\<close>

primrec vec_check_rev_scalar ::
  "'m ram_ops \<Rightarrow> bool \<Rightarrow> bool \<Rightarrow> nat \<Rightarrow> ptr \<Rightarrow> vec_state \<times> 'm test_state \<Rightarrow> vec_state \<times> 'm test_state"
where
  "vec_check_rev_scalar ram splat badram 0 p sw = sw"
| "vec_check_rev_scalar ram splat badram (Suc k) p sw =
     (let st = step_back splat (fst sw)
      in vec_check_rev_scalar ram splat badram k p (st, rev_block ram badram (p + of_nat k * of_nat VEC_LANES) st (snd sw)))"

section \<open>SIMD kernels\<close>

definition simd_back :: "u64 \<Rightarrow> u64" where
  "simd_back s =
     (let s1 = s XOR push_bit 17 s; s2 = s1 XOR push_bit 34 s1;
          s3 = s2 XOR drop_bit 7 s2; s4 = s3 XOR drop_bit 14 s3; s5 = s4 XOR drop_bit 28 s4; s6 = s5 XOR drop_bit 56 s5;
          s7 = s6 XOR push_bit 13 s6; s8 = s7 XOR push_bit 26 s7
      in s8 XOR push_bit 52 s8)"

definition load_block :: "'m ram_ops \<Rightarrow> ptr \<Rightarrow> 'm test_state \<Rightarrow> u64 list" where
  "load_block ram p w = map (\<lambda>l. read_word ram (p + of_nat l) (memory w)) [0..<VEC_LANES]"

text \<open>The kernels are \<open>do ... while (++i < n)\<close>: they process at least one block.\<close>

function vec_fill_simd ::
  "'m ram_ops \<Rightarrow> bool \<Rightarrow> nat \<Rightarrow> nat \<Rightarrow> ptr \<Rightarrow> vec_state \<times> 'm test_state \<Rightarrow> vec_state \<times> 'm test_state"
where
  "vec_fill_simd ram splat n i p sw =
     (let sw1 = (step_fwd splat (fst sw), put_words ram p (fst sw) (snd sw))
      in if i + 1 < n then vec_fill_simd ram splat n (i + 1) (p + of_nat VEC_LANES) sw1 else sw1)"
  by pat_completeness auto
termination by (relation "measure (\<lambda>(_, _, n, i, _). n - i)") auto

function vec_scan_fwd ::
  "'m ram_ops \<Rightarrow> bool \<Rightarrow> nat \<Rightarrow> nat \<Rightarrow> ptr \<Rightarrow> vec_state \<times> 'm test_state \<Rightarrow> nat \<times> vec_state \<times> 'm test_state"
where
  "vec_scan_fwd ram splat n don p sw =
     (if load_block ram p (snd sw) \<noteq> fst sw then (don, sw)
      else (let sw1 = (step_fwd splat (fst sw), put_words ram p (map NOT (fst sw)) (snd sw))
            in if don + 1 < n then vec_scan_fwd ram splat n (don + 1) (p + of_nat VEC_LANES) sw1 else (don + 1, sw1)))"
  by pat_completeness auto
termination by (relation "measure (\<lambda>(_, _, n, d, _). n - d)") auto

function vec_scan_rev ::
  "'m ram_ops \<Rightarrow> bool \<Rightarrow> nat \<Rightarrow> nat \<Rightarrow> ptr \<Rightarrow> vec_state \<times> 'm test_state \<Rightarrow> nat \<times> vec_state \<times> 'm test_state"
where
  "vec_scan_rev ram splat n don q sw =
     (let st = (if splat then fst sw else map simd_back (fst sw))
      in if load_block ram q (snd sw) \<noteq> map NOT st then (don, st, snd sw)
         else (let sw1 = (st, put_words ram q st (snd sw))
               in if don + 1 < n then vec_scan_rev ram splat n (don + 1) (q - of_nat VEC_LANES) sw1 else (don + 1, sw1)))"
  by pat_completeness auto
termination by (relation "measure (\<lambda>(_, _, n, d, _). n - d)") auto

declare vec_fill_simd.simps [simp del] vec_scan_fwd.simps [simp del] vec_scan_rev.simps [simp del]

section \<open>Dispatch\<close>

definition vec_fill ::
  "simd_tier_t \<Rightarrow> 'm ram_ops \<Rightarrow> bool \<Rightarrow> nat \<Rightarrow> ptr \<Rightarrow> vec_state \<times> 'm test_state \<Rightarrow> vec_state \<times> 'm test_state"
where
  "vec_fill tier ram splat nblocks p sw =
     (if tier = SIMD_AVX2 \<or> tier = SIMD_SSE2 then vec_fill_simd ram splat nblocks 0 p sw
      else vec_fill_scalar ram splat nblocks p sw)"

text \<open>The scan stops at a mismatch; the scalar kernel reports it, and the scan is resumed.\<close>

function vec_check_fwd_simd ::
  "'m ram_ops \<Rightarrow> bool \<Rightarrow> bool \<Rightarrow> nat \<Rightarrow> ptr \<Rightarrow> vec_state \<times> 'm test_state \<Rightarrow> vec_state \<times> 'm test_state"
where
  "vec_check_fwd_simd ram splat badram nblocks p sw =
     (if nblocks = 0 then sw
      else (let (don, sw1) = vec_scan_fwd ram splat nblocks 0 p sw;
                p1 = p + of_nat don * of_nat VEC_LANES; n1 = nblocks - don
            in if n1 = 0 then sw1
               else vec_check_fwd_simd ram splat badram (n1 - 1) (p1 + of_nat VEC_LANES)
                 (vec_check_fwd_scalar ram splat badram 1 p1 sw1)))"
  by pat_completeness auto
termination by (relation "measure (\<lambda>(_, _, _, n, _). n)") auto

definition vec_check_fwd ::
  "simd_tier_t \<Rightarrow> 'm ram_ops \<Rightarrow> bool \<Rightarrow> bool \<Rightarrow> nat \<Rightarrow> ptr \<Rightarrow> vec_state \<times> 'm test_state \<Rightarrow> vec_state \<times> 'm test_state"
where
  "vec_check_fwd tier ram splat badram nblocks p sw =
     (if tier \<noteq> SIMD_NONE then vec_check_fwd_simd ram splat badram nblocks p sw
      else vec_check_fwd_scalar ram splat badram nblocks p sw)"

text \<open>In the descending case the lanes were already stepped back to the block that does not match.\<close>

function vec_check_rev_simd ::
  "'m ram_ops \<Rightarrow> bool \<Rightarrow> bool \<Rightarrow> nat \<Rightarrow> ptr \<Rightarrow> vec_state \<times> 'm test_state \<Rightarrow> vec_state \<times> 'm test_state"
where
  "vec_check_rev_simd ram splat badram nblocks q sw =
     (if nblocks = 0 then sw
      else (let (don, sw1) = vec_scan_rev ram splat nblocks 0 q sw;
                q1 = q - of_nat don * of_nat VEC_LANES; n1 = nblocks - don
            in if n1 = 0 then sw1
               else vec_check_rev_simd ram splat badram (n1 - 1) (q1 - of_nat VEC_LANES)
                 (fst sw1, rev_block ram badram q1 (fst sw1) (snd sw1))))"
  by pat_completeness auto
termination by (relation "measure (\<lambda>(_, _, _, n, _). n)") auto

declare vec_check_fwd_simd.simps [simp del] vec_check_rev_simd.simps [simp del]

definition vec_check_rev ::
  "simd_tier_t \<Rightarrow> 'm ram_ops \<Rightarrow> bool \<Rightarrow> bool \<Rightarrow> nat \<Rightarrow> ptr \<Rightarrow> vec_state \<times> 'm test_state \<Rightarrow> vec_state \<times> 'm test_state"
where
  "vec_check_rev tier ram splat badram nblocks p sw =
     (if tier \<noteq> SIMD_NONE then vec_check_rev_simd ram splat badram nblocks (p + (of_nat nblocks - 1) * of_nat VEC_LANES) sw
      else vec_check_rev_scalar ram splat badram nblocks p sw)"

section \<open>Moving inversions, random sequence\<close>

text \<open>\<open>for (q = a; q < b && q <= e; q++)\<close> and \<open>for (q = a; q <= e; q++)\<close>, where \<open>e\<close> is not the last word of the address space.\<close>

function head_words :: "(ptr \<Rightarrow> 's \<Rightarrow> 's) \<Rightarrow> ptr \<Rightarrow> ptr \<Rightarrow> ptr \<Rightarrow> 's \<Rightarrow> 's" where
  "head_words body q b e w = (if q < b \<and> q \<le> e then head_words body (q + 1) b e (body q w) else w)"
  by pat_completeness auto
termination by (relation "measure (\<lambda>(_, q, b, _). unat b - unat q)") (auto intro: word_dist_less)

function tail_words :: "(ptr \<Rightarrow> 's \<Rightarrow> 's) \<Rightarrow> ptr \<Rightarrow> ptr \<Rightarrow> 's \<Rightarrow> 's" where
  "tail_words body q e w = (if q < e then tail_words body (q + 1) e (body q w) else if q = e then body q w else w)"
  by pat_completeness auto
termination by (relation "measure (\<lambda>(_, q, e, _). unat e - unat q)") (auto intro: word_dist_less)

declare head_words.simps [simp del] tail_words.simps [simp del]

text \<open>The aligned body of a chunk: its start and the number of its words.\<close>

definition vec_body :: "ptr \<Rightarrow> ptr \<Rightarrow> ptr \<times> nat" where
  "vec_body s e =
     (let bstart = word_ptr (round_up (byte_addr s) VEC_BYTES);
          nwords = (if bstart \<le> e then unat (e - bstart) + 1 else 0)
      in (bstart, nwords - nwords mod VEC_LANES))"

definition edit_work :: "int \<Rightarrow> ('s \<Rightarrow> 's) \<Rightarrow> 's scan_state \<Rightarrow> 's scan_state" where
  "edit_work cpu f st = (if cpu \<ge> 0 then st\<lparr>work := f (work st)\<rparr> else st)"

definition blocks_up :: "(nat \<Rightarrow> ptr \<Rightarrow> 's \<Rightarrow> 's) \<Rightarrow> ptr \<Rightarrow> ptr \<Rightarrow> 's \<Rightarrow> ptr \<times> 's" where
  "blocks_up kern p pe w = (pe + 1, kern ((unat (pe - p) + 1) div VEC_LANES) p w)"

definition blocks_down :: "(nat \<Rightarrow> ptr \<Rightarrow> 's \<Rightarrow> 's) \<Rightarrow> ptr \<Rightarrow> ptr \<Rightarrow> 's \<Rightarrow> ptr \<times> 's" where
  "blocks_down kern p ps w = (ps - 1, kern ((unat (p - ps) + 1) div VEC_LANES) ps w)"

type_synonym 'm vec_run = "(vec_state \<times> 'm test_state) scan_state \<Rightarrow> bool \<times> (vec_state \<times> 'm test_state) scan_state"

definition vec_up_chunk ::
  "chunk_config \<Rightarrow> int \<Rightarrow> (nat \<Rightarrow> bool) \<Rightarrow> (ptr \<Rightarrow> 'm test_state \<Rightarrow> 'm test_state) \<Rightarrow>
    (nat \<Rightarrow> ptr \<Rightarrow> vec_state \<times> 'm test_state \<Rightarrow> vec_state \<times> 'm test_state) \<Rightarrow> vm_map_t \<Rightarrow> 'm vec_run"
where
  "vec_up_chunk cfg cpu bail edge kern seg st =
     (let (s, e) = calculate_chunk cfg cpu seg VEC_BYTES
      in if e < s then SKIP_RANGE cpu bail 1 st
         else (let (bstart, nbody) = vec_body s e;
                   st1 = edit_work cpu (apsnd (\<lambda>w. tail_words edge (bstart + of_nat nbody) e (head_words edge s bstart e w))) st
               in if nbody = 0 then SKIP_RANGE cpu bail 1 st1
                  else up_scan cpu bail (blocks_up kern) bstart bstart (bstart + of_nat (nbody - 1)) st1))"

definition vec_down_chunk ::
  "chunk_config \<Rightarrow> int \<Rightarrow> (nat \<Rightarrow> bool) \<Rightarrow> (ptr \<Rightarrow> 'm test_state \<Rightarrow> 'm test_state) \<Rightarrow>
    (nat \<Rightarrow> ptr \<Rightarrow> vec_state \<times> 'm test_state \<Rightarrow> vec_state \<times> 'm test_state) \<Rightarrow> vm_map_t \<Rightarrow> 'm vec_run"
where
  "vec_down_chunk cfg cpu bail edge kern seg st =
     (let (s, e) = calculate_chunk cfg cpu seg VEC_BYTES
      in if e < s then SKIP_RANGE cpu bail 1 st
         else (let (bstart, nbody) = vec_body s e;
                   st1 = edit_work cpu (apsnd (tail_words edge (bstart + of_nat nbody) e)) st;
                   last_edges = edit_work cpu (apsnd (head_words edge s bstart e))
               in if nbody = 0 then SKIP_RANGE cpu bail 1 (last_edges st1)
                  else (let bend = bstart + of_nat (nbody - 1);
                            (bailed, st2) = down_scan cpu bail (blocks_down kern) bend bend bstart st1
                        in if bailed then (True, st2) else (False, last_edges st2))))"

definition edge_check :: "'m ram_ops \<Rightarrow> u64 \<Rightarrow> u64 \<Rightarrow> ptr \<Rightarrow> 'm test_state \<Rightarrow> 'm test_state" where
  "edge_check ram good new q w = put_word ram q new (check_word ram True q good w)"

definition set_lanes :: "vec_state \<Rightarrow> 'm vec_run" where
  "set_lanes l st = (False, st\<lparr>work := (l, snd (work st))\<rparr>)"

text \<open>\<open>source\<close> is the time stamp counter, or \<open>1 + pass_num\<close> on a CPU without one.\<close>

definition test_mov_inv_rng ::
  "simd_tier_t \<Rightarrow> 'm ram_ops \<Rightarrow> chunk_config \<Rightarrow> int \<Rightarrow> (nat \<Rightarrow> bool) \<Rightarrow> vm_map_t list \<Rightarrow> u64 \<Rightarrow> bool \<Rightarrow> 'm test_run"
where
  "test_mov_inv_rng tier ram cfg cpu bail segs source splat =
     (let lanes = seed_lanes (source * 0x12345678) splat; epat = lanes ! 0
      in with_local lanes
          (and_then (for_each (vec_up_chunk cfg cpu bail (\<lambda>q. put_word ram q epat) (vec_fill tier ram splat)) segs)
            (and_then (set_lanes lanes)
              (and_then (for_each (vec_up_chunk cfg cpu bail (edge_check ram epat (NOT epat)) (vec_check_fwd tier ram splat True)) segs)
                (for_each (vec_down_chunk cfg cpu bail (edge_check ram (NOT epat) epat) (vec_check_rev tier ram splat True)) (rev segs))))))"

section \<open>Bus stress\<close>

definition bus_mix :: "u64 \<Rightarrow> u64" where
  "bus_mix x0 =
     (let x1 = x0 XOR drop_bit 30 x0;
          x2 = x1 * 0xbf58476d1ce4e5b9;
          x3 = x2 XOR drop_bit 27 x2;
          x4 = x3 * 0x94d049bb133111eb
      in x4 XOR drop_bit 31 x4)"

definition bus_seed :: "int \<Rightarrow> int \<Rightarrow> int \<Rightarrow> int \<Rightarrow> u64" where
  "bus_seed pass_num iteration segment half =
     bus_mix ((1 + word_of_int pass_num) * 0x9e3779b97f4a7c15 + (1 + word_of_int iteration) * 0xbf58476d1ce4e5b9
       + word_of_int (3 * segment + half + 1) * 0x94d049bb133111eb)"

text \<open>The bursts; the idle gaps have no effect on the state. The two streams have their own lanes, \<open>str\<close> may be missing.\<close>

function bursts ::
  "simd_tier_t \<Rightarrow> 'm ram_ops \<Rightarrow> nat \<Rightarrow> ptr \<Rightarrow> nat \<Rightarrow> vec_state \<Rightarrow> ptr \<Rightarrow> nat \<Rightarrow> vec_state \<Rightarrow> 'm test_state \<Rightarrow> 'm test_state"
where
  "bursts tier ram burst pw nw stw pr nr str w =
     (if 0 < burst \<and> (0 < nw \<or> 0 < nr)
      then (let kw = min nw burst; kr = min nr burst;
                (stw1, w1) = (if kw > 0 then vec_fill tier ram False kw pw (stw, w) else (stw, w));
                (str1, w2) = (if kr > 0 then vec_check_fwd tier ram False False kr pr (str, w1) else (str, w1))
            in bursts tier ram burst (pw + of_nat kw * of_nat VEC_LANES) (nw - kw) stw1
                 (pr + of_nat kr * of_nat VEC_LANES) (nr - kr) str1 w2)
      else w)"
  by pat_completeness auto
termination by (relation "measure (\<lambda>(_, _, _, _, nw, _, _, nr, _). nw + nr)") (auto simp: min_def)

declare bursts.simps [simp del]

definition burst_interleave ::
  "simd_tier_t \<Rightarrow> 'm ram_ops \<Rightarrow> nat \<Rightarrow> ptr \<Rightarrow> nat \<Rightarrow> vec_state \<Rightarrow> ptr \<Rightarrow> nat \<Rightarrow> vec_state option \<Rightarrow> 'm test_state \<Rightarrow> 'm test_state"
where
  "burst_interleave tier ram burst pw nw stw pr nr str w =
     (case str of None \<Rightarrow> bursts tier ram burst pw nw stw pr 0 [] w
      | Some s \<Rightarrow> bursts tier ram burst pw nw stw pr nr s w)"

definition bus_edge :: "'m ram_ops \<Rightarrow> int \<Rightarrow> u64 \<Rightarrow> u64 \<Rightarrow> ptr \<Rightarrow> 'm test_state \<Rightarrow> 'm test_state" where
  "bus_edge ram iteration prev cur q w =
     (let actual = read_word ram q (memory w);
          w1 = (if iteration > 0 \<and> actual \<noteq> prev then data_error q prev actual False w else w)
      in put_word ram q cur w1)"

definition sweep_streams ::
  "simd_tier_t \<Rightarrow> 'm ram_ops \<Rightarrow> int \<Rightarrow> int \<Rightarrow> bool \<Rightarrow> nat \<Rightarrow> int \<Rightarrow> ptr \<Rightarrow> nat \<Rightarrow> 'm test_state \<Rightarrow> 'm test_state"
where
  "sweep_streams tier ram pass_num iteration second burst j bstart nblocks =
     (let nb1 = nblocks div 2; nb2 = nblocks - nb1; h1 = bstart; h2 = bstart + of_nat (nb1 * VEC_LANES);
          lanes = (\<lambda>i half. seed_lanes (bus_seed pass_num i j half) False)
      in if \<not> second
         then (if iteration > 0
               then burst_interleave tier ram burst h1 nb1 (lanes iteration 0) h2 nb2 (Some (lanes (iteration - 1) 1))
               else burst_interleave tier ram burst h1 nb1 (lanes iteration 0) 0 0 None)
         else burst_interleave tier ram burst h2 nb2 (lanes iteration 1) h1 nb1 (Some (lanes iteration 0)))"

definition sweep_segment ::
  "simd_tier_t \<Rightarrow> 'm ram_ops \<Rightarrow> chunk_config \<Rightarrow> int \<Rightarrow> (nat \<Rightarrow> bool) \<Rightarrow> int \<Rightarrow> int \<Rightarrow> bool \<Rightarrow> nat \<Rightarrow> nat \<times> vm_map_t \<Rightarrow> 'm test_run"
where
  "sweep_segment tier ram cfg cpu bail pass_num iteration second burst jseg st =
     (let j = int (fst jseg); (s, e) = calculate_chunk cfg cpu (snd jseg) VEC_BYTES
      in if e < s then SKIP_RANGE cpu bail 1 st
         else (let (bstart, nbody) = vec_body s e;
                   edge = bus_edge ram iteration (bus_seed pass_num (iteration - 1) j 2) (bus_seed pass_num iteration j 2);
                   st1 = (if \<not> second
                          then edit_work cpu (\<lambda>w. tail_words edge (bstart + of_nat nbody) e (head_words edge s bstart e w)) st else st)
               in if nbody = 0 then SKIP_RANGE cpu bail 1 st1
                  else (let st2 = st1\<lparr>ticks := ticks st1 + 1\<rparr>
                        in if cpu < 0 then (False, st2)
                           else (let st3 = do_tick (st2\<lparr>work := sweep_streams tier ram pass_num iteration second burst j bstart
                                   (nbody div VEC_LANES) (work st2)\<rparr>)
                                 in (bail (tick_calls st3), st3)))))"

definition do_sweep ::
  "simd_tier_t \<Rightarrow> 'm ram_ops \<Rightarrow> chunk_config \<Rightarrow> int \<Rightarrow> (nat \<Rightarrow> bool) \<Rightarrow> vm_map_t list \<Rightarrow> int \<Rightarrow> int \<Rightarrow> bool \<Rightarrow> nat \<Rightarrow> 'm test_run"
where
  "do_sweep tier ram cfg cpu bail segs pass_num iteration second burst =
     for_each (sweep_segment tier ram cfg cpu bail pass_num iteration second burst) (enumerate 0 segs)"

definition test_bus_stress ::
  "simd_tier_t \<Rightarrow> 'm ram_ops \<Rightarrow> chunk_config \<Rightarrow> int \<Rightarrow> (nat \<Rightarrow> bool) \<Rightarrow> vm_map_t list \<Rightarrow> int \<Rightarrow> nat \<Rightarrow> 'm test_run"
where
  "test_bus_stress tier ram cfg cpu bail segs pass_num iteration =
     (let burst = 8 * 2 ^ (iteration mod 3)
      in and_then (do_sweep tier ram cfg cpu bail segs pass_num (int iteration) False burst)
           (do_sweep tier ram cfg cpu bail segs pass_num (int iteration) True burst))"

end
