(* ===== verification/Op_Trace.thy ===== *)
theory Op_Trace
  imports Vec_Tests Ram_Contract
begin

text \<open>
  The tests as traces of checks and stores. Rules for the loops over blocks that say what holds after every block
  (\<open>up_scan_rule\<close>, \<open>down_scan_rule\<close>); traces in which every check expects the value stored last; and the words that such a
  trace finds on cells with faults.
\<close>

section \<open>Rules for the loops over blocks\<close>

lemma up_scan_rule:
  fixes S :: "nat \<Rightarrow> ptr \<Rightarrow> 's \<Rightarrow> bool"
  assumes "scan_range pe e" "0 \<le> cpu" "S (unat pe) p (work st)"
    and step: "\<And>a pe1 p w. S a p w \<Longrightarrow> unat pe \<le> a \<Longrightarrow> 2 ^ 27 dvd (a - unat pe) \<Longrightarrow> a \<le> unat pe1 \<Longrightarrow> pe1 \<le> e \<Longrightarrow>
      pe1 = e \<or> 2 ^ 27 dvd (unat pe1 + 1 - a) \<Longrightarrow> S (unat pe1 + 1) (fst (blk p pe1 w)) (snd (blk p pe1 w))"
  shows "\<exists>a p'. a \<le> unat e + 1 \<and> S a p' (work (snd (up_scan cpu bail blk p pe e st))) \<and>
    (\<not> fst (up_scan cpu bail blk p pe e st) \<longrightarrow> a = unat e + 1)"
  using assms(1,3) step
proof (induction "blocks pe e" arbitrary: p pe st)
  case 0
  then show ?case by (simp add: blocks_def)
next
  case (Suc k)
  have le: "pe \<le> e" using Suc.prems(1) by (simp add: scan_range_def)
  show ?case
  proof (cases "2 ^ 27 \<le> unat e - unat pe")
    case False
    note near = next_up_near [OF Suc.prems(1) False]
    have "S (unat e + 1) (fst (blk p e (work st))) (snd (blk p e (work st)))"
      using Suc.prems(2) le by (intro Suc.prems(3)) (simp_all add: word_le_nat_alt)
    moreover have "work (snd (up_scan cpu bail blk p pe e st)) = snd (blk p e (work st))"
      using assms(2) by (simp add: up_scan.simps [of cpu bail blk p pe e st] near Let_def do_tick_def split: prod.split)
    ultimately show ?thesis by (metis le_refl)
  next
    case True
    note far = next_up_far [OF Suc.prems(1) True]
    let ?pe1 = "pe + (SPIN_SIZE - 1)"
    have pe2: "?pe1 + 1 = pe + SPIN_SIZE" by simp
    have spin1: "unat (SPIN_SIZE - 1) = 2 ^ 27 - 1" by (simp add: unat_pred spin_unat)
    have u: "unat ?pe1 = unat pe + (2 ^ 27 - 1)"
      using True unat_ptr_less [of e] spin1 by (simp add: unat_word_ariths)
    obtain p1 w1 where b: "blk p ?pe1 (work st) = (p1, w1)" by fastforce
    have S1: "S (unat ?pe1 + 1) p1 w1"
      using Suc.prems(3) [of "unat pe" p "work st" ?pe1] Suc.prems(2) u far(3) b by (simp add: order_less_imp_le)
    let ?st1 = "do_tick (st\<lparr>ticks := ticks st + 1, work := w1\<rparr>)"
    have w1: "work ?st1 = w1" by (simp add: do_tick_def)
    have scan: "up_scan cpu bail blk p pe e st =
        (if bail (tick_calls ?st1) then (True, ?st1) else up_scan cpu bail blk p1 (pe + SPIN_SIZE) e ?st1)"
      using assms(2) far(1,6) b by (simp add: up_scan.simps [of cpu bail blk p pe e st] Let_def pe2 [simplified])
    have k: "k = blocks (pe + SPIN_SIZE) e" using Suc.hyps(2) far(5) by simp
    have u1: "unat ?pe1 + 1 = unat (pe + SPIN_SIZE)" using word_less_Suc_unat [OF far(3)] pe2 by simp
    have e1: "unat ?pe1 + 1 \<le> unat e + 1" using far(3) by (simp add: word_less_nat_alt)
    show ?thesis
    proof (cases "bail (tick_calls ?st1)")
      case True
      then show ?thesis unfolding scan using S1 e1 w1 by auto
    next
      case False
      have "S (unat (pe + SPIN_SIZE)) p1 (work ?st1)" using S1 u1 w1 by simp
      moreover have "S (unat pe1 + 1) (fst (blk q pe1 w)) (snd (blk q pe1 w))"
        if "S a q w" "unat (pe + SPIN_SIZE) \<le> a" "2 ^ 27 dvd (a - unat (pe + SPIN_SIZE))" "a \<le> unat pe1" "pe1 \<le> e"
          "pe1 = e \<or> 2 ^ 27 dvd (unat pe1 + 1 - a)" for a pe1 q w
      proof (rule Suc.prems(3) [OF that(1) _ _ that(4-6)])
        have s: "unat (pe + SPIN_SIZE) = unat pe + 2 ^ 27" using u u1 by simp
        show "unat pe \<le> a" using that(2) s by simp
        have "a - unat pe = (a - unat (pe + SPIN_SIZE)) + 2 ^ 27" using that(2) s by simp
        then show "2 ^ 27 dvd (a - unat pe)" using that(3) by simp
      qed
      ultimately show ?thesis
        unfolding scan using False Suc.hyps(1) [OF k far(4), of p1 ?st1] by simp
    qed
  qed
qed

lemma down_scan_rule:
  fixes S :: "nat \<Rightarrow> ptr \<Rightarrow> 's \<Rightarrow> bool"
  assumes "scan_range s ps" "0 \<le> cpu" "S (unat ps + 1) p (work st)"
    and step: "\<And>a ps1 p w. S a p w \<Longrightarrow> a \<le> unat ps + 1 \<Longrightarrow> 2 ^ 27 dvd (unat ps + 1 - a) \<Longrightarrow> unat ps1 < a \<Longrightarrow> s \<le> ps1 \<Longrightarrow>
      ps1 = s \<or> 2 ^ 27 dvd (a - unat ps1) \<Longrightarrow> S (unat ps1) (fst (blk p ps1 w)) (snd (blk p ps1 w))"
  shows "\<exists>a p'. unat s \<le> a \<and> S a p' (work (snd (down_scan cpu bail blk p ps s st))) \<and>
    (\<not> fst (down_scan cpu bail blk p ps s st) \<longrightarrow> a = unat s)"
  using assms(1,3) step
proof (induction "blocks s ps" arbitrary: p ps st)
  case 0
  then show ?case by (simp add: blocks_def)
next
  case (Suc k)
  have le: "s \<le> ps" using Suc.prems(1) by (simp add: scan_range_def)
  show ?case
  proof (cases "2 ^ 27 \<le> unat ps - unat s")
    case False
    note near = next_down_near [OF Suc.prems(1) False]
    have "S (unat s) (fst (blk p s (work st))) (snd (blk p s (work st)))"
      using Suc.prems(2) le by (intro Suc.prems(3) [of "unat ps + 1"]) (simp_all add: word_le_nat_alt)
    moreover have "work (snd (down_scan cpu bail blk p ps s st)) = snd (blk p s (work st))"
      using assms(2) by (simp add: down_scan.simps [of cpu bail blk p ps s st] near Let_def do_tick_def split: prod.split)
    ultimately show ?thesis by (metis le_refl)
  next
    case True
    note far = next_down_far [OF Suc.prems(1) True]
    let ?ps1 = "ps - (SPIN_SIZE - 1)"
    have ps2: "?ps1 - 1 = ps - SPIN_SIZE" by simp
    have spin1: "unat (SPIN_SIZE - 1) = 2 ^ 27 - 1" by (simp add: unat_pred spin_unat)
    have "SPIN_SIZE - 1 \<le> ps" using True spin1 by (simp add: word_le_nat_alt)
    then have u: "unat ?ps1 = unat ps - (2 ^ 27 - 1)" using spin1 by (simp add: unat_sub)
    have "SPIN_SIZE \<le> ps" using True by (simp add: word_le_nat_alt spin_unat)
    then have u2: "unat (ps - SPIN_SIZE) = unat ps - 2 ^ 27" by (simp add: unat_sub spin_unat)
    have big: "2 ^ 27 \<le> unat ps" using True by simp
    obtain p1 w1 where b: "blk p ?ps1 (work st) = (p1, w1)" by fastforce
    have S1: "S (unat ?ps1) p1 w1"
    proof -
      have "unat ps + 1 - unat ?ps1 = 2 ^ 27" using u big by simp
      then show ?thesis
        using Suc.prems(3) [of "unat ps + 1" p "work st" ?ps1] Suc.prems(2) u far(2) b by (simp add: order_less_imp_le)
    qed
    let ?st1 = "do_tick (st\<lparr>ticks := ticks st + 1, work := w1\<rparr>)"
    have w1: "work ?st1 = w1" by (simp add: do_tick_def)
    have scan: "down_scan cpu bail blk p ps s st =
        (if bail (tick_calls ?st1) then (True, ?st1) else down_scan cpu bail blk p1 (ps - SPIN_SIZE) s ?st1)"
      using assms(2) far(1,6) b by (simp add: down_scan.simps [of cpu bail blk p ps s st] Let_def ps2 [simplified])
    have k: "k = blocks s (ps - SPIN_SIZE)" using Suc.hyps(2) far(5) by simp
    have u1: "unat (ps - SPIN_SIZE) + 1 = unat ?ps1" using u u2 big by simp
    have e1: "unat s \<le> unat ?ps1" using far(2) by (simp add: word_less_nat_alt)
    show ?thesis
    proof (cases "bail (tick_calls ?st1)")
      case True
      then show ?thesis unfolding scan using S1 e1 w1 by auto
    next
      case False
      have "S (unat (ps - SPIN_SIZE) + 1) p1 (work ?st1)" using S1 u1 w1 by simp
      moreover have "S (unat ps1) (fst (blk q ps1 w)) (snd (blk q ps1 w))"
        if "S a q w" "a \<le> unat (ps - SPIN_SIZE) + 1" "2 ^ 27 dvd (unat (ps - SPIN_SIZE) + 1 - a)" "unat ps1 < a" "s \<le> ps1"
          "ps1 = s \<or> 2 ^ 27 dvd (a - unat ps1)" for a ps1 q w
      proof (rule Suc.prems(3) [OF that(1) _ _ that(4-6)])
        show "a \<le> unat ps + 1" using that(2) u2 by simp
        have "unat ps + 1 - a = (unat (ps - SPIN_SIZE) + 1 - a) + 2 ^ 27" using that(2) u2 big by simp
        then show "2 ^ 27 dvd (unat ps + 1 - a)" using that(3) by simp
      qed
      ultimately show ?thesis
        unfolding scan using False Suc.hyps(1) [OF k far(4), of p1 ?st1] by simp
    qed
  qed
qed

section \<open>Traces\<close>

datatype test_op = Store ptr u64 | Check ptr u64 bool

fun apply_op :: "'m ram_ops \<Rightarrow> test_op \<Rightarrow> 'm test_state \<Rightarrow> 'm test_state" where
  "apply_op ram (Store p v) w = put_word ram p v w"
| "apply_op ram (Check p v badram) w = check_word ram badram p v w"

text \<open>The last value that was stored in each word; a check must expect it.\<close>

primrec track :: "(ptr \<rightharpoonup> u64) \<Rightarrow> test_op list \<Rightarrow> (ptr \<rightharpoonup> u64) option" where
  "track m [] = Some m"
| "track m (x # ops) = (case x of Store p v \<Rightarrow> track (m(p \<mapsto> v)) ops
     | Check p v badram \<Rightarrow> (if m p = Some v then track m ops else None))"

lemma track_append: "track m (xs @ ys) = (case track m xs of None \<Rightarrow> None | Some m1 \<Rightarrow> track m1 ys)"
proof (induction xs arbitrary: m)
  case (Cons x xs)
  then show ?case by (cases x) (auto simp del: fun_upd_apply)
qed simp

lemma track_take: "track m ops \<noteq> None \<Longrightarrow> track m (take n ops) \<noteq> None"
  using track_append [of m "take n ops" "drop n ops"] by (auto split: option.splits)

definition checked :: "test_op list \<Rightarrow> (ptr \<times> u64) set" where
  "checked ops = {(p, v). \<exists>badram. Check p v badram \<in> set ops}"

definition wrong :: "(ptr \<Rightarrow> u64 \<Rightarrow> u64) \<Rightarrow> test_op list \<Rightarrow> ptr set" where
  "wrong g ops = {p. \<exists>v. (p, v) \<in> checked ops \<and> g p v \<noteq> v}"

lemma checked_simps [simp]:
  "checked [] = {}" "checked (Store p v # ops) = checked ops" "checked (Check p v badram # ops) = insert (p, v) (checked ops)"
  "checked (xs @ ys) = checked xs \<union> checked ys"
  by (auto simp: checked_def)

lemma checked_take: "checked (take n ops) \<subseteq> checked ops"
  by (auto simp: checked_def dest: in_set_takeD)

lemma wrong_take: "wrong g (take n ops) \<subseteq> wrong g ops"
  using checked_take [of n ops] by (auto simp: wrong_def)

lemma wrong_sound [simp]: "wrong (\<lambda>_ v. v) ops = {}"
  by (simp add: wrong_def)

lemma check_word_simps [simp]:
  "memory (check_word ram badram p v w) = memory w" "pattern (check_word ram badram p v w) = pattern w"
  "errors_at (check_word ram badram p v w) = errors_at w \<union> (if read_word ram p (memory w) \<noteq> v then {p} else {})"
  by (simp_all add: check_word_def data_error_def Let_def errors_at_def)

lemma errors_at_put [simp]: "errors_at (put_word ram p v w) = errors_at w"
  by (simp add: errors_at_def)

context cell_ram begin

definition agrees :: "(ptr \<Rightarrow> u64 option) \<Rightarrow> 'm test_state \<Rightarrow> bool" where
  "agrees m w \<longleftrightarrow> (\<forall>p v. m p = Some v \<longrightarrow> read_word ram p (memory w) = g p v)"

lemma agrees_empty [simp]: "agrees Map.empty w"
  by (simp add: agrees_def)

lemma trace_run:
  assumes "track m ops = Some m1" "agrees m w"
  shows "agrees m1 (fold (apply_op ram) ops w) \<and> errors_at (fold (apply_op ram) ops w) = errors_at w \<union> wrong g ops"
  using assms
proof (induction ops arbitrary: m w)
  case Nil
  then show ?case by (simp add: wrong_def)
next
  case (Cons x ops)
  show ?case
  proof (cases x)
    case (Store p v)
    have "agrees (m(p \<mapsto> v)) (put_word ram p v w)" using Cons.prems(2) by (simp add: agrees_def)
    from Cons.IH [OF _ this] show ?thesis using Cons.prems(1) Store by (simp add: wrong_def del: fun_upd_apply)
  next
    case (Check p v badram)
    have m: "m p = Some v" "track m ops = Some m1" using Cons.prems(1) Check by (simp_all split: if_splits)
    have rd: "read_word ram p (memory w) = g p v" using m(1) Cons.prems(2) by (simp add: agrees_def)
    have "agrees m (check_word ram badram p v w)" using Cons.prems(2) by (simp add: agrees_def)
    from Cons.IH [OF m(2) this] show ?thesis using rd Check by (auto simp: wrong_def)
  qed
qed

end

lemma track_stores: "track m (map (\<lambda>p. Store p (x p)) ws) = Some (\<lambda>p. if p \<in> set ws then Some (x p) else m p)"
proof (induction ws arbitrary: m)
  case (Cons p ws)
  then show ?case by (simp add: fun_eq_iff del: fun_upd_apply) simp
qed simp

lemma track_checks: "\<forall>p \<in> set ws. m p = Some (x p) \<Longrightarrow> track m (map (\<lambda>p. Check p (x p) badram) ws) = Some m"
  by (induction ws) simp_all

lemma checked_map [simp]:
  "checked (map (\<lambda>p. Store p (x p)) ws) = {}" "checked (map (\<lambda>p. Check p (x p) badram) ws) = (\<lambda>p. (p, x p)) ` set ws"
  by (auto simp: checked_def)

section \<open>What a run finds\<close>

text \<open>
  Started in \<open>P\<close>, the run reports only words of \<open>F\<close> more; when it is not left early it reports all of them and ends in \<open>Q\<close>.
  \<open>h\<close> picks the state of the test out of a state with further variables.
\<close>

definition finds ::
  "('s \<Rightarrow> 'm test_state) \<Rightarrow> ('s \<Rightarrow> bool) \<Rightarrow> ptr set \<Rightarrow> ('s \<Rightarrow> bool) \<Rightarrow> ('s scan_state \<Rightarrow> bool \<times> 's scan_state) \<Rightarrow> bool"
where
  "finds h P F Q f \<longleftrightarrow>
     (\<forall>st. P (work st) \<longrightarrow>
        errors_at (h (work (snd (f st)))) \<subseteq> errors_at (h (work st)) \<union> F \<and>
        (\<not> fst (f st) \<longrightarrow> Q (work (snd (f st))) \<and> errors_at (h (work (snd (f st)))) = errors_at (h (work st)) \<union> F))"

lemma findsI:
  assumes "\<And>st. P (work st) \<Longrightarrow> errors_at (h (work (snd (f st)))) \<subseteq> errors_at (h (work st)) \<union> F \<and>
    (\<not> fst (f st) \<longrightarrow> Q (work (snd (f st))) \<and> errors_at (h (work (snd (f st)))) = errors_at (h (work st)) \<union> F)"
  shows "finds h P F Q f"
  using assms by (simp add: finds_def)

lemma findsD:
  assumes "finds h P F Q f" "P (work st)"
  shows "errors_at (h (work (snd (f st)))) \<subseteq> errors_at (h (work st)) \<union> F"
    "\<not> fst (f st) \<Longrightarrow> Q (work (snd (f st)))"
    "\<not> fst (f st) \<Longrightarrow> errors_at (h (work (snd (f st)))) = errors_at (h (work st)) \<union> F"
  using assms(1) [unfolded finds_def, rule_format, OF assms(2)] by auto

lemma finds_and_then:
  fixes h :: "'s \<Rightarrow> 'm test_state"
  assumes "finds h P F Q f" "finds h Q F1 R f1"
  shows "finds h P (F \<union> F1) R (and_then f f1)"
proof (rule findsI)
  fix st :: "'s scan_state"
  assume P: "P (work st)"
  note 1 = findsD [OF assms(1) P]
  show "errors_at (h (work (snd (and_then f f1 st)))) \<subseteq> errors_at (h (work st)) \<union> (F \<union> F1) \<and>
    (\<not> fst (and_then f f1 st) \<longrightarrow> R (work (snd (and_then f f1 st))) \<and>
      errors_at (h (work (snd (and_then f f1 st)))) = errors_at (h (work st)) \<union> (F \<union> F1))"
  proof (cases "fst (f st)")
    case True
    then show ?thesis using 1(1) by (auto simp: and_then_def Let_def split_def)
  next
    case False
    note 2 = findsD [OF assms(2) 1(2) [OF False]]
    have "and_then f f1 st = f1 (snd (f st))" using False by (simp add: and_then_def Let_def split_def)
    then show ?thesis using 1(3) [OF False] 2 by auto
  qed
qed

lemma finds_weaken:
  "finds h P F Q f \<Longrightarrow> (\<And>w. P' w \<Longrightarrow> P w) \<Longrightarrow> F = F' \<Longrightarrow> (\<And>w. Q w \<Longrightarrow> Q' w) \<Longrightarrow> finds h P' F' Q' f"
  by (simp add: finds_def)

lemma finds_skip: "(\<And>st. work (snd (f st)) = work st) \<Longrightarrow> finds h P {} P f"
  by (simp add: finds_def)

lemma finds_for_each:
  assumes "\<And>i. i < length xs \<Longrightarrow> finds h (P i) (F i) (P (Suc i)) (f (xs ! i))"
  shows "finds h (P 0) (\<Union>i < length xs. F i) (P (length xs)) (for_each f xs)"
  using assms
proof (induction xs arbitrary: P F)
  case Nil
  show ?case by (simp add: finds_skip)
next
  case (Cons x xs)
  have "finds h (P (Suc 0)) (\<Union>i < length xs. F (Suc i)) (P (Suc (length xs))) (for_each f xs)"
    using Cons.prems by (intro Cons.IH [of "\<lambda>i. P (Suc i)" "\<lambda>i. F (Suc i)"]) force
  moreover have "finds h (P 0) (F 0) (P (Suc 0)) (f x)" using Cons.prems [of 0] by simp
  moreover have "(\<Union>i < length (x # xs). F i) = F 0 \<union> (\<Union>i < length xs. F (Suc i))"
    by (simp add: lessThan_Suc_eq_insert_0)
  ultimately show ?case unfolding for_each_Cons by (auto intro: finds_and_then)
qed

text \<open>The case in which the state before and after is described alike.\<close>

lemma finds_loop:
  assumes "\<And>x. x \<in> set xs \<Longrightarrow> finds h P (F x) P (f x)"
  shows "finds h P (\<Union>x \<in> set xs. F x) P (for_each f xs)"
proof -
  have "(\<Union>x \<in> set xs. F x) = (\<Union>i < length xs. F (xs ! i))" by (force simp: in_set_conv_nth)
  then show ?thesis using finds_for_each [of xs h "\<lambda>_. P" "\<lambda>i. F (xs ! i)" f] assms by simp
qed

lemma finds_with_local:
  fixes P :: "'m test_state \<Rightarrow> bool" and l :: 'l
  assumes "finds snd (\<lambda>lw. fst lw = l \<and> P (snd lw)) F (\<lambda>lw. Q (snd lw)) f"
  shows "finds (\<lambda>w. w) P F Q (with_local l f)"
proof (rule findsI)
  fix st :: "'m test_state scan_state"
  assume "P (work st)"
  let ?st = "\<lparr>work = (l, work st), ticks = ticks st, tick_calls = tick_calls st\<rparr>"
  have "fst (work ?st) = l \<and> P (snd (work ?st))" using \<open>P (work st)\<close> by simp
  from findsD [OF assms this] show "errors_at (work (snd (with_local l f st))) \<subseteq> errors_at (work st) \<union> F \<and>
      (\<not> fst (with_local l f st) \<longrightarrow> Q (work (snd (with_local l f st))) \<and>
        errors_at (work (snd (with_local l f st))) = errors_at (work st) \<union> F)"
    by (simp add: with_local_def Let_def split_def)
qed

lemma finds_SKIP: "finds h P {} P (SKIP_RANGE cpu bail n)"
  by (rule finds_skip) (rule SKIP_RANGE_work)

text \<open>A part of a run that makes a trace.\<close>

context cell_ram begin

lemma finds_ops:
  assumes "agrees m (h (work st))" "track m ops = Some m1"
    and "h (work st1) = fold (apply_op ram) ops (h (work st))"
  shows "agrees m1 (h (work st1)) \<and> errors_at (h (work st1)) = errors_at (h (work st)) \<union> wrong g ops"
  using trace_run [OF assms(2,1)] assms(3) by simp

end

end
