(* ===== verification/Stride_Spec.thy ===== *)
theory Stride_Spec
  imports Op_Trace Mem_Tests_Spec
begin

text \<open>
  What the modulo-n test and the walking-ones address test find.
\<close>

section \<open>Chunks of any alignment\<close>

definition span :: "chunk_config \<Rightarrow> int \<Rightarrow> u64 \<Rightarrow> vm_map_t \<Rightarrow> ptr set" where
  "span cfg cpu align seg = (let (s, e) = calculate_chunk cfg cpu seg align in {s..e})"

text \<open>A chunk is a range of words, or empty; and the chunks of the segments are disjoint.\<close>

definition chunks_ok_at :: "chunk_config \<Rightarrow> int \<Rightarrow> u64 \<Rightarrow> vm_map_t list \<Rightarrow> bool" where
  "chunks_ok_at cfg cpu align segs \<longleftrightarrow>
     0 \<le> cpu \<and>
     (\<forall>seg \<in> set segs. let (s, e) = calculate_chunk cfg cpu seg align in scan_range s e \<or> e + 1 = s \<and> 0 < s) \<and>
     (\<forall>i < length segs. \<forall>j < length segs. i \<noteq> j \<longrightarrow> span cfg cpu align (segs ! i) \<inter> span cfg cpu align (segs ! j) = {})"

lemma chunk_cases:
  assumes "chunks_ok_at cfg cpu align segs" "seg \<in> set segs" "calculate_chunk cfg cpu seg align = (s, e)"
  obtains (range) "scan_range s e" "0 \<le> cpu" | (empty) "e < s" "e + 1 = s" "0 < s" "0 \<le> cpu"
proof -
  have c: "scan_range s e \<or> e + 1 = s \<and> 0 < s" "0 \<le> cpu" using assms by (auto simp: chunks_ok_at_def)
  show thesis
  proof (cases "scan_range s e")
    case False
    then have "e + 1 = s" "0 < s" using c by auto
    then have "e < s" using unat_pred [of s] by (auto simp: word_less_nat_alt)
    then show ?thesis using \<open>e + 1 = s\<close> \<open>0 < s\<close> c(2) by (rule empty)
  qed (rule range [OF _ c(2)])
qed

lemma chunks_disjoint:
  assumes "chunks_ok_at cfg cpu align segs" "seg \<in> set segs" "seg1 \<in> set segs"
  shows "seg = seg1 \<or> span cfg cpu align seg \<inter> span cfg cpu align seg1 = {}"
proof -
  obtain i where i: "i < length segs" "segs ! i = seg" using assms(2) by (auto simp: in_set_conv_nth)
  obtain j where j: "j < length segs" "segs ! j = seg1" using assms(3) by (auto simp: in_set_conv_nth)
  show ?thesis
  proof (cases "i = j")
    case True
    then show ?thesis using i(2) j(2) by blast
  next
    case False
    have "\<forall>i < length segs. \<forall>j < length segs. i \<noteq> j \<longrightarrow> span cfg cpu align (segs ! i) \<inter> span cfg cpu align (segs ! j) = {}"
      using assms(1) unfolding chunks_ok_at_def by (elim conjE)
    then show ?thesis using i j False by blast
  qed
qed

lemma sint_chunk:
  assumes "scan_range s e"
  shows "sint (e - s) = int (unat e - unat s)"
proof -
  have le: "s \<le> e" "unat e - unat s < 2 ^ 60" using assms by (auto simp: scan_range_def)
  have "uint (e - s) = int (unat e - unat s)" by (simp only: uint_nat unat_sub [OF le(1)])
  then show ?thesis using sint_ptr_small [of "e - s"] le(2) by simp
qed

lemma sint_empty:
  assumes "e + 1 = (s::ptr)"
  shows "sint (e - s) = - 1"
proof -
  have "e - s = - 1" using assms by (metis add_diff_cancel_left' minus_diff_eq)
  then show ?thesis by simp
qed

section \<open>Strides\<close>

definition strides :: "nat \<Rightarrow> ptr \<Rightarrow> ptr \<Rightarrow> ptr list" where
  "strides n p e = map (\<lambda>k. p + of_nat (k * n)) [0..<Suc ((unat e - unat p) div n)]"

definition last_stride :: "nat \<Rightarrow> ptr \<Rightarrow> ptr \<Rightarrow> ptr" where
  "last_stride n p e = p + of_nat ((unat e - unat p) div n * n)"

lemma word_nat_id: "of_nat (unat w) = (w :: ptr)"
  by simp

lemma unat_ptr_add:
  assumes "unat (p::ptr) + k < 2 ^ 61"
  shows "unat (p + of_nat k) = unat p + k"
proof -
  have "unat (of_nat k :: ptr) = k" using assms by (intro unat_of_nat_small) simp
  then show ?thesis using assms by (simp add: unat_word_ariths)
qed

lemma stride_words_fold:
  assumes "0 < n"
  shows "stride_words n body p pe w = (last_stride n p pe, fold body (strides n p pe) w)"
proof (induction n body p pe w rule: stride_words.induct)
  case (1 n body p pe w)
  show ?case
  proof (cases "0 < n \<and> unat p + n \<le> unat pe")
    case True
    let ?p1 = "p + of_nat n"
    have u: "unat ?p1 = unat p + n" using True unat_ptr_less [of pe] by (intro unat_ptr_add) linarith
    have "(unat pe - unat p) div n = Suc ((unat pe - unat ?p1) div n)"
    proof -
      have "unat pe - unat p = n + (unat pe - unat ?p1)" using True u by linarith
      then show ?thesis using True by (metis div_add_self1 add.commute less_not_refl Suc_eq_plus1)
    qed
    moreover have "[0..<Suc (Suc m)] = 0 # map Suc [0..<Suc m]" for m by (simp add: map_Suc_upt upt_conv_Cons del: upt_Suc)
    ultimately have "strides n p pe = p # strides n ?p1 pe" "last_stride n p pe = last_stride n ?p1 pe"
      by (simp_all add: strides_def last_stride_def comp_def algebra_simps del: upt_Suc)
    then show ?thesis using True 1 by (subst stride_words.simps) simp
  next
    case False
    show ?thesis
    proof (cases "n = 0")
      case True
      then show ?thesis by (subst stride_words.simps) (simp add: strides_def last_stride_def)
    next
      case n: False
      then have "unat pe - unat p < n" using False by linarith
      then have "(unat pe - unat p) div n = 0" by simp
      then have "strides n p pe = [p]" "last_stride n p pe = p" by (simp_all add: strides_def last_stride_def)
      then show ?thesis using False by (subst stride_words.simps) auto
    qed
  qed
qed

lemma set_strides: "set (strides n p e) = (\<lambda>k. p + of_nat (k * n)) ` {..(unat e - unat p) div n}"
  by (auto simp: strides_def simp del: upt_Suc)

lemma atMost_split: "(a::nat) \<le> b \<Longrightarrow> {..b} = {..a} \<union> (\<lambda>k. a + k) ` {..b - a}"
proof (intro set_eqI iffI)
  fix k
  assume "k \<in> {..b}"
  then show "k \<in> {..a} \<union> (\<lambda>k. a + k) ` {..b - a}"
    by (cases "k \<le> a") (auto intro!: image_eqI [of _ _ "k - a"])
qed auto

lemma strides_split:
  assumes "0 < n" "unat e1 \<le> unat e2"
  shows "set (strides n p e2) = set (strides n p e1) \<union> set (strides n (last_stride n p e1) e2)"
    "last_stride n (last_stride n p e1) e2 = last_stride n p e2"
proof -
  let ?q = "last_stride n p e1" and ?K = "(unat e1 - unat p) div n" and ?D = "unat e2 - unat p"
  have q: "?q = p + of_nat (?K * n)" by (simp add: last_stride_def)
  have d: "(unat e2 - unat ?q) div n = ?D div n - ?K \<and> ?K \<le> ?D div n"
  proof (cases "unat p \<le> unat e1")
    case True
    have le: "?K * n \<le> unat e1 - unat p" by simp
    then have "unat p + ?K * n < 2 ^ 61" using True unat_ptr_less [of e1] by linarith
    then have u: "unat ?q = unat p + ?K * n" unfolding q by (rule unat_ptr_add)
    have K: "?K \<le> ?D div n" using assms(2) by (intro div_le_mono) simp
    have "unat e2 - unat ?q = ?D - ?K * n" using u by simp
    moreover have "(?D - ?K * n) div n = ?D div n - ?K"
    proof -
      have "?K * n \<le> ?D" using le assms(2) by linarith
      then have "?D = (?D - ?K * n) + ?K * n" by simp
      then have "?D div n = (?D - ?K * n) div n + ?K" using assms(1) by (metis add.commute div_mult_self1 less_not_refl)
      then show ?thesis by simp
    qed
    ultimately show ?thesis using K by simp
  next
    case False
    then show ?thesis using q by simp
  qed
  have sum: "?q + of_nat (k * n) = p + of_nat ((?K + k) * n)" for k
    by (simp add: q algebra_simps)
  have "{..?D div n} = {..?K} \<union> (\<lambda>k. ?K + k) ` {..?D div n - ?K}" by (rule atMost_split) (use d in simp)
  then show "set (strides n p e2) = set (strides n p e1) \<union> set (strides n ?q e2)"
    unfolding set_strides using d sum by (simp add: image_Un image_image)
  have "?q + of_nat ((unat e2 - unat ?q) div n * n) = p + of_nat (?D div n * n)"
    unfolding sum using d by simp
  then show "last_stride n ?q e2 = last_stride n p e2" by (simp add: last_stride_def)
qed

lemma up_scan_strides:
  assumes "0 < n" "0 \<le> cpu" "scan_range s e"
  shows "\<exists>ws. work (snd (up_scan cpu bail (stride_words n body) p s e st)) = fold body ws (work st) \<and>
    set ws \<subseteq> set (strides n p e) \<and>
    (\<not> fst (up_scan cpu bail (stride_words n body) p s e st) \<longrightarrow> set ws = set (strides n p e))"
proof -
  let ?r = "up_scan cpu bail (stride_words n body) p s e st"
  define S where "S a q w \<longleftrightarrow> (\<exists>ws. w = fold body ws (work st) \<and>
      (if a = unat s then ws = [] \<and> q = p
       else set ws = set (strides n p (of_nat (a - 1))) \<and> q = last_stride n p (of_nat (a - 1)) \<and> unat s < a))" for a q w
  have "\<exists>a p'. a \<le> unat e + 1 \<and> S a p' (work (snd ?r)) \<and> (\<not> fst ?r \<longrightarrow> a = unat e + 1)"
  proof (rule up_scan_rule [OF assms(3,2)])
    show "S (unat s) p (work st)" by (auto simp: S_def)
  next
    fix a pe1 q w
    assume pre: "S a q w" "unat s \<le> a" "a \<le> unat pe1" "pe1 \<le> e"
    then obtain ws where ws: "w = fold body ws (work st)"
      "if a = unat s then ws = [] \<and> q = p
       else set ws = set (strides n p (of_nat (a - 1))) \<and> q = last_stride n p (of_nat (a - 1)) \<and> unat s < a"
      unfolding S_def by blast
    have r: "stride_words n body q pe1 w = (last_stride n q pe1, fold body (ws @ strides n q pe1) (work st))"
      using ws(1) by (simp add: stride_words_fold [OF assms(1)])
    have e1: "of_nat (unat pe1 + 1 - 1) = pe1" by simp
    have "set (ws @ strides n q pe1) = set (strides n p pe1) \<and> last_stride n q pe1 = last_stride n p pe1"
    proof (cases "a = unat s")
      case True
      then show ?thesis using ws(2) by simp
    next
      case False
      let ?e0 = "of_nat (a - 1) :: ptr"
      have "unat ?e0 \<le> unat pe1"
      proof -
        have "unat ?e0 = a - 1" using pre(3) unat_ptr_less [of pe1] by (intro unat_of_nat_small) simp
        then show ?thesis using pre(3) by simp
      qed
      from strides_split [OF assms(1) this, of p] show ?thesis using ws(2) False by simp
    qed
    then show "S (unat pe1 + 1) (fst (stride_words n body q pe1 w)) (snd (stride_words n body q pe1 w))"
      unfolding S_def r fst_conv snd_conv using pre(2,3) e1 by (intro exI [of _ "ws @ strides n q pe1"]) simp
  qed
  then obtain a p' ws where a: "a \<le> unat e + 1" "\<not> fst ?r \<longrightarrow> a = unat e + 1" "work (snd ?r) = fold body ws (work st)"
      "if a = unat s then ws = [] \<and> p' = p
       else set ws = set (strides n p (of_nat (a - 1))) \<and> p' = last_stride n p (of_nat (a - 1)) \<and> unat s < a"
    unfolding S_def by blast
  have "set ws \<subseteq> set (strides n p e)"
  proof (cases "a = unat s")
    case True
    then show ?thesis using a(4) by simp
  next
    case False
    have "unat (of_nat (a - 1) :: ptr) = a - 1" using a(1) unat_ptr_less [of e] by (intro unat_of_nat_small) simp
    then have "unat (of_nat (a - 1) :: ptr) \<le> unat e" using a(1) by simp
    from strides_split(1) [OF assms(1) this, of p] show ?thesis using a(4) False by auto
  qed
  moreover have "set ws = set (strides n p e)" if "\<not> fst ?r"
  proof -
    have "unat s \<le> unat e" using assms(3) by (simp add: scan_range_def word_le_nat_alt)
    then have "a \<noteq> unat s" "of_nat (a - 1) = e" using a(2) that by simp_all
    then show ?thesis using a(4) by simp
  qed
  ultimately show ?thesis using a(3) by blast
qed

section \<open>The modulo-n test\<close>

text \<open>The words that the test with this offset reads: the last \<open>n\<close> words of a chunk are not among them.\<close>

definition modulo_words :: "nat \<Rightarrow> nat \<Rightarrow> chunk_config \<Rightarrow> int \<Rightarrow> vm_map_t \<Rightarrow> ptr set" where
  "modulo_words n offset cfg cpu seg =
     (let (s, e) = calculate_chunk cfg cpu seg 8
      in {p. \<exists>i. p = s + of_nat i \<and> i mod n = offset \<and> s \<le> e \<and> n \<le> unat e - unat s + 1 \<and>
           (i = offset \<or> i + n \<le> unat e - unat s)})"

lemma modulo_strides:
  assumes c: "calculate_chunk cfg cpu seg 8 = (s, e)" and r: "scan_range s e" "n \<le> unat e - unat s + 1" "offset < n"
  shows "set (strides n (s + of_nat offset) (e - of_nat n)) = modulo_words n offset cfg cpu seg"
proof -
  let ?L = "unat e - unat s"
  have b: "s \<le> e" "unat s \<le> unat e" "0 < unat s" using r(1) by (auto simp: scan_range_def word_le_nat_alt word_less_nat_alt)
  have n61: "n \<le> unat e" using r(2) b by linarith
  have un: "unat (of_nat n :: ptr) = n" using n61 unat_ptr_less [of e] by (intro unat_of_nat_small) simp
  have ue: "unat (e - of_nat n) = unat e - n" using n61 un by (simp add: unat_sub word_le_nat_alt)
  have us: "unat (s + of_nat offset) = unat s + offset" using r(2,3) b unat_ptr_less [of e] by (intro unat_ptr_add) linarith
  let ?K = "(unat e - n - (unat s + offset)) div n"
  have k: "k \<le> ?K \<longleftrightarrow> k = 0 \<or> offset + k * n + n \<le> ?L" for k
  proof (cases "k = 0")
    case False
    have pos: "0 < n" using r(3) by simp
    have "k \<le> ?K \<longleftrightarrow> k * n \<le> unat e - n - (unat s + offset)" using pos by (simp add: less_eq_div_iff_mult_less_eq)
    moreover have "0 < k * n" using False pos by simp
    ultimately show ?thesis using False b by linarith
  qed simp
  have "modulo_words n offset cfg cpu seg = {p. \<exists>i. p = s + of_nat i \<and> i mod n = offset \<and> (i = offset \<or> i + n \<le> ?L)}"
    using c b(1) r(2) by (simp add: modulo_words_def)
  also have "\<dots> = {s + of_nat offset + of_nat (k * n) | k. k \<le> ?K}"
  proof (intro set_eqI iffI)
    fix p
    assume "p \<in> {p. \<exists>i. p = s + of_nat i \<and> i mod n = offset \<and> (i = offset \<or> i + n \<le> ?L)}"
    then obtain i where i: "p = s + of_nat i" "i mod n = offset" "i = offset \<or> i + n \<le> ?L" by blast
    have "i = offset + i div n * n" using i(2) by (metis add.commute div_mult_mod_eq)
    moreover from this have "i div n \<le> ?K" unfolding k using i(3) r(3) by auto
    ultimately show "p \<in> {s + of_nat offset + of_nat (k * n) | k. k \<le> ?K}"
      using i(1) by (intro CollectI exI [of _ "i div n"]) (metis add.assoc of_nat_add)
  next
    fix p
    assume "p \<in> {s + of_nat offset + of_nat (k * n) | k. k \<le> ?K}"
    then obtain j where j: "p = s + of_nat offset + of_nat (j * n)" "j \<le> ?K" by blast
    have "p = s + of_nat (offset + j * n)" using j(1) by simp
    moreover have "(offset + j * n) mod n = offset" using r(3) by simp
    moreover have "offset + j * n = offset \<or> offset + j * n + n \<le> ?L" using j(2) unfolding k by auto
    ultimately show "p \<in> {p. \<exists>i. p = s + of_nat i \<and> i mod n = offset \<and> (i = offset \<or> i + n \<le> ?L)}" by blast
  qed
  finally show ?thesis unfolding set_strides ue us by (auto simp: image_iff)
qed

text \<open>A pass over the strided words of a chunk, also of one that is just long enough.\<close>

lemma stride_chunk_words:
  assumes ok: "chunks_ok_at cfg cpu 8 segs" "seg \<in> set segs" and n: "offset < n"
  shows "\<exists>ws. work (snd (stride_chunk cfg cpu bail n offset body seg st)) = fold body ws (work st) \<and>
    set ws \<subseteq> modulo_words n offset cfg cpu seg \<and>
    (\<not> fst (stride_chunk cfg cpu bail n offset body seg st) \<longrightarrow> set ws = modulo_words n offset cfg cpu seg)"
proof -
  obtain s e where c: "calculate_chunk cfg cpu seg 8 = (s, e)" by fastforce
  have skip: ?thesis if "sint (e - s) < int n - 1" "modulo_words n offset cfg cpu seg = {}"
    using c that by (intro exI [of _ "[]"]) (simp add: stride_chunk_def SKIP_RANGE_work)
  show ?thesis
  proof (cases rule: chunk_cases [OF ok c, case_names range empty])
    case empty
    then have "modulo_words n offset cfg cpu seg = {}" using c by (auto simp: modulo_words_def)
    then show ?thesis using skip sint_empty [of e s] empty n by simp
  next
    case range
    note d = sint_chunk [OF range(1)]
    show ?thesis
    proof (cases "n \<le> unat e - unat s + 1")
      case False
      then have "modulo_words n offset cfg cpu seg = {}" using c by (auto simp: modulo_words_def)
      then show ?thesis using skip d False by simp
    next
      case True
      let ?e = "e - of_nat n" and ?p = "s + of_nat offset"
      have run: "stride_chunk cfg cpu bail n offset body seg st = up_scan cpu bail (stride_words n body) ?p s ?e st"
        using c d True by (simp add: stride_chunk_def)
      note T = modulo_strides [OF c range(1) True n]
      have b: "s \<le> e" "unat s \<le> unat e" "0 < unat s" "unat e - unat s < 2 ^ 60"
        using range(1) by (auto simp: scan_range_def word_le_nat_alt word_less_nat_alt)
      have n61: "n \<le> unat e" using True b by linarith
      have un: "unat (of_nat n :: ptr) = n" using n61 unat_ptr_less [of e] by (intro unat_of_nat_small) simp
      have ue: "unat ?e = unat e - n" using n61 un by (simp add: unat_sub word_le_nat_alt)
      show ?thesis
      proof (cases "n \<le> unat e - unat s")
        case True
        then have "scan_range s ?e" using b ue by (auto simp: scan_range_def word_le_nat_alt word_less_nat_alt)
        from up_scan_strides [OF _ range(2) this, of n bail body ?p st] show ?thesis unfolding run T using n by simp
      next
        case False
        then have "unat ?e + 1 = unat s" using b ue n61 \<open>n \<le> unat e - unat s + 1\<close> by linarith
        then have "?e + 1 = s" by (metis of_nat_1 of_nat_add word_nat_id)
        then have "\<not> word_sle SPIN_SIZE (?e - s)" using sint_empty [of ?e s] by (simp add: word_sle_eq spin_uint)
        then have nx: "next_up s ?e = (?e, True)" by (simp add: next_up_def)
        have pos: "0 < n" using n by simp
        have "work (snd (up_scan cpu bail (stride_words n body) ?p s ?e st)) = fold body (strides n ?p ?e) (work st)"
          using range(2) by (simp add: up_scan.simps [of cpu bail _ ?p s ?e st] nx Let_def do_tick_def stride_words_fold [OF pos])
        then show ?thesis unfolding run T [symmetric] by blast
      qed
    qed
  qed
qed

lemma modulo_words_span: "offset < n \<Longrightarrow> modulo_words n offset cfg cpu seg \<subseteq> span cfg cpu 8 seg"
proof -
  assume n: "offset < n"
  obtain s e where c: "calculate_chunk cfg cpu seg 8 = (s, e)" by fastforce
  have "s + of_nat i \<in> {s..e}" if "s \<le> e" "n \<le> unat e - unat s + 1" "i = offset \<or> i + n \<le> unat e - unat s" for i
  proof -
    have "unat s \<le> unat e" using that(1) by (simp add: word_le_nat_alt)
    then have i: "unat s + i \<le> unat e" using that(2,3) n by linarith
    then have "unat (s + of_nat i) = unat s + i" using unat_ptr_less [of e] by (intro unat_ptr_add) linarith
    then show ?thesis using i by (simp add: word_le_nat_alt)
  qed
  then show ?thesis using c by (auto simp: modulo_words_def span_def)
qed

lemma other_fold:
  assumes "0 < n" "i \<le> j"
  shows "fold (other_word ram n offset v) (map (\<lambda>k. s + of_nat k) [i..<j]) (i mod n, w) =
    (j mod n, fold (\<lambda>p. put_word ram p v) (map (\<lambda>k. s + of_nat k) (filter (\<lambda>k. k mod n \<noteq> offset) [i..<j])) w)"
  using assms(2)
proof (induction j)
  case 0
  then show ?case by simp
next
  case (Suc j)
  show ?case
  proof (cases "i \<le> j")
    case True
    have m: "(if Suc (j mod n) = n then 0 else Suc (j mod n)) = Suc j mod n" by (simp add: mod_Suc)
    show ?thesis using Suc.IH [OF True] True m by (simp add: other_word_def Let_def)
  next
    case False
    then have "i = Suc j" using Suc.prems by simp
    then show ?thesis by simp
  qed
qed

text \<open>The fill of the other words leaves the words of the test as they are.\<close>

lemma others_chunk_words:
  assumes ok: "chunks_ok_at cfg cpu 8 segs" "seg \<in> set segs" and n: "offset < n"
  shows "\<exists>ws. work (snd (others_chunk ram cfg cpu bail n offset v seg st)) = fold (\<lambda>p. put_word ram p v) ws (work st) \<and>
    set ws \<subseteq> span cfg cpu 8 seg - modulo_words n offset cfg cpu seg"
proof -
  obtain s e where c: "calculate_chunk cfg cpu seg 8 = (s, e)" by fastforce
  have skip: ?thesis if "sint (e - s) < int n - 1"
    using c that by (intro exI [of _ "[]"]) (simp add: others_chunk_def SKIP_RANGE_work)
  show ?thesis
  proof (cases rule: chunk_cases [OF ok c, case_names range empty])
    case empty
    then show ?thesis using skip sint_empty [of e s] n by simp
  next
    case range
    note d = sint_chunk [OF range(1)]
    show ?thesis
    proof (cases "n \<le> unat e - unat s + 1")
      case False
      then show ?thesis using skip d by simp
    next
      case True
      let ?st = "\<lparr>work = (0, work st), ticks = ticks st, tick_calls = tick_calls st\<rparr> :: (nat \<times> 'a test_state) scan_state"
      let ?r = "up_scan cpu bail (up_words (other_word ram n offset v)) s s e ?st"
      have run: "work (snd (others_chunk ram cfg cpu bail n offset v seg st)) = snd (work (snd ?r))"
        using c d True by (simp add: others_chunk_def with_local_def Let_def split_def)
      obtain m where m: "work (snd ?r) = fold (other_word ram n offset v) (take m (words s e)) (0, work st)"
        using up_scan_words [OF range(1) word_block_up range(2), of "other_word ram n offset v" bail ?st] by (auto simp: scanned_def)
      let ?L = "Suc (unat e - unat s)"
      have t: "take m (words s e) = map (\<lambda>k. s + of_nat k) [0..<min m ?L]"
        by (simp add: words_def take_map min_def del: upt_Suc)
      let ?ws = "map (\<lambda>k. s + of_nat k) (filter (\<lambda>k. k mod n \<noteq> offset) [0..<min m ?L]) :: ptr list"
      have "work (snd ?r) = (min m ?L mod n, fold (\<lambda>p. put_word ram p v) ?ws (work st))"
        unfolding m t using other_fold [of n 0 "min m ?L" ram offset v s "work st"] n by simp
      then have "work (snd (others_chunk ram cfg cpu bail n offset v seg st)) = fold (\<lambda>p. put_word ram p v) ?ws (work st)"
        unfolding run by simp
      moreover have "set ?ws \<subseteq> span cfg cpu 8 seg - modulo_words n offset cfg cpu seg"
      proof
        fix p
        assume "p \<in> set ?ws"
        then obtain k where k: "p = s + of_nat k" "k mod n \<noteq> offset" "k < ?L" by auto
        have b: "unat s \<le> unat e" using range(1) by (simp add: scan_range_def word_le_nat_alt)
        then have up: "unat p = unat s + k" unfolding k(1) using k(3) unat_ptr_less [of e] by (intro unat_ptr_add) linarith
        have "k = i" if i: "p = s + of_nat i" "n \<le> unat e - unat s + 1" "i = offset \<or> i + n \<le> unat e - unat s" for i
        proof -
          have "unat s + i < 2 ^ 61" using i(2,3) n b unat_ptr_less [of e] by linarith
          then have "unat p = unat s + i" unfolding i(1) by (rule unat_ptr_add)
          then show ?thesis using up by simp
        qed
        then have "p \<notin> modulo_words n offset cfg cpu seg" using c k(2) by (auto simp: modulo_words_def)
        moreover have "p \<in> span cfg cpu 8 seg" using c up b k(3) by (simp add: span_def word_le_nat_alt)
        ultimately show "p \<in> span cfg cpu 8 seg - modulo_words n offset cfg cpu seg" by simp
      qed
      ultimately show ?thesis by blast
    qed
  qed
qed

lemma fold_stores: "fold (apply_op ram) (map (\<lambda>p. Store p (x p)) ws) w = fold (\<lambda>p. put_word ram p (x p)) ws w"
  by (induction ws arbitrary: w) simp_all

lemma expect_check: "expect_word ram p v w = check_word ram True p v w"
  by (simp add: expect_word_def check_word_def)

lemma fold_checks: "fold (apply_op ram) (map (\<lambda>p. Check p (x p) True) ws) w = fold (\<lambda>p. expect_word ram p (x p)) ws w"
  by (induction ws arbitrary: w) (simp_all add: expect_check)

definition filled :: "ptr set \<Rightarrow> u64 \<Rightarrow> ptr \<rightharpoonup> u64" where
  "filled A v = (\<lambda>p. if p \<in> A then Some v else None)"

context cell_ram begin

lemma agrees_stores:
  assumes "agrees m w" "\<And>p y. m1 p = Some y \<Longrightarrow> p \<in> set ws \<and> y = x p \<or> p \<notin> set ws \<and> m p = Some y"
  shows "agrees m1 (fold (\<lambda>p. put_word ram p (x p)) ws w) \<and> errors_at (fold (\<lambda>p. put_word ram p (x p)) ws w) = errors_at w"
proof -
  have run: "agrees (\<lambda>p. if p \<in> set ws then Some (x p) else m p) (fold (\<lambda>p. put_word ram p (x p)) ws w)"
    "errors_at (fold (\<lambda>p. put_word ram p (x p)) ws w) = errors_at w"
    using trace_run [OF track_stores [where x = x and ws = ws] assms(1)] by (simp_all add: fold_stores wrong_def)
  have "agrees m1 (fold (\<lambda>p. put_word ram p (x p)) ws w)"
    unfolding agrees_def
  proof (intro allI impI)
    fix p y
    assume "m1 p = Some y"
    from assms(2) [OF this] have "(if p \<in> set ws then Some (x p) else m p) = Some y" by auto
    then show "read_word ram p (memory (fold (\<lambda>p. put_word ram p (x p)) ws w)) = g p y"
      using run(1) unfolding agrees_def by blast
  qed
  then show ?thesis using run(2) by blast
qed

lemma agrees_checks:
  assumes "agrees m w" "\<forall>p \<in> set ws. m p = Some (x p)"
  shows "agrees m (fold (\<lambda>p. expect_word ram p (x p)) ws w) \<and>
    errors_at (fold (\<lambda>p. expect_word ram p (x p)) ws w) = errors_at w \<union> bad_cells g (set ws) x"
proof -
  have "wrong g (map (\<lambda>p. Check p (x p) True) ws) = bad_cells g (set ws) x" by (auto simp: wrong_def bad_cells_def)
  then show ?thesis using trace_run [OF track_checks [OF assms(2), where badram = True] assms(1)] by (simp add: fold_checks)
qed

lemma modulo_fill:
  assumes "chunks_ok_at cfg cpu 8 segs" "offset < n"
  shows "finds (\<lambda>w. w) (\<lambda>_. True) {} (agrees (filled (\<Union>seg \<in> set segs. modulo_words n offset cfg cpu seg) v))
    (for_each (stride_chunk cfg cpu bail n offset (\<lambda>p. put_word ram p v)) segs)"
proof -
  let ?T = "\<lambda>i. \<Union>j < i. modulo_words n offset cfg cpu (segs ! j)"
  have step: "finds (\<lambda>w. w) (agrees (filled (?T i) v)) {} (agrees (filled (?T (Suc i)) v))
      (stride_chunk cfg cpu bail n offset (\<lambda>p. put_word ram p v) (segs ! i))" if i: "i < length segs" for i
  proof (rule findsI)
    fix st :: "'m test_state scan_state"
    assume P: "agrees (filled (?T i) v) (work st)"
    let ?r = "stride_chunk cfg cpu bail n offset (\<lambda>p. put_word ram p v) (segs ! i) st"
    obtain ws where ws: "work (snd ?r) = fold (\<lambda>p. put_word ram p v) ws (work st)"
        "\<not> fst ?r \<longrightarrow> set ws = modulo_words n offset cfg cpu (segs ! i)"
      using stride_chunk_words [OF assms(1) nth_mem [OF i] assms(2), of bail "\<lambda>p. put_word ram p v" st] by blast
    have "errors_at (work (snd ?r)) = errors_at (work st)"
      using agrees_stores [OF agrees_empty, of Map.empty ws "\<lambda>_. v" "work st"] ws(1) by simp
    moreover have "agrees (filled (?T (Suc i)) v) (work (snd ?r))" if "\<not> fst ?r"
      unfolding ws(1) using ws(2) that
      by (intro agrees_stores [OF P, THEN conjunct1]) (auto simp: filled_def lessThan_Suc split: if_splits)
    ultimately show "errors_at (work (snd ?r)) \<subseteq> errors_at (work st) \<union> {} \<and>
      (\<not> fst ?r \<longrightarrow> agrees (filled (?T (Suc i)) v) (work (snd ?r)) \<and> errors_at (work (snd ?r)) = errors_at (work st) \<union> {})"
      by simp
  qed
  have "?T (length segs) = (\<Union>seg \<in> set segs. modulo_words n offset cfg cpu seg)" by (force simp: in_set_conv_nth)
  then show ?thesis
    by (intro finds_weaken [OF finds_for_each [of segs "\<lambda>w. w" "\<lambda>i. agrees (filled (?T i) v)" "\<lambda>_. {}", OF step]])
      (simp_all add: filled_def agrees_def)
qed

lemma modulo_others:
  fixes v :: u64
  assumes "chunks_ok_at cfg cpu 8 segs" "offset < n"
  defines "m \<equiv> filled (\<Union>seg \<in> set segs. modulo_words n offset cfg cpu seg) v"
  shows "finds (\<lambda>w. w) (agrees m) {} (agrees m) (for_each (others_chunk ram cfg cpu bail n offset v2) segs)"
proof -
  have "finds (\<lambda>w. w) (agrees m) {} (agrees m) (others_chunk ram cfg cpu bail n offset v2 seg)" if seg: "seg \<in> set segs" for seg
  proof (rule findsI)
    fix st :: "'m test_state scan_state"
    assume P: "agrees m (work st)"
    let ?r = "others_chunk ram cfg cpu bail n offset v2 seg st"
    obtain ws where ws: "work (snd ?r) = fold (\<lambda>p. put_word ram p v2) ws (work st)"
        "set ws \<subseteq> span cfg cpu 8 seg - modulo_words n offset cfg cpu seg"
      using others_chunk_words [OF assms(1) seg assms(2), of ram bail v2 st] by blast
    have "p \<notin> set ws" if p: "m p = Some y" for p y
    proof -
      obtain seg1 where s1: "seg1 \<in> set segs" "p \<in> modulo_words n offset cfg cpu seg1"
        using p by (auto simp: m_def filled_def split: if_splits)
      then have "p \<in> span cfg cpu 8 seg1" using modulo_words_span [OF assms(2)] by blast
      have "seg1 = seg \<or> span cfg cpu 8 seg1 \<inter> span cfg cpu 8 seg = {}" by (rule chunks_disjoint [OF assms(1) s1(1) seg])
      then show ?thesis using ws(2) s1(2) \<open>p \<in> span cfg cpu 8 seg1\<close> by blast
    qed
    then have "agrees m (fold (\<lambda>p. put_word ram p v2) ws (work st)) \<and>
        errors_at (fold (\<lambda>p. put_word ram p v2) ws (work st)) = errors_at (work st)"
      by (intro agrees_stores [OF P]) blast
    then show "errors_at (work (snd ?r)) \<subseteq> errors_at (work st) \<union> {} \<and>
      (\<not> fst ?r \<longrightarrow> agrees m (work (snd ?r)) \<and> errors_at (work (snd ?r)) = errors_at (work st) \<union> {})"
      by (simp only: ws(1) Un_empty_right subset_refl simp_thms)
  qed
  then show ?thesis using finds_loop [of segs "\<lambda>w. w" "agrees m" "\<lambda>_. {}"] by simp
qed

lemma modulo_check:
  assumes "chunks_ok_at cfg cpu 8 segs" "offset < n"
  defines "A \<equiv> \<Union>seg \<in> set segs. modulo_words n offset cfg cpu seg"
  shows "finds (\<lambda>w. w) (agrees (filled A v)) (bad_cells g A (\<lambda>_. v)) (agrees (filled A v))
    (for_each (stride_chunk cfg cpu bail n offset (\<lambda>p. expect_word ram p v)) segs)"
proof -
  have "finds (\<lambda>w. w) (agrees (filled A v)) (bad_cells g (modulo_words n offset cfg cpu seg) (\<lambda>_. v)) (agrees (filled A v))
      (stride_chunk cfg cpu bail n offset (\<lambda>p. expect_word ram p v) seg)" if seg: "seg \<in> set segs" for seg
  proof (rule findsI)
    fix st :: "'m test_state scan_state"
    assume P: "agrees (filled A v) (work st)"
    let ?r = "stride_chunk cfg cpu bail n offset (\<lambda>p. expect_word ram p v) seg st"
    obtain ws where ws: "work (snd ?r) = fold (\<lambda>p. expect_word ram p v) ws (work st)"
        "set ws \<subseteq> modulo_words n offset cfg cpu seg" "\<not> fst ?r \<longrightarrow> set ws = modulo_words n offset cfg cpu seg"
      using stride_chunk_words [OF assms(1) seg assms(2), of bail "\<lambda>p. expect_word ram p v" st] by blast
    have "\<forall>p \<in> set ws. filled A v p = Some v" using ws(2) seg by (auto simp: A_def filled_def)
    from agrees_checks [OF P this]
    show "errors_at (work (snd ?r)) \<subseteq> errors_at (work st) \<union> bad_cells g (modulo_words n offset cfg cpu seg) (\<lambda>_. v) \<and>
      (\<not> fst ?r \<longrightarrow> agrees (filled A v) (work (snd ?r)) \<and>
        errors_at (work (snd ?r)) = errors_at (work st) \<union> bad_cells g (modulo_words n offset cfg cpu seg) (\<lambda>_. v))"
      unfolding ws(1) using ws(3) bad_cells_mono [OF ws(2), of g "\<lambda>_. v"] by auto
  qed
  from finds_loop [OF this] have "finds (\<lambda>w. w) (agrees (filled A v))
      (\<Union>seg \<in> set segs. bad_cells g (modulo_words n offset cfg cpu seg) (\<lambda>_. v)) (agrees (filled A v))
      (for_each (stride_chunk cfg cpu bail n offset (\<lambda>p. expect_word ram p v)) segs)" .
  moreover have "(\<Union>seg \<in> set segs. bad_cells g (modulo_words n offset cfg cpu seg) (\<lambda>_. v)) = bad_cells g A (\<lambda>_. v)"
    by (auto simp: bad_cells_def A_def)
  ultimately show ?thesis by simp
qed

lemma finds_modulo:
  assumes "chunks_ok_at cfg cpu 8 segs" "offset < n"
  shows "finds (\<lambda>w. w) (\<lambda>_. True) (bad_cells g (\<Union>seg \<in> set segs. modulo_words n offset cfg cpu seg) (\<lambda>_. v1)) (\<lambda>_. True)
    (test_modulo_n ram cfg cpu bail segs iterations v1 v2 n offset)"
proof -
  let ?m = "filled (\<Union>seg \<in> set segs. modulo_words n offset cfg cpu seg) v1"
  have "finds (\<lambda>w. w) (agrees ?m) {} (agrees ?m)
      (for_each (\<lambda>_. for_each (others_chunk ram cfg cpu bail n offset v2) segs) [0..<nat iterations])"
    using finds_loop [of "[0..<nat iterations]" "\<lambda>w. w" "agrees ?m" "\<lambda>_. {}"] modulo_others [OF assms] by simp
  from finds_and_then [OF modulo_fill [OF assms] finds_and_then [OF this modulo_check [OF assms]]]
  show ?thesis unfolding test_modulo_n_def by (rule finds_weaken) simp_all
qed

end

text \<open>
  C27: A modulo-n test reports only words of its offset whose cell does not keep the pattern, and all of them if it is not
  abandoned, whatever the other words are filled with in between. The last \<open>n\<close> words of a longer chunk are not tested.
\<close>
theorem modulo_n_finds_faults:
  assumes "chunks_ok_at cfg cpu 8 segs" "offset < n" "reports (work st) = []"
    and "test_modulo_n (faulty_ram (\<lambda>p. p) g) cfg cpu bail segs iterations pattern1 pattern2 n offset st = (bailed, st')"
  defines "F \<equiv> {p \<in> \<Union>seg \<in> set segs. modulo_words n offset cfg cpu seg. g p pattern1 \<noteq> pattern1}"
  shows "errors_at (work st') \<subseteq> F \<and> (\<not> bailed \<longrightarrow> errors_at (work st') = F)"
proof -
  have "errors_at (work st) = {}" using assms(3) by (simp add: errors_at_def)
  then show ?thesis
    using findsD [OF cells.finds_modulo [OF assms(1,2), of g pattern1 bail iterations pattern2], of st] assms(4)
    unfolding F_def bad_cells_def by simp
qed

lemma four_words_ok_at: "chunks_ok_at one_cpu 0 8 four_words"
  by (simp add: chunks_ok_at_def four_words_def calculate_chunk_def one_cpu_def scan_range_def)

lemma four_words_modulo: "modulo_words 2 1 one_cpu 0 (hd four_words) = {0x201}"
proof -
  have "i mod 2 = 1 \<and> (i = 1 \<or> i + 2 \<le> 3) \<longleftrightarrow> i = 1" for i :: nat by auto
  then show ?thesis by (auto simp: modulo_words_def four_words_def calculate_chunk_def one_cpu_def)
qed

theorem modulo_n_finds_faults_witness:
  "errors_at (work (snd (test_modulo_n (faulty_ram (\<lambda>p. p) stuck_cell) one_cpu 0 (\<lambda>_. False) four_words 2 0 (NOT 0) 2 1 blank_state)))
    \<subseteq> {0x201} \<and> stuck_cell 0x201 0 \<noteq> 0"
proof -
  let ?run = "test_modulo_n (faulty_ram (\<lambda>p. p) stuck_cell) one_cpu 0 (\<lambda>_. False) four_words 2 0 (NOT 0) 2 1 blank_state"
  have "errors_at (work (snd ?run)) \<subseteq>
      {p \<in> \<Union>seg \<in> set four_words. modulo_words 2 1 one_cpu 0 seg. stuck_cell p 0 \<noteq> 0}"
    by (rule modulo_n_finds_faults [OF four_words_ok_at _ blank_reports prod.collapse [symmetric], THEN conjunct1]) simp
  then show ?thesis using four_words_modulo by (auto simp: stuck_cell_def four_words_def)
qed

end
