(* ===== verification/Walk_Spec.thy ===== *)
theory Walk_Spec
  imports Stride_Spec
begin

text \<open>
  The walking-ones address test reports exactly the pairs of its addresses that share a cell.
\<close>

definition walk_list :: "ptr \<Rightarrow> ptr \<Rightarrow> u64 list \<Rightarrow> ptr list" where
  "walk_list pb pe ms = takeWhile (\<lambda>p. p \<le> pe) (map (walk_ptr pb) ms)"

definition walk_ptrs :: "vm_map_t \<Rightarrow> ptr list" where
  "walk_ptrs seg = walk_list (vm_start seg) (vm_end seg) walk_masks"

definition other_check :: "'m ram_ops \<Rightarrow> u64 \<Rightarrow> ptr \<Rightarrow> ptr \<Rightarrow> 'm test_state \<Rightarrow> 'm test_state" where
  "other_check ram invert p1 p2 w = (if p2 = p1 then w else walk_check ram invert p1 p2 w)"

lemma walk_list_Cons:
  "walk_list pb pe (x # ms) = (if walk_ptr pb x \<le> pe then walk_ptr pb x # walk_list pb pe ms else [])"
  by (simp add: walk_list_def)

lemma walk_second_fold:
  assumes "p1 \<le> pe"
  shows "walk_second ram invert pb pe p1 ms w = fold (other_check ram invert p1) (walk_list pb pe ms) w"
  using assms by (induction ms arbitrary: w) (auto simp: walk_list_def other_check_def Let_def)

lemma walk_first_fold:
  "walk_first ram invert pb pe ms w =
   fold (\<lambda>p1 w. fold (other_check ram invert p1) (walk_list pb pe walk_masks) (put_word ram p1 (invert XOR byte_addr p1) w))
     (walk_list pb pe ms) w"
proof (induction ms arbitrary: w)
  case Nil
  then show ?case by (simp add: walk_list_def)
next
  case (Cons x ms)
  then show ?case
    using walk_second_fold [of "walk_ptr pb x" pe ram invert pb walk_masks] by (simp add: walk_list_Cons Let_def)
qed

text \<open>Addresses are multiples of 8: the value at one address and the complement at another differ in the lowest bit.\<close>

lemma walk_values_differ: "invert XOR byte_addr p \<noteq> NOT invert XOR byte_addr q"
proof
  assume "invert XOR byte_addr p = NOT invert XOR byte_addr q"
  moreover have "\<not> bit (byte_addr p) 0" "\<not> bit (byte_addr q) 0" by (simp_all add: byte_addr_def bit_push_bit_iff)
  ultimately show False by (metis bit_not_iff bit_xor_iff bit_0 even_not_iff even_xor_iff)
qed

definition walk_error :: "u64 \<Rightarrow> ptr \<Rightarrow> ptr \<Rightarrow> test_error" where
  "walk_error invert p1 p2 = Addr_Error p1 p2 (invert XOR byte_addr p1) (NOT invert XOR byte_addr p2)"

context ram_contract begin

lemma other_checks:
  assumes "\<And>p v. g p v = v" "read_word ram p1 (memory w) = invert XOR byte_addr p1"
  shows "set (reports (fold (other_check ram invert p1) ps w)) =
    set (reports w) \<union> {walk_error invert p1 p2 | p2. p2 \<in> set ps \<and> p2 \<noteq> p1 \<and> dec p2 = dec p1}"
  using assms(2)
proof (induction ps arbitrary: w)
  case Nil
  then show ?case by simp
next
  case (Cons p2 ps)
  let ?w = "other_check ram invert p1 p2 w"
  have step: "read_word ram p1 (memory ?w) = invert XOR byte_addr p1 \<and>
      set (reports ?w) = set (reports w) \<union> (if p2 \<noteq> p1 \<and> dec p2 = dec p1 then {walk_error invert p1 p2} else {})"
    using Cons.prems walk_values_differ [of invert p1 p2]
    by (auto simp: other_check_def walk_check_def addr_error_def walk_error_def Let_def assms(1))
  have "set (reports (fold (other_check ram invert p1) (p2 # ps) w)) =
      set (reports ?w) \<union> {walk_error invert p1 q | q. q \<in> set ps \<and> q \<noteq> p1 \<and> dec q = dec p1}"
    using Cons.IH [of ?w] step by simp
  also have "\<dots> = set (reports w) \<union> {walk_error invert p1 q | q. q \<in> set (p2 # ps) \<and> q \<noteq> p1 \<and> dec q = dec p1}"
    using step by auto
  finally show ?case .
qed

lemma walk_firsts:
  assumes "\<And>p v. g p v = v"
  shows "set (reports (fold (\<lambda>p1 w. fold (other_check ram invert p1) qs (put_word ram p1 (invert XOR byte_addr p1) w)) ps w)) =
    set (reports w) \<union> {walk_error invert p1 p2 | p1 p2. p1 \<in> set ps \<and> p2 \<in> set qs \<and> p2 \<noteq> p1 \<and> dec p2 = dec p1}"
proof (induction ps arbitrary: w)
  case Nil
  then show ?case by simp
next
  case (Cons p1 ps)
  let ?w = "put_word ram p1 (invert XOR byte_addr p1) w"
  have "read_word ram p1 (memory ?w) = invert XOR byte_addr p1" by (simp add: assms)
  from other_checks [OF assms this, of qs] show ?case using Cons.IH by auto
qed

lemma walk_segments:
  assumes "\<And>p v. g p v = v"
  shows "set (reports (fold (walk_segment ram invert) segs w)) = set (reports w) \<union>
    {walk_error invert p1 p2 | p1 p2. \<exists>seg \<in> set segs. p1 \<in> set (walk_ptrs seg) \<and> p2 \<in> set (walk_ptrs seg) \<and> p2 \<noteq> p1 \<and> dec p2 = dec p1}"
proof (induction segs arbitrary: w)
  case Nil
  then show ?case by simp
next
  case (Cons seg segs)
  have "set (reports (walk_segment ram invert seg w)) = set (reports w) \<union>
      {walk_error invert p1 p2 | p1 p2. p1 \<in> set (walk_ptrs seg) \<and> p2 \<in> set (walk_ptrs seg) \<and> p2 \<noteq> p1 \<and> dec p2 = dec p1}"
    unfolding walk_segment_def walk_first_fold walk_ptrs_def by (rule walk_firsts [OF assms])
  then show ?case unfolding fold_Cons comp_def Cons.IH list.set by blast
qed

end





end
