(* ===== verification/Move_Spec.thy ===== *)
theory Move_Spec
  imports Stride_Spec
begin

text \<open>
  The block move on sound RAM: what a round of moves does to the words of a block, that it keeps the pairs of equal words
  which the check looks at, and that the test therefore reports nothing.
\<close>

section \<open>Sound RAM\<close>

text \<open>Every chunk is a whole number of blocks of 16 words.\<close>

definition chunks_of_16 :: "chunk_config \<Rightarrow> int \<Rightarrow> vm_map_t list \<Rightarrow> bool" where
  "chunks_of_16 cfg cpu segs \<longleftrightarrow>
     (\<forall>seg \<in> set segs. let (s, e) = calculate_chunk cfg cpu seg (16 * 8) in s \<le> e \<longrightarrow> 16 dvd (unat e - unat s + 1))"

locale sound_ram = cell_ram ram "\<lambda>_ v. v" for ram :: "'m ram_ops"
begin

definition cell :: "'m test_state \<Rightarrow> ptr \<Rightarrow> u64" where
  "cell w p = read_word ram p (memory w)"

lemma cell_put [simp]: "cell (put_word ram p v w) q = (if q = p then v else cell w q)"
  by (simp add: cell_def)

text \<open>The words from \<open>p\<close> on by their distance from it.\<close>

definition word_at :: "ptr \<Rightarrow> 'm test_state \<Rightarrow> nat \<Rightarrow> u64" where
  "word_at p w i = cell w (p + of_nat i)"

lemma word_at_put:
  assumes "unat p + i < 2 ^ 61" "unat p + j < 2 ^ 61"
  shows "word_at p (put_word ram (p + of_nat j) v w) i = (if i = j then v else word_at p w i)"
proof -
  have "unat (p + of_nat i) = unat p + i" "unat (p + of_nat j) = unat p + j" using assms by (simp_all add: unat_ptr_add)
  then have "p + of_nat i = p + of_nat j \<longleftrightarrow> i = j" by (metis add_left_cancel)
  then show ?thesis by (simp add: word_at_def)
qed

text \<open>The state is changed at most in these words, and no error is reported.\<close>

definition frame :: "ptr set \<Rightarrow> 'm test_state \<Rightarrow> 'm test_state \<Rightarrow> bool" where
  "frame A w w' \<longleftrightarrow> reports w' = reports w \<and> (\<forall>q. q \<notin> A \<longrightarrow> cell w' q = cell w q)"

lemma frame_refl [simp]: "frame A w w"
  by (simp add: frame_def)

lemma frame_trans: "frame A w w1 \<Longrightarrow> frame A w1 w2 \<Longrightarrow> frame A w w2"
  by (simp add: frame_def)

lemma frame_put: "p \<in> A \<Longrightarrow> frame A w (put_word ram p v w)"
  by (auto simp: frame_def)

lemma frame_fold:
  assumes "\<And>x w. x \<in> set xs \<Longrightarrow> frame A w (f x w)"
  shows "frame A w (fold f xs w)"
  using assms by (induction xs arbitrary: w) (auto intro: frame_trans)

section \<open>The moves\<close>

lemma movsq_step:
  "movsq ram (Suc n) (p + of_nat a) (p + of_nat b) w =
   movsq ram n (p + of_nat (Suc a)) (p + of_nat (Suc b)) (put_word ram (p + of_nat b) (word_at p w a) w)"
  by (simp add: algebra_simps word_at_def cell_def)

lemma movsq_source: "fst (movsq ram n (p + of_nat a) (p + of_nat b) w) = p + of_nat (a + n)"
proof (induction n arbitrary: a b w)
  case (Suc n)
  show ?case unfolding movsq_step Suc.IH by simp
qed simp

lemma movsq_frame: "frame ((\<lambda>k. p + of_nat k) ` {b..<b + n}) w (snd (movsq ram n (p + of_nat a) (p + of_nat b) w))"
proof (induction n arbitrary: a b w)
  case (Suc n)
  let ?A = "(\<lambda>k. p + of_nat k) ` {b..<b + Suc n}" and ?w = "put_word ram (p + of_nat b) (word_at p w a) w"
  have sub: "(\<lambda>k. p + of_nat k) ` {Suc b..<Suc b + n} \<subseteq> ?A" by auto
  have "frame ?A w ?w" by (intro frame_put image_eqI [of _ _ b]) simp_all
  moreover have "frame ?A ?w (snd (movsq ram n (p + of_nat (Suc a)) (p + of_nat (Suc b)) ?w))"
    using Suc.IH [of "Suc b" ?w "Suc a"] sub unfolding frame_def by blast
  ultimately show ?case unfolding movsq_step by (rule frame_trans)
qed simp

lemma movsq_words:
  assumes "unat p + N \<le> 2 ^ 61" "a + n \<le> N" "b + n \<le> N" "a + n \<le> b \<or> b + n \<le> a" "i < N"
  shows "word_at p (snd (movsq ram n (p + of_nat a) (p + of_nat b) w)) i =
    (if b \<le> i \<and> i < b + n then word_at p w (a + (i - b)) else word_at p w i)"
  using assms(2-4)
proof (induction n arbitrary: a b w)
  case 0
  then show ?case by auto
next
  case (Suc n)
  let ?w = "put_word ram (p + of_nat b) (word_at p w a) w"
  have put: "word_at p ?w k = (if k = b then word_at p w a else word_at p w k)" if "k < N" for k
    using word_at_put [of p k b] that Suc.prems assms(1) by simp
  have "word_at p (snd (movsq ram (Suc n) (p + of_nat a) (p + of_nat b) w)) i =
      (if Suc b \<le> i \<and> i < Suc b + n then word_at p ?w (Suc a + (i - Suc b)) else word_at p ?w i)"
    unfolding movsq_step using Suc.prems by (intro Suc.IH) auto
  also have "\<dots> = (if b \<le> i \<and> i < b + Suc n then word_at p w (a + (i - b)) else word_at p w i)"
  proof (cases "Suc b \<le> i \<and> i < Suc b + n")
    case True
    then have "Suc a + (i - Suc b) = a + (i - b)" "a + (i - b) < N" "a + (i - b) \<noteq> b" using Suc.prems by auto
    then show ?thesis using True put by simp
  next
    case False
    then show ?thesis using put [OF assms(5)] by auto
  qed
  finally show ?case .
qed

text \<open>A round of moves: the second half becomes the first half, the first half is rotated by eight words.\<close>

lemma move_half_words:
  assumes "unat p + 2 * L \<le> 2 ^ 61" "8 \<le> L" "unat half = L"
  shows "i < L \<Longrightarrow> word_at p (move_half ram p half w) (L + i) = word_at p w i"
    "i < L \<Longrightarrow> word_at p (move_half ram p half w) i = word_at p w ((i + (L - 8)) mod L)"
    "frame ((\<lambda>k. p + of_nat k) ` {..<2 * L}) w (move_half ram p half w)"
proof -
  let ?pm = "p + of_nat L"
  have "unat (ucast half :: ptr) = L" using assms by (subst unat_ucast_small) simp_all
  then have "(ucast half :: ptr) = of_nat L" using word_nat_id [of "ucast half"] by simp
  then have pm: "p + ucast half = ?pm" by simp
  have h8: "unat (half - 8) = L - 8" using assms(2,3) unat_sub [of 8 half] by (simp add: word_le_nat_alt)
  define M where "M = 2 * L - 8"
  define w1 where "w1 = snd (movsq ram L (p + of_nat 0) ?pm w)"
  define w2 where "w2 = snd (movsq ram (L - 8) ?pm (p + of_nat 8) w1)"
  define w3 where "w3 = snd (movsq ram 8 (p + of_nat M) (p + of_nat 0) w2)"
  note m1 = movsq_words [OF assms(1), of 0 L L, where w = w, folded w1_def]
  note m2 = movsq_words [OF assms(1), of L "L - 8" 8, where w = w1, folded w2_def]
  note m3 = movsq_words [OF assms(1), of M 8 0, where w = w2, folded w3_def]
  have "fst (movsq ram (L - 8) ?pm (p + of_nat 8) w1) = p + of_nat (L + (L - 8))" by (rule movsq_source)
  moreover have "L + (L - 8) = M" using assms(2) by (simp add: M_def)
  ultimately have run: "move_half ram p half w = w3"
    unfolding move_half_def Let_def pm h8 assms(3) w3_def w2_def w1_def by (simp add: split_def del: of_nat_mult of_nat_diff)
  have c1: "word_at p w1 k = (if L \<le> k then word_at p w (k - L) else word_at p w k)" if "k < 2 * L" for k
    using m1 [of k] that by simp
  have c2: "word_at p w2 k = (if 8 \<le> k \<and> k < L then word_at p w1 (L + (k - 8)) else word_at p w1 k)" if "k < 2 * L" for k
    using m2 [of k] that assms(2) by simp
  have c3: "word_at p w3 k = (if k < 8 then word_at p w2 (2 * L - 8 + k) else word_at p w2 k)" if "k < 2 * L" for k
    using m3 [of k] that assms(2) by (simp add: M_def)
  show "word_at p (move_half ram p half w) (L + i) = word_at p w i" if "i < L"
    unfolding run using that assms(2) by (simp add: c1 c2 c3)
  show "word_at p (move_half ram p half w) i = word_at p w ((i + (L - 8)) mod L)" if i: "i < L"
  proof (cases "i < 8")
    case True
    then have "(i + (L - 8)) mod L = i + (L - 8)" "2 * L - 8 + i - L = i + (L - 8)" using assms(2) by auto
    then show ?thesis unfolding run using True i assms(2) by (simp add: c1 c2 c3)
  next
    case False
    then have "i + (L - 8) = L + (i - 8)" using assms(2) by simp
    moreover have "(L + (i - 8)) mod L = i - 8" using i by (simp del: Nat.add_diff_assoc)
    ultimately have "(i + (L - 8)) mod L = i - 8" by (simp only:)
    then show ?thesis unfolding run using False i assms(2) by (simp add: c1 c2 c3)
  qed
  have f: "frame ((\<lambda>k. p + of_nat k) ` {..<2 * L}) x y" if "frame ((\<lambda>k. p + of_nat k) ` {b..<b + n}) x y" "b + n \<le> 2 * L" for b n x y
    using that by (auto simp: frame_def image_iff)
  show "frame ((\<lambda>k. p + of_nat k) ` {..<2 * L}) w (move_half ram p half w)"
    unfolding run
  proof (rule frame_trans [OF frame_trans])
    show "frame ((\<lambda>k. p + of_nat k) ` {..<2 * L}) w w1"
      unfolding w1_def by (rule f [OF movsq_frame]) simp
    show "frame ((\<lambda>k. p + of_nat k) ` {..<2 * L}) w1 w2"
      unfolding w2_def by (rule f [OF movsq_frame]) (use assms(2) in simp)
    show "frame ((\<lambda>k. p + of_nat k) ` {..<2 * L}) w2 w3"
      unfolding w3_def by (rule f [OF movsq_frame]) (use assms(2) in simp)
  qed
qed

section \<open>Pairs of equal words\<close>

definition paired :: "ptr \<Rightarrow> nat \<Rightarrow> 'm test_state \<Rightarrow> bool" where
  "paired p N w \<longleftrightarrow> (\<forall>i. 2 * i + 1 < N \<longrightarrow> word_at p w (2 * i) = word_at p w (2 * i + 1))"

lemma put_words_words:
  assumes "unat p + N \<le> 2 ^ 61" "a + length vs \<le> N" "i < N"
  shows "word_at p (put_words ram (p + of_nat a) vs w) i = (if a \<le> i \<and> i < a + length vs then vs ! (i - a) else word_at p w i)"
  using assms(2)
proof (induction vs arbitrary: a w)
  case Nil
  then show ?case by auto
next
  case (Cons v vs)
  have step: "put_words ram (p + of_nat a) (v # vs) w = put_words ram (p + of_nat (Suc a)) vs (put_word ram (p + of_nat a) v w)"
    by (simp add: algebra_simps)
  have put: "word_at p (put_word ram (p + of_nat a) v w) i = (if i = a then v else word_at p w i)"
    using word_at_put [of p i a] Cons.prems assms by simp
  show ?case unfolding step using Cons.IH [of "Suc a"] Cons.prems put by (auto simp: nth_Cons' Suc_diff_le)
qed

lemma put_words_frame: "frame ((\<lambda>k. p + of_nat k) ` {a..<a + length vs}) w (put_words ram (p + of_nat a) vs w)"
proof (induction vs arbitrary: a w)
  case (Cons v vs)
  let ?A = "(\<lambda>k. p + of_nat k) ` {a..<a + length (v # vs)}" and ?w = "put_word ram (p + of_nat a) v w"
  have step: "put_words ram (p + of_nat a) (v # vs) w = put_words ram (p + of_nat (Suc a)) vs ?w"
    by (simp add: algebra_simps)
  have sub: "(\<lambda>k. p + of_nat k) ` {Suc a..<Suc a + length vs} \<subseteq> ?A" by auto
  have "frame ?A w ?w" by (intro frame_put image_eqI [of _ _ a]) simp_all
  moreover have "frame ?A ?w (put_words ram (p + of_nat (Suc a)) vs ?w)"
    using Cons.IH [of "Suc a" ?w] sub unfolding frame_def by blast
  ultimately show ?case unfolding step by (rule frame_trans)
qed simp

lemma frame_range:
  assumes "frame ((\<lambda>k. p + of_nat k) ` {a..<b}) w w'" "b \<le> N"
  shows "frame ((\<lambda>k. p + of_nat k) ` {..<N}) w w'"
  using assms by (auto simp: frame_def image_iff)

lemma frame_word_at:
  assumes "frame ((\<lambda>k. p + of_nat k) ` {..<n}) w w'" "unat p + i < 2 ^ 61" "n \<le> i"
  shows "word_at p w' i = word_at p w i"
proof -
  have "p + of_nat i \<notin> (\<lambda>k. p + of_nat k) ` {..<n}"
  proof
    assume "p + of_nat i \<in> (\<lambda>k. p + of_nat k) ` {..<n}"
    then obtain k where k: "p + of_nat i = p + of_nat k" "k < n" by auto
    have "unat (p + of_nat i) = unat p + i" "unat (p + of_nat k) = unat p + k" using assms(2,3) k(2) by (simp_all add: unat_ptr_add)
    then show False using k assms(3) by simp
  qed
  then show ?thesis using assms(1) by (simp add: frame_def word_at_def)
qed

lemma block_words_paired: "2 * i + 1 < 16 \<Longrightarrow> block_words pat ! (2 * i) = block_words pat ! (2 * i + 1)"
proof -
  assume "2 * i + 1 < (16::nat)"
  then have "i = 0 \<or> i = 1 \<or> i = 2 \<or> i = 3 \<or> i = 4 \<or> i = 5 \<or> i = 6 \<or> i = 7" by linarith
  then show ?thesis by (elim disjE) (simp_all add: block_words_def Let_def)
qed

lemma length_block_words [simp]: "length (block_words pat) = 16"
  by (simp add: block_words_def Let_def)

lemma init_block_paired:
  assumes "unat p + N \<le> 2 ^ 61" "16 * j + 16 \<le> N" "16 * m \<le> N" "paired p (16 * m) w" "j \<le> m"
  shows "paired p (16 * max m (j + 1)) (put_words ram (p + of_nat (16 * j)) (block_words pat) w)"
  unfolding paired_def
proof (intro allI impI)
  fix i
  assume i: "2 * i + 1 < 16 * max m (j + 1)"
  let ?w = "put_words ram (p + of_nat (16 * j)) (block_words pat) w"
  show "word_at p ?w (2 * i) = word_at p ?w (2 * i + 1)"
  proof (cases "16 * j \<le> 2 * i \<and> 2 * i + 1 < 16 * j + 16")
    case True
    obtain k where k: "2 * i = 16 * j + 2 * k" "2 * k + 1 < 16"
    proof
      show "2 * i = 16 * j + 2 * (i - 8 * j)" "2 * (i - 8 * j) + 1 < 16" using True by linarith+
    qed
    have "word_at p ?w (2 * i) = block_words pat ! (2 * k)" "word_at p ?w (2 * i + 1) = block_words pat ! (2 * k + 1)"
      using put_words_words [OF assms(1), of "16 * j" "block_words pat"] assms(2) k by simp_all
    then show ?thesis using block_words_paired [OF k(2)] by simp
  next
    case False
    then have out: "\<not> (16 * j \<le> 2 * i \<and> 2 * i < 16 * j + 16)" "\<not> (16 * j \<le> 2 * i + 1 \<and> 2 * i + 1 < 16 * j + 16)"
      by presburger+
    show ?thesis
    proof (cases "2 * i + 1 < 16 * m")
      case True
      have u: "word_at p ?w k = word_at p w k" if "\<not> (16 * j \<le> k \<and> k < 16 * j + 16)" "k < N" for k
        using put_words_words [OF assms(1), of "16 * j" "block_words pat" k w] assms(2) that by simp
      show ?thesis using u [OF out(1)] u [OF out(2)] True assms(3,4) by (simp add: paired_def)
    next
      case False
      then show ?thesis using i out assms(5) by (auto simp: max_def split: if_splits)
    qed
  qed
qed

section \<open>The three loops over a chunk\<close>

text \<open>A chunk from \<open>p\<close> of \<open>N\<close> words, a multiple of 16.\<close>

lemma init_blocks:
  assumes "unat p + N \<le> 2 ^ 61" "16 * (j + n) \<le> N" "paired p (16 * m) w" "16 * m \<le> N" "j \<le> m"
  shows "\<exists>pat1 w1. fold (\<lambda>q (pat, w). (rotate_left pat, put_words ram q (block_words pat) w))
      (map (\<lambda>k. p + of_nat (16 * (j + k))) [0..<n]) (pat, w) = (pat1, w1) \<and>
    paired p (16 * max m (j + n)) w1 \<and> frame ((\<lambda>k. p + of_nat k) ` {..<N}) w w1"
  using assms(2)
proof (induction n)
  case 0
  have "max m j = m" using assms(5) by simp
  then show ?case using assms(3) by simp
next
  case (Suc n)
  obtain pat1 w1 where w1: "fold (\<lambda>q (pat, w). (rotate_left pat, put_words ram q (block_words pat) w))
      (map (\<lambda>k. p + of_nat (16 * (j + k))) [0..<n]) (pat, w) = (pat1, w1)"
    "paired p (16 * max m (j + n)) w1" "frame ((\<lambda>k. p + of_nat k) ` {..<N}) w w1"
    using Suc by auto
  let ?w2 = "put_words ram (p + of_nat (16 * (j + n))) (block_words pat1) w1"
  have m: "max (max m (j + n)) (j + n + 1) = max m (j + Suc n)" by simp
  have "paired p (16 * max (max m (j + n)) (j + n + 1)) ?w2"
    by (rule init_block_paired [OF assms(1) _ _ w1(2)]) (use Suc.prems assms(4) in \<open>auto simp: max_def\<close>)
  moreover have "frame ((\<lambda>k. p + of_nat k) ` {..<N}) w1 ?w2"
    using Suc.prems by (intro frame_range [OF put_words_frame]) simp
  from frame_trans [OF w1(3) this] have "frame ((\<lambda>k. p + of_nat k) ` {..<N}) w ?w2" .
  ultimately show ?case using w1(1) unfolding m by (simp del: of_nat_mult of_nat_add)
qed

lemma unat_block_end:
  fixes p :: ptr
  assumes "unat p + 16 * m \<le> 2 ^ 61" "0 < m"
  shows "unat (p + of_nat (16 * m - 1)) = unat p + (16 * m - 1)"
  using assms by (intro unat_ptr_add) linarith

lemma move_init_block_paired:
  assumes "unat p + N \<le> 2 ^ 61" "j < n" "16 * n \<le> N" "paired p (16 * m) w" "j \<le> m" "m \<le> n"
  shows "\<exists>w1. move_init_block ram (p + of_nat (16 * j)) (p + of_nat (16 * n - 1)) w = (p + of_nat (16 * (n - 1)), w1) \<and>
    paired p (16 * n) w1 \<and> frame ((\<lambda>k. p + of_nat k) ` {..<N}) w w1"
proof -
  let ?q = "p + of_nat (16 * j)" and ?pe = "p + of_nat (16 * n - 1)"
  have uq: "unat ?q = unat p + 16 * j" using assms(1-3) by (intro unat_ptr_add) linarith
  have ue: "unat ?pe = unat p + (16 * n - 1)" using assms(1-3) by (intro unat_block_end) linarith+
  have d: "(unat ?pe - unat ?q) div 16 = n - j - 1" unfolding uq ue using assms(2) by simp
  have "strides 16 ?q ?pe = map (\<lambda>k. p + of_nat (16 * (j + k))) [0..<n - j]"
  proof -
    have "Suc (n - j - 1) = n - j" using assms(2) by simp
    then show ?thesis unfolding strides_def d by (simp only:) (rule map_cong, simp_all add: algebra_simps)
  qed
  moreover have "last_stride 16 ?q ?pe = p + of_nat (16 * (n - 1))"
  proof -
    have "16 * j + (n - j - 1) * 16 = 16 * (n - 1)" using assms(2) by (simp add: algebra_simps)
    then have "(of_nat (16 * j) :: ptr) + of_nat ((n - j - 1) * 16) = of_nat (16 * (n - 1))" by (metis of_nat_add)
    then show ?thesis unfolding last_stride_def d by (simp only: add.assoc)
  qed
  moreover obtain pat1 w1 where "fold (\<lambda>q (pat, w). (rotate_left pat, put_words ram q (block_words pat) w))
      (map (\<lambda>k. p + of_nat (16 * (j + k))) [0..<n - j]) (1, w) = (pat1, w1)"
    "paired p (16 * max m (j + (n - j))) w1" "frame ((\<lambda>k. p + of_nat k) ` {..<N}) w w1"
    using init_blocks [OF assms(1) _ assms(4), of j "n - j" 1] assms by auto
  moreover have "max m (j + (n - j)) = n" using assms(2,6) by simp
  ultimately show ?thesis unfolding move_init_block_def by (simp add: stride_words_fold)
qed

text \<open>Where a block of the loops may end.\<close>

lemma block_end:
  fixes p e pe1 :: ptr
  assumes "unat e = unat p + (16 * M - 1)" "0 < M" "a = unat p + 16 * m" "a \<le> unat pe1" "pe1 \<le> e" "pe1 = e \<or> 2 ^ 27 dvd (unat pe1 + 1 - a)"
  obtains n where "m < n" "n \<le> M" "pe1 = p + of_nat (16 * n - 1)" "unat pe1 = unat p + (16 * n - 1)"
proof -
  have "\<exists>n. unat pe1 + 1 - a = 16 * n"
  proof (cases "pe1 = e")
    case True
    then have "unat pe1 + 1 - a = 16 * (M - m)" using assms(1-4) by (simp add: algebra_simps)
    then show ?thesis by blast
  next
    case False
    then have d: "2 ^ 27 dvd (unat pe1 + 1 - a)" using assms(6) by blast
    have "(16::nat) dvd 2 ^ 27" by simp
    from dvd_trans [OF this d] have "16 dvd (unat pe1 + 1 - a)" .
    then show ?thesis by (simp add: dvd_def)
  qed
  then obtain k where k: "unat pe1 + 1 - a = 16 * k" by blast
  have u: "unat pe1 = unat p + (16 * (m + k) - 1)" "0 < k" using k assms(3,4) by simp_all
  have "unat pe1 \<le> unat e" using assms(5) by (simp add: word_le_nat_alt)
  then have "16 * (m + k) - 1 \<le> 16 * M - 1" unfolding u(1) assms(1) by simp
  then have "m + k \<le> M" using assms(2) by simp
  moreover have "pe1 = p + of_nat (16 * (m + k) - 1)"
  proof -
    have "unat (p + of_nat (16 * (m + k) - 1)) = unat p + (16 * (m + k) - 1)"
      using u(1) unat_ptr_less [of pe1] by (intro unat_ptr_add) linarith
    then show ?thesis using u(1) by (metis word_unat_eq_iff)
  qed
  ultimately show thesis using that [of "m + k"] u by simp
qed

lemma move_init_scan:
  fixes st :: "'m test_state scan_state"
  assumes "scan_range p e" "0 \<le> cpu" "unat e = unat p + (16 * M - 1)" "0 < M"
    and r_def: "r = up_scan cpu bail (move_init_block ram) p p e st"
  shows "frame ((\<lambda>k. p + of_nat k) ` {..<16 * M}) (work st) (work (snd r)) \<and> (\<not> fst r \<longrightarrow> paired p (16 * M) (work (snd r)))"
proof -
  let ?A = "(\<lambda>k. p + of_nat k) ` {..<16 * M}"
  have N: "unat p + 16 * M \<le> 2 ^ 61" using assms(3,4) unat_ptr_less [of e] by linarith
  define S where "S a q w \<longleftrightarrow> (\<exists>m. a = unat p + 16 * m \<and> q = p + of_nat (16 * (m - 1)) \<and> m \<le> M \<and> paired p (16 * m) w \<and> frame ?A (work st) w)" for a q w
  have "\<exists>a p'. a \<le> unat e + 1 \<and> S a p' (work (snd r)) \<and> (\<not> fst r \<longrightarrow> a = unat e + 1)"
    unfolding r_def
  proof (rule up_scan_rule [OF assms(1,2)])
    show "S (unat p) p (work st)" unfolding S_def by (intro exI [of _ 0]) (simp add: paired_def)
  next
    fix a pe1 q w
    assume pre: "S a q w" "a \<le> unat pe1" "pe1 \<le> e" "pe1 = e \<or> 2 ^ 27 dvd (unat pe1 + 1 - a)"
    obtain m where m: "a = unat p + 16 * m" "q = p + of_nat (16 * (m - 1))" "paired p (16 * m) w" "frame ?A (work st) w"
      using pre(1) unfolding S_def by blast
    obtain n where n: "m < n" "n \<le> M" "pe1 = p + of_nat (16 * n - 1)" "unat pe1 = unat p + (16 * n - 1)"
      using block_end [OF assms(3,4) m(1) pre(2-4)] .
    have "\<exists>w1. move_init_block ram q pe1 w = (p + of_nat (16 * (n - 1)), w1) \<and> paired p (16 * n) w1 \<and> frame ?A w w1"
      unfolding m(2) n(3) by (rule move_init_block_paired [OF N _ _ m(3)]) (use n in auto)
    then obtain w1 where "move_init_block ram q pe1 w = (p + of_nat (16 * (n - 1)), w1)" "paired p (16 * n) w1" "frame ?A w w1"
      by blast
    then show "S (unat pe1 + 1) (fst (move_init_block ram q pe1 w)) (snd (move_init_block ram q pe1 w))"
      unfolding S_def using n m(4) frame_trans by (intro exI [of _ n]) auto
  qed
  then obtain a m where "\<not> fst r \<longrightarrow> a = unat e + 1" "a = unat p + 16 * m" "paired p (16 * m) (work (snd r))" "frame ?A (work st) (work (snd r))"
    unfolding S_def by blast
  moreover from this have "\<not> fst r \<longrightarrow> m = M" using assms(3,4) by simp
  ultimately show ?thesis by blast
qed

lemma move_half_paired:
  assumes "unat p + 16 * M \<le> 2 ^ 61" "0 < n" "n \<le> M" "unat half = 8 * n" "paired p (16 * M) w"
  shows "paired p (16 * M) (move_half ram p half w) \<and> frame ((\<lambda>k. p + of_nat k) ` {..<16 * M}) w (move_half ram p half w)"
proof -
  let ?L = "8 * n" and ?w = "move_half ram p half w"
  have pre: "unat p + 2 * ?L \<le> 2 ^ 61" "8 \<le> ?L" using assms(1-3) by linarith+
  note mh = move_half_words [OF pre assms(4), where w = w]
  have "frame ((\<lambda>k. p + of_nat k) ` {0..<2 * ?L}) w ?w" using mh(3) by (simp add: atLeast0LessThan)
  then have fr: "frame ((\<lambda>k. p + of_nat k) ` {..<16 * M}) w ?w" by (rule frame_range) (use assms(3) in simp)
  have eq: "word_at p w (2 * i) = word_at p w (2 * i + 1)" if "2 * i + 1 < 16 * M" for i
    using assms(5) that by (simp add: paired_def)
  have "word_at p ?w (2 * i) = word_at p ?w (2 * i + 1)" if i: "2 * i + 1 < 16 * M" for i
  proof -
    consider "2 * i + 1 < ?L" | k where "2 * i = ?L + 2 * k" "2 * k + 1 < ?L" | "2 * ?L \<le> 2 * i"
    proof -
      have "2 * i + 1 < ?L \<or> ?L \<le> 2 * i \<and> 2 * i + 1 < 2 * ?L \<or> 2 * ?L \<le> 2 * i" by presburger
      moreover have "2 * i = ?L + 2 * (i - 4 * n) \<and> 2 * (i - 4 * n) + 1 < ?L" if "?L \<le> 2 * i" "2 * i + 1 < 2 * ?L"
        using that by linarith
      ultimately show thesis using that by blast
    qed
    then show ?thesis
    proof cases
      case 1
      let ?r = "(2 * i + (?L - 8)) mod ?L"
      have "even ?r" by (intro dvd_mod) simp_all
      then obtain k where k: "?r = 2 * k" by blast
      have "?r < ?L" using assms(2) by simp
      then have k2: "2 * k + 1 < ?L" unfolding k by presburger
      have k3: "(2 * i + 1 + (?L - 8)) mod ?L = 2 * k + 1"
      proof -
        have "(2 * i + 1 + (?L - 8)) mod ?L = (?r + 1) mod ?L" by (simp add: mod_simps algebra_simps)
        then show ?thesis using k k2 by simp
      qed
      have "word_at p ?w (2 * i) = word_at p w (2 * k)" "word_at p ?w (2 * i + 1) = word_at p w (2 * k + 1)"
        using mh(2) [of "2 * i"] mh(2) [of "2 * i + 1", unfolded k3] 1 k by simp_all
      then show ?thesis using eq [of k] k2 assms(3) by simp
    next
      case (2 k)
      then have "word_at p ?w (2 * i) = word_at p w (2 * k)" "word_at p ?w (2 * i + 1) = word_at p w (2 * k + 1)"
        using mh(1) [of "2 * k"] mh(1) [of "2 * k + 1"] by simp_all
      then show ?thesis using eq [of k] 2 assms(3) by simp
    next
      case 3
      then show ?thesis using frame_word_at [OF mh(3)] eq [OF i] assms(1) i by simp
    qed
  qed
  then show ?thesis using fr by (simp add: paired_def)
qed

lemma half_of_block:
  fixes p pe1 :: ptr
  assumes "unat pe1 = unat p + (16 * n - 1)" "p \<le> pe1" "0 < n" "16 * n \<le> 2 ^ 60"
  shows "unat (word_of_int ((sint (pe1 - p) + 1) sdiv 2) :: u64) = 8 * n"
proof -
  have u: "unat (pe1 - p) = 16 * n - 1" using assms(1,2) by (simp add: unat_sub)
  then have "uint (pe1 - p) = int (16 * n - 1)" by (simp only: uint_nat)
  then have "sint (pe1 - p) = int (16 * n - 1)" using assms(3,4) sint_ptr_small [of "pe1 - p"] by simp
  then have "(sint (pe1 - p) + 1) sdiv 2 = int (8 * n)" using assms(3) by (simp add: signed_divide_int_def)
  then have "(word_of_int ((sint (pe1 - p) + 1) sdiv 2) :: u64) = of_nat (8 * n)" by simp
  moreover have "8 * n < 2 ^ LENGTH(64)" using assms(4) by simp
  ultimately show ?thesis using unat_of_nat_small [of "8 * n", where ?'a = 64] by (simp only:)
qed

lemma for_each_inv:
  assumes "I (work st)" "\<And>x st. I (work st) \<Longrightarrow> I (work (snd (f x st)))"
  shows "I (work (snd (for_each f xs st)))"
  using assms(1)
proof (induction xs arbitrary: st)
  case (Cons x xs)
  then show ?case using assms(2) [of st x] by (simp add: Let_def split_def)
qed simp

lemma move_times_inv:
  assumes "I (work st)" "\<And>w. I w \<Longrightarrow> I (move_half ram p (word_of_int ((sint (pe1 - p) + 1) sdiv 2)) w)"
  shows "I (work (snd (move_times ram cpu bail iterations p pe1 st)))"
  unfolding move_times_def Let_def by (rule for_each_inv) (use assms in \<open>simp_all add: do_tick_def\<close>)

lemma move_scan_inv:
  assumes "scan_range pe e" "I (work st)" "unat p \<le> unat pe" "16 dvd (unat pe - unat p)"
    and "unat e = unat p + (16 * M - 1)" "0 < M" "16 * M \<le> 2 ^ 60"
    and step: "\<And>half n w. I w \<Longrightarrow> 0 < n \<Longrightarrow> n \<le> M \<Longrightarrow> unat half = 8 * n \<Longrightarrow> I (move_half ram p half w)"
  shows "I (work (snd (move_scan ram cpu bail iterations p pe e st)))"
  using assms(1-4)
proof (induction "blocks pe e" arbitrary: pe st)
  case 0
  then show ?case by (simp add: blocks_def)
next
  case (Suc k)
  have le: "pe \<le> e" using Suc.prems(1) by (simp add: scan_range_def)
  obtain m where m: "unat pe = unat p + 16 * m" using Suc.prems(3,4) by (metis dvd_def le_add_diff_inverse)
  have times: "I (work (snd (move_times ram cpu bail iterations p pe1 st)))"
    if to: "pe \<le> pe1" "pe1 \<le> e" "pe1 = e \<or> 2 ^ 27 dvd (unat pe1 + 1 - unat pe)" for pe1
  proof -
    obtain n where n: "m < n" "n \<le> M" "unat pe1 = unat p + (16 * n - 1)"
      using block_end [OF assms(5,6) m _ to(2,3)] to(1) by (auto simp: word_le_nat_alt)
    have "p \<le> pe1" using n(3) by (simp add: word_le_nat_alt)
    moreover have "16 * n \<le> 2 ^ 60" using n(2) assms(7) by linarith
    ultimately have h: "unat (word_of_int ((sint (pe1 - p) + 1) sdiv 2) :: u64) = 8 * n"
      using n(1) by (intro half_of_block [OF n(3)]) simp_all
    show ?thesis using Suc.prems(2) by (rule move_times_inv) (rule step [OF _ _ n(2) h], use n(1) in auto)
  qed
  show ?case
  proof (cases "2 ^ 27 \<le> unat e - unat pe")
    case False
    note near = next_up_near [OF Suc.prems(1) False]
    have "work (snd (move_scan ram cpu bail iterations p pe e st)) = work (snd (move_times ram cpu bail iterations p e st))"
      by (simp add: move_scan.simps [of ram cpu bail iterations p pe e st] near Let_def split_def)
    then show ?thesis using times [of e] le by simp
  next
    case True
    note far = next_up_far [OF Suc.prems(1) True]
    let ?pe1 = "pe + (SPIN_SIZE - 1)"
    have pe2: "?pe1 + 1 = pe + SPIN_SIZE" by simp
    have spin1: "unat (SPIN_SIZE - 1) = 2 ^ 27 - 1" by (simp add: unat_pred spin_unat)
    have u: "unat ?pe1 = unat pe + (2 ^ 27 - 1)"
      using True unat_ptr_less [of e] spin1 by (simp add: unat_word_ariths)
    have u2: "unat (pe + SPIN_SIZE) = unat pe + 2 ^ 27" using word_less_Suc_unat [OF far(3)] u by (simp add: pe2 [simplified])
    have I1: "I (work (snd (move_times ram cpu bail iterations p ?pe1 st)))"
      using far(2,3) u by (intro times) (simp_all add: order_less_imp_le)
    obtain b st1 where t: "move_times ram cpu bail iterations p ?pe1 st = (b, st1)" by fastforce
    have k: "k = blocks (pe + SPIN_SIZE) e" using Suc.hyps(2) far(5) by simp
    have "16 dvd (unat (pe + SPIN_SIZE) - unat p)"
    proof -
      have "unat (pe + SPIN_SIZE) - unat p = 16 * (m + 2 ^ 23)" using m u2 by simp
      then show ?thesis by (simp only: dvd_triv_left)
    qed
    then have "I (work (snd (move_scan ram cpu bail iterations p (pe + SPIN_SIZE) e st1)))"
      using I1 t u2 m by (intro Suc.hyps(1) [OF k far(4)]) simp_all
    moreover have "move_scan ram cpu bail iterations p pe e st =
        (if b then (True, st1) else move_scan ram cpu bail iterations p (pe + SPIN_SIZE) e st1)"
      using far(1,6) t by (simp add: move_scan.simps [of ram cpu bail iterations p pe e st] Let_def pe2 [simplified])
    ultimately show ?thesis using I1 t by simp
  qed
qed

lemma move_check_scan:
  assumes "scan_range p e" "0 \<le> cpu" "unat e = unat p + (16 * M - 1)" "0 < M" "paired p (16 * M) (work st)"
  shows "work (snd (up_scan cpu bail (stride_words 2 (move_check ram)) p p e st)) = work st"
proof -
  obtain ws where ws: "work (snd (up_scan cpu bail (stride_words 2 (move_check ram)) p p e st)) = fold (move_check ram) ws (work st)"
      "set ws \<subseteq> set (strides 2 p e)"
    using up_scan_strides [of 2 cpu p e bail "move_check ram" p st] assms(1,2) by auto
  have "move_check ram q (work st) = work st" if q: "q \<in> set ws" for q
  proof -
    obtain k where k: "q = p + of_nat (k * 2)" "k \<le> (unat e - unat p) div 2" using q ws(2) unfolding set_strides by blast
    have "2 * k + 1 < 16 * M" using k(2) assms(3,4) by (simp add: less_eq_div_iff_mult_less_eq) presburger
    then have "word_at p (work st) (2 * k) = word_at p (work st) (2 * k + 1)" using assms(5) by (simp add: paired_def)
    then have "read_word ram q (memory (work st)) = read_word ram (q + 1) (memory (work st))"
      unfolding k(1) by (simp add: word_at_def cell_def algebra_simps)
    then show ?thesis by (simp add: move_check_def Let_def)
  qed
  then have "fold (move_check ram) ws (work st) = work st" by (induction ws) simp_all
  then show ?thesis using ws(1) by simp
qed

section \<open>All chunks\<close>

definition pairs_in :: "chunk_config \<Rightarrow> int \<Rightarrow> vm_map_t \<Rightarrow> 'm test_state \<Rightarrow> bool" where
  "pairs_in cfg cpu seg w \<longleftrightarrow> (let (s, e) = calculate_chunk cfg cpu seg (16 * 8) in scan_range s e \<longrightarrow> paired s (unat e - unat s + 1) w)"

lemma paired_frame:
  assumes "frame A w w'" "{p..p + of_nat (N - 1)} \<inter> A = {}" "unat p + N \<le> 2 ^ 61" "paired p N w"
  shows "paired p N w'"
proof -
  have "word_at p w' i = word_at p w i" if "i < N" for i
  proof -
    have "unat (p + of_nat i) = unat p + i" "unat (p + of_nat (N - 1)) = unat p + (N - 1)"
      using assms(3) that by (intro unat_ptr_add; linarith)+
    then have "p + of_nat i \<in> {p..p + of_nat (N - 1)}" using that by (simp add: word_le_nat_alt)
    then have "p + of_nat i \<notin> A" using assms(2) by blast
    then show ?thesis using assms(1) by (simp add: frame_def word_at_def)
  qed
  then show ?thesis using assms(4) by (simp add: paired_def)
qed

lemma chunk_image:
  fixes s e :: ptr
  assumes "s \<le> e"
  shows "(\<lambda>k. s + of_nat k) ` {..<unat e - unat s + 1} = {s..e}"
proof -
  have "(\<lambda>k. s + of_nat k) ` {..<unat e - unat s + 1} = set (words s e)"
    by (auto simp: words_def simp del: upt_Suc)
  then show ?thesis using set_words [OF assms] by simp
qed

lemma pairs_in_frame:
  assumes "chunks_ok_at cfg cpu (16 * 8) segs" "seg \<in> set segs" "seg1 \<in> set segs" "seg \<noteq> seg1"
    and "frame (span cfg cpu (16 * 8) seg1) w w'" "pairs_in cfg cpu seg w"
  shows "pairs_in cfg cpu seg w'"
proof -
  obtain s e where c: "calculate_chunk cfg cpu seg (16 * 8) = (s, e)" by fastforce
  have "paired s (unat e - unat s + 1) w'" if r: "scan_range s e"
  proof (rule paired_frame [OF assms(5)])
    have le: "s \<le> e" "unat s \<le> unat e" using r by (simp_all add: scan_range_def word_le_nat_alt)
    have "s + of_nat (unat e - unat s + 1 - 1) = e" using le by (simp add: of_nat_diff)
    then show "{s..s + of_nat (unat e - unat s + 1 - 1)} \<inter> span cfg cpu (16 * 8) seg1 = {}"
      using chunks_disjoint [OF assms(1-3)] assms(4) c by (simp add: span_def)
    show "unat s + (unat e - unat s + 1) \<le> 2 ^ 61" using le unat_ptr_less [of e] by linarith
    show "paired s (unat e - unat s + 1) w" using assms(6) c r by (simp add: pairs_in_def)
  qed
  then show ?thesis using c by (simp add: pairs_in_def)
qed

text \<open>A step that touches only its own chunk and leaves it paired keeps the other chunks paired.\<close>

lemma pairs_in_others:
  assumes "chunks_ok_at cfg cpu (16 * 8) segs" "seg1 \<in> set segs" "frame (span cfg cpu (16 * 8) seg1) w w'" "pairs_in cfg cpu seg1 w'"
    and "seg \<in> set segs" "pairs_in cfg cpu seg w"
  shows "pairs_in cfg cpu seg w'"
  using pairs_in_frame [OF assms(1,5,2) _ assms(3,6)] assms(4) by blast

lemma frame_errors: "frame A w w' \<Longrightarrow> errors_at w' = errors_at w"
  by (simp add: frame_def errors_at_def)

text \<open>The chunk of a segment: nothing to do, or a whole number of blocks of 16 words.\<close>

lemma move_chunk_cases:
  assumes "chunks_ok_at cfg cpu (16 * 8) segs" "chunks_of_16 cfg cpu segs" "seg \<in> set segs"
  obtains (skip) "\<And>n scan (st :: 'm test_state scan_state). work (snd (move_chunk cfg cpu bail n scan seg st)) = work st" "\<And>w. pairs_in cfg cpu seg w"
  | (blocks) s e M where "scan_range s e" "0 \<le> cpu" "unat e = unat s + (16 * M - 1)" "0 < M" "16 * M \<le> 2 ^ 60"
    "\<And>n (scan :: ptr \<Rightarrow> ptr \<Rightarrow> 'm test_run). move_chunk cfg cpu bail n scan seg = scan s e"
    "span cfg cpu (16 * 8) seg = (\<lambda>k. s + of_nat k) ` {..<16 * M}" "\<And>w. pairs_in cfg cpu seg w = paired s (16 * M) w"
proof -
  obtain s e where c: "calculate_chunk cfg cpu seg (16 * 8) = (s, e)" by fastforce
  from assms(1,3) c show thesis
  proof (cases rule: chunk_cases [case_names range empty])
    case empty
    have "\<not> scan_range s e" using empty(1) by (auto simp: scan_range_def)
    then show ?thesis
      using c sint_empty [OF empty(2)] by (intro skip) (simp_all add: move_chunk_def SKIP_RANGE_work pairs_in_def)
  next
    case range
    have le: "s \<le> e" "unat s \<le> unat e" "unat e - unat s < 2 ^ 60" using range(1) by (simp_all add: scan_range_def word_le_nat_alt)
    have "16 dvd (unat e - unat s + 1)" using bspec [OF assms(2) [unfolded chunks_of_16_def] assms(3)] c le(1) by simp
    then obtain M where M: "unat e - unat s + 1 = 16 * M" by (auto simp: dvd_def)
    have M0: "0 < M" using M by simp
    show ?thesis
    proof (rule blocks [OF range(1,2) _ M0])
      show "unat e = unat s + (16 * M - 1)" using M le(2) by simp
      show "16 * M \<le> 2 ^ 60" using M le(3) by simp
      have "unat e - unat s = 16 * M - 1" using M by simp
      then have "15 \<le> sint (e - s)" unfolding sint_chunk [OF range(1)] using M0 by simp
      then show "move_chunk cfg cpu bail n scan seg = scan s e" for n scan
        using c by (intro ext) (simp add: move_chunk_def)
      show "span cfg cpu (16 * 8) seg = (\<lambda>k. s + of_nat k) ` {..<16 * M}"
        using chunk_image [OF le(1)] c M by (simp add: span_def)
      show "pairs_in cfg cpu seg w = paired s (16 * M) w" for w
        using c range(1) M by (simp add: pairs_in_def)
    qed
  qed
qed

lemma finds_block_move:
  assumes ok: "chunks_ok_at cfg cpu (16 * 8) segs" "chunks_of_16 cfg cpu segs"
  shows "finds (\<lambda>w. w) (\<lambda>_. True) {} (\<lambda>_. True) (test_block_move ram cfg cpu bail segs iterations)"
proof -
  let ?I = "\<lambda>w. \<forall>seg \<in> set segs. pairs_in cfg cpu seg w"
  let ?init = "move_chunk cfg cpu bail 1 (\<lambda>s e. up_scan cpu bail (move_init_block ram) s s e)"
  let ?move = "move_chunk cfg cpu bail (nat iterations) (\<lambda>s e. move_scan ram cpu bail iterations s s e)"
  let ?check = "move_chunk cfg cpu bail 1 (\<lambda>s e. up_scan cpu bail (stride_words 2 (move_check ram)) s s e)"
  have init: "finds (\<lambda>w. w) (\<lambda>w. \<forall>j < i. pairs_in cfg cpu (segs ! j) w) {} (\<lambda>w. \<forall>j < Suc i. pairs_in cfg cpu (segs ! j) w) (?init (segs ! i))"
    if i: "i < length segs" for i
  proof (rule findsI)
    fix st :: "'m test_state scan_state"
    assume P: "\<forall>j < i. pairs_in cfg cpu (segs ! j) (work st)"
    let ?r = "?init (segs ! i) st"
    have "frame (span cfg cpu (16 * 8) (segs ! i)) (work st) (work (snd ?r)) \<and> (\<not> fst ?r \<longrightarrow> pairs_in cfg cpu (segs ! i) (work (snd ?r)))"
    proof (cases rule: move_chunk_cases [OF ok nth_mem [OF i], where bail = bail, case_names skip blocks])
      case skip
      then show ?thesis by simp
    next
      case (blocks s e M)
      from move_init_scan [OF blocks(1-4) refl, where bail = bail and st = st] show ?thesis unfolding blocks(6-8) by simp
    qed
    then show "errors_at (work (snd ?r)) \<subseteq> errors_at (work st) \<union> {} \<and>
        (\<not> fst ?r \<longrightarrow> (\<forall>j < Suc i. pairs_in cfg cpu (segs ! j) (work (snd ?r))) \<and> errors_at (work (snd ?r)) = errors_at (work st) \<union> {})"
      using frame_errors [of _ "work st" "work (snd ?r)"] P pairs_in_others [OF ok(1) nth_mem [OF i], of "work st" "work (snd ?r)"] i
      by (auto simp: less_Suc_eq)
  qed
  have move: "finds (\<lambda>w. w) ?I {} ?I (?move seg)" if seg: "seg \<in> set segs" for seg
  proof (rule findsI)
    fix st :: "'m test_state scan_state"
    assume P: "?I (work st)"
    let ?r = "?move seg st"
    have "frame (span cfg cpu (16 * 8) seg) (work st) (work (snd ?r)) \<and> pairs_in cfg cpu seg (work (snd ?r))"
    proof (cases rule: move_chunk_cases [OF ok seg, where bail = bail, case_names skip blocks])
      case skip
      then show ?thesis by simp
    next
      case (blocks s e M)
      have N: "unat s + 16 * M \<le> 2 ^ 61" using blocks(3,4) unat_ptr_less [of e] by linarith
      let ?A = "(\<lambda>k. s + of_nat k) ` {..<16 * M}"
      have "frame ?A (work st) (work (snd (move_scan ram cpu bail iterations s s e st))) \<and>
          paired s (16 * M) (work (snd (move_scan ram cpu bail iterations s s e st)))"
      proof (rule move_scan_inv [where I = "\<lambda>w. frame ?A (work st) w \<and> paired s (16 * M) w", OF blocks(1) _ _ _ blocks(3-5)])
        show "frame ?A (work st) (work st) \<and> paired s (16 * M) (work st)" using bspec [OF P seg] by (simp add: blocks(8))
        show "frame ?A (work st) (move_half ram s half w) \<and> paired s (16 * M) (move_half ram s half w)"
          if "frame ?A (work st) w \<and> paired s (16 * M) w" "0 < n" "n \<le> M" "unat half = 8 * n" for half n w
          using move_half_paired [OF N that(2-4)] that(1) frame_trans by blast
      qed simp_all
      then show ?thesis unfolding blocks(6-8) by simp
    qed
    then show "errors_at (work (snd ?r)) \<subseteq> errors_at (work st) \<union> {} \<and>
        (\<not> fst ?r \<longrightarrow> ?I (work (snd ?r)) \<and> errors_at (work (snd ?r)) = errors_at (work st) \<union> {})"
      using frame_errors [of _ "work st" "work (snd ?r)"] P pairs_in_others [OF ok(1) seg, of "work st" "work (snd ?r)"] by blast
  qed
  have check: "finds (\<lambda>w. w) ?I {} ?I (?check seg)" if seg: "seg \<in> set segs" for seg
  proof (rule findsI)
    fix st :: "'m test_state scan_state"
    assume P: "?I (work st)"
    have "work (snd (?check seg st)) = work st"
    proof (cases rule: move_chunk_cases [OF ok seg, where bail = bail, case_names skip blocks])
      case skip
      then show ?thesis by simp
    next
      case (blocks s e M)
      then show ?thesis using move_check_scan [OF blocks(1-4), where st = st and bail = bail] bspec [OF P seg] by simp
    qed
    then show "errors_at (work (snd (?check seg st))) \<subseteq> errors_at (work st) \<union> {} \<and>
        (\<not> fst (?check seg st) \<longrightarrow> ?I (work (snd (?check seg st))) \<and> errors_at (work (snd (?check seg st))) = errors_at (work st) \<union> {})"
      using P by simp
  qed
  have "finds (\<lambda>w. w) (\<lambda>_. True) {} ?I (for_each ?init segs)"
    by (rule finds_weaken [OF finds_for_each [of segs "\<lambda>w. w" "\<lambda>i w. \<forall>j < i. pairs_in cfg cpu (segs ! j) w" "\<lambda>_. {}", OF init]])
      (auto simp: in_set_conv_nth)
  moreover have "finds (\<lambda>w. w) ?I {} ?I (for_each ?move segs)" using finds_loop [OF move] by simp
  moreover have "finds (\<lambda>w. w) ?I {} ?I (for_each ?check segs)" using finds_loop [OF check] by simp
  ultimately show ?thesis
    unfolding test_block_move_def
    by (intro finds_weaken [OF finds_and_then [OF _ finds_and_then]]) simp_all
qed

end

interpretation sound: sound_ram "faulty_ram (\<lambda>p. p) (\<lambda>_ v. v)"
  by unfold_locales

text \<open>
  On sound RAM the block move reports no error, whatever the number of iterations, also when it is abandoned half-way:
  every round of moves keeps the pairs of equal words. The chunks must be whole blocks of 16 words.
\<close>
theorem block_move_no_false_alarm:
  assumes "chunks_ok_at cfg cpu (16 * 8) segs" "chunks_of_16 cfg cpu segs" "reports (work st) = []"
  shows "reports (work (snd (test_block_move (faulty_ram (\<lambda>p. p) (\<lambda>_ v. v)) cfg cpu bail segs iterations st))) = []"
proof -
  have "errors_at (work st) = {}" using assms(3) by (simp add: errors_at_def)
  then have "errors_at (work (snd (test_block_move (faulty_ram (\<lambda>p. p) (\<lambda>_ v. v)) cfg cpu bail segs iterations st))) = {}"
    using findsD(1) [OF sound.finds_block_move [OF assms(1,2)], where st = st] by simp
  then show ?thesis by (simp add: errors_at_def)
qed

definition sixteen_words :: "vm_map_t list" where
  "sixteen_words = [\<lparr>pm_base_addr = 1, vm_start = 0x200, vm_end = 0x20f, proximity_domain_idx = 0\<rparr>]"

lemma sixteen_words_ok: "chunks_ok_at one_cpu 0 (16 * 8) sixteen_words" "chunks_of_16 one_cpu 0 sixteen_words"
  by (simp_all add: chunks_ok_at_def chunks_of_16_def sixteen_words_def calculate_chunk_def one_cpu_def scan_range_def)

theorem block_move_no_false_alarm_witness:
  "reports (work (snd (test_block_move (faulty_ram (\<lambda>p. p) (\<lambda>_ v. v)) one_cpu 0 (\<lambda>_. False) sixteen_words 80 blank_state))) = []"
  by (rule block_move_no_false_alarm [OF sixteen_words_ok blank_reports])

end
