(* ===== verification/Vec_Spec.thy ===== *)
theory Vec_Spec
  imports Stride_Spec
begin

text \<open>
  The vector kernels: stepping the random sequence back, the SIMD kernels against the scalar ones, and what the tests with
  random sequences find.
\<close>

section \<open>The sequence backwards\<close>

lemma xor_cancel: "(x XOR y) XOR (y XOR z) = x XOR z" for x y z :: u64
  by (simp add: xor.assoc)

lemma undo_lshift: "0 < k \<Longrightarrow> prsg_undo_lshift (x XOR push_bit k x) k = x"
proof (induction "x XOR push_bit k x" k rule: prsg_undo_lshift.induct)
  case (1 k)
  show ?case
  proof (cases "k < 64")
    case True
    have "push_bit k (x XOR push_bit k x) = push_bit k x XOR push_bit (k * 2) x"
      by (simp add: push_bit_xor push_bit_push_bit flip: mult_2_right)
    then have "(x XOR push_bit k x) XOR push_bit k (x XOR push_bit k x) = x XOR push_bit (k * 2) x"
      by (simp add: xor_cancel)
    then show ?thesis using 1 True by (subst prsg_undo_lshift.simps) simp
  next
    case False
    then have "push_bit k x = 0" by (intro bit_eqI) (simp add: bit_simps)
    then show ?thesis using False by (subst prsg_undo_lshift.simps) simp
  qed
qed

lemma undo_rshift: "0 < k \<Longrightarrow> prsg_undo_rshift (x XOR drop_bit k x) k = x"
proof (induction "x XOR drop_bit k x" k rule: prsg_undo_rshift.induct)
  case (1 k)
  show ?case
  proof (cases "k < 64")
    case True
    have "drop_bit k (x XOR drop_bit k x) = drop_bit k x XOR drop_bit (k * 2) x"
      by (simp add: drop_bit_xor drop_bit_drop_bit flip: mult_2_right)
    then have "(x XOR drop_bit k x) XOR drop_bit k (x XOR drop_bit k x) = x XOR drop_bit (k * 2) x"
      by (simp add: xor_cancel)
    then show ?thesis using 1 True by (subst prsg_undo_rshift.simps) simp
  next
    case False
    then have "drop_bit k x = 0" by (intro bit_eqI) (simp add: bit_simps)
    then show ?thesis using False by (subst prsg_undo_rshift.simps) simp
  qed
qed

lemma prsg_inverse: "prsg_inverse (prsg s) = s"
  unfolding prsg_inverse_def prsg_def Let_def by (simp only: undo_lshift undo_rshift zero_less_numeral)

lemma simd_back: "simd_back s = prsg_inverse s"
  by (simp add: simd_back_def prsg_inverse_def Let_def prsg_undo_lshift.simps prsg_undo_rshift.simps)

lemma step_back_fwd: "step_back splat (step_fwd splat l) = l"
  by (simp add: step_back_def step_fwd_def comp_def prsg_inverse)

section \<open>SIMD kernels\<close>

lemma vec_fill_simd: "i < n \<Longrightarrow> vec_fill_simd ram splat n i p sw = vec_fill_scalar ram splat (n - i) p sw"
proof (induction ram splat n i p sw rule: vec_fill_simd.induct)
  case (1 ram splat n i p sw)
  show ?case
  proof (cases "i + 1 < n")
    case True
    then have "n - i = Suc (n - (i + 1))" by simp
    then show ?thesis using 1(1) [OF refl True True] True by (subst vec_fill_simd.simps) (simp add: Let_def)
  next
    case False
    then have "n - i = Suc 0" using 1(2) by simp
    then show ?thesis using False by (subst vec_fill_simd.simps) (simp add: Let_def)
  qed
qed

lemma vec_check_fwd_append:
  "vec_check_fwd_scalar ram splat badram (a + b) p sw =
   vec_check_fwd_scalar ram splat badram b (p + of_nat a * of_nat VEC_LANES) (vec_check_fwd_scalar ram splat badram a p sw)"
  by (induction a arbitrary: p sw) (simp_all add: algebra_simps)

text \<open>The descending check by its last block.\<close>

primrec rev_from ::
  "'m ram_ops \<Rightarrow> bool \<Rightarrow> bool \<Rightarrow> nat \<Rightarrow> ptr \<Rightarrow> vec_state \<times> 'm test_state \<Rightarrow> vec_state \<times> 'm test_state"
where
  "rev_from ram splat badram 0 q sw = sw"
| "rev_from ram splat badram (Suc n) q sw =
     (let st = step_back splat (fst sw) in rev_from ram splat badram n (q - of_nat VEC_LANES) (st, rev_block ram badram q st (snd sw)))"

lemma rev_from_scalar:
  "vec_check_rev_scalar ram splat badram n p sw = rev_from ram splat badram n (p + (of_nat n - 1) * of_nat VEC_LANES) sw"
  by (induction n arbitrary: sw) (simp_all add: Let_def algebra_simps)

lemma rev_from_append:
  "rev_from ram splat badram (a + b) q sw =
   rev_from ram splat badram b (q - of_nat a * of_nat VEC_LANES) (rev_from ram splat badram a q sw)"
  by (induction a arbitrary: q sw) (simp_all add: Let_def algebra_simps)

context cell_ram begin

lemma read_put_other: "q \<noteq> p \<Longrightarrow> read_word ram q (memory (put_word ram p v w)) = read_word ram q (memory w)"
  by simp

lemma check_block_match:
  assumes "length evs < 2 ^ 61" "\<And>i. i < length evs \<Longrightarrow> read_word ram (p + of_nat i) (memory w) = fst (evs ! i)"
  shows "check_block ram badram p evs w = put_words ram p (map snd evs) w"
  using assms
proof (induction evs arbitrary: p w)
  case Nil
  then show ?case by simp
next
  case (Cons ev evs)
  have "check_word ram badram p (fst ev) w = w" using Cons.prems(2) [of 0] by (simp add: check_word_def Let_def)
  moreover have "read_word ram (p + 1 + of_nat i) (memory (put_word ram p (snd ev) w)) = fst (evs ! i)" if i: "i < length evs" for i
  proof -
    have "unat (of_nat (Suc i) :: ptr) = Suc i" using i Cons.prems(1) by (intro unat_of_nat_small) simp
    then have "(of_nat (Suc i) :: ptr) \<noteq> 0" by auto
    then have "p + 1 + of_nat i \<noteq> p" by (simp add: add.assoc)
    then show ?thesis using Cons.prems(2) [of "Suc i"] i by (simp add: add.assoc)
  qed
  ultimately show ?case using Cons.IH [of "p + 1" "put_word ram p (snd ev) w"] Cons.prems(1) by simp
qed

lemma load_block_match:
  assumes "load_block ram p w = map fst evs"
  shows "check_block ram badram p evs w = put_words ram p (map snd evs) w"
proof (rule check_block_match)
  have l: "length evs = VEC_LANES" using assms by (metis length_map length_upt load_block_def minus_nat.diff_0)
  then show "length evs < 2 ^ 61" by (simp add: VEC_LANES_def)
  show "read_word ram (p + of_nat i) (memory w) = fst (evs ! i)" if i: "i < length evs" for i
  proof -
    have "load_block ram p w ! i = map fst evs ! i" by (simp only: assms)
    then show ?thesis using i l by (simp add: load_block_def)
  qed
qed

lemma fwd_block_match:
  "load_block ram p w = st \<Longrightarrow> fwd_block ram badram p st w = put_words ram p (map NOT st) w"
  using load_block_match [of p w "map (\<lambda>x. (x, NOT x)) st" badram] by (simp add: fwd_block_def comp_def)

lemma rev_block_match:
  "load_block ram p w = map NOT st \<Longrightarrow> rev_block ram badram p st w = put_words ram p st w"
  using load_block_match [of p w "map (\<lambda>x. (NOT x, x)) st" badram] by (simp add: rev_block_def comp_def)

lemma vec_scan_fwd:
  assumes "d < n" "vec_scan_fwd ram splat n d p sw = (d', sw')"
  shows "d \<le> d' \<and> d' \<le> n \<and> sw' = vec_check_fwd_scalar ram splat badram (d' - d) p sw"
  using assms
proof (induction "n - d" arbitrary: d p sw)
  case 0
  then show ?case by simp
next
  case (Suc k)
  let ?sw1 = "(step_fwd splat (fst sw), put_words ram p (map NOT (fst sw)) (snd sw))"
  show ?case
  proof (cases "load_block ram p (snd sw) = fst sw")
    case False
    then show ?thesis using Suc.prems by (simp add: vec_scan_fwd.simps [of ram splat n d p sw])
  next
    case True
    note m = fwd_block_match [OF True]
    show ?thesis
    proof (cases "d + 1 < n")
      case False
      then show ?thesis using Suc.prems True m by (auto simp: vec_scan_fwd.simps [of ram splat n d p sw] Let_def)
    next
      case d: True
      have "vec_scan_fwd ram splat n (d + 1) (p + of_nat VEC_LANES) ?sw1 = (d', sw')"
        using Suc.prems(2) True d by (simp add: vec_scan_fwd.simps [of ram splat n d p sw] Let_def)
      from Suc.hyps(1) [OF _ d this] Suc.hyps(2)
      have "d + 1 \<le> d'" "d' \<le> n" "sw' = vec_check_fwd_scalar ram splat badram (d' - (d + 1)) (p + of_nat VEC_LANES) ?sw1"
        by simp_all
      moreover have "d' - d = Suc (d' - (d + 1))" using \<open>d + 1 \<le> d'\<close> by simp
      ultimately show ?thesis using m by simp
    qed
  qed
qed

lemma vec_check_fwd_simd: "vec_check_fwd_simd ram splat badram n p sw = vec_check_fwd_scalar ram splat badram n p sw"
proof (induction n arbitrary: p sw rule: less_induct)
  case (less n)
  show ?case
  proof (cases "n = 0")
    case True
    then show ?thesis by (simp add: vec_check_fwd_simd.simps)
  next
    case False
    obtain d sw1 where scan: "vec_scan_fwd ram splat n 0 p sw = (d, sw1)" by (rule prod.exhaust)
    note s = vec_scan_fwd [OF _ scan, of badram]
    have d: "d \<le> n" "sw1 = vec_check_fwd_scalar ram splat badram d p sw" using s False by simp_all
    show ?thesis
    proof (cases "n - d = 0")
      case True
      then have "d = n" using d(1) by simp
      then show ?thesis using d(2) scan False by (subst vec_check_fwd_simd.simps) simp
    next
      case nd: False
      let ?q = "p + of_nat d * of_nat VEC_LANES"
      have "vec_check_fwd_simd ram splat badram n p sw =
          vec_check_fwd_scalar ram splat badram (n - d - 1) (?q + of_nat VEC_LANES) (vec_check_fwd_scalar ram splat badram 1 ?q sw1)"
        using less [of "n - d - 1"] False nd scan
        by (simp add: vec_check_fwd_simd.simps [of ram splat badram n p sw] Let_def)
      also have "\<dots> = vec_check_fwd_scalar ram splat badram (d + (1 + (n - d - 1))) p sw"
        unfolding d(2) vec_check_fwd_append [of ram splat badram d] by (simp only: vec_check_fwd_append of_nat_1 mult_1)
      also have "d + (1 + (n - d - 1)) = n" using nd by simp
      finally show ?thesis .
    qed
  qed
qed

lemma vec_scan_rev:
  assumes "d < n" "vec_scan_rev ram splat n d q sw = (d', l, w)"
  shows "d \<le> d' \<and> d' \<le> n \<and>
    (if d' = n then (l, w) = rev_from ram splat badram (n - d) q sw
     else (\<exists>l1. l = step_back splat l1 \<and> (l1, w) = rev_from ram splat badram (d' - d) q sw))"
  using assms
proof (induction "n - d" arbitrary: d q sw)
  case 0
  then show ?case by simp
next
  case (Suc k)
  have stepped: "(if splat then fst sw else map simd_back (fst sw)) = step_back splat (fst sw)"
    by (simp add: step_back_def simd_back)
  have d_less: "d \<le> n" using Suc.prems(1) by simp
  let ?st = "step_back splat (fst sw)"
  let ?sw1 = "(?st, put_words ram q ?st (snd sw))"
  show ?case
  proof (cases "load_block ram q (snd sw) = map NOT ?st")
    case False
    then have "d' = d \<and> l = ?st \<and> w = snd sw"
      using Suc.prems by (simp add: vec_scan_rev.simps [of ram splat n d q sw] stepped Let_def)
    then show ?thesis using Suc.prems(1) by (auto intro: exI [of _ "fst sw"])
  next
    case True
    note m = rev_block_match [OF True]
    show ?thesis
    proof (cases "d + 1 < n")
      case False
      then have "d' = n \<and> (l, w) = ?sw1 \<and> n - d = 1"
        using Suc.prems True by (auto simp: vec_scan_rev.simps [of ram splat n d q sw] stepped Let_def)
      then show ?thesis using m d_less by (simp add: Let_def)
    next
      case d: True
      have "vec_scan_rev ram splat n (d + 1) (q - of_nat VEC_LANES) ?sw1 = (d', l, w)"
        using Suc.prems(2) True d by (simp add: vec_scan_rev.simps [of ram splat n d q sw] stepped Let_def)
      note IH = Suc.hyps(1) [OF _ d this]
      have le: "d + 1 \<le> d'" using IH Suc.hyps(2) by simp
      have suc: "n - d = Suc (n - (d + 1))" "d' - d = Suc (d' - (d + 1))" using le d by simp_all
      show ?thesis using IH Suc.hyps(2) m unfolding suc by (simp add: Let_def split: if_splits)
    qed
  qed
qed

lemma vec_check_rev_simd: "vec_check_rev_simd ram splat badram n q sw = rev_from ram splat badram n q sw"
proof (induction n arbitrary: q sw rule: less_induct)
  case (less n)
  show ?case
  proof (cases "n = 0")
    case True
    then show ?thesis by (simp add: vec_check_rev_simd.simps)
  next
    case False
    obtain d l w where scan: "vec_scan_rev ram splat n 0 q sw = (d, l, w)" by (rule prod_cases3)
    note s = vec_scan_rev [OF _ scan, of badram]
    show ?thesis
    proof (cases "d = n")
      case True
      then show ?thesis using s scan False by (subst vec_check_rev_simd.simps) simp
    next
      case dn: False
      obtain l1 where l1: "l = step_back splat l1" "(l1, w) = rev_from ram splat badram d q sw" "d < n"
        using s False dn by auto
      let ?q1 = "q - of_nat d * of_nat VEC_LANES"
      have "vec_check_rev_simd ram splat badram n q sw =
          rev_from ram splat badram (n - d - 1) (?q1 - of_nat VEC_LANES) (l, rev_block ram badram ?q1 l w)"
        using less [of "n - d - 1"] False dn l1(3) scan
        by (simp add: vec_check_rev_simd.simps [of ram splat badram n q sw] Let_def)
      also have "\<dots> = rev_from ram splat badram (Suc (n - d - 1)) ?q1 (l1, w)" using l1(1) by (simp add: Let_def)
      also have "\<dots> = rev_from ram splat badram (d + Suc (n - d - 1)) q sw" unfolding rev_from_append l1(2) ..
      also have "d + Suc (n - d - 1) = n" using l1(3) by simp
      finally show ?thesis .
    qed
  qed
qed

end

text \<open>
  On memory of cells, whatever cells are faulty, the vector kernels of every tier (the SIMD code with its scans that stop at a
  mismatch, its fix-up and its own steps of the sequence) leave the same memory, the same lanes and the same reports in the same
  order as the portable loops; a fill has to have a block to fill.
\<close>
theorem vec_kernels_equivalent:
  fixes g :: "ptr \<Rightarrow> u64 \<Rightarrow> u64"
  assumes "0 < n"
  shows "vec_fill tier (faulty_ram (\<lambda>p. p) g) splat n p sw = vec_fill_scalar (faulty_ram (\<lambda>p. p) g) splat n p sw \<and>
    vec_check_fwd tier (faulty_ram (\<lambda>p. p) g) splat badram n p sw =
      vec_check_fwd_scalar (faulty_ram (\<lambda>p. p) g) splat badram n p sw \<and>
    vec_check_rev tier (faulty_ram (\<lambda>p. p) g) splat badram n p sw =
      vec_check_rev_scalar (faulty_ram (\<lambda>p. p) g) splat badram n p sw"
  using assms
  by (simp add: vec_fill_def Vec_Spec.vec_fill_simd vec_check_fwd_def cells.vec_check_fwd_simd vec_check_rev_def
      cells.vec_check_rev_simd rev_from_scalar)

theorem vec_kernels_equivalent_witness:
  "vec_check_fwd SIMD_AVX2 (faulty_ram (\<lambda>p. p) stuck_cell) False True 3 0x200 (seed_lanes 1 False, work blank_state) =
   vec_check_fwd_scalar (faulty_ram (\<lambda>p. p) stuck_cell) False True 3 0x200 (seed_lanes 1 False, work blank_state)"
  using vec_kernels_equivalent [of 3 SIMD_AVX2 stuck_cell False "0x200" "(seed_lanes 1 False, work blank_state)" True] by simp

end
