(* ===== verification/Spec2Isabelle.thy ===== *)
theory Spec2Isabelle
  imports Prelude Settings Badram Badram_Spec Pmem Pmem_Map Heap Vmem Test_Engine Test_Scan Mem_Tests Ram_Contract
    Mem_Tests_Spec Bytes Usb_Msd Fat32 Fat32_Table Fat32_File Usb_Drive Fat32_Spec
    C_String Print Read_Value Text_Spec Config_Options Config_Menu Config_Spec Barrier Fat32_Delete Fat32_Undo Usb_Hcd Usb_Hcd_Spec
    Config_File Config_File_Spec Run_Loop Run_Windows Run_Windows_Spec Run_Schedule Error_Log Error_Log_Spec Spd Spd_Spec Stride_Tests Vec_Tests
    Op_Trace Stride_Spec Walk_Spec Move_Spec Vec_Spec
begin

text \<open>
  Memtest86+ under verification.
\<close>

end
